(* ===== verification/Kernel_Prelude.thy ===== *)
theory Kernel_Prelude
  imports Main "HOL-Library.Word" "HOL-Library.Multiset"
begin

text \<open>
  Shared vocabulary of the development: the machine integer types of the 32-bit ARM
  configuration, the error numbers of \<^verbatim>\<open>include/asm-generic/errno-base.h\<close> as a datatype, the
  C operators that differ from their HOL counterparts, and the generic facts on lists, bytes
  and words that several components use.  The locale \<open>invariant_system\<close> states once what it
  means for a predicate to be an invariant of a step relation; the lock components
  interpret it on their own steps.
\<close>

unbundle bit_operations_syntax

section \<open>Machine types and errors\<close>

type_synonym u8 = "8 word"
type_synonym u16 = "16 word"
type_synonym u32 = "32 word"
type_synonym u64 = "64 word"

text \<open>Tasks are named by numbers, as by their pids.\<close>

type_synonym tid = nat

text \<open>
  Error numbers the modelled functions return.  A C result that is \<open>0\<close> or \<open>-E\<close> is a value of
  \<open>errno + 'a\<close>, with \<open>Inl E\<close> for \<open>-E\<close>.
\<close>

datatype errno = EPERM | ENOENT | EINTR | EIO | EAGAIN | ENOMEM | EACCES | EFAULT | EBUSY
  | EINVAL | EDEADLK | ENOLCK | ENOSYS | ENODATA | ETIME | EOVERFLOW | EOPNOTSUPP | ENODEV | ESRCH | EBADF
  | ERESTARTSYS | ERESTARTNOHAND | ENOMSG | ENOSPC | EEXIST | EIDRM | ERANGE | E2BIG | EFBIG
  | EROFS | ETXTBSY | ECHILD

type_synonym 'a kresult = "errno + 'a"

abbreviation Ok :: "unit kresult" where
  "Ok \<equiv> Inr ()"

text \<open>What is left of an integer that is stored in a signed variable of \<open>n\<close> bits.\<close>

definition wrap_s :: "nat \<Rightarrow> int \<Rightarrow> int" where
  "wrap_s n x = (x + 2 ^ (n - 1)) mod 2 ^ n - 2 ^ (n - 1)"

named_theorems kwidth \<open>facts that move between words and their unsigned value\<close>

section \<open>Words\<close>

lemma unat_dec [kwidth]: "(0 :: 'a :: len word) < x \<Longrightarrow> unat (x - 1) + 1 = unat x"
  using unat_minus_one [of x] unat_gt_0 [of x] by (simp add: word_neq_0_conv)

lemma unat_inc [kwidth]:
  "unat (x :: 'a :: len word) + 1 < 2 ^ LENGTH('a) \<Longrightarrow> unat (x + 1) = unat x + 1"
  by (simp add: unat_word_ariths)

lemma word_inc_le: "(x :: 'a :: len word) \<noteq> - 1 \<Longrightarrow> x + 1 \<le> y \<longleftrightarrow> x < y"
proof -
  assume "x \<noteq> - 1"
  then have "x + 1 \<noteq> 0" by (metis add_eq_0_iff add.commute)
  then have "unat (x + 1) = unat x + 1"
    by (metis Suc_eq_plus1 add.commute unatSuc)
  then show ?thesis by (simp add: word_le_nat_alt word_less_nat_alt Suc_le_eq)
qed

lemma unat_bound: "unat (w :: 'a :: len word) < 2 ^ LENGTH('a)"
  by (rule unsigned_less)

lemma unat_of_nat_small [kwidth]: "n < 2 ^ LENGTH('a) \<Longrightarrow> unat (of_nat n :: 'a :: len word) = n"
  by (simp add: unat_of_nat take_bit_nat_eq_self)

lemma sint_small [kwidth]:
  "unat (w :: 'a :: len word) < 2 ^ (LENGTH('a) - 1) \<Longrightarrow> sint w = int (unat w)"
proof -
  assume "unat w < 2 ^ (LENGTH('a) - 1)"
  then have "uint w < 2 ^ (LENGTH('a) - 1)"
    by (metis of_nat_less_iff of_nat_numeral of_nat_power uint_nat)
  then have "signed_take_bit (LENGTH('a) - 1) (uint w) = uint w"
    by (intro signed_take_bit_int_eq_self) (auto intro: order_trans [of _ 0])
  then show ?thesis
    by (simp only: sint_uint uint_nat One_nat_def)
qed

lemma unat_exp32 [kwidth]: "k < 32 \<Longrightarrow> unat ((2 :: u32) ^ k) = 2 ^ k"
proof -
  assume "k < 32"
  then have "(2 :: nat) ^ k < 2 ^ 32" by (simp only: power_strict_increasing_iff)
  then have "unat (of_nat (2 ^ k) :: u32) = 2 ^ k" by (intro unat_of_nat_small) simp
  then show ?thesis by simp
qed

lemma unat_mask32: "k < 32 \<Longrightarrow> unat (mask k :: u32) = 2 ^ k - 1"
proof -
  assume "k < 32"
  then have "(2 :: nat) ^ k < 2 ^ 32" by (simp only: power_strict_increasing_iff)
  then have "unat (of_nat (2 ^ k - 1) :: u32) = 2 ^ k - 1" by (intro unat_of_nat_small) simp
  moreover have "(mask k :: u32) = of_nat (2 ^ k - 1)"
    by (simp add: mask_eq_exp_minus_1 of_nat_diff)
  ultimately show ?thesis by (simp only:)
qed

lemma unat_and_not_mask32 [kwidth]: "k < 32 \<Longrightarrow> unat ((w :: u32) AND NOT (mask k)) = unat w div 2 ^ k * 2 ^ k"
proof -
  assume k: "k < 32"
  have "w AND NOT (mask k) = push_bit k (drop_bit k w)" by (rule bit_word_eqI) (auto simp: bit_simps)
  moreover have "unat w div 2 ^ k * 2 ^ k < 2 ^ 32"
    using unat_bound [of w] div_times_less_eq_dividend [of "unat w" "2 ^ k"] by (simp del: div_times_less_eq_dividend)
  ultimately show ?thesis
    using unat_mult_lem [of "drop_bit k w" "2 ^ k"]
    by (simp add: push_bit_eq_mult unat_div drop_bit_eq_div unat_exp32 k)
qed

section \<open>Invariants of step relations\<close>

locale invariant_system =
  fixes init :: "'s \<Rightarrow> bool"
    and step :: "'s \<Rightarrow> 's \<Rightarrow> bool"
    and inv :: "'s \<Rightarrow> bool"
  assumes inv_init: "init s \<Longrightarrow> inv s"
    and inv_step: "inv s \<Longrightarrow> step s t \<Longrightarrow> inv t"
begin

lemma inv_run: "step\<^sup>*\<^sup>* s t \<Longrightarrow> inv s \<Longrightarrow> inv t"
  by (induction rule: rtranclp_induct) (auto intro: inv_step)

lemma inv_reachable: "init s \<Longrightarrow> step\<^sup>*\<^sup>* s t \<Longrightarrow> inv t"
  by (blast intro: inv_run inv_init)

end

end
