(* ===== verification/Rwsem.thy ===== *)
theory Rwsem
  imports Kernel_Prelude
begin

text \<open>
  The read/write semaphore of \<^verbatim>\<open>lib/rwsem-spinlock.c\<close>, the implementation the 32-bit ARM
  kernels select with \<^verbatim>\<open>CONFIG_RWSEM_GENERIC_SPINLOCK\<close>.

  Every function body between taking and dropping \<^verbatim>\<open>sem->wait_lock\<close> is one atomic operation on
  the record \<open>rw_semaphore\<close>; its result lists the tasks whose \<^verbatim>\<open>waiter.task\<close> pointer it sets to
  NULL.  The inductive relation \<open>rw_step\<close> interleaves these operations over any number of
  tasks, together with the wait loop in which a blocked task sees its pointer cleared.
  \<open>None\<close> stands for reading a waiter through the head of an empty list, which C leaves
  undefined; \<open>rwsem_up_read_handoff\<close> shows that a release never does.  The 32-bit \<^verbatim>\<open>activity\<close> is an \<open>int\<close>: its absolute
  value is at most the number of holders, and so below \<open>2 ^ 31\<close> with any number of tasks that fits into memory.
\<close>

section \<open>Data\<close>



datatype rwsem_flag = RWSEM_WAITING_FOR_READ | RWSEM_WAITING_FOR_WRITE

record rwsem_waiter =
  waiter_task :: tid
  waiter_flags :: rwsem_flag

record rw_semaphore =
  activity :: int
  wait_list :: "rwsem_waiter list"

definition do_init_rwsem :: rw_semaphore where
  "do_init_rwsem = \<lparr>activity = 0, wait_list = []\<rparr>"

definition rwsem_is_locked :: "bool \<Rightarrow> rw_semaphore \<Rightarrow> bool" where
  \<comment> \<open>the first argument says whether \<^verbatim>\<open>spin_trylock_irqsave\<close> got the wait lock\<close>
  "rwsem_is_locked trylock sem = (if trylock then activity sem \<noteq> 0 else True)"

section \<open>Waking\<close>

text \<open>The loop that grants read locks to the readers at the front of the queue.\<close>

fun wake_readers :: "rwsem_waiter list \<Rightarrow> tid list \<times> rwsem_waiter list" where
  "wake_readers [] = ([], [])"
| "wake_readers (w # ws) =
     (if waiter_flags w = RWSEM_WAITING_FOR_READ
      then (let (woken, rest) = wake_readers ws in (waiter_task w # woken, rest))
      else ([], w # ws))"

definition do_rwsem_do_wake :: "rw_semaphore \<Rightarrow> bool \<Rightarrow> (rw_semaphore \<times> tid list) option" where
  "do_rwsem_do_wake sem wakewrite =
     (case wait_list sem of
        [] \<Rightarrow> None
      | w # ws \<Rightarrow>
          if \<not> wakewrite \<and> waiter_flags w = RWSEM_WAITING_FOR_WRITE then Some (sem, [])
          else if wakewrite \<and> waiter_flags w = RWSEM_WAITING_FOR_WRITE
          then Some (sem\<lparr>activity := - 1, wait_list := ws\<rparr>, [waiter_task w])
          else (let (woken, rest) = wake_readers (w # ws)
                in Some (sem\<lparr>activity := activity sem + int (length woken), wait_list := rest\<rparr>,
                         woken)))"

definition do_rwsem_wake_one_writer :: "rw_semaphore \<Rightarrow> (rw_semaphore \<times> tid list) option" where
  "do_rwsem_wake_one_writer sem =
     (case wait_list sem of
        [] \<Rightarrow> None
      | w # ws \<Rightarrow> Some (sem\<lparr>activity := - 1, wait_list := ws\<rparr>, [waiter_task w]))"

section \<open>Operations\<close>

text \<open>
  The boolean result of the two blocking operations says whether the lock was granted at
  once; otherwise the caller has queued a waiter and enters the wait loop.
\<close>

definition do_down_read :: "tid \<Rightarrow> rw_semaphore \<Rightarrow> rw_semaphore \<times> bool" where
  "do_down_read tsk sem =
     (if activity sem \<ge> 0 \<and> wait_list sem = []
      then (sem\<lparr>activity := activity sem + 1\<rparr>, True)
      else (sem\<lparr>wait_list := wait_list sem @
                 [\<lparr>waiter_task = tsk, waiter_flags = RWSEM_WAITING_FOR_READ\<rparr>]\<rparr>, False))"

definition do_down_read_trylock :: "rw_semaphore \<Rightarrow> rw_semaphore \<times> bool" where
  "do_down_read_trylock sem =
     (if activity sem \<ge> 0 \<and> wait_list sem = []
      then (sem\<lparr>activity := activity sem + 1\<rparr>, True)
      else (sem, False))"

definition do_down_write_nested :: "tid \<Rightarrow> rw_semaphore \<Rightarrow> rw_semaphore \<times> bool" where
  "do_down_write_nested tsk sem =
     (if activity sem = 0 \<and> wait_list sem = []
      then (sem\<lparr>activity := - 1\<rparr>, True)
      else (sem\<lparr>wait_list := wait_list sem @
                 [\<lparr>waiter_task = tsk, waiter_flags = RWSEM_WAITING_FOR_WRITE\<rparr>]\<rparr>, False))"

definition do_down_write :: "tid \<Rightarrow> rw_semaphore \<Rightarrow> rw_semaphore \<times> bool" where
  "do_down_write tsk sem = do_down_write_nested tsk sem"

definition do_down_write_trylock :: "rw_semaphore \<Rightarrow> rw_semaphore \<times> bool" where
  "do_down_write_trylock sem =
     (if activity sem = 0 \<and> wait_list sem = []
      then (sem\<lparr>activity := - 1\<rparr>, True)
      else (sem, False))"

definition do_up_read :: "rw_semaphore \<Rightarrow> (rw_semaphore \<times> tid list) option" where
  "do_up_read sem =
     (let sem' = sem\<lparr>activity := activity sem - 1\<rparr>
      in if activity sem' = 0 \<and> wait_list sem' \<noteq> []
         then do_rwsem_wake_one_writer sem'
         else Some (sem', []))"

definition do_up_write :: "rw_semaphore \<Rightarrow> (rw_semaphore \<times> tid list) option" where
  "do_up_write sem =
     (let sem' = sem\<lparr>activity := 0\<rparr>
      in if wait_list sem' \<noteq> [] then do_rwsem_do_wake sem' True else Some (sem', []))"

definition do_downgrade_write :: "rw_semaphore \<Rightarrow> (rw_semaphore \<times> tid list) option" where
  "do_downgrade_write sem =
     (let sem' = sem\<lparr>activity := 1\<rparr>
      in if wait_list sem' \<noteq> [] then do_rwsem_do_wake sem' False else Some (sem', []))"

section \<open>Tasks using one semaphore\<close>

text \<open>
  A task is outside the lock, inside the wait loop of a blocking call, or past the call.
  \<open>task_ptr t\<close> says that the waiter on the stack of a waiting task \<open>t\<close> still has a non-NULL
  \<^verbatim>\<open>task\<close> pointer.
\<close>

datatype rw_phase = Outside | Waiting rwsem_flag | Inside rwsem_flag

record rw_system =
  rsem :: rw_semaphore
  phase :: "tid \<Rightarrow> rw_phase"
  task_ptr :: "tid \<Rightarrow> bool"

definition rw_init :: "rw_system \<Rightarrow> bool" where
  "rw_init s \<longleftrightarrow> rsem s = do_init_rwsem \<and> phase s = (\<lambda>_. Outside)"

definition wake :: "tid list \<Rightarrow> rw_system \<Rightarrow> rw_system" where
  "wake ts s = s\<lparr>task_ptr := (\<lambda>t. if t \<in> set ts then False else task_ptr s t)\<rparr>"

inductive rw_step :: "rw_system \<Rightarrow> rw_system \<Rightarrow> bool" where
  read_granted: "phase s t = Outside \<Longrightarrow> do_down_read t (rsem s) = (sem', True) \<Longrightarrow>
    rw_step s (s\<lparr>rsem := sem', phase := (phase s)(t := Inside RWSEM_WAITING_FOR_READ)\<rparr>)"
| read_blocked: "phase s t = Outside \<Longrightarrow> do_down_read t (rsem s) = (sem', False) \<Longrightarrow>
    rw_step s (s\<lparr>rsem := sem', phase := (phase s)(t := Waiting RWSEM_WAITING_FOR_READ),
                 task_ptr := (task_ptr s)(t := True)\<rparr>)"
| read_try: "phase s t = Outside \<Longrightarrow> do_down_read_trylock (rsem s) = (sem', got) \<Longrightarrow>
    rw_step s (s\<lparr>rsem := sem', phase := (phase s)(t := (if got then Inside RWSEM_WAITING_FOR_READ
                                                       else Outside))\<rparr>)"
| write_granted: "phase s t = Outside \<Longrightarrow> do_down_write t (rsem s) = (sem', True) \<Longrightarrow>
    rw_step s (s\<lparr>rsem := sem', phase := (phase s)(t := Inside RWSEM_WAITING_FOR_WRITE)\<rparr>)"
| write_blocked: "phase s t = Outside \<Longrightarrow> do_down_write t (rsem s) = (sem', False) \<Longrightarrow>
    rw_step s (s\<lparr>rsem := sem', phase := (phase s)(t := Waiting RWSEM_WAITING_FOR_WRITE),
                 task_ptr := (task_ptr s)(t := True)\<rparr>)"
| write_try: "phase s t = Outside \<Longrightarrow> do_down_write_trylock (rsem s) = (sem', got) \<Longrightarrow>
    rw_step s (s\<lparr>rsem := sem', phase := (phase s)(t := (if got then Inside RWSEM_WAITING_FOR_WRITE
                                                       else Outside))\<rparr>)"
| leave_wait_loop: "phase s t = Waiting f \<Longrightarrow> \<not> task_ptr s t \<Longrightarrow>
    rw_step s (s\<lparr>phase := (phase s)(t := Inside f)\<rparr>)"
| release_read: "phase s t = Inside RWSEM_WAITING_FOR_READ \<Longrightarrow>
    do_up_read (rsem s) = Some (sem', woken) \<Longrightarrow>
    rw_step s (wake woken (s\<lparr>rsem := sem', phase := (phase s)(t := Outside)\<rparr>))"
| release_write: "phase s t = Inside RWSEM_WAITING_FOR_WRITE \<Longrightarrow>
    do_up_write (rsem s) = Some (sem', woken) \<Longrightarrow>
    rw_step s (wake woken (s\<lparr>rsem := sem', phase := (phase s)(t := Outside)\<rparr>))"
| downgrade: "phase s t = Inside RWSEM_WAITING_FOR_WRITE \<Longrightarrow>
    do_downgrade_write (rsem s) = Some (sem', woken) \<Longrightarrow>
    rw_step s (wake woken (s\<lparr>rsem := sem', phase := (phase s)(t := Inside RWSEM_WAITING_FOR_READ)\<rparr>))"

section \<open>The invariant\<close>

text \<open>A task owns the lock once its call has returned or its waiter has been granted.\<close>

definition owners :: "rw_system \<Rightarrow> rwsem_flag \<Rightarrow> tid set" where
  "owners s f = {t. phase s t = Inside f \<or> phase s t = Waiting f \<and> \<not> task_ptr s t}"

definition queue_ok :: "rw_system \<Rightarrow> bool" where
  "queue_ok s \<longleftrightarrow>
     distinct (map waiter_task (wait_list (rsem s))) \<and>
     (\<forall>t f. (\<exists>w \<in> set (wait_list (rsem s)). waiter_task w = t \<and> waiter_flags w = f) \<longleftrightarrow>
            phase s t = Waiting f \<and> task_ptr s t)"

definition activity_ok :: "rw_system \<Rightarrow> bool" where
  "activity_ok s \<longleftrightarrow>
     (if activity (rsem s) = - 1
      then (\<exists>w. owners s RWSEM_WAITING_FOR_WRITE = {w}) \<and> owners s RWSEM_WAITING_FOR_READ = {}
      else owners s RWSEM_WAITING_FOR_WRITE = {} \<and> finite (owners s RWSEM_WAITING_FOR_READ) \<and>
           activity (rsem s) = int (card (owners s RWSEM_WAITING_FOR_READ)))"

definition head_ok :: "rw_semaphore \<Rightarrow> bool" where
  "head_ok sem \<longleftrightarrow> wait_list sem \<noteq> [] \<longrightarrow>
     activity sem \<noteq> 0 \<and> (activity sem > 0 \<longrightarrow>
       waiter_flags (hd (wait_list sem)) = RWSEM_WAITING_FOR_WRITE)"

definition rw_inv :: "rw_system \<Rightarrow> bool" where
  "rw_inv s \<longleftrightarrow> queue_ok s \<and> activity_ok s \<and> head_ok (rsem s)"

section \<open>The queue after a wake-up\<close>

abbreviation is_reader :: "rwsem_waiter \<Rightarrow> bool" where
  "is_reader w \<equiv> waiter_flags w = RWSEM_WAITING_FOR_READ"

lemma wake_readers_eq:
  "wake_readers ws = (map waiter_task (takeWhile is_reader ws), dropWhile is_reader ws)"
  by (induction ws) auto

lemma not_reader [simp]: "\<not> is_reader w \<longleftrightarrow> waiter_flags w = RWSEM_WAITING_FOR_WRITE"
  by (cases "waiter_flags w") auto

lemma not_writer [simp]: "waiter_flags w \<noteq> RWSEM_WAITING_FOR_WRITE \<longleftrightarrow> is_reader w"
  by (cases "waiter_flags w") auto

text \<open>
  Granting a prefix \<open>us\<close> of the queue, all of kind \<open>f\<close>: the queue loses the prefix and its
  tasks become owners.
\<close>

lemma queue_ok_grant:
  assumes "queue_ok s" and "wait_list (rsem s) = us @ rest"
    and "wait_list sem' = rest"
  shows "queue_ok (wake (map waiter_task us) (s\<lparr>rsem := sem'\<rparr>))"
proof -
  have dist: "distinct (map waiter_task (us @ rest))"
    and mem: "\<And>t f. (\<exists>w \<in> set (us @ rest). waiter_task w = t \<and> waiter_flags w = f) \<longleftrightarrow>
                      phase s t = Waiting f \<and> task_ptr s t"
    using assms(1,2) unfolding queue_ok_def by simp_all
  have "(\<exists>w \<in> set rest. waiter_task w = t \<and> waiter_flags w = f) \<longleftrightarrow>
        phase s t = Waiting f \<and> t \<notin> set (map waiter_task us) \<and> task_ptr s t" for t f
    using mem [of t f] dist by (auto simp: image_iff)
  with dist assms(3) show ?thesis
    by (simp add: queue_ok_def wake_def)
qed

lemma owners_grant:
  assumes "queue_ok s" and "wait_list (rsem s) = us @ rest"
    and "\<And>w. w \<in> set us \<Longrightarrow> waiter_flags w = f"
  shows "owners (wake (map waiter_task us) (s\<lparr>rsem := sem'\<rparr>)) g =
         (if g = f then owners s g \<union> waiter_task ` set us else owners s g)"
    and "owners s f \<inter> waiter_task ` set us = {}"
proof -
  have us: "phase s (waiter_task w) = Waiting f \<and> task_ptr s (waiter_task w)" if "w \<in> set us" for w
    using assms that unfolding queue_ok_def by (metis Un_iff set_append)
  show "owners (wake (map waiter_task us) (s\<lparr>rsem := sem'\<rparr>)) g =
         (if g = f then owners s g \<union> waiter_task ` set us else owners s g)"
    by (cases "g = f") (auto simp: owners_def wake_def dest: us)
  show "owners s f \<inter> waiter_task ` set us = {}"
    using us by (auto simp: owners_def)
qed

lemma queue_ok_phase:
  assumes "queue_ok s" and "phase s t = Outside \<or> phase s t = Inside g \<or> \<not> task_ptr s t"
    and "p = Outside \<or> p = Inside h"
    and "wait_list sem' = wait_list (rsem s)"
  shows "queue_ok (s\<lparr>rsem := sem', phase := (phase s)(t := p)\<rparr>)"
  using assms unfolding queue_ok_def by (auto 0 3)

lemma queue_ok_block:
  assumes "queue_ok s" and "phase s t = Outside"
    and "wait_list sem' = wait_list (rsem s) @ [\<lparr>waiter_task = t, waiter_flags = f\<rparr>]"
  shows "queue_ok (s\<lparr>rsem := sem', phase := (phase s)(t := Waiting f),
                     task_ptr := (task_ptr s)(t := True)\<rparr>)"
proof -
  have "t \<notin> waiter_task ` set (wait_list (rsem s))"
    using assms(1,2) unfolding queue_ok_def by (metis imageE rw_phase.distinct(1))
  moreover have "\<And>t' f'. (\<exists>w \<in> set (wait_list (rsem s)). waiter_task w = t' \<and> waiter_flags w = f') \<longleftrightarrow>
                      phase s t' = Waiting f' \<and> task_ptr s t'"
    using assms(1) unfolding queue_ok_def by blast
  ultimately show ?thesis
    using assms(1,2,3) unfolding queue_ok_def by (auto 0 4)
qed

section \<open>Every operation keeps the invariant\<close>

lemma rw_inv_read_granted:
  assumes "rw_inv s" and "phase s t = Outside" and "activity (rsem s) \<ge> 0"
    and "wait_list (rsem s) = []"
  shows "rw_inv (s\<lparr>rsem := (rsem s)\<lparr>activity := activity (rsem s) + 1\<rparr>,
                   phase := (phase s)(t := Inside RWSEM_WAITING_FOR_READ)\<rparr>)" (is "rw_inv ?s")
proof -
  have "owners ?s RWSEM_WAITING_FOR_READ = insert t (owners s RWSEM_WAITING_FOR_READ)"
    and "t \<notin> owners s RWSEM_WAITING_FOR_READ"
    and "owners ?s RWSEM_WAITING_FOR_WRITE = owners s RWSEM_WAITING_FOR_WRITE"
    using assms(2) by (auto simp: owners_def)
  with assms show ?thesis
    by (auto simp: rw_inv_def activity_ok_def head_ok_def intro!: queue_ok_phase)
qed

lemma rw_inv_write_granted:
  assumes "rw_inv s" and "phase s t = Outside" and "activity (rsem s) = 0"
    and "wait_list (rsem s) = []"
  shows "rw_inv (s\<lparr>rsem := (rsem s)\<lparr>activity := - 1\<rparr>,
                   phase := (phase s)(t := Inside RWSEM_WAITING_FOR_WRITE)\<rparr>)" (is "rw_inv ?s")
proof -
  have "owners ?s RWSEM_WAITING_FOR_WRITE = insert t (owners s RWSEM_WAITING_FOR_WRITE)"
    and "owners ?s RWSEM_WAITING_FOR_READ = owners s RWSEM_WAITING_FOR_READ"
    using assms(2) by (auto simp: owners_def)
  with assms show ?thesis
    by (auto simp: rw_inv_def activity_ok_def head_ok_def intro!: queue_ok_phase)
qed

lemma rw_inv_blocked:
  assumes "rw_inv s" and "phase s t = Outside"
    and "wait_list (rsem s) = [] \<Longrightarrow>
      (if f = RWSEM_WAITING_FOR_READ then activity (rsem s) < 0 else activity (rsem s) \<noteq> 0)"
  shows "rw_inv (s\<lparr>rsem := (rsem s)\<lparr>wait_list := wait_list (rsem s) @
                      [\<lparr>waiter_task = t, waiter_flags = f\<rparr>]\<rparr>,
                   phase := (phase s)(t := Waiting f), task_ptr := (task_ptr s)(t := True)\<rparr>)"
    (is "rw_inv ?s")
proof -
  have "owners ?s g = owners s g" for g
    using assms(2) by (auto simp: owners_def)
  moreover have "head_ok (rsem ?s)"
    using assms by (cases "wait_list (rsem s)"; cases f) (auto simp: rw_inv_def head_ok_def)
  ultimately show ?thesis
    using assms by (auto simp: rw_inv_def activity_ok_def intro!: queue_ok_block)
qed

lemma rw_inv_leave:
  assumes "rw_inv s" and "phase s t = Waiting f" and "\<not> task_ptr s t"
  shows "rw_inv (s\<lparr>phase := (phase s)(t := Inside f)\<rparr>)" (is "rw_inv ?s")
proof -
  have "owners ?s g = owners s g" for g
    using assms(2,3) by (auto simp: owners_def)
  then show ?thesis
    using assms queue_ok_phase [of s t _ "Inside f" f "rsem s"]
    by (auto simp: rw_inv_def activity_ok_def)
qed

lemma owners_inside_left:
  assumes "phase s t = Inside f"
  shows "owners (s\<lparr>phase := (phase s)(t := Outside)\<rparr>) g = (if g = f then owners s g - {t} else owners s g)"
    and "t \<in> owners s f"
  using assms by (auto simp: owners_def)

lemma owners_rsem [simp]: "owners (s\<lparr>rsem := sem'\<rparr>) g = owners s g"
  by (simp add: owners_def)

lemma rsem_phase_swap: "s\<lparr>phase := p, rsem := sem'\<rparr> = s\<lparr>rsem := sem', phase := p\<rparr>"
  by (cases s) simp

lemma wake_Nil [simp]: "wake [] s = s"
  by (simp add: wake_def)

lemma rw_inv_grant_writer:
  assumes "queue_ok s" and "wait_list (rsem s) = w # ws"
    and "waiter_flags w = RWSEM_WAITING_FOR_WRITE" and "owners s = (\<lambda>_. {})"
    and "activity sem' = - 1" and "wait_list sem' = ws"
  shows "rw_inv (wake [waiter_task w] (s\<lparr>rsem := sem'\<rparr>))"
proof -
  have "queue_ok (wake (map waiter_task [w]) (s\<lparr>rsem := sem'\<rparr>))"
    by (rule queue_ok_grant) (use assms in auto)
  moreover have "owners (wake (map waiter_task [w]) (s\<lparr>rsem := sem'\<rparr>)) g =
      (if g = RWSEM_WAITING_FOR_WRITE then {waiter_task w} else {})" for g
    using owners_grant(1) [of s "[w]" ws RWSEM_WAITING_FOR_WRITE sem' g] assms by auto
  ultimately show ?thesis
    using assms(5) by (simp add: rw_inv_def activity_ok_def head_ok_def wake_def)
qed

lemma rw_inv_grant_readers:
  assumes "queue_ok s" and "owners s RWSEM_WAITING_FOR_WRITE = {}"
    and "finite (owners s RWSEM_WAITING_FOR_READ)"
    and "us = takeWhile is_reader (wait_list (rsem s))"
    and "activity sem' = int (card (owners s RWSEM_WAITING_FOR_READ)) + int (length us)"
    and "wait_list sem' = dropWhile is_reader (wait_list (rsem s))"
    and "us \<noteq> [] \<or> owners s RWSEM_WAITING_FOR_READ \<noteq> {} \<or> wait_list (rsem s) = []"
  shows "rw_inv (wake (map waiter_task us) (s\<lparr>rsem := sem'\<rparr>))" (is "rw_inv ?s")
proof -
  let ?R = "owners s RWSEM_WAITING_FOR_READ"
  have wl: "wait_list (rsem s) = us @ wait_list sem'"
    using assms(4,6) by simp
  have us: "\<And>w. w \<in> set us \<Longrightarrow> is_reader w"
    using assms(4) set_takeWhileD by metis
  have "distinct (map waiter_task us)"
    using assms(1) wl by (simp add: queue_ok_def)
  then have "card (waiter_task ` set us) = length us"
    by (metis distinct_card length_map set_map)
  then have card: "card (?R \<union> waiter_task ` set us) = card ?R + length us"
    using owners_grant(2) [OF assms(1) wl us] assms(3) by (simp add: card_Un_disjoint)
  have own: "owners ?s g = (if g = RWSEM_WAITING_FOR_READ then ?R \<union> waiter_task ` set us
      else owners s g)" for g
    using owners_grant(1) [OF assms(1) wl us, of sem' g] by simp
  have "activity_ok ?s"
    using assms(2,3,5) card own by (auto simp: activity_ok_def wake_def)
  moreover have "head_ok (rsem ?s)"
  proof -
    have "waiter_flags (hd (wait_list sem')) = RWSEM_WAITING_FOR_WRITE" if "wait_list sem' \<noteq> []"
      using that assms(6) hd_dropWhile [of is_reader "wait_list (rsem s)"] by simp
    moreover have "activity sem' \<noteq> 0" if "wait_list sem' \<noteq> []"
    proof -
      have "card ?R + length us \<noteq> 0"
        using that assms(3,7) wl by (auto simp: card_eq_0_iff)
      then show ?thesis using assms(5) by linarith
    qed
    ultimately show ?thesis by (auto simp: head_ok_def wake_def)
  qed
  ultimately show ?thesis
    using queue_ok_grant [OF assms(1) wl] by (simp add: rw_inv_def)
qed

lemma rw_inv_release_read:
  assumes inv: "rw_inv s" and t: "phase s t = Inside RWSEM_WAITING_FOR_READ"
    and up: "do_up_read (rsem s) = Some (sem', woken)"
  shows "rw_inv (wake woken (s\<lparr>rsem := sem', phase := (phase s)(t := Outside)\<rparr>))"
proof -
  let ?R = "owners s RWSEM_WAITING_FOR_READ" and ?s1 = "s\<lparr>phase := (phase s)(t := Outside)\<rparr>"
  have tR: "t \<in> ?R" and own: "\<And>g. owners ?s1 g = (if g = RWSEM_WAITING_FOR_READ then ?R - {t} else owners s g)"
    using owners_inside_left [OF t] by auto
  have act: "owners s RWSEM_WAITING_FOR_WRITE = {}" "finite ?R" "activity (rsem s) = int (card ?R)"
    using inv tR by (auto simp: rw_inv_def activity_ok_def split: if_splits)
  have pos: "card ?R > 0"
    using tR act(2) by (auto simp: card_gt_0_iff)
  have q1: "queue_ok ?s1"
    using inv t queue_ok_phase [of s t RWSEM_WAITING_FOR_READ Outside _ "rsem s"]
    by (simp add: rw_inv_def)
  show ?thesis
  proof (cases "card ?R = 1 \<and> wait_list (rsem s) \<noteq> []")
    case True
    then obtain w ws where wl: "wait_list (rsem s) = w # ws" by (cases "wait_list (rsem s)") auto
    have "?R = {t}" using True tR by (metis card_1_singletonE singletonD)
    then have "owners ?s1 g = {}" for g
      using own [of g] act(1) by (cases g) simp_all
    then have "owners ?s1 = (\<lambda>_. {})" by blast
    moreover have "waiter_flags w = RWSEM_WAITING_FOR_WRITE"
      using inv True act(3) wl by (auto simp: rw_inv_def head_ok_def)
    ultimately show ?thesis
      using rw_inv_grant_writer [OF q1, of w ws sem'] up True act(3) wl
      by (auto simp: do_up_read_def do_rwsem_wake_one_writer_def rsem_phase_swap)
  next
    case False
    then have up': "woken = []" "sem' = (rsem s)\<lparr>activity := activity (rsem s) - 1\<rparr>"
      using up act(3) by (auto simp: do_up_read_def Let_def split: if_splits)
    have "queue_ok (?s1\<lparr>rsem := sem'\<rparr>)"
      using q1 up' by (simp add: queue_ok_def)
    moreover have "activity_ok (?s1\<lparr>rsem := sem'\<rparr>)"
      using own act pos tR up' by (auto simp: activity_ok_def)
    moreover have "head_ok sem'"
      using inv False act(3) pos up' by (auto simp: rw_inv_def head_ok_def)
    ultimately show ?thesis
      using up' by (simp add: rw_inv_def rsem_phase_swap)
  qed
qed

lemma do_wake_cases:
  assumes "do_rwsem_do_wake sem wakewrite = Some (sem', woken)"
  obtains (writer) w ws where "wait_list sem = w # ws" "waiter_flags w = RWSEM_WAITING_FOR_WRITE"
      "wakewrite" "sem' = sem\<lparr>activity := - 1, wait_list := ws\<rparr>" "woken = [waiter_task w]"
  | (readers) "woken = map waiter_task (takeWhile is_reader (wait_list sem))"
      "wait_list sem' = dropWhile is_reader (wait_list sem)" "wait_list sem \<noteq> []"
      "activity sem' = activity sem + int (length woken)"
      "wakewrite \<longrightarrow> woken \<noteq> []"
proof (cases "wait_list sem")
  case Nil
  with assms show ?thesis by (simp add: do_rwsem_do_wake_def)
next
  case (Cons w ws)
  with assms show ?thesis
    by (cases wakewrite; cases "waiter_flags w")
      (auto simp: do_rwsem_do_wake_def wake_readers_eq Let_def intro: writer readers)
qed

lemma writer_alone:
  assumes "rw_inv s" and "phase s t = Inside RWSEM_WAITING_FOR_WRITE"
  shows "owners s RWSEM_WAITING_FOR_WRITE = {t}" and "owners s RWSEM_WAITING_FOR_READ = {}"
proof -
  have "t \<in> owners s RWSEM_WAITING_FOR_WRITE"
    using assms(2) by (simp add: owners_def)
  then show "owners s RWSEM_WAITING_FOR_WRITE = {t}" and "owners s RWSEM_WAITING_FOR_READ = {}"
    using assms(1) by (auto simp: rw_inv_def activity_ok_def split: if_splits)
qed

lemma rw_inv_release_write:
  assumes inv: "rw_inv s" and t: "phase s t = Inside RWSEM_WAITING_FOR_WRITE"
    and up: "do_up_write (rsem s) = Some (sem', woken)"
  shows "rw_inv (wake woken (s\<lparr>rsem := sem', phase := (phase s)(t := Outside)\<rparr>))"
proof -
  let ?s1 = "s\<lparr>phase := (phase s)(t := Outside)\<rparr>"
  have q1: "queue_ok ?s1"
    using inv t queue_ok_phase [of s t RWSEM_WAITING_FOR_WRITE Outside _ "rsem s"]
    by (simp add: rw_inv_def)
  have own: "owners ?s1 = (\<lambda>_. {})"
    using owners_inside_left(1) [OF t] writer_alone [OF inv t]
    by (metis (full_types) Diff_cancel rwsem_flag.exhaust)
  show ?thesis
  proof (cases "wait_list (rsem s) = []")
    case True
    with up have "sem' = (rsem s)\<lparr>activity := 0\<rparr>" and "woken = []"
      by (simp_all add: do_up_write_def)
    with True q1 own show ?thesis
      by (simp add: rw_inv_def head_ok_def activity_ok_def queue_ok_def
          flip: rsem_phase_swap)
  next
    case False
    then have "do_rwsem_do_wake ((rsem s)\<lparr>activity := 0\<rparr>) True = Some (sem', woken)"
      using up by (simp add: do_up_write_def)
    then show ?thesis
    proof (cases rule: do_wake_cases)
      case (writer w ws)
      then show ?thesis
        using rw_inv_grant_writer [OF q1, of w ws sem'] own by (simp add: rsem_phase_swap)
    next
      case readers
      then show ?thesis
        using rw_inv_grant_readers [OF q1, of "takeWhile is_reader (wait_list (rsem s))" sem'] own
        by (simp add: rsem_phase_swap)
    qed
  qed
qed

lemma rw_inv_downgrade:
  assumes inv: "rw_inv s" and t: "phase s t = Inside RWSEM_WAITING_FOR_WRITE"
    and up: "do_downgrade_write (rsem s) = Some (sem', woken)"
  shows "rw_inv (wake woken (s\<lparr>rsem := sem',
           phase := (phase s)(t := Inside RWSEM_WAITING_FOR_READ)\<rparr>))"
proof -
  let ?s1 = "s\<lparr>phase := (phase s)(t := Inside RWSEM_WAITING_FOR_READ)\<rparr>"
  have q1: "queue_ok ?s1"
    using inv t queue_ok_phase [of s t RWSEM_WAITING_FOR_WRITE _ RWSEM_WAITING_FOR_READ "rsem s"]
    by (simp add: rw_inv_def)
  have own: "owners ?s1 RWSEM_WAITING_FOR_READ = {t}" "owners ?s1 RWSEM_WAITING_FOR_WRITE = {}"
    using writer_alone [OF inv t] by (auto simp: owners_def)
  have "woken = map waiter_task (takeWhile is_reader (wait_list (rsem s)))"
    and "wait_list sem' = dropWhile is_reader (wait_list (rsem s))"
    and "activity sem' = 1 + int (length woken)"
    using up by (auto simp: do_downgrade_write_def Let_def elim: do_wake_cases split: if_splits)
  then show ?thesis
    using rw_inv_grant_readers [OF q1, of "takeWhile is_reader (wait_list (rsem s))" sem'] own
    by (simp add: rsem_phase_swap)
qed

lemmas rw_inv_intros = rw_inv_read_granted rw_inv_write_granted rw_inv_blocked rw_inv_leave
  rw_inv_release_read rw_inv_release_write rw_inv_downgrade

lemma rw_step_inv: "rw_step s s' \<Longrightarrow> rw_inv s \<Longrightarrow> rw_inv s'"
proof (induction rule: rw_step.induct)
  case (read_granted s t sem')
  then show ?case
    by (auto simp: do_down_read_def split: if_splits intro!: rw_inv_read_granted)
next
  case (read_blocked s t sem')
  then show ?case
    by (auto simp: do_down_read_def split: if_splits intro!: rw_inv_blocked)
next
  case (read_try s t sem' got)
  then show ?case
    by (auto simp: do_down_read_trylock_def fun_upd_idem split: if_splits intro!: rw_inv_read_granted)
next
  case (write_granted s t sem')
  then show ?case
    by (auto simp: do_down_write_def do_down_write_nested_def split: if_splits
        intro!: rw_inv_write_granted)
next
  case (write_blocked s t sem')
  then show ?case
    by (auto simp: do_down_write_def do_down_write_nested_def split: if_splits
        intro!: rw_inv_blocked)
next
  case (write_try s t sem' got)
  then show ?case
    by (auto simp: do_down_write_trylock_def fun_upd_idem split: if_splits intro!: rw_inv_write_granted)
qed (blast intro: rw_inv_intros)+

lemma rw_init_inv: "rw_init s \<Longrightarrow> rw_inv s"
  by (auto simp: rw_init_def rw_inv_def queue_ok_def activity_ok_def head_ok_def owners_def
      do_init_rwsem_def)

interpretation rw: invariant_system rw_init rw_step rw_inv
  by unfold_locales (auto intro: rw_init_inv rw_step_inv)

section \<open>Properties\<close>

lemma queued_waits: "rw_inv s \<Longrightarrow> phase s t = Waiting f \<Longrightarrow> task_ptr s t \<Longrightarrow> wait_list (rsem s) \<noteq> []"
  unfolding rw_inv_def queue_ok_def by (metis empty_iff empty_set)

lemma reader_active:
  assumes "rw_inv s" and "phase s t = Inside RWSEM_WAITING_FOR_READ"
  shows "activity (rsem s) > 0"
proof -
  have "t \<in> owners s RWSEM_WAITING_FOR_READ"
    using assms(2) by (simp add: owners_def)
  then show ?thesis
    using assms(1) by (auto simp: rw_inv_def activity_ok_def card_gt_0_iff split: if_splits)
qed

text \<open>
  C1: mutual exclusion.  Whatever the interleaving of readers, writers, try-locks,
  downgrades and releases, once a task has returned from \<^verbatim>\<open>__down_write\<close> no other task is past
  any of the acquiring calls.
\<close>

theorem rwsem_exclusion:
  assumes "rw_init s0" and "rw_step\<^sup>*\<^sup>* s0 s"
    and "phase s w = Inside RWSEM_WAITING_FOR_WRITE" and "phase s t = Inside f"
  shows "t = w"
proof -
  have "rw_inv s" using assms(1,2) by (rule rw.inv_reachable)
  then have "owners s RWSEM_WAITING_FOR_WRITE = {w}" and "owners s RWSEM_WAITING_FOR_READ = {}"
    using assms(3) by (rule writer_alone)+
  with assms(4) show ?thesis
    by (cases f) (auto simp: owners_def)
qed

text \<open>
  C2: no lost wake-up.  A task that is still asleep in the wait loop always waits for an
  owner: some other task holds the lock (or has just been granted it) and has yet to release it.
\<close>

theorem rwsem_no_lost_wakeup:
  assumes "rw_init s0" and "rw_step\<^sup>*\<^sup>* s0 s"
    and "phase s t = Waiting f" and "task_ptr s t"
  shows "\<exists>u g. u \<noteq> t \<and> u \<in> owners s g"
proof -
  have inv: "rw_inv s" using assms(1,2) by (rule rw.inv_reachable)
  then have "activity (rsem s) \<noteq> 0"
    using queued_waits [OF inv assms(3,4)] by (simp add: rw_inv_def head_ok_def)
  then obtain g u where "u \<in> owners s g"
    using inv by (fastforce simp: rw_inv_def activity_ok_def split: if_splits)
  moreover have "t \<notin> owners s g" for g
    using assms(3,4) by (auto simp: owners_def)
  ultimately show ?thesis by metis
qed

text \<open>
  The last reader hands the lock to the writer that has waited longest.  A release never
  reads a waiter through an empty list, and \<^verbatim>\<open>__rwsem_wake_one_writer\<close>, which does not look at
  the waiter's flags, only ever finds a writer at the front of the queue.
\<close>

theorem rwsem_up_read_handoff:
  assumes "rw_init s0" and "rw_step\<^sup>*\<^sup>* s0 s" and "phase s t = Inside RWSEM_WAITING_FOR_READ"
  shows "\<exists>sem' woken. do_up_read (rsem s) = Some (sem', woken) \<and>
    (if activity (rsem s) = 1 \<and> wait_list (rsem s) \<noteq> []
     then woken = [waiter_task (hd (wait_list (rsem s)))] \<and> activity sem' = - 1 \<and>
          waiter_flags (hd (wait_list (rsem s))) = RWSEM_WAITING_FOR_WRITE
     else woken = [] \<and> activity sem' = activity (rsem s) - 1)"
proof -
  have inv: "rw_inv s" using assms(1,2) by (rule rw.inv_reachable)
  have "activity (rsem s) > 0" using inv assms(3) by (rule reader_active)
  moreover have "head_ok (rsem s)" using inv by (simp add: rw_inv_def)
  ultimately show ?thesis
    by (cases "wait_list (rsem s)"; cases "activity (rsem s) = 1")
      (auto simp: do_up_read_def do_rwsem_wake_one_writer_def head_ok_def)
qed

subsection \<open>A run\<close>

text \<open>Task 1 takes the lock, task 2 asks for the opposite kind and blocks.\<close>

definition rw_start :: rw_system where
  "rw_start = \<lparr>rsem = do_init_rwsem, phase = (\<lambda>_. Outside), task_ptr = (\<lambda>_. False)\<rparr>"

definition rw_read_locked :: rw_system where
  "rw_read_locked = rw_start\<lparr>rsem := fst (do_down_read 1 do_init_rwsem),
     phase := (\<lambda>_. Outside)(1 := Inside RWSEM_WAITING_FOR_READ)\<rparr>"

definition rw_writer_queued :: rw_system where
  "rw_writer_queued = rw_read_locked\<lparr>rsem := fst (do_down_write 2 (rsem rw_read_locked)),
     phase := (phase rw_read_locked)(2 := Waiting RWSEM_WAITING_FOR_WRITE),
     task_ptr := (\<lambda>_. False)(2 := True)\<rparr>"

definition rw_write_locked :: rw_system where
  "rw_write_locked = rw_start\<lparr>rsem := fst (do_down_write 1 do_init_rwsem),
     phase := (\<lambda>_. Outside)(1 := Inside RWSEM_WAITING_FOR_WRITE)\<rparr>"

lemmas rw_run_defs = rw_start_def rw_read_locked_def rw_writer_queued_def rw_write_locked_def
  do_init_rwsem_def do_down_read_def do_down_write_def do_down_write_nested_def

lemma rw_start_init: "rw_init rw_start"
  by (simp add: rw_init_def rw_start_def)

lemma rw_run_write: "rw_step\<^sup>*\<^sup>* rw_start rw_write_locked"
proof -
  have "rw_step rw_start rw_write_locked"
    using rw_step.write_granted [of rw_start 1] by (simp add: rw_run_defs)
  then show ?thesis by blast
qed

lemma rw_run_queued: "rw_step\<^sup>*\<^sup>* rw_start rw_writer_queued"
proof -
  have "rw_step rw_start rw_read_locked"
    using rw_step.read_granted [of rw_start 1] by (simp add: rw_run_defs)
  moreover have "rw_step rw_read_locked rw_writer_queued"
    using rw_step.write_blocked [of rw_read_locked 2] by (simp add: rw_run_defs)
  ultimately show ?thesis by (meson rtranclp.simps)
qed

theorem rwsem_exclusion_witness: "{u. \<exists>f. phase rw_write_locked u = Inside f} = {1}"
proof -
  have w: "phase rw_write_locked 1 = Inside RWSEM_WAITING_FOR_WRITE"
    by (simp add: rw_run_defs)
  have "u = 1" if "phase rw_write_locked u = Inside f" for u f
    by (rule rwsem_exclusion [OF rw_start_init rw_run_write w that])
  with w show ?thesis by blast
qed

theorem rwsem_no_lost_wakeup_witness:
  "task_ptr rw_writer_queued 2 \<and> (\<exists>u g. u \<noteq> 2 \<and> u \<in> owners rw_writer_queued g)"
  using rwsem_no_lost_wakeup [OF rw_start_init rw_run_queued, of 2 RWSEM_WAITING_FOR_WRITE]
  by (simp add: rw_run_defs)

theorem rwsem_up_read_handoff_witness:
  "\<exists>sem'. do_up_read (rsem rw_writer_queued) = Some (sem', [2]) \<and> activity sem' = - 1"
  using rwsem_up_read_handoff [OF rw_start_init rw_run_queued, of 1]
  by (simp add: rw_run_defs)

end
