(* ===== verification/Semaphore.thy ===== *)
theory Semaphore
  imports Kernel_Prelude
begin

text \<open>
  The counting semaphore of \<^verbatim>\<open>kernel/semaphore.c\<close>.  As in \<open>Rwsem\<close>, what happens between taking
  and dropping \<^verbatim>\<open>sem->lock\<close> is one atomic operation.  A call to one of the \<open>down\<close> functions
  either returns or goes to sleep inside \<^verbatim>\<open>__down_common\<close>; \<open>down_common_resume\<close> is what the
  sleeper does when \<^verbatim>\<open>schedule_timeout\<close> comes back, for whatever reason.  Pending signals and
  the remaining timeout are choices of the environment.
\<close>

section \<open>Data\<close>

datatype task_state = TASK_UNINTERRUPTIBLE | TASK_INTERRUPTIBLE | TASK_KILLABLE

record semaphore =
  sem_count :: u32
  sem_wait_list :: "tid list"

datatype down_outcome = Returns "unit kresult" | Sleeps task_state int

definition sema_init :: "u32 \<Rightarrow> semaphore" where
  "sema_init val = \<lparr>sem_count = val, sem_wait_list = []\<rparr>"

abbreviation MAX_SCHEDULE_TIMEOUT :: int where
  "MAX_SCHEDULE_TIMEOUT \<equiv> 2 ^ 31 - 1"

definition signal_pending_state :: "task_state \<Rightarrow> bool \<Rightarrow> bool \<Rightarrow> bool" where
  \<comment> \<open>\<open>pending\<close> is \<^verbatim>\<open>signal_pending(p)\<close>, \<open>fatal\<close> is \<^verbatim>\<open>__fatal_signal_pending(p)\<close>\<close>
  "signal_pending_state state pending fatal =
     (if state = TASK_UNINTERRUPTIBLE then False
      else if \<not> pending then False
      else state = TASK_INTERRUPTIBLE \<or> fatal)"

section \<open>Operations\<close>

text \<open>One pass through the loop of \<^verbatim>\<open>__down_common\<close>, up to the point where the task sleeps.\<close>

definition down_common_pass ::
  "tid \<Rightarrow> bool \<Rightarrow> bool \<Rightarrow> task_state \<Rightarrow> int \<Rightarrow> semaphore \<Rightarrow> semaphore \<times> down_outcome" where
  "down_common_pass task pending fatal state timeout sem =
     (if signal_pending_state state pending fatal
      then (sem\<lparr>sem_wait_list := remove1 task (sem_wait_list sem)\<rparr>, Returns (Inl EINTR))
      else if timeout \<le> 0
      then (sem\<lparr>sem_wait_list := remove1 task (sem_wait_list sem)\<rparr>, Returns (Inl ETIME))
      else (sem, Sleeps state timeout))"

definition do_down_common ::
  "tid \<Rightarrow> bool \<Rightarrow> bool \<Rightarrow> task_state \<Rightarrow> int \<Rightarrow> semaphore \<Rightarrow> semaphore \<times> down_outcome" where
  "do_down_common task pending fatal state timeout sem =
     down_common_pass task pending fatal state timeout
       (sem\<lparr>sem_wait_list := sem_wait_list sem @ [task]\<rparr>)"

definition down_common_resume ::
  "tid \<Rightarrow> bool \<Rightarrow> bool \<Rightarrow> task_state \<Rightarrow> int \<Rightarrow> bool \<Rightarrow> semaphore \<Rightarrow> semaphore \<times> down_outcome" where
  "down_common_resume task pending fatal state timeout waiter_up sem =
     (if waiter_up then (sem, Returns Ok)
      else down_common_pass task pending fatal state timeout sem)"

definition do_down :: "tid \<Rightarrow> bool \<Rightarrow> bool \<Rightarrow> semaphore \<Rightarrow> semaphore \<times> down_outcome" where
  "do_down task pending fatal sem =
     do_down_common task pending fatal TASK_UNINTERRUPTIBLE MAX_SCHEDULE_TIMEOUT sem"

definition do_down_interruptible :: "tid \<Rightarrow> bool \<Rightarrow> bool \<Rightarrow> semaphore \<Rightarrow> semaphore \<times> down_outcome" where
  "do_down_interruptible task pending fatal sem =
     do_down_common task pending fatal TASK_INTERRUPTIBLE MAX_SCHEDULE_TIMEOUT sem"

definition do_down_killable :: "tid \<Rightarrow> bool \<Rightarrow> bool \<Rightarrow> semaphore \<Rightarrow> semaphore \<times> down_outcome" where
  "do_down_killable task pending fatal sem =
     do_down_common task pending fatal TASK_KILLABLE MAX_SCHEDULE_TIMEOUT sem"

definition do_down_timeout ::
  "tid \<Rightarrow> bool \<Rightarrow> bool \<Rightarrow> int \<Rightarrow> semaphore \<Rightarrow> semaphore \<times> down_outcome" where
  "do_down_timeout task pending fatal jiffies sem =
     do_down_common task pending fatal TASK_UNINTERRUPTIBLE jiffies sem"

definition down :: "tid \<Rightarrow> bool \<Rightarrow> bool \<Rightarrow> semaphore \<Rightarrow> semaphore \<times> down_outcome" where
  "down task pending fatal sem =
     (if sem_count sem > 0 then (sem\<lparr>sem_count := sem_count sem - 1\<rparr>, Returns Ok)
      else do_down task pending fatal sem)"

definition down_interruptible :: "tid \<Rightarrow> bool \<Rightarrow> bool \<Rightarrow> semaphore \<Rightarrow> semaphore \<times> down_outcome" where
  "down_interruptible task pending fatal sem =
     (if sem_count sem > 0 then (sem\<lparr>sem_count := sem_count sem - 1\<rparr>, Returns Ok)
      else do_down_interruptible task pending fatal sem)"

definition down_killable :: "tid \<Rightarrow> bool \<Rightarrow> bool \<Rightarrow> semaphore \<Rightarrow> semaphore \<times> down_outcome" where
  "down_killable task pending fatal sem =
     (if sem_count sem > 0 then (sem\<lparr>sem_count := sem_count sem - 1\<rparr>, Returns Ok)
      else do_down_killable task pending fatal sem)"

definition down_timeout ::
  "tid \<Rightarrow> bool \<Rightarrow> bool \<Rightarrow> int \<Rightarrow> semaphore \<Rightarrow> semaphore \<times> down_outcome" where
  "down_timeout task pending fatal jiffies sem =
     (if sem_count sem > 0 then (sem\<lparr>sem_count := sem_count sem - 1\<rparr>, Returns Ok)
      else do_down_timeout task pending fatal jiffies sem)"

text \<open>
  The decremented counter is read back as a signed \<^verbatim>\<open>int\<close>, so that a count above \<open>2^31\<close> is
  taken for an exhausted semaphore.  The result is the C one: true when nothing was acquired.
\<close>

definition down_trylock :: "semaphore \<Rightarrow> semaphore \<times> bool" where
  "down_trylock sem =
     (let count = sem_count sem - 1
      in (if sint count \<ge> 0 then sem\<lparr>sem_count := count\<rparr> else sem, sint count < 0))"

text \<open>\<^verbatim>\<open>up\<close> returns the task whose \<^verbatim>\<open>waiter->up\<close> it sets and wakes.\<close>

definition do_up :: "semaphore \<Rightarrow> (semaphore \<times> tid option) option" where
  "do_up sem =
     (case sem_wait_list sem of
        [] \<Rightarrow> None
      | w # ws \<Rightarrow> Some (sem\<lparr>sem_wait_list := ws\<rparr>, Some w))"

definition up :: "semaphore \<Rightarrow> (semaphore \<times> tid option) option" where
  "up sem =
     (if sem_wait_list sem = [] then Some (sem\<lparr>sem_count := sem_count sem + 1\<rparr>, None)
      else do_up sem)"

section \<open>Tasks using one semaphore\<close>

text \<open>
  \<open>acquired\<close> and \<open>released\<close> count the calls that returned with the semaphore and the calls
  to \<^verbatim>\<open>up\<close>; no operation reads them.
\<close>

record sem_system =
  the_sem :: semaphore
  sleeping :: "tid \<Rightarrow> (task_state \<times> int) option"
  waiter_up :: "tid \<Rightarrow> bool"
  acquired :: nat
  released :: nat

datatype down_call = Down | Down_interruptible | Down_killable | Down_timeout int

fun call_down ::
  "down_call \<Rightarrow> tid \<Rightarrow> bool \<Rightarrow> bool \<Rightarrow> semaphore \<Rightarrow> semaphore \<times> down_outcome" where
  "call_down Down = down"
| "call_down Down_interruptible = down_interruptible"
| "call_down Down_killable = down_killable"
| "call_down (Down_timeout jiffies) = (\<lambda>task pending fatal. down_timeout task pending fatal jiffies)"

fun settle :: "tid \<Rightarrow> semaphore \<times> down_outcome \<Rightarrow> sem_system \<Rightarrow> sem_system" where
  "settle t (sem', Returns (Inr _)) s =
     s\<lparr>the_sem := sem', sleeping := (sleeping s)(t := None), acquired := acquired s + 1\<rparr>"
| "settle t (sem', Returns (Inl _)) s = s\<lparr>the_sem := sem', sleeping := (sleeping s)(t := None)\<rparr>"
| "settle t (sem', Sleeps state timeout) s =
     s\<lparr>the_sem := sem', sleeping := (sleeping s)(t \<mapsto> (state, timeout)),
       waiter_up := (waiter_up s)(t := False)\<rparr>"

inductive sem_step :: "sem_system \<Rightarrow> sem_system \<Rightarrow> bool" where
  enter: "sleeping s t = None \<Longrightarrow>
    sem_step s (settle t (call_down c t pending fatal (the_sem s)) s)"
| resume: "sleeping s t = Some (state, timeout) \<Longrightarrow> timeout' \<le> timeout \<Longrightarrow>
    (timeout = MAX_SCHEDULE_TIMEOUT \<Longrightarrow> timeout' = timeout) \<Longrightarrow>
    sem_step s (settle t (down_common_resume t pending fatal state timeout' (waiter_up s t)
                            (the_sem s)) s)"
| trylock: "sleeping s t = None \<Longrightarrow> down_trylock (the_sem s) = (sem', failed) \<Longrightarrow>
    sem_step s (s\<lparr>the_sem := sem', acquired := (if failed then acquired s else acquired s + 1)\<rparr>)"
| release: "up (the_sem s) = Some (sem', woken) \<Longrightarrow>
    sem_step s (s\<lparr>the_sem := sem', released := released s + 1,
                  waiter_up := (case woken of None \<Rightarrow> waiter_up s | Some w \<Rightarrow> (waiter_up s)(w := True))\<rparr>)"

definition sem_start :: "u32 \<Rightarrow> sem_system" where
  "sem_start n = \<lparr>the_sem = sema_init n, sleeping = (\<lambda>_. None), waiter_up = (\<lambda>_. False),
                  acquired = 0, released = 0\<rparr>"

section \<open>The invariant\<close>

definition granted :: "sem_system \<Rightarrow> tid set" where
  "granted s = {t. sleeping s t \<noteq> None \<and> waiter_up s t}"

definition sem_inv :: "u32 \<Rightarrow> sem_system \<Rightarrow> bool" where
  "sem_inv n s \<longleftrightarrow>
     distinct (sem_wait_list (the_sem s)) \<and>
     set (sem_wait_list (the_sem s)) = {t. sleeping s t \<noteq> None \<and> \<not> waiter_up s t} \<and>
     finite (granted s) \<and>
     (sem_wait_list (the_sem s) \<noteq> [] \<longrightarrow> sem_count (the_sem s) = 0) \<and>
     (unat n + released s < 2 ^ 32 \<longrightarrow>
        unat (sem_count (the_sem s)) + acquired s + card (granted s) = unat n + released s)"

lemmas sem_down_defs = down_def down_interruptible_def down_killable_def down_timeout_def
  do_down_def do_down_interruptible_def do_down_killable_def do_down_timeout_def

text \<open>The four variants differ only in the state and the timeout they sleep with.\<close>

lemma call_down_eq:
  "\<exists>state timeout. call_down c task pending fatal sem =
     (if sem_count sem > 0 then (sem\<lparr>sem_count := sem_count sem - 1\<rparr>, Returns Ok)
      else do_down_common task pending fatal state timeout sem)"
  by (cases c) (auto simp: sem_down_defs)

lemma down_common_pass_cases:
  obtains (gave_up) e where "down_common_pass task pending fatal state timeout sem =
      (sem\<lparr>sem_wait_list := remove1 task (sem_wait_list sem)\<rparr>, Returns (Inl e))"
  | (slept) "down_common_pass task pending fatal state timeout sem = (sem, Sleeps state timeout)"
proof -
  have "(\<exists>e. down_common_pass task pending fatal state timeout sem =
      (sem\<lparr>sem_wait_list := remove1 task (sem_wait_list sem)\<rparr>, Returns (Inl e))) \<or>
    down_common_pass task pending fatal state timeout sem = (sem, Sleeps state timeout)"
    by (simp add: down_common_pass_def)
  with that show thesis by blast
qed

lemma sem_inv_start: "sem_inv n (sem_start n)"
  by (simp add: sem_inv_def sem_start_def sema_init_def granted_def)

lemma sem_inv_acquire:
  assumes "sem_inv n s" and "sleeping s t = None" and "sem_count (the_sem s) > 0"
  shows "sem_inv n (s\<lparr>the_sem := (the_sem s)\<lparr>sem_count := sem_count (the_sem s) - 1\<rparr>,
                     acquired := acquired s + 1\<rparr>)"
  using assms unat_dec [of "sem_count (the_sem s)"]
  by (auto simp: sem_inv_def granted_def)

lemma sem_inv_enqueue:
  assumes "sem_inv n s" and "sleeping s t = None" and "sem_count (the_sem s) = 0"
  shows "sem_inv n (s\<lparr>the_sem := (the_sem s)\<lparr>sem_wait_list := sem_wait_list (the_sem s) @ [t]\<rparr>,
                     sleeping := (sleeping s)(t \<mapsto> p), waiter_up := (waiter_up s)(t := False)\<rparr>)"
    (is "sem_inv n ?s")
proof -
  have "granted ?s = granted s"
    using assms(2) by (auto simp: granted_def)
  with assms show ?thesis
    by (auto simp: sem_inv_def split: if_splits)
qed

lemma sem_inv_give_up:
  assumes "sem_inv n s" and "sleeping s t \<noteq> None" and "\<not> waiter_up s t"
  shows "sem_inv n (s\<lparr>the_sem := (the_sem s)\<lparr>sem_wait_list := remove1 t (sem_wait_list (the_sem s))\<rparr>,
                     sleeping := (sleeping s)(t := None)\<rparr>)" (is "sem_inv n ?s")
proof -
  have "granted ?s = granted s"
    using assms(3) by (auto simp: granted_def)
  with assms show ?thesis
    by (auto simp: sem_inv_def)
qed

lemma sem_inv_taken:
  assumes "sem_inv n s" and "sleeping s t \<noteq> None" and "waiter_up s t"
  shows "sem_inv n (s\<lparr>sleeping := (sleeping s)(t := None), acquired := acquired s + 1\<rparr>)"
    (is "sem_inv n ?s")
proof -
  have "granted ?s = granted s - {t}" and t: "t \<in> granted s"
    using assms by (auto simp: granted_def)
  moreover have "card (granted s - {t}) + 1 = card (granted s)"
    using assms(1) card_Suc_Diff1 [OF _ t] by (simp add: sem_inv_def)
  ultimately show ?thesis
    using assms by (auto simp: sem_inv_def)
qed

lemma sem_inv_release:
  assumes "sem_inv n s" and "up (the_sem s) = Some (sem', woken)"
  shows "sem_inv n (s\<lparr>the_sem := sem', released := released s + 1,
           waiter_up := (case woken of None \<Rightarrow> waiter_up s | Some w \<Rightarrow> (waiter_up s)(w := True))\<rparr>)"
proof (cases "sem_wait_list (the_sem s)")
  case Nil
  with assms(2) have "woken = None" and "sem' = (the_sem s)\<lparr>sem_count := sem_count (the_sem s) + 1\<rparr>"
    by (simp_all add: up_def)
  moreover have "unat (sem_count (the_sem s) + 1) + acquired s + card (granted s) = unat n + released s + 1"
    if "unat n + (released s + 1) < 2 ^ 32"
  proof -
    have "unat (sem_count (the_sem s)) + acquired s + card (granted s) = unat n + released s"
      using assms(1) that unfolding sem_inv_def by linarith
    moreover from this that have "unat (sem_count (the_sem s)) + 1 < 2 ^ LENGTH(32)"
      by simp
    ultimately show ?thesis
      using unat_inc [of "sem_count (the_sem s)"] by linarith
  qed
  ultimately show ?thesis
    using assms(1) Nil by (simp add: sem_inv_def granted_def)
next
  case (Cons w ws)
  with assms(2) have up: "woken = Some w" "sem' = (the_sem s)\<lparr>sem_wait_list := ws\<rparr>"
    by (simp_all add: up_def do_up_def)
  have w: "sleeping s w \<noteq> None" "\<not> waiter_up s w"
    using assms(1) Cons by (auto simp: sem_inv_def)
  have "{t. sleeping s t \<noteq> None \<and> (if t = w then True else waiter_up s t)} = insert w (granted s)"
    and "w \<notin> granted s"
    using w by (auto simp: granted_def)
  with assms(1) Cons w up show ?thesis
    by (auto simp: sem_inv_def granted_def)
qed

lemma sem_inv_trylock:
  assumes "sem_inv n s" and "sleeping s t = None" and "down_trylock (the_sem s) = (sem', failed)"
  shows "sem_inv n (s\<lparr>the_sem := sem', acquired := (if failed then acquired s else acquired s + 1)\<rparr>)"
proof (cases failed)
  case True
  with assms show ?thesis
    by (auto simp: down_trylock_def Let_def)
next
  case False
  have "sem_count (the_sem s) \<noteq> 0"
    using assms(3) False by (auto simp: down_trylock_def Let_def)
  then have "sem_count (the_sem s) > 0"
    by (simp add: word_greater_zero_iff)
  with assms False show ?thesis
    using sem_inv_acquire [OF assms(1,2)] by (auto simp: down_trylock_def Let_def)
qed

lemma sem_inv_enter:
  assumes "sem_inv n s" and "sleeping s t = None"
  shows "sem_inv n (settle t (call_down c t pending fatal (the_sem s)) s)"
proof -
  obtain state timeout where call: "call_down c t pending fatal (the_sem s) =
      (if sem_count (the_sem s) > 0
       then ((the_sem s)\<lparr>sem_count := sem_count (the_sem s) - 1\<rparr>, Returns Ok)
       else do_down_common t pending fatal state timeout (the_sem s))"
    using call_down_eq by blast
  let ?q = "(the_sem s)\<lparr>sem_wait_list := sem_wait_list (the_sem s) @ [t]\<rparr>"
  have t: "t \<notin> set (sem_wait_list (the_sem s))"
    using assms by (simp add: sem_inv_def)
  show ?thesis
  proof (cases "sem_count (the_sem s) > 0")
    case True
    with call sem_inv_acquire [OF assms True] assms(2) show ?thesis
      by (simp add: fun_upd_idem)
  next
    case False
    then have zero: "sem_count (the_sem s) = 0" by (simp add: word_greater_zero_iff)
    show ?thesis
    proof (cases rule: down_common_pass_cases [of t pending fatal state timeout ?q])
      case (gave_up e)
      with call False t assms show ?thesis
        by (simp add: do_down_common_def fun_upd_idem remove1_append)
    next
      case slept
      with call False sem_inv_enqueue [OF assms zero] show ?thesis
        by (simp add: do_down_common_def)
    qed
  qed
qed

lemma sem_inv_resume:
  assumes "sem_inv n s" and "sleeping s t = Some p"
  shows "sem_inv n (settle t (down_common_resume t pending fatal state timeout (waiter_up s t)
                               (the_sem s)) s)"
proof (cases "waiter_up s t")
  case True
  with sem_inv_taken [OF assms(1)] assms(2) show ?thesis
    by (simp add: down_common_resume_def)
next
  case False
  show ?thesis
  proof (cases rule: down_common_pass_cases [of t pending fatal state timeout "the_sem s"])
    case (gave_up e)
    with False sem_inv_give_up [OF assms(1)] assms(2) show ?thesis
      by (simp add: down_common_resume_def)
  next
    case slept
    then have "settle t (down_common_resume t pending fatal state timeout (waiter_up s t) (the_sem s)) s =
        s\<lparr>sleeping := (sleeping s)(t \<mapsto> (state, timeout))\<rparr>"
      using False by (simp add: down_common_resume_def fun_upd_idem)
    moreover have "sem_inv n (s\<lparr>sleeping := (sleeping s)(t \<mapsto> (state, timeout))\<rparr>)"
    proof -
      have "{u. (if u = t then Some (state, timeout) else sleeping s u) \<noteq> None \<and> P u} =
            {u. sleeping s u \<noteq> None \<and> P u}" for P
        using assms(2) by auto
      with assms(1) show ?thesis by (simp add: sem_inv_def granted_def)
    qed
    ultimately show ?thesis by simp
  qed
qed

lemma sem_step_inv: "sem_step s s' \<Longrightarrow> sem_inv n s \<Longrightarrow> sem_inv n s'"
  by (induction rule: sem_step.induct)
    (blast intro: sem_inv_enter sem_inv_resume sem_inv_trylock sem_inv_release)+

interpretation sm: invariant_system "\<lambda>s. s = sem_start n" sem_step "sem_inv n" for n
  by unfold_locales (auto intro: sem_inv_start sem_step_inv)

section \<open>Properties\<close>

text \<open>
  C3: permits are conserved.  For a semaphore initialised with \<open>n\<close>, after any interleaving of
  the five acquiring calls, time-outs, interruptions and releases, the successful
  acquisitions, the grants not yet picked up and the remaining count add up to \<open>n\<close> plus the
  number of releases, as long as the 32-bit counter has not been made to overflow.  In
  particular a binary semaphore is never held twice.
\<close>

theorem sem_permits:
  assumes "sem_step\<^sup>*\<^sup>* (sem_start n) s" and "unat n + released s < 2 ^ 32"
  shows "acquired s + card (granted s) + unat (sem_count (the_sem s)) = unat n + released s"
proof -
  have "sem_inv n s" using sm.inv_reachable [OF refl assms(1)] .
  with assms(2) show ?thesis by (simp add: sem_inv_def)
qed

text \<open>
  C4: no task sleeps while permits are left.  A task asleep in \<^verbatim>\<open>__down_common\<close> that has not been
  granted the semaphore is on the wait list, and the count is then zero.
\<close>

theorem sem_no_lost_wakeup:
  assumes "sem_step\<^sup>*\<^sup>* (sem_start n) s" and "sleeping s t \<noteq> None" and "\<not> waiter_up s t"
  shows "t \<in> set (sem_wait_list (the_sem s)) \<and> sem_count (the_sem s) = 0"
proof -
  have inv: "sem_inv n s" using sm.inv_reachable [OF refl assms(1)] .
  then have "t \<in> set (sem_wait_list (the_sem s))"
    using assms(2,3) by (simp add: sem_inv_def)
  with inv show ?thesis unfolding sem_inv_def by (metis empty_iff empty_set)
qed

text \<open>
  \<^verbatim>\<open>up\<close> is first come, first served and never touches an empty list.  With no waiter it
  returns the permit to the count; otherwise it grants it, without touching the count, to the
  task that queued first, which is asleep and has not been granted before.
\<close>

theorem sem_up_fifo:
  assumes "sem_step\<^sup>*\<^sup>* (sem_start n) s"
  shows "up (the_sem s) =
    (case sem_wait_list (the_sem s) of
       [] \<Rightarrow> Some ((the_sem s)\<lparr>sem_count := sem_count (the_sem s) + 1\<rparr>, None)
     | w # ws \<Rightarrow> Some ((the_sem s)\<lparr>sem_wait_list := ws\<rparr>, Some w)) \<and>
    (\<forall>w \<in> set (sem_wait_list (the_sem s)). sleeping s w \<noteq> None \<and> \<not> waiter_up s w)"
proof -
  have "sem_inv n s" using sm.inv_reachable [OF refl assms] .
  then show ?thesis
    by (auto simp: sem_inv_def up_def do_up_def split: list.split)
qed

subsection \<open>A run\<close>

text \<open>On a binary semaphore, task 1 acquires and task 2 goes to sleep.\<close>

definition sem_contended :: sem_system where
  "sem_contended = settle 2 (down 2 False False \<lparr>sem_count = 0, sem_wait_list = []\<rparr>)
     (settle 1 (down 1 False False (sema_init 1)) (sem_start 1))"

lemmas sem_run_defs = sem_contended_def sem_start_def sema_init_def sem_down_defs
  do_down_common_def down_common_pass_def signal_pending_state_def

lemma sem_contended_eq:
  "sem_contended = \<lparr>the_sem = \<lparr>sem_count = 0, sem_wait_list = [2]\<rparr>,
     sleeping = [2 \<mapsto> (TASK_UNINTERRUPTIBLE, MAX_SCHEDULE_TIMEOUT)], waiter_up = (\<lambda>_. False),
     acquired = 1, released = 0\<rparr>"
  by (simp add: sem_run_defs fun_upd_idem)

lemma sem_run_contended: "sem_step\<^sup>*\<^sup>* (sem_start 1) sem_contended"
proof -
  let ?s = "settle 1 (down 1 False False (sema_init 1)) (sem_start 1)"
  have "sem_step (sem_start 1) ?s"
    using sem_step.enter [of "sem_start 1" 1 Down False False] by (simp add: sem_start_def)
  moreover have "sem_step ?s sem_contended"
    using sem_step.enter [of ?s 2 Down False False] by (simp add: sem_run_defs)
  ultimately show ?thesis by (meson rtranclp.simps)
qed

theorem sem_permits_witness: "acquired sem_contended = 1 \<and> card (granted sem_contended) = 0"
  using sem_permits [OF sem_run_contended] by (simp add: sem_contended_eq granted_def)

theorem sem_no_lost_wakeup_witness:
  "2 \<in> set (sem_wait_list (the_sem sem_contended)) \<and> sem_count (the_sem sem_contended) = 0"
  using sem_no_lost_wakeup [OF sem_run_contended, of 2] by (simp add: sem_contended_eq)

theorem sem_up_fifo_witness:
  "up (the_sem sem_contended) = Some (\<lparr>sem_count = 0, sem_wait_list = []\<rparr>, Some 2)"
  using sem_up_fifo [OF sem_run_contended] by (simp add: sem_contended_eq)

end
