(* ===== verification/Cred.thy ===== *)
theory Cred
  imports Kernel_Prelude
begin

text \<open>
  Task credentials (\<^verbatim>\<open>struct cred\<close>), user namespaces and the capability sets of
  \<^verbatim>\<open>include/linux/capability.h\<close>.  A \<^verbatim>\<open>kernel_cap_t\<close> is an array of two 32-bit words, here a
  record with one field per word.  The locale \<open>capability_set\<close> is the contract the security
  module relies on, that the bitwise operations are the set operations on the raised
  capabilities; it is interpreted on the words.
\<close>

section \<open>Capability sets\<close>

record kernel_cap_t =
  cap0 :: u32
  cap1 :: u32

definition CAP_TO_INDEX :: "nat \<Rightarrow> nat" where
  "CAP_TO_INDEX x = x div 32"

definition CAP_TO_MASK :: "nat \<Rightarrow> u32" where
  "CAP_TO_MASK x = push_bit (x mod 32) 1"

abbreviation (input) CAP_LAST_CAP :: nat where "CAP_LAST_CAP \<equiv> 35"

definition cap_valid :: "nat \<Rightarrow> bool" where
  "cap_valid x \<longleftrightarrow> x \<le> CAP_LAST_CAP"

text \<open>The word an index selects; the kernel only uses the indices 0 and 1.\<close>

definition cap_word :: "kernel_cap_t \<Rightarrow> nat \<Rightarrow> u32" where
  "cap_word c i = (if i = 0 then cap0 c else cap1 c)"

definition cap_raised :: "kernel_cap_t \<Rightarrow> nat \<Rightarrow> bool" where
  "cap_raised c flag \<longleftrightarrow> cap_word c (CAP_TO_INDEX flag) AND CAP_TO_MASK flag \<noteq> 0"

definition cap_raise :: "kernel_cap_t \<Rightarrow> nat \<Rightarrow> kernel_cap_t" where
  "cap_raise c flag =
     (if CAP_TO_INDEX flag = 0 then c\<lparr>cap0 := cap0 c OR CAP_TO_MASK flag\<rparr>
      else c\<lparr>cap1 := cap1 c OR CAP_TO_MASK flag\<rparr>)"

definition cap_lower :: "kernel_cap_t \<Rightarrow> nat \<Rightarrow> kernel_cap_t" where
  "cap_lower c flag =
     (if CAP_TO_INDEX flag = 0 then c\<lparr>cap0 := cap0 c AND NOT (CAP_TO_MASK flag)\<rparr>
      else c\<lparr>cap1 := cap1 c AND NOT (CAP_TO_MASK flag)\<rparr>)"

definition CAP_EMPTY_SET :: kernel_cap_t where
  "CAP_EMPTY_SET = \<lparr>cap0 = 0, cap1 = 0\<rparr>"

definition CAP_FULL_SET :: kernel_cap_t where
  "CAP_FULL_SET = \<lparr>cap0 = NOT 0, cap1 = NOT 0\<rparr>"

definition cap_combine :: "kernel_cap_t \<Rightarrow> kernel_cap_t \<Rightarrow> kernel_cap_t" where
  "cap_combine a b = \<lparr>cap0 = cap0 a OR cap0 b, cap1 = cap1 a OR cap1 b\<rparr>"

definition cap_intersect :: "kernel_cap_t \<Rightarrow> kernel_cap_t \<Rightarrow> kernel_cap_t" where
  "cap_intersect a b = \<lparr>cap0 = cap0 a AND cap0 b, cap1 = cap1 a AND cap1 b\<rparr>"

definition cap_drop :: "kernel_cap_t \<Rightarrow> kernel_cap_t \<Rightarrow> kernel_cap_t" where
  "cap_drop a d = \<lparr>cap0 = cap0 a AND NOT (cap0 d), cap1 = cap1 a AND NOT (cap1 d)\<rparr>"

definition cap_isclear :: "kernel_cap_t \<Rightarrow> bool" where
  "cap_isclear a \<longleftrightarrow> cap0 a = 0 \<and> cap1 a = 0"

definition cap_issubset :: "kernel_cap_t \<Rightarrow> kernel_cap_t \<Rightarrow> bool" where
  "cap_issubset a s = cap_isclear (cap_drop a s)"

abbreviation (input) CAP_CHOWN :: nat where "CAP_CHOWN \<equiv> 0"
abbreviation (input) CAP_DAC_OVERRIDE :: nat where "CAP_DAC_OVERRIDE \<equiv> 1"
abbreviation (input) CAP_DAC_READ_SEARCH :: nat where "CAP_DAC_READ_SEARCH \<equiv> 2"
abbreviation (input) CAP_FOWNER :: nat where "CAP_FOWNER \<equiv> 3"
abbreviation (input) CAP_FSETID :: nat where "CAP_FSETID \<equiv> 4"
abbreviation (input) CAP_SETGID :: nat where "CAP_SETGID \<equiv> 6"
abbreviation (input) CAP_SETUID :: nat where "CAP_SETUID \<equiv> 7"
abbreviation (input) CAP_SETPCAP :: nat where "CAP_SETPCAP \<equiv> 8"
abbreviation (input) CAP_LINUX_IMMUTABLE :: nat where "CAP_LINUX_IMMUTABLE \<equiv> 9"
abbreviation (input) CAP_NET_ADMIN :: nat where "CAP_NET_ADMIN \<equiv> 12"
abbreviation (input) CAP_NET_RAW :: nat where "CAP_NET_RAW \<equiv> 13"
abbreviation (input) CAP_SYS_RAWIO :: nat where "CAP_SYS_RAWIO \<equiv> 17"
abbreviation (input) CAP_SYS_PTRACE :: nat where "CAP_SYS_PTRACE \<equiv> 19"
abbreviation (input) CAP_SYS_ADMIN :: nat where "CAP_SYS_ADMIN \<equiv> 21"
abbreviation (input) CAP_SYS_NICE :: nat where "CAP_SYS_NICE \<equiv> 23"
abbreviation (input) CAP_SYS_TIME :: nat where "CAP_SYS_TIME \<equiv> 25"
abbreviation (input) CAP_MKNOD :: nat where "CAP_MKNOD \<equiv> 27"
abbreviation (input) CAP_SETFCAP :: nat where "CAP_SETFCAP \<equiv> 31"
abbreviation (input) CAP_MAC_OVERRIDE :: nat where "CAP_MAC_OVERRIDE \<equiv> 32"

definition CAP_FS_SET :: kernel_cap_t where
  "CAP_FS_SET =
     \<lparr>cap0 = CAP_TO_MASK CAP_CHOWN OR CAP_TO_MASK CAP_MKNOD OR CAP_TO_MASK CAP_DAC_OVERRIDE OR
             CAP_TO_MASK CAP_DAC_READ_SEARCH OR CAP_TO_MASK CAP_FOWNER OR CAP_TO_MASK CAP_FSETID OR
             CAP_TO_MASK CAP_LINUX_IMMUTABLE,
      cap1 = CAP_TO_MASK CAP_MAC_OVERRIDE\<rparr>"

definition cap_drop_fs_set :: "kernel_cap_t \<Rightarrow> kernel_cap_t" where
  "cap_drop_fs_set a = cap_drop a CAP_FS_SET"

definition cap_raise_fs_set :: "kernel_cap_t \<Rightarrow> kernel_cap_t \<Rightarrow> kernel_cap_t" where
  "cap_raise_fs_set a permitted = cap_combine a (cap_intersect permitted CAP_FS_SET)"

section \<open>User namespaces and credentials\<close>

text \<open>
  A namespace other than \<^verbatim>\<open>init_user_ns\<close> has a creator, a user of its parent namespace; the
  numbers tell apart objects that C tells apart by their address.
\<close>

datatype user_namespace = Init_user_ns | User_ns nat user_struct
  and user_struct = User nat user_namespace

fun user_ns :: "user_struct \<Rightarrow> user_namespace" where
  "user_ns (User n ns) = ns"

text \<open>The supplementary groups, the blocks of \<^verbatim>\<open>struct group_info\<close> laid end to end.\<close>

type_synonym group_info = "u32 list"

record cred =
  uid :: u32
  gid :: u32
  suid :: u32
  sgid :: u32
  euid :: u32
  egid :: u32
  fsuid :: u32
  fsgid :: u32
  securebits :: u32
  cap_inheritable :: kernel_cap_t
  cap_permitted :: kernel_cap_t
  cap_effective :: kernel_cap_t
  cap_bset :: kernel_cap_t
  user :: user_struct
  cred_groups :: "group_info option"

section \<open>The contract of capability sets\<close>

locale capability_set =
  fixes raised :: "'c \<Rightarrow> nat \<Rightarrow> bool"
    and caps :: "'c \<Rightarrow> nat set"
    and combine intersect drop :: "'c \<Rightarrow> 'c \<Rightarrow> 'c"
    and empty :: 'c
    and issubset :: "'c \<Rightarrow> 'c \<Rightarrow> bool"
  assumes caps_combine: "caps (combine a b) = caps a \<union> caps b"
    and caps_intersect: "caps (intersect a b) = caps a \<inter> caps b"
    and caps_drop: "caps (drop a b) = caps a - caps b"
    and caps_empty: "caps empty = {}"
    and issubset_caps: "issubset a b \<longleftrightarrow> caps a \<subseteq> caps b"
    and caps_eqI: "caps a = caps b \<Longrightarrow> a = b"
begin

lemma issubset_refl [simp]: "issubset a a"
  by (simp add: issubset_caps)

lemma issubset_trans: "issubset a b \<Longrightarrow> issubset b c \<Longrightarrow> issubset a c"
  by (auto simp: issubset_caps)

lemma issubset_antisym: "issubset a b \<Longrightarrow> issubset b a \<Longrightarrow> a = b"
  by (auto simp: issubset_caps intro: caps_eqI)

lemma issubset_combine_iff [simp]: "issubset (combine a b) c \<longleftrightarrow> issubset a c \<and> issubset b c"
  by (auto simp: issubset_caps caps_combine)

lemma issubset_intersect [simp]: "issubset (intersect a b) a" "issubset (intersect a b) b"
  by (auto simp: issubset_caps caps_intersect)

lemma issubset_intersect_mono: "issubset a c \<Longrightarrow> issubset (intersect a b) c"
  by (auto simp: issubset_caps caps_intersect)

lemma issubset_drop: "issubset a c \<Longrightarrow> issubset (drop a b) c"
  by (auto simp: issubset_caps caps_drop)

lemma issubset_empty [simp]: "issubset empty a"
  by (simp add: issubset_caps caps_empty)

lemma issubset_combine_mono: "issubset a c \<Longrightarrow> issubset a (combine c d)" "issubset a d \<Longrightarrow> issubset a (combine c d)"
  by (auto simp: issubset_caps caps_combine)

end

definition cap_set :: "kernel_cap_t \<Rightarrow> nat set" where
  "cap_set c = {x. x < 64 \<and> cap_raised c x}"

text \<open>A capability is raised when its bit is set in the word it indexes.\<close>

lemma cap_raised_bit: "cap_raised c x \<longleftrightarrow> bit (cap_word c (x div 32)) (x mod 32)"
proof -
  have "w AND push_bit n 1 \<noteq> 0 \<longleftrightarrow> bit w n" for w :: u32 and n
    using and_exp_eq_0_iff_not_bit [of w n] by (simp add: push_bit_eq_mult)
  then show ?thesis
    by (simp add: cap_raised_def CAP_TO_INDEX_def CAP_TO_MASK_def)
qed

lemma in_cap_set: "x \<in> cap_set c \<longleftrightarrow> (if x < 32 then bit (cap0 c) x else x < 64 \<and> bit (cap1 c) (x - 32))"
proof -
  have "x div 32 = 0 \<and> x mod 32 = x" if "x < 32" using that by simp
  moreover have "x div 32 = 1 \<and> x mod 32 = x - 32" if "\<not> x < 32" "x < 64"
    using that by (simp add: div_if mod_if)
  ultimately show ?thesis
    by (auto simp: cap_set_def cap_raised_bit cap_word_def)
qed

lemma caps_eq_iff: "cap_set a = cap_set b \<longleftrightarrow> a = b"
proof
  assume eq: "cap_set a = cap_set b"
  have "bit (cap0 a) n \<longleftrightarrow> bit (cap0 b) n" if "n < 32" for n
    using that eq in_cap_set [of n] by auto
  moreover have "bit (cap1 a) n \<longleftrightarrow> bit (cap1 b) n" if "n < 32" for n
    using that eq in_cap_set [of "n + 32"] by auto
  ultimately show "a = b"
    by (intro kernel_cap_t.equality) (auto intro!: bit_word_eqI)
qed simp

lemma cap_set_ops:
  "cap_set (cap_combine a b) = cap_set a \<union> cap_set b"
  "cap_set (cap_intersect a b) = cap_set a \<inter> cap_set b"
  "cap_set (cap_drop a b) = cap_set a - cap_set b"
  "cap_set CAP_EMPTY_SET = {}"
  by (auto simp: in_cap_set cap_combine_def cap_intersect_def cap_drop_def CAP_EMPTY_SET_def
      bit_simps split: if_splits)

lemma cap_issubset_iff: "cap_issubset a b \<longleftrightarrow> cap_set a \<subseteq> cap_set b"
proof -
  have "cap_isclear c \<longleftrightarrow> c = CAP_EMPTY_SET" for c
    by (cases c) (simp add: cap_isclear_def CAP_EMPTY_SET_def)
  then have "cap_issubset a b \<longleftrightarrow> cap_set (cap_drop a b) = cap_set CAP_EMPTY_SET"
    by (simp add: cap_issubset_def caps_eq_iff)
  then show ?thesis by (auto simp: cap_set_ops)
qed

interpretation kc: capability_set cap_raised cap_set cap_combine cap_intersect cap_drop
  CAP_EMPTY_SET cap_issubset
  by unfold_locales (simp_all add: cap_set_ops cap_issubset_iff caps_eq_iff)

lemma cap_isclear_iff: "cap_isclear c \<longleftrightarrow> c = CAP_EMPTY_SET"
  by (cases c) (simp add: cap_isclear_def CAP_EMPTY_SET_def)

lemma cap_set_lower: "x < 64 \<Longrightarrow> cap_set (cap_lower c x) = cap_set c - {x}"
proof (cases "x < 32")
  case True
  then show ?thesis
    by (auto simp: in_cap_set cap_lower_def CAP_TO_INDEX_def CAP_TO_MASK_def bit_simps split: if_splits)
next
  case False
  moreover assume "x < 64"
  ultimately have "x div 32 = 1" and "x mod 32 = x - 32"
    by (simp_all add: div_if mod_if)
  with False \<open>x < 64\<close> show ?thesis
    by (auto simp: in_cap_set cap_lower_def CAP_TO_INDEX_def CAP_TO_MASK_def bit_simps split: if_splits)
qed

end
