(* ===== verification/Cred_Groups.thy ===== *)
theory Cred_Groups
  imports Cred
begin

text \<open>
  Supplementary groups, \<^verbatim>\<open>kernel/groups.c\<close>: the Shell sort that \<^verbatim>\<open>set_groups\<close> runs on a new
  group list, the binary search in it, and the membership tests built on the search.  The
  \<^verbatim>\<open>int\<close> indices do not overflow, since a list has at most \<open>NGROUPS_MAX = 65536\<close> entries; they
  are natural numbers here, apart from \<open>left\<close>, which becomes negative.  The locale
  \<open>membership\<close> is what callers of \<^verbatim>\<open>in_group_p\<close> rely on.
\<close>

section \<open>Operations\<close>

text \<open>
  The innermost loop of \<^verbatim>\<open>groups_sort\<close>: shift the entries above \<open>tmp\<close> up by one stride.  The
  test of the stride, which the caller keeps positive, only makes the recursion total.
\<close>

function shift_up :: "u32 list \<Rightarrow> nat \<Rightarrow> u32 \<Rightarrow> int \<Rightarrow> nat \<Rightarrow> u32 list \<times> nat" where
  "shift_up gi stride tmp left right =
     (if 0 < stride \<and> left \<ge> 0 \<and> gi ! nat left > tmp
      then shift_up (gi[right := gi ! nat left]) stride tmp (left - int stride) (nat left)
      else (gi, right))"
  by pat_completeness auto
termination
  by (relation "measure (\<lambda>(gi, stride, tmp, left, right). nat (left + 1))") auto

declare shift_up.simps [simp del]

function sort_pass :: "u32 list \<Rightarrow> nat \<Rightarrow> nat \<Rightarrow> nat \<Rightarrow> u32 list" where
  "sort_pass gi stride mx base =
     (if base < mx
      then (let tmp = gi ! (base + stride);
                (gi', right) = shift_up gi stride tmp (int base) (base + stride)
            in sort_pass (gi'[right := tmp]) stride mx (base + 1))
      else gi)"
  by pat_completeness auto
termination
  by (relation "measure (\<lambda>(gi, stride, mx, base). mx - base)") auto

declare sort_pass.simps [simp del]

function initial_stride :: "nat \<Rightarrow> nat \<Rightarrow> nat" where
  "initial_stride gidsetsize stride =
     (if stride < gidsetsize then initial_stride gidsetsize (3 * stride + 1) else stride)"
  by pat_completeness auto
termination
  by (relation "measure (\<lambda>(n, stride). n - stride)") auto

declare initial_stride.simps [simp del]

function sort_strides :: "u32 list \<Rightarrow> nat \<Rightarrow> u32 list" where
  "sort_strides gi stride =
     (if stride \<noteq> 0
      then sort_strides (sort_pass gi stride (length gi - stride) 0) (stride div 3)
      else gi)"
  by pat_completeness auto
termination
  by (relation "measure snd") auto

declare sort_strides.simps [simp del]

definition groups_sort :: "group_info \<Rightarrow> group_info" where
  "groups_sort gi = sort_strides gi (initial_stride (length gi) 1 div 3)"

function search_loop :: "group_info \<Rightarrow> u32 \<Rightarrow> nat \<Rightarrow> nat \<Rightarrow> bool" where
  "search_loop gi grp left right =
     (if left < right
      then (let mid = (left + right) div 2
            in if grp > gi ! mid then search_loop gi grp (mid + 1) right
               else if grp < gi ! mid then search_loop gi grp left mid
               else True)
      else False)"
  by pat_completeness auto
termination
  by (relation "measure (\<lambda>(gi, grp, left, right). right - left)") auto

declare search_loop.simps [simp del]

definition groups_search :: "group_info option \<Rightarrow> u32 \<Rightarrow> bool" where
  "groups_search group_info grp =
     (case group_info of None \<Rightarrow> False | Some gi \<Rightarrow> search_loop gi grp 0 (length gi))"

definition set_groups :: "cred \<Rightarrow> group_info \<Rightarrow> cred" where
  "set_groups new gi = new\<lparr>cred_groups := Some (groups_sort gi)\<rparr>"

definition in_group_p :: "cred \<Rightarrow> u32 \<Rightarrow> bool" where
  "in_group_p cred grp = (if grp \<noteq> fsgid cred then groups_search (cred_groups cred) grp else True)"

definition in_egroup_p :: "cred \<Rightarrow> u32 \<Rightarrow> bool" where
  "in_egroup_p cred grp = (if grp \<noteq> egid cred then groups_search (cred_groups cred) grp else True)"

section \<open>Sorting\<close>

lemma length_shift_up [simp]: "length (fst (shift_up gi stride tmp left right)) = length gi"
  by (induction gi stride tmp left right rule: shift_up.induct) (subst shift_up.simps, auto)

text \<open>The hole the loop leaves at \<open>right\<close> moves, but with \<open>tmp\<close> in it the entries are the same.\<close>

lemma shift_up_mset:
  assumes "int right = left + int stride" and "right < length gi"
  shows "let (gi', right') = shift_up gi stride tmp left right
         in right' < length gi' \<and> mset (gi'[right' := tmp]) = mset (gi[right := tmp])"
  using assms
proof (induction gi stride tmp left right rule: shift_up.induct)
  case (1 gi stride tmp left right)
  show ?case
  proof (cases "0 < stride \<and> left \<ge> 0 \<and> gi ! nat left > tmp")
    case True
    let ?l = "nat left" and ?gi = "gi[right := gi ! nat left]"
    have l: "?l < length gi" "?l \<noteq> right" "int ?l = left - int stride + int stride"
      using True "1.prems" by auto
    have "mset (?gi[?l := tmp]) = mset ((gi[right := tmp])[?l := tmp, right := gi ! ?l])"
      using l "1.prems"(2) by (intro arg_cong [where f = mset]) (auto simp: list_eq_iff_nth_eq nth_list_update)
    also have "\<dots> = mset (gi[right := tmp])"
      using mset_swap [of right "gi[right := tmp]" ?l] l "1.prems"(2) by simp
    finally show ?thesis
      using "1.IH" [OF True] l by (simp add: shift_up.simps [of gi] True)
  next
    case False
    then have "shift_up gi stride tmp left right = (gi, right)"
      by (auto simp: shift_up.simps [of gi])
    with "1.prems" show ?thesis by simp
  qed
qed

lemma sort_pass_mset:
  "mx + stride \<le> length gi \<Longrightarrow> mset (sort_pass gi stride mx base) = mset gi"
proof (induction gi stride mx base rule: sort_pass.induct)
  case (1 gi stride mx base)
  show ?case
  proof (cases "base < mx")
    case True
    let ?tmp = "gi ! (base + stride)"
    obtain gi' right where sh: "shift_up gi stride ?tmp (int base) (base + stride) = (gi', right)"
      by fastforce
    have "right < length gi'" and m: "mset (gi'[right := ?tmp]) = mset gi"
      using shift_up_mset [of "base + stride" "int base" stride gi ?tmp] True "1.prems" sh by auto
    moreover have "length gi' = length gi"
      using length_shift_up [of gi stride ?tmp "int base" "base + stride"] sh by simp
    ultimately show ?thesis
      using "1.IH" [OF True refl sh [symmetric] refl] "1.prems" True sh
      by (simp add: sort_pass.simps [of gi])
  next
    case False
    then show ?thesis by (simp add: sort_pass.simps [of gi])
  qed
qed

lemma sort_strides_mset: "stride \<le> length gi \<Longrightarrow> mset (sort_strides gi stride) = mset gi"
proof (induction gi stride rule: sort_strides.induct)
  case (1 gi stride)
  show ?case
  proof (cases "stride = 0")
    case True
    then show ?thesis by (simp add: sort_strides.simps [of gi])
  next
    case False
    have m: "mset (sort_pass gi stride (length gi - stride) 0) = mset gi"
      using "1.prems" by (simp add: sort_pass_mset)
    then have "length (sort_pass gi stride (length gi - stride) 0) = length gi"
      by (metis size_mset)
    then show ?thesis
      using "1.IH" False "1.prems" m by (simp add: sort_strides.simps [of gi])
  qed
qed

text \<open>
  With stride one the loop is insertion into a sorted prefix.  \<open>sorted_but gi n hole tmp\<close>
  says that the first \<open>n\<close> entries would be sorted if the hole were left out, and that the
  entries behind the hole are above \<open>tmp\<close>.
\<close>

definition sorted_but :: "u32 list \<Rightarrow> nat \<Rightarrow> nat \<Rightarrow> u32 \<Rightarrow> bool" where
  "sorted_but gi n hole tmp \<longleftrightarrow>
     (\<forall>i j. i < j \<and> j < n \<and> i \<noteq> hole \<and> j \<noteq> hole \<longrightarrow> gi ! i \<le> gi ! j) \<and>
     (\<forall>j. hole < j \<and> j < n \<longrightarrow> tmp \<le> gi ! j)"

lemma sorted_but_step:
  assumes "sorted_but gi n (Suc k) tmp" and "tmp < gi ! k" and "Suc k < n" and "n \<le> length gi"
  shows "sorted_but (gi[Suc k := gi ! k]) n k tmp"
  unfolding sorted_but_def
proof (intro conjI allI impI)
  fix i j
  assume ij: "i < j \<and> j < n \<and> i \<noteq> k \<and> j \<noteq> k"
  have le: "i' \<noteq> Suc k \<Longrightarrow> j' \<noteq> Suc k \<Longrightarrow> i' < j' \<Longrightarrow> j' < n \<Longrightarrow> gi ! i' \<le> gi ! j'" for i' j'
    using assms(1) by (simp add: sorted_but_def)
  consider "i = Suc k" | "j = Suc k" | "i \<noteq> Suc k" "j \<noteq> Suc k" by blast
  then show "gi[Suc k := gi ! k] ! i \<le> gi[Suc k := gi ! k] ! j"
    by cases (use ij assms le [of k j] le [of i k] le [of i j] in \<open>auto simp: nth_list_update\<close>)
next
  fix j
  assume "k < j \<and> j < n"
  then show "tmp \<le> gi[Suc k := gi ! k] ! j"
    using assms by (cases "j = Suc k") (auto simp: sorted_but_def)
qed

lemma shift_up_sorted:
  assumes "k < n" and "n \<le> length gi" and "sorted_but gi n k tmp"
    and "shift_up gi 1 tmp (int k - 1) k = (gi', right')"
  shows "\<forall>i j. i < j \<and> j < n \<longrightarrow> gi'[right' := tmp] ! i \<le> gi'[right' := tmp] ! j"
  using assms
proof (induction k arbitrary: gi)
  case 0
  then have "gi' = gi" and "right' = 0"
    by (simp_all add: shift_up.simps [of gi])
  moreover have "gi \<noteq> []"
    using 0 by auto
  ultimately show ?case
    using 0 by (auto simp: sorted_but_def nth_list_update)
next
  case (Suc k)
  show ?case
  proof (cases "tmp < gi ! k")
    case True
    then have "shift_up (gi[Suc k := gi ! k]) 1 tmp (int k - 1) k = (gi', right')"
      using Suc.prems(4) by (simp add: shift_up.simps [of gi])
    moreover have "sorted_but (gi[Suc k := gi ! k]) n k tmp"
      using Suc.prems True by (intro sorted_but_step) simp_all
    ultimately show ?thesis
      using Suc.prems by (intro Suc.IH [of "gi[Suc k := gi ! k]"]) simp_all
  next
    case False
    then have eq: "gi' = gi" "right' = Suc k"
      using Suc.prems(4) by (simp_all add: shift_up.simps [of gi])
    have "gi ! i \<le> tmp" if "i < Suc k" for i
    proof (cases "i = k")
      case False
      with that Suc.prems have "gi ! i \<le> gi ! k" by (simp add: sorted_but_def)
      with \<open>\<not> tmp < gi ! k\<close> show ?thesis by simp
    qed (use \<open>\<not> tmp < gi ! k\<close> in simp)
    with Suc.prems eq show ?thesis
      by (auto simp: sorted_but_def nth_list_update)
  qed
qed

lemma sort_pass_sorted:
  assumes "mx + 1 = length gi" and "base \<le> mx"
    and "\<And>i j. i < j \<Longrightarrow> j \<le> base \<Longrightarrow> gi ! i \<le> gi ! j"
  shows "sorted (sort_pass gi 1 mx base)"
  using assms
proof (induction gi "1 :: nat" mx base rule: sort_pass.induct)
  case (1 gi mx base)
  show ?case
  proof (cases "base < mx")
    case True
    let ?tmp = "gi ! (base + 1)"
    obtain gi' right where sh: "shift_up gi 1 ?tmp (int base) (base + 1) = (gi', right)"
      by fastforce
    have "sorted_but gi (base + 2) (base + 1) ?tmp"
      using "1.prems" by (auto simp: sorted_but_def)
    then have srt: "\<forall>i j. i < j \<and> j < base + 2 \<longrightarrow> gi'[right := ?tmp] ! i \<le> gi'[right := ?tmp] ! j"
      using shift_up_sorted [of "base + 1" "base + 2" gi ?tmp gi' right] sh True "1.prems"(1) by simp
    have "length gi' = length gi"
      using length_shift_up [of gi 1 ?tmp "int base" "base + 1"] sh by (simp del: One_nat_def)
    then have "sorted (sort_pass (gi'[right := ?tmp]) 1 mx (base + 1))"
      using "1.hyps" [OF True refl sh [symmetric] refl] "1.prems" True srt by simp
    then show ?thesis
      using True sh by (simp add: sort_pass.simps [of gi])
  next
    case False
    with "1.prems" have "sorted gi"
      by (auto simp: sorted_iff_nth_mono_less)
    with False show ?thesis by (simp add: sort_pass.simps [of gi])
  qed
qed

text \<open>The last stride is one: the strides are 1, 4, 13, \<open>\<dots>\<close> and division by three goes back.\<close>

inductive stride_seq :: "nat \<Rightarrow> bool" where
  "stride_seq 1"
| "stride_seq s \<Longrightarrow> stride_seq (Suc (3 * s))"

lemma stride_seq_pos: "stride_seq s \<Longrightarrow> 0 < s"
  by (induction rule: stride_seq.induct) auto

lemma initial_stride_seq: "stride_seq s \<Longrightarrow> stride_seq (initial_stride n s)"
proof (induction n s rule: initial_stride.induct)
  case (1 n s)
  then show ?case
    by (subst initial_stride.simps) (auto intro: stride_seq.intros)
qed

lemma initial_stride_bound: "0 < s \<Longrightarrow> s \<le> 3 * n + 1 \<Longrightarrow> initial_stride n s \<le> 3 * n + 1"
proof (induction n s rule: initial_stride.induct)
  case (1 n s)
  then show ?case
    by (subst initial_stride.simps) auto
qed

lemma initial_stride_ge: "n \<le> initial_stride n s"
proof (induction n s rule: initial_stride.induct)
  case (1 n s)
  then show ?case
    by (subst initial_stride.simps) auto
qed

lemma sort_strides_sorted: "stride_seq s \<Longrightarrow> s \<le> length gi \<Longrightarrow> sorted (sort_strides gi s)"
proof (induction arbitrary: gi rule: stride_seq.induct)
  case 1
  have "sorted (sort_pass gi 1 (length gi - 1) 0)"
    using 1 by (intro sort_pass_sorted) auto
  then show ?case
    by (simp add: sort_strides.simps [of gi "Suc 0"] sort_strides.simps [of _ 0])
next
  case (2 s)
  let ?gi = "sort_pass gi (Suc (3 * s)) (length gi - Suc (3 * s)) 0"
  have "mset ?gi = mset gi"
    using 2 by (intro sort_pass_mset) auto
  then have "length ?gi = length gi"
    by (metis size_mset)
  moreover have "Suc (3 * s) div 3 = s"
    by simp
  ultimately show ?case
    using 2 by (simp add: sort_strides.simps [of gi "Suc (3 * s)"] del: div_Suc)
qed

lemma groups_sort_stride: "initial_stride (length gi) 1 div 3 \<le> length gi"
  using initial_stride_bound [of 1 "length gi"] by simp

lemma groups_sort_mset: "mset (groups_sort gi) = mset gi"
  unfolding groups_sort_def by (rule sort_strides_mset) (rule groups_sort_stride)

lemma groups_sort_sorted: "sorted (groups_sort gi)"
proof -
  have seq: "stride_seq (initial_stride (length gi) 1)"
    by (intro initial_stride_seq stride_seq.intros)
  then show ?thesis
  proof cases
    case 1
    then have "length gi \<le> 1"
      using initial_stride_ge [of "length gi" 1] by simp
    then have "sorted gi"
      by (cases gi) auto
    with 1 show ?thesis
      by (simp add: groups_sort_def sort_strides.simps [of gi 0])
  next
    case (2 s)
    then have "initial_stride (length gi) 1 div 3 = s"
      by simp
    with 2 groups_sort_stride [of gi] show ?thesis
      by (simp add: groups_sort_def sort_strides_sorted)
  qed
qed

section \<open>Searching\<close>

lemma search_loop_iff:
  assumes "sorted gi" and "right \<le> length gi"
  shows "search_loop gi grp left right \<longleftrightarrow> (\<exists>i. left \<le> i \<and> i < right \<and> gi ! i = grp)"
  using assms
proof (induction gi grp left right rule: search_loop.induct)
  case (1 gi grp left right)
  let ?mid = "(left + right) div 2"
  have mono: "\<And>i j. i \<le> j \<Longrightarrow> j < length gi \<Longrightarrow> gi ! i \<le> gi ! j"
    using "1.prems"(1) by (simp add: sorted_iff_nth_mono)
  show ?case
  proof (cases "left < right")
    case False
    then show ?thesis by (simp add: search_loop.simps [of gi])
  next
    case True
    then have mid: "left \<le> ?mid" "?mid < right" by auto
    consider "grp > gi ! ?mid" | "grp < gi ! ?mid" | "grp = gi ! ?mid" by fastforce
    then show ?thesis
    proof cases
      case 1
      have above: "i > ?mid" if "i < right" "gi ! i = grp" for i
        using mono [of i ?mid] that mid 1 "1.prems"(2) by fastforce
      have "search_loop gi grp left right = search_loop gi grp (?mid + 1) right"
        using True 1 by (simp add: search_loop.simps [of gi grp left right] Let_def)
      moreover have "\<dots> \<longleftrightarrow> (\<exists>i. ?mid + 1 \<le> i \<and> i < right \<and> gi ! i = grp)"
        by (rule "1.IH"(1) [OF True refl 1 "1.prems"])
      ultimately have "search_loop gi grp left right \<longleftrightarrow> (\<exists>i. ?mid < i \<and> i < right \<and> gi ! i = grp)"
        by (simp add: Suc_le_eq)
      moreover have "?mid < i \<longleftrightarrow> left \<le> i" if "i < right" "gi ! i = grp" for i
        using above [OF that] mid(1) by linarith
      ultimately show ?thesis by blast
    next
      case 2
      have below: "i < ?mid" if "i < right" "gi ! i = grp" for i
        using mono [of ?mid i] that mid 2 "1.prems"(2) by fastforce
      have "search_loop gi grp left right = search_loop gi grp left ?mid"
        using True 2 less_not_sym [OF 2] by (simp add: search_loop.simps [of gi grp left right] Let_def)
      moreover have "\<dots> \<longleftrightarrow> (\<exists>i. left \<le> i \<and> i < ?mid \<and> gi ! i = grp)"
        using 2 mid "1.prems" by (intro "1.IH"(2) [OF True refl]) auto
      moreover have "(left \<le> i \<and> i < ?mid \<and> gi ! i = grp) \<longleftrightarrow> (left \<le> i \<and> i < right \<and> gi ! i = grp)" for i
        using below [of i] mid(2) by linarith
      ultimately show ?thesis by simp
    next
      case 3
      with True mid show ?thesis
        by (subst search_loop.simps) (auto simp: Let_def)
    qed
  qed
qed

text \<open>Group lists are stored sorted: \<^verbatim>\<open>set_groups\<close> is the only way to install one.\<close>

definition groups_sorted :: "cred \<Rightarrow> bool" where
  "groups_sorted cred \<longleftrightarrow> (case cred_groups cred of None \<Rightarrow> True | Some gi \<Rightarrow> sorted gi)"

definition group_set :: "cred \<Rightarrow> u32 set" where
  "group_set cred = (case cred_groups cred of None \<Rightarrow> {} | Some gi \<Rightarrow> set gi)"

lemma groups_search_iff: "groups_sorted cred \<Longrightarrow> groups_search (cred_groups cred) grp \<longleftrightarrow> grp \<in> group_set cred"
proof (cases "cred_groups cred")
  case (Some gi)
  moreover assume "groups_sorted cred"
  ultimately have "search_loop gi grp 0 (length gi) \<longleftrightarrow> (\<exists>i. 0 \<le> i \<and> i < length gi \<and> gi ! i = grp)"
    by (intro search_loop_iff) (simp_all add: groups_sorted_def)
  with Some show ?thesis
    by (simp add: group_set_def groups_search_def in_set_conv_nth)
qed (simp add: group_set_def groups_search_def)

lemma groups_sorted_set_groups: "groups_sorted (set_groups cred gi)"
  by (simp add: groups_sorted_def set_groups_def groups_sort_sorted)

lemma group_set_set_groups: "group_set (set_groups cred gi) = set gi"
proof -
  have "set (groups_sort gi) = set gi"
    by (rule mset_eq_setD) (rule groups_sort_mset)
  then show ?thesis by (simp add: group_set_def set_groups_def)
qed

text \<open>The contract of a membership test, for the file system ids and for the effective ids.\<close>

locale membership =
  fixes member :: "cred \<Rightarrow> u32 \<Rightarrow> bool"
    and own :: "cred \<Rightarrow> u32"
  assumes member_iff: "groups_sorted cred \<Longrightarrow> member cred g \<longleftrightarrow> g = own cred \<or> g \<in> group_set cred"
    and own_set_groups: "own (set_groups cred gi) = own cred"
begin

lemma member_after_set: "member (set_groups cred gi) g \<longleftrightarrow> g = own cred \<or> g \<in> set gi"
  by (simp add: member_iff groups_sorted_set_groups group_set_set_groups own_set_groups)

end

interpretation fs: membership in_group_p fsgid
  by unfold_locales (auto simp: in_group_p_def groups_search_iff set_groups_def)

interpretation eff: membership in_egroup_p egid
  by unfold_locales (auto simp: in_egroup_p_def groups_search_iff set_groups_def)

section \<open>Properties\<close>

text \<open>
  The Shell sort of \<^verbatim>\<open>groups_sort\<close> terminates with the same group ids, each as often as before,
  in ascending order.
\<close>

theorem groups_sort_correct: "sorted (groups_sort gi) \<and> mset (groups_sort gi) = mset gi"
  by (simp add: groups_sort_sorted groups_sort_mset)

text \<open>
  C5: after \<^verbatim>\<open>set_groups\<close> the membership tests are exact: a task is in a group if and only if it is
  its own (file system or effective) group or one of the ids in the list it installed, in
  whatever order the list was given.
\<close>

theorem group_membership_exact:
  "(in_group_p (set_groups cred gi) g \<longleftrightarrow> g = fsgid cred \<or> g \<in> set gi) \<and>
   (in_egroup_p (set_groups cred gi) g \<longleftrightarrow> g = egid cred \<or> g \<in> set gi)"
  using fs.member_after_set eff.member_after_set by blast

end
