(* ===== verification/Posix_Acl.thy ===== *)
theory Posix_Acl
  imports Cred_Groups
begin

text \<open>
  POSIX 1003.1e access control lists, \<^verbatim>\<open>fs/posix_acl.c\<close>: validation, the translation to and
  from file modes, the access check, and the changes made on creation and chmod.  The
  \<^verbatim>\<open>switch\<close> over \<^verbatim>\<open>e_tag\<close> becomes a case distinction over a datatype whose last constructor
  stands for every other value of the 16-bit field.  Group membership is \<open>in_group_p\<close> of
  \<open>Cred_Groups\<close>.
\<close>

section \<open>Data\<close>

datatype acl_tag = ACL_USER_OBJ | ACL_USER | ACL_GROUP_OBJ | ACL_GROUP | ACL_MASK | ACL_OTHER
  | Unknown_tag u16

record posix_acl_entry =
  e_tag :: acl_tag
  e_perm :: u16
  e_id :: u32

record posix_acl =
  a_refcount :: int
  a_entries :: "posix_acl_entry list"

abbreviation (input) ACL_UNDEFINED_ID :: u32 where "ACL_UNDEFINED_ID \<equiv> - 1"
abbreviation (input) ACL_READ :: u16 where "ACL_READ \<equiv> 4"
abbreviation (input) ACL_WRITE :: u16 where "ACL_WRITE \<equiv> 2"
abbreviation (input) ACL_EXECUTE :: u16 where "ACL_EXECUTE \<equiv> 1"
abbreviation (input) S_IRWXU :: u16 where "S_IRWXU \<equiv> 448"
abbreviation (input) S_IRWXG :: u16 where "S_IRWXG \<equiv> 56"
abbreviation (input) S_IRWXO :: u16 where "S_IRWXO \<equiv> 7"
abbreviation (input) S_IRWXUGO :: u16 where "S_IRWXUGO \<equiv> 511"

section \<open>Allocation and reference counts\<close>

definition posix_acl_init :: "posix_acl_entry list \<Rightarrow> posix_acl" where
  "posix_acl_init entries = \<lparr>a_refcount = 1, a_entries = entries\<rparr>"

text \<open>The first argument of the allocating functions says whether \<^verbatim>\<open>kmalloc\<close> succeeds.\<close>

definition posix_acl_alloc :: "bool \<Rightarrow> posix_acl_entry list \<Rightarrow> posix_acl option" where
  \<comment> \<open>C allocates first and then fills the entries in; here they are given at once\<close>
  "posix_acl_alloc have_memory entries =
     (if have_memory then Some (posix_acl_init entries) else None)"

definition posix_acl_clone :: "bool \<Rightarrow> posix_acl option \<Rightarrow> posix_acl option" where
  "posix_acl_clone have_memory acl =
     (case acl of
        None \<Rightarrow> None
      | Some a \<Rightarrow> if have_memory then Some (a\<lparr>a_refcount := 1\<rparr>) else None)"

text \<open>Dropping a reference: \<open>None\<close> when the list is freed.\<close>

definition posix_acl_release :: "posix_acl option \<Rightarrow> posix_acl option" where
  "posix_acl_release acl =
     (case acl of
        None \<Rightarrow> None
      | Some a \<Rightarrow> if a_refcount a - 1 = 0 then None else Some (a\<lparr>a_refcount := a_refcount a - 1\<rparr>))"

section \<open>Validation\<close>

text \<open>The scan of \<^verbatim>\<open>posix_acl_valid\<close>; \<open>None\<close> is the final state \<^verbatim>\<open>0\<close>.\<close>

fun valid_loop ::
  "posix_acl_entry list \<Rightarrow> acl_tag option \<Rightarrow> u32 \<Rightarrow> bool \<Rightarrow> unit kresult" where
  "valid_loop [] state next_id needs_mask = (if state = None then Ok else Inl EINVAL)"
| "valid_loop (pa # rest) state next_id needs_mask =
     (if e_perm pa AND NOT (ACL_READ OR ACL_WRITE OR ACL_EXECUTE) \<noteq> 0 then Inl EINVAL
      else case e_tag pa of
        ACL_USER_OBJ \<Rightarrow>
          if state = Some ACL_USER_OBJ then valid_loop rest (Some ACL_USER) 0 needs_mask
          else Inl EINVAL
      | ACL_USER \<Rightarrow>
          if state \<noteq> Some ACL_USER then Inl EINVAL
          else if e_id pa = ACL_UNDEFINED_ID \<or> e_id pa < next_id then Inl EINVAL
          else valid_loop rest state (e_id pa + 1) True
      | ACL_GROUP_OBJ \<Rightarrow>
          if state = Some ACL_USER then valid_loop rest (Some ACL_GROUP) 0 needs_mask
          else Inl EINVAL
      | ACL_GROUP \<Rightarrow>
          if state \<noteq> Some ACL_GROUP then Inl EINVAL
          else if e_id pa = ACL_UNDEFINED_ID \<or> e_id pa < next_id then Inl EINVAL
          else valid_loop rest state (e_id pa + 1) True
      | ACL_MASK \<Rightarrow>
          if state \<noteq> Some ACL_GROUP then Inl EINVAL
          else valid_loop rest (Some ACL_OTHER) next_id needs_mask
      | ACL_OTHER \<Rightarrow>
          if state = Some ACL_OTHER \<or> state = Some ACL_GROUP \<and> \<not> needs_mask
          then valid_loop rest None next_id needs_mask
          else Inl EINVAL
      | Unknown_tag _ \<Rightarrow> Inl EINVAL)"

definition posix_acl_valid :: "posix_acl \<Rightarrow> unit kresult" where
  "posix_acl_valid acl = valid_loop (a_entries acl) (Some ACL_USER_OBJ) 0 False"

section \<open>File modes\<close>

fun equiv_mode_loop :: "posix_acl_entry list \<Rightarrow> u16 \<Rightarrow> bool \<Rightarrow> (bool \<times> u16) kresult" where
  "equiv_mode_loop [] mode not_equiv = Inr (not_equiv, mode)"
| "equiv_mode_loop (pa # rest) mode not_equiv =
     (case e_tag pa of
        ACL_USER_OBJ \<Rightarrow>
          equiv_mode_loop rest (mode OR push_bit 6 (e_perm pa AND S_IRWXO)) not_equiv
      | ACL_GROUP_OBJ \<Rightarrow>
          equiv_mode_loop rest (mode OR push_bit 3 (e_perm pa AND S_IRWXO)) not_equiv
      | ACL_OTHER \<Rightarrow> equiv_mode_loop rest (mode OR (e_perm pa AND S_IRWXO)) not_equiv
      | ACL_MASK \<Rightarrow>
          equiv_mode_loop rest
            ((mode AND NOT S_IRWXG) OR push_bit 3 (e_perm pa AND S_IRWXO)) True
      | ACL_USER \<Rightarrow> equiv_mode_loop rest mode True
      | ACL_GROUP \<Rightarrow> equiv_mode_loop rest mode True
      | Unknown_tag _ \<Rightarrow> Inl EINVAL)"

text \<open>The mode pointer may be NULL; the new value of what it points to is part of the result.\<close>

definition posix_acl_equiv_mode :: "posix_acl \<Rightarrow> u16 option \<Rightarrow> (bool \<times> u16 option) kresult" where
  "posix_acl_equiv_mode acl mode_p =
     (case equiv_mode_loop (a_entries acl) 0 False of
        Inl e \<Rightarrow> Inl e
      | Inr (not_equiv, mode) \<Rightarrow>
          Inr (not_equiv, map_option (\<lambda>m. (m AND NOT S_IRWXUGO) OR mode) mode_p))"

definition posix_acl_from_mode :: "bool \<Rightarrow> u16 \<Rightarrow> posix_acl kresult" where
  "posix_acl_from_mode have_memory mode =
     (case posix_acl_alloc have_memory
        [\<lparr>e_tag = ACL_USER_OBJ, e_perm = drop_bit 6 (mode AND S_IRWXU), e_id = ACL_UNDEFINED_ID\<rparr>,
         \<lparr>e_tag = ACL_GROUP_OBJ, e_perm = drop_bit 3 (mode AND S_IRWXG), e_id = ACL_UNDEFINED_ID\<rparr>,
         \<lparr>e_tag = ACL_OTHER, e_perm = mode AND S_IRWXO, e_id = ACL_UNDEFINED_ID\<rparr>] of
        None \<Rightarrow> Inl ENOMEM
      | Some acl \<Rightarrow> Inr acl)"

section \<open>The access check\<close>

record inode_owner =
  i_uid :: u32
  i_gid :: u32

abbreviation grants :: "u16 \<Rightarrow> u32 \<Rightarrow> bool" where
  "grants perm want \<equiv> ucast perm AND want = want"

definition check_perm :: "posix_acl_entry \<Rightarrow> u32 \<Rightarrow> unit kresult" where
  "check_perm pa want = (if grants (e_perm pa) want then Ok else Inl EACCES)"

text \<open>The label \<^verbatim>\<open>mask\<close>: look for a mask entry behind \<open>pa\<close>, then fall through to \<^verbatim>\<open>check_perm\<close>.\<close>

fun check_mask :: "posix_acl_entry \<Rightarrow> posix_acl_entry list \<Rightarrow> u32 \<Rightarrow> unit kresult" where
  "check_mask pa [] want = check_perm pa want"
| "check_mask pa (m # rest) want =
     (if e_tag m = ACL_MASK
      then if grants (e_perm pa AND e_perm m) want then Ok else Inl EACCES
      else check_mask pa rest want)"

fun permission_loop ::
  "cred \<Rightarrow> inode_owner \<Rightarrow> posix_acl_entry list \<Rightarrow> u32 \<Rightarrow> bool \<Rightarrow> unit kresult" where
  "permission_loop cred inode [] want found = Inl EIO"
| "permission_loop cred inode (pa # rest) want found =
     (case e_tag pa of
        ACL_USER_OBJ \<Rightarrow>
          if i_uid inode = fsuid cred then check_perm pa want
          else permission_loop cred inode rest want found
      | ACL_USER \<Rightarrow>
          if e_id pa = fsuid cred then check_mask pa rest want
          else permission_loop cred inode rest want found
      | ACL_GROUP_OBJ \<Rightarrow>
          if in_group_p cred (i_gid inode)
          then if grants (e_perm pa) want then check_mask pa rest want
               else permission_loop cred inode rest want True
          else permission_loop cred inode rest want found
      | ACL_GROUP \<Rightarrow>
          if in_group_p cred (e_id pa)
          then if grants (e_perm pa) want then check_mask pa rest want
               else permission_loop cred inode rest want True
          else permission_loop cred inode rest want found
      | ACL_MASK \<Rightarrow> permission_loop cred inode rest want found
      | ACL_OTHER \<Rightarrow> if found then Inl EACCES else check_perm pa want
      | Unknown_tag _ \<Rightarrow> Inl EIO)"

definition posix_acl_permission :: "cred \<Rightarrow> inode_owner \<Rightarrow> posix_acl \<Rightarrow> u32 \<Rightarrow> unit kresult" where
  "posix_acl_permission cred inode acl want = permission_loop cred inode (a_entries acl) want False"

section \<open>Creation and chmod\<close>

text \<open>
  The scan of \<^verbatim>\<open>posix_acl_create_masq\<close> returns the entries with the owner and other
  permissions changed, the mode so far, and the positions the pointers \<^verbatim>\<open>group_obj\<close> and
  \<^verbatim>\<open>mask_obj\<close> end up with.
\<close>

type_synonym masq_state = "posix_acl_entry list \<times> u16 \<times> bool \<times> nat option \<times> nat option"

fun create_masq_loop ::
  "posix_acl_entry list \<Rightarrow> nat \<Rightarrow> u16 \<Rightarrow> bool \<Rightarrow> nat option \<Rightarrow> nat option \<Rightarrow> masq_state kresult" where
  "create_masq_loop [] i mode not_equiv group_obj mask_obj =
     Inr ([], mode, not_equiv, group_obj, mask_obj)"
| "create_masq_loop (pa # rest) i mode not_equiv group_obj mask_obj =
     (let continue = (\<lambda>pa' mode' ne g m.
            case create_masq_loop rest (i + 1) mode' ne g m of
              Inl e \<Rightarrow> Inl e
            | Inr (entries, r) \<Rightarrow> Inr (pa' # entries, r))
      in case e_tag pa of
        ACL_USER_OBJ \<Rightarrow>
          (let perm = e_perm pa AND (drop_bit 6 mode OR NOT S_IRWXO)
           in continue (pa\<lparr>e_perm := perm\<rparr>) (mode AND (push_bit 6 perm OR NOT S_IRWXU))
                not_equiv group_obj mask_obj)
      | ACL_USER \<Rightarrow> continue pa mode True group_obj mask_obj
      | ACL_GROUP \<Rightarrow> continue pa mode True group_obj mask_obj
      | ACL_GROUP_OBJ \<Rightarrow> continue pa mode not_equiv (Some i) mask_obj
      | ACL_OTHER \<Rightarrow>
          (let perm = e_perm pa AND (mode OR NOT S_IRWXO)
           in continue (pa\<lparr>e_perm := perm\<rparr>) (mode AND (perm OR NOT S_IRWXO))
                not_equiv group_obj mask_obj)
      | ACL_MASK \<Rightarrow> continue pa mode True group_obj (Some i)
      | Unknown_tag _ \<Rightarrow> Inl EIO)"

definition posix_acl_create_masq :: "posix_acl \<Rightarrow> u16 \<Rightarrow> (posix_acl \<times> u16 \<times> bool) kresult" where
  "posix_acl_create_masq acl mode_p =
     (case create_masq_loop (a_entries acl) 0 mode_p False None None of
        Inl e \<Rightarrow> Inl e
      | Inr (entries, mode, not_equiv, group_obj, mask_obj) \<Rightarrow>
          (let obj = (case mask_obj of Some m \<Rightarrow> Some m | None \<Rightarrow> group_obj)
           in case obj of
                None \<Rightarrow> Inl EIO
              | Some k \<Rightarrow>
                  (let pa = entries ! k;
                       perm = e_perm pa AND (drop_bit 3 mode OR NOT S_IRWXO);
                       mode' = mode AND (push_bit 3 perm OR NOT S_IRWXG)
                   in Inr (acl\<lparr>a_entries := entries[k := pa\<lparr>e_perm := perm\<rparr>]\<rparr>,
                           (mode_p AND NOT S_IRWXUGO) OR mode', not_equiv))))"

fun chmod_masq_loop ::
  "posix_acl_entry list \<Rightarrow> nat \<Rightarrow> u16 \<Rightarrow> nat option \<Rightarrow> nat option \<Rightarrow>
     (posix_acl_entry list \<times> nat option \<times> nat option) kresult" where
  "chmod_masq_loop [] i mode group_obj mask_obj = Inr ([], group_obj, mask_obj)"
| "chmod_masq_loop (pa # rest) i mode group_obj mask_obj =
     (let continue = (\<lambda>pa' g m.
            case chmod_masq_loop rest (i + 1) mode g m of
              Inl e \<Rightarrow> Inl e
            | Inr (entries, r) \<Rightarrow> Inr (pa' # entries, r))
      in case e_tag pa of
        ACL_USER_OBJ \<Rightarrow> continue (pa\<lparr>e_perm := drop_bit 6 (mode AND S_IRWXU)\<rparr>) group_obj mask_obj
      | ACL_USER \<Rightarrow> continue pa group_obj mask_obj
      | ACL_GROUP \<Rightarrow> continue pa group_obj mask_obj
      | ACL_GROUP_OBJ \<Rightarrow> continue pa (Some i) mask_obj
      | ACL_MASK \<Rightarrow> continue pa group_obj (Some i)
      | ACL_OTHER \<Rightarrow> continue (pa\<lparr>e_perm := mode AND S_IRWXO\<rparr>) group_obj mask_obj
      | Unknown_tag _ \<Rightarrow> Inl EIO)"

definition posix_acl_chmod_masq :: "posix_acl \<Rightarrow> u16 \<Rightarrow> posix_acl kresult" where
  "posix_acl_chmod_masq acl mode =
     (case chmod_masq_loop (a_entries acl) 0 mode None None of
        Inl e \<Rightarrow> Inl e
      | Inr (entries, group_obj, mask_obj) \<Rightarrow>
          (let obj = (case mask_obj of Some m \<Rightarrow> Some m | None \<Rightarrow> group_obj)
           in case obj of
                None \<Rightarrow> Inl EIO
              | Some k \<Rightarrow>
                  Inr (acl\<lparr>a_entries := entries[k := (entries ! k)
                             \<lparr>e_perm := drop_bit 3 (mode AND S_IRWXG)\<rparr>]\<rparr>)))"

text \<open>
  Both callers work on a private copy and drop the caller's reference: the result is the
  return code, the list \<^verbatim>\<open>*acl\<close> now points to, what is left of the old list, and the mode.
\<close>

definition posix_acl_create ::
  "bool \<Rightarrow> posix_acl option \<Rightarrow> u16 \<Rightarrow> bool kresult \<times> posix_acl option \<times> posix_acl option \<times> u16" where
  "posix_acl_create have_memory acl mode_p =
     (let clone = posix_acl_clone have_memory acl
      in case clone of
           None \<Rightarrow> (Inl ENOMEM, None, posix_acl_release acl, mode_p)
         | Some c \<Rightarrow>
             (case posix_acl_create_masq c mode_p of
                Inl e \<Rightarrow> (Inl e, None, posix_acl_release acl, mode_p)
              | Inr (c', mode', not_equiv) \<Rightarrow>
                  (Inr not_equiv, Some c', posix_acl_release acl, mode')))"

definition posix_acl_chmod ::
  "bool \<Rightarrow> posix_acl option \<Rightarrow> u16 \<Rightarrow> unit kresult \<times> posix_acl option \<times> posix_acl option" where
  "posix_acl_chmod have_memory acl mode =
     (let clone = posix_acl_clone have_memory acl
      in case clone of
           None \<Rightarrow> (Inl ENOMEM, None, posix_acl_release acl)
         | Some c \<Rightarrow>
             (case posix_acl_chmod_masq c mode of
                Inl e \<Rightarrow> (Inl e, None, posix_acl_release acl)
              | Inr c' \<Rightarrow> (Ok, Some c', posix_acl_release acl)))"

section \<open>What a valid list looks like\<close>

text \<open>
  The shape that POSIX 1003.1e asks for: one owner entry, named users with distinct ids in
  ascending order, one owning group entry, named groups likewise, a mask that is required as
  soon as there is a named entry, and one entry for everybody else; no permission bits but
  read, write and execute.
\<close>

definition rwx_only :: "posix_acl_entry \<Rightarrow> bool" where
  "rwx_only e \<longleftrightarrow> e_perm e AND NOT 7 = 0"

definition named_ok :: "acl_tag \<Rightarrow> posix_acl_entry list \<Rightarrow> bool" where
  "named_ok tag es \<longleftrightarrow>
     (\<forall>e \<in> set es. e_tag e = tag \<and> rwx_only e \<and> e_id e \<noteq> ACL_UNDEFINED_ID) \<and>
     sorted_wrt (<) (map e_id es)"

definition acl_shape ::
  "posix_acl_entry list \<Rightarrow> posix_acl_entry \<Rightarrow> posix_acl_entry list \<Rightarrow> posix_acl_entry \<Rightarrow>
   posix_acl_entry list \<Rightarrow> posix_acl_entry list \<Rightarrow> posix_acl_entry \<Rightarrow> bool" where
  "acl_shape es uo us go gs ms ot \<longleftrightarrow>
     es = uo # us @ go # gs @ ms @ [ot] \<and>
     e_tag uo = ACL_USER_OBJ \<and> rwx_only uo \<and> named_ok ACL_USER us \<and>
     e_tag go = ACL_GROUP_OBJ \<and> rwx_only go \<and> named_ok ACL_GROUP gs \<and>
     (ms = [] \<and> us = [] \<and> gs = [] \<or> (\<exists>m. ms = [m] \<and> e_tag m = ACL_MASK \<and> rwx_only m)) \<and>
     e_tag ot = ACL_OTHER \<and> rwx_only ot"

definition acl_wellformed :: "posix_acl_entry list \<Rightarrow> bool" where
  "acl_wellformed es \<longleftrightarrow> (\<exists>uo us go gs ms ot. acl_shape es uo us go gs ms ot)"

subsection \<open>The scan accepts exactly these\<close>

fun ids_from :: "u32 \<Rightarrow> posix_acl_entry list \<Rightarrow> bool" where
  "ids_from n [] \<longleftrightarrow> True"
| "ids_from n (e # es) \<longleftrightarrow> e_id e \<noteq> ACL_UNDEFINED_ID \<and> n \<le> e_id e \<and> ids_from (e_id e + 1) es"

lemma ids_from_iff:
  "ids_from n es \<longleftrightarrow> sorted_wrt (<) (map e_id es) \<and> (\<forall>e \<in> set es. n \<le> e_id e \<and> e_id e \<noteq> ACL_UNDEFINED_ID)"
proof (induction es arbitrary: n)
  case (Cons e es)
  have "e_id e + 1 \<le> x \<longleftrightarrow> e_id e < x" if "e_id e \<noteq> - 1" for x
    using that by (rule word_inc_le)
  with Cons show ?case by auto
qed simp

lemma rwx_only_code: "e_perm e AND - 8 = 0 \<longleftrightarrow> rwx_only e"
  by (simp add: rwx_only_def)

lemma valid_loop_end: "valid_loop es None i nm = Ok \<longleftrightarrow> es = []"
  by (cases es) (auto split: acl_tag.splits)

lemma valid_loop_other:
  "valid_loop es (Some ACL_OTHER) i nm = Ok \<longleftrightarrow> (\<exists>ot. es = [ot] \<and> e_tag ot = ACL_OTHER \<and> rwx_only ot)"
  by (cases es) (auto simp: valid_loop_end rwx_only_code split: acl_tag.splits)

fun tail_ok :: "bool \<Rightarrow> posix_acl_entry list \<Rightarrow> bool" where
  "tail_ok nm [ot] \<longleftrightarrow> e_tag ot = ACL_OTHER \<and> rwx_only ot \<and> \<not> nm"
| "tail_ok nm [m, ot] \<longleftrightarrow> e_tag m = ACL_MASK \<and> rwx_only m \<and> e_tag ot = ACL_OTHER \<and> rwx_only ot"
| "tail_ok nm _ \<longleftrightarrow> False"

abbreviation is_tag :: "acl_tag \<Rightarrow> posix_acl_entry \<Rightarrow> bool" where
  "is_tag tag e \<equiv> e_tag e = tag"

lemma valid_loop_group:
  "valid_loop es (Some ACL_GROUP) i nm = Ok \<longleftrightarrow>
     (\<forall>e \<in> set (takeWhile (is_tag ACL_GROUP) es). rwx_only e) \<and>
     ids_from i (takeWhile (is_tag ACL_GROUP) es) \<and>
     tail_ok (nm \<or> takeWhile (is_tag ACL_GROUP) es \<noteq> []) (dropWhile (is_tag ACL_GROUP) es)"
proof (induction es arbitrary: i nm)
  case (Cons e es)
  show ?case
  proof (cases "e_tag e = ACL_GROUP")
    case True
    with Cons [of "e_id e + 1" True] show ?thesis
      by (auto simp: rwx_only_code not_less)
  next
    case False
    then show ?thesis
      by (cases es rule: list.exhaust [case_names Nil Cons]; cases "tl es")
        (auto simp: rwx_only_code valid_loop_end valid_loop_other split: acl_tag.splits)
  qed
qed simp

lemma valid_loop_user:
  "valid_loop es (Some ACL_USER) i nm = Ok \<longleftrightarrow>
     (\<forall>e \<in> set (takeWhile (is_tag ACL_USER) es). rwx_only e) \<and>
     ids_from i (takeWhile (is_tag ACL_USER) es) \<and>
     (case dropWhile (is_tag ACL_USER) es of
        [] \<Rightarrow> False
      | go # r \<Rightarrow> e_tag go = ACL_GROUP_OBJ \<and> rwx_only go \<and>
          valid_loop r (Some ACL_GROUP) 0 (nm \<or> takeWhile (is_tag ACL_USER) es \<noteq> []) = Ok)"
proof (induction es arbitrary: i nm)
  case (Cons e es)
  show ?case
  proof (cases "e_tag e = ACL_USER")
    case True
    with Cons [of "e_id e + 1" True] show ?thesis
      by (cases "dropWhile (is_tag ACL_USER) es")
        (auto simp: rwx_only_code not_less simp del: dropWhile_eq_Nil_conv)
  next
    case False
    then show ?thesis
      by (auto simp: rwx_only_code split: acl_tag.splits)
  qed
qed simp

lemma takeWhile_tag:
  "named_ok tag es \<Longrightarrow> (rest \<noteq> [] \<longrightarrow> e_tag (hd rest) \<noteq> tag) \<Longrightarrow>
   takeWhile (is_tag tag) (es @ rest) = es \<and> dropWhile (is_tag tag) (es @ rest) = rest"
  by (cases rest) (auto simp: named_ok_def)

lemma named_ok_takeWhile:
  "(\<forall>e \<in> set (takeWhile (is_tag tag) es). rwx_only e) \<and> ids_from 0 (takeWhile (is_tag tag) es) \<longleftrightarrow>
   named_ok tag (takeWhile (is_tag tag) es)"
  by (auto simp: named_ok_def ids_from_iff dest: set_takeWhileD)

lemma tail_ok_iff:
  "tail_ok nm r \<longleftrightarrow> (\<exists>ms ot. r = ms @ [ot] \<and> (ms = [] \<and> \<not> nm \<or> (\<exists>m. ms = [m] \<and> e_tag m = ACL_MASK \<and> rwx_only m))
     \<and> e_tag ot = ACL_OTHER \<and> rwx_only ot)"
  by (cases "(nm, r)" rule: tail_ok.cases) (auto simp: append_eq_Cons_conv Cons_eq_append_conv)

lemma valid_imp_wellformed:
  assumes "posix_acl_valid acl = Ok"
  shows "acl_wellformed (a_entries acl)"
proof -
  obtain uo es where es: "a_entries acl = uo # es" and uo: "e_tag uo = ACL_USER_OBJ" "rwx_only uo"
    and v: "valid_loop es (Some ACL_USER) 0 False = Ok"
    using assms by (cases "a_entries acl")
      (auto simp: posix_acl_valid_def rwx_only_code split: if_splits acl_tag.splits)
  let ?us = "takeWhile (is_tag ACL_USER) es"
  obtain go r where r: "dropWhile (is_tag ACL_USER) es = go # r" and go: "e_tag go = ACL_GROUP_OBJ" "rwx_only go"
    and us: "named_ok ACL_USER ?us" and v2: "valid_loop r (Some ACL_GROUP) 0 (?us \<noteq> []) = Ok"
    using v by (auto simp: valid_loop_user named_ok_takeWhile [symmetric] split: list.splits)
  let ?gs = "takeWhile (is_tag ACL_GROUP) r"
  obtain ms ot where ms: "dropWhile (is_tag ACL_GROUP) r = ms @ [ot]"
    and tl: "ms = [] \<and> \<not> (?us \<noteq> [] \<or> ?gs \<noteq> []) \<or> (\<exists>m. ms = [m] \<and> e_tag m = ACL_MASK \<and> rwx_only m)"
      "e_tag ot = ACL_OTHER" "rwx_only ot"
    and gs: "named_ok ACL_GROUP ?gs"
    using v2 by (auto simp: valid_loop_group named_ok_takeWhile [symmetric] tail_ok_iff)
  have "es = ?us @ go # ?gs @ ms @ [ot]"
    using r ms by (metis takeWhile_dropWhile_id)
  then have "acl_shape (a_entries acl) uo ?us go ?gs ms ot"
    using es uo us go gs tl by (auto simp: acl_shape_def)
  then show ?thesis unfolding acl_wellformed_def by blast
qed

lemma wellformed_imp_valid:
  assumes "acl_wellformed (a_entries acl)"
  shows "posix_acl_valid acl = Ok"
proof -
  obtain uo us go gs ms ot where sh: "acl_shape (a_entries acl) uo us go gs ms ot"
    using assms by (auto simp: acl_wellformed_def)
  let ?r = "gs @ ms @ [ot]"
  have us: "takeWhile (is_tag ACL_USER) (us @ go # ?r) = us \<and> dropWhile (is_tag ACL_USER) (us @ go # ?r) = go # ?r"
    using sh by (intro takeWhile_tag) (auto simp: acl_shape_def)
  have gs: "takeWhile (is_tag ACL_GROUP) ?r = gs \<and> dropWhile (is_tag ACL_GROUP) ?r = ms @ [ot]"
    using sh by (intro takeWhile_tag) (auto simp: acl_shape_def)
  have "tail_ok (us \<noteq> [] \<or> gs \<noteq> []) (ms @ [ot])"
    using sh unfolding tail_ok_iff acl_shape_def by blast
  moreover have "named_ok ACL_USER us" "named_ok ACL_GROUP gs"
    using sh by (simp_all add: acl_shape_def)
  ultimately have "valid_loop ?r (Some ACL_GROUP) 0 (us \<noteq> []) = Ok"
    using gs named_ok_takeWhile [of ACL_GROUP ?r] by (simp add: valid_loop_group)
  then have "valid_loop (us @ go # ?r) (Some ACL_USER) 0 False = Ok"
    using us named_ok_takeWhile [of ACL_USER "us @ go # ?r"] sh
    by (simp add: valid_loop_user acl_shape_def)
  then show ?thesis
    using sh by (simp add: posix_acl_valid_def acl_shape_def rwx_only_code)
qed

section \<open>The access check against its specification\<close>

text \<open>
  The access decision of POSIX 1003.1e, written over the entries by their tags: \<open>member\<close>
  tells which groups the process is in.  Without a mask entry nothing is masked out.
\<close>

definition mask_of :: "posix_acl_entry list \<Rightarrow> u16" where
  "mask_of es = (case filter (is_tag ACL_MASK) es of [] \<Rightarrow> - 1 | m # _ \<Rightarrow> e_perm m)"

definition group_matches :: "(u32 \<Rightarrow> bool) \<Rightarrow> inode_owner \<Rightarrow> posix_acl_entry \<Rightarrow> bool" where
  "group_matches member inode e \<longleftrightarrow>
     e_tag e = ACL_GROUP_OBJ \<and> member (i_gid inode) \<or> e_tag e = ACL_GROUP \<and> member (e_id e)"

definition perm_of :: "acl_tag \<Rightarrow> posix_acl_entry list \<Rightarrow> u16" where
  "perm_of tag es = e_perm (hd (filter (is_tag tag) es))"

definition acl_grants ::
  "u32 \<Rightarrow> (u32 \<Rightarrow> bool) \<Rightarrow> inode_owner \<Rightarrow> posix_acl_entry list \<Rightarrow> u32 \<Rightarrow> bool" where
  "acl_grants who member inode es want \<longleftrightarrow>
     (if i_uid inode = who then grants (perm_of ACL_USER_OBJ es) want
      else case filter (\<lambda>e. e_tag e = ACL_USER \<and> e_id e = who) es of
        u # _ \<Rightarrow> grants (e_perm u AND mask_of es) want
      | [] \<Rightarrow>
          (let groups = filter (group_matches member inode) es
           in if groups \<noteq> [] then \<exists>g \<in> set groups. grants (e_perm g AND mask_of es) want
              else grants (perm_of ACL_OTHER es) want))"

abbreviation verdict :: "bool \<Rightarrow> unit kresult" where
  "verdict b \<equiv> (if b then Ok else Inl EACCES)"

lemma and_eq_iff_bits: "(a :: u32) AND b = b \<longleftrightarrow> (\<forall>n. bit b n \<longrightarrow> bit a n)"
proof -
  have "bit b n \<Longrightarrow> n < 32" for n
    by (drule bit_imp_le_length) simp
  then show ?thesis
    by (auto simp: bit_eq_iff bit_and_iff)
qed

lemma grants_and: "grants (a AND b) want \<longleftrightarrow> grants a want \<and> grants b want"
  by (auto simp: and_eq_iff_bits bit_simps)

lemma verdict_grants_and:
  "grants a want \<Longrightarrow> verdict (grants (a AND b) want) = verdict (grants b want)"
  by (simp only: grants_and simp_thms)

lemma check_mask_eq: "check_mask pa es want = verdict (grants (e_perm pa AND mask_of es) want)"
  by (induction es) (auto simp: mask_of_def check_perm_def)

lemma mask_of_append: "\<forall>e \<in> set xs. e_tag e \<noteq> ACL_MASK \<Longrightarrow> mask_of (xs @ ys) = mask_of ys"
  by (simp add: mask_of_def)

text \<open>The named users.\<close>

lemma permission_users:
  assumes "named_ok ACL_USER us"
  shows "permission_loop cred inode (us @ rest) want found =
    (case filter (\<lambda>e. e_id e = fsuid cred) us of
       u # _ \<Rightarrow> verdict (grants (e_perm u AND mask_of rest) want)
     | [] \<Rightarrow> permission_loop cred inode rest want found)"
  using assms
proof (induction us)
  case (Cons u us)
  have "named_ok ACL_USER us"
    using Cons.prems by (simp add: named_ok_def)
  moreover have "mask_of (us @ rest) = mask_of rest"
    using Cons.prems by (intro mask_of_append) (auto simp: named_ok_def)
  ultimately show ?case
    using Cons by (simp add: check_mask_eq named_ok_def)
qed simp

text \<open>The groups: the owning group entry first, then the named ones.\<close>

lemma permission_groups:
  assumes "\<forall>g \<in> set gs. e_tag g = ACL_GROUP_OBJ \<or> e_tag g = ACL_GROUP"
  shows "permission_loop cred inode (gs @ rest) want found =
    (if \<exists>g \<in> set gs. group_matches (in_group_p cred) inode g \<and> grants (e_perm g) want
     then verdict (grants (mask_of rest) want)
     else permission_loop cred inode rest want
            (found \<or> (\<exists>g \<in> set gs. group_matches (in_group_p cred) inode g)))"
  using assms
proof (induction gs arbitrary: found)
  case (Cons g gs)
  let ?match = "group_matches (in_group_p cred) inode"
  have m: "mask_of (gs @ rest) = mask_of rest"
    using Cons.prems by (intro mask_of_append) auto
  have step: "permission_loop cred inode ((g # gs) @ rest) want found =
    (if ?match g then if grants (e_perm g) want then check_mask g (gs @ rest) want
       else permission_loop cred inode (gs @ rest) want True
     else permission_loop cred inode (gs @ rest) want found)"
    using Cons.prems by (auto simp: group_matches_def)
  show ?case
  proof (cases "?match g \<and> grants (e_perm g) want")
    case True
    then show ?thesis
      by (simp add: step check_mask_eq m verdict_grants_and del: append_Cons)
  next
    case False
    then show ?thesis
      using Cons.IH [of True] Cons.IH [of found] Cons.prems
      by (cases "?match g") (auto simp add: step simp del: append_Cons)
  qed
qed simp

lemma permission_tail:
  assumes "ms = [] \<or> (\<exists>m. ms = [m] \<and> e_tag m = ACL_MASK)" and "e_tag ot = ACL_OTHER"
  shows "permission_loop cred inode (ms @ [ot]) want found =
    (if found then Inl EACCES else verdict (grants (e_perm ot) want))"
  using assms by (auto simp: check_perm_def)

lemma in_shape:
  assumes "acl_shape es uo us go gs ms ot"
  shows "perm_of ACL_USER_OBJ es = e_perm uo" and "perm_of ACL_OTHER es = e_perm ot"
    and "filter (\<lambda>e. e_tag e = ACL_USER \<and> e_id e = w) es = filter (\<lambda>e. e_id e = w) us"
    and "filter (group_matches mem inode) es = filter (group_matches mem inode) (go # gs)"
    and "mask_of es = mask_of (ms @ [ot])"
proof -
  have none: "filter P xs = []" if "named_ok t xs" and "\<And>e. P e \<Longrightarrow> e_tag e \<noteq> t" for P t xs
    using that by (auto simp: named_ok_def filter_empty_conv)
  have us: "named_ok ACL_USER us" and gs: "named_ok ACL_GROUP gs"
    using assms by (simp_all add: acl_shape_def)
  have "filter (is_tag ACL_OTHER) us = []" "filter (is_tag ACL_OTHER) gs = []"
    by (rule none [OF us] none [OF gs]; simp)+
  then show "perm_of ACL_USER_OBJ es = e_perm uo" and "perm_of ACL_OTHER es = e_perm ot"
    using assms by (auto simp: perm_of_def acl_shape_def)
  have "filter (\<lambda>e. e_tag e = ACL_USER \<and> e_id e = w) us = filter (\<lambda>e. e_id e = w) us"
    using us by (intro filter_cong) (auto simp: named_ok_def)
  moreover have "filter (\<lambda>e. e_tag e = ACL_USER \<and> e_id e = w) gs = []"
    by (rule none [OF gs]) simp
  ultimately show "filter (\<lambda>e. e_tag e = ACL_USER \<and> e_id e = w) es = filter (\<lambda>e. e_id e = w) us"
    using assms by (auto simp: acl_shape_def)
  have "filter (group_matches mem inode) us = []"
    by (rule none [OF us]) (auto simp: group_matches_def)
  then show "filter (group_matches mem inode) es = filter (group_matches mem inode) (go # gs)"
    using assms by (auto simp: acl_shape_def group_matches_def)
  have "filter (is_tag ACL_MASK) us = []" "filter (is_tag ACL_MASK) gs = []"
    by (rule none [OF us] none [OF gs]; simp)+
  then show "mask_of es = mask_of (ms @ [ot])"
    using assms by (auto simp: acl_shape_def mask_of_def)
qed

lemma permission_matches_spec:
  assumes "acl_wellformed (a_entries acl)"
  shows "posix_acl_permission cred inode acl want =
    verdict (acl_grants (fsuid cred) (in_group_p cred) inode (a_entries acl) want)"
proof -
  obtain uo us go gs ms ot where sh: "acl_shape (a_entries acl) uo us go gs ms ot"
    using assms by (auto simp: acl_wellformed_def)
  let ?m = "group_matches (in_group_p cred) inode"
  have es: "a_entries acl = uo # us @ ((go # gs) @ (ms @ [ot]))" and us: "named_ok ACL_USER us"
    and tags: "e_tag uo = ACL_USER_OBJ" "\<forall>g \<in> set (go # gs). e_tag g = ACL_GROUP_OBJ \<or> e_tag g = ACL_GROUP"
    and tl: "ms = [] \<or> (\<exists>m. ms = [m] \<and> e_tag m = ACL_MASK)" "e_tag ot = ACL_OTHER"
    using sh by (auto simp: acl_shape_def named_ok_def)
  have mu: "mask_of ((go # gs) @ (ms @ [ot])) = mask_of (ms @ [ot])"
    using tags by (intro mask_of_append) auto
  have grp: "permission_loop cred inode ((go # gs) @ (ms @ [ot])) want False =
    verdict (if filter ?m (go # gs) \<noteq> []
             then \<exists>g \<in> set (filter ?m (go # gs)). grants (e_perm g AND mask_of (ms @ [ot])) want
             else grants (e_perm ot) want)"
    unfolding permission_groups [OF tags(2)] permission_tail [OF tl] grants_and filter_empty_conv
    by auto
  show ?thesis
  proof (cases "i_uid inode = fsuid cred")
    case True
    then show ?thesis
      using tags by (simp add: posix_acl_permission_def es acl_grants_def perm_of_def check_perm_def)
  next
    case False
    then have "posix_acl_permission cred inode acl want =
      permission_loop cred inode (us @ ((go # gs) @ (ms @ [ot]))) want False"
      using tags by (simp add: posix_acl_permission_def es)
    then show ?thesis
      using False unfolding permission_users [OF us] grp mu acl_grants_def in_shape [OF sh] Let_def
      by (simp split: list.split)
  qed
qed

text \<open>
  C6: \<^verbatim>\<open>posix_acl_valid\<close> accepts exactly the well-formed lists: one entry per obligatory tag in the
  prescribed order, named users and groups with strictly ascending ids, a mask whenever there is
  a named entry, and no permission bits other than read, write and execute.
\<close>

theorem acl_valid_iff_wellformed: "posix_acl_valid acl = Ok \<longleftrightarrow> acl_wellformed (a_entries acl)"
  by (blast intro: valid_imp_wellformed wellformed_imp_valid)

text \<open>
  C7: on a valid list \<^verbatim>\<open>posix_acl_permission\<close> decides as POSIX 1003.1e prescribes, for a task whose
  supplementary groups were installed by \<^verbatim>\<open>set_groups\<close> in any order: the owner entry, else the
  named user's entry under the mask, else some matching group entry under the mask, else the
  entry for others.  In particular it never returns \<open>EIO\<close>.
\<close>

theorem acl_permission_exact:
  assumes "posix_acl_valid acl = Ok"
  shows "posix_acl_permission (set_groups c gids) inode acl want =
    (if acl_grants (fsuid c) (\<lambda>g. g = fsgid c \<or> g \<in> set gids) inode (a_entries acl) want
     then Ok else Inl EACCES)"
proof -
  have "in_group_p (set_groups c gids) = (\<lambda>g. g = fsgid c \<or> g \<in> set gids)"
    using fs.member_after_set by blast
  moreover have "fsuid (set_groups c gids) = fsuid c"
    by (simp add: set_groups_def)
  ultimately show ?thesis
    using permission_matches_spec [OF valid_imp_wellformed [OF assms], of "set_groups c gids"] by simp
qed

text \<open>A list with a named user and a mask, used for the witnesses.\<close>

definition demo_acl :: posix_acl where
  "demo_acl = \<lparr>a_refcount = 1, a_entries =
     [\<lparr>e_tag = ACL_USER_OBJ, e_perm = 6, e_id = ACL_UNDEFINED_ID\<rparr>,
      \<lparr>e_tag = ACL_USER, e_perm = 7, e_id = 1000\<rparr>,
      \<lparr>e_tag = ACL_GROUP_OBJ, e_perm = 4, e_id = ACL_UNDEFINED_ID\<rparr>,
      \<lparr>e_tag = ACL_GROUP, e_perm = 6, e_id = 50\<rparr>,
      \<lparr>e_tag = ACL_MASK, e_perm = 5, e_id = ACL_UNDEFINED_ID\<rparr>,
      \<lparr>e_tag = ACL_OTHER, e_perm = 0, e_id = ACL_UNDEFINED_ID\<rparr>]\<rparr>"

definition demo_cred :: cred where
  "demo_cred = \<lparr>uid = 7, gid = 7, suid = 7, sgid = 7, euid = 7, egid = 7, fsuid = 7, fsgid = 7,
     securebits = 0, cap_inheritable = CAP_EMPTY_SET, cap_permitted = CAP_EMPTY_SET,
     cap_effective = CAP_EMPTY_SET, cap_bset = CAP_FULL_SET, user = User 0 Init_user_ns,
     cred_groups = None\<rparr>"

lemma demo_acl_valid: "posix_acl_valid demo_acl = Ok"
  by (simp add: posix_acl_valid_def demo_acl_def)

text \<open>A member of group 50 may read (6 under the mask 5) but not write.\<close>

theorem acl_permission_exact_witness:
  "posix_acl_permission (set_groups demo_cred [70, 50]) \<lparr>i_uid = 1, i_gid = 2\<rparr> demo_acl 4 = Ok \<and>
   posix_acl_permission (set_groups demo_cred [70, 50]) \<lparr>i_uid = 1, i_gid = 2\<rparr> demo_acl 2 = Inl EACCES"
  unfolding acl_permission_exact [OF demo_acl_valid]
  by (simp add: acl_grants_def demo_acl_def demo_cred_def group_matches_def mask_of_def Let_def)

section \<open>Modes, creation and chmod\<close>

text \<open>The permission constants by their bits.\<close>

lemma rwx_bits:
  "bit (7 :: u16) n \<longleftrightarrow> n < 3" "bit (56 :: u16) n \<longleftrightarrow> 3 \<le> n \<and> n < 6"
  "bit (448 :: u16) n \<longleftrightarrow> 6 \<le> n \<and> n < 9" "bit (511 :: u16) n \<longleftrightarrow> n < 9"
  "bit (- 8 :: u16) n \<longleftrightarrow> 3 \<le> n \<and> n < 16" "bit (- 57 :: u16) n \<longleftrightarrow> n < 16 \<and> \<not> (3 \<le> n \<and> n < 6)"
  "bit (- 449 :: u16) n \<longleftrightarrow> n < 16 \<and> \<not> (6 \<le> n \<and> n < 9)" "bit (- 512 :: u16) n \<longleftrightarrow> 9 \<le> n \<and> n < 16"
proof -
  have eqs: "7 = (mask 3 :: u16)" "56 = (push_bit 3 (mask 3) :: u16)" "448 = (push_bit 6 (mask 3) :: u16)"
    "511 = (mask 9 :: u16)" "- 8 = (NOT (mask 3) :: u16)" "- 57 = (NOT (push_bit 3 (mask 3)) :: u16)"
    "- 449 = (NOT (push_bit 6 (mask 3)) :: u16)" "- 512 = (NOT (mask 9) :: u16)"
    by (simp_all add: mask_eq_exp_minus_1 push_bit_eq_mult)
  show "bit (7 :: u16) n \<longleftrightarrow> n < 3" "bit (56 :: u16) n \<longleftrightarrow> 3 \<le> n \<and> n < 6"
    "bit (448 :: u16) n \<longleftrightarrow> 6 \<le> n \<and> n < 9" "bit (511 :: u16) n \<longleftrightarrow> n < 9"
    "bit (- 8 :: u16) n \<longleftrightarrow> 3 \<le> n \<and> n < 16" "bit (- 57 :: u16) n \<longleftrightarrow> n < 16 \<and> \<not> (3 \<le> n \<and> n < 6)"
    "bit (- 449 :: u16) n \<longleftrightarrow> n < 16 \<and> \<not> (6 \<le> n \<and> n < 9)" "bit (- 512 :: u16) n \<longleftrightarrow> 9 \<le> n \<and> n < 16"
    unfolding eqs by (auto simp: bit_simps)
qed

declare bit_numeral_word_iff [simp del] bit_neg_numeral_word_iff [simp del]

lemma rwx_onlyI: "(\<And>n. n < 16 \<Longrightarrow> bit (e_perm e) n \<Longrightarrow> n < 3) \<Longrightarrow> rwx_only e"
  unfolding rwx_only_def by (rule bit_word_eqI) (auto simp: bit_simps rwx_bits)

lemma rwx_onlyD: "rwx_only e \<Longrightarrow> bit (e_perm e) n \<Longrightarrow> n < 3"
proof -
  assume "rwx_only e" and b: "bit (e_perm e) n"
  then have "bit (e_perm e AND NOT 7) n \<longleftrightarrow> False" by (simp add: rwx_only_def)
  with b bit_imp_le_length [OF b] show ?thesis by (auto simp: bit_simps rwx_bits)
qed

text \<open>The mode a list stands for: with a mask, the mask takes the place of the group bits.\<close>

definition mode_of :: "posix_acl_entry \<Rightarrow> posix_acl_entry \<Rightarrow> posix_acl_entry \<Rightarrow> u16" where
  "mode_of uo g ot = push_bit 6 (e_perm uo AND 7) OR push_bit 3 (e_perm g AND 7) OR (e_perm ot AND 7)"

lemma equiv_mode_named:
  "\<forall>e \<in> set es. e_tag e = ACL_USER \<or> e_tag e = ACL_GROUP \<Longrightarrow>
   equiv_mode_loop (es @ rest) mode ne = equiv_mode_loop rest mode (ne \<or> es \<noteq> [])"
proof (induction es arbitrary: ne)
  case (Cons e es)
  then show ?case by (cases "e_tag e") auto
qed simp

lemma named_ok_tags: "named_ok ACL_USER us \<Longrightarrow> \<forall>e \<in> set us. e_tag e = ACL_USER \<or> e_tag e = ACL_GROUP"
  "named_ok ACL_GROUP gs \<Longrightarrow> \<forall>e \<in> set gs. e_tag e = ACL_USER \<or> e_tag e = ACL_GROUP"
  by (simp_all add: named_ok_def)

lemma equiv_mode_shape:
  assumes "acl_shape (a_entries acl) uo us go gs ms ot"
  shows "posix_acl_equiv_mode acl (Some m) =
    Inr (ms \<noteq> [], Some ((m AND NOT 511) OR mode_of uo (hd (ms @ [go])) ot))"
proof -
  have mask: "(push_bit 6 a AND 448 OR push_bit 3 b AND 56) AND - 57 = push_bit 6 a AND (448 :: u16)" for a b
    by (rule bit_word_eqI) (auto simp: bit_simps rwx_bits)
  show ?thesis
    using assms by (auto simp: acl_shape_def posix_acl_equiv_mode_def equiv_mode_named named_ok_tags
        mode_of_def mask or.assoc)
qed

lemma wellformedI: "acl_shape es uo us go gs ms ot \<Longrightarrow> acl_wellformed es"
  unfolding acl_wellformed_def by blast

text \<open>The scan of chmod leaves named entries alone.\<close>

lemma chmod_named:
  "\<forall>e \<in> set es. e_tag e = ACL_USER \<or> e_tag e = ACL_GROUP \<Longrightarrow>
   chmod_masq_loop (es @ rest) i mode g m =
     (case chmod_masq_loop rest (i + length es) mode g m of
        Inl e \<Rightarrow> Inl e | Inr (entries, r) \<Rightarrow> Inr (es @ entries, r))"
proof (induction es arbitrary: i)
  case (Cons e es)
  then have "chmod_masq_loop ((e # es) @ rest) i mode g m =
    (case chmod_masq_loop (es @ rest) (i + 1) mode g m of
       Inl e \<Rightarrow> Inl e | Inr (entries, r) \<Rightarrow> Inr (e # entries, r))"
    by auto
  then show ?case
    using Cons by (simp split: sum.split prod.split)
qed (simp split: sum.split prod.split)

definition chmod_entries ::
  "u16 \<Rightarrow> posix_acl_entry \<Rightarrow> posix_acl_entry list \<Rightarrow> posix_acl_entry \<Rightarrow>
   posix_acl_entry list \<Rightarrow> posix_acl_entry list \<Rightarrow> posix_acl_entry \<Rightarrow> posix_acl_entry list" where
  "chmod_entries mode uo us go gs ms ot =
     (let cls = (\<lambda>m. m\<lparr>e_perm := drop_bit 3 (mode AND 56)\<rparr>)
      in uo\<lparr>e_perm := drop_bit 6 (mode AND 448)\<rparr> # us @ (if ms = [] then cls go else go) # gs @
         map cls ms @ [ot\<lparr>e_perm := mode AND 7\<rparr>])"

lemma chmod_shape:
  assumes "acl_shape (a_entries acl) uo us go gs ms ot"
  shows "posix_acl_chmod_masq acl mode = Inr (acl\<lparr>a_entries := chmod_entries mode uo us go gs ms ot\<rparr>)"
  using assms by (auto simp: acl_shape_def posix_acl_chmod_masq_def chmod_named named_ok_tags
      chmod_entries_def list_update_append nth_append)

lemma chmod_entries_shape:
  assumes "acl_shape es uo us go gs ms ot"
  shows "\<exists>uo' go' ms' ot'. acl_shape (chmod_entries mode uo us go gs ms ot) uo' us go' gs ms' ot' \<and>
     mode_of uo' (hd (ms' @ [go'])) ot' = mode AND 511 \<and> (ms' = [] \<longleftrightarrow> ms = [])"
proof -
  let ?cls = "\<lambda>m. m\<lparr>e_perm := drop_bit 3 (mode AND 56)\<rparr>"
  let ?uo = "uo\<lparr>e_perm := drop_bit 6 (mode AND 448)\<rparr>" and ?ot = "ot\<lparr>e_perm := mode AND 7\<rparr>"
    and ?go = "if ms = [] then ?cls go else go"
  have rwx: "rwx_only (e\<lparr>e_perm := drop_bit 3 (mode AND 56)\<rparr>)"
    "rwx_only (e\<lparr>e_perm := drop_bit 6 (mode AND 448)\<rparr>)" "rwx_only (e\<lparr>e_perm := mode AND 7\<rparr>)" for e
    by (rule rwx_onlyI; simp add: bit_simps rwx_bits)+
  have "acl_shape (chmod_entries mode uo us go gs ms ot) ?uo us ?go gs (map ?cls ms) ?ot"
    using assms rwx by (auto simp: acl_shape_def chmod_entries_def)
  moreover have "mode_of ?uo (?cls g) ?ot = mode AND 511" for g
    unfolding mode_of_def
  proof (rule bit_word_eqI, goal_cases)
    case (1 n)
    then show ?case
      by (cases "n < 6") (auto simp: bit_simps rwx_bits)
  qed
  moreover have "hd (map ?cls ms @ [?go]) = ?cls (hd (ms @ [go]))"
    by (cases ms) auto
  ultimately show ?thesis
    by (metis (no_types, lifting) map_is_Nil_conv)
qed

subsection \<open>Creation\<close>

lemma create_named:
  "\<forall>e \<in> set es. e_tag e = ACL_USER \<or> e_tag e = ACL_GROUP \<Longrightarrow>
   create_masq_loop (es @ rest) i mode ne g m =
     (case create_masq_loop rest (i + length es) mode (ne \<or> es \<noteq> []) g m of
        Inl e \<Rightarrow> Inl e | Inr (entries, r) \<Rightarrow> Inr (es @ entries, r))"
proof (induction es arbitrary: i ne)
  case (Cons e es)
  then have "create_masq_loop ((e # es) @ rest) i mode ne g m =
    (case create_masq_loop (es @ rest) (i + 1) mode True g m of
       Inl e \<Rightarrow> Inl e | Inr (entries, r) \<Rightarrow> Inr (e # entries, r))"
    by auto
  then show ?case
    using Cons by (simp split: sum.split prod.split)
qed (simp split: sum.split prod.split)

text \<open>Each of the three classes is cut down to what the requested mode allows it.\<close>

definition trim :: "u16 \<Rightarrow> nat \<Rightarrow> posix_acl_entry \<Rightarrow> posix_acl_entry" where
  "trim mode k e = e\<lparr>e_perm := e_perm e AND (drop_bit k mode OR NOT 7)\<rparr>"

definition create_entries ::
  "u16 \<Rightarrow> posix_acl_entry \<Rightarrow> posix_acl_entry list \<Rightarrow> posix_acl_entry \<Rightarrow>
   posix_acl_entry list \<Rightarrow> posix_acl_entry list \<Rightarrow> posix_acl_entry \<Rightarrow> posix_acl_entry list" where
  "create_entries mode uo us go gs ms ot =
     trim mode 6 uo # us @ (if ms = [] then trim mode 3 go else go) # gs @
     map (trim mode 3) ms @ [trim mode 0 ot]"

definition create_mode :: "u16 \<Rightarrow> posix_acl_entry \<Rightarrow> posix_acl_entry \<Rightarrow> posix_acl_entry \<Rightarrow> u16" where
  "create_mode mode uo g ot =
     mode AND (push_bit 6 (e_perm uo) OR push_bit 3 (e_perm g) OR e_perm ot OR NOT 511)"

lemma trim_bit: "bit (e_perm (trim mode k e)) n \<longleftrightarrow> bit (e_perm e) n \<and> (n < 3 \<longrightarrow> bit mode (k + n))"
  using bit_imp_le_length [of "e_perm e" n] by (auto simp: trim_def bit_simps rwx_bits)

lemma trim_simps [simp]: "e_tag (trim mode k e) = e_tag e" "e_id (trim mode k e) = e_id e"
  by (simp_all add: trim_def)

lemma trim_rwx: "rwx_only e \<Longrightarrow> rwx_only (trim mode k e)"
  by (rule rwx_onlyI) (auto simp: trim_bit dest: rwx_onlyD)

text \<open>The mode cut down to what the entry of a class, at bit \<open>k\<close>, allows.\<close>

definition keep :: "u16 \<Rightarrow> nat \<Rightarrow> posix_acl_entry \<Rightarrow> u16" where
  "keep mode k e = mode AND (push_bit k (e_perm e) OR NOT (push_bit k 7))"

lemma keep_bit: "n < 16 \<Longrightarrow> bit (keep mode k e) n \<longleftrightarrow>
   bit mode n \<and> (k \<le> n \<and> n < k + 3 \<longrightarrow> bit (e_perm e) (n - k)) \<or> bit mode n \<and> k \<le> n \<and> bit (e_perm e) (n - k)"
  unfolding keep_def by (auto simp: bit_simps rwx_bits)

lemma create_loop_eqs:
  "create_masq_loop [] i mode ne g m = Inr ([], mode, ne, g, m)"
  "e_tag pa = ACL_USER_OBJ \<Longrightarrow> create_masq_loop (pa # rest) i mode ne g m =
     (case create_masq_loop rest (i + 1) (keep mode 6 (trim mode 6 pa)) ne g m of
        Inl e \<Rightarrow> Inl e | Inr (entries, r) \<Rightarrow> Inr (trim mode 6 pa # entries, r))"
  "e_tag pa = ACL_GROUP_OBJ \<Longrightarrow> create_masq_loop (pa # rest) i mode ne g m =
     (case create_masq_loop rest (i + 1) mode ne (Some i) m of
        Inl e \<Rightarrow> Inl e | Inr (entries, r) \<Rightarrow> Inr (pa # entries, r))"
  "e_tag pa = ACL_MASK \<Longrightarrow> create_masq_loop (pa # rest) i mode ne g m =
     (case create_masq_loop rest (i + 1) mode True g (Some i) of
        Inl e \<Rightarrow> Inl e | Inr (entries, r) \<Rightarrow> Inr (pa # entries, r))"
  "e_tag pa = ACL_OTHER \<Longrightarrow> create_masq_loop (pa # rest) i mode ne g m =
     (case create_masq_loop rest (i + 1) (keep mode 0 (trim mode 0 pa)) ne g m of
        Inl e \<Rightarrow> Inl e | Inr (entries, r) \<Rightarrow> Inr (trim mode 0 pa # entries, r))"
  by (simp_all add: Let_def keep_def trim_def split: sum.split)

lemma create_masq_result:
  assumes "create_masq_loop (a_entries acl) 0 mode_p False None None = Inr (entries, mode, ne, g, m)"
    and "(case m of Some m \<Rightarrow> Some m | None \<Rightarrow> g) = Some k"
  shows "posix_acl_create_masq acl mode_p =
    Inr (acl\<lparr>a_entries := entries[k := trim mode 3 (entries ! k)]\<rparr>,
         (mode_p AND NOT S_IRWXUGO) OR keep mode 3 (trim mode 3 (entries ! k)), ne)"
  using assms by (simp add: posix_acl_create_masq_def keep_def trim_def Let_def)

lemma trim_keep:
  "trim (keep mode 6 u) 0 e = trim mode 0 e" "trim (keep (keep mode 6 u) 0 o1) 3 e = trim mode 3 e"
  by (intro posix_acl_entry.equality bit_word_eqI; auto simp: trim_bit keep_bit)+

lemma keep_mode:
  assumes "rwx_only uo" and "rwx_only g" and "rwx_only ot"
  shows "(mode AND NOT S_IRWXUGO) OR
      keep (keep (keep mode 6 (trim mode 6 uo)) 0 (trim mode 0 ot)) 3 (trim mode 3 g) = create_mode mode uo g ot"
proof (rule bit_word_eqI, goal_cases)
  case (1 n)
  have u: "bit (e_perm uo) n \<Longrightarrow> n < 3" and g: "bit (e_perm g) n \<Longrightarrow> n < 3"
    and o: "bit (e_perm ot) n \<Longrightarrow> n < 3" for n
    using assms rwx_onlyD by blast+
  consider "n < 3" | "3 \<le> n" "n < 6" | "6 \<le> n" by linarith
  then show ?case
    using u [of "n - 6"] u [of n] g [of "n - 3"] o [of n] 1
    by cases (auto simp: create_mode_def keep_bit trim_bit bit_simps rwx_bits simp del: push_bit_and push_bit_or)
qed

lemma create_shape:
  assumes sh: "acl_shape (a_entries acl) uo us go gs ms ot"
  shows "posix_acl_create_masq acl mode =
    Inr (acl\<lparr>a_entries := create_entries mode uo us go gs ms ot\<rparr>,
         create_mode mode uo (hd (ms @ [go])) ot, ms \<noteq> [])"
proof -
  have tags: "e_tag uo = ACL_USER_OBJ" "e_tag go = ACL_GROUP_OBJ" "e_tag ot = ACL_OTHER"
    and us: "\<forall>e \<in> set us. e_tag e = ACL_USER \<or> e_tag e = ACL_GROUP"
    and gs: "\<forall>e \<in> set gs. e_tag e = ACL_USER \<or> e_tag e = ACL_GROUP"
    and es: "a_entries acl = uo # us @ go # gs @ ms @ [ot]"
    and rwx: "rwx_only uo" "rwx_only go" "rwx_only ot"
    and ms: "ms = [] \<and> us = [] \<and> gs = [] \<or> (\<exists>m. ms = [m] \<and> e_tag m = ACL_MASK \<and> rwx_only m)"
    using sh named_ok_tags by (auto simp: acl_shape_def)
  let ?m = "keep (keep mode 6 (trim mode 6 uo)) 0 (trim mode 0 ot)"
  note loop = es create_loop_eqs(1) create_loop_eqs(2) [OF tags(1)] create_loop_eqs(3) [OF tags(2)]
    create_loop_eqs(5) [OF tags(3)] create_named [OF us] create_named [OF gs] trim_keep
  from ms show ?thesis
  proof (elim disjE exE conjE)
    assume e: "ms = []" "us = []" "gs = []"
    then have "create_masq_loop (a_entries acl) 0 mode False None None =
      Inr ([trim mode 6 uo, go, trim mode 0 ot], ?m, False, Some 1, None)"
      by (simp add: loop del: create_masq_loop.simps)
    from create_masq_result [OF this] e show ?thesis
      using keep_mode [OF rwx, of mode] by (simp add: trim_keep create_entries_def)
  next
    fix m
    assume m: "ms = [m]" "e_tag m = ACL_MASK" "rwx_only m"
    then have "create_masq_loop (a_entries acl) 0 mode False None None =
      Inr (trim mode 6 uo # us @ go # gs @ [m, trim mode 0 ot], ?m, True, Some (Suc (length us)),
           Some (Suc (Suc (length us + length gs))))"
      by (simp add: loop create_loop_eqs(4) del: create_masq_loop.simps)
    from create_masq_result [OF this] m show ?thesis
      using keep_mode [OF rwx(1) m(3) rwx(3), of mode]
      by (simp add: trim_keep create_entries_def nth_append list_update_append)
  qed
qed

lemma create_entries_shape:
  assumes "acl_shape es uo us go gs ms ot"
  shows "\<exists>uo' go' ms' ot'. acl_shape (create_entries mode uo us go gs ms ot) uo' us go' gs ms' ot' \<and>
     (mode AND NOT 511) OR mode_of uo' (hd (ms' @ [go'])) ot' = create_mode mode uo (hd (ms @ [go])) ot \<and>
     (ms' = [] \<longleftrightarrow> ms = [])"
proof -
  let ?go = "if ms = [] then trim mode 3 go else go"
  have "acl_shape (create_entries mode uo us go gs ms ot) (trim mode 6 uo) us ?go gs
      (map (trim mode 3) ms) (trim mode 0 ot)"
    using assms by (auto simp: acl_shape_def create_entries_def trim_rwx)
  moreover have "(mode AND NOT 511) OR mode_of (trim mode 6 uo) (trim mode 3 g) (trim mode 0 ot) =
      create_mode mode uo g ot" if "rwx_only g" for g
  proof (rule bit_word_eqI, goal_cases)
    case (1 n)
    have "bit (e_perm uo) n \<Longrightarrow> n < 3" and "bit (e_perm g) n \<Longrightarrow> n < 3" and "bit (e_perm ot) n \<Longrightarrow> n < 3" for n
      using assms that rwx_onlyD by (auto simp: acl_shape_def)
    note u = this(1) [of "n - 6"] this(1) [of n] this(2) [of "n - 3"] this(3) [of n]
    consider "n < 3" | "3 \<le> n" "n < 6" | "6 \<le> n" by linarith
    then show ?case
      using u 1 by cases (auto simp: create_mode_def mode_of_def trim_bit bit_simps rwx_bits
          simp del: push_bit_and push_bit_or)
  qed
  moreover have "rwx_only (hd (ms @ [go]))"
    using assms by (auto simp: acl_shape_def)
  moreover have "hd (map (trim mode 3) ms @ [?go]) = trim mode 3 (hd (ms @ [go]))"
    by (cases ms) auto
  ultimately show ?thesis
    by (metis (no_types, lifting) map_is_Nil_conv)
qed

text \<open>No permission appears that the entry did not have before.\<close>

abbreviation narrows :: "posix_acl_entry \<Rightarrow> posix_acl_entry \<Rightarrow> bool" where
  "narrows e e' \<equiv> e_tag e' = e_tag e \<and> e_id e' = e_id e \<and> (\<forall>n. bit (e_perm e') n \<longrightarrow> bit (e_perm e) n)"

lemma create_entries_narrow:
  assumes "acl_shape es uo us go gs ms ot"
  shows "list_all2 narrows es (create_entries mode uo us go gs ms ot)"
proof -
  have "narrows e (trim mode k e)" for e k
    by (simp add: trim_bit)
  then show ?thesis
    using assms by (auto simp: acl_shape_def create_entries_def list.rel_map
        intro!: list_all2_appendI list.rel_refl)
qed

text \<open>
  A mode survives the round trip through an access control list: \<^verbatim>\<open>posix_acl_from_mode\<close> makes a
  valid list that \<^verbatim>\<open>posix_acl_equiv_mode\<close> recognises as equivalent to a mode, and whose mode has
  the permission bits it was made from; it fails only for lack of memory.
\<close>

theorem acl_mode_roundtrip:
  "\<exists>acl. posix_acl_from_mode True mode = Inr acl \<and> posix_acl_valid acl = Ok \<and>
     posix_acl_equiv_mode acl (Some mode) = Inr (False, Some mode) \<and>
     posix_acl_from_mode False mode = Inl ENOMEM"
proof -
  let ?e = "\<lambda>t p. \<lparr>e_tag = t, e_perm = p, e_id = - 1 :: u32\<rparr>"
  let ?uo = "?e ACL_USER_OBJ (drop_bit 6 (mode AND 448))"
    and ?go = "?e ACL_GROUP_OBJ (drop_bit 3 (mode AND 56))" and ?ot = "?e ACL_OTHER (mode AND 7)"
  let ?acl = "posix_acl_init [?uo, ?go, ?ot]"
  have "rwx_only ?uo" "rwx_only ?go" "rwx_only ?ot"
    by (rule rwx_onlyI; simp add: bit_simps rwx_bits)+
  then have sh: "acl_shape (a_entries ?acl) ?uo [] ?go [] [] ?ot"
    by (simp add: acl_shape_def named_ok_def posix_acl_init_def)
  have "(mode AND NOT 511) OR mode_of ?uo ?go ?ot = mode"
  proof (rule bit_word_eqI, goal_cases)
    case (1 n)
    then show ?case
      by (cases "n < 6") (auto simp: mode_of_def bit_simps rwx_bits)
  qed
  with equiv_mode_shape [OF sh, of mode] have "posix_acl_equiv_mode ?acl (Some mode) = Inr (False, Some mode)"
    by simp
  moreover have "posix_acl_valid ?acl = Ok"
    by (intro wellformed_imp_valid wellformedI [OF sh])
  ultimately show ?thesis
    by (simp add: posix_acl_from_mode_def posix_acl_alloc_def)
qed

text \<open>
  \<^verbatim>\<open>posix_acl_chmod_masq\<close> on a valid list succeeds, keeps the list valid and its named entries as
  they were, and makes it stand for exactly the permission bits of the new mode.
\<close>

theorem acl_chmod_mode:
  assumes "posix_acl_valid acl = Ok"
  shows "\<exists>acl' ne. posix_acl_chmod_masq acl mode = Inr acl' \<and> posix_acl_valid acl' = Ok \<and>
     posix_acl_equiv_mode acl' (Some old) = Inr (ne, Some ((old AND NOT S_IRWXUGO) OR (mode AND S_IRWXUGO))) \<and>
     filter (\<lambda>e. e_tag e = ACL_USER \<or> e_tag e = ACL_GROUP) (a_entries acl') =
     filter (\<lambda>e. e_tag e = ACL_USER \<or> e_tag e = ACL_GROUP) (a_entries acl)"
proof -
  obtain uo us go gs ms ot where sh: "acl_shape (a_entries acl) uo us go gs ms ot"
    using valid_imp_wellformed [OF assms] by (auto simp: acl_wellformed_def)
  let ?acl = "acl\<lparr>a_entries := chmod_entries mode uo us go gs ms ot\<rparr>"
  obtain uo' go' ms' ot' where sh': "acl_shape (a_entries ?acl) uo' us go' gs ms' ot'"
    and mode: "mode_of uo' (hd (ms' @ [go'])) ot' = mode AND 511" and ms: "ms' = [] \<longleftrightarrow> ms = []"
    using chmod_entries_shape [OF sh, of mode] by auto
  have "posix_acl_valid ?acl = Ok"
    by (intro wellformed_imp_valid wellformedI [OF sh'])
  moreover have "filter (\<lambda>e. e_tag e = ACL_USER \<or> e_tag e = ACL_GROUP) (a_entries ?acl) =
    filter (\<lambda>e. e_tag e = ACL_USER \<or> e_tag e = ACL_GROUP) (a_entries acl)"
    using sh sh' by (auto simp: acl_shape_def)
  ultimately show ?thesis
    using chmod_shape [OF sh, of mode] equiv_mode_shape [OF sh', of old] mode by auto
qed

theorem acl_chmod_mode_witness:
  "\<exists>acl' ne. posix_acl_chmod_masq demo_acl 416 = Inr acl' \<and> posix_acl_valid acl' = Ok \<and>
     posix_acl_equiv_mode acl' (Some 0) = Inr (ne, Some 416)"
  using acl_chmod_mode [OF demo_acl_valid, of 416 0] by auto

text \<open>
  \<^verbatim>\<open>posix_acl_create_masq\<close> on a valid default list succeeds; the new list is valid, no entry of it
  has a permission the default list did not give it, the new mode has no bit that was not
  requested, and list and mode agree.
\<close>

theorem acl_create_narrows:
  assumes "posix_acl_valid acl = Ok"
  shows "\<exists>acl' mode' ne. posix_acl_create_masq acl mode = Inr (acl', mode', ne) \<and> posix_acl_valid acl' = Ok \<and>
     list_all2 (\<lambda>e e'. e_tag e' = e_tag e \<and> e_id e' = e_id e \<and> (\<forall>n. bit (e_perm e') n \<longrightarrow> bit (e_perm e) n))
       (a_entries acl) (a_entries acl') \<and>
     mode' AND mode = mode' \<and> posix_acl_equiv_mode acl' (Some mode) = Inr (ne, Some mode')"
proof -
  obtain uo us go gs ms ot where sh: "acl_shape (a_entries acl) uo us go gs ms ot"
    using valid_imp_wellformed [OF assms] by (auto simp: acl_wellformed_def)
  let ?acl = "acl\<lparr>a_entries := create_entries mode uo us go gs ms ot\<rparr>"
  let ?mode = "create_mode mode uo (hd (ms @ [go])) ot"
  obtain uo' go' ms' ot' where sh': "acl_shape (a_entries ?acl) uo' us go' gs ms' ot'"
    and mode: "(mode AND NOT 511) OR mode_of uo' (hd (ms' @ [go'])) ot' = ?mode" and ms: "ms' = [] \<longleftrightarrow> ms = []"
    using create_entries_shape [OF sh, of mode] by auto
  have "posix_acl_valid ?acl = Ok"
    by (intro wellformed_imp_valid wellformedI [OF sh'])
  moreover have "?mode AND mode = ?mode"
    unfolding create_mode_def by (rule bit_word_eqI) (auto simp: bit_simps)
  ultimately show ?thesis
    using create_shape [OF sh, of mode] equiv_mode_shape [OF sh', of mode] mode ms
      create_entries_narrow [OF sh, of mode] by auto
qed

theorem acl_create_narrows_witness:
  "\<exists>acl' mode' ne. posix_acl_create_masq demo_acl 416 = Inr (acl', mode', ne) \<and> posix_acl_valid acl' = Ok \<and>
     mode' AND 416 = mode' \<and> posix_acl_equiv_mode acl' (Some 416) = Inr (ne, Some mode')"
  using acl_create_narrows [OF demo_acl_valid, of 416] by blast

end
