(* ===== verification/Skbuff.thy ===== *)
theory Skbuff
  imports Kernel_Prelude
begin

text \<open>
  Packet buffers: the parts of \<^verbatim>\<open>struct sk_buff\<close> that the socket filter works on, and the two
  routines of \<^verbatim>\<open>net/core/skbuff.c\<close> that read and shorten a packet whose bytes are spread over the
  linear area, page fragments and a list of further buffers.

  \<open>linear\<close> holds the bytes from \<^verbatim>\<open>skb->head\<close> up to the tail pointer, and the pointers into it are
  offsets from the head; a header pointer that was never set lies outside, below the head or behind the tail.  A page fragment is its byte sequence, so that its \<^verbatim>\<open>size\<close> is the length.
  Lengths are natural numbers: \<open>skb_ok\<close> bounds them below \<open>2^31\<close>, where \<^verbatim>\<open>int\<close> and
  \<^verbatim>\<open>unsigned int\<close> agree, and offsets into the headroom, which \<^verbatim>\<open>skb_copy\<close> passes to \<^verbatim>\<open>skb_copy_bits\<close> as
  negative numbers, are not covered; a client that computes with wrap-around converts them.
  Allocations succeed or fail together, by the argument \<open>mem\<close>.
\<close>

section \<open>Data\<close>

record skb_base =
  linear :: "u8 list"
  data_off :: nat
  network_header :: int
  mac_header :: int
  skb_len :: nat
  skb_data_len :: nat
  frags :: "u8 list list"
  skb_cloned :: bool
  skb_shared :: bool
  skb_protocol :: u16
  pkt_type :: u8
  skb_dev :: "(u32 \<times> u16) option"  \<comment> \<open>\<^verbatim>\<open>ifindex\<close> and \<^verbatim>\<open>type\<close>\<close>
  skb_mark :: u32
  queue_mapping :: u16
  rxhash :: u32

datatype sk_buff = Sk_buff (base: skb_base) (frag_list: "sk_buff list")

abbreviation pkt_len :: "sk_buff \<Rightarrow> nat" where
  "pkt_len skb \<equiv> skb_len (base skb)"

definition skb_is_nonlinear :: "sk_buff \<Rightarrow> bool" where
  "skb_is_nonlinear skb \<longleftrightarrow> skb_data_len (base skb) \<noteq> 0"

definition skb_headlen :: "skb_base \<Rightarrow> nat" where
  "skb_headlen b = skb_len b - skb_data_len b"

section \<open>Copying bytes out of a packet\<close>

text \<open>
  Where the loops of \<^verbatim>\<open>skb_copy_bits\<close> stand: finished with the bytes copied, or about to go on
  at \<open>start\<close> with \<open>offset\<close> and \<open>len\<close> and the bytes copied so far.
\<close>

datatype copy_state = Finished "u8 list" | Continue nat nat nat "u8 list"

definition copy_header :: "skb_base \<Rightarrow> nat \<Rightarrow> nat \<Rightarrow> copy_state" where
  "copy_header b offset len =
     (let start = skb_headlen b
      in if offset < start
         then (let copy = min (start - offset) len;
                   out = take copy (drop (data_off b + offset) (linear b))
               in if len - copy = 0 then Finished out
                  else Continue start (offset + copy) (len - copy) out)
         else Continue start offset len [])"

fun copy_frags :: "u8 list list \<Rightarrow> nat \<Rightarrow> nat \<Rightarrow> nat \<Rightarrow> u8 list \<Rightarrow> copy_state" where
  "copy_frags [] start offset len out = Continue start offset len out"
| "copy_frags (frag # rest) start offset len out =
     (let fin = start + length frag
      in if offset < fin
         then (let copy = min (fin - offset) len;
                   out' = out @ take copy (drop (offset - start) frag)
               in if len - copy = 0 then Finished out'
                  else copy_frags rest fin (offset + copy) (len - copy) out')
         else copy_frags rest fin offset len out)"

fun skb_copy_bits :: "sk_buff \<Rightarrow> nat \<Rightarrow> nat \<Rightarrow> u8 list kresult"
  and copy_frag_list :: "sk_buff list \<Rightarrow> nat \<Rightarrow> nat \<Rightarrow> nat \<Rightarrow> u8 list \<Rightarrow> u8 list kresult" where
  "skb_copy_bits (Sk_buff b fl) offset len =
     (if offset + len > skb_len b then Inl EFAULT
      else case copy_header b offset len of
        Finished out \<Rightarrow> Inr out
      | Continue start offset1 len1 out \<Rightarrow>
          (case copy_frags (frags b) start offset1 len1 out of
             Finished out' \<Rightarrow> Inr out'
           | Continue start' offset' len' out' \<Rightarrow> copy_frag_list fl start' offset' len' out'))"
| "copy_frag_list [] start offset len out = (if len = 0 then Inr out else Inl EFAULT)"
| "copy_frag_list (frag_iter # rest) start offset len out =
     (let fin = start + pkt_len frag_iter
      in if offset < fin
         then (let copy = min (fin - offset) len
               in case skb_copy_bits frag_iter (offset - start) copy of
                    Inl e \<Rightarrow> Inl EFAULT
                  | Inr bytes \<Rightarrow>
                      if len - copy = 0 then Inr (out @ bytes)
                      else copy_frag_list rest fin (offset + copy) (len - copy) (out @ bytes))
         else copy_frag_list rest fin offset len out)"

text \<open>The bytes behind the pointer that \<^verbatim>\<open>skb_header_pointer\<close> returns, \<open>None\<close> for NULL.\<close>

definition skb_header_pointer :: "sk_buff \<Rightarrow> nat \<Rightarrow> nat \<Rightarrow> u8 list option" where
  "skb_header_pointer skb offset len =
     (if skb_headlen (base skb) \<ge> offset + len
      then Some (take len (drop (data_off (base skb) + offset) (linear (base skb))))
      else case skb_copy_bits skb offset len of Inl _ \<Rightarrow> None | Inr bytes \<Rightarrow> Some bytes)"

section \<open>Shortening a packet\<close>

definition skb_set_tail_pointer :: "nat \<Rightarrow> skb_base \<Rightarrow> skb_base" where
  "skb_set_tail_pointer offset b = b\<lparr>linear := take (data_off b + offset) (linear b)\<rparr>"

definition do_skb_trim :: "sk_buff \<Rightarrow> nat \<Rightarrow> sk_buff" where
  "do_skb_trim skb len =
     (if skb_is_nonlinear skb then skb
      else Sk_buff (skb_set_tail_pointer len ((base skb)\<lparr>skb_len := len\<rparr>)) (frag_list skb))"

text \<open>
  The first loop of \<^verbatim>\<open>___pskb_trim\<close>: the fragments that are kept, and \<open>None\<close> when the new end
  lies in them or else the offset behind them.
\<close>

fun trim_frags :: "u8 list list \<Rightarrow> nat \<Rightarrow> nat \<Rightarrow> u8 list list \<times> nat option" where
  "trim_frags [] offset len = ([], Some offset)"
| "trim_frags (frag # rest) offset len =
     (let fin = offset + length frag
      in if fin < len then (let (kept, r) = trim_frags rest fin len in (frag # kept, r))
         else ([take (len - offset) frag], None))"

text \<open>The end of \<^verbatim>\<open>___pskb_trim\<close>, behind the label \<^verbatim>\<open>done\<close>.\<close>

definition trim_done :: "skb_base \<Rightarrow> nat \<Rightarrow> skb_base" where
  "trim_done b len =
     (if len > skb_headlen b
      then b\<lparr>skb_data_len := skb_data_len b - (skb_len b - len), skb_len := len\<rparr>
      else skb_set_tail_pointer len (b\<lparr>skb_len := len, skb_data_len := 0\<rparr>))"

text \<open>
  The fragment a trim works on: a shared one is replaced by a clone.  As a function on the
  base it keeps the frag list, which the recursion below descends into.
\<close>

definition own_base :: "skb_base \<Rightarrow> skb_base" where
  "own_base b = (if skb_shared b then b\<lparr>skb_cloned := True, skb_shared := False\<rparr> else b)"

fun pskb_trim_base :: "bool \<Rightarrow> skb_base \<Rightarrow> sk_buff list \<Rightarrow> nat \<Rightarrow> sk_buff kresult"
  and trim_frag_list :: "bool \<Rightarrow> sk_buff list \<Rightarrow> nat \<Rightarrow> nat \<Rightarrow> sk_buff list kresult" where
  "pskb_trim_base mem b fl len =
     (if len < skb_len b
      then if skb_data_len b \<noteq> 0
           then if skb_cloned b \<and> \<not> mem then Inl ENOMEM
                else (let b' = b\<lparr>skb_cloned := False\<rparr>
                      in if skb_headlen b' \<ge> len
                         then Inr (Sk_buff (trim_done (b'\<lparr>frags := []\<rparr>) len) [])
                         else case trim_frags (frags b') (skb_headlen b') len of
                           (kept, None) \<Rightarrow> Inr (Sk_buff (trim_done (b'\<lparr>frags := kept\<rparr>) len) [])
                         | (kept, Some offset) \<Rightarrow>
                             (case trim_frag_list mem fl offset len of
                                Inl e \<Rightarrow> Inl e
                              | Inr fl' \<Rightarrow> Inr (Sk_buff (trim_done (b'\<lparr>frags := kept\<rparr>) len) fl')))
           else Inr (do_skb_trim (Sk_buff b fl) len)
      else Inr (Sk_buff b fl))"
| "trim_frag_list mem [] offset len = Inr []"
| "trim_frag_list mem (Sk_buff b fl # rest) offset len =
     (let fin = offset + skb_len b
      in if skb_shared b \<and> \<not> mem then Inl ENOMEM
         else if fin < len
         then (case trim_frag_list mem rest fin len of
                 Inl e \<Rightarrow> Inl e
               | Inr rest' \<Rightarrow> Inr (Sk_buff (own_base b) fl # rest'))
         else if fin > len
         then (case pskb_trim_base mem (own_base b) fl (len - offset) of
                 Inl e \<Rightarrow> Inl e
               | Inr frag \<Rightarrow> Inr [frag])
         else Inr [Sk_buff (own_base b) fl])"

definition pskb_trim :: "bool \<Rightarrow> sk_buff \<Rightarrow> nat \<Rightarrow> sk_buff kresult" where
  "pskb_trim mem skb len = pskb_trim_base mem (base skb) (frag_list skb) len"

section \<open>What a packet's bytes are\<close>

fun skb_bytes :: "sk_buff \<Rightarrow> u8 list" where
  "skb_bytes (Sk_buff b fl) = drop (data_off b) (linear b) @ concat (frags b) @ concat (map skb_bytes fl)"

text \<open>The lengths in the header agree with the bytes that are there.\<close>

fun skb_ok :: "sk_buff \<Rightarrow> bool" where
  "skb_ok (Sk_buff b fl) \<longleftrightarrow>
     data_off b \<le> length (linear b) \<and>
     skb_len b < 2 ^ 31 \<and> skb_data_len b \<le> skb_len b \<and>
     skb_headlen b = length (linear b) - data_off b \<and>
     skb_data_len b = length (concat (frags b)) + sum_list (map pkt_len fl) \<and>
     (\<forall>f \<in> set fl. skb_ok f)"

lemma len_skb_bytes: "skb_ok skb \<Longrightarrow> length (skb_bytes skb) = pkt_len skb"
proof (induction skb rule: skb_bytes.induct)
  case (1 b fl)
  then have "sum_list (map (length \<circ> skb_bytes) fl) = sum_list (map pkt_len fl)"
    by (intro arg_cong [where f = sum_list] map_cong) auto
  with 1 show ?case
    by (simp add: length_concat skb_headlen_def) linarith
qed

lemma len_fl_bytes: "\<forall>f \<in> set fl. skb_ok f \<Longrightarrow> length (concat (map skb_bytes fl)) = sum_list (map pkt_len fl)"
  by (induction fl) (auto simp: len_skb_bytes)

subsection \<open>Reading\<close>

text \<open>
  What a state of the copy loops stands for, when the bytes from \<open>start\<close> on are \<open>rest\<close>: the
  bytes already copied and those still to come.
\<close>

fun promises :: "copy_state \<Rightarrow> u8 list \<Rightarrow> u8 list" where
  "promises (Finished out) rest = out"
| "promises (Continue start offset len out) rest = out @ take len (drop (offset - start) rest)"

fun in_step :: "copy_state \<Rightarrow> nat \<Rightarrow> nat \<Rightarrow> bool" where
  "in_step (Finished out) start0 end0 \<longleftrightarrow> True"
| "in_step (Continue start offset len out) start0 end0 \<longleftrightarrow> start = start0 \<and> start \<le> offset \<and> offset + len = end0"

lemma take_drop_split:
  "k \<le> length xs \<Longrightarrow> take n (drop k (xs @ ys)) =
     take (min (length xs - k) n) (drop k xs) @ take (n - min (length xs - k) n) ys"
  by (simp add: min_def take_drop)

lemma drop_past: "length xs \<le> k \<Longrightarrow> drop k (xs @ ys) = drop (k - length xs) ys"
  by simp

declare take_append [simp del] drop_append [simp del]

lemma copy_frags_correct:
  assumes "start \<le> offset"
  shows "promises (copy_frags fs start offset len out) rest =
           out @ take len (drop (offset - start) (concat fs @ rest)) \<and>
         in_step (copy_frags fs start offset len out) (start + length (concat fs)) (offset + len)"
  using assms
proof (induction fs arbitrary: start offset len out)
  case (Cons f fs)
  let ?fin = "start + length f"
  show ?case
  proof (cases "offset < ?fin")
    case True
    let ?copy = "min (?fin - offset) len"
    let ?out = "out @ take ?copy (drop (offset - start) f)"
    have split: "take len (drop (offset - start) (f @ concat fs @ rest)) =
      take ?copy (drop (offset - start) f) @ take (len - ?copy) (concat fs @ rest)"
      using take_drop_split [of "offset - start" f len "concat fs @ rest"] Cons.prems True
      by (simp add: diff_diff_eq2 add.commute)
    show ?thesis
    proof (cases "len - ?copy = 0")
      case False
      then have "offset + ?copy = ?fin" using True by (simp add: min_def split: if_splits)
      then show ?thesis
        using Cons.IH [of ?fin "offset + ?copy" "len - ?copy" ?out] False True split
        by (simp add: Let_def ac_simps)
    qed (use True split in \<open>simp add: Let_def\<close>)
  next
    case False
    then show ?thesis
      using Cons.IH [of ?fin offset len out] by (simp add: Let_def add.assoc drop_past)
  qed
qed simp

lemma copy_header_correct:
  assumes "skb_headlen b = length (linear b) - data_off b"
  shows "promises (copy_header b offset len) rest = take len (drop offset (drop (data_off b) (linear b) @ rest)) \<and>
         in_step (copy_header b offset len) (skb_headlen b) (offset + len)"
proof -
  let ?h = "drop (data_off b) (linear b)"
  have h: "length ?h = skb_headlen b" using assms by simp
  show ?thesis
  proof (cases "offset < skb_headlen b")
    case True
    then have "take len (drop offset (?h @ rest)) =
      take (min (skb_headlen b - offset) len) (drop offset ?h) @ take (len - min (skb_headlen b - offset) len) rest"
      using take_drop_split [of offset ?h len rest] unfolding h by simp
    moreover have "len - min (skb_headlen b - offset) len \<noteq> 0 \<Longrightarrow> offset + min (skb_headlen b - offset) len = skb_headlen b"
      using True by simp
    ultimately show ?thesis
      using True by (simp add: copy_header_def Let_def add.commute)
  next
    case False
    then show ?thesis
      using h drop_past [of ?h offset rest] by (simp add: copy_header_def Let_def)
  qed
qed

lemma copy_bits_correct:
  "skb_ok skb \<Longrightarrow> skb_copy_bits skb offset len =
     (if offset + len \<le> pkt_len skb then Inr (take len (drop offset (skb_bytes skb))) else Inl EFAULT)"
  "\<forall>f \<in> set fl. skb_ok f \<Longrightarrow> start \<le> offset \<Longrightarrow> offset + len \<le> start + sum_list (map pkt_len fl) \<Longrightarrow>
     copy_frag_list fl start offset len out = Inr (out @ take len (drop (offset - start) (concat (map skb_bytes fl))))"
proof (induction skb offset len and fl start offset len out rule: skb_copy_bits_copy_frag_list.induct)
  case (1 b fl offset len)
  show ?case
  proof (cases "offset + len \<le> skb_len b")
    case True
    let ?h = "drop (data_off b) (linear b)" and ?fr = "concat (frags b)" and ?fl = "concat (map skb_bytes fl)"
    have hd: "skb_headlen b = length (linear b) - data_off b"
      and tot: "skb_len b = skb_headlen b + length ?fr + sum_list (map pkt_len fl)"
      using "1.prems" by (auto simp: skb_headlen_def)
    note ch = copy_header_correct [OF hd, of offset len "?fr @ ?fl"]
    show ?thesis
    proof (cases "copy_header b offset len")
      case (Finished out)
      then show ?thesis using True ch by simp
    next
      case (Continue s o1 l1 out)
      with ch have s: "s = skb_headlen b" "s \<le> o1" "o1 + l1 = offset + len"
        and p: "out @ take l1 (drop (o1 - s) (?fr @ ?fl)) = take len (drop offset (?h @ ?fr @ ?fl))"
        by auto
      note cf = copy_frags_correct [OF s(2), of "frags b" l1 out ?fl]
      show ?thesis
      proof (cases "copy_frags (frags b) s o1 l1 out")
        case (Finished out')
        then show ?thesis using True Continue cf p by simp
      next
        case (Continue s' o' l' out')
        have "copy_frag_list fl s' o' l' out' = Inr (out' @ take l' (drop (o' - s') ?fl))"
          using "1.IH" [OF _ \<open>copy_header b offset len = Continue s o1 l1 out\<close> Continue] True "1.prems" cf Continue s tot
          by simp
        then show ?thesis
          using True \<open>copy_header b offset len = Continue s o1 l1 out\<close> Continue cf p by auto
      qed
    qed
  qed simp
next
  case (3 f rest start offset len out)
  let ?fin = "start + pkt_len f" and ?r = "concat (map skb_bytes rest)"
  have f: "skb_ok f" "length (skb_bytes f) = pkt_len f" using "3.prems" by (simp_all add: len_skb_bytes)
  show ?case
  proof (cases "offset < ?fin")
    case True
    let ?copy = "min (?fin - offset) len"
    have split: "take len (drop (offset - start) (skb_bytes f @ ?r)) =
      take ?copy (drop (offset - start) (skb_bytes f)) @ take (len - ?copy) ?r"
      using take_drop_split [of "offset - start" "skb_bytes f" len ?r] f "3.prems" True
      by (simp add: diff_diff_eq2 add.commute)
    have bits: "skb_copy_bits f (offset - start) ?copy = Inr (take ?copy (drop (offset - start) (skb_bytes f)))"
      using "3.IH"(1) [OF refl True refl f(1)] "3.prems" True by auto
    show ?thesis
    proof (cases "len - ?copy = 0")
      case False
      then have "offset + ?copy = ?fin" using True by (simp add: min_def split: if_splits)
      then show ?thesis
        using "3.IH"(2) [OF refl True refl bits False] "3.prems" False True split bits by (simp add: Let_def)
    qed (use True split bits in \<open>simp add: Let_def\<close>)
  next
    case False
    then show ?thesis
      using "3.IH"(3) [OF refl False] "3.prems" f by (simp add: drop_past)
  qed
qed simp_all

lemma header_pointer_correct:
  assumes "skb_ok skb"
  shows "skb_header_pointer skb offset len =
    (if offset + len \<le> pkt_len skb then Some (take len (drop offset (skb_bytes skb))) else None)"
proof -
  obtain b fl where skb: "skb = Sk_buff b fl" by (cases skb)
  let ?h = "drop (data_off b) (linear b)"
  have h: "length ?h = skb_headlen b" and le: "skb_headlen b \<le> skb_len b"
    using assms by (auto simp: skb skb_headlen_def)
  show ?thesis
  proof (cases "offset + len \<le> skb_headlen b")
    case True
    then have "take len (drop offset (skb_bytes skb)) = take len (drop offset ?h)"
      using h by (simp add: skb take_append drop_append)
    with True le show ?thesis
      by (simp add: skb_header_pointer_def skb add.commute)
  next
    case False
    then show ?thesis
      using copy_bits_correct(1) [OF assms] by (simp add: skb_header_pointer_def skb)
  qed
qed

subsection \<open>Shortening\<close>

lemma trim_frags_correct:
  assumes "trim_frags fs offset len = (kept, r)" and "offset \<le> len"
  shows "case r of
      None \<Rightarrow> concat kept = take (len - offset) (concat fs) \<and> length (concat kept) = len - offset
    | Some offset' \<Rightarrow> kept = fs \<and> offset' = offset + length (concat fs) \<and> offset' \<le> len"
  using assms
proof (induction fs arbitrary: offset kept r)
  case (Cons f fs)
  show ?case
  proof (cases "offset + length f < len")
    case True
    then obtain kept' where k: "trim_frags fs (offset + length f) len = (kept', r)" "kept = f # kept'"
      using Cons.prems(1) by (auto simp: Let_def split: prod.splits)
    then show ?thesis
      using Cons.IH [OF k(1)] True by (auto simp: take_append split: option.splits)
  next
    case False
    then show ?thesis
      using Cons.prems by (auto simp: Let_def take_append)
  qed
qed simp

lemma own_base_simps [simp]:
  "skb_ok (Sk_buff (own_base b) fl) \<longleftrightarrow> skb_ok (Sk_buff b fl)"
  "skb_bytes (Sk_buff (own_base b) fl) = skb_bytes (Sk_buff b fl)" "skb_len (own_base b) = skb_len b"
  by (simp_all add: own_base_def skb_headlen_def)

text \<open>A packet cut inside its linear area loses its fragments.\<close>

lemma trim_linear:
  assumes "skb_ok (Sk_buff b fl)" and "len \<le> skb_headlen b"
  shows "skb_ok (Sk_buff (trim_done (b\<lparr>frags := []\<rparr>) len) [])"
    and "skb_bytes (Sk_buff (trim_done (b\<lparr>frags := []\<rparr>) len) []) = take len (skb_bytes (Sk_buff b fl))"
proof -
  have "len \<le> length (drop (data_off b) (linear b))" using assms by simp
  then show "skb_bytes (Sk_buff (trim_done (b\<lparr>frags := []\<rparr>) len) []) = take len (skb_bytes (Sk_buff b fl))"
    using assms by (simp add: trim_done_def skb_set_tail_pointer_def skb_headlen_def take_append drop_take)
  show "skb_ok (Sk_buff (trim_done (b\<lparr>frags := []\<rparr>) len) [])"
    using assms by (auto simp: trim_done_def skb_set_tail_pointer_def skb_headlen_def)
qed

text \<open>Cut behind it, the paged parts are cut to what is left.\<close>

lemma trim_paged:
  assumes ok: "skb_ok (Sk_buff b fl)" and len: "skb_headlen b < len" "len < skb_len b"
    and fl': "\<forall>f \<in> set fl'. skb_ok f"
    and bytes: "concat kept @ concat (map skb_bytes fl') =
      take (len - skb_headlen b) (concat (frags b) @ concat (map skb_bytes fl))"
  shows "skb_ok (Sk_buff (trim_done (b\<lparr>frags := kept\<rparr>) len) fl')"
    and "skb_bytes (Sk_buff (trim_done (b\<lparr>frags := kept\<rparr>) len) fl') = take len (skb_bytes (Sk_buff b fl))"
proof -
  let ?h = "drop (data_off b) (linear b)"
  have h: "length ?h = skb_headlen b" using ok by simp
  have fl: "\<forall>f \<in> set fl. skb_ok f"
    and tot: "skb_len b = skb_headlen b + (length (concat (frags b)) + sum_list (map pkt_len fl))"
    using ok by (auto simp: skb_headlen_def)
  have td: "trim_done (b\<lparr>frags := kept\<rparr>) len =
    b\<lparr>frags := kept, skb_data_len := skb_data_len b - (skb_len b - len), skb_len := len\<rparr>"
    using len by (simp add: trim_done_def skb_headlen_def)
  have "length (concat kept) + sum_list (map pkt_len fl') =
    length (take (len - skb_headlen b) (concat (frags b) @ concat (map skb_bytes fl)))"
    using bytes [THEN arg_cong, of length] len_fl_bytes [OF fl'] by simp
  also have "\<dots> = len - skb_headlen b"
    using tot len len_fl_bytes [OF fl] by simp
  finally show "skb_ok (Sk_buff (trim_done (b\<lparr>frags := kept\<rparr>) len) fl')"
    unfolding td using ok len fl' by (auto simp: skb_headlen_def)
  have "take len (skb_bytes (Sk_buff b fl)) =
    ?h @ take (len - skb_headlen b) (concat (frags b) @ concat (map skb_bytes fl))"
    using len h by (simp add: take_append)
  then show "skb_bytes (Sk_buff (trim_done (b\<lparr>frags := kept\<rparr>) len) fl') = take len (skb_bytes (Sk_buff b fl))"
    unfolding td using bytes by simp
qed

lemma trim_unpaged:
  assumes "skb_ok (Sk_buff b fl)" and "skb_data_len b = 0" and "len < skb_len b"
  shows "skb_ok (do_skb_trim (Sk_buff b fl) len)"
    and "skb_bytes (do_skb_trim (Sk_buff b fl) len) = take len (skb_bytes (Sk_buff b fl))"
proof -
  have "concat (frags b) = []" and "concat (map skb_bytes fl) = []"
    using assms len_fl_bytes [of fl] by (simp_all add: length_0_conv [symmetric] del: length_0_conv concat_eq_Nil_conv)
  then show "skb_bytes (do_skb_trim (Sk_buff b fl) len) = take len (skb_bytes (Sk_buff b fl))"
    using assms by (simp add: do_skb_trim_def skb_is_nonlinear_def skb_set_tail_pointer_def drop_take
        del: concat_eq_Nil_conv)
  show "skb_ok (do_skb_trim (Sk_buff b fl) len)"
    using assms by (auto simp: do_skb_trim_def skb_is_nonlinear_def skb_set_tail_pointer_def skb_headlen_def)
qed

abbreviation trims_to :: "bool \<Rightarrow> sk_buff \<Rightarrow> nat \<Rightarrow> sk_buff kresult \<Rightarrow> bool" where
  "trims_to mem skb len r \<equiv>
     (case r of Inl e \<Rightarrow> \<not> mem \<and> e = ENOMEM | Inr skb' \<Rightarrow> skb_ok skb' \<and> skb_bytes skb' = take len (skb_bytes skb))"

lemma trim_correct:
  "skb_ok (Sk_buff b fl) \<Longrightarrow> trims_to mem (Sk_buff b fl) len (pskb_trim_base mem b fl len)"
  "\<forall>f \<in> set fl. skb_ok f \<Longrightarrow> offset \<le> len \<Longrightarrow>
     (case trim_frag_list mem fl offset len of
        Inl e \<Rightarrow> \<not> mem \<and> e = ENOMEM
      | Inr fl' \<Rightarrow> (\<forall>f \<in> set fl'. skb_ok f) \<and>
          concat (map skb_bytes fl') = take (len - offset) (concat (map skb_bytes fl)))"
proof (induction mem b fl len and mem fl offset len rule: pskb_trim_base_trim_frag_list.induct)
  case (1 mem b fl len)
  let ?b = "b\<lparr>skb_cloned := False\<rparr>"
  have ok: "skb_ok (Sk_buff ?b fl)" and eq: "skb_bytes (Sk_buff ?b fl) = skb_bytes (Sk_buff b fl)"
    using "1.prems" by (auto simp: skb_headlen_def)
  consider "skb_len b \<le> len" | "len < skb_len b" "skb_data_len b = 0"
    | "len < skb_len b" "skb_data_len b \<noteq> 0" "skb_cloned b \<and> \<not> mem"
    | "len < skb_len b" "skb_data_len b \<noteq> 0" "\<not> (skb_cloned b \<and> \<not> mem)" "len \<le> skb_headlen ?b"
    | "len < skb_len b" "skb_data_len b \<noteq> 0" "\<not> (skb_cloned b \<and> \<not> mem)" "skb_headlen ?b < len"
    by linarith
  then show ?case
  proof cases
    case 1
    then show ?thesis
      using "1.prems" len_skb_bytes [OF "1.prems"] by simp
  next
    case 2
    then show ?thesis
      using trim_unpaged [OF "1.prems" 2(2,1)] by simp
  next
    case 4
    then show ?thesis
      using trim_linear [OF ok 4(4)] eq by simp
  next
    case 5
    obtain kept r where tf: "trim_frags (frags b) (skb_headlen ?b) len = (kept, r)" by fastforce
    note tfc = trim_frags_correct [OF tf less_imp_le [OF 5(4)]]
    show ?thesis
    proof (cases r)
      case None
      note kl = tfc [unfolded None option.case]
      note k = kl [THEN conjunct1]
      from k kl [THEN conjunct2] have "len - skb_headlen ?b \<le> length (concat (frags b))"
        by (simp only: length_take)
      then have "concat kept @ concat (map skb_bytes []) =
        take (len - skb_headlen ?b) (concat (frags ?b) @ concat (map skb_bytes fl))"
        unfolding k by (simp add: take_append)
      from trim_paged [OF ok _ _ _ this] show ?thesis
        using 5 tf None eq by (simp add: Let_def)
    next
      case (Some offset)
      then have k: "kept = frags b" and off: "offset = skb_headlen ?b + length (concat (frags b))" "offset \<le> len"
        using tfc by simp_all
      have IH: "case trim_frag_list mem fl offset len of
          Inl e \<Rightarrow> \<not> mem \<and> e = ENOMEM
        | Inr fl' \<Rightarrow> (\<forall>f \<in> set fl'. skb_ok f) \<and>
            concat (map skb_bytes fl') = take (len - offset) (concat (map skb_bytes fl))"
        using "1.IH" [OF 5(1,2,3) refl] 5 tf Some off(2) "1.prems" by simp
      show ?thesis
      proof (cases "trim_frag_list mem fl offset len")
        case (Inl e)
        then show ?thesis using IH 5 tf Some by (simp add: Let_def)
      next
        case (Inr fl')
        then have "concat kept @ concat (map skb_bytes fl') =
          take (len - skb_headlen ?b) (concat (frags ?b) @ concat (map skb_bytes fl))"
          using IH k off by (simp add: take_append)
        from trim_paged [OF ok _ _ _ this] show ?thesis
          using IH 5 tf Some Inr eq by (simp add: Let_def)
      qed
    qed
  qed simp
next
  case (3 mem b fl rest offset len)
  let ?fin = "offset + skb_len b"
  have ok: "skb_ok (Sk_buff b fl)" "\<forall>f \<in> set rest. skb_ok f" and l: "length (skb_bytes (Sk_buff b fl)) = skb_len b"
    using "3.prems" len_skb_bytes [of "Sk_buff b fl"] by auto
  show ?case
  proof (cases "skb_shared b \<and> \<not> mem")
    case True
    then show ?thesis by simp
  next
    case False
    consider "?fin < len" | "?fin > len" | "?fin = len" by linarith
    then show ?thesis
    proof cases
      case 1
      then show ?thesis
        using "3.IH"(1) [OF refl False 1 ok(2)] ok l False
        by (auto simp: Let_def take_append split: sum.splits simp del: skb_bytes.simps skb_ok.simps)
    next
      case 2
      then show ?thesis
        using "3.IH"(2) [OF refl False _ 2] ok l False "3.prems"
        by (auto simp: Let_def take_append split: sum.splits simp del: skb_bytes.simps skb_ok.simps pskb_trim_base.simps)
    next
      case 3
      then show ?thesis
        using ok l False by (auto simp: Let_def take_append simp del: skb_bytes.simps skb_ok.simps)
    qed
  qed
qed simp

declare take_append [simp] drop_append [simp]

section \<open>Properties\<close>

text \<open>
  C8: reading from a packet does not depend on how it is fragmented.  \<^verbatim>\<open>skb_copy_bits\<close> and
  \<^verbatim>\<open>skb_header_pointer\<close> deliver exactly the requested range of the packet's bytes, across the linear
  area, the page fragments and nested buffer lists, and fail exactly when the range goes beyond
  the packet.
\<close>

theorem skb_read_exact:
  assumes "skb_ok skb"
  shows "skb_copy_bits skb offset len =
      (if offset + len \<le> length (skb_bytes skb) then Inr (take len (drop offset (skb_bytes skb))) else Inl EFAULT) \<and>
    skb_header_pointer skb offset len =
      (if offset + len \<le> length (skb_bytes skb) then Some (take len (drop offset (skb_bytes skb))) else None)"
  using copy_bits_correct(1) [OF assms] header_pointer_correct [OF assms] len_skb_bytes [OF assms] by simp

text \<open>
  \<^verbatim>\<open>pskb_trim\<close> keeps exactly the first bytes of a packet and a consistent header, at every
  depth of nesting; the only way for it to fail is lack of memory.
\<close>

theorem pskb_trim_exact:
  assumes "skb_ok skb"
  shows "(case pskb_trim mem skb len of
      Inl e \<Rightarrow> \<not> mem \<and> e = ENOMEM
    | Inr skb' \<Rightarrow> skb_ok skb' \<and> skb_bytes skb' = take len (skb_bytes skb))"
  using trim_correct(1) [of "base skb" "frag_list skb" mem len] assms unfolding pskb_trim_def sk_buff.collapse by simp

text \<open>A packet with two linear bytes, a two-byte fragment and a nested buffer of one byte.\<close>

definition flat_skb :: "u8 list \<Rightarrow> sk_buff" where
  "flat_skb bs = Sk_buff \<lparr>linear = bs, data_off = 0, network_header = 0, mac_header = 0,
     skb_len = length bs, skb_data_len = 0, frags = [], skb_cloned = False, skb_shared = False,
     skb_protocol = 8, pkt_type = 0, skb_dev = None, skb_mark = 0, queue_mapping = 0, rxhash = 0\<rparr> []"

definition demo_skb :: sk_buff where
  "demo_skb = Sk_buff \<lparr>linear = [9, 1, 2], data_off = 1, network_header = 1, mac_header = 0,
     skb_len = 5, skb_data_len = 3, frags = [[3, 4]], skb_cloned = True, skb_shared = False,
     skb_protocol = 8, pkt_type = 0, skb_dev = Some (2, 1), skb_mark = 0, queue_mapping = 0, rxhash = 0\<rparr>
     [flat_skb [5]]"

lemma flat_skb_ok: "length bs < 2 ^ 31 \<Longrightarrow> skb_ok (flat_skb bs)"
  by (simp add: flat_skb_def skb_headlen_def)

lemma demo_skb_ok: "skb_ok demo_skb"
  using flat_skb_ok [of "[5]"] by (simp add: demo_skb_def skb_headlen_def flat_skb_def)

lemma demo_skb_bytes: "skb_bytes demo_skb = [1, 2, 3, 4, 5]"
  by (simp add: demo_skb_def flat_skb_def)

theorem skb_read_exact_witness:
  "skb_copy_bits demo_skb 1 4 = Inr [2, 3, 4, 5] \<and> skb_header_pointer demo_skb 3 3 = None"
  using skb_read_exact [OF demo_skb_ok, of 1 4] skb_read_exact [OF demo_skb_ok, of 3 3]
  by (simp add: demo_skb_bytes)

theorem pskb_trim_exact_witness:
  "(case pskb_trim True demo_skb 3 of Inl _ \<Rightarrow> False | Inr skb' \<Rightarrow> skb_bytes skb' = [1, 2, 3])"
  using pskb_trim_exact [OF demo_skb_ok, of True 3] by (simp add: demo_skb_bytes split: sum.splits)

end
