(* ===== verification/Bpf_Codes.thy ===== *)
theory Bpf_Codes
  imports Kernel_Prelude
begin

text \<open>
  The instruction set of the socket filter, \<^verbatim>\<open>include/linux/filter.h\<close>, the table \<^verbatim>\<open>codes\<close> by which
  \<^verbatim>\<open>sk_chk_filter\<close> translates user instructions, and division by a precomputed reciprocal,
  \<^verbatim>\<open>lib/reciprocal_div.c\<close>.  C overwrites the 16-bit \<^verbatim>\<open>code\<close> of an instruction in place with a
  number of the enumeration; here the record is polymorphic in the code, a \<open>u16\<close> before the check
  and a \<open>bpf_s\<close> after it.  The constructor \<open>BPF_S_Unknown\<close> stands for the numbers outside the
  enumeration.
\<close>

section \<open>Instructions\<close>

record 'c sock_filter =
  insn_code :: 'c
  jt :: u8
  jf :: u8
  insn_k :: u32

datatype bpf_s = BPF_S_RET_K | BPF_S_RET_A
  | BPF_S_ALU_ADD_K | BPF_S_ALU_ADD_X | BPF_S_ALU_SUB_K | BPF_S_ALU_SUB_X
  | BPF_S_ALU_MUL_K | BPF_S_ALU_MUL_X | BPF_S_ALU_DIV_X | BPF_S_ALU_AND_K | BPF_S_ALU_AND_X
  | BPF_S_ALU_OR_K | BPF_S_ALU_OR_X | BPF_S_ALU_LSH_K | BPF_S_ALU_LSH_X
  | BPF_S_ALU_RSH_K | BPF_S_ALU_RSH_X | BPF_S_ALU_NEG
  | BPF_S_LD_W_ABS | BPF_S_LD_H_ABS | BPF_S_LD_B_ABS | BPF_S_LD_W_LEN
  | BPF_S_LD_W_IND | BPF_S_LD_H_IND | BPF_S_LD_B_IND | BPF_S_LD_IMM
  | BPF_S_LDX_W_LEN | BPF_S_LDX_B_MSH | BPF_S_LDX_IMM | BPF_S_MISC_TAX | BPF_S_MISC_TXA
  | BPF_S_ALU_DIV_K | BPF_S_LD_MEM | BPF_S_LDX_MEM | BPF_S_ST | BPF_S_STX
  | BPF_S_JMP_JA | BPF_S_JMP_JEQ_K | BPF_S_JMP_JEQ_X | BPF_S_JMP_JGE_K | BPF_S_JMP_JGE_X
  | BPF_S_JMP_JGT_K | BPF_S_JMP_JGT_X | BPF_S_JMP_JSET_K | BPF_S_JMP_JSET_X
  | BPF_S_ANC_PROTOCOL | BPF_S_ANC_PKTTYPE | BPF_S_ANC_IFINDEX | BPF_S_ANC_NLATTR
  | BPF_S_ANC_NLATTR_NEST | BPF_S_ANC_MARK | BPF_S_ANC_QUEUE | BPF_S_ANC_HATYPE
  | BPF_S_ANC_RXHASH | BPF_S_ANC_CPU | BPF_S_Unknown u16

section \<open>User codes\<close>

abbreviation (input) BPF_LD :: u16 where "BPF_LD \<equiv> 0"
abbreviation (input) BPF_LDX :: u16 where "BPF_LDX \<equiv> 1"
abbreviation (input) BPF_ST :: u16 where "BPF_ST \<equiv> 2"
abbreviation (input) BPF_STX :: u16 where "BPF_STX \<equiv> 3"
abbreviation (input) BPF_ALU :: u16 where "BPF_ALU \<equiv> 4"
abbreviation (input) BPF_JMP :: u16 where "BPF_JMP \<equiv> 5"
abbreviation (input) BPF_RET :: u16 where "BPF_RET \<equiv> 6"
abbreviation (input) BPF_MISC :: u16 where "BPF_MISC \<equiv> 7"
abbreviation (input) BPF_W :: u16 where "BPF_W \<equiv> 0"
abbreviation (input) BPF_H :: u16 where "BPF_H \<equiv> 8"
abbreviation (input) BPF_B :: u16 where "BPF_B \<equiv> 16"
abbreviation (input) BPF_IMM :: u16 where "BPF_IMM \<equiv> 0"
abbreviation (input) BPF_ABS :: u16 where "BPF_ABS \<equiv> 32"
abbreviation (input) BPF_IND :: u16 where "BPF_IND \<equiv> 64"
abbreviation (input) BPF_MEM :: u16 where "BPF_MEM \<equiv> 96"
abbreviation (input) BPF_LEN :: u16 where "BPF_LEN \<equiv> 128"
abbreviation (input) BPF_MSH :: u16 where "BPF_MSH \<equiv> 160"
abbreviation (input) BPF_ADD :: u16 where "BPF_ADD \<equiv> 0"
abbreviation (input) BPF_SUB :: u16 where "BPF_SUB \<equiv> 16"
abbreviation (input) BPF_MUL :: u16 where "BPF_MUL \<equiv> 32"
abbreviation (input) BPF_DIV :: u16 where "BPF_DIV \<equiv> 48"
abbreviation (input) BPF_OR :: u16 where "BPF_OR \<equiv> 64"
abbreviation (input) BPF_AND :: u16 where "BPF_AND \<equiv> 80"
abbreviation (input) BPF_LSH :: u16 where "BPF_LSH \<equiv> 96"
abbreviation (input) BPF_RSH :: u16 where "BPF_RSH \<equiv> 112"
abbreviation (input) BPF_NEG :: u16 where "BPF_NEG \<equiv> 128"
abbreviation (input) BPF_JA :: u16 where "BPF_JA \<equiv> 0"
abbreviation (input) BPF_JEQ :: u16 where "BPF_JEQ \<equiv> 16"
abbreviation (input) BPF_JGT :: u16 where "BPF_JGT \<equiv> 32"
abbreviation (input) BPF_JGE :: u16 where "BPF_JGE \<equiv> 48"
abbreviation (input) BPF_JSET :: u16 where "BPF_JSET \<equiv> 64"
abbreviation (input) BPF_K :: u16 where "BPF_K \<equiv> 0"
abbreviation (input) BPF_X :: u16 where "BPF_X \<equiv> 8"
abbreviation (input) BPF_A :: u16 where "BPF_A \<equiv> 16"
abbreviation (input) BPF_TAX :: u16 where "BPF_TAX \<equiv> 0"
abbreviation (input) BPF_TXA :: u16 where "BPF_TXA \<equiv> 128"
abbreviation (input) BPF_MAXINSNS :: nat where "BPF_MAXINSNS \<equiv> 4096"
abbreviation (input) BPF_MEMWORDS :: nat where "BPF_MEMWORDS \<equiv> 16"

text \<open>The array initialiser of \<^verbatim>\<open>codes\<close>, in its order; a code that is not listed is invalid.\<close>

definition codes :: "(u16 \<times> bpf_s) list" where
  "codes = [
     (BPF_ALU OR BPF_ADD OR BPF_K, BPF_S_ALU_ADD_K),
     (BPF_ALU OR BPF_ADD OR BPF_X, BPF_S_ALU_ADD_X),
     (BPF_ALU OR BPF_SUB OR BPF_K, BPF_S_ALU_SUB_K),
     (BPF_ALU OR BPF_SUB OR BPF_X, BPF_S_ALU_SUB_X),
     (BPF_ALU OR BPF_MUL OR BPF_K, BPF_S_ALU_MUL_K),
     (BPF_ALU OR BPF_MUL OR BPF_X, BPF_S_ALU_MUL_X),
     (BPF_ALU OR BPF_DIV OR BPF_X, BPF_S_ALU_DIV_X),
     (BPF_ALU OR BPF_AND OR BPF_K, BPF_S_ALU_AND_K),
     (BPF_ALU OR BPF_AND OR BPF_X, BPF_S_ALU_AND_X),
     (BPF_ALU OR BPF_OR OR BPF_K, BPF_S_ALU_OR_K),
     (BPF_ALU OR BPF_OR OR BPF_X, BPF_S_ALU_OR_X),
     (BPF_ALU OR BPF_LSH OR BPF_K, BPF_S_ALU_LSH_K),
     (BPF_ALU OR BPF_LSH OR BPF_X, BPF_S_ALU_LSH_X),
     (BPF_ALU OR BPF_RSH OR BPF_K, BPF_S_ALU_RSH_K),
     (BPF_ALU OR BPF_RSH OR BPF_X, BPF_S_ALU_RSH_X),
     (BPF_ALU OR BPF_NEG, BPF_S_ALU_NEG),
     (BPF_LD OR BPF_W OR BPF_ABS, BPF_S_LD_W_ABS),
     (BPF_LD OR BPF_H OR BPF_ABS, BPF_S_LD_H_ABS),
     (BPF_LD OR BPF_B OR BPF_ABS, BPF_S_LD_B_ABS),
     (BPF_LD OR BPF_W OR BPF_LEN, BPF_S_LD_W_LEN),
     (BPF_LD OR BPF_W OR BPF_IND, BPF_S_LD_W_IND),
     (BPF_LD OR BPF_H OR BPF_IND, BPF_S_LD_H_IND),
     (BPF_LD OR BPF_B OR BPF_IND, BPF_S_LD_B_IND),
     (BPF_LD OR BPF_IMM, BPF_S_LD_IMM),
     (BPF_LDX OR BPF_W OR BPF_LEN, BPF_S_LDX_W_LEN),
     (BPF_LDX OR BPF_B OR BPF_MSH, BPF_S_LDX_B_MSH),
     (BPF_LDX OR BPF_IMM, BPF_S_LDX_IMM),
     (BPF_MISC OR BPF_TAX, BPF_S_MISC_TAX),
     (BPF_MISC OR BPF_TXA, BPF_S_MISC_TXA),
     (BPF_RET OR BPF_K, BPF_S_RET_K),
     (BPF_RET OR BPF_A, BPF_S_RET_A),
     (BPF_ALU OR BPF_DIV OR BPF_K, BPF_S_ALU_DIV_K),
     (BPF_LD OR BPF_MEM, BPF_S_LD_MEM),
     (BPF_LDX OR BPF_MEM, BPF_S_LDX_MEM),
     (BPF_ST, BPF_S_ST),
     (BPF_STX, BPF_S_STX),
     (BPF_JMP OR BPF_JA, BPF_S_JMP_JA),
     (BPF_JMP OR BPF_JEQ OR BPF_K, BPF_S_JMP_JEQ_K),
     (BPF_JMP OR BPF_JEQ OR BPF_X, BPF_S_JMP_JEQ_X),
     (BPF_JMP OR BPF_JGE OR BPF_K, BPF_S_JMP_JGE_K),
     (BPF_JMP OR BPF_JGE OR BPF_X, BPF_S_JMP_JGE_X),
     (BPF_JMP OR BPF_JGT OR BPF_K, BPF_S_JMP_JGT_K),
     (BPF_JMP OR BPF_JGT OR BPF_X, BPF_S_JMP_JGT_X),
     (BPF_JMP OR BPF_JSET OR BPF_K, BPF_S_JMP_JSET_K),
     (BPF_JMP OR BPF_JSET OR BPF_X, BPF_S_JMP_JSET_X)]"

section \<open>Reciprocal division\<close>

definition reciprocal_value :: "u32 \<Rightarrow> u32" where
  "reciprocal_value k = ucast ((2 ^ 32 + ucast (k - 1) :: u64) div ucast k)"

definition reciprocal_divide :: "u32 \<Rightarrow> u32 \<Rightarrow> u32" where
  "reciprocal_divide A R = ucast (drop_bit 32 (ucast A * ucast R :: u64))"

lemma unat_up [simp]: "unat (ucast (w :: u32) :: u64) = unat w"
  using unat_bound [of w] by (simp add: unsigned_ucast_eq take_bit_nat_eq_self)

lemma unat_down [simp]: "unat (ucast (w :: u64) :: u32) = unat w mod 2 ^ 32"
  by (simp add: unsigned_ucast_eq take_bit_eq_mod)

lemma unat_reciprocal_value:
  assumes "2 \<le> unat k"
  shows "unat (reciprocal_value k) = (2 ^ 32 + unat k - 1) div unat k"
proof -
  have k: "0 < unat k" "unat k < 2 ^ 32" using assms unat_bound [of k] by simp_all
  then have "unat (k - 1) = unat k - 1" using unat_dec [of k] by (simp add: word_less_nat_alt)
  then have "unat (2 ^ 32 + ucast (k - 1) :: u64) = 2 ^ 32 + unat k - 1"
    using k by (simp add: unat_word_ariths)
  moreover have "unat (ucast k :: u64) = unat k"
    by simp
  moreover have "(2 ^ 32 + unat k - 1) div unat k < 2 ^ 32"
  proof -
    have "2 ^ 32 + unat k - 1 < 2 ^ 32 * unat k"
      using mult_le_mono2 [OF assms, of "2 ^ 32"] k by simp
    then show ?thesis by (simp add: div_less_iff_less_mult k)
  qed
  ultimately show ?thesis
    by (simp add: reciprocal_value_def unat_div)
qed

lemma unat_reciprocal_divide: "unat (reciprocal_divide A R) = unat A * unat R div 2 ^ 32"
proof -
  have "unat A * unat R < 2 ^ 32 * 2 ^ 32"
    using unat_bound [of A] unat_bound [of R] by (intro mult_strict_mono) simp_all
  then have "unat (ucast A * ucast R :: u64) = unat A * unat R" and "unat A * unat R div 2 ^ 32 < 2 ^ 32"
    by (simp_all add: unat_word_ariths div_less_iff_less_mult)
  then show ?thesis
    by (simp add: reciprocal_divide_def drop_bit_eq_div unat_div)
qed

text \<open>The arithmetic: a reciprocal that is rounded up gives a quotient that is at most one too large.\<close>

lemma reciprocal_quotient:
  fixes a k N :: nat
  assumes "0 < k" and "a < N"
  defines "r \<equiv> (N + k - 1) div k"
  shows "a div k \<le> a * r div N" and "a * r div N \<le> a div k + 1"
    and "a * k \<le> N \<Longrightarrow> a * r div N = a div k"
proof -
  define m where "m = (N + k - 1) mod k"
  have "r * k + m = N + k - 1" unfolding r_def m_def by (rule div_mult_mod_eq)
  moreover have "m < k" unfolding m_def using assms(1) by simp
  ultimately have r: "N \<le> r * k" "r * k \<le> N + (k - 1)" using assms(1) by linarith+
  have q: "a div k * k \<le> a" "a < (a div k + 1) * k"
    using assms(1) div_times_less_eq_dividend [of a k] dividend_less_div_times [of k a] by simp_all
  have "(a div k * N) * k \<le> (a * r) * k"
    using mult_le_mono [OF q(1) r(1)] by (simp add: ac_simps)
  then have "a div k * N \<le> a * r" using assms(1) by simp
  then show le: "a div k \<le> a * r div N" using assms(2) by (simp add: less_eq_div_iff_mult_less_eq)
  have up: "a * r * k \<le> a * N + a * (k - 1)"
    using mult_le_mono2 [OF r(2), of a] by (simp add: algebra_simps)
  have "a * r * k < (a div k + 2) * N * k"
  proof -
    have "a * (k - 1) \<le> N * k" using assms by (intro mult_le_mono) simp_all
    moreover have "a * N + N * k < (a div k + 1) * k * N + N * k"
      using mult_less_mono1 [OF q(2), of N] assms(2) by simp
    ultimately show ?thesis using up by (simp add: algebra_simps)
  qed
  then have "a * r < (a div k + 2) * N" using assms(1) by simp
  then show "a * r div N \<le> a div k + 1"
    using assms(2) by (simp add: div_less_iff_less_mult less_Suc_eq_le [symmetric])
  assume small: "a * k \<le> N"
  have "a * r * k < (a div k + 1) * N * k"
  proof -
    have "a * (k - 1) < N"
      using small assms by (cases a) (auto simp: algebra_simps diff_mult_distrib2)
    moreover have "(a + 1) * N \<le> (a div k + 1) * k * N"
      using q(2) by (intro mult_le_mono1) simp
    ultimately show ?thesis using up by (simp add: algebra_simps)
  qed
  then have "a * r < (a div k + 1) * N" using assms(1) by simp
  then have "a * r div N < a div k + 1" using assms(2) by (simp add: div_less_iff_less_mult)
  with le show "a * r div N = a div k" by simp
qed

text \<open>
  Division by a constant in a filter, which \<^verbatim>\<open>sk_chk_filter\<close> turns into a multiplication with
  \<^verbatim>\<open>reciprocal_value\<close>.  For a divisor of at least 2 the result is never below the quotient and
  at most one above it, and it is the quotient when dividend times divisor is at most \<open>2^32\<close>.
\<close>

theorem reciprocal_divide_bounds:
  assumes "2 \<le> unat k"
  shows "unat A div unat k \<le> unat (reciprocal_divide A (reciprocal_value k)) \<and>
    unat (reciprocal_divide A (reciprocal_value k)) \<le> unat A div unat k + 1 \<and>
    (unat A * unat k \<le> 2 ^ 32 \<longrightarrow> unat (reciprocal_divide A (reciprocal_value k)) = unat A div unat k)"
proof -
  have "0 < unat k" and "unat A < 2 ^ 32" using assms unat_bound [of A] by simp_all
  note q = reciprocal_quotient [OF this]
  show ?thesis
    unfolding unat_reciprocal_divide unat_reciprocal_value [OF assms] using q by blast
qed

theorem reciprocal_divide_bounds_witness:
  "unat (reciprocal_divide 1000 (reciprocal_value 7)) = 142 \<and>
   unat (reciprocal_divide 4294967294 (reciprocal_value 3)) \<in> {1431655764, 1431655765}"
  using reciprocal_divide_bounds [of 7 1000] reciprocal_divide_bounds [of 3 4294967294] by auto

text \<open>
  The two deviations from division: a quotient that is one too large, and division by one,
  whose reciprocal \<open>2^32\<close> does not fit into 32 bits.
\<close>

theorem reciprocal_off_by_one:
  "reciprocal_divide 4294967294 (reciprocal_value 3) = 1431655765 \<and> (4294967294 :: u32) div 3 = 1431655764"
  by (simp add: reciprocal_divide_def reciprocal_value_def drop_bit_eq_div unsigned_ucast_eq word_eq_iff_unsigned unat_div)

theorem reciprocal_of_one: "reciprocal_divide A (reciprocal_value 1) = 0"
  by (simp add: reciprocal_divide_def reciprocal_value_def)

end
