(* ===== verification/Bpf_Filter.thy ===== *)
theory Bpf_Filter
  imports Skbuff Bpf_Codes
begin

text \<open>
  The socket filter of \<^verbatim>\<open>net/core/filter.c\<close>: the interpreter \<^verbatim>\<open>sk_run_filter\<close>, the checker
  \<^verbatim>\<open>sk_chk_filter\<close> that a program has to pass before it is attached to a socket, and attaching,
  detaching and applying filters.  The switch of the interpreter is split by instruction groups.

  \<open>Undefined\<close> marks what C leaves undefined and what the checker is there to prevent: running
  past the program, and reading a scratch cell that was never written or a byte outside the
  packet.  A shift by 32 or more, which C leaves to the compiler and the processor as well, is
  a pair of functions of \<open>bpf_env\<close>; there the processor number is found, too.
\<close>

section \<open>Reading the packet\<close>

abbreviation (input) SKF_AD_OFF :: int where "SKF_AD_OFF \<equiv> - 4096"
abbreviation (input) SKF_NET_OFF :: int where "SKF_NET_OFF \<equiv> - 1048576"
abbreviation (input) SKF_LL_OFF :: int where "SKF_LL_OFF \<equiv> - 2097152"

text \<open>
  The bytes at the pointer the C functions return, \<open>None\<close> for NULL; \<open>ptr\<close> is the distance from \<^verbatim>\<open>skb->head\<close>.
  A read that leaves the bytes between head and tail yields fewer than were asked for, which the
  interpreter below takes for undefined.
\<close>

definition bytes_at :: "u8 list \<Rightarrow> int \<Rightarrow> nat \<Rightarrow> u8 list" where
  "bytes_at mem ptr n = (if ptr < 0 then [] else take n (drop (nat ptr) mem))"

definition do_load_pointer :: "sk_buff \<Rightarrow> int \<Rightarrow> nat \<Rightarrow> u8 list option" where
  "do_load_pointer skb k n =
     (let b = base skb;
          ptr = (if k \<ge> SKF_NET_OFF then Some (network_header b + k - SKF_NET_OFF)
                 else if k \<ge> SKF_LL_OFF then Some (mac_header b + k - SKF_LL_OFF)
                 else None)
      in case ptr of
           None \<Rightarrow> None
         | Some p \<Rightarrow>
             if p \<ge> 0 \<and> p + int n \<le> int (length (linear b)) then Some (bytes_at (linear b) p n) else None)"

definition load_pointer :: "sk_buff \<Rightarrow> int \<Rightarrow> nat \<Rightarrow> u8 list option" where
  "load_pointer skb k n =
     (if k \<ge> 0 then skb_header_pointer skb (nat k) n else do_load_pointer skb k n)"

definition be_value :: "u8 list \<Rightarrow> u32" where
  "be_value bs = foldl (\<lambda>v b. push_bit 8 v OR ucast b) 0 bs"

definition ntohs :: "u16 \<Rightarrow> u16" where
  "ntohs w = push_bit 8 w OR drop_bit 8 w"

section \<open>Netlink attributes\<close>

text \<open>A header field in host order, little endian; \<open>None\<close> outside the bytes.\<close>

definition le16_at :: "u8 list \<Rightarrow> nat \<Rightarrow> nat option" where
  "le16_at bs pos =
     (if pos + 2 \<le> length bs then Some (unat (bs ! pos) + 256 * unat (bs ! (pos + 1))) else None)"

definition NLA_ALIGN :: "nat \<Rightarrow> nat" where
  "NLA_ALIGN len = (len + 3) div 4 * 4"

text \<open>
  \<^verbatim>\<open>nla_find\<close> with \<^verbatim>\<open>nla_ok\<close>, \<^verbatim>\<open>nla_type\<close> and \<^verbatim>\<open>nla_next\<close>: the outer \<open>None\<close> is a read outside the
  bytes, the inner one the NULL result.
\<close>

function nla_find :: "u8 list \<Rightarrow> nat \<Rightarrow> int \<Rightarrow> u32 \<Rightarrow> nat option option" where
  "nla_find bs pos rem attrtype =
     (if rem \<ge> 4
      then case le16_at bs pos of
        None \<Rightarrow> None
      | Some nla_len \<Rightarrow>
          if nla_len \<ge> 4 \<and> int nla_len \<le> rem
          then (case le16_at bs (pos + 2) of
                  None \<Rightarrow> None
                | Some nla_type \<Rightarrow>
                    if of_nat (nla_type mod 2 ^ 14) = attrtype then Some (Some pos)
                    else nla_find bs (pos + NLA_ALIGN nla_len) (rem - int (NLA_ALIGN nla_len)) attrtype)
          else Some None
      else Some None)"
  by pat_completeness auto
termination
  by (relation "measure (\<lambda>(bs, pos, rem, t). nat rem)") (auto simp: NLA_ALIGN_def)

declare nla_find.simps [simp del]

section \<open>The interpreter\<close>

record bpf_env =
  processor_id :: u32
  wide_lsh :: "u32 \<Rightarrow> u32 \<Rightarrow> u32"
  wide_rsh :: "u32 \<Rightarrow> u32 \<Rightarrow> u32"

record bpf_regs =
  acc :: u32
  idx :: u32
  scratch :: "u32 option list"
  insn_pc :: nat

datatype bpf_outcome = Running bpf_regs | Done u32 | Undefined

text \<open>What a group of instructions does with the one at hand.\<close>

datatype 'a group = Other | Value 'a | Return_zero | Wild

definition shift_left :: "bpf_env \<Rightarrow> u32 \<Rightarrow> u32 \<Rightarrow> u32" where
  "shift_left env A n = (if n < 32 then push_bit (unat n) A else wide_lsh env A n)"

definition shift_right :: "bpf_env \<Rightarrow> u32 \<Rightarrow> u32 \<Rightarrow> u32" where
  "shift_right env A n = (if n < 32 then drop_bit (unat n) A else wide_rsh env A n)"

definition alu_insn :: "bpf_env \<Rightarrow> bpf_s \<Rightarrow> u32 \<Rightarrow> u32 \<Rightarrow> u32 \<Rightarrow> u32 group" where
  "alu_insn env c A X K =
     (case c of
        BPF_S_ALU_ADD_X \<Rightarrow> Value (A + X)
      | BPF_S_ALU_ADD_K \<Rightarrow> Value (A + K)
      | BPF_S_ALU_SUB_X \<Rightarrow> Value (A - X)
      | BPF_S_ALU_SUB_K \<Rightarrow> Value (A - K)
      | BPF_S_ALU_MUL_X \<Rightarrow> Value (A * X)
      | BPF_S_ALU_MUL_K \<Rightarrow> Value (A * K)
      | BPF_S_ALU_DIV_X \<Rightarrow> if X = 0 then Return_zero else Value (A div X)
      | BPF_S_ALU_DIV_K \<Rightarrow> Value (reciprocal_divide A K)
      | BPF_S_ALU_AND_X \<Rightarrow> Value (A AND X)
      | BPF_S_ALU_AND_K \<Rightarrow> Value (A AND K)
      | BPF_S_ALU_OR_X \<Rightarrow> Value (A OR X)
      | BPF_S_ALU_OR_K \<Rightarrow> Value (A OR K)
      | BPF_S_ALU_LSH_X \<Rightarrow> Value (shift_left env A X)
      | BPF_S_ALU_LSH_K \<Rightarrow> Value (shift_left env A K)
      | BPF_S_ALU_RSH_X \<Rightarrow> Value (shift_right env A X)
      | BPF_S_ALU_RSH_K \<Rightarrow> Value (shift_right env A K)
      | BPF_S_ALU_NEG \<Rightarrow> Value (- A)
      | _ \<Rightarrow> Other)"

text \<open>The number of instructions a jump adds to \<^verbatim>\<open>fentry\<close>.\<close>

definition jump_insn :: "bpf_s sock_filter \<Rightarrow> u32 \<Rightarrow> u32 \<Rightarrow> nat group" where
  "jump_insn f A X =
     (let K = insn_k f; branch = (\<lambda>b. Value (if b then unat (jt f) else unat (jf f)))
      in case insn_code f of
        BPF_S_JMP_JA \<Rightarrow> Value (unat K)
      | BPF_S_JMP_JGT_K \<Rightarrow> branch (A > K)
      | BPF_S_JMP_JGE_K \<Rightarrow> branch (A \<ge> K)
      | BPF_S_JMP_JEQ_K \<Rightarrow> branch (A = K)
      | BPF_S_JMP_JSET_K \<Rightarrow> branch (A AND K \<noteq> 0)
      | BPF_S_JMP_JGT_X \<Rightarrow> branch (A > X)
      | BPF_S_JMP_JGE_X \<Rightarrow> branch (A \<ge> X)
      | BPF_S_JMP_JEQ_X \<Rightarrow> branch (A = X)
      | BPF_S_JMP_JSET_X \<Rightarrow> branch (A AND X \<noteq> 0)
      | _ \<Rightarrow> Other)"

text \<open>Loads, stores, moves between the registers, and returning.\<close>

definition mem_at :: "bpf_regs \<Rightarrow> u32 \<Rightarrow> u32 option" where
  "mem_at r K = (if unat K < length (scratch r) then scratch r ! unat K else None)"

definition mem_insn :: "sk_buff \<Rightarrow> bpf_s \<Rightarrow> u32 \<Rightarrow> bpf_regs \<Rightarrow> bpf_outcome option" where
  "mem_insn skb c K r =
     (let load = (\<lambda>k n.
            case load_pointer skb (sint (k :: u32)) n of
              None \<Rightarrow> Done 0
            | Some bs \<Rightarrow> if length bs < n then Undefined else Running (r\<lparr>acc := be_value bs\<rparr>));
          store = (\<lambda>v. if unat K < length (scratch r)
                       then Running (r\<lparr>scratch := (scratch r)[unat K := Some v]\<rparr>) else Undefined)
      in case c of
        BPF_S_LD_W_ABS \<Rightarrow> Some (load K 4)
      | BPF_S_LD_H_ABS \<Rightarrow> Some (load K 2)
      | BPF_S_LD_B_ABS \<Rightarrow> Some (load K 1)
      | BPF_S_LD_W_LEN \<Rightarrow> Some (Running (r\<lparr>acc := of_nat (pkt_len skb)\<rparr>))
      | BPF_S_LDX_W_LEN \<Rightarrow> Some (Running (r\<lparr>idx := of_nat (pkt_len skb)\<rparr>))
      | BPF_S_LD_W_IND \<Rightarrow> Some (load (idx r + K) 4)
      | BPF_S_LD_H_IND \<Rightarrow> Some (load (idx r + K) 2)
      | BPF_S_LD_B_IND \<Rightarrow> Some (load (idx r + K) 1)
      | BPF_S_LDX_B_MSH \<Rightarrow>
          (case load_pointer skb (sint K) 1 of
             None \<Rightarrow> Some (Done 0)
           | Some bs \<Rightarrow> Some (if length bs < 1 then Undefined else Running (r\<lparr>idx := push_bit 2 (be_value bs AND 15)\<rparr>)))
      | BPF_S_LD_IMM \<Rightarrow> Some (Running (r\<lparr>acc := K\<rparr>))
      | BPF_S_LDX_IMM \<Rightarrow> Some (Running (r\<lparr>idx := K\<rparr>))
      | BPF_S_LD_MEM \<Rightarrow>
          (case mem_at r K of None \<Rightarrow> Some Undefined | Some v \<Rightarrow> Some (Running (r\<lparr>acc := v\<rparr>)))
      | BPF_S_LDX_MEM \<Rightarrow>
          (case mem_at r K of None \<Rightarrow> Some Undefined | Some v \<Rightarrow> Some (Running (r\<lparr>idx := v\<rparr>)))
      | BPF_S_MISC_TAX \<Rightarrow> Some (Running (r\<lparr>idx := acc r\<rparr>))
      | BPF_S_MISC_TXA \<Rightarrow> Some (Running (r\<lparr>acc := idx r\<rparr>))
      | BPF_S_RET_K \<Rightarrow> Some (Done K)
      | BPF_S_RET_A \<Rightarrow> Some (Done (acc r))
      | BPF_S_ST \<Rightarrow> Some (store (acc r))
      | BPF_S_STX \<Rightarrow> Some (store (idx r))
      | _ \<Rightarrow> None)"

text \<open>The two searches in a netlink message; \<open>A > skb->len - 4\<close> is computed in 32 bits.\<close>

definition found_at :: "nat option option \<Rightarrow> u32 group" where
  "found_at res =
     (case res of None \<Rightarrow> Wild | Some None \<Rightarrow> Value 0 | Some (Some pos) \<Rightarrow> Value (of_nat pos))"

definition anc_nlattr :: "sk_buff \<Rightarrow> u32 \<Rightarrow> u32 \<Rightarrow> u32 group" where
  "anc_nlattr skb A X =
     (let len = of_nat (pkt_len skb); bs = drop (data_off (base skb)) (linear (base skb))
      in if skb_is_nonlinear skb then Return_zero
         else if A > len - 4 then Return_zero
         else found_at (nla_find bs (unat A) (sint (len - A)) X))"

definition anc_nlattr_nest :: "sk_buff \<Rightarrow> u32 \<Rightarrow> u32 \<Rightarrow> u32 group" where
  "anc_nlattr_nest skb A X =
     (let len = of_nat (pkt_len skb); bs = drop (data_off (base skb)) (linear (base skb))
      in if skb_is_nonlinear skb then Return_zero
         else if A > len - 4 then Return_zero
         else case le16_at bs (unat A) of
           None \<Rightarrow> Wild
         | Some nla_len \<Rightarrow>
             if of_nat nla_len > A - len then Return_zero
             else found_at (nla_find bs (unat A + 4) (int nla_len - 4) X))"

definition anc_insn :: "bpf_env \<Rightarrow> sk_buff \<Rightarrow> bpf_s \<Rightarrow> u32 \<Rightarrow> u32 \<Rightarrow> u32 group" where
  "anc_insn env skb c A X =
     (let b = base skb
      in case c of
        BPF_S_ANC_PROTOCOL \<Rightarrow> Value (ucast (ntohs (skb_protocol b)))
      | BPF_S_ANC_PKTTYPE \<Rightarrow> Value (ucast (pkt_type b))
      | BPF_S_ANC_IFINDEX \<Rightarrow> (case skb_dev b of None \<Rightarrow> Return_zero | Some d \<Rightarrow> Value (fst d))
      | BPF_S_ANC_MARK \<Rightarrow> Value (skb_mark b)
      | BPF_S_ANC_QUEUE \<Rightarrow> Value (ucast (queue_mapping b))
      | BPF_S_ANC_HATYPE \<Rightarrow> (case skb_dev b of None \<Rightarrow> Return_zero | Some d \<Rightarrow> Value (ucast (snd d)))
      | BPF_S_ANC_RXHASH \<Rightarrow> Value (rxhash b)
      | BPF_S_ANC_CPU \<Rightarrow> Value (processor_id env)
      | BPF_S_ANC_NLATTR \<Rightarrow> anc_nlattr skb A X
      | BPF_S_ANC_NLATTR_NEST \<Rightarrow> anc_nlattr_nest skb A X
      | _ \<Rightarrow> Other)"

text \<open>One round of the switch.\<close>

definition run_insn :: "bpf_env \<Rightarrow> sk_buff \<Rightarrow> bpf_s sock_filter \<Rightarrow> bpf_regs \<Rightarrow> bpf_outcome" where
  "run_insn env skb f r =
     (let set_acc = (\<lambda>g otherwise. case g of
            Value v \<Rightarrow> Running (r\<lparr>acc := v\<rparr>)
          | Return_zero \<Rightarrow> Done 0
          | Wild \<Rightarrow> Undefined
          | Other \<Rightarrow> otherwise)
      in set_acc (alu_insn env (insn_code f) (acc r) (idx r) (insn_k f))
        (case jump_insn f (acc r) (idx r) of
           Value n \<Rightarrow> Running (r\<lparr>insn_pc := insn_pc r + n\<rparr>)
         | _ \<Rightarrow>
             (case mem_insn skb (insn_code f) (insn_k f) r of
                Some out \<Rightarrow> out
              | None \<Rightarrow> set_acc (anc_insn env skb (insn_code f) (acc r) (idx r)) (Done 0))))"

text \<open>
  The program counter only grows, so the loop ends; behind the program there is no instruction
  to read.
\<close>

lemma run_insn_pc: "run_insn env skb f r = Running r' \<Longrightarrow> insn_pc r \<le> insn_pc r'"
  by (auto simp: run_insn_def mem_insn_def Let_def split: group.splits bpf_s.splits option.splits if_splits)

function run_from :: "bpf_env \<Rightarrow> sk_buff \<Rightarrow> bpf_s sock_filter list \<Rightarrow> bpf_regs \<Rightarrow> bpf_outcome" where
  "run_from env skb prog r =
     (if insn_pc r < length prog
      then case run_insn env skb (prog ! insn_pc r) r of
        Running r' \<Rightarrow> run_from env skb prog (r'\<lparr>insn_pc := insn_pc r' + 1\<rparr>)
      | Done v \<Rightarrow> Done v
      | Undefined \<Rightarrow> Undefined
      else Undefined)"
  by pat_completeness auto
termination
  by (relation "measure (\<lambda>(env, skb, prog, r). length prog - insn_pc r)") (auto dest!: run_insn_pc)

declare run_from.simps [simp del]

definition sk_run_filter :: "bpf_env \<Rightarrow> sk_buff \<Rightarrow> bpf_s sock_filter list \<Rightarrow> bpf_outcome" where
  "sk_run_filter env skb fentry =
     run_from env skb fentry \<lparr>acc = 0, idx = 0, scratch = replicate BPF_MEMWORDS None, insn_pc = 0\<rparr>"

section \<open>The checker\<close>

text \<open>
  \<open>cells\<close> is the bit mask \<^verbatim>\<open>memvalid\<close>.  The loop of \<^verbatim>\<open>check_load_and_stores\<close> walks the program with
  the masks of the instructions still to come.
\<close>

fun check_cells ::
  "bpf_s sock_filter list \<Rightarrow> nat \<Rightarrow> u16 list \<Rightarrow> u16 \<Rightarrow> unit kresult" where
  "check_cells [] pc masks memvalid = Ok"
| "check_cells (f # rest) pc masks memvalid =
     (let valid = memvalid AND masks ! pc;
          narrow = (\<lambda>ms n. ms[pc + 1 + n := ms ! (pc + 1 + n) AND valid]);
          branch = check_cells rest (pc + 1) (narrow (narrow masks (unat (jt f))) (unat (jf f))) (NOT 0);
          store = check_cells rest (pc + 1) masks (valid OR push_bit (unat (insn_k f)) 1);
          load = (if valid AND push_bit (unat (insn_k f)) 1 = 0 then Inl EINVAL
                  else check_cells rest (pc + 1) masks valid)
      in case insn_code f of
        BPF_S_ST \<Rightarrow> store
      | BPF_S_STX \<Rightarrow> store
      | BPF_S_LD_MEM \<Rightarrow> load
      | BPF_S_LDX_MEM \<Rightarrow> load
      | BPF_S_JMP_JA \<Rightarrow> check_cells rest (pc + 1) (narrow masks (unat (insn_k f))) (NOT 0)
      | BPF_S_JMP_JEQ_K \<Rightarrow> branch
      | BPF_S_JMP_JEQ_X \<Rightarrow> branch
      | BPF_S_JMP_JGE_K \<Rightarrow> branch
      | BPF_S_JMP_JGE_X \<Rightarrow> branch
      | BPF_S_JMP_JGT_K \<Rightarrow> branch
      | BPF_S_JMP_JGT_X \<Rightarrow> branch
      | BPF_S_JMP_JSET_X \<Rightarrow> branch
      | BPF_S_JMP_JSET_K \<Rightarrow> branch
      | _ \<Rightarrow> check_cells rest (pc + 1) masks valid)"

definition check_load_and_stores :: "bool \<Rightarrow> bpf_s sock_filter list \<Rightarrow> unit kresult" where
  "check_load_and_stores have_memory insns =
     (if \<not> have_memory then Inl ENOMEM
      else check_cells insns 0 (replicate (length insns) (NOT 0)) 0)"

definition ancillary :: "bpf_s \<Rightarrow> u32 \<Rightarrow> bpf_s" where
  "ancillary code k =
     (let ad = (\<lambda>n. word_of_int (SKF_AD_OFF + n))
      in if k = ad 0 then BPF_S_ANC_PROTOCOL
         else if k = ad 4 then BPF_S_ANC_PKTTYPE
         else if k = ad 8 then BPF_S_ANC_IFINDEX
         else if k = ad 12 then BPF_S_ANC_NLATTR
         else if k = ad 16 then BPF_S_ANC_NLATTR_NEST
         else if k = ad 20 then BPF_S_ANC_MARK
         else if k = ad 24 then BPF_S_ANC_QUEUE
         else if k = ad 28 then BPF_S_ANC_HATYPE
         else if k = ad 32 then BPF_S_ANC_RXHASH
         else if k = ad 36 then BPF_S_ANC_CPU
         else code)"

definition chk_insn :: "nat \<Rightarrow> nat \<Rightarrow> u16 sock_filter \<Rightarrow> bpf_s sock_filter kresult" where
  "chk_insn flen pc ftest =
     (case map_of codes (insn_code ftest) of
        None \<Rightarrow> Inl EINVAL
      | Some code \<Rightarrow>
          (let put = (\<lambda>c k. Inr \<lparr>insn_code = c, jt = jt ftest, jf = jf ftest, insn_k = k\<rparr>);
               k = insn_k ftest;
               cell = (if unat k \<ge> BPF_MEMWORDS then Inl EINVAL else put code k);
               branch = (if pc + unat (jt ftest) + 1 \<ge> flen \<or> pc + unat (jf ftest) + 1 \<ge> flen
                         then Inl EINVAL else put code k)
           in case code of
                BPF_S_ALU_DIV_K \<Rightarrow> if k = 0 then Inl EINVAL else put code (reciprocal_value k)
              | BPF_S_LD_MEM \<Rightarrow> cell
              | BPF_S_LDX_MEM \<Rightarrow> cell
              | BPF_S_ST \<Rightarrow> cell
              | BPF_S_STX \<Rightarrow> cell
              | BPF_S_JMP_JA \<Rightarrow> if unat k \<ge> flen - pc - 1 then Inl EINVAL else put code k
              | BPF_S_JMP_JEQ_K \<Rightarrow> branch
              | BPF_S_JMP_JEQ_X \<Rightarrow> branch
              | BPF_S_JMP_JGE_K \<Rightarrow> branch
              | BPF_S_JMP_JGE_X \<Rightarrow> branch
              | BPF_S_JMP_JGT_K \<Rightarrow> branch
              | BPF_S_JMP_JGT_X \<Rightarrow> branch
              | BPF_S_JMP_JSET_X \<Rightarrow> branch
              | BPF_S_JMP_JSET_K \<Rightarrow> branch
              | BPF_S_LD_W_ABS \<Rightarrow> put (ancillary code k) k
              | BPF_S_LD_H_ABS \<Rightarrow> put (ancillary code k) k
              | BPF_S_LD_B_ABS \<Rightarrow> put (ancillary code k) k
              | _ \<Rightarrow> put code k))"

fun chk_loop :: "nat \<Rightarrow> nat \<Rightarrow> u16 sock_filter list \<Rightarrow> bpf_s sock_filter list kresult" where
  "chk_loop flen pc [] = Inr []"
| "chk_loop flen pc (ftest # rest) =
     (case chk_insn flen pc ftest of
        Inl e \<Rightarrow> Inl e
      | Inr f \<Rightarrow>
          (case chk_loop flen (pc + 1) rest of Inl e \<Rightarrow> Inl e | Inr fs \<Rightarrow> Inr (f # fs)))"

text \<open>The checked program, which C leaves in the buffer the unchecked one was in.\<close>

definition sk_chk_filter :: "bool \<Rightarrow> u16 sock_filter list \<Rightarrow> bpf_s sock_filter list kresult" where
  "sk_chk_filter have_memory insns =
     (let flen = length insns
      in if flen = 0 \<or> flen > BPF_MAXINSNS then Inl EINVAL
         else case chk_loop flen 0 insns of
           Inl e \<Rightarrow> Inl e
         | Inr prog \<Rightarrow>
             if insn_code (prog ! (flen - 1)) = BPF_S_RET_K \<or> insn_code (prog ! (flen - 1)) = BPF_S_RET_A
             then (case check_load_and_stores have_memory prog of Inl e \<Rightarrow> Inl e | Inr _ \<Rightarrow> Inr prog)
             else Inl EINVAL)"

section \<open>Filters of sockets\<close>

record sk_prog =
  refcnt :: int
  prog_insns :: "bpf_s sock_filter list"

record sock =
  sk_filter_ptr :: "sk_prog option"
  sk_omem_alloc :: int

text \<open>
  The program a user passes: its length, and the instructions that can be read at the pointer,
  \<open>None\<close> for a NULL pointer.
\<close>

record sock_fprog =
  fprog_len :: nat
  fprog_filter :: "u16 sock_filter list option"

abbreviation (input) sizeof_sk_filter :: int where "sizeof_sk_filter \<equiv> 20"

definition sk_filter_len :: "nat \<Rightarrow> int" where
  "sk_filter_len n = int n * 8 + sizeof_sk_filter"

definition sock_kmalloc :: "int \<Rightarrow> bool \<Rightarrow> sock \<Rightarrow> int \<Rightarrow> sock option" where
  "sock_kmalloc optmem_max have_memory sk n =
     (if n \<le> optmem_max \<and> sk_omem_alloc sk + n < optmem_max \<and> have_memory
      then Some (sk\<lparr>sk_omem_alloc := sk_omem_alloc sk + n\<rparr>) else None)"

definition sk_filter_release :: "sk_prog \<Rightarrow> sk_prog option" where
  "sk_filter_release fp = (if refcnt fp - 1 = 0 then None else Some (fp\<lparr>refcnt := refcnt fp - 1\<rparr>))"

text \<open>What is left of the filter besides the socket: \<open>None\<close> when it is freed.\<close>

definition sk_filter_uncharge :: "sock \<Rightarrow> sk_prog \<Rightarrow> sock \<times> sk_prog option" where
  "sk_filter_uncharge sk fp =
     (sk\<lparr>sk_omem_alloc := sk_omem_alloc sk - sk_filter_len (length (prog_insns fp))\<rparr>, sk_filter_release fp)"

definition sk_attach_filter ::
  "int \<Rightarrow> bool \<Rightarrow> bool \<Rightarrow> sock_fprog \<Rightarrow> sock \<Rightarrow> unit kresult \<times> sock" where
  "sk_attach_filter optmem_max have_memory have_masks fprog sk =
     (let fsize = sk_filter_len (fprog_len fprog)
      in case fprog_filter fprog of
        None \<Rightarrow> (Inl EINVAL, sk)
      | Some user \<Rightarrow>
          (case sock_kmalloc optmem_max have_memory sk fsize of
             None \<Rightarrow> (Inl ENOMEM, sk)
           | Some sk1 \<Rightarrow>
               (if length user < fprog_len fprog
                then (Inl EFAULT, sk1\<lparr>sk_omem_alloc := sk_omem_alloc sk1 - fsize\<rparr>)
                else (case sk_chk_filter have_masks (take (fprog_len fprog) user) of
                       Inl e \<Rightarrow> (Inl e, sk1\<lparr>sk_omem_alloc := sk_omem_alloc sk1 - fsize\<rparr>)
                     | Inr prog \<Rightarrow>
                         (let fp = \<lparr>refcnt = 1, prog_insns = prog\<rparr>;
                              old_fp = sk_filter_ptr sk1;
                              sk2 = sk1\<lparr>sk_filter_ptr := Some fp\<rparr>
                          in case old_fp of
                               None \<Rightarrow> (Ok, sk2)
                             | Some old \<Rightarrow> (Ok, fst (sk_filter_uncharge sk2 old)))))))"

definition sk_detach_filter :: "sock \<Rightarrow> unit kresult \<times> sock" where
  "sk_detach_filter sk =
     (case sk_filter_ptr sk of
        None \<Rightarrow> (Inl ENOENT, sk)
      | Some fp \<Rightarrow> (Ok, fst (sk_filter_uncharge (sk\<lparr>sk_filter_ptr := None\<rparr>) fp)))"

text \<open>
  \<open>security\<close> is the verdict of the security module on the packet.  The outer \<open>None\<close> is an
  undefined run of the filter; otherwise the packet as it is delivered, or the error.
\<close>

definition sk_filter ::
  "bpf_env \<Rightarrow> unit kresult \<Rightarrow> bool \<Rightarrow> sock \<Rightarrow> sk_buff \<Rightarrow> sk_buff kresult option" where
  "sk_filter env security have_memory sk skb =
     (case security of
        Inl e \<Rightarrow> Some (Inl e)
      | Inr _ \<Rightarrow>
          (case sk_filter_ptr sk of
             None \<Rightarrow> Some (Inr skb)
           | Some fp \<Rightarrow>
               (case sk_run_filter env skb (prog_insns fp) of
                  Done len \<Rightarrow>
                    if len \<noteq> 0 then Some (pskb_trim have_memory skb (unat len)) else Some (Inl EPERM)
                | _ \<Rightarrow> None)))"

section \<open>What the checker guarantees\<close>

definition is_store :: "bpf_s \<Rightarrow> bool" where
  "is_store c \<longleftrightarrow> c = BPF_S_ST \<or> c = BPF_S_STX"

definition is_load :: "bpf_s \<Rightarrow> bool" where
  "is_load c \<longleftrightarrow> c = BPF_S_LD_MEM \<or> c = BPF_S_LDX_MEM"

definition is_branch :: "bpf_s \<Rightarrow> bool" where
  "is_branch c \<longleftrightarrow> c = BPF_S_JMP_JEQ_K \<or> c = BPF_S_JMP_JEQ_X \<or> c = BPF_S_JMP_JGE_K \<or> c = BPF_S_JMP_JGE_X \<or>
     c = BPF_S_JMP_JGT_K \<or> c = BPF_S_JMP_JGT_X \<or> c = BPF_S_JMP_JSET_X \<or> c = BPF_S_JMP_JSET_K"

definition is_ret :: "bpf_s \<Rightarrow> bool" where
  "is_ret c \<longleftrightarrow> c = BPF_S_RET_K \<or> c = BPF_S_RET_A"

lemmas bpf_kinds = is_store_def is_load_def is_branch_def is_ret_def

lemma check_cells_Cons:
  "check_cells (f # rest) pc masks memvalid =
     (let valid = memvalid AND masks ! pc;
          narrow = (\<lambda>ms n. ms[pc + 1 + n := ms ! (pc + 1 + n) AND valid]);
          c = insn_code f
      in if is_store c then check_cells rest (pc + 1) masks (valid OR push_bit (unat (insn_k f)) 1)
         else if is_load c
         then if valid AND push_bit (unat (insn_k f)) 1 = 0 then Inl EINVAL
              else check_cells rest (pc + 1) masks valid
         else if c = BPF_S_JMP_JA then check_cells rest (pc + 1) (narrow masks (unat (insn_k f))) (NOT 0)
         else if is_branch c
         then check_cells rest (pc + 1) (narrow (narrow masks (unat (jt f))) (unat (jf f))) (NOT 0)
         else check_cells rest (pc + 1) masks valid)"
  by (cases "insn_code f") (simp_all add: bpf_kinds Let_def)

declare check_cells.simps(2) [simp del]

text \<open>The instructions a program may continue with, and how one instruction uses the cells.\<close>

definition targets :: "bpf_s sock_filter \<Rightarrow> nat \<Rightarrow> nat set" where
  "targets f pc =
     (if insn_code f = BPF_S_JMP_JA then {pc + 1 + unat (insn_k f)}
      else if is_branch (insn_code f) then {pc + 1 + unat (jt f), pc + 1 + unat (jf f)}
      else if is_ret (insn_code f) then {} else {pc + 1})"

definition cells_after :: "bpf_s sock_filter \<Rightarrow> nat set \<Rightarrow> nat set" where
  "cells_after f v = (if is_store (insn_code f) then insert (unat (insn_k f)) v else v)"

text \<open>
  A labelling of the program with cells that are certainly written before each instruction, as
  the checker computes it.
\<close>

definition cells :: "u16 \<Rightarrow> nat set" where
  "cells w = {i. bit w i}"

definition labelling :: "(nat \<Rightarrow> nat set) \<Rightarrow> bpf_s sock_filter list \<Rightarrow> nat \<Rightarrow> bool" where
  "labelling V prog pc0 \<longleftrightarrow>
     (\<forall>pc. pc0 \<le> pc \<and> pc < length prog \<longrightarrow>
        (is_load (insn_code (prog ! pc)) \<longrightarrow> unat (insn_k (prog ! pc)) \<in> V pc) \<and>
        (\<forall>t \<in> targets (prog ! pc) pc. V t \<subseteq> cells_after (prog ! pc) (V pc)))"

text \<open>Every jump stays inside the program.\<close>

definition in_range :: "bpf_s sock_filter list \<Rightarrow> nat \<Rightarrow> bool" where
  "in_range prog pc \<longleftrightarrow>
     (let f = prog ! pc
      in (is_store (insn_code f) \<or> is_load (insn_code f) \<longrightarrow> unat (insn_k f) < 16) \<and>
         (insn_code f = BPF_S_JMP_JA \<longrightarrow> pc + 1 + unat (insn_k f) < length prog) \<and>
         (is_branch (insn_code f) \<longrightarrow> pc + 1 + unat (jt f) < length prog \<and> pc + 1 + unat (jf f) < length prog))"

lemma cells_and [simp]: "cells (a AND b) = cells a \<inter> cells b"
  by (auto simp: cells_def bit_simps)

lemma cells_or [simp]: "cells (a OR b) = cells a \<union> cells b"
  by (auto simp: cells_def bit_simps)

lemma cells_bit [simp]: "n < 16 \<Longrightarrow> cells (2 ^ n) = {n}"
  by (auto simp: cells_def bit_simps)

lemma cells_load: "n < 16 \<Longrightarrow> w AND 2 ^ n = 0 \<longleftrightarrow> n \<notin> cells w"
  using and_exp_eq_0_iff_not_bit [of w n] by (simp add: cells_def)

lemma targets_ahead: "t \<in> targets f pc \<Longrightarrow> pc < t"
  by (auto simp: targets_def split: if_splits)

text \<open>What the labelling of the rest of a program has to satisfy, and how it is extended by one
  instruction.\<close>

definition labels_from :: "(nat \<Rightarrow> nat set) \<Rightarrow> bpf_s sock_filter list \<Rightarrow> nat \<Rightarrow> u16 list \<Rightarrow> u16 \<Rightarrow> bool" where
  "labels_from V prog pc masks memvalid \<longleftrightarrow>
     (pc < length prog \<longrightarrow> V pc = cells memvalid \<inter> cells (masks ! pc)) \<and>
     (\<forall>j. pc \<le> j \<and> j < length prog \<longrightarrow> V j \<subseteq> cells (masks ! j)) \<and>
     (\<forall>j. length prog \<le> j \<longrightarrow> V j = {}) \<and> labelling V prog pc"

lemma labels_step:
  assumes V: "labels_from V prog (pc + 1) masks' memvalid'" and lt: "pc < length prog"
    and mono: "\<And>j. pc < j \<Longrightarrow> j < length prog \<Longrightarrow> cells (masks' ! j) \<subseteq> cells (masks ! j)"
    and load: "is_load (insn_code (prog ! pc)) \<Longrightarrow> unat (insn_k (prog ! pc)) \<in> cells memvalid \<inter> cells (masks ! pc)"
    and jump: "\<And>t. t \<in> targets (prog ! pc) pc \<Longrightarrow> t < length prog \<Longrightarrow>
      cells (masks' ! t) \<inter> (if t = pc + 1 then cells memvalid' else UNIV)
        \<subseteq> cells_after (prog ! pc) (cells memvalid \<inter> cells (masks ! pc))"
  shows "\<exists>V. labels_from V prog pc masks memvalid"
proof -
  let ?v = "cells memvalid \<inter> cells (masks ! pc)"
  have "V t \<subseteq> cells_after (prog ! pc) ?v" if t: "t \<in> targets (prog ! pc) pc" for t
  proof (cases "t < length prog")
    case True
    then have "V t \<subseteq> cells (masks' ! t) \<inter> (if t = pc + 1 then cells memvalid' else UNIV)"
      using V targets_ahead [OF t] by (auto simp: labels_from_def)
    with jump [OF t True] show ?thesis by blast
  next
    case False
    then show ?thesis using V by (simp add: labels_from_def)
  qed
  then have "labelling (V(pc := ?v)) prog pc"
    unfolding labelling_def
  proof (intro allI impI, goal_cases)
    case (1 j)
    have l: "labelling V prog (pc + 1)" using V by (simp add: labels_from_def)
    show ?case
    proof (cases "j = pc")
      case True
      with 1 load show ?thesis by (auto dest: targets_ahead)
    next
      case False
      with 1 have "pc + 1 \<le> j" "j < length prog" by simp_all
      then show ?thesis
        using l by (auto simp: labelling_def dest: targets_ahead)
    qed
  qed
  moreover have "V j \<subseteq> cells (masks ! j)" if "pc < j" "j < length prog" for j
  proof -
    have "V j \<subseteq> cells (masks' ! j)" using V that by (simp add: labels_from_def)
    with mono [OF that] show ?thesis by blast
  qed
  moreover have "V j = {}" if "length prog \<le> j" for j
    using V that by (simp add: labels_from_def)
  ultimately have "labels_from (V(pc := ?v)) prog pc masks memvalid"
    using lt by (simp add: labels_from_def)
  then show ?thesis by blast
qed

text \<open>A jump narrows the mask of its target.\<close>

definition narrow :: "nat set \<Rightarrow> u16 \<Rightarrow> u16 list \<Rightarrow> u16 list" where
  "narrow ts w ms = map (\<lambda>j. if j \<in> ts then ms ! j AND w else ms ! j) [0..<length ms]"

lemma narrow_simps:
  "length (narrow ts w ms) = length ms"
  "j < length ms \<Longrightarrow> narrow ts w ms ! j = (if j \<in> ts then ms ! j AND w else ms ! j)"
  by (simp_all add: narrow_def)

lemma narrow_update: "t < length ms \<Longrightarrow> ms[t := ms ! t AND w] = narrow {t} w ms"
  by (auto simp: narrow_simps list_eq_iff_nth_eq nth_list_update)

lemma narrow_update2:
  "t < length ms \<Longrightarrow> u < length ms \<Longrightarrow>
   (ms[t := ms ! t AND w])[u := ms[t := ms ! t AND w] ! u AND w] = narrow {t, u} w ms"
  by (auto simp: narrow_simps list_eq_iff_nth_eq nth_list_update and.assoc)

lemma check_cells_labels:
  assumes "check_cells rest pc masks memvalid = Ok" and "rest = List.drop pc prog" and "pc \<le> length prog"
    and "length masks = length prog" and "\<forall>i < length prog. in_range prog i"
  shows "\<exists>V. labels_from V prog pc masks memvalid"
  using assms
proof (induction rest arbitrary: pc masks memvalid)
  case Nil
  then show ?case by (intro exI [of _ "\<lambda>_. {}"]) (auto simp: labels_from_def labelling_def)
next
  case (Cons f rest)
  have lt: "pc < length prog"
    using Cons.prems(2) by (metis drop_eq_Nil leI list.distinct(1))
  then have f: "prog ! pc = f" and rest: "rest = List.drop (pc + 1) prog"
    using Cons.prems(2) Cons_nth_drop_Suc [of pc prog] by (metis list.inject Suc_eq_plus1)+
  let ?v = "memvalid AND masks ! pc" and ?c = "insn_code f"
  have rng: "in_range prog pc" using Cons.prems(5) lt by blast
  have IH: "\<exists>V. labels_from V prog (pc + 1) ms mv"
    if "check_cells rest (pc + 1) ms mv = Ok" "length ms = length prog" for ms mv
    using Cons.IH [OF that(1) rest] that(2) lt Cons.prems(5) by simp
  have len: "length masks = length prog" using Cons.prems by simp
  consider (store) "is_store ?c" | (load) "is_load ?c" | (ja) "?c = BPF_S_JMP_JA" | (branch) "is_branch ?c"
    | (plain) "\<not> is_store ?c" "\<not> is_load ?c" "?c \<noteq> BPF_S_JMP_JA" "\<not> is_branch ?c"
    by blast
  then show ?case
  proof cases
    case store
    then have "check_cells rest (pc + 1) masks (?v OR push_bit (unat (insn_k f)) 1) = Ok"
      using Cons.prems(1) by (simp add: check_cells_Cons Let_def)
    from IH [OF this len] obtain V where V: "labels_from V prog (pc + 1) masks (?v OR push_bit (unat (insn_k f)) 1)" ..
    moreover have "unat (insn_k f) < 16" using rng store by (simp add: in_range_def f)
    moreover have "targets f pc = {pc + 1}" "\<not> is_load ?c" using store by (auto simp: targets_def bpf_kinds)
    ultimately show ?thesis
      using store lt by - (rule labels_step [OF V]; auto simp: f cells_after_def)
  next
    case load
    then have "unat (insn_k f) < 16" using rng by (simp add: in_range_def f)
    moreover have ns: "\<not> is_store ?c" using load by (auto simp: bpf_kinds)
    ultimately have "check_cells rest (pc + 1) masks ?v = Ok" and k: "unat (insn_k f) \<in> cells ?v"
      using Cons.prems(1) load cells_load [of "unat (insn_k f)" ?v]
      by (auto simp: check_cells_Cons Let_def simp del: cells_and split: if_splits)
    from IH [OF this(1) len] obtain V where V: "labels_from V prog (pc + 1) masks ?v" ..
    moreover have "targets f pc = {pc + 1}" using load by (auto simp: targets_def bpf_kinds)
    ultimately show ?thesis
      using k lt ns by - (rule labels_step [OF V]; auto simp: f cells_after_def)
  next
    case ja
    let ?t = "pc + 1 + unat (insn_k f)"
    have t: "?t < length masks" using rng ja len by (simp add: in_range_def f)
    have ns: "\<not> is_store ?c" "\<not> is_load ?c" using ja by (auto simp: bpf_kinds)
    then have "check_cells rest (pc + 1) (narrow {?t} ?v masks) (NOT 0) = Ok"
      using Cons.prems(1) ja unfolding narrow_update [OF t, symmetric] by (simp add: check_cells_Cons Let_def)
    from IH [OF this] len obtain V where V: "labels_from V prog (pc + 1) (narrow {?t} ?v masks) (NOT 0)"
      by (auto simp: narrow_simps)
    moreover have "targets f pc = {?t}" using ja by (simp add: targets_def)
    ultimately show ?thesis
      using lt ns len by - (rule labels_step [OF V]; auto simp: f cells_after_def narrow_simps)
  next
    case branch
    let ?t = "pc + 1 + unat (jt f)" and ?u = "pc + 1 + unat (jf f)"
    have t: "?t < length masks" "?u < length masks" using rng branch len by (simp_all add: in_range_def f)
    have ns: "\<not> is_store ?c" "\<not> is_load ?c" "?c \<noteq> BPF_S_JMP_JA" using branch by (auto simp: bpf_kinds)
    then have "check_cells rest (pc + 1) (narrow {?t, ?u} ?v masks) (NOT 0) = Ok"
      using Cons.prems(1) branch unfolding narrow_update2 [OF t, symmetric] by (simp add: check_cells_Cons Let_def)
    from IH [OF this] len obtain V where V: "labels_from V prog (pc + 1) (narrow {?t, ?u} ?v masks) (NOT 0)"
      by (auto simp: narrow_simps)
    moreover have "targets f pc = {?t, ?u}" using branch ns by (simp add: targets_def)
    ultimately show ?thesis
      using lt ns len by - (rule labels_step [OF V]; auto simp: f cells_after_def narrow_simps)
  next
    case plain
    then have "check_cells rest (pc + 1) masks ?v = Ok"
      using Cons.prems(1) by (simp add: check_cells_Cons Let_def)
    from IH [OF this len] obtain V where V: "labels_from V prog (pc + 1) masks ?v" ..
    moreover have "targets f pc \<subseteq> {pc + 1}" using plain by (auto simp: targets_def)
    ultimately show ?thesis
      using lt plain by - (rule labels_step [OF V]; auto simp: f cells_after_def)
  qed
qed

subsection \<open>One instruction\<close>

lemmas insn_defs = run_insn_def alu_insn_def jump_insn_def mem_insn_def anc_insn_def

lemma run_insn_running:
  assumes "run_insn env skb f r = Running r'"
  shows "insn_pc r' + 1 \<in> targets f (insn_pc r)"
    and "if is_store (insn_code f) then \<exists>v. scratch r' = (scratch r)[unat (insn_k f) := Some v]
         else scratch r' = scratch r"
  using assms
  by (cases "insn_code f"; auto simp: insn_defs targets_def bpf_kinds Let_def
      split: option.splits group.splits if_splits)+

lemma run_insn_undefined:
  assumes "run_insn env skb f r = Undefined"
  shows "is_load (insn_code f) \<and> mem_at r (insn_k f) = None \<or>
    is_store (insn_code f) \<and> length (scratch r) \<le> unat (insn_k f) \<or>
    insn_code f = BPF_S_ANC_NLATTR \<and> anc_nlattr skb (acc r) (idx r) = Wild \<or>
    insn_code f = BPF_S_ANC_NLATTR_NEST \<or> (\<exists>k n bs. load_pointer skb k n = Some bs \<and> length bs < n)"
  using assms
  by (cases "insn_code f"; fastforce simp: insn_defs bpf_kinds Let_def split: option.splits group.splits if_splits)

text \<open>A load from a well-formed packet that is not refused stays within its bytes.\<close>

lemma load_pointer_full:
  assumes "skb_ok skb" and "load_pointer skb k n = Some bs"
  shows "length bs = n"
proof (cases "k \<ge> 0")
  case True
  then show ?thesis
    using assms header_pointer_correct [OF assms(1)] len_skb_bytes [OF assms(1)]
    by (auto simp: load_pointer_def split: if_splits)
next
  case False
  then show ?thesis
    using assms(2) by (auto simp: load_pointer_def do_load_pointer_def bytes_at_def Let_def split: if_splits option.splits)
qed

subsection \<open>Searching netlink attributes\<close>

lemma nla_find_safe: "(rem \<ge> 4 \<Longrightarrow> int pos + rem \<le> int (length bs)) \<Longrightarrow> nla_find bs pos rem t \<noteq> None"
proof (induction bs pos rem t rule: nla_find.induct)
  case (1 bs pos rem t)
  show ?case
  proof (cases "rem \<ge> 4")
    case True
    then have b: "pos + 4 \<le> length bs" using "1.prems" by linarith
    then obtain l ty where l: "le16_at bs pos = Some l" and ty: "le16_at bs (pos + 2) = Some ty"
      by (auto simp: le16_at_def)
    show ?thesis
    proof (cases "4 \<le> l \<and> int l \<le> rem")
      case ok: True
      have "nla_find bs (pos + NLA_ALIGN l) (rem - int (NLA_ALIGN l)) t \<noteq> None"
        if "of_nat (ty mod 2 ^ 14) \<noteq> t"
        using "1.IH" [OF True l ok ty that] "1.prems" True by simp
      with True l ty ok show ?thesis
        by (subst nla_find.simps) (simp del: not_None_eq)
    next
      case False
      with True l show ?thesis by (subst nla_find.simps) auto
    qed
  next
    case False
    then show ?thesis by (subst nla_find.simps) simp
  qed
qed

lemma anc_nlattr_safe:
  assumes "skb_ok skb" and "4 \<le> pkt_len skb"
  shows "anc_nlattr skb A X \<noteq> Wild"
proof -
  obtain b fl where skb: "skb = Sk_buff b fl" by (cases skb)
  let ?bs = "List.drop (data_off b) (linear b)" and ?n = "skb_len b" and ?len = "of_nat (skb_len b) :: u32"
  have n: "?n < 2 ^ 31" "4 \<le> ?n" using assms by (auto simp: skb)
  then have un: "unat ?len = ?n" by (simp add: unat_of_nat_small)
  have "nla_find ?bs (unat A) (sint (?len - A)) X \<noteq> None"
    if "\<not> skb_is_nonlinear skb" and "\<not> A > ?len - 4"
  proof (rule nla_find_safe)
    have "skb_data_len b = 0" using that(1) by (simp add: skb skb_is_nonlinear_def)
    moreover have "skb_headlen b = length ?bs" using assms(1) by (simp add: skb)
    ultimately have bs: "length ?bs = ?n" by (simp add: skb_headlen_def)
    have "unat (?len - 4) = ?n - 4"
      using n un by (simp add: unat_sub word_le_nat_alt)
    then have A: "unat A \<le> ?n - 4"
      using that(2) by (simp add: word_less_nat_alt)
    then have "unat (?len - A) = ?n - unat A"
      using un by (simp add: unat_sub word_le_nat_alt)
    moreover have "unat (?len - A) < 2 ^ 31"
      using calculation n by linarith
    then have "sint (?len - A) = int (unat (?len - A))"
      by (simp add: sint_small)
    ultimately show "int (unat A) + sint (?len - A) \<le> int (length ?bs)"
      using A bs n by simp
  qed
  then have "found_at (nla_find ?bs (unat A) (sint (?len - A)) X) \<noteq> Wild"
    if "\<not> skb_is_nonlinear skb" and "\<not> A > ?len - 4"
    using that by (auto simp: found_at_def split: option.split)
  then show ?thesis
    by (cases "skb_is_nonlinear skb"; cases "A > ?len - 4") (simp_all add: anc_nlattr_def skb Let_def)
qed

subsection \<open>Checked programs\<close>

definition is_abs :: "bpf_s \<Rightarrow> bool" where
  "is_abs c \<longleftrightarrow> c = BPF_S_LD_W_ABS \<or> c = BPF_S_LD_H_ABS \<or> c = BPF_S_LD_B_ABS"

lemma ancillary_in:
  "ancillary code k \<in> {code, BPF_S_ANC_PROTOCOL, BPF_S_ANC_PKTTYPE, BPF_S_ANC_IFINDEX, BPF_S_ANC_NLATTR,
     BPF_S_ANC_NLATTR_NEST, BPF_S_ANC_MARK, BPF_S_ANC_QUEUE, BPF_S_ANC_HATYPE, BPF_S_ANC_RXHASH, BPF_S_ANC_CPU}"
  by (simp add: ancillary_def Let_def del: word_of_int_numeral)

lemma ancillary_kinds:
  assumes "is_abs code"
  shows "\<not> is_store (ancillary code k)" "\<not> is_load (ancillary code k)" "\<not> is_branch (ancillary code k)"
    "ancillary code k \<noteq> BPF_S_JMP_JA"
  using ancillary_in [of code k] assms by (auto simp: bpf_kinds is_abs_def)

lemma chk_insn_kinds:
  "chk_insn flen pc ftest =
     (case map_of codes (insn_code ftest) of
        None \<Rightarrow> Inl EINVAL
      | Some code \<Rightarrow>
          (let put = (\<lambda>c k. Inr \<lparr>insn_code = c, jt = jt ftest, jf = jf ftest, insn_k = k\<rparr>); k = insn_k ftest
           in if code = BPF_S_ALU_DIV_K then if k = 0 then Inl EINVAL else put code (reciprocal_value k)
              else if is_load code \<or> is_store code then if unat k \<ge> 16 then Inl EINVAL else put code k
              else if code = BPF_S_JMP_JA then if unat k \<ge> flen - pc - 1 then Inl EINVAL else put code k
              else if is_branch code
              then if pc + unat (jt ftest) + 1 \<ge> flen \<or> pc + unat (jf ftest) + 1 \<ge> flen then Inl EINVAL
                   else put code k
              else if is_abs code then put (ancillary code k) k
              else put code k))"
proof (cases "map_of codes (insn_code ftest)")
  case (Some code)
  then show ?thesis
    by (cases code) (simp_all add: chk_insn_def bpf_kinds is_abs_def Let_def)
qed (simp add: chk_insn_def)

lemma chk_insn_range:
  assumes "chk_insn flen pc ft = Inr f" and "pc < flen"
  shows "is_store (insn_code f) \<or> is_load (insn_code f) \<Longrightarrow> unat (insn_k f) < 16"
    and "insn_code f = BPF_S_JMP_JA \<Longrightarrow> pc + 1 + unat (insn_k f) < flen"
    and "is_branch (insn_code f) \<Longrightarrow> pc + 1 + unat (jt f) < flen \<and> pc + 1 + unat (jf f) < flen"
proof -
  obtain code where c: "map_of codes (insn_code ft) = Some code"
    using assms by (auto simp: chk_insn_def split: option.splits)
  note s = assms(1) [unfolded chk_insn_kinds c option.case Let_def] assms(2)
  consider (div) "code = BPF_S_ALU_DIV_K" | (cell) "is_load code \<or> is_store code" | (ja) "code = BPF_S_JMP_JA"
    | (br) "is_branch code" | (ab) "is_abs code"
    | (plain) "code \<noteq> BPF_S_ALU_DIV_K" "\<not> is_load code" "\<not> is_store code" "code \<noteq> BPF_S_JMP_JA"
        "\<not> is_branch code" "\<not> is_abs code"
    by blast
  then have "(is_store (insn_code f) \<or> is_load (insn_code f) \<longrightarrow> unat (insn_k f) < 16) \<and>
    (insn_code f = BPF_S_JMP_JA \<longrightarrow> pc + 1 + unat (insn_k f) < flen) \<and>
    (is_branch (insn_code f) \<longrightarrow> pc + 1 + unat (jt f) < flen \<and> pc + 1 + unat (jf f) < flen)"
  proof cases
    case div
    then show ?thesis using s by (auto simp: bpf_kinds split: if_splits)
  next
    case cell
    then have "\<not> is_branch code" "code \<noteq> BPF_S_ALU_DIV_K" "code \<noteq> BPF_S_JMP_JA" by (auto simp: bpf_kinds)
    then show ?thesis using s cell by (auto split: if_splits)
  next
    case ja
    then show ?thesis using s by (auto simp: bpf_kinds split: if_splits)
  next
    case br
    then have "\<not> is_load code" "\<not> is_store code" "code \<noteq> BPF_S_ALU_DIV_K" "code \<noteq> BPF_S_JMP_JA"
      by (auto simp: bpf_kinds)
    then show ?thesis using s br by (auto split: if_splits)
  next
    case ab
    then have "\<not> is_load code" "\<not> is_store code" "code \<noteq> BPF_S_ALU_DIV_K" "code \<noteq> BPF_S_JMP_JA" "\<not> is_branch code"
      by (auto simp: bpf_kinds is_abs_def)
    then show ?thesis using s ab ancillary_kinds [OF ab, of "insn_k ft"] by auto
  next
    case plain
    then show ?thesis using s by auto
  qed
  then show "is_store (insn_code f) \<or> is_load (insn_code f) \<Longrightarrow> unat (insn_k f) < 16"
    and "insn_code f = BPF_S_JMP_JA \<Longrightarrow> pc + 1 + unat (insn_k f) < flen"
    and "is_branch (insn_code f) \<Longrightarrow> pc + 1 + unat (jt f) < flen \<and> pc + 1 + unat (jf f) < flen"
    by blast+
qed

lemma chk_loop_insns:
  "chk_loop flen pc raw = Inr prog \<Longrightarrow> length prog = length raw \<and>
     (\<forall>i < length prog. chk_insn flen (pc + i) (raw ! i) = Inr (prog ! i))"
proof (induction raw arbitrary: pc prog)
  case (Cons ft raw)
  then obtain f fs where f: "chk_insn flen pc ft = Inr f" and fs: "chk_loop flen (pc + 1) raw = Inr fs"
    and prog: "prog = f # fs"
    by (auto split: sum.splits)
  from Cons.IH [OF fs] f show ?case
    by (auto simp: prog nth_Cons split: nat.split)
qed simp

lemma chk_filter_facts:
  assumes "sk_chk_filter hm raw = Inr prog"
  obtains V where "prog \<noteq> []" and "\<forall>i < length prog. in_range prog i" and "is_ret (insn_code (last prog))"
    and "labelling V prog 0" and "V 0 = {}"
proof -
  have loop: "chk_loop (length raw) 0 raw = Inr prog" and ne: "raw \<noteq> []"
    and ret: "is_ret (insn_code (prog ! (length raw - 1)))"
    and cells: "check_cells prog 0 (replicate (length prog) (NOT 0)) 0 = Ok"
    using assms by (auto simp: sk_chk_filter_def check_load_and_stores_def is_ret_def Let_def
        split: if_splits sum.splits)
  note insns = chk_loop_insns [OF loop]
  have rng: "\<forall>i < length prog. in_range prog i"
    using insns chk_insn_range by (auto simp: in_range_def Let_def)
  obtain V where V: "labels_from V prog 0 (replicate (length prog) (NOT 0)) 0"
    using check_cells_labels [OF cells, of prog] rng by auto
  have p: "prog \<noteq> []" using ne insns by auto
  then have "V 0 = {}" using V by (simp add: labels_from_def cells_def)
  moreover have "is_ret (insn_code (last prog))"
    using ret p insns by (simp add: last_conv_nth)
  ultimately show ?thesis
    using that p rng V by (auto simp: labels_from_def)
qed

text \<open>A run of a checked program, on a packet that its netlink instructions can cope with.\<close>

definition nlattr_ok :: "sk_buff \<Rightarrow> bpf_s sock_filter list \<Rightarrow> bool" where
  "nlattr_ok skb prog \<longleftrightarrow>
     (\<forall>f \<in> set prog. insn_code f \<noteq> BPF_S_ANC_NLATTR_NEST \<and>
        (insn_code f = BPF_S_ANC_NLATTR \<longrightarrow> 4 \<le> length (skb_bytes skb)))"

lemma ret_not_running: "is_ret (insn_code f) \<Longrightarrow> run_insn env skb f r = Running r' \<Longrightarrow> False"
  by (auto simp: is_ret_def insn_defs Let_def)

lemma run_from_safe:
  assumes rng: "\<forall>i < length prog. in_range prog i" and ret: "is_ret (insn_code (last prog))"
    and lab: "labelling V prog 0" and ok: "skb_ok skb" and nl: "nlattr_ok skb prog"
    and pc: "insn_pc r < length prog" and len: "length (scratch r) = 16"
    and written: "\<forall>i \<in> V (insn_pc r). i < 16 \<longrightarrow> scratch r ! i \<noteq> None"
  shows "\<exists>v. run_from env skb prog r = Done v"
  using pc len written
proof (induction "length prog - insn_pc r" arbitrary: r rule: less_induct)
  case less
  let ?pc = "insn_pc r" and ?f = "prog ! insn_pc r"
  have f: "?f \<in> set prog" and range: "in_range prog ?pc" using less.prems rng by auto
  have loc: "is_load (insn_code ?f) \<Longrightarrow> unat (insn_k ?f) \<in> V ?pc"
    "\<And>t. t \<in> targets ?f ?pc \<Longrightarrow> V t \<subseteq> cells_after ?f (V ?pc)"
    using lab less.prems by (auto simp: labelling_def)
  show ?case
  proof (cases "run_insn env skb ?f r")
    case (Running r')
    note r' = run_insn_running [OF Running]
    have "?pc \<noteq> length prog - 1"
      using Running ret ret_not_running less.prems(1) by (metis last_conv_nth length_0_conv not_less_zero)
    then have lt: "insn_pc r' + 1 < length prog"
      using r'(1) range less.prems(1) by (auto simp: targets_def in_range_def Let_def split: if_splits)
    have more: "?pc < insn_pc r' + 1" using r'(1) by (rule targets_ahead)
    have "length (scratch r') = 16"
      using r'(2) less.prems(2) by (auto split: if_splits)
    moreover have "scratch r' ! i \<noteq> None" if "i \<in> V (insn_pc r' + 1)" "i < 16" for i
    proof (cases "is_store (insn_code ?f) \<and> i = unat (insn_k ?f)")
      case True
      then show ?thesis using r'(2) that(2) less.prems(2) by auto
    next
      case False
      then have "i \<in> V ?pc" and "scratch r' ! i = scratch r ! i"
        using r'(2) loc(2) [OF r'(1)] that(1) by (auto simp: cells_after_def split: if_splits)
      then show ?thesis using less.prems(3) that(2) by simp
    qed
    ultimately have "\<exists>v. run_from env skb prog (r'\<lparr>insn_pc := insn_pc r' + 1\<rparr>) = Done v"
      using less.hyps [of "r'\<lparr>insn_pc := insn_pc r' + 1\<rparr>"] lt more less.prems(1) by simp
    then show ?thesis
      using Running less.prems(1) by (subst run_from.simps) simp
  next
    case (Done v)
    then show ?thesis using less.prems(1) by (subst run_from.simps) simp
  next
    case Undefined
    have "4 \<le> pkt_len skb" if "insn_code ?f = BPF_S_ANC_NLATTR"
      using nl f that len_skb_bytes [OF ok] by (auto simp: nlattr_ok_def)
    then have "is_load (insn_code ?f) \<and> mem_at r (insn_k ?f) = None \<or>
      is_store (insn_code ?f) \<and> length (scratch r) \<le> unat (insn_k ?f)"
      using run_insn_undefined [OF Undefined] anc_nlattr_safe [OF ok] load_pointer_full [OF ok] nl f
      by (auto simp: nlattr_ok_def)
    then have False
      using range less.prems loc(1) by (auto simp: in_range_def Let_def mem_at_def split: if_splits)
    then show ?thesis ..
  qed
qed

lemma run_filter_safe:
  assumes "sk_chk_filter hm raw = Inr prog" and "skb_ok skb" and "nlattr_ok skb prog"
  shows "\<exists>v. sk_run_filter env skb prog = Done v"
proof -
  obtain V where V: "prog \<noteq> []" "\<forall>i < length prog. in_range prog i"
    "is_ret (insn_code (last prog))" "labelling V prog 0" "V 0 = {}"
    by (rule chk_filter_facts [OF assms(1)])
  show ?thesis
    unfolding sk_run_filter_def
    by (rule run_from_safe [OF V(2-4) assms(2,3)]) (use V(1,5) in simp_all)
qed

section \<open>Sockets\<close>

inductive sock_step :: "sock \<Rightarrow> sock \<Rightarrow> bool" where
  attach: "sk_attach_filter optmem_max have_memory have_masks fprog sk = (res, sk') \<Longrightarrow> sock_step sk sk'"
| detach: "sk_detach_filter sk = (res, sk') \<Longrightarrow> sock_step sk sk'"

inductive_simps sock_step_iff: "sock_step sk sk'"

definition filter_charge :: "sock \<Rightarrow> int" where
  "filter_charge sk = (case sk_filter_ptr sk of None \<Rightarrow> 0 | Some fp \<Rightarrow> sk_filter_len (length (prog_insns fp)))"

definition sock_inv :: "int \<Rightarrow> sock \<Rightarrow> bool" where
  "sock_inv omem sk \<longleftrightarrow> sk_omem_alloc sk = omem + filter_charge sk \<and>
     (\<forall>fp. sk_filter_ptr sk = Some fp \<longrightarrow> (\<exists>hm raw. sk_chk_filter hm raw = Inr (prog_insns fp)))"

lemma chk_filter_length: "sk_chk_filter hm raw = Inr prog \<Longrightarrow> length prog = length raw"
  using chk_loop_insns by (auto simp: sk_chk_filter_def Let_def split: if_splits sum.splits)

lemma detach_inv: "sock_inv omem sk \<Longrightarrow> sk_detach_filter sk = (res, sk') \<Longrightarrow> sock_inv omem sk'"
  by (auto simp: sock_inv_def sk_detach_filter_def sk_filter_uncharge_def filter_charge_def split: option.splits)

lemma attach_cases:
  assumes "sk_attach_filter optmem_max have_memory have_masks fprog sk = (res, sk')"
  obtains (failed) "sk' = sk"
    | (installed) raw prog where "sk_chk_filter have_masks raw = Inr prog"
        "sk_filter_ptr sk' = Some \<lparr>refcnt = 1, prog_insns = prog\<rparr>"
        "sk_omem_alloc sk' = sk_omem_alloc sk - filter_charge sk + sk_filter_len (length prog)"
proof -
  let ?n = "fprog_len fprog"
  consider "fprog_filter fprog = None"
    | user where "fprog_filter fprog = Some user" "sock_kmalloc optmem_max have_memory sk (sk_filter_len ?n) = None"
    | user sk1 where "fprog_filter fprog = Some user" "sock_kmalloc optmem_max have_memory sk (sk_filter_len ?n) = Some sk1"
    by (meson option.exhaust)
  then show ?thesis
  proof cases
    case 1
    then show ?thesis using assms failed by (simp add: sk_attach_filter_def)
  next
    case 2
    then show ?thesis using assms failed by (simp add: sk_attach_filter_def)
  next
    case 3
    then have sk1: "sk1 = sk\<lparr>sk_omem_alloc := sk_omem_alloc sk + sk_filter_len ?n\<rparr>"
      by (auto simp: sock_kmalloc_def split: if_splits)
    show ?thesis
    proof (cases "length user < ?n \<or> (\<exists>e. sk_chk_filter have_masks (take ?n user) = Inl e)")
      case True
      then have "sk' = sk" using assms 3 sk1 by (auto simp: sk_attach_filter_def Let_def split: if_splits)
      then show ?thesis by (rule failed)
    next
      case False
      then obtain prog where chk: "sk_chk_filter have_masks (take ?n user) = Inr prog"
        by (meson sum.exhaust)
      then have "length prog = ?n" using False chk_filter_length by fastforce
      then show ?thesis
        using assms 3 sk1 False chk
        by (intro installed [OF chk]) (auto simp: sk_attach_filter_def Let_def filter_charge_def
            sk_filter_uncharge_def split: option.splits)
    qed
  qed
qed

lemma attach_inv:
  assumes "sock_inv omem sk" and "sk_attach_filter om hm hk fprog sk = (res, sk')"
  shows "sock_inv omem sk'"
  using assms(2)
proof (cases rule: attach_cases)
  case failed
  with assms(1) show ?thesis by simp
next
  case (installed raw prog)
  with assms(1) show ?thesis by (auto simp: sock_inv_def filter_charge_def)
qed

lemma sock_step_inv: "sock_inv omem sk \<Longrightarrow> sock_step sk sk' \<Longrightarrow> sock_inv omem sk'"
  by (auto simp: sock_step_iff intro: attach_inv detach_inv)

lemma sock_inv_start: "sock_inv omem \<lparr>sk_filter_ptr = None, sk_omem_alloc = omem\<rparr>"
  by (simp add: sock_inv_def filter_charge_def)

interpretation so: invariant_system "\<lambda>sk. sk = \<lparr>sk_filter_ptr = None, sk_omem_alloc = omem\<rparr>" sock_step
  "sock_inv omem" for omem
  by unfold_locales (simp_all add: sock_inv_start sock_step_inv)

section \<open>Properties\<close>

text \<open>
  C9: a program that \<^verbatim>\<open>sk_chk_filter\<close> accepts and that does not search netlink attributes always returns: on
  every well-formed packet \<^verbatim>\<open>sk_run_filter\<close> ends with a value, never runs past the program, never reads a scratch
  cell that it has not written, and no load of packet bytes, by offset or relative to the network or link
  header, leaves the bytes between \<^verbatim>\<open>skb->head\<close> and the tail pointer.  The search for a netlink
  attribute is covered for packets of at least four bytes; on shorter ones, and in the nested
  search, accepted programs do read outside the packet (last section).
\<close>

theorem bpf_checked_program_safe:
  assumes "sk_chk_filter have_memory raw = Inr prog" and "skb_ok skb"
    and "\<forall>f \<in> set prog. insn_code f \<noteq> BPF_S_ANC_NLATTR_NEST \<and>
           (insn_code f = BPF_S_ANC_NLATTR \<longrightarrow> 4 \<le> length (skb_bytes skb))"
  shows "\<exists>v. sk_run_filter env skb prog = Done v"
  using run_filter_safe [OF assms(1,2)] assms(3) by (simp add: nlattr_ok_def)

text \<open>Keep three bytes of a packet whose second byte is 2, using a scratch cell.\<close>

definition demo_raw :: "u16 sock_filter list" where
  "demo_raw =
     [\<lparr>insn_code = BPF_LD OR BPF_B OR BPF_ABS, jt = 0, jf = 0, insn_k = 1\<rparr>,
      \<lparr>insn_code = BPF_ST, jt = 0, jf = 0, insn_k = 5\<rparr>,
      \<lparr>insn_code = BPF_LD OR BPF_MEM, jt = 0, jf = 0, insn_k = 5\<rparr>,
      \<lparr>insn_code = BPF_JMP OR BPF_JEQ OR BPF_K, jt = 0, jf = 1, insn_k = 2\<rparr>,
      \<lparr>insn_code = BPF_RET OR BPF_K, jt = 0, jf = 0, insn_k = 3\<rparr>,
      \<lparr>insn_code = BPF_RET OR BPF_K, jt = 0, jf = 0, insn_k = 0\<rparr>]"

definition demo_prog :: "bpf_s sock_filter list" where
  "demo_prog =
     [\<lparr>insn_code = BPF_S_LD_B_ABS, jt = 0, jf = 0, insn_k = 1\<rparr>,
      \<lparr>insn_code = BPF_S_ST, jt = 0, jf = 0, insn_k = 5\<rparr>,
      \<lparr>insn_code = BPF_S_LD_MEM, jt = 0, jf = 0, insn_k = 5\<rparr>,
      \<lparr>insn_code = BPF_S_JMP_JEQ_K, jt = 0, jf = 1, insn_k = 2\<rparr>,
      \<lparr>insn_code = BPF_S_RET_K, jt = 0, jf = 0, insn_k = 3\<rparr>,
      \<lparr>insn_code = BPF_S_RET_K, jt = 0, jf = 0, insn_k = 0\<rparr>]"

definition demo_env :: bpf_env where
  "demo_env = \<lparr>processor_id = 0, wide_lsh = (\<lambda>_ _. 0), wide_rsh = (\<lambda>_ _. 0)\<rparr>"

lemmas chk_defs = sk_chk_filter_def check_load_and_stores_def chk_insn_def codes_def ancillary_def
  check_cells_Cons bpf_kinds

lemma demo_checked: "sk_chk_filter True demo_raw = Inr demo_prog"
  by (simp add: demo_raw_def demo_prog_def chk_defs Let_def)

theorem bpf_checked_program_safe_witness: "\<exists>v. sk_run_filter demo_env demo_skb demo_prog = Done v"
  by (rule bpf_checked_program_safe [OF demo_checked demo_skb_ok]) (simp add: demo_prog_def)

text \<open>
  The absolute loads see the packet as one sequence of bytes, in network order, however it is
  fragmented; a load beyond its end makes the filter return 0.
\<close>

theorem bpf_load_exact:
  assumes "skb_ok skb" and "unat (insn_k f) < 2 ^ 31"
    and "insn_code f = BPF_S_LD_W_ABS \<and> n = 4 \<or> insn_code f = BPF_S_LD_H_ABS \<and> n = 2 \<or>
         insn_code f = BPF_S_LD_B_ABS \<and> n = 1"
  shows "run_insn env skb f r =
    (if unat (insn_k f) + n \<le> length (skb_bytes skb)
     then Running (r\<lparr>acc := be_value (take n (List.drop (unat (insn_k f)) (skb_bytes skb)))\<rparr>)
     else Done 0)"
proof -
  have "sint (insn_k f) = int (unat (insn_k f))"
    using assms(2) by (simp add: sint_small)
  then have "load_pointer skb (sint (insn_k f)) n =
    (if unat (insn_k f) + n \<le> length (skb_bytes skb)
     then Some (take n (List.drop (unat (insn_k f)) (skb_bytes skb))) else None)"
    using header_pointer_correct [OF assms(1)] len_skb_bytes [OF assms(1)] by (simp add: load_pointer_def)
  with assms(3) show ?thesis
    by (elim disjE conjE) (simp_all add: insn_defs Let_def)
qed

theorem bpf_load_exact_witness:
  "run_insn demo_env demo_skb \<lparr>insn_code = BPF_S_LD_H_ABS, jt = 0, jf = 0, insn_k = 1\<rparr>
     \<lparr>acc = 0, idx = 0, scratch = [], insn_pc = 0\<rparr> =
   Running \<lparr>acc = 515, idx = 0, scratch = [], insn_pc = 0\<rparr>"
  using bpf_load_exact [OF demo_skb_ok, of "\<lparr>insn_code = BPF_S_LD_H_ABS, jt = 0, jf = 0, insn_k = 1\<rparr>" 2]
  by (simp add: demo_skb_bytes be_value_def push_bit_eq_mult)

text \<open>
  Attaching and detaching filters keeps the books: in every reachable state of a socket its
  option memory is what it was at first plus the charge for the filter now attached, after
  failed attempts as well.
\<close>

theorem sock_omem_exact:
  assumes "sock_step\<^sup>*\<^sup>* \<lparr>sk_filter_ptr = None, sk_omem_alloc = omem\<rparr> sk"
  shows "sk_omem_alloc sk =
    omem + (case sk_filter_ptr sk of None \<Rightarrow> 0 | Some fp \<Rightarrow> 8 * int (length (prog_insns fp)) + 20)"
  using so.inv_reachable [OF refl assms]
  by (auto simp: sock_inv_def filter_charge_def sk_filter_len_def split: option.split)

text \<open>
  C10: what a socket receives.  In every reachable state of a socket the security module's refusal is
  passed on; otherwise a socket without filter receives the whole packet, and a filter that does not search netlink
  attributes (or does so only in packets of at least four bytes, and never in nested ones) returns a
  value \<open>v\<close>: \<^verbatim>\<open>sk_filter\<close> rejects the packet with \<open>EPERM\<close> if \<open>v = 0\<close> and delivers exactly its first \<open>v\<close>
  bytes, or all if there are fewer, if \<open>v \<noteq> 0\<close>, unless memory is short, which gives \<open>ENOMEM\<close>.
\<close>

theorem sock_filter_delivers:
  assumes "sock_step\<^sup>*\<^sup>* \<lparr>sk_filter_ptr = None, sk_omem_alloc = omem\<rparr> sk" and "skb_ok skb"
    and "\<forall>fp f. sk_filter_ptr sk = Some fp \<and> f \<in> set (prog_insns fp) \<longrightarrow>
      insn_code f \<noteq> BPF_S_ANC_NLATTR_NEST \<and> (insn_code f = BPF_S_ANC_NLATTR \<longrightarrow> 4 \<le> length (skb_bytes skb))"
  shows "case security of
      Inl e \<Rightarrow> sk_filter env security have_memory sk skb = Some (Inl e)
    | Inr _ \<Rightarrow>
       (case sk_filter_ptr sk of
          None \<Rightarrow> sk_filter env security have_memory sk skb = Some (Inr skb)
        | Some fp \<Rightarrow>
           \<exists>v. sk_run_filter env skb (prog_insns fp) = Done v \<and>
             (if v = 0 then sk_filter env security have_memory sk skb = Some (Inl EPERM)
              else (\<exists>skb'. sk_filter env security have_memory sk skb = Some (Inr skb') \<and> skb_ok skb' \<and>
                      skb_bytes skb' = take (unat v) (skb_bytes skb)) \<or>
                   \<not> have_memory \<and> sk_filter env security have_memory sk skb = Some (Inl ENOMEM)))"
proof (cases "sk_filter_ptr sk")
  case None
  then show ?thesis by (simp add: sk_filter_def split: sum.split)
next
  case (Some fp)
  have "sock_inv omem sk" using so.inv_reachable [OF refl assms(1)] .
  then obtain hm raw where chk: "sk_chk_filter hm raw = Inr (prog_insns fp)"
    using Some by (auto simp: sock_inv_def)
  have "nlattr_ok skb (prog_insns fp)" using assms(3) Some by (simp add: nlattr_ok_def)
  from run_filter_safe [OF chk assms(2) this] obtain v where run: "sk_run_filter env skb (prog_insns fp) = Done v"
    by blast
  have "case pskb_trim have_memory skb (unat v) of
      Inl e \<Rightarrow> \<not> have_memory \<and> e = ENOMEM
    | Inr skb' \<Rightarrow> skb_ok skb' \<and> skb_bytes skb' = take (unat v) (skb_bytes skb)"
    using trim_correct(1) [of "base skb" "frag_list skb" have_memory "unat v"] assms(2)
    unfolding pskb_trim_def sk_buff.collapse by simp
  then show ?thesis
    by (cases "pskb_trim have_memory skb (unat v)"; cases "v = 0") (auto simp: sk_filter_def Some run split: sum.split)
qed

text \<open>A socket with the demonstration filter attached.\<close>

definition demo_sock :: sock where
  "demo_sock = \<lparr>sk_filter_ptr = Some \<lparr>refcnt = 1, prog_insns = demo_prog\<rparr>, sk_omem_alloc = 68\<rparr>"

lemma demo_sock_reachable: "sock_step\<^sup>*\<^sup>* \<lparr>sk_filter_ptr = None, sk_omem_alloc = 0\<rparr> demo_sock"
proof -
  have "length demo_raw = 6" by (simp add: demo_raw_def)
  then have "sk_attach_filter 1000 True True \<lparr>fprog_len = 6, fprog_filter = Some demo_raw\<rparr>
      \<lparr>sk_filter_ptr = None, sk_omem_alloc = 0\<rparr> = (Ok, demo_sock)"
    by (simp add: sk_attach_filter_def sock_kmalloc_def sk_filter_len_def demo_checked demo_sock_def)
  then show ?thesis by (blast intro: sock_step.attach)
qed

theorem sock_omem_exact_witness: "sk_omem_alloc demo_sock = 0 + (8 * int (length demo_prog) + 20)"
  using sock_omem_exact [OF demo_sock_reachable] by (simp add: demo_sock_def)

theorem sock_filter_delivers_witness:
  "\<exists>v. sk_run_filter demo_env demo_skb demo_prog = Done v \<and>
     (if v = 0 then sk_filter demo_env Ok True demo_sock demo_skb = Some (Inl EPERM)
      else \<exists>skb'. sk_filter demo_env Ok True demo_sock demo_skb = Some (Inr skb') \<and> skb_bytes skb' = take (unat v) [1, 2, 3, 4, 5])"
  using sock_filter_delivers [OF demo_sock_reachable demo_skb_ok, where env = demo_env and have_memory = True and security = Ok]
  by (auto simp: demo_sock_def demo_prog_def demo_skb_bytes split: if_splits)

section \<open>Where the checker does not protect\<close>

text \<open>
  The netlink extension computes \<open>skb->len - 4\<close> without checking that the packet has four bytes,
  and the nested variant compares the attribute length with \<open>A - skb->len\<close> in place of
  \<open>skb->len - A\<close>; accepted programs then read outside the packet.
\<close>

definition nlattr_raw :: "u32 \<Rightarrow> u32 \<Rightarrow> u16 sock_filter list" where
  "nlattr_raw a ext =
     [\<lparr>insn_code = BPF_LD OR BPF_IMM, jt = 0, jf = 0, insn_k = a\<rparr>,
      \<lparr>insn_code = BPF_LD OR BPF_W OR BPF_ABS, jt = 0, jf = 0, insn_k = ext\<rparr>,
      \<lparr>insn_code = BPF_RET OR BPF_A, jt = 0, jf = 0, insn_k = 0\<rparr>]"

lemmas run_defs = sk_run_filter_def run_from.simps insn_defs anc_nlattr_def anc_nlattr_nest_def
  skb_is_nonlinear_def flat_skb_def nla_find.simps le16_at_def found_at_def

theorem nlattr_reads_outside:
  "\<exists>prog. sk_chk_filter True (nlattr_raw 4294967280 (- 4084)) = Inr prog \<and> skb_ok (flat_skb [1, 2]) \<and>
     sk_run_filter demo_env (flat_skb [1, 2]) prog = Undefined"
  by (simp add: nlattr_raw_def chk_defs run_defs skb_headlen_def Let_def)

theorem nlattr_nest_reads_outside:
  "\<exists>prog. sk_chk_filter True (nlattr_raw 0 (- 4080)) = Inr prog \<and> skb_ok (flat_skb [255, 255, 0, 0]) \<and>
     sk_run_filter demo_env (flat_skb [255, 255, 0, 0]) prog = Undefined"
  by (simp add: nlattr_raw_def chk_defs run_defs skb_headlen_def Let_def)

end
