(* ===== verification/Kfifo.thy ===== *)
theory Kfifo
  imports Kernel_Prelude
begin

text \<open>
  The ring buffer of \<^verbatim>\<open>kernel/kfifo.c\<close>.  The indices \<^verbatim>\<open>in\<close> and \<^verbatim>\<open>out\<close> run freely through the 32-bit
  integers and are reduced with the mask only when the buffer is accessed; all sizes and
  offsets are computed in 32 bits as in C.  The buffer is a list of bytes.  A user buffer is
  the list of the bytes that can be accessed at its address: \<^verbatim>\<open>copy_from_user\<close> and
  \<^verbatim>\<open>copy_to_user\<close> stop at its end and return how many bytes are missing.  The scatter lists
  for DMA are not modelled.
\<close>

section \<open>Data\<close>

record kfifo =
  in_idx :: u32
  out_idx :: u32
  kmask :: u32
  esize :: u32
  kdata :: "u8 list"

section \<open>Setting up\<close>

definition is_power_of_2 :: "u32 \<Rightarrow> bool" where
  "is_power_of_2 n \<longleftrightarrow> n \<noteq> 0 \<and> n AND (n - 1) = 0"

fun fls_nat :: "nat \<Rightarrow> nat" where
  "fls_nat n = (if n = 0 then 0 else fls_nat (n div 2) + 1)"

declare fls_nat.simps [simp del]

text \<open>\<^verbatim>\<open>1UL << (fls_long(n) - 1)\<close>; for 0 the processor shifts everything out.\<close>

definition rounddown_pow_of_two :: "u32 \<Rightarrow> u32" where
  "rounddown_pow_of_two n = (if n = 0 then 0 else push_bit (fls_nat (unat n) - 1) 1)"

text \<open>\<open>kmalloc\<close> delivers bytes of any value, or nothing.\<close>

definition do_kfifo_alloc :: "(nat \<Rightarrow> u8 list option) \<Rightarrow> u32 \<Rightarrow> u32 \<Rightarrow> unit kresult \<times> kfifo" where
  "do_kfifo_alloc kmalloc n es =
     (let sz = (if \<not> is_power_of_2 n then rounddown_pow_of_two n else n);
          fifo = \<lparr>in_idx = 0, out_idx = 0, kmask = 0, esize = es, kdata = []\<rparr>
      in if sz < 2 then (Inl EINVAL, fifo)
         else case kmalloc (unat (sz * es)) of
           None \<Rightarrow> (Inl ENOMEM, fifo)
         | Some buffer \<Rightarrow> (Ok, fifo\<lparr>kdata := buffer, kmask := sz - 1\<rparr>))"

definition do_kfifo_free :: "kfifo \<Rightarrow> kfifo" where
  "do_kfifo_free fifo = fifo\<lparr>in_idx := 0, out_idx := 0, esize := 0, kdata := [], kmask := 0\<rparr>"

definition do_kfifo_init :: "u8 list \<Rightarrow> u32 \<Rightarrow> u32 \<Rightarrow> unit kresult \<times> kfifo" where
  "do_kfifo_init buffer n es =
     (let q = n div es;
          sz = (if \<not> is_power_of_2 q then rounddown_pow_of_two q else q);
          fifo = \<lparr>in_idx = 0, out_idx = 0, kmask = 0, esize = es, kdata = buffer\<rparr>
      in if sz < 2 then (Inl EINVAL, fifo) else (Ok, fifo\<lparr>kmask := sz - 1\<rparr>))"

section \<open>Copying\<close>

definition kfifo_unused :: "kfifo \<Rightarrow> u32" where
  "kfifo_unused fifo = (kmask fifo + 1) - (in_idx fifo - out_idx fifo)"

definition memcpy_at :: "u8 list \<Rightarrow> nat \<Rightarrow> u8 list \<Rightarrow> u8 list" where
  "memcpy_at buf pos bytes = take pos buf @ bytes @ drop (pos + length bytes) buf"

text \<open>
  The prologue all copying functions share: the byte offset, the byte length and the length
  of the first of the two pieces.
\<close>

definition pieces :: "kfifo \<Rightarrow> u32 \<Rightarrow> u32 \<Rightarrow> u32 \<times> u32 \<times> u32" where
  "pieces fifo len off =
     (let sz = kmask fifo + 1; off' = off AND kmask fifo; es = esize fifo;
          (off2, sz2, len2) = (if es \<noteq> 1 then (off' * es, sz * es, len * es) else (off', sz, len))
      in (off2, len2, min len2 (sz2 - off2)))"

definition kfifo_copy_in :: "kfifo \<Rightarrow> u8 list \<Rightarrow> u32 \<Rightarrow> u32 \<Rightarrow> kfifo" where
  "kfifo_copy_in fifo src len off =
     (let (off', len', l) = pieces fifo len off;
          d1 = memcpy_at (kdata fifo) (unat off') (take (unat l) src);
          d2 = memcpy_at d1 0 (take (unat (len' - l)) (drop (unat l) src))
      in fifo\<lparr>kdata := d2\<rparr>)"

definition do_kfifo_in :: "kfifo \<Rightarrow> u8 list \<Rightarrow> u32 \<Rightarrow> kfifo \<times> u32" where
  "do_kfifo_in fifo buf len =
     (let l = kfifo_unused fifo;
          len' = (if len > l then l else len);
          fifo' = kfifo_copy_in fifo buf len' (in_idx fifo)
      in (fifo'\<lparr>in_idx := in_idx fifo' + len'\<rparr>, len'))"

definition kfifo_copy_out :: "kfifo \<Rightarrow> u32 \<Rightarrow> u32 \<Rightarrow> u8 list" where
  "kfifo_copy_out fifo len off =
     (let (off', len', l) = pieces fifo len off
      in take (unat l) (drop (unat off') (kdata fifo)) @ take (unat (len' - l)) (kdata fifo))"

definition do_kfifo_out_peek :: "kfifo \<Rightarrow> u32 \<Rightarrow> u8 list \<times> u32" where
  "do_kfifo_out_peek fifo len =
     (let l = in_idx fifo - out_idx fifo;
          len' = (if len > l then l else len)
      in (kfifo_copy_out fifo len' (out_idx fifo), len'))"

definition do_kfifo_out :: "kfifo \<Rightarrow> u32 \<Rightarrow> kfifo \<times> u8 list \<times> u32" where
  "do_kfifo_out fifo len =
     (let (bytes, len') = do_kfifo_out_peek fifo len
      in (fifo\<lparr>out_idx := out_idx fifo + len'\<rparr>, bytes, len'))"

section \<open>User buffers\<close>

definition DIV_ROUND_UP :: "u32 \<Rightarrow> u32 \<Rightarrow> u32" where
  "DIV_ROUND_UP n d = (n + d - 1) div d"

text \<open>
  The bytes \<^verbatim>\<open>copy_from_user\<close> stores, padded with zeros, and the number it could not read; here
  \<open>from\<close> is what can be read at the address.
\<close>

definition copy_from_user :: "u8 list \<Rightarrow> nat \<Rightarrow> u8 list \<times> nat" where
  "copy_from_user from n = (take n from @ replicate (n - length from) 0, n - length from)"

definition kfifo_copy_from_user ::
  "kfifo \<Rightarrow> u8 list \<Rightarrow> u32 \<Rightarrow> u32 \<Rightarrow> kfifo \<times> u32 \<times> u32" where
  \<comment> \<open>the fifo, the elements not copied, and \<^verbatim>\<open>*copied\<close>\<close>
  "kfifo_copy_from_user fifo from len off =
     (let (off', len', l) = pieces fifo len off;
          (b1, r1) = copy_from_user from (unat l);
          d1 = memcpy_at (kdata fifo) (unat off') b1
      in if r1 \<noteq> 0
         then (let ret = DIV_ROUND_UP (of_nat r1 + len' - l) (esize fifo)
               in (fifo\<lparr>kdata := d1\<rparr>, ret, len' - ret))
         else (let (b2, r2) = copy_from_user (drop (unat l) from) (unat (len' - l));
                   d2 = memcpy_at d1 0 b2;
                   ret = (if r2 \<noteq> 0 then DIV_ROUND_UP (of_nat r2) (esize fifo) else 0)
               in (fifo\<lparr>kdata := d2\<rparr>, ret, len' - ret)))"

definition do_kfifo_from_user :: "kfifo \<Rightarrow> u8 list \<Rightarrow> u32 \<Rightarrow> kfifo \<times> unit kresult \<times> u32" where
  "do_kfifo_from_user fifo from len =
     (let len1 = (if esize fifo \<noteq> 1 then len div esize fifo else len);
          l = kfifo_unused fifo;
          len2 = (if len1 > l then l else len1);
          (fifo', ret, copied) = kfifo_copy_from_user fifo from len2 (in_idx fifo);
          len3 = (if ret \<noteq> 0 then len2 - ret else len2)
      in (fifo'\<lparr>in_idx := in_idx fifo' + len3\<rparr>, if ret \<noteq> 0 then Inl EFAULT else Ok, copied))"

text \<open>\<open>room\<close> is the number of bytes that can be written at the user address.\<close>

definition kfifo_copy_to_user :: "kfifo \<Rightarrow> nat \<Rightarrow> u32 \<Rightarrow> u32 \<Rightarrow> u8 list \<times> u32 \<times> u32" where
  "kfifo_copy_to_user fifo room len off =
     (let (off', len', l) = pieces fifo len off;
          src1 = take (unat l) (drop (unat off') (kdata fifo));
          r1 = unat l - room
      in if r1 \<noteq> 0
         then (let ret = DIV_ROUND_UP (of_nat r1 + len' - l) (esize fifo)
               in (take room src1, ret, len' - ret))
         else (let src2 = take (unat (len' - l)) (kdata fifo);
                   r2 = unat (len' - l) - (room - unat l);
                   ret = (if r2 \<noteq> 0 then DIV_ROUND_UP (of_nat r2) (esize fifo) else 0)
               in (src1 @ take (room - unat l) src2, ret, len' - ret)))"

definition do_kfifo_to_user :: "kfifo \<Rightarrow> nat \<Rightarrow> u32 \<Rightarrow> kfifo \<times> u8 list \<times> unit kresult \<times> u32" where
  "do_kfifo_to_user fifo room len =
     (let len1 = (if esize fifo \<noteq> 1 then len div esize fifo else len);
          l = in_idx fifo - out_idx fifo;
          len2 = (if len1 > l then l else len1);
          (bytes, ret, copied) = kfifo_copy_to_user fifo room len2 (out_idx fifo);
          len3 = (if ret \<noteq> 0 then len2 - ret else len2)
      in (fifo\<lparr>out_idx := out_idx fifo + len3\<rparr>, bytes, if ret \<noteq> 0 then Inl EFAULT else Ok, copied))"

section \<open>Records\<close>

text \<open>A record is stored behind its length in \<open>recsize\<close> bytes, one or two.\<close>

definition do_kfifo_max_r :: "u32 \<Rightarrow> nat \<Rightarrow> u32" where
  "do_kfifo_max_r len recsize =
     (let mx = push_bit (8 * recsize) 1 - 1 in if len > mx then mx else len)"

definition kfifo_peek :: "kfifo \<Rightarrow> u32 \<Rightarrow> u8" where
  "kfifo_peek fifo pos = kdata fifo ! unat (pos AND kmask fifo)"

definition do_kfifo_peek_n :: "kfifo \<Rightarrow> nat \<Rightarrow> u32" where
  "do_kfifo_peek_n fifo recsize =
     (let l = ucast (kfifo_peek fifo (out_idx fifo))
      in if recsize - 1 \<noteq> 0 then l OR push_bit 8 (ucast (kfifo_peek fifo (out_idx fifo + 1))) else l)"

definition kfifo_poke :: "kfifo \<Rightarrow> u32 \<Rightarrow> u8 \<Rightarrow> kfifo" where
  "kfifo_poke fifo pos v = fifo\<lparr>kdata := (kdata fifo)[unat (pos AND kmask fifo) := v]\<rparr>"

definition do_kfifo_poke_n :: "kfifo \<Rightarrow> u32 \<Rightarrow> nat \<Rightarrow> kfifo" where
  "do_kfifo_poke_n fifo n recsize =
     (let fifo' = kfifo_poke fifo (in_idx fifo) (ucast n)
      in if recsize > 1 then kfifo_poke fifo' (in_idx fifo + 1) (ucast (drop_bit 8 n)) else fifo')"

definition do_kfifo_len_r :: "kfifo \<Rightarrow> nat \<Rightarrow> u32" where
  "do_kfifo_len_r fifo recsize = do_kfifo_peek_n fifo recsize"

definition do_kfifo_in_r :: "kfifo \<Rightarrow> u8 list \<Rightarrow> u32 \<Rightarrow> nat \<Rightarrow> kfifo \<times> u32" where
  "do_kfifo_in_r fifo buf len recsize =
     (if len + of_nat recsize > kfifo_unused fifo then (fifo, 0)
      else (let fifo1 = do_kfifo_poke_n fifo len recsize;
                fifo2 = kfifo_copy_in fifo1 buf len (in_idx fifo1 + of_nat recsize)
            in (fifo2\<lparr>in_idx := in_idx fifo2 + (len + of_nat recsize)\<rparr>, len)))"

definition kfifo_out_copy_r :: "kfifo \<Rightarrow> u32 \<Rightarrow> nat \<Rightarrow> u8 list \<times> u32 \<times> u32" where
  \<comment> \<open>the bytes, their number, and \<^verbatim>\<open>*n\<close>\<close>
  "kfifo_out_copy_r fifo len recsize =
     (let n = do_kfifo_peek_n fifo recsize;
          len' = (if len > n then n else len)
      in (kfifo_copy_out fifo len' (out_idx fifo + of_nat recsize), len', n))"

definition do_kfifo_out_peek_r :: "kfifo \<Rightarrow> u32 \<Rightarrow> nat \<Rightarrow> u8 list \<times> u32" where
  "do_kfifo_out_peek_r fifo len recsize =
     (if in_idx fifo = out_idx fifo then ([], 0)
      else (let (bytes, len', n) = kfifo_out_copy_r fifo len recsize in (bytes, len')))"

definition do_kfifo_out_r :: "kfifo \<Rightarrow> u32 \<Rightarrow> nat \<Rightarrow> kfifo \<times> u8 list \<times> u32" where
  "do_kfifo_out_r fifo len recsize =
     (if in_idx fifo = out_idx fifo then (fifo, [], 0)
      else (let (bytes, len', n) = kfifo_out_copy_r fifo len recsize
            in (fifo\<lparr>out_idx := out_idx fifo + (n + of_nat recsize)\<rparr>, bytes, len')))"

definition do_kfifo_skip_r :: "kfifo \<Rightarrow> nat \<Rightarrow> kfifo" where
  "do_kfifo_skip_r fifo recsize =
     fifo\<lparr>out_idx := out_idx fifo + (do_kfifo_peek_n fifo recsize + of_nat recsize)\<rparr>"

definition do_kfifo_from_user_r ::
  "kfifo \<Rightarrow> u8 list \<Rightarrow> u32 \<Rightarrow> nat \<Rightarrow> kfifo \<times> unit kresult \<times> u32" where
  "do_kfifo_from_user_r fifo from len recsize =
     (let len' = do_kfifo_max_r len recsize
      in if len' + of_nat recsize > kfifo_unused fifo then (fifo, Ok, 0)
         else (let fifo1 = do_kfifo_poke_n fifo len' recsize;
                   (fifo2, ret, copied) = kfifo_copy_from_user fifo1 from len' (in_idx fifo1 + of_nat recsize)
               in if ret \<noteq> 0 then (fifo2, Inl EFAULT, 0)
                  else (fifo2\<lparr>in_idx := in_idx fifo2 + (len' + of_nat recsize)\<rparr>, Ok, copied)))"

definition do_kfifo_to_user_r ::
  "kfifo \<Rightarrow> nat \<Rightarrow> u32 \<Rightarrow> nat \<Rightarrow> kfifo \<times> u8 list \<times> unit kresult \<times> u32" where
  "do_kfifo_to_user_r fifo room len recsize =
     (if in_idx fifo = out_idx fifo then (fifo, [], Ok, 0)
      else (let n = do_kfifo_peek_n fifo recsize;
                len' = (if len > n then n else len);
                (bytes, ret, copied) = kfifo_copy_to_user fifo room len' (out_idx fifo + of_nat recsize)
            in if ret \<noteq> 0 then (fifo, bytes, Inl EFAULT, 0)
               else (fifo\<lparr>out_idx := out_idx fifo + (n + of_nat recsize)\<rparr>, bytes, Ok, copied)))"

definition do_kfifo_dma_in_finish_r :: "kfifo \<Rightarrow> u32 \<Rightarrow> nat \<Rightarrow> kfifo" where
  "do_kfifo_dma_in_finish_r fifo len recsize =
     (let len' = do_kfifo_max_r len recsize;
          fifo' = do_kfifo_poke_n fifo len' recsize
      in fifo'\<lparr>in_idx := in_idx fifo' + (len' + of_nat recsize)\<rparr>)"

definition do_kfifo_dma_out_finish_r :: "kfifo \<Rightarrow> nat \<Rightarrow> kfifo" where
  "do_kfifo_dma_out_finish_r fifo recsize =
     (let len = do_kfifo_peek_n fifo recsize
      in fifo\<lparr>out_idx := out_idx fifo + (len + of_nat recsize)\<rparr>)"

section \<open>What a fifo contains\<close>

text \<open>The bytes of a ring of \<open>N\<close> bytes from position \<open>s\<close> on.\<close>

definition ring :: "u8 list \<Rightarrow> nat \<Rightarrow> nat \<Rightarrow> nat \<Rightarrow> u8 list" where
  "ring d N s n = map (\<lambda>j. d ! ((s + j) mod N)) [0..<n]"

definition cap :: "kfifo \<Rightarrow> nat" where
  "cap f = unat (kmask f) + 1"

definition ring_size :: "kfifo \<Rightarrow> nat" where
  "ring_size f = cap f * unat (esize f)"

definition pos :: "kfifo \<Rightarrow> u32 \<Rightarrow> nat" where
  "pos f x = (unat x mod cap f) * unat (esize f)"

definition used :: "kfifo \<Rightarrow> nat" where
  "used f = unat (in_idx f - out_idx f)"

definition fifo_ok :: "kfifo \<Rightarrow> bool" where
  "fifo_ok f \<longleftrightarrow> (\<exists>k. 0 < k \<and> k < 32 \<and> cap f = 2 ^ k) \<and> 0 < esize f \<and> ring_size f \<le> 2 ^ 31 \<and>
     ring_size f \<le> length (kdata f) \<and> used f \<le> cap f"

definition content :: "kfifo \<Rightarrow> u8 list" where
  "content f = ring (kdata f) (ring_size f) (pos f (out_idx f)) (used f * unat (esize f))"

subsection \<open>Ring arithmetic\<close>

lemma length_ring [simp]: "length (ring d N s n) = n"
  by (simp add: ring_def)

lemma ring_add: "ring d N s (m + n) = ring d N s m @ ring d N ((s + m) mod N) n"
  by (rule nth_equalityI) (auto simp: ring_def nth_append mod_add_left_eq)

text \<open>Storing \<open>src\<close> at \<open>p\<close>, in two pieces when the end of the ring is reached.\<close>

definition ring_put :: "u8 list \<Rightarrow> nat \<Rightarrow> nat \<Rightarrow> u8 list \<Rightarrow> u8 list" where
  "ring_put d N p src =
     (let l = min (length src) (N - p) in memcpy_at (memcpy_at d p (take l src)) 0 (drop l src))"

lemma length_memcpy_at: "p + length bs \<le> length d \<Longrightarrow> length (memcpy_at d p bs) = length d"
  by (simp add: memcpy_at_def)

lemma nth_memcpy_at:
  "p + length bs \<le> length d \<Longrightarrow> i < length d \<Longrightarrow>
   memcpy_at d p bs ! i = (if p \<le> i \<and> i < p + length bs then bs ! (i - p) else d ! i)"
  by (auto simp: memcpy_at_def nth_append)

lemma ring_put_nth:
  assumes "p < N" and "N \<le> length d" and "length src \<le> N"
  shows "length (ring_put d N p src) = length d"
    and "i < length d \<Longrightarrow> ring_put d N p src ! i =
      (if p \<le> i \<and> i < N \<and> i < p + length src then src ! (i - p)
       else if i < p \<and> i + N < p + length src then src ! (i + N - p) else d ! i)"
proof -
  let ?l = "min (length src) (N - p)"
  let ?d1 = "memcpy_at d p (take ?l src)"
  have l1: "p + length (take ?l src) \<le> length d" and l2: "0 + length (drop ?l src) \<le> length ?d1"
    using assms by (simp_all add: length_memcpy_at)
  then have len: "length ?d1 = length d" by (simp add: length_memcpy_at)
  then show "length (ring_put d N p src) = length d"
    using l2 by (simp add: ring_put_def Let_def length_memcpy_at)
  assume "i < length d"
  then show "ring_put d N p src ! i =
      (if p \<le> i \<and> i < N \<and> i < p + length src then src ! (i - p)
       else if i < p \<and> i + N < p + length src then src ! (i + N - p) else d ! i)"
    using assms len nth_memcpy_at [OF l1, of i] nth_memcpy_at [OF l2, of i]
    by (auto simp: ring_put_def Let_def min_def add.commute)
qed

lemma ring_put_append:
  assumes "s < N" and "N \<le> length d" and "u + length src \<le> N"
  shows "ring (ring_put d N ((s + u) mod N) src) N s (u + length src) = ring d N s u @ src"
proof (rule nth_equalityI)
  let ?p = "(s + u) mod N"
  have p: "?p = (if s + u < N then s + u else s + u - N)" "?p < N"
    using assms by (simp_all add: mod_if)
  fix j
  assume "j < length (ring (ring_put d N ?p src) N s (u + length src))"
  then have j: "j < u + length src" by simp
  let ?i = "(s + j) mod N"
  have "?i < N" using assms by simp
  then have i: "?i = (if s + j < N then s + j else s + j - N)" "?i < length d"
    using assms j by (simp_all add: mod_if)
  have "ring_put d N ?p src ! ?i = (if j < u then d ! ?i else src ! (j - u))"
    unfolding ring_put_nth(2) [OF p(2) assms(2) _ i(2), of src, OF add_leD2 [OF assms(3)]]
    unfolding p(1) i(1) using assms j by (auto simp: nth_append split: if_splits intro!: arg_cong [where f = "(!) src"])
  then show "ring (ring_put d N ?p src) N s (u + length src) ! j = (ring d N s u @ src) ! j"
    using j by (simp add: ring_def nth_append)
qed simp

subsection \<open>From words to numbers\<close>

lemma unat_and_mask: "unat ((w :: u32) AND mask k) = unat w mod 2 ^ k"
  by (metis take_bit_eq_mask unsigned_take_bit_eq take_bit_eq_mod)

lemma fifo_okD:
  assumes "fifo_ok f"
  obtains k where "0 < k" "k < 32" "kmask f = mask k" "cap f = 2 ^ k"
proof -
  obtain k where k: "0 < k" "k < 32" "cap f = 2 ^ k" using assms by (auto simp: fifo_ok_def)
  have "unat (kmask f) = unat (mask k :: u32)"
    using k(3) unat_mask32 [OF k(2)] by (simp add: cap_def)
  then have "kmask f = mask k" by (simp only: word_unat_eq_iff)
  with k that show ?thesis by blast
qed

lemma cap_bounds:
  assumes "fifo_ok f"
  shows "1 < cap f" and "cap f dvd 2 ^ 32"
proof -
  obtain k where k: "0 < k" "k < 32" "cap f = 2 ^ k" using assms by (auto simp: fifo_ok_def)
  then show "1 < cap f" using one_less_power [of "2 :: nat" k] by simp
  from k show "cap f dvd 2 ^ 32" by (simp only: le_imp_power_dvd less_imp_le)
qed

lemma ring_size_pos: "fifo_ok f \<Longrightarrow> 0 < ring_size f"
  by (simp add: fifo_ok_def ring_size_def cap_def word_less_nat_alt)

lemma unat_masked: "fifo_ok f \<Longrightarrow> unat (x AND kmask f) = unat x mod cap f"
  by (erule fifo_okD) (simp add: unat_and_mask)

lemma unat_add_mod: "fifo_ok f \<Longrightarrow> unat (x + y :: u32) mod cap f = (unat x mod cap f + unat y) mod cap f"
  using cap_bounds(2) [of f] by (simp add: unat_word_ariths mod_mod_cancel mod_add_left_eq)

lemma pos_less: "fifo_ok f \<Longrightarrow> pos f x < ring_size f"
  using cap_bounds(1) [of f] by (simp add: pos_def ring_size_def fifo_ok_def word_less_nat_alt)

lemma pos_add:
  assumes "fifo_ok f"
  shows "pos f (x + y) = (pos f x + unat y * unat (esize f)) mod ring_size f"
proof -
  have "pos f (x + y) = ((unat x mod cap f + unat y) * unat (esize f)) mod (cap f * unat (esize f))"
    unfolding pos_def unat_add_mod [OF assms] by (rule mult_mod_left)
  then show ?thesis by (simp add: pos_def ring_size_def add_mult_distrib)
qed

lemma mult_small:
  "a * unat (esize f) < 2 ^ 32 \<Longrightarrow> unat (w :: u32) = a \<Longrightarrow> unat (w * esize f) = a * unat (esize f)"
  by (simp add: unat_word_ariths)

lemma unat_cap: "fifo_ok f \<Longrightarrow> unat (kmask f + 1) = cap f"
proof -
  assume "fifo_ok f"
  then obtain k where "k < 32" "cap f = 2 ^ k" by (auto simp: fifo_ok_def)
  then have "cap f < 2 ^ 32" by (simp only: power_strict_increasing_iff)
  then show ?thesis unfolding cap_def by (intro unat_inc) simp
qed

lemma pieces_nat:
  assumes ok: "fifo_ok f" and len: "unat len \<le> cap f" and p: "pieces f len off = (o1, n, l)"
  shows "unat o1 = pos f off" "unat n = unat len * unat (esize f)"
    "unat l = min (unat len * unat (esize f)) (ring_size f - pos f off)"
    "unat (n - l) = unat len * unat (esize f) - unat l"
proof -
  let ?es = "unat (esize f)"
  have small: "ring_size f < 2 ^ 32" using ok by (simp add: fifo_ok_def)
  have "unat off mod cap f * ?es < 2 ^ 32"
    using small pos_less [OF ok, of off] by (simp add: pos_def)
  moreover have "unat len * ?es < 2 ^ 32"
    using small mult_le_mono1 [OF len, of ?es] unfolding ring_size_def by linarith
  moreover have "cap f * ?es < 2 ^ 32" using small by (simp add: ring_size_def)
  ultimately have "unat ((off AND kmask f) * esize f) = pos f off" "unat ((kmask f + 1) * esize f) = ring_size f"
    "unat (len * esize f) = unat len * ?es"
    using unat_masked [OF ok, of off] unat_cap [OF ok]
    by (simp_all add: mult_small pos_def ring_size_def)
  then have o: "unat o1 = pos f off" and n: "unat n = unat len * ?es"
    and l: "l = min n ((kmask f + 1) * esize f - o1)" and sz: "unat ((kmask f + 1) * esize f) = ring_size f"
    using p by (auto simp: pieces_def Let_def split: if_splits)
  have "unat ((kmask f + 1) * esize f - o1) = ring_size f - pos f off"
    using o sz pos_less [OF ok, of off] by (simp add: unat_sub word_le_nat_alt)
  then show l': "unat l = min (unat len * ?es) (ring_size f - pos f off)"
    using l n by (auto simp: min_def word_le_nat_alt)
  show "unat o1 = pos f off" "unat n = unat len * ?es" by (fact o n)+
  have "l \<le> n" using l by simp
  then show "unat (n - l) = unat len * ?es - unat l" using n by (simp add: unat_sub)
qed

lemma copy_out_ring:
  assumes "fifo_ok f" and "unat len \<le> cap f"
  shows "kfifo_copy_out f len off = ring (kdata f) (ring_size f) (pos f off) (unat len * unat (esize f))"
proof -
  obtain o1 n l where p: "pieces f len off = (o1, n, l)" by (metis prod_cases3)
  note nat = pieces_nat [OF assms p]
  have N: "ring_size f \<le> length (kdata f)" "pos f off < ring_size f" "unat len * unat (esize f) \<le> ring_size f"
    using assms pos_less [OF assms(1), of off] by (simp_all add: fifo_ok_def ring_size_def)
  show ?thesis
  proof (rule nth_equalityI)
    show "length (kfifo_copy_out f len off) = length (ring (kdata f) (ring_size f) (pos f off) (unat len * unat (esize f)))"
      using N by (simp add: kfifo_copy_out_def p nat)
    fix j assume "j < length (kfifo_copy_out f len off)"
    then have j: "j < unat len * unat (esize f)"
      using N by (simp add: kfifo_copy_out_def p nat)
    show "kfifo_copy_out f len off ! j = ring (kdata f) (ring_size f) (pos f off) (unat len * unat (esize f)) ! j"
    proof (cases "j < ring_size f - pos f off")
      case True
      then show ?thesis
        using N j by (simp add: kfifo_copy_out_def p nat ring_def nth_append)
    next
      case False
      then have "pos f off + j = ring_size f + (j - (ring_size f - pos f off))"
        and "j - (ring_size f - pos f off) < ring_size f"
        using N j by linarith+
      then have "(pos f off + j) mod ring_size f = j - (ring_size f - pos f off)"
        by (simp only: mod_add_self1 mod_less)
      moreover have "unat l = ring_size f - pos f off" using nat(3) False j by simp
      ultimately show ?thesis
        using N j False by (simp add: kfifo_copy_out_def p nat(1,2,4) ring_def nth_append)
    qed
  qed
qed

lemma copy_in_ring:
  assumes "fifo_ok f" and "unat len \<le> cap f" and "unat len * unat (esize f) \<le> length src"
  shows "kfifo_copy_in f src len off =
    f\<lparr>kdata := ring_put (kdata f) (ring_size f) (pos f off) (take (unat len * unat (esize f)) src)\<rparr>"
proof -
  obtain o1 n l where p: "pieces f len off = (o1, n, l)" by (metis prod_cases3)
  note nat = pieces_nat [OF assms(1,2) p]
  show ?thesis
    using assms(3) by (simp add: kfifo_copy_in_def p nat ring_put_def Let_def min_def drop_take)
qed

subsection \<open>Putting in and taking out\<close>

lemma unused_nat: "fifo_ok f \<Longrightarrow> unat (kfifo_unused f) = cap f - used f"
  using unat_cap [of f] by (simp add: kfifo_unused_def used_def fifo_ok_def unat_sub word_le_nat_alt)

lemma used_le: "fifo_ok f \<Longrightarrow> used f \<le> cap f"
  by (simp add: fifo_ok_def)

lemma used_bytes: "fifo_ok f \<Longrightarrow> used f * unat (esize f) \<le> ring_size f"
  by (simp add: fifo_ok_def ring_size_def)

lemma pos_in: "fifo_ok f \<Longrightarrow> pos f (in_idx f) = (pos f (out_idx f) + used f * unat (esize f)) mod ring_size f"
  using pos_add [of f "out_idx f" "in_idx f - out_idx f"] by (simp add: used_def)

lemma length_content [simp]: "length (content f) = used f * unat (esize f)"
  by (simp add: content_def)

lemma take_ring: "k \<le> n \<Longrightarrow> take k (ring d N s n) = ring d N s k"
  using ring_add [of d N s k "n - k"] by simp

text \<open>
  Storing bytes behind the contents and moving \<^verbatim>\<open>in\<close> forward by \<open>n\<close> elements, which may leave some
  of the bytes stored outside of the contents.
\<close>

lemma advance_in:
  assumes ok: "fifo_ok f" and src: "unat n * unat (esize f) \<le> length src"
    and room: "used f * unat (esize f) + length src \<le> ring_size f" and n: "used f + unat n \<le> cap f"
    and d: "d = ring_put (kdata f) (ring_size f) (pos f (in_idx f)) src"
  shows "fifo_ok (f\<lparr>kdata := d, in_idx := in_idx f + n\<rparr>)"
    and "content (f\<lparr>kdata := d, in_idx := in_idx f + n\<rparr>) = content f @ take (unat n * unat (esize f)) src"
    and "used (f\<lparr>kdata := d, in_idx := in_idx f + n\<rparr>) = used f + unat n"
proof -
  let ?f = "f\<lparr>kdata := d, in_idx := in_idx f + n\<rparr>" and ?es = "unat (esize f)"
  have "cap f < 2 ^ 32" using ok unat_cap [OF ok] unat_bound [of "kmask f + 1"] by simp
  then have "unat (in_idx f - out_idx f) + unat n < 2 ^ LENGTH(32)"
    using n by (simp add: used_def)
  then have "unat ((in_idx f - out_idx f) + n) = used f + unat n"
    by (simp only: unat_add_lem used_def)
  moreover have "used ?f = unat ((in_idx f - out_idx f) + n)"
    by (simp add: used_def diff_add_eq)
  ultimately have u: "used ?f = used f + unat n" by (rule trans [rotated])
  then show "used ?f = used f + unat n" .
  have N: "pos f (out_idx f) < ring_size f" "ring_size f \<le> length (kdata f)"
    using ok pos_less [OF ok] by (simp_all add: fifo_ok_def)
  have "length d = length (kdata f)"
    unfolding d by (rule ring_put_nth(1)) (use N room pos_less [OF ok] in auto)
  then show "fifo_ok ?f"
    using ok n u by (simp add: fifo_ok_def cap_def ring_size_def)
  have "content ?f = ring d (ring_size f) (pos f (out_idx f)) (used f * ?es + unat n * ?es)"
    using u by (simp add: content_def cap_def ring_size_def pos_def add_mult_distrib)
  also have "\<dots> = take (used f * ?es + unat n * ?es)
      (ring d (ring_size f) (pos f (out_idx f)) (used f * ?es + length src))"
    using src by (simp add: take_ring)
  also have "\<dots> = take (used f * ?es + unat n * ?es) (content f @ src)"
    unfolding d pos_in [OF ok] content_def ring_put_append [OF N room] ..
  finally show "content ?f = content f @ take (unat n * ?es) src" by simp
qed

lemma advance_out:
  assumes ok: "fifo_ok f" and n: "unat n \<le> used f"
  shows "fifo_ok (f\<lparr>out_idx := out_idx f + n\<rparr>)"
    and "content (f\<lparr>out_idx := out_idx f + n\<rparr>) = drop (unat n * unat (esize f)) (content f)"
    and "used (f\<lparr>out_idx := out_idx f + n\<rparr>) = used f - unat n"
proof -
  let ?f = "f\<lparr>out_idx := out_idx f + n\<rparr>"
  have "used ?f = unat ((in_idx f - out_idx f) - n)" by (simp add: used_def diff_diff_eq)
  also have "\<dots> = used f - unat n"
    unfolding used_def by (rule unat_sub) (use n in \<open>simp add: used_def word_le_nat_alt\<close>)
  finally have u: "used ?f = used f - unat n" .
  then show "used ?f = used f - unat n" .
  with ok show "fifo_ok ?f" by (auto simp: fifo_ok_def cap_def ring_size_def)
  have "used f * unat (esize f) = unat n * unat (esize f) + used ?f * unat (esize f)"
    using n u by (simp add: add_mult_distrib [symmetric])
  then have "content f = ring (kdata f) (ring_size f) (pos f (out_idx f)) (unat n * unat (esize f)) @ content ?f"
    using pos_add [OF ok, of "out_idx f" n]
    by (simp add: content_def ring_add pos_def ring_size_def cap_def)
  then show "content ?f = drop (unat n * unat (esize f)) (content f)" by simp
qed

lemma kfifo_in_correct:
  assumes "fifo_ok f" and "unat len * unat (esize f) \<le> length buf"
    and "do_kfifo_in f buf len = (f', n)"
  shows "fifo_ok f'" and "unat n = min (unat len) (cap f - used f)"
    and "content f' = content f @ take (unat n * unat (esize f)) buf" and "esize f' = esize f" and "cap f' = cap f"
proof -
  have n: "n = (if len > kfifo_unused f then kfifo_unused f else len)"
    and f': "f' = (kfifo_copy_in f buf n (in_idx f))\<lparr>in_idx := in_idx (kfifo_copy_in f buf n (in_idx f)) + n\<rparr>"
    using assms(3) by (auto simp: do_kfifo_in_def Let_def)
  then show un: "unat n = min (unat len) (cap f - used f)"
    using unused_nat [OF assms(1)] by (auto simp: min_def word_less_nat_alt)
  have le: "used f + unat n \<le> cap f" "unat n \<le> unat len"
    using un used_le [OF assms(1)] by linarith+
  have src: "unat n * unat (esize f) \<le> length buf"
    using mult_le_mono1 [OF le(2), of "unat (esize f)"] assms(2) by linarith
  have cp: "kfifo_copy_in f buf n (in_idx f) =
    f\<lparr>kdata := ring_put (kdata f) (ring_size f) (pos f (in_idx f)) (take (unat n * unat (esize f)) buf)\<rparr>"
    using le by (intro copy_in_ring assms(1) src) simp
  have "used f * unat (esize f) + length (take (unat n * unat (esize f)) buf) \<le> ring_size f"
    using src mult_le_mono1 [OF le(1), of "unat (esize f)"] by (simp add: ring_size_def add_mult_distrib)
  note adv = advance_in [OF assms(1) _ this le(1) refl]
  show "fifo_ok f'" "content f' = content f @ take (unat n * unat (esize f)) buf"
    using adv(1,2) src by (simp_all add: f' cp)
  show "esize f' = esize f" "cap f' = cap f" by (simp_all add: f' cp cap_def)
qed

lemma kfifo_out_correct:
  assumes "fifo_ok f" and "do_kfifo_out f len = (f', bytes, n)"
  shows "fifo_ok f'" and "unat n = min (unat len) (used f)"
    and "bytes = take (unat n * unat (esize f)) (content f)"
    and "content f' = drop (unat n * unat (esize f)) (content f)"
proof -
  have n: "n = (if len > in_idx f - out_idx f then in_idx f - out_idx f else len)"
    and f': "f' = f\<lparr>out_idx := out_idx f + n\<rparr>" and b: "bytes = kfifo_copy_out f n (out_idx f)"
    using assms(2) by (auto simp: do_kfifo_out_def do_kfifo_out_peek_def Let_def)
  then show un: "unat n = min (unat len) (used f)"
    by (auto simp: min_def word_less_nat_alt used_def)
  then have le: "unat n \<le> used f" "unat n \<le> cap f" using used_le [OF assms(1)] by linarith+
  show "fifo_ok f'" "content f' = drop (unat n * unat (esize f)) (content f)"
    unfolding f' by (rule advance_out [OF assms(1) le(1)])+
  have "used f * unat (esize f) = unat n * unat (esize f) + (used f - unat n) * unat (esize f)"
    using le by (simp add: add_mult_distrib [symmetric])
  then show "bytes = take (unat n * unat (esize f)) (content f)"
    unfolding b copy_out_ring [OF assms(1) le(2)] by (simp add: content_def ring_add)
qed

section \<open>The contract of a queue\<close>

datatype ('i, 'n) fifo_op = Put 'i | Get 'n

text \<open>A run of puts and gets, with what went in and what came out.\<close>

inductive fifo_run ::
  "('s \<Rightarrow> 'i \<Rightarrow> bool) \<Rightarrow> ('s \<Rightarrow> 'i \<Rightarrow> 's \<times> 'a list) \<Rightarrow> ('s \<Rightarrow> 'n \<Rightarrow> 's \<times> 'a list) \<Rightarrow>
   ('i, 'n) fifo_op list \<Rightarrow> 's \<Rightarrow> 's \<Rightarrow> 'a list \<Rightarrow> 'a list \<Rightarrow> bool"
  for valid put get where
  stop: "fifo_run valid put get [] s s [] []"
| put: "valid s i \<Longrightarrow> put s i = (s1, xs) \<Longrightarrow> fifo_run valid put get ops s1 s2 ins outs \<Longrightarrow>
    fifo_run valid put get (Put i # ops) s s2 (xs @ ins) outs"
| get: "get s n = (s1, xs) \<Longrightarrow> fifo_run valid put get ops s1 s2 ins outs \<Longrightarrow>
    fifo_run valid put get (Get n # ops) s s2 ins (xs @ outs)"

locale fifo_contract =
  fixes ok :: "'s \<Rightarrow> bool" and contents :: "'s \<Rightarrow> 'a list"
    and valid :: "'s \<Rightarrow> 'i \<Rightarrow> bool"
    and put :: "'s \<Rightarrow> 'i \<Rightarrow> 's \<times> 'a list"
    and get :: "'s \<Rightarrow> 'n \<Rightarrow> 's \<times> 'a list"
  assumes put_law: "ok s \<Longrightarrow> valid s i \<Longrightarrow> put s i = (s', xs) \<Longrightarrow> ok s' \<and> contents s' = contents s @ xs"
    and get_law: "ok s \<Longrightarrow> get s n = (s', xs) \<Longrightarrow> ok s' \<and> contents s = xs @ contents s'"
begin

lemma run_order:
  "fifo_run valid put get ops s s' ins outs \<Longrightarrow> ok s \<Longrightarrow> ok s' \<and> outs @ contents s' = contents s @ ins"
proof (induction ops s s' ins outs rule: fifo_run.induct)
  case (put s i s1 xs ops s2 ins outs)
  then show ?case using put_law [OF put.prems put.hyps(1,2)] by simp
next
  case (get s n s1 xs ops s2 ins outs)
  then show ?case using get_law [OF get.prems get.hyps(1)] by simp
qed simp

end

text \<open>Bytes: \<open>valid\<close> says that the source buffer is as long as the caller claims.\<close>

definition bytes_valid :: "kfifo \<Rightarrow> u8 list \<times> u32 \<Rightarrow> bool" where
  "bytes_valid f i \<longleftrightarrow> unat (snd i) * unat (esize f) \<le> length (fst i)"

definition put_bytes :: "kfifo \<Rightarrow> u8 list \<times> u32 \<Rightarrow> kfifo \<times> u8 list" where
  "put_bytes f i = (let (f', n) = do_kfifo_in f (fst i) (snd i) in (f', take (unat n * unat (esize f)) (fst i)))"

definition get_bytes :: "kfifo \<Rightarrow> u32 \<Rightarrow> kfifo \<times> u8 list" where
  "get_bytes f len = (let (f', bytes, n) = do_kfifo_out f len in (f', bytes))"

interpretation kf: fifo_contract fifo_ok content bytes_valid put_bytes get_bytes
proof (unfold_locales, goal_cases)
  case (1 f i f' xs)
  obtain n where io: "do_kfifo_in f (fst i) (snd i) = (f', n)" and xs: "xs = take (unat n * unat (esize f)) (fst i)"
    using 1(3) by (auto simp: put_bytes_def split: prod.splits)
  show ?case
    using kfifo_in_correct [OF 1(1) _ io] 1(2) by (simp add: bytes_valid_def xs)
next
  case (2 f n f' xs)
  obtain m where io: "do_kfifo_out f n = (f', xs, m)"
    using 2(2) by (auto simp: get_bytes_def split: prod.splits)
  show ?case
    using kfifo_out_correct [OF 2(1) io] by simp
qed

section \<open>Records in a fifo\<close>

definition enc_len :: "nat \<Rightarrow> nat \<Rightarrow> u8 list" where
  "enc_len recsize n = (if recsize = 1 then [of_nat n] else [of_nat n, of_nat (n div 256)])"

definition enc :: "nat \<Rightarrow> u8 list \<Rightarrow> u8 list" where
  "enc recsize r = enc_len recsize (length r) @ r"

abbreviation rec_ok :: "nat \<Rightarrow> u8 list \<Rightarrow> bool" where
  "rec_ok recsize r \<equiv> length r < 256 ^ recsize"

definition dec_len :: "nat \<Rightarrow> u8 list \<Rightarrow> nat" where
  "dec_len recsize bs = (if recsize = 1 then unat (bs ! 0) else unat (bs ! 0) + 256 * unat (bs ! 1))"

fun parse_recs :: "nat \<Rightarrow> nat \<Rightarrow> u8 list \<Rightarrow> u8 list list" where
  "parse_recs fuel recsize [] = []"
| "parse_recs 0 recsize bs = []"
| "parse_recs (Suc fuel) recsize bs =
     take (dec_len recsize bs) (drop recsize bs) #
     parse_recs fuel recsize (drop (dec_len recsize bs) (drop recsize bs))"

lemma dec_enc:
  assumes "recsize \<in> {1, 2}" and "rec_ok recsize r"
  shows "dec_len recsize (enc recsize r @ rest) = length r"
proof -
  have small: "unat (of_nat n :: u8) = n mod 256" for n
    by (simp add: unat_of_nat take_bit_eq_mod)
  show ?thesis
    using assms by (auto simp: dec_len_def enc_def enc_len_def small)
qed

lemma length_enc_len [simp]: "recsize \<in> {1, 2} \<Longrightarrow> length (enc_len recsize n) = recsize"
  by (auto simp: enc_len_def)

lemma parse_enc:
  assumes "recsize \<in> {1, 2}" and "\<forall>r \<in> set rs. rec_ok recsize r" and "length rs \<le> fuel"
  shows "parse_recs fuel recsize (concat (map (enc recsize) rs)) = rs"
  using assms
proof (induction rs arbitrary: fuel)
  case (Cons r rs)
  then obtain k where fuel: "fuel = Suc k" by (cases fuel) auto
  let ?bs = "concat (map (enc recsize) (r # rs))"
  have d: "dec_len recsize ?bs = length r" using Cons.prems dec_enc [of recsize r] by simp
  have ne: "?bs \<noteq> []" and drop: "drop recsize ?bs = r @ concat (map (enc recsize) rs)"
    using Cons.prems(1) length_enc_len [OF Cons.prems(1), of "length r"] by (auto simp: enc_def enc_len_def)
  have "parse_recs fuel recsize ?bs =
    take (dec_len recsize ?bs) (drop recsize ?bs) # parse_recs k recsize (drop (dec_len recsize ?bs) (drop recsize ?bs))"
    unfolding fuel using ne by (cases ?bs) auto
  also have "\<dots> = r # rs"
    unfolding d drop using Cons fuel by simp
  finally show ?case .
qed simp

lemma concat_enc_length: "recsize \<in> {1, 2} \<Longrightarrow> length rs \<le> length (concat (map (enc recsize) rs))"
  by (induction rs) (auto simp: enc_def enc_len_def)

definition records_ok :: "nat \<Rightarrow> kfifo \<Rightarrow> bool" where
  "records_ok recsize f \<longleftrightarrow> fifo_ok f \<and> esize f = 1 \<and>
     (\<exists>rs. content f = concat (map (enc recsize) rs) \<and> (\<forall>r \<in> set rs. rec_ok recsize r))"

definition records :: "nat \<Rightarrow> kfifo \<Rightarrow> u8 list list" where
  "records recsize f = parse_recs (length (content f)) recsize (content f)"

lemma records_eq:
  assumes "recsize \<in> {1, 2}" and "content f = concat (map (enc recsize) rs)" and "\<forall>r \<in> set rs. rec_ok recsize r"
  shows "records recsize f = rs"
  unfolding records_def assms(2) by (rule parse_enc) (use assms concat_enc_length in auto)

text \<open>Storing in steps is storing at once.\<close>

lemma ring_put_single: "p < N \<Longrightarrow> N \<le> length d \<Longrightarrow> d[p := v] = ring_put d N p [v]"
  by (rule nth_equalityI) (auto simp: ring_put_nth nth_list_update)

text \<open>How far behind \<open>p\<close> a position is.\<close>

definition behind :: "nat \<Rightarrow> nat \<Rightarrow> nat \<Rightarrow> nat" where
  "behind N p i = (if p \<le> i then i - p else i + N - p)"

lemma ring_put_behind:
  assumes "p < N" and "N \<le> length d" and "length src \<le> N" and "i < length d"
  shows "ring_put d N p src ! i = (if i < N \<and> behind N p i < length src then src ! behind N p i else d ! i)"
proof -
  consider "N \<le> i" | "i < N" "p \<le> i" | "i < p" using assms(1) by linarith
  then show ?thesis
    using assms(1,3) by cases (auto simp: ring_put_nth(2) [OF assms] behind_def)
qed

lemma behind_shift:
  assumes "p < N" and "i < N" and "k \<le> N"
  shows "behind N ((p + k) mod N) i = (if k \<le> behind N p i then behind N p i - k else behind N p i + N - k)"
proof -
  have "(p + k) mod N = (if p + k < N then p + k else p + k - N)"
    using assms by (auto simp: mod_if)
  then show ?thesis
    using assms by (cases "p \<le> i"; cases "p + k < N"; cases "p + k \<le> i"; cases "p + k \<le> i + N")
      (auto simp: behind_def)
qed

lemma ring_put_twice:
  assumes "p < N" and "N \<le> length d" and "length (xs @ ys) \<le> N"
  shows "ring_put (ring_put d N p xs) N ((p + length xs) mod N) ys = ring_put d N p (xs @ ys)"
proof (rule nth_equalityI)
  let ?q = "(p + length xs) mod N" and ?d = "ring_put d N p xs"
  have q: "?q < N" using assms by simp
  have len: "length xs \<le> N" "length ys \<le> N" "length ?d = length d"
    using assms by (simp_all add: ring_put_nth)
  show "length (ring_put ?d N ?q ys) = length (ring_put d N p (xs @ ys))"
    using assms len q by (simp add: ring_put_nth)
  fix i
  assume "i < length (ring_put ?d N ?q ys)"
  then have i: "i < length d" "i < length ?d" using assms len q by (simp_all add: ring_put_nth)
  note nth = ring_put_behind [OF q, of ?d ys i, unfolded len(3), OF assms(2) len(2) i(1)]
    ring_put_behind [OF assms(1,2) len(1) i(1)] ring_put_behind [OF assms i(1)]
  show "ring_put ?d N ?q ys ! i = ring_put d N p (xs @ ys) ! i"
  proof (cases "i < N")
    case True
    note sh = behind_shift [OF assms(1) True len(1)]
    have "behind N p i < N" using True assms(1) by (auto simp: behind_def)
    then show ?thesis
      unfolding nth sh using True assms(3) by (auto simp: nth_append)
  qed (simp add: nth)
qed

lemma ucast_nat: "ucast (n :: u32) = (of_nat (unat n) :: u8)"
  by (rule word_unat_eq_iff [THEN iffD2]) (simp add: unsigned_ucast_eq unat_of_nat)

lemma poke_n_ring:
  assumes "fifo_ok f" and "esize f = 1" and "recsize \<in> {1, 2}"
  shows "do_kfifo_poke_n f n recsize =
    f\<lparr>kdata := ring_put (kdata f) (ring_size f) (pos f (in_idx f)) (enc_len recsize (unat n))\<rparr>"
proof -
  let ?N = "ring_size f" and ?p = "pos f (in_idx f)"
  have N: "?N \<le> length (kdata f)" and c: "ring_size f = cap f" and two: "2 \<le> ?N"
    using assms cap_bounds(1) [OF assms(1)] by (simp_all add: fifo_ok_def ring_size_def)
  have p: "pos f x < ?N" "unat (x AND kmask f) = pos f x" for x
    using pos_less [OF assms(1)] unat_masked [OF assms(1)] assms(2) by (simp_all add: pos_def)
  have one: "kfifo_poke f (in_idx f) (ucast n) = f\<lparr>kdata := ring_put (kdata f) ?N ?p [of_nat (unat n)]\<rparr>"
    unfolding kfifo_poke_def p(2) ucast_nat ring_put_single [OF p(1) N] ..
  have hi: "ucast (drop_bit 8 n) = (of_nat (unat n div 256) :: u8)"
    unfolding ucast_nat by (simp add: drop_bit_eq_div unat_div)
  have q: "pos f (in_idx f + 1) = (?p + 1) mod ?N"
    using pos_add [OF assms(1), of "in_idx f" 1] assms(2) by simp
  have l: "length (ring_put (kdata f) ?N ?p [of_nat (unat n)]) = length (kdata f)"
    using N p(1) two by (simp add: ring_put_nth)
  have "(ring_put (kdata f) ?N ?p [of_nat (unat n)])[pos f (in_idx f + 1) := of_nat (unat n div 256)] =
    ring_put (kdata f) ?N ?p ([of_nat (unat n)] @ [of_nat (unat n div 256)])"
    unfolding q using ring_put_twice [OF p(1) N, of "[of_nat (unat n)]" "[of_nat (unat n div 256)]" "in_idx f"] two
      ring_put_single [of "(?p + 1) mod ?N" ?N "ring_put (kdata f) ?N ?p [of_nat (unat n)]"] N l
    by simp
  then show ?thesis
    using assms(3) one p(2) [of "in_idx f + 1"]
    by (auto simp: do_kfifo_poke_n_def Let_def enc_len_def kfifo_poke_def hi)
qed

lemma recsize_nat: "recsize \<in> {1, 2} \<Longrightarrow> unat (of_nat recsize :: u32) = recsize"
  by auto

lemma kfifo_in_r_correct:
  assumes "records_ok recsize f" and rs: "recsize \<in> {1, 2}" and len: "unat len < 256 ^ recsize"
    and buf: "unat len \<le> length buf"
  shows "let (f', n) = do_kfifo_in_r f buf len recsize
         in if unat len + recsize \<le> cap f - used f
            then n = len \<and> records_ok recsize f' \<and> content f' = content f @ enc recsize (take (unat len) buf)
            else n = 0 \<and> f' = f"
proof -
  have ok: "fifo_ok f" and es: "esize f = 1" using assms(1) by (simp_all add: records_ok_def)
  let ?r = "take (unat len) buf" and ?p = "pos f (in_idx f)" and ?N = "ring_size f"
  have "unat len < 65536" using len rs by auto
  then have sum: "unat (len + of_nat recsize) = unat len + recsize"
    using recsize_nat [OF rs] rs by (auto simp: unat_word_ariths)
  show ?thesis
  proof (cases "unat len + recsize \<le> cap f - used f")
    case False
    then have "len + of_nat recsize > kfifo_unused f"
      using unused_nat [OF ok] sum by (simp add: word_less_nat_alt)
    with False show ?thesis by (simp add: do_kfifo_in_r_def)
  next
    case True
    let ?f1 = "do_kfifo_poke_n f len recsize" and ?e = "enc_len recsize (unat len)"
    have guard: "\<not> len + of_nat recsize > kfifo_unused f"
      using True unused_nat [OF ok] sum by (simp add: word_less_nat_alt)
    have N: "?N = cap f" "?p < ?N" "?N \<le> length (kdata f)"
      using ok es pos_less [OF ok] by (simp_all add: ring_size_def fifo_ok_def)
    have tot: "length (?e @ ?r) = unat len + recsize" "used f + (unat len + recsize) \<le> cap f"
      using rs buf True used_le [OF ok] by simp_all
    have f1: "?f1 = f\<lparr>kdata := ring_put (kdata f) ?N ?p ?e\<rparr>"
      by (rule poke_n_ring [OF ok es rs])
    then have same: "cap ?f1 = cap f" "ring_size ?f1 = ?N" "pos ?f1 x = pos f x" "used ?f1 = used f" "esize ?f1 = 1" for x
      using es by (simp_all add: cap_def ring_size_def pos_def used_def)
    have "length (ring_put (kdata f) ?N ?p ?e) = length (kdata f)"
      by (rule ring_put_nth(1)) (use N tot in simp_all)
    then have ok1: "fifo_ok ?f1"
      using ok same es f1 by (simp add: fifo_ok_def)
    have "pos f (in_idx f + of_nat recsize) = (?p + length ?e) mod ?N"
      using pos_add [OF ok, of "in_idx f" "of_nat recsize"] es recsize_nat [OF rs] rs by simp
    then have cp: "kfifo_copy_in ?f1 buf len (in_idx f + of_nat recsize) =
      f\<lparr>kdata := ring_put (kdata f) ?N ?p (?e @ ?r)\<rparr>"
      using copy_in_ring [OF ok1, of len buf "in_idx f + of_nat recsize"] same tot buf
        ring_put_twice [OF N(2,3), of ?e ?r] N(1) rs
      by (simp add: f1)
    let ?f' = "f\<lparr>kdata := ring_put (kdata f) ?N ?p (?e @ ?r), in_idx := in_idx f + (len + of_nat recsize)\<rparr>"
    have run: "do_kfifo_in_r f buf len recsize = (?f', len)"
      using guard cp by (simp add: do_kfifo_in_r_def Let_def f1)
    have enc: "?e @ ?r = enc recsize ?r" using buf by (simp add: enc_def)
    have "unat (len + of_nat recsize) * unat (esize f) = length (?e @ ?r)" using sum es tot by simp
    note adv = advance_in [OF ok, of "len + of_nat recsize" "?e @ ?r", OF _ _ _ refl]
    have "fifo_ok ?f'" "content ?f' = content f @ enc recsize ?r"
      using adv(1,2) sum es tot N(1) enc by simp_all
    moreover obtain rs' where "content f = concat (map (enc recsize) rs')" "\<forall>r \<in> set rs'. rec_ok recsize r"
      using assms(1) by (auto simp: records_ok_def)
    ultimately have "records_ok recsize ?f' \<and> content ?f' = content f @ enc recsize ?r"
      using es len buf unfolding records_ok_def by (intro conjI exI [of _ "rs' @ [?r]"]) simp_all
    with True run show ?thesis by simp
  qed
qed

lemma content_nth: "i < used f * unat (esize f) \<Longrightarrow> content f ! i = kdata f ! ((pos f (out_idx f) + i) mod ring_size f)"
  by (simp add: content_def ring_def)

lemma peek_n_content:
  assumes "fifo_ok f" and "esize f = 1" and "recsize \<in> {1, 2}" and "recsize \<le> used f"
  shows "unat (do_kfifo_peek_n f recsize) = dec_len recsize (content f)"
proof -
  have p: "kfifo_peek f (out_idx f + of_nat i) = content f ! i" if "i < recsize" for i
  proof -
    have "i < 2 ^ 32" using that assms(3) by auto
    then have "unat (of_nat i :: u32) = i" by (simp add: unat_of_nat_small)
    then have "unat ((out_idx f + of_nat i) AND kmask f) = (pos f (out_idx f) + i) mod ring_size f"
      using pos_add [OF assms(1), of "out_idx f" "of_nat i"] unat_masked [OF assms(1)] assms(2)
      by (simp add: pos_def)
    then show ?thesis using content_nth [of i f] that assms by (simp add: kfifo_peek_def)
  qed
  let ?lo = "content f ! 0" and ?hi = "content f ! 1"
  have "unat (ucast ?lo OR push_bit 8 (ucast ?hi) :: u32) = unat ?lo + 256 * unat ?hi"
  proof -
    have "ucast ?lo AND push_bit 8 (ucast ?hi) = (0 :: u32)"
      by (rule bit_word_eqI) (auto simp: bit_simps dest: bit_imp_le_length)
    then have "(ucast ?lo OR push_bit 8 (ucast ?hi) :: u32) = ucast ?lo + push_bit 8 (ucast ?hi)"
      by (simp add: disjunctive_add_eq_or)
    moreover have "unat ?lo < 256" "unat ?hi < 256" using unat_bound [of ?lo] unat_bound [of ?hi] by simp_all
    ultimately show ?thesis
      by (simp add: push_bit_eq_mult unat_word_ariths unsigned_ucast_eq take_bit_nat_eq_self)
  qed
  moreover have "unat (ucast ?lo :: u32) = unat ?lo"
    using unat_bound [of ?lo] by (simp add: unsigned_ucast_eq take_bit_nat_eq_self)
  ultimately show ?thesis
    using p [of 0] p [of 1] assms(3) by (auto simp: do_kfifo_peek_n_def dec_len_def Let_def)
qed

lemma kfifo_out_r_correct:
  assumes ok: "records_ok recsize f" and rs: "recsize \<in> {1, 2}"
  shows "let (f', bytes, n) = do_kfifo_out_r f len recsize
         in records_ok recsize f' \<and>
            (case records recsize f of
               [] \<Rightarrow> f' = f \<and> bytes = [] \<and> n = 0
             | r # rest \<Rightarrow> bytes = take (unat len) r \<and> unat n = length bytes \<and> records recsize f' = rest)"
proof -
  have fok: "fifo_ok f" and es: "esize f = 1" using ok by (simp_all add: records_ok_def)
  obtain qs where qs: "content f = concat (map (enc recsize) qs)" "\<forall>r \<in> set qs. rec_ok recsize r"
    using ok by (auto simp: records_ok_def)
  have rec: "records recsize f = qs" by (rule records_eq [OF rs qs])
  have used: "length (content f) = used f" using es by simp
  have empty: "in_idx f = out_idx f \<longleftrightarrow> used f = 0"
    by (simp add: used_def unat_0_iff)
  show ?thesis
  proof (cases qs)
    case Nil
    then have "in_idx f = out_idx f" using empty qs used by simp
    with Nil rec ok show ?thesis by (simp add: do_kfifo_out_r_def)
  next
    case (Cons r rest)
    let ?n = "do_kfifo_peek_n f recsize"
    have c: "content f = enc recsize r @ concat (map (enc recsize) rest)" using qs Cons by simp
    have lr: "length (enc recsize r) = recsize + length r" using rs by (simp add: enc_def)
    then have u: "recsize + length r \<le> used f" using c used by (metis le_add1 length_append)
    have n: "unat ?n = length r"
      using peek_n_content [OF fok es rs] u dec_enc [OF rs, of r] qs Cons c by simp
    have ne: "in_idx f \<noteq> out_idx f" using u rs empty by auto
    let ?len = "if len > ?n then ?n else len"
    have l: "unat ?len = min (unat len) (length r)" using n by (auto simp: word_less_nat_alt)
    have lc: "unat ?len \<le> cap f" using l u used_le [OF fok] by linarith
    have "unat (?n + of_nat recsize) = length r + recsize"
    proof -
      have "length r < 65536" using qs Cons rs by auto
      then show ?thesis using n recsize_nat [OF rs] rs by (auto simp: unat_word_ariths)
    qed
    then have adv: "fifo_ok (f\<lparr>out_idx := out_idx f + (?n + of_nat recsize)\<rparr>)"
      "content (f\<lparr>out_idx := out_idx f + (?n + of_nat recsize)\<rparr>) = concat (map (enc recsize) rest)"
      using advance_out [OF fok, of "?n + of_nat recsize"] u c lr es by simp_all
    have "kfifo_copy_out f ?len (out_idx f + of_nat recsize) = take (unat len) r"
    proof -
      have "kfifo_copy_out f ?len (out_idx f + of_nat recsize) =
        ring (kdata f) (ring_size f) ((pos f (out_idx f) + recsize) mod ring_size f) (unat ?len)"
        using copy_out_ring [OF fok lc, of "out_idx f + of_nat recsize"] es
          pos_add [OF fok, of "out_idx f" "of_nat recsize"] recsize_nat [OF rs] by simp
      also have "\<dots> = take (unat ?len) (drop recsize (content f))"
      proof -
        have "used f = recsize + (unat ?len + (used f - recsize - unat ?len))" using u l by simp
        then have "content f = ring (kdata f) (ring_size f) (pos f (out_idx f))
            (recsize + (unat ?len + (used f - recsize - unat ?len)))"
          using es by (simp add: content_def)
        then show ?thesis by (simp only: ring_add) simp
      qed
      also have "\<dots> = take (unat len) r" using c l rs by (simp add: enc_def min_def)
      finally show ?thesis .
    qed
    moreover have "records_ok recsize (f\<lparr>out_idx := out_idx f + (?n + of_nat recsize)\<rparr>)"
      using adv es qs Cons unfolding records_ok_def by auto
    moreover have "records recsize (f\<lparr>out_idx := out_idx f + (?n + of_nat recsize)\<rparr>) = rest"
      by (rule records_eq [OF rs adv(2)]) (use qs Cons in simp)
    ultimately show ?thesis
      using ne rec Cons l by (simp add: do_kfifo_out_r_def kfifo_out_copy_r_def Let_def)
  qed
qed

text \<open>The record operations as a queue of records; a get asks for the longest record.\<close>

definition put_rec :: "nat \<Rightarrow> kfifo \<Rightarrow> u8 list \<Rightarrow> kfifo \<times> u8 list list" where
  "put_rec recsize f r =
     (let (f', n) = do_kfifo_in_r f r (of_nat (length r)) recsize
      in (f', if length r + recsize \<le> cap f - used f then [r] else []))"

definition get_rec :: "nat \<Rightarrow> kfifo \<Rightarrow> u32 \<Rightarrow> kfifo \<times> u8 list list" where
  "get_rec recsize f len =
     (let (f', bytes, n) = do_kfifo_out_r f 4294967295 recsize
      in (f', if in_idx f = out_idx f then [] else [bytes]))"

lemma put_rec_law:
  assumes "records_ok recsize f" and "recsize \<in> {1, 2}" and "rec_ok recsize r" and "put_rec recsize f r = (f', xs)"
  shows "records_ok recsize f' \<and> records recsize f' = records recsize f @ xs"
proof -
  have "length r < 2 ^ 32" using assms(2,3) by auto
  then have l: "unat (of_nat (length r) :: u32) = length r" by (simp add: unat_of_nat_small)
  obtain qs where qs: "content f = concat (map (enc recsize) qs)" "\<forall>r \<in> set qs. rec_ok recsize r"
    using assms(1) by (auto simp: records_ok_def)
  note io = kfifo_in_r_correct [OF assms(1,2), of "of_nat (length r)" r, unfolded l, OF assms(3) order_refl]
  show ?thesis
  proof (cases "length r + recsize \<le> cap f - used f")
    case True
    then have c: "records_ok recsize f'" "content f' = content f @ enc recsize r" "xs = [r]"
      using io assms(4) by (auto simp: put_rec_def Let_def split: prod.splits)
    have "content f' = concat (map (enc recsize) (qs @ [r]))" using c(2) qs(1) by simp
    from records_eq [OF assms(2) this] records_eq [OF assms(2) qs] show ?thesis
      using c qs(2) assms(3) by simp
  next
    case False
    then have "f' = f" "xs = []"
      using io assms(4) by (auto simp: put_rec_def Let_def split: prod.splits)
    with assms(1) show ?thesis by simp
  qed
qed

lemma get_rec_law:
  assumes "records_ok recsize f" and "recsize \<in> {1, 2}" and "get_rec recsize f n = (f', xs)"
  shows "records_ok recsize f' \<and> records recsize f = xs @ records recsize f'"
proof -
  obtain bytes m where o: "do_kfifo_out_r f 4294967295 recsize = (f', bytes, m)"
    and xs: "xs = (if in_idx f = out_idx f then [] else [bytes])"
    using assms(3) by (auto simp: get_rec_def split: prod.splits)
  note io = kfifo_out_r_correct [OF assms(1,2), of 4294967295, unfolded o]
  obtain qs where qs: "content f = concat (map (enc recsize) qs)" "\<forall>r \<in> set qs. rec_ok recsize r"
    using assms(1) by (auto simp: records_ok_def)
  have rec: "records recsize f = qs" by (rule records_eq [OF assms(2) qs])
  have empty: "in_idx f = out_idx f \<longleftrightarrow> content f = []"
    using assms(1) by (simp add: used_def unat_0_iff records_ok_def flip: length_0_conv)
  show ?thesis
  proof (cases qs)
    case Nil
    then show ?thesis using io rec qs(1) empty xs assms(1) by simp
  next
    case (Cons r rest)
    then have "content f \<noteq> []" using qs(1) assms(2) by (auto simp: enc_def enc_len_def)
    moreover have "length r < 2 ^ 32 - 1" using qs(2) Cons assms(2) by auto
    ultimately show ?thesis using io rec Cons empty xs by simp
  qed
qed

interpretation kr1: fifo_contract "records_ok 1" "records 1" "\<lambda>f r. rec_ok 1 r" "put_rec 1" "get_rec 1"
proof (unfold_locales, goal_cases)
  case (1 f r f' xs)
  then show ?case using put_rec_law [OF 1(1) _ 1(2,3)] by blast
next
  case (2 f n f' xs)
  then show ?case using get_rec_law [OF 2(1) _ 2(2)] by blast
qed

interpretation kr2: fifo_contract "records_ok 2" "records 2" "\<lambda>f r. rec_ok 2 r" "put_rec 2" "get_rec 2"
proof (unfold_locales, goal_cases)
  case (1 f r f' xs)
  then show ?case using put_rec_law [OF 1(1) _ 1(2,3)] by blast
next
  case (2 f n f' xs)
  then show ?case using get_rec_law [OF 2(1) _ 2(2)] by blast
qed

section \<open>Reading from user space\<close>

lemma round_up_missing:
  fixes es R n :: nat
  assumes "0 < es" and "R < n * es"
  shows "n - (n * es - R + es - 1) div es = R div es" and "(n * es - R + es - 1) div es \<le> n"
    and "0 < (n * es - R + es - 1) div es"
proof -
  let ?q = "R div es" and ?r = "R mod es"
  have R: "R = ?q * es + ?r" "?r < es" using assms(1) by simp_all
  have q: "?q < n" using assms(2) by (simp add: div_less_iff_less_mult assms(1))
  have "n * es = (n - ?q) * es + ?q * es" using q by (simp add: add_mult_distrib [symmetric])
  moreover have "es \<le> (n - ?q) * es" using q by (cases "n - ?q") auto
  ultimately have "n * es - R + es - 1 = (n - ?q) * es + (es - 1 - ?r)"
    using R by linarith
  then have "(n * es - R + es - 1) div es = n - ?q"
    using R(2) by (simp only:) (rule div_nat_eqI, simp_all add: mult.commute)
  with q show "n - (n * es - R + es - 1) div es = R div es" "(n * es - R + es - 1) div es \<le> n"
    "0 < (n * es - R + es - 1) div es" by simp_all
qed

lemma round_up_word:
  assumes "0 < es" and "unat x + unat es < 2 ^ 32"
  shows "unat (DIV_ROUND_UP x es) = (unat x + unat es - 1) div unat es"
proof -
  have "unat (x + es) = unat x + unat es" using assms(2) by (simp add: unat_word_ariths)
  moreover have "0 < x + es" using calculation assms(1) by (simp add: word_less_nat_alt)
  ultimately have "unat (x + es - 1) = unat x + unat es - 1" using unat_dec [of "x + es"] by simp
  then show ?thesis by (simp add: DIV_ROUND_UP_def unat_div)
qed

lemma ring_put_one_piece: "p + length bs \<le> N \<Longrightarrow> memcpy_at d p bs = ring_put d N p bs"
  by (simp add: ring_put_def memcpy_at_def Let_def)

lemma ring_put_two_pieces:
  "p < N \<Longrightarrow> length b1 = N - p \<Longrightarrow> memcpy_at (memcpy_at d p b1) 0 b2 = ring_put d N p (b1 @ b2)"
  by (simp add: ring_put_def Let_def)

lemma copy_from_user_ring:
  assumes ok: "fifo_ok f" and len: "unat len \<le> cap f" and run: "kfifo_copy_from_user f from len off = (f', ret, copied)"
  defines "L \<equiv> unat len * unat (esize f)"
  obtains src where "f' = f\<lparr>kdata := ring_put (kdata f) (ring_size f) (pos f off) src\<rparr>" "length src \<le> L"
    "min (length from) L \<le> length src" "take (min (length from) L) src = take (min (length from) L) from"
    "unat ret = (if length from < L then (L - length from + unat (esize f) - 1) div unat (esize f) else 0)"
proof -
  let ?R = "length from" and ?es = "unat (esize f)" and ?N = "ring_size f" and ?p = "pos f off"
  obtain o1 n l where p: "pieces f len off = (o1, n, l)" by (metis prod_cases3)
  note nat = pieces_nat [OF ok len p, folded L_def]
  have es: "0 < esize f" "0 < ?es" using ok by (simp_all add: fifo_ok_def word_less_nat_alt)
  have N: "?p < ?N" "?N \<le> 2 ^ 31" "L \<le> ?N" "2 * ?es \<le> ?N"
    using ok pos_less [OF ok] mult_le_mono1 [OF len, of ?es] cap_bounds(1) [OF ok]
    by (simp_all add: fifo_ok_def L_def ring_size_def)
  have word: "unat (DIV_ROUND_UP x (esize f)) = (unat x + ?es - 1) div ?es" if "unat x \<le> L" for x
    using that N by (intro round_up_word es(1)) simp
  let ?b1 = "take (unat l) from @ replicate (unat l - ?R) 0"
  let ?rest = "drop (unat l) from"
  let ?b2 = "take (L - unat l) ?rest @ replicate (L - unat l - length ?rest) 0"
  have lL: "unat l \<le> L" "unat l \<le> ?N - ?p" using nat(3) by simp_all
  show ?thesis
  proof (cases "?R < unat l")
    case True
    have "of_nat (unat l - ?R) + of_nat (unat n) = (of_nat (L - ?R) + of_nat (unat l) :: u32)"
      unfolding nat(2) of_nat_add [symmetric] using True lL by (intro arg_cong [where f = of_nat]) linarith
    then have "of_nat (unat l - ?R) + n - l = of_nat (L - ?R)" by (simp add: algebra_simps)
    moreover have x: "unat (of_nat (L - ?R) :: u32) = L - ?R" using N by (intro unat_of_nat_small) simp
    ultimately have ret: "unat ret = (L - ?R + ?es - 1) div ?es" and f': "f' = f\<lparr>kdata := memcpy_at (kdata f) ?p ?b1\<rparr>"
      using run True word [of "of_nat (L - ?R)"]
      by (auto simp: kfifo_copy_from_user_def p copy_from_user_def nat(1) Let_def)
    have "memcpy_at (kdata f) ?p ?b1 = ring_put (kdata f) ?N ?p ?b1"
      using lL(2) N(1) True by (intro ring_put_one_piece) simp
    moreover have "min ?R L = ?R" using True lL by simp
    ultimately show ?thesis
      by (intro that [of ?b1]) (use True lL ret f' in simp_all)
  next
    case False
    let ?r2 = "L - unat l - length ?rest"
    have r2: "?r2 = L - ?R" using False by simp
    have x: "unat (of_nat ?r2 :: u32) = L - ?R"
      unfolding r2 using N by (intro unat_of_nat_small) simp
    have ret: "unat ret = (if ?R < L then (L - ?R + ?es - 1) div ?es else 0)"
      and f': "f' = f\<lparr>kdata := memcpy_at (memcpy_at (kdata f) ?p (take (unat l) from)) 0 ?b2\<rparr>"
      using run False word [of "of_nat ?r2"] x r2 lL
      by (auto simp: kfifo_copy_from_user_def p copy_from_user_def nat(1,4) Let_def split: if_splits)
    have "memcpy_at (memcpy_at (kdata f) ?p (take (unat l) from)) 0 ?b2 =
      ring_put (kdata f) ?N ?p (take (unat l) from @ ?b2)"
    proof (cases "unat l = L")
      case True
      then show ?thesis
        using ring_put_one_piece [of ?p "take (unat l) from" ?N "kdata f"] lL(2) False N(1)
        by (simp add: memcpy_at_def)
    next
      case l: False
      then have "unat l = ?N - ?p" using nat(3) by linarith
      then show ?thesis using False N(1) by (intro ring_put_two_pieces) simp_all
    qed
    moreover have "take (min ?R L) (take (unat l) from @ ?b2) = take (min ?R L) from"
    proof -
      have "take (unat l) from @ take (L - unat l) ?rest = take L from"
        using append_take_drop_id [of "unat l" "take L from"] lL(1) by (simp add: min_absorb1 take_drop)
      then have "take (unat l) from @ ?b2 = take L from @ replicate (L - unat l - length ?rest) 0" by simp
      then show ?thesis by (simp only: take_append take_take) simp
    qed
    moreover have "length (take (unat l) from @ ?b2) = L" using False lL by simp
    moreover have "(if ?R < L then (L - ?R + ?es - 1) div ?es else 0) = unat ret" by (simp only: ret)
    ultimately show ?thesis using f' by (intro that [of "take (unat l) from @ ?b2"]) (simp_all only:)
  qed
qed

lemma from_user_correct:
  assumes ok: "fifo_ok f" and run: "do_kfifo_from_user f from len = (f', res, copied)"
  defines "es \<equiv> unat (esize f)"
  defines "want \<equiv> min (unat len div es) (cap f - used f)"
  shows "fifo_ok f' \<and> content f' = content f @ take (min want (length from div es) * es) from \<and>
    res = (if length from < want * es then Inl EFAULT else Ok)"
proof -
  have es: "0 < es" using ok by (simp add: es_def fifo_ok_def word_less_nat_alt)
  let ?len1 = "if esize f \<noteq> 1 then len div esize f else len"
  let ?len2 = "if ?len1 > kfifo_unused f then kfifo_unused f else ?len1"
  have "unat ?len1 = unat len div es" by (simp add: es_def unat_div)
  then have l2: "unat ?len2 = want"
    using unused_nat [OF ok] by (auto simp: want_def word_less_nat_alt)
  have wc: "want \<le> cap f" "used f + want \<le> cap f" using used_le [OF ok] by (simp_all add: want_def)
  obtain f1 ret c where cp: "kfifo_copy_from_user f from ?len2 (in_idx f) = (f1, ret, c)" by (metis prod_cases3)
  let ?len3 = "if ret \<noteq> 0 then ?len2 - ret else ?len2"
  have f': "f' = f1\<lparr>in_idx := in_idx f1 + ?len3\<rparr>" and res: "res = (if ret \<noteq> 0 then Inl EFAULT else Ok)"
    using run cp by (auto simp: do_kfifo_from_user_def Let_def)
  obtain src where f1: "f1 = f\<lparr>kdata := ring_put (kdata f) (ring_size f) (pos f (in_idx f)) src\<rparr>"
    and src: "length src \<le> want * es" "min (length from) (want * es) \<le> length src"
      "take (min (length from) (want * es)) src = take (min (length from) (want * es)) from"
    and ret: "unat ret = (if length from < want * es then (want * es - length from + es - 1) div es else 0)"
    using copy_from_user_ring [OF ok _ cp] wc l2 by (simp only: es_def) metis
  have len3: "unat ?len3 = min want (length from div es)" and iff: "ret \<noteq> 0 \<longleftrightarrow> length from < want * es"
  proof -
    show iff: "ret \<noteq> 0 \<longleftrightarrow> length from < want * es"
      using ret round_up_missing(3) [OF es, of "length from" want] by (auto simp: unat_eq_0 [symmetric])
    show "unat ?len3 = min want (length from div es)"
    proof (cases "length from < want * es")
      case True
      note r = round_up_missing [OF es True]
      have "ret \<le> ?len2" using r(2) ret True l2 by (simp add: word_le_nat_alt)
      then have "unat (?len2 - ret) = want - unat ret" by (simp only: unat_sub l2)
      moreover have "length from div es < want" using True es by (simp add: div_less_iff_less_mult)
      ultimately show ?thesis using iff True ret r(1) by simp
    next
      case False
      then have "want \<le> length from div es" using es by (simp add: less_eq_div_iff_mult_less_eq)
      then show ?thesis using iff False l2 by simp
    qed
  qed
  let ?g = "min want (length from div es)"
  have g: "?g * es \<le> min (length from) (want * es)"
  proof -
    have "?g * es \<le> length from div es * es" "?g * es \<le> want * es" by (intro mult_le_mono1; simp)+
    with div_times_less_eq_dividend [of "length from" es] show ?thesis by linarith
  qed
  have room: "used f * unat (esize f) + length src \<le> ring_size f"
    using src(1) mult_le_mono1 [OF wc(2), of es] by (simp add: ring_size_def es_def add_mult_distrib)
  have len: "unat ?len3 * unat (esize f) \<le> length src" "used f + unat ?len3 \<le> cap f"
    unfolding len3 es_def [symmetric] using g src(2) wc(2) by linarith+
  have eq: "f' = f\<lparr>kdata := ring_put (kdata f) (ring_size f) (pos f (in_idx f)) src, in_idx := in_idx f + ?len3\<rparr>"
    by (simp add: f' f1)
  have adv1: "fifo_ok f'" unfolding eq by (rule advance_in(1) [OF ok len(1) room len(2) refl])
  have "content f' = content f @ take (unat ?len3 * unat (esize f)) src"
    unfolding eq by (rule advance_in(2) [OF ok len(1) room len(2) refl])
  then have adv2: "content f' = content f @ take (?g * es) src" unfolding len3 es_def [symmetric] .
  have "take (?g * es) src = take (?g * es) from"
    using arg_cong [OF src(3), of "take (?g * es)"] g by (simp only: take_take min_absorb1)
  with adv1 adv2 res iff show ?thesis by simp
qed

section \<open>Allocation\<close>

lemma fls_nat_bounds: "0 < n \<Longrightarrow> 0 < fls_nat n \<and> 2 ^ (fls_nat n - 1) \<le> n \<and> n < 2 ^ fls_nat n"
proof (induction n rule: fls_nat.induct)
  case (1 n)
  show ?case
  proof (cases "n = 1")
    case True
    then show ?thesis by (simp add: fls_nat.simps [of "Suc 0"] fls_nat.simps [of 0])
  next
    case False
    then have pos: "n \<noteq> 0" "0 < n div 2" using "1.prems" by auto
    note IH = "1.IH" [OF pos]
    have f: "fls_nat n = fls_nat (n div 2) + 1" using pos by (simp add: fls_nat.simps [of n])
    obtain m where m: "fls_nat (n div 2) = Suc m" using IH by (cases "fls_nat (n div 2)") auto
    have "2 * 2 ^ m \<le> n" "n < 2 * 2 ^ Suc m" using IH m by auto
    then show ?thesis by (simp add: f m)
  qed
qed

lemma rounddown_nat:
  assumes "0 < n"
  shows "\<exists>k < 32. unat (rounddown_pow_of_two n) = 2 ^ k \<and> 2 ^ k \<le> unat n \<and> unat n < 2 * 2 ^ k"
proof -
  let ?k = "fls_nat (unat n) - 1"
  have b: "0 < fls_nat (unat n)" "2 ^ ?k \<le> unat n" "unat n < 2 ^ fls_nat (unat n)"
    using fls_nat_bounds [of "unat n"] assms by (simp_all add: word_less_nat_alt)
  have "(2 :: nat) ^ ?k < 2 ^ 32" using b(2) unat_bound [of n] by simp
  then have k: "?k < 32" by (simp only: power_strict_increasing_iff)
  have "(push_bit ?k 1 :: u32) = of_nat (2 ^ ?k)" by (simp add: push_bit_eq_mult)
  then have "unat (push_bit ?k 1 :: u32) = 2 ^ ?k"
    using unat_of_nat_small [of "2 ^ ?k", where 'a = 32] \<open>(2 :: nat) ^ ?k < 2 ^ 32\<close> by simp
  moreover have "(2 :: nat) ^ fls_nat (unat n) = 2 * 2 ^ ?k" using b(1) by (cases "fls_nat (unat n)") auto
  ultimately show ?thesis
    using assms k b by (auto simp: rounddown_pow_of_two_def intro!: exI [of _ ?k])
qed

lemma top_bit_set:
  fixes n :: u32
  assumes "2 ^ k \<le> unat n" and "unat n < 2 * 2 ^ k" and "k < 32"
  shows "bit n k"
proof -
  have "unat n div 2 ^ k = 1" using assms(1,2) by (intro div_nat_eqI) auto
  then have "bit (unat n) k" by (simp add: bit_iff_odd)
  then show ?thesis by (simp add: bit_unsigned_iff)
qed

lemma power_of_2_rounddown: "is_power_of_2 n \<Longrightarrow> rounddown_pow_of_two n = n"
proof (rule ccontr)
  assume p: "is_power_of_2 n" and ne: "rounddown_pow_of_two n \<noteq> n"
  have pos: "0 < n" using p by (simp add: is_power_of_2_def word_gt_0)
  then obtain k where k: "k < 32" "unat (rounddown_pow_of_two n) = 2 ^ k" "2 ^ k \<le> unat n" "unat n < 2 * 2 ^ k"
    using rounddown_nat by blast
  have "unat n \<noteq> 2 ^ k" using ne k(2) by (metis word_unat_eq_iff)
  moreover have "unat (n - 1) = unat n - 1" using pos by (simp add: unat_minus_one word_gt_0)
  ultimately have "bit n k" "bit (n - 1) k" using k by (auto intro!: top_bit_set)
  then have "bit (n AND (n - 1)) k" by (simp add: bit_and_iff)
  with p show False by (simp add: is_power_of_2_def)
qed

lemma rounded_size: "(if \<not> is_power_of_2 n then rounddown_pow_of_two n else n) = rounddown_pow_of_two n"
  using power_of_2_rounddown by auto

lemma fresh_ok:
  assumes "unat sz = 2 ^ k" "0 < k" "k < 32" "0 < es" "unat sz * unat es \<le> 2 ^ 31" "unat sz * unat es \<le> length b"
  shows "fifo_ok \<lparr>in_idx = 0, out_idx = 0, kmask = sz - 1, esize = es, kdata = b\<rparr> \<and>
    content \<lparr>in_idx = 0, out_idx = 0, kmask = sz - 1, esize = es, kdata = b\<rparr> = [] \<and>
    cap \<lparr>in_idx = 0, out_idx = 0, kmask = sz - 1, esize = es, kdata = b\<rparr> = 2 ^ k"
proof -
  have "sz \<noteq> 0" using assms(1) by auto
  then have "unat (sz - 1) + 1 = unat sz"
    using assms(1) by (simp add: unat_minus_one)
  then have cap: "cap \<lparr>in_idx = 0, out_idx = 0, kmask = sz - 1, esize = es, kdata = b\<rparr> = unat sz"
    by (simp add: cap_def)
  then show ?thesis
    using assms by (auto simp: fifo_ok_def ring_size_def content_def used_def ring_def)
qed

section \<open>Properties\<close>

text \<open>
  \<^verbatim>\<open>__kfifo_alloc\<close> makes an empty, well-formed fifo whose capacity is the largest power of two
  that is not above the requested number of elements.  It fails with EINVAL exactly for fewer than
  two elements and with ENOMEM exactly when the allocator has no room.  The allocator is a
  parameter; a block has the requested length.
\<close>

theorem kfifo_alloc_capacity:
  assumes kmalloc: "\<forall>k b. kmalloc k = Some b \<longrightarrow> length b = k"
    and es: "0 < es" and size: "unat n * unat es \<le> 2 ^ 31"
  shows "case do_kfifo_alloc kmalloc n es of
      (Inl e, f) \<Rightarrow> kdata f = [] \<and> (if n < 2 then e = EINVAL else e = ENOMEM \<and> (\<exists>k \<le> unat n * unat es. kmalloc k = None))
    | (Inr _, f) \<Rightarrow> 2 \<le> n \<and> fifo_ok f \<and> content f = [] \<and> esize f = es \<and> cap f \<le> unat n \<and> unat n < 2 * cap f"
proof (cases "n < 2")
  case True
  then have "n = 0 \<or> n = 1" by (auto simp: word_less_nat_alt word_unat_eq_iff)
  then show ?thesis by (auto simp: do_kfifo_alloc_def is_power_of_2_def rounddown_pow_of_two_def Let_def)
next
  case False
  let ?sz = "rounddown_pow_of_two n"
  have n: "2 \<le> unat n" using False by (simp add: word_less_nat_alt)
  then have "0 < n" by (simp add: word_less_nat_alt)
  then obtain k where k: "k < 32" "unat ?sz = 2 ^ k" "2 ^ k \<le> unat n" "unat n < 2 * 2 ^ k"
    using rounddown_nat by blast
  have k0: "0 < k" using n k(4) by (cases k) auto
  then have sz2: "\<not> ?sz < 2" using k(2) by (cases k) (auto simp: word_less_nat_alt)
  have bytes: "unat ?sz * unat es \<le> unat n * unat es" unfolding k(2) by (rule mult_le_mono1 [OF k(3)])
  have le: "unat ?sz * unat es \<le> 2 ^ 31" using bytes size by linarith
  have "unat (?sz * es) = unat ?sz * unat es"
    using le by (simp add: unat_mult_lem [THEN iffD1])
  moreover have "2 \<le> n" using n by (simp add: word_le_nat_alt)
  moreover have "\<exists>k \<le> unat n * unat es. kmalloc k = None" if "kmalloc (unat ?sz * unat es) = None"
    using that bytes by blast
  ultimately show ?thesis
    using fresh_ok [OF k(2) k0 k(1) es le] kmalloc k False sz2
    unfolding do_kfifo_alloc_def rounded_size Let_def by (auto split: option.splits)
qed

theorem kfifo_alloc_capacity_witness:
  "snd (do_kfifo_alloc (\<lambda>k. if k < 4096 then Some (replicate k 0) else None) 5 3) =
     \<lparr>in_idx = 0, out_idx = 0, kmask = 3, esize = 3, kdata = replicate 12 0\<rparr> \<and>
   cap (snd (do_kfifo_alloc (\<lambda>k. if k < 4096 then Some (replicate k 0) else None) 5 3)) \<le> 5"
proof -
  have r: "do_kfifo_alloc (\<lambda>k. if k < 4096 then Some (replicate k 0) else None) 5 3 =
    (Ok, \<lparr>in_idx = 0, out_idx = 0, kmask = 3, esize = 3, kdata = replicate 12 0\<rparr>)"
    by (simp add: do_kfifo_alloc_def is_power_of_2_def rounddown_pow_of_two_def fls_nat.simps Let_def)
  show ?thesis
    using kfifo_alloc_capacity [of "\<lambda>k. if k < 4096 then Some (replicate k 0) else None" 3 5] unfolding r by simp
qed

text \<open>
  C11: Bytes leave a fifo in the order in which they came in, none is lost, doubled or invented:
  in every sequence of \<^verbatim>\<open>__kfifo_in\<close> and \<^verbatim>\<open>__kfifo_out\<close> on a well-formed fifo, what came out
  followed by what is still inside is what was inside followed by what was accepted.  The indices
  may wrap around the 32-bit range on the way.
\<close>

theorem kfifo_bytes_in_order:
  assumes "fifo_ok f" and "fifo_run bytes_valid put_bytes get_bytes ops f f' accepted delivered"
  shows "fifo_ok f' \<and> delivered @ content f' = content f @ accepted"
  using kf.run_order [OF assms(2,1)] .

definition wrap_fifo :: kfifo where
  "wrap_fifo = \<lparr>in_idx = 4294967295, out_idx = 4294967294, kmask = 3, esize = 1, kdata = [0, 0, 7, 0]\<rparr>"

theorem kfifo_bytes_in_order_witness:
  "\<exists>f'. fifo_run bytes_valid put_bytes get_bytes [Put ([1, 2, 3, 4], 4), Get 2] wrap_fifo f' [1, 2, 3] [7, 1] \<and>
     content f' = [2, 3]"
proof -
  let ?f1 = "\<lparr>in_idx = 2, out_idx = 4294967294, kmask = 3, esize = 1, kdata = [2, 3, 7, 1]\<rparr>"
  let ?f2 = "\<lparr>in_idx = 2, out_idx = 0, kmask = 3, esize = 1, kdata = [2, 3, 7, 1]\<rparr> :: kfifo"
  have "put_bytes wrap_fifo ([1, 2, 3, 4], 4) = (?f1, [1, 2, 3])"
    by (simp add: put_bytes_def do_kfifo_in_def kfifo_unused_def kfifo_copy_in_def pieces_def memcpy_at_def
        wrap_fifo_def Let_def min_def word_le_nat_alt)
  moreover have "get_bytes ?f1 2 = (?f2, [7, 1])"
    by (simp add: get_bytes_def do_kfifo_out_def do_kfifo_out_peek_def kfifo_copy_out_def pieces_def Let_def min_def)
  ultimately have run: "fifo_run bytes_valid put_bytes get_bytes [Put ([1, 2, 3, 4], 4), Get 2] wrap_fifo ?f2 ([1, 2, 3] @ []) ([7, 1] @ [])"
    by (intro fifo_run.put fifo_run.get) (auto simp: bytes_valid_def wrap_fifo_def intro: fifo_run.stop)
  have "fifo_ok wrap_fifo" and c: "content wrap_fifo = [7]"
    by (auto simp: fifo_ok_def cap_def ring_size_def used_def wrap_fifo_def content_def ring_def pos_def intro!: exI [of _ 2])
  from kfifo_bytes_in_order [OF this(1) run] run c show ?thesis by (intro exI [of _ ?f2]) simp
qed

text \<open>
  Record fifos keep their records whole and in order: in every sequence of
  \<^verbatim>\<open>__kfifo_in_r\<close> and \<^verbatim>\<open>__kfifo_out_r\<close> with headers of one or of two bytes, the records that
  came out followed by the records inside are the records that were inside followed by those
  accepted; a record is accepted as a whole or refused.
\<close>

theorem kfifo_records_in_order:
  assumes "recsize = 1 \<or> recsize = 2" and "records_ok recsize f"
    and "fifo_run (\<lambda>f r. rec_ok recsize r) (put_rec recsize) (get_rec recsize) ops f f' accepted delivered"
  shows "records_ok recsize f' \<and> delivered @ records recsize f' = records recsize f @ accepted"
  using assms(1)
proof
  assume r: "recsize = 1"
  show ?thesis using kr1.run_order assms(2,3) unfolding r by blast
next
  assume r: "recsize = 2"
  show ?thesis using kr2.run_order assms(2,3) unfolding r by blast
qed

definition record_fifo :: kfifo where
  "record_fifo = \<lparr>in_idx = 2, out_idx = 0, kmask = 7, esize = 1, kdata = [1, 9, 0, 0, 0, 0, 0, 0]\<rparr>"

theorem kfifo_records_in_order_witness:
  "\<exists>f'. fifo_run (\<lambda>f r. rec_ok 1 r) (put_rec 1) (get_rec 1) [Put [5, 6], Get 0] record_fifo f' [[5, 6]] [[9]] \<and>
     records 1 f' = [[5, 6]]"
proof -
  let ?f1 = "\<lparr>in_idx = 5, out_idx = 0, kmask = 7, esize = 1, kdata = [1, 9, 2, 5, 6, 0, 0, 0]\<rparr> :: kfifo"
  let ?f2 = "\<lparr>in_idx = 5, out_idx = 2, kmask = 7, esize = 1, kdata = [1, 9, 2, 5, 6, 0, 0, 0]\<rparr> :: kfifo"
  note ops = do_kfifo_in_r_def kfifo_unused_def kfifo_copy_in_def pieces_def memcpy_at_def do_kfifo_poke_n_def
    kfifo_poke_def do_kfifo_out_r_def kfifo_out_copy_r_def do_kfifo_peek_n_def kfifo_peek_def kfifo_copy_out_def
  have "put_rec 1 record_fifo [5, 6] = (?f1, [[5, 6]])"
    by (simp add: put_rec_def ops record_fifo_def cap_def used_def Let_def min_def word_le_nat_alt)
  moreover have "get_rec 1 ?f1 0 = (?f2, [[9]])"
    by (simp add: get_rec_def ops Let_def min_def word_le_nat_alt)
  ultimately have run: "fifo_run (\<lambda>f r. rec_ok 1 r) (put_rec 1) (get_rec 1) [Put [5, 6], Get 0] record_fifo ?f2
      ([[5, 6]] @ []) ([[9]] @ [])"
    by (intro fifo_run.put fifo_run.get) (auto intro: fifo_run.stop)
  have c: "content record_fifo = concat (map (enc 1) [[9]])"
    by (simp add: content_def ring_def ring_size_def cap_def pos_def used_def record_fifo_def enc_def enc_len_def upt_rec)
  have "fifo_ok record_fifo"
    by (auto simp: fifo_ok_def cap_def ring_size_def used_def record_fifo_def intro!: exI [of _ 3])
  with c have ok: "records_ok 1 record_fifo" by (auto simp: records_ok_def record_fifo_def intro!: exI [of _ "[[9]]"])
  have "records 1 record_fifo = [[9]]" using c by (intro records_eq) auto
  with kfifo_records_in_order [OF _ ok run] run show ?thesis by (intro exI [of _ ?f2]) simp
qed

text \<open>
  C12: \<^verbatim>\<open>__kfifo_from_user\<close> appends whole elements only.  With \<open>from\<close> the bytes that can be read at
  the user address, it appends as many elements as are asked for, fit, and can be read
  completely; it reports EFAULT exactly when fewer elements can be read than are asked for and fit.
\<close>

theorem kfifo_from_user_whole_elements:
  assumes "fifo_ok f" and "do_kfifo_from_user f from len = (f', res, copied)"
    and "want = min (unat len div unat (esize f)) (cap f - used f)"
  shows "fifo_ok f' \<and>
    content f' = content f @ take (min want (length from div unat (esize f)) * unat (esize f)) from \<and>
    res = (if length from < want * unat (esize f) then Inl EFAULT else Ok)"
  unfolding assms(3) by (rule from_user_correct [OF assms(1,2)])

definition pair_fifo :: kfifo where
  "pair_fifo = \<lparr>in_idx = 3, out_idx = 3, kmask = 3, esize = 2, kdata = [0, 0, 0, 0, 0, 0, 0, 0]\<rparr>"

lemma pair_fifo_from_user:
  "do_kfifo_from_user pair_fifo [1, 2, 3, 4, 5] 6 =
    (\<lparr>in_idx = 5, out_idx = 3, kmask = 3, esize = 2, kdata = [3, 4, 5, 0, 0, 0, 1, 2]\<rparr>, Inl EFAULT, 5)"
  by (simp add: do_kfifo_from_user_def kfifo_copy_from_user_def kfifo_unused_def pieces_def copy_from_user_def
      memcpy_at_def DIV_ROUND_UP_def pair_fifo_def Let_def min_def word_le_nat_alt)

theorem kfifo_from_user_whole_elements_witness:
  "fst (snd (do_kfifo_from_user pair_fifo [1, 2, 3, 4, 5] 6)) = Inl EFAULT \<and>
   content (fst (do_kfifo_from_user pair_fifo [1, 2, 3, 4, 5] 6)) = [1, 2, 3, 4]"
proof -
  have "fifo_ok pair_fifo" and "content pair_fifo = []"
    by (auto simp: fifo_ok_def cap_def ring_size_def used_def pair_fifo_def content_def ring_def intro!: exI [of _ 2])
  with kfifo_from_user_whole_elements [OF this(1) pair_fifo_from_user refl] show ?thesis
    by (simp add: pair_fifo_from_user) (simp add: pair_fifo_def cap_def used_def)
qed

text \<open>
  The number of bytes reported to the caller mixes units: of the call above two elements of two
  bytes have been stored, and \<^verbatim>\<open>*copied\<close> is 5 (six bytes less one missing element).
\<close>

theorem kfifo_copied_mixes_units:
  "\<exists>f' copied. do_kfifo_from_user pair_fifo [1, 2, 3, 4, 5] 6 = (f', Inl EFAULT, copied) \<and>
     used f' * unat (esize f') = 4 \<and> copied = 5"
  by (simp add: pair_fifo_from_user used_def)

end
