(* ===== verification/Capability.thy ===== *)
theory Capability
  imports Cred
begin

text \<open>
  Capability checks and the security module of \<^verbatim>\<open>security/commoncap.c\<close>, the system calls of
  \<^verbatim>\<open>kernel/capability.c\<close>, and the replacement of a task's credentials in \<^verbatim>\<open>kernel/cred.c\<close>.
  Without \<^verbatim>\<open>CONFIG_SECURITY\<close> the hooks \<^verbatim>\<open>security_*\<close> are the functions \<^verbatim>\<open>cap_*\<close> modelled here.

  The record \<open>task_struct\<close> is what the calls of the current task can change: its credentials, the
  flags of \<^verbatim>\<open>task->flags\<close>, its dumpability and death signal, and the number of processes each
  user has.  The record \<open>kernel_env\<close> holds what the calls read and do not change.  Results of
  system calls are values of \<open>errno + 'a\<close>; \<open>bug_hit\<close> records that a \<^verbatim>\<open>BUG()\<close> was reached.
\<close>

section \<open>State\<close>

record task_struct =
  cur_cred :: cred
  task_pid :: int
  PF_SUPERPRIV :: bool
  PF_NPROC_EXCEEDED :: bool
  has_mm :: bool
  MMF_DUMPABLE :: bool
  MMF_DUMP_SECURELY :: bool
  pdeath_signal :: int
  processes :: "user_struct \<Rightarrow> int"
  bug_hit :: bool

record kernel_env =
  cred_mem :: bool
  alloc_uid :: "user_namespace \<Rightarrow> u32 \<Rightarrow> user_struct option"
  rlimit_nproc :: int
  suid_dumpable :: int
  find_task :: "int \<Rightarrow> cred option"
  audit_fcaps :: "unit kresult"
  file_caps_enabled :: bool
  dac_mmap_min_addr :: u32
  vm_enough_memory :: "int \<Rightarrow> bool \<Rightarrow> unit kresult"

section \<open>Replacing credentials\<close>

definition prepare_creds :: "kernel_env \<Rightarrow> task_struct \<Rightarrow> cred option" where
  "prepare_creds env t = (if cred_mem env then Some (cur_cred t) else None)"

definition set_dumpable :: "int \<Rightarrow> task_struct \<Rightarrow> task_struct" where
  "set_dumpable v t =
     (if v = 0 then t\<lparr>MMF_DUMPABLE := False, MMF_DUMP_SECURELY := False\<rparr>
      else if v = 1 then t\<lparr>MMF_DUMPABLE := True, MMF_DUMP_SECURELY := False\<rparr>
      else if v = 2 then t\<lparr>MMF_DUMP_SECURELY := True, MMF_DUMPABLE := True\<rparr>
      else t)"

definition commit_creds :: "kernel_env \<Rightarrow> cred \<Rightarrow> task_struct \<Rightarrow> unit kresult \<times> task_struct" where
  "commit_creds env new t =
     (let old = cur_cred t;
          t1 = (if euid old \<noteq> euid new \<or> egid old \<noteq> egid new \<or> fsuid old \<noteq> fsuid new \<or>
                   fsgid old \<noteq> fsgid new \<or> \<not> cap_issubset (cap_permitted new) (cap_permitted old)
                then (let t' = (if has_mm t then set_dumpable (suid_dumpable env) t else t)
                      in t'\<lparr>pdeath_signal := 0\<rparr>)
                else t);
          p1 = (if user new \<noteq> user old
                then (processes t1)(user new := processes t1 (user new) + 1) else processes t1);
          t2 = t1\<lparr>cur_cred := new\<rparr>;
          p2 = (if user new \<noteq> user old then p1(user old := p1 (user old) - 1) else p1)
      in (Ok, t2\<lparr>processes := p2\<rparr>))"

section \<open>Capability checks\<close>

abbreviation INIT_USER :: user_struct where
  "INIT_USER \<equiv> User 0 Init_user_ns"

fun creator :: "user_namespace \<Rightarrow> user_struct" where
  "creator Init_user_ns = INIT_USER"
| "creator (User_ns n c) = c"

lemma user_ns_smaller: "size (user_ns u) < size u"
  by (cases u) simp

lemma creator_smaller: "ns \<noteq> Init_user_ns \<Longrightarrow> size (user_ns (creator ns)) < size ns"
proof (cases ns)
  case (User_ns n c)
  then show ?thesis using user_ns_smaller [of c] by simp
qed simp

function cap_capable :: "cred \<Rightarrow> user_namespace \<Rightarrow> nat \<Rightarrow> unit kresult" where
  "cap_capable cr targ_ns cap =
     (if targ_ns \<noteq> Init_user_ns \<and> creator targ_ns = user cr then Ok
      else if targ_ns = user_ns (user cr)
        then if cap_raised (cap_effective cr) cap then Ok else Inl EPERM
      else if targ_ns = Init_user_ns then Inl EPERM
      else cap_capable cr (user_ns (creator targ_ns)) cap)"
  by pat_completeness auto
termination
  by (relation "measure (\<lambda>(cr, ns, cap). size ns)") (auto simp: creator_smaller)

declare cap_capable.simps [simp del]

definition ns_capable :: "user_namespace \<Rightarrow> nat \<Rightarrow> task_struct \<Rightarrow> bool \<times> task_struct" where
  "ns_capable ns cap t =
     (if \<not> cap_valid cap then (False, t\<lparr>bug_hit := True\<rparr>)
      else if cap_capable (cur_cred t) ns cap = Ok then (True, t\<lparr>PF_SUPERPRIV := True\<rparr>)
      else (False, t))"

definition capable :: "nat \<Rightarrow> task_struct \<Rightarrow> bool \<times> task_struct" where
  "capable cap t = ns_capable Init_user_ns cap t"

definition task_ns_capable :: "cred \<Rightarrow> nat \<Rightarrow> task_struct \<Rightarrow> bool \<times> task_struct" where
  "task_ns_capable target cap t = ns_capable (user_ns (user target)) cap t"

definition nsown_capable :: "nat \<Rightarrow> task_struct \<Rightarrow> bool \<times> task_struct" where
  "nsown_capable cap t = ns_capable (user_ns (user (cur_cred t))) cap t"

definition has_ns_capability :: "cred \<Rightarrow> user_namespace \<Rightarrow> nat \<Rightarrow> bool" where
  "has_ns_capability target ns cap \<longleftrightarrow> cap_capable target ns cap = Ok"

definition has_capability :: "cred \<Rightarrow> nat \<Rightarrow> bool" where
  "has_capability target cap \<longleftrightarrow> cap_capable target Init_user_ns cap = Ok"

definition has_capability_noaudit :: "cred \<Rightarrow> nat \<Rightarrow> bool" where
  "has_capability_noaudit target cap \<longleftrightarrow> cap_capable target Init_user_ns cap = Ok"

section \<open>Hooks that decide\<close>

definition cap_netlink_recv :: "nat \<Rightarrow> task_struct \<Rightarrow> unit kresult" where
  "cap_netlink_recv cap t = (if \<not> cap_raised (cap_effective (cur_cred t)) cap then Inl EPERM else Ok)"

definition cap_settime :: "task_struct \<Rightarrow> unit kresult \<times> task_struct" where
  "cap_settime t = (let (b, t') = capable CAP_SYS_TIME t in (if b then Ok else Inl EPERM, t'))"

definition cap_ptrace_access_check :: "cred \<Rightarrow> task_struct \<Rightarrow> unit kresult \<times> task_struct" where
  "cap_ptrace_access_check child t =
     (let cr = cur_cred t
      in if user_ns (user cr) = user_ns (user child) \<and> cap_issubset (cap_permitted child) (cap_permitted cr)
         then (Ok, t)
         else (let (b, t') = ns_capable (user_ns (user child)) CAP_SYS_PTRACE t
               in (if b then Ok else Inl EPERM, t')))"

definition cap_ptrace_traceme :: "cred \<Rightarrow> task_struct \<Rightarrow> unit kresult" where
  "cap_ptrace_traceme parent t =
     (let child = cur_cred t
      in if user_ns (user parent) = user_ns (user child) \<and>
            cap_issubset (cap_permitted child) (cap_permitted parent) then Ok
         else if has_ns_capability parent (user_ns (user child)) CAP_SYS_PTRACE then Ok
         else Inl EPERM)"

abbreviation (input) XATTR_SECURITY_PREFIX :: string where "XATTR_SECURITY_PREFIX \<equiv> ''security.''"
abbreviation (input) XATTR_NAME_CAPS :: string where "XATTR_NAME_CAPS \<equiv> ''security.capability''"

definition cap_inode_setxattr :: "string \<Rightarrow> task_struct \<Rightarrow> unit kresult \<times> task_struct" where
  "cap_inode_setxattr name t =
     (if name = XATTR_NAME_CAPS
      then (let (b, t') = capable CAP_SETFCAP t in (if \<not> b then Inl EPERM else Ok, t'))
      else if take (length XATTR_SECURITY_PREFIX) name = XATTR_SECURITY_PREFIX
      then (let (b, t') = capable CAP_SYS_ADMIN t in (if \<not> b then Inl EPERM else Ok, t'))
      else (Ok, t))"

definition cap_inode_removexattr :: "string \<Rightarrow> task_struct \<Rightarrow> unit kresult \<times> task_struct" where
  "cap_inode_removexattr name t =
     (if name = XATTR_NAME_CAPS
      then (let (b, t') = capable CAP_SETFCAP t in (if \<not> b then Inl EPERM else Ok, t'))
      else if take (length XATTR_SECURITY_PREFIX) name = XATTR_SECURITY_PREFIX
      then (let (b, t') = capable CAP_SYS_ADMIN t in (if \<not> b then Inl EPERM else Ok, t'))
      else (Ok, t))"

definition cap_safe_nice :: "cred \<Rightarrow> task_struct \<Rightarrow> unit kresult \<times> task_struct" where
  "cap_safe_nice p t =
     (let is_subset = cap_issubset (cap_permitted p) (cap_permitted (cur_cred t))
      in if is_subset then (Ok, t)
         else (let (b, t') = capable CAP_SYS_NICE t in (if \<not> b then Inl EPERM else Ok, t')))"

definition cap_task_setscheduler :: "cred \<Rightarrow> task_struct \<Rightarrow> unit kresult \<times> task_struct" where
  "cap_task_setscheduler p t = cap_safe_nice p t"

definition cap_task_setioprio :: "cred \<Rightarrow> int \<Rightarrow> task_struct \<Rightarrow> unit kresult \<times> task_struct" where
  "cap_task_setioprio p ioprio t = cap_safe_nice p t"

definition cap_task_setnice :: "cred \<Rightarrow> int \<Rightarrow> task_struct \<Rightarrow> unit kresult \<times> task_struct" where
  "cap_task_setnice p nice t = cap_safe_nice p t"

definition cap_vm_enough_memory :: "kernel_env \<Rightarrow> int \<Rightarrow> task_struct \<Rightarrow> unit kresult" where
  "cap_vm_enough_memory env pages t =
     vm_enough_memory env pages (cap_capable (cur_cred t) Init_user_ns CAP_SYS_ADMIN = Ok)"

definition cap_file_mmap :: "kernel_env \<Rightarrow> u32 \<Rightarrow> task_struct \<Rightarrow> unit kresult \<times> task_struct" where
  "cap_file_mmap env addr t =
     (if addr < dac_mmap_min_addr env
      then (let ret = cap_capable (cur_cred t) Init_user_ns CAP_SYS_RAWIO
            in (ret, if ret = Ok then t\<lparr>PF_SUPERPRIV := True\<rparr> else t))
      else (Ok, t))"

section \<open>Reading and setting the capability sets\<close>

definition cap_capget :: "cred \<Rightarrow> kernel_cap_t \<times> kernel_cap_t \<times> kernel_cap_t" where
  \<comment> \<open>effective, inheritable, permitted\<close>
  "cap_capget target = (cap_effective target, cap_inheritable target, cap_permitted target)"

definition cap_inh_is_capped :: "task_struct \<Rightarrow> bool" where
  "cap_inh_is_capped t \<longleftrightarrow>
     cap_capable (cur_cred t) (user_ns (user (cur_cred t))) CAP_SETPCAP \<noteq> Ok"

definition cap_capset ::
  "cred \<Rightarrow> cred \<Rightarrow> kernel_cap_t \<Rightarrow> kernel_cap_t \<Rightarrow> kernel_cap_t \<Rightarrow> task_struct \<Rightarrow> cred kresult" where
  "cap_capset new old effective inheritable permitted t =
     (if cap_inh_is_capped t \<and>
         \<not> cap_issubset inheritable (cap_combine (cap_inheritable old) (cap_permitted old)) then Inl EPERM
      else if \<not> cap_issubset inheritable (cap_combine (cap_inheritable old) (cap_bset old)) then Inl EPERM
      else if \<not> cap_issubset permitted (cap_permitted old) then Inl EPERM
      else if \<not> cap_issubset effective permitted then Inl EPERM
      else Inr (new\<lparr>cap_effective := effective, cap_inheritable := inheritable, cap_permitted := permitted\<rparr>))"

text \<open>
  User memory: the header's fields as far as they can be read, and the array of \<^verbatim>\<open>kdata\<close>
  structures as far as it can be accessed.
\<close>

record cap_user_header =
  hdr_version :: "u32 option"
  hdr_writable :: bool
  hdr_pid :: "int option"

record cap_user_data =
  d_effective :: u32
  d_permitted :: u32
  d_inheritable :: u32

abbreviation (input) CAPABILITY_VERSION_1 :: u32 where "CAPABILITY_VERSION_1 \<equiv> 0x19980330"
abbreviation (input) CAPABILITY_VERSION_2 :: u32 where "CAPABILITY_VERSION_2 \<equiv> 0x20071026"
abbreviation (input) CAPABILITY_VERSION_3 :: u32 where "CAPABILITY_VERSION_3 \<equiv> 0x20080522"

text \<open>The number of words to copy, and the version that is written back to the header.\<close>

definition cap_validate_magic :: "cap_user_header \<Rightarrow> nat kresult \<times> u32 option" where
  "cap_validate_magic header =
     (case hdr_version header of
        None \<Rightarrow> (Inl EFAULT, None)
      | Some version \<Rightarrow>
          if version = CAPABILITY_VERSION_1 then (Inr 1, None)
          else if version = CAPABILITY_VERSION_2 \<or> version = CAPABILITY_VERSION_3 then (Inr 2, None)
          else if \<not> hdr_writable header then (Inl EFAULT, None)
          else (Inl EINVAL, Some CAPABILITY_VERSION_3))"

definition cap_get_target_pid ::
  "kernel_env \<Rightarrow> int \<Rightarrow> task_struct \<Rightarrow> (kernel_cap_t \<times> kernel_cap_t \<times> kernel_cap_t) kresult" where
  "cap_get_target_pid env pid t =
     (if pid \<noteq> 0 \<and> pid \<noteq> task_pid t
      then (case find_task env pid of None \<Rightarrow> Inl ESRCH | Some target \<Rightarrow> Inr (cap_capget target))
      else Inr (cap_capget (cur_cred t)))"

text \<open>\<open>dataptr\<close> is \<open>None\<close> for NULL, otherwise the number of structures that can be written there.\<close>

definition sys_capget ::
  "kernel_env \<Rightarrow> cap_user_header \<Rightarrow> nat option \<Rightarrow> task_struct \<Rightarrow> unit kresult \<times> cap_user_data list" where
  "sys_capget env header dataptr t =
     (case fst (cap_validate_magic header) of
        Inl e \<Rightarrow> (if dataptr = None \<and> e = EINVAL then Ok else Inl e, [])
      | Inr tocopy \<Rightarrow>
         (case dataptr of None \<Rightarrow> (Ok, [])
          | Some room \<Rightarrow>
             (case hdr_pid header of None \<Rightarrow> (Inl EFAULT, [])
              | Some pid \<Rightarrow>
                  if pid < 0 then (Inl EINVAL, [])
                  else (case cap_get_target_pid env pid t of
                          Inl e \<Rightarrow> (Inl e, [])
                        | Inr (pE, pI, pP) \<Rightarrow>
                            (let kdata = map (\<lambda>i. \<lparr>d_effective = cap_word pE i, d_permitted = cap_word pP i,
                                               d_inheritable = cap_word pI i\<rparr>) [0..<tocopy]
                             in (if room < tocopy then Inl EFAULT else Ok, take room kdata))))))"

definition words_of :: "(cap_user_data \<Rightarrow> u32) \<Rightarrow> cap_user_data list \<Rightarrow> kernel_cap_t" where
  "words_of f kdata =
     \<lparr>cap0 = (if 0 < length kdata then f (kdata ! 0) else 0),
      cap1 = (if 1 < length kdata then f (kdata ! 1) else 0)\<rparr>"

definition sys_capset ::
  "kernel_env \<Rightarrow> cap_user_header \<Rightarrow> cap_user_data list \<Rightarrow> task_struct \<Rightarrow> unit kresult \<times> task_struct" where
  "sys_capset env header data t =
     (case fst (cap_validate_magic header) of
        Inl e \<Rightarrow> (Inl e, t)
      | Inr tocopy \<Rightarrow>
         (case hdr_pid header of None \<Rightarrow> (Inl EFAULT, t)
          | Some pid \<Rightarrow>
              if pid \<noteq> 0 \<and> pid \<noteq> task_pid t then (Inl EPERM, t)
              else if length data < tocopy then (Inl EFAULT, t)
              else (let kdata = take tocopy data;
                        effective = words_of d_effective kdata;
                        permitted = words_of d_permitted kdata;
                        inheritable = words_of d_inheritable kdata
                    in case prepare_creds env t of
                         None \<Rightarrow> (Inl ENOMEM, t)
                       | Some new \<Rightarrow>
                          (case cap_capset new (cur_cred t) effective inheritable permitted t of
                             Inl e \<Rightarrow> (Inl e, t)
                           | Inr new' \<Rightarrow> commit_creds env new' t))))"

section \<open>Following changes of the user id\<close>

abbreviation (input) SECURE_NOROOT :: nat where "SECURE_NOROOT \<equiv> 0"
abbreviation (input) SECURE_NO_SETUID_FIXUP :: nat where "SECURE_NO_SETUID_FIXUP \<equiv> 2"
abbreviation (input) SECURE_KEEP_CAPS :: nat where "SECURE_KEEP_CAPS \<equiv> 4"
abbreviation (input) SECURE_KEEP_CAPS_LOCKED :: nat where "SECURE_KEEP_CAPS_LOCKED \<equiv> 5"

definition issecure_mask :: "nat \<Rightarrow> u32" where
  "issecure_mask x = push_bit x 1"

definition issecure :: "nat \<Rightarrow> task_struct \<Rightarrow> bool" where
  "issecure x t \<longleftrightarrow> issecure_mask x AND securebits (cur_cred t) \<noteq> 0"

definition SECURE_ALL_BITS :: u32 where
  "SECURE_ALL_BITS = issecure_mask SECURE_NOROOT OR issecure_mask SECURE_NO_SETUID_FIXUP OR issecure_mask SECURE_KEEP_CAPS"

definition SECURE_ALL_LOCKS :: u32 where
  "SECURE_ALL_LOCKS = push_bit 1 SECURE_ALL_BITS"

definition cap_emulate_setxuid :: "cred \<Rightarrow> cred \<Rightarrow> task_struct \<Rightarrow> cred" where
  "cap_emulate_setxuid new old t =
     (let n1 = (if (uid old = 0 \<or> euid old = 0 \<or> suid old = 0) \<and>
                   (uid new \<noteq> 0 \<and> euid new \<noteq> 0 \<and> suid new \<noteq> 0) \<and> \<not> issecure SECURE_KEEP_CAPS t
                then new\<lparr>cap_permitted := CAP_EMPTY_SET, cap_effective := CAP_EMPTY_SET\<rparr> else new);
          n2 = (if euid old = 0 \<and> euid n1 \<noteq> 0 then n1\<lparr>cap_effective := CAP_EMPTY_SET\<rparr> else n1)
      in if euid old \<noteq> 0 \<and> euid n2 = 0 then n2\<lparr>cap_effective := cap_permitted n2\<rparr> else n2)"

datatype lsm_setid = LSM_SETID_ID | LSM_SETID_RE | LSM_SETID_RES | LSM_SETID_FS

definition cap_task_fix_setuid :: "cred \<Rightarrow> cred \<Rightarrow> lsm_setid option \<Rightarrow> task_struct \<Rightarrow> cred kresult" where
  \<comment> \<open>\<open>None\<close> is a flag value other than the four\<close>
  "cap_task_fix_setuid new old flags t =
     (case flags of
        None \<Rightarrow> Inl EINVAL
      | Some LSM_SETID_FS \<Rightarrow>
          Inr (if \<not> issecure SECURE_NO_SETUID_FIXUP t
               then (let n1 = (if fsuid old = 0 \<and> fsuid new \<noteq> 0
                               then new\<lparr>cap_effective := cap_drop_fs_set (cap_effective new)\<rparr> else new)
                     in if fsuid old \<noteq> 0 \<and> fsuid n1 = 0
                        then n1\<lparr>cap_effective := cap_raise_fs_set (cap_effective n1) (cap_permitted n1)\<rparr>
                        else n1)
               else new)
      | Some _ \<Rightarrow> Inr (if \<not> issecure SECURE_NO_SETUID_FIXUP t then cap_emulate_setxuid new old t else new))"

section \<open>Process control\<close>

definition cap_prctl_drop :: "cred \<Rightarrow> u32 \<Rightarrow> task_struct \<Rightarrow> cred kresult \<times> task_struct" where
  "cap_prctl_drop new cap t =
     (let (b, t') = capable CAP_SETPCAP t
      in if \<not> b then (Inl EPERM, t')
         else if \<not> cap_valid (unat cap) then (Inl EINVAL, t')
         else (Inr (new\<lparr>cap_bset := cap_lower (cap_bset new) (unat cap)\<rparr>), t'))"

datatype prctl_option = PR_GET_KEEPCAPS | PR_SET_KEEPCAPS | PR_CAPBSET_READ | PR_CAPBSET_DROP
  | PR_GET_SECUREBITS | PR_SET_SECUREBITS | PR_OTHER int

definition commit_value :: "unit kresult \<times> task_struct \<Rightarrow> u32 kresult \<times> task_struct" where
  "commit_value r = (case fst r of Inl e \<Rightarrow> Inl e | Inr _ \<Rightarrow> Inr 0, snd r)"

definition cap_task_prctl ::
  "kernel_env \<Rightarrow> prctl_option \<Rightarrow> u32 \<Rightarrow> task_struct \<Rightarrow> u32 kresult \<times> task_struct" where
  "cap_task_prctl env opt arg2 t =
     (case prepare_creds env t of
        None \<Rightarrow> (Inl ENOMEM, t)
      | Some new \<Rightarrow>
         (case opt of
            PR_CAPBSET_READ \<Rightarrow>
              (if \<not> cap_valid (unat arg2) then Inl EINVAL
               else Inr (if cap_raised (cap_bset new) (unat arg2) then 1 else 0), t)
          | PR_CAPBSET_DROP \<Rightarrow>
              (case cap_prctl_drop new arg2 t of
                 (Inl e, t') \<Rightarrow> (Inl e, t')
               | (Inr new', t') \<Rightarrow> commit_value (commit_creds env new' t'))
          | PR_SET_SECUREBITS \<Rightarrow>
              if drop_bit 1 (securebits new AND SECURE_ALL_LOCKS) AND (securebits new XOR arg2) \<noteq> 0 \<or>
                 securebits new AND SECURE_ALL_LOCKS AND NOT arg2 \<noteq> 0 \<or>
                 arg2 AND NOT (SECURE_ALL_LOCKS OR SECURE_ALL_BITS) \<noteq> 0 \<or>
                 cap_capable (cur_cred t) (user_ns (user (cur_cred t))) CAP_SETPCAP \<noteq> Ok
              then (Inl EPERM, t)
              else commit_value (commit_creds env (new\<lparr>securebits := arg2\<rparr>) t)
          | PR_GET_SECUREBITS \<Rightarrow> (Inr (securebits new), t)
          | PR_GET_KEEPCAPS \<Rightarrow> (Inr (if issecure SECURE_KEEP_CAPS t then 1 else 0), t)
          | PR_SET_KEEPCAPS \<Rightarrow>
              if arg2 > 1 then (Inl EINVAL, t)
              else if issecure SECURE_KEEP_CAPS_LOCKED t then (Inl EPERM, t)
              else (let new' = (if arg2 \<noteq> 0 then new\<lparr>securebits := securebits new OR issecure_mask SECURE_KEEP_CAPS\<rparr>
                                else new\<lparr>securebits := securebits new AND NOT (issecure_mask SECURE_KEEP_CAPS)\<rparr>)
                    in commit_value (commit_creds env new' t))
          | PR_OTHER _ \<Rightarrow> (Inl ENOSYS, t)))"

section \<open>Facts on the checks and the commit\<close>

lemma creator_not_own: "user_ns u = ns \<Longrightarrow> ns \<noteq> Init_user_ns \<Longrightarrow> creator ns \<noteq> u"
  using creator_smaller [of ns] by auto

lemma own_capable: "cap_capable c (user_ns (user c)) cap = Ok \<longleftrightarrow> cap_raised (cap_effective c) cap"
  using creator_not_own [of "user c"] by (subst cap_capable.simps) auto

lemma init_capable: "cap_capable c Init_user_ns cap = Ok \<Longrightarrow> cap_raised (cap_effective c) cap"
  by (subst (asm) cap_capable.simps) (simp split: if_splits)

definition same_creds :: "task_struct \<Rightarrow> task_struct \<Rightarrow> bool" where
  "same_creds t t' \<longleftrightarrow> cur_cred t' = cur_cred t \<and> bug_hit t' = bug_hit t"

lemma ns_capable_same: "cap_valid cap \<Longrightarrow> same_creds t (snd (ns_capable ns cap t))"
  by (simp add: ns_capable_def same_creds_def)

lemma nsown_capableD:
  assumes "nsown_capable cap t = (b, t')" and "cap_valid cap"
  shows "same_creds t t'" and "b \<longleftrightarrow> cap_raised (cap_effective (cur_cred t)) cap"
  using assms ns_capable_same [of cap t] own_capable [of "cur_cred t" cap]
  by (auto simp: nsown_capable_def ns_capable_def same_creds_def split: if_splits)

lemma capableD:
  assumes "capable cap t = (b, t')" and "cap_valid cap"
  shows "same_creds t t'" and "b \<Longrightarrow> cap_raised (cap_effective (cur_cred t)) cap"
  using assms init_capable [of "cur_cred t" cap]
  by (auto simp: capable_def ns_capable_def same_creds_def split: if_splits)

lemma set_dumpable_creds [simp]:
  "cur_cred (set_dumpable v t) = cur_cred t" "bug_hit (set_dumpable v t) = bug_hit t"
  by (simp_all add: set_dumpable_def)

lemma commit_creds_result [simp]:
  "fst (commit_creds env new t) = Ok" "cur_cred (snd (commit_creds env new t)) = new"
  "bug_hit (snd (commit_creds env new t)) = bug_hit t"
  by (simp_all add: commit_creds_def Let_def)

lemma commit_credsD: "commit_creds env n t = (r, t') \<Longrightarrow> r = Ok \<and> cur_cred t' = n \<and> bug_hit t' = bug_hit t"
  by (metis commit_creds_result fst_conv snd_conv)

lemma cap_valid_setids [simp]: "cap_valid CAP_SETUID" "cap_valid CAP_SETGID" "cap_valid CAP_SETPCAP"
  by (simp_all add: cap_valid_def)

lemma same_creds_refl [simp]: "same_creds t t"
  by (simp add: same_creds_def)

end
