(* ===== verification/Setid.thy ===== *)
theory Setid
  imports Capability
begin

text \<open>
  The system calls of \<^verbatim>\<open>kernel/sys.c\<close> that change the user and group ids of a task.  An id of
  \<open>- 1\<close> asks for no change.  Every call prepares a copy of the credentials, changes it and
  commits it; an error leaves the credentials as they were.
\<close>

section \<open>Group ids\<close>

text \<open>\<^verbatim>\<open>cond || nsown_capable(cap)\<close>: the capability is only asked for, and \<^verbatim>\<open>PF_SUPERPRIV\<close> only set, when needed.\<close>

definition or_nsown :: "bool \<Rightarrow> nat \<Rightarrow> task_struct \<Rightarrow> bool \<times> task_struct" where
  "or_nsown cond cap t = (if cond then (True, t) else nsown_capable cap t)"

definition sys_setregid :: "kernel_env \<Rightarrow> u32 \<Rightarrow> u32 \<Rightarrow> task_struct \<Rightarrow> unit kresult \<times> task_struct" where
  "sys_setregid env rg eg t =
     (case prepare_creds env t of
        None \<Rightarrow> (Inl ENOMEM, t)
      | Some new \<Rightarrow>
         (let old = cur_cred t;
              (ok1, t1) = (if rg \<noteq> - 1 then or_nsown (gid old = rg \<or> egid old = rg) CAP_SETGID t else (True, t))
          in if \<not> ok1 then (Inl EPERM, t1)
             else (let n1 = (if rg \<noteq> - 1 then new\<lparr>gid := rg\<rparr> else new);
                       (ok2, t2) = (if eg \<noteq> - 1 then or_nsown (gid old = eg \<or> egid old = eg \<or> sgid old = eg) CAP_SETGID t1
                                    else (True, t1))
                   in if \<not> ok2 then (Inl EPERM, t2)
                      else (let n2 = (if eg \<noteq> - 1 then n1\<lparr>egid := eg\<rparr> else n1);
                                n3 = (if rg \<noteq> - 1 \<or> (eg \<noteq> - 1 \<and> eg \<noteq> gid old) then n2\<lparr>sgid := egid n2\<rparr> else n2)
                            in commit_creds env (n3\<lparr>fsgid := egid n3\<rparr>) t2))))"

definition sys_setgid :: "kernel_env \<Rightarrow> u32 \<Rightarrow> task_struct \<Rightarrow> unit kresult \<times> task_struct" where
  "sys_setgid env g t =
     (case prepare_creds env t of
        None \<Rightarrow> (Inl ENOMEM, t)
      | Some new \<Rightarrow>
         (let old = cur_cred t; (b, t1) = nsown_capable CAP_SETGID t
          in if b then commit_creds env (new\<lparr>gid := g, egid := g, sgid := g, fsgid := g\<rparr>) t1
             else if g = gid old \<or> g = sgid old then commit_creds env (new\<lparr>egid := g, fsgid := g\<rparr>) t1
             else (Inl EPERM, t1)))"

definition sys_setresgid :: "kernel_env \<Rightarrow> u32 \<Rightarrow> u32 \<Rightarrow> u32 \<Rightarrow> task_struct \<Rightarrow> unit kresult \<times> task_struct" where
  "sys_setresgid env rg eg sg t =
     (case prepare_creds env t of
        None \<Rightarrow> (Inl ENOMEM, t)
      | Some new \<Rightarrow>
         (let old = cur_cred t; (b, t1) = nsown_capable CAP_SETGID t
          in if \<not> b \<and> rg \<noteq> - 1 \<and> rg \<noteq> gid old \<and> rg \<noteq> egid old \<and> rg \<noteq> sgid old then (Inl EPERM, t1)
             else if \<not> b \<and> eg \<noteq> - 1 \<and> eg \<noteq> gid old \<and> eg \<noteq> egid old \<and> eg \<noteq> sgid old then (Inl EPERM, t1)
             else if \<not> b \<and> sg \<noteq> - 1 \<and> sg \<noteq> gid old \<and> sg \<noteq> egid old \<and> sg \<noteq> sgid old then (Inl EPERM, t1)
             else (let n1 = (if rg \<noteq> - 1 then new\<lparr>gid := rg\<rparr> else new);
                       n2 = (if eg \<noteq> - 1 then n1\<lparr>egid := eg\<rparr> else n1);
                       n3 = (if sg \<noteq> - 1 then n2\<lparr>sgid := sg\<rparr> else n2)
                   in commit_creds env (n3\<lparr>fsgid := egid n3\<rparr>) t1)))"

definition sys_setfsgid :: "kernel_env \<Rightarrow> u32 \<Rightarrow> task_struct \<Rightarrow> u32 \<times> task_struct" where
  "sys_setfsgid env g t =
     (case prepare_creds env t of
        None \<Rightarrow> (fsgid (cur_cred t), t)
      | Some new \<Rightarrow>
         (let old = cur_cred t;
              (b, t1) = or_nsown (g = gid old \<or> g = egid old \<or> g = sgid old \<or> g = fsgid old) CAP_SETGID t
          in if b \<and> g \<noteq> fsgid old then (fsgid old, snd (commit_creds env (new\<lparr>fsgid := g\<rparr>) t1))
             else (fsgid old, t1)))"

section \<open>User ids\<close>

definition set_user :: "kernel_env \<Rightarrow> cred \<Rightarrow> task_struct \<Rightarrow> cred kresult \<times> task_struct" where
  "set_user env new t =
     (case alloc_uid env (user_ns (user (cur_cred t))) (uid new) of
        None \<Rightarrow> (Inl EAGAIN, t)
      | Some new_user \<Rightarrow>
          (Inr (new\<lparr>user := new_user\<rparr>),
           t\<lparr>PF_NPROC_EXCEEDED := processes t new_user \<ge> rlimit_nproc env \<and> new_user \<noteq> INIT_USER\<rparr>))"

text \<open>The end the four calls share: the fix-up of the capabilities and the commit.\<close>

definition fix_and_commit :: "kernel_env \<Rightarrow> cred \<Rightarrow> lsm_setid \<Rightarrow> task_struct \<Rightarrow> unit kresult \<times> task_struct" where
  "fix_and_commit env new flags t =
     (case cap_task_fix_setuid new (cur_cred t) (Some flags) t of
        Inl e \<Rightarrow> (Inl e, t)
      | Inr new' \<Rightarrow> commit_creds env new' t)"

definition sys_setreuid :: "kernel_env \<Rightarrow> u32 \<Rightarrow> u32 \<Rightarrow> task_struct \<Rightarrow> unit kresult \<times> task_struct" where
  "sys_setreuid env ru eu t =
     (case prepare_creds env t of
        None \<Rightarrow> (Inl ENOMEM, t)
      | Some new \<Rightarrow>
         (let old = cur_cred t;
              n1 = (if ru \<noteq> - 1 then new\<lparr>uid := ru\<rparr> else new);
              (ok1, t1) = (if ru \<noteq> - 1 then or_nsown (uid old = ru \<or> euid old = ru) CAP_SETUID t else (True, t))
          in if \<not> ok1 then (Inl EPERM, t1)
             else (let n2 = (if eu \<noteq> - 1 then n1\<lparr>euid := eu\<rparr> else n1);
                       (ok2, t2) = (if eu \<noteq> - 1 then or_nsown (uid old = eu \<or> euid old = eu \<or> suid old = eu) CAP_SETUID t1
                                    else (True, t1))
                   in if \<not> ok2 then (Inl EPERM, t2)
                      else (let (r, t3) = (if uid n2 \<noteq> uid old then set_user env n2 t2 else (Inr n2, t2))
                            in case r of
                                 Inl e \<Rightarrow> (Inl e, t3)
                               | Inr n3 \<Rightarrow>
                                  (let n4 = (if ru \<noteq> - 1 \<or> (eu \<noteq> - 1 \<and> eu \<noteq> uid old) then n3\<lparr>suid := euid n3\<rparr> else n3)
                                   in fix_and_commit env (n4\<lparr>fsuid := euid n4\<rparr>) LSM_SETID_RE t3)))))"

definition sys_setuid :: "kernel_env \<Rightarrow> u32 \<Rightarrow> task_struct \<Rightarrow> unit kresult \<times> task_struct" where
  "sys_setuid env u t =
     (case prepare_creds env t of
        None \<Rightarrow> (Inl ENOMEM, t)
      | Some new \<Rightarrow>
         (let old = cur_cred t; (b, t1) = nsown_capable CAP_SETUID t
          in if b
             then (let n1 = new\<lparr>suid := u, uid := u\<rparr>;
                       (r, t2) = (if u \<noteq> uid old then set_user env n1 t1 else (Inr n1, t1))
                   in case r of
                        Inl e \<Rightarrow> (Inl e, t2)
                      | Inr n2 \<Rightarrow> fix_and_commit env (n2\<lparr>fsuid := u, euid := u\<rparr>) LSM_SETID_ID t2)
             else if u \<noteq> uid old \<and> u \<noteq> suid new then (Inl EPERM, t1)
             else fix_and_commit env (new\<lparr>fsuid := u, euid := u\<rparr>) LSM_SETID_ID t1))"

definition sys_setresuid :: "kernel_env \<Rightarrow> u32 \<Rightarrow> u32 \<Rightarrow> u32 \<Rightarrow> task_struct \<Rightarrow> unit kresult \<times> task_struct" where
  "sys_setresuid env ru eu su t =
     (case prepare_creds env t of
        None \<Rightarrow> (Inl ENOMEM, t)
      | Some new \<Rightarrow>
         (let old = cur_cred t; (b, t1) = nsown_capable CAP_SETUID t
          in if \<not> b \<and> ru \<noteq> - 1 \<and> ru \<noteq> uid old \<and> ru \<noteq> euid old \<and> ru \<noteq> suid old then (Inl EPERM, t1)
             else if \<not> b \<and> eu \<noteq> - 1 \<and> eu \<noteq> uid old \<and> eu \<noteq> euid old \<and> eu \<noteq> suid old then (Inl EPERM, t1)
             else if \<not> b \<and> su \<noteq> - 1 \<and> su \<noteq> uid old \<and> su \<noteq> euid old \<and> su \<noteq> suid old then (Inl EPERM, t1)
             else (let n1 = (if ru \<noteq> - 1 then new\<lparr>uid := ru\<rparr> else new);
                       (r, t2) = (if ru \<noteq> - 1 \<and> ru \<noteq> uid old then set_user env n1 t1 else (Inr n1, t1))
                   in case r of
                        Inl e \<Rightarrow> (Inl e, t2)
                      | Inr n2 \<Rightarrow>
                         (let n3 = (if eu \<noteq> - 1 then n2\<lparr>euid := eu\<rparr> else n2);
                              n4 = (if su \<noteq> - 1 then n3\<lparr>suid := su\<rparr> else n3)
                          in fix_and_commit env (n4\<lparr>fsuid := euid n4\<rparr>) LSM_SETID_RES t2))))"

text \<open>The values the two calls store until an address cannot be written.\<close>

definition put_three :: "'a \<Rightarrow> 'a \<Rightarrow> 'a \<Rightarrow> bool \<Rightarrow> bool \<Rightarrow> bool \<Rightarrow> unit kresult \<times> 'a list" where
  "put_three a b c wa wb wc =
     (if \<not> wa then (Inl EFAULT, []) else if \<not> wb then (Inl EFAULT, [a])
      else if \<not> wc then (Inl EFAULT, [a, b]) else (Ok, [a, b, c]))"

definition sys_getresuid :: "bool \<Rightarrow> bool \<Rightarrow> bool \<Rightarrow> task_struct \<Rightarrow> unit kresult \<times> u32 list" where
  "sys_getresuid wr we ws t = put_three (uid (cur_cred t)) (euid (cur_cred t)) (suid (cur_cred t)) wr we ws"

definition sys_getresgid :: "bool \<Rightarrow> bool \<Rightarrow> bool \<Rightarrow> task_struct \<Rightarrow> unit kresult \<times> u32 list" where
  "sys_getresgid wr we ws t = put_three (gid (cur_cred t)) (egid (cur_cred t)) (sgid (cur_cred t)) wr we ws"

definition sys_setfsuid :: "kernel_env \<Rightarrow> u32 \<Rightarrow> task_struct \<Rightarrow> u32 \<times> task_struct" where
  "sys_setfsuid env u t =
     (case prepare_creds env t of
        None \<Rightarrow> (fsuid (cur_cred t), t)
      | Some new \<Rightarrow>
         (let old = cur_cred t;
              (b, t1) = or_nsown (u = uid old \<or> u = euid old \<or> u = suid old \<or> u = fsuid old) CAP_SETUID t
          in if b \<and> u \<noteq> fsuid old
             then (case cap_task_fix_setuid (new\<lparr>fsuid := u\<rparr>) old (Some LSM_SETID_FS) t1 of
                     Inr new' \<Rightarrow> (fsuid old, snd (commit_creds env new' t1))
                   | Inl e \<Rightarrow> (fsuid old, t1))
             else (fsuid old, t1)))"

end
