(* ===== verification/Group_Calls.thy ===== *)
theory Group_Calls
  imports Cred_Groups Setid
begin

text \<open>
  The rest of \<^verbatim>\<open>kernel/groups.c\<close>: the blocks a group list is kept in, their allocation and release,
  and the system calls \<^verbatim>\<open>getgroups\<close> and \<^verbatim>\<open>setgroups\<close>.  The record \<open>group_blocks\<close> is
  \<^verbatim>\<open>struct group_info\<close> with its blocks; \<open>group_list\<close> reads it through \<^verbatim>\<open>GROUP_AT\<close> as the flat list
  that sorting and searching use and that \<open>cred\<close> keeps.  User memory is the list of the ids that can be accessed
  from the given address on.
\<close>

section \<open>The blocks of a group list\<close>

abbreviation (input) NGROUPS_SMALL :: int where "NGROUPS_SMALL \<equiv> 32"
abbreviation (input) NGROUPS_PER_BLOCK :: nat where "NGROUPS_PER_BLOCK \<equiv> 1024"
abbreviation (input) NGROUPS_MAX :: int where "NGROUPS_MAX \<equiv> 65536"

text \<open>\<open>in_small\<close> says that \<^verbatim>\<open>blocks[0]\<close> is the array \<^verbatim>\<open>small_block\<close> of the structure itself.\<close>

record group_blocks =
  usage :: int
  ngroups :: int
  nblocks :: nat
  in_small :: bool
  blocks :: "u32 list list"

text \<open>
  The allocators: what \<^verbatim>\<open>kmalloc\<close> finds in the small block and the \<open>i\<close>-th page request in its page, or
  \<open>None\<close> when memory is short.  The ledger counts what is allocated and not freed.
\<close>

record group_mem =
  kmalloc_info :: "u32 list option"
  get_free_page :: "nat \<Rightarrow> u32 list option"

record group_ledger =
  held_infos :: int
  held_pages :: int

definition free_page :: "group_ledger \<Rightarrow> group_ledger" where
  "free_page l = l\<lparr>held_pages := held_pages l - 1\<rparr>"

definition kfree_info :: "group_ledger \<Rightarrow> group_ledger" where
  "kfree_info l = l\<lparr>held_infos := held_infos l - 1\<rparr>"

primrec free_pages :: "nat \<Rightarrow> group_ledger \<Rightarrow> group_ledger" where
  "free_pages 0 l = l"
| "free_pages (Suc i) l = free_pages i (free_page l)"

text \<open>The loop of \<^verbatim>\<open>groups_alloc\<close> over \<open>n\<close> remaining blocks, \<open>bs\<close> those allocated so far.\<close>

primrec alloc_blocks :: "group_mem \<Rightarrow> nat \<Rightarrow> u32 list list \<Rightarrow> group_ledger \<Rightarrow> u32 list list option \<times> group_ledger" where
  "alloc_blocks mem 0 bs l = (Some bs, l)"
| "alloc_blocks mem (Suc n) bs l =
     (case get_free_page mem (length bs) of
        None \<Rightarrow> (None, kfree_info (free_pages (length bs) l))
      | Some b \<Rightarrow> alloc_blocks mem n (bs @ [b]) (l\<lparr>held_pages := held_pages l + 1\<rparr>))"

text \<open>The number of blocks is computed in unsigned arithmetic, the comparison with the small size is signed.\<close>

definition groups_alloc :: "group_mem \<Rightarrow> int \<Rightarrow> group_ledger \<Rightarrow> group_blocks option \<times> group_ledger" where
  "groups_alloc mem gidsetsize l =
     (let n = nat ((gidsetsize + int NGROUPS_PER_BLOCK - 1) mod 2 ^ 32 div int NGROUPS_PER_BLOCK);
          n = (if n \<noteq> 0 then n else 1)
      in case kmalloc_info mem of
           None \<Rightarrow> (None, l)
         | Some small \<Rightarrow>
            (let l = l\<lparr>held_infos := held_infos l + 1\<rparr>;
                 gi = \<lparr>usage = 1, ngroups = gidsetsize, nblocks = n, in_small = False, blocks = []\<rparr>
             in if gidsetsize \<le> NGROUPS_SMALL then (Some (gi\<lparr>in_small := True, blocks := [small]\<rparr>), l)
                else (case alloc_blocks mem n [] l of
                        (None, l) \<Rightarrow> (None, l)
                      | (Some bs, l) \<Rightarrow> (Some (gi\<lparr>blocks := bs\<rparr>), l))))"

definition groups_free :: "group_blocks \<Rightarrow> group_ledger \<Rightarrow> group_ledger" where
  "groups_free gi l = kfree_info (if \<not> in_small gi then free_pages (nblocks gi) l else l)"

definition get_group_info :: "group_blocks \<Rightarrow> group_blocks" where
  "get_group_info gi = gi\<lparr>usage := usage gi + 1\<rparr>"

definition put_group_info :: "group_blocks \<Rightarrow> group_ledger \<Rightarrow> group_blocks \<times> group_ledger" where
  "put_group_info gi l =
     (let gi' = gi\<lparr>usage := usage gi - 1\<rparr> in (gi', if usage gi' = 0 then groups_free gi' l else l))"

definition GROUP_AT :: "group_blocks \<Rightarrow> nat \<Rightarrow> u32" where
  "GROUP_AT gi i = blocks gi ! (i div NGROUPS_PER_BLOCK) ! (i mod NGROUPS_PER_BLOCK)"

definition set_group_at :: "group_blocks \<Rightarrow> nat \<Rightarrow> u32 \<Rightarrow> group_blocks" where
  "set_group_at gi i v =
     gi\<lparr>blocks := (blocks gi)[i div NGROUPS_PER_BLOCK :=
                     (blocks gi ! (i div NGROUPS_PER_BLOCK))[i mod NGROUPS_PER_BLOCK := v]]\<rparr>"

definition group_list :: "group_blocks \<Rightarrow> u32 list" where
  "group_list gi = map (GROUP_AT gi) [0..<nat (ngroups gi)]"

section \<open>Copying to and from user space\<close>

text \<open>
  A copy to user memory at an offset stores the ids that fit and succeeds when all do; a copy
  from user memory returns the ids when all can be read.
\<close>

definition copy_ids_to_user :: "u32 list \<Rightarrow> nat \<Rightarrow> u32 list \<Rightarrow> bool \<times> u32 list" where
  "copy_ids_to_user mem off ids =
     (off + length ids \<le> length mem, take off mem @ take (length mem - off) ids @ drop (off + length ids) mem)"

definition copy_ids_from_user :: "u32 list \<Rightarrow> nat \<Rightarrow> nat \<Rightarrow> u32 list option" where
  "copy_ids_from_user mem off n = (if off + n \<le> length mem then Some (take n (drop off mem)) else None)"

text \<open>The loops run over the \<open>n\<close> remaining blocks from block \<open>i\<close> on, \<open>cnt\<close> ids still to copy.\<close>

primrec to_user_loop :: "group_blocks \<Rightarrow> nat \<Rightarrow> nat \<Rightarrow> nat \<Rightarrow> u32 list \<Rightarrow> unit kresult \<times> u32 list" where
  "to_user_loop gi 0 i cnt grouplist = (Ok, grouplist)"
| "to_user_loop gi (Suc n) i cnt grouplist =
     (let cp_count = min NGROUPS_PER_BLOCK cnt;
          (ok, grouplist) = copy_ids_to_user grouplist (i * NGROUPS_PER_BLOCK) (take cp_count (blocks gi ! i))
      in if \<not> ok then (Inl EFAULT, grouplist) else to_user_loop gi n (i + 1) (cnt - cp_count) grouplist)"

definition groups_to_user :: "u32 list \<Rightarrow> group_blocks \<Rightarrow> unit kresult \<times> u32 list" where
  "groups_to_user grouplist gi = to_user_loop gi (nblocks gi) 0 (nat (ngroups gi)) grouplist"

primrec from_user_loop :: "u32 list \<Rightarrow> nat \<Rightarrow> nat \<Rightarrow> nat \<Rightarrow> group_blocks \<Rightarrow> unit kresult \<times> group_blocks" where
  "from_user_loop grouplist 0 i cnt gi = (Ok, gi)"
| "from_user_loop grouplist (Suc n) i cnt gi =
     (let cp_count = min NGROUPS_PER_BLOCK cnt
      in case copy_ids_from_user grouplist (i * NGROUPS_PER_BLOCK) cp_count of
           None \<Rightarrow> (Inl EFAULT, gi)
         | Some ids \<Rightarrow>
             from_user_loop grouplist n (i + 1) (cnt - cp_count)
               (gi\<lparr>blocks := (blocks gi)[i := ids @ drop cp_count (blocks gi ! i)]\<rparr>))"

definition groups_from_user :: "group_blocks \<Rightarrow> u32 list \<Rightarrow> unit kresult \<times> group_blocks" where
  "groups_from_user gi grouplist = from_user_loop grouplist (nblocks gi) 0 (nat (ngroups gi)) gi"

section \<open>System calls\<close>

text \<open>
  The credentials keep the flat list; \<open>stored_blocks\<close> is the layout \<^verbatim>\<open>groups_alloc\<close> gave it.
\<close>

definition stored_blocks :: "group_info \<Rightarrow> group_blocks" where
  "stored_blocks xs =
     (let n = max 1 ((length xs + NGROUPS_PER_BLOCK - 1) div NGROUPS_PER_BLOCK)
      in \<lparr>usage = 1, ngroups = int (length xs), nblocks = n, in_small = length xs \<le> 32,
          blocks = map (\<lambda>i. take NGROUPS_PER_BLOCK (drop (i * NGROUPS_PER_BLOCK) xs)) [0..<n]\<rparr>)"

definition set_current_groups ::
  "kernel_env \<Rightarrow> group_blocks \<Rightarrow> task_struct \<Rightarrow> unit kresult \<times> group_blocks \<times> task_struct" where
  "set_current_groups env gi t =
     (case prepare_creds env t of
        None \<Rightarrow> (Inl ENOMEM, gi, t)
      | Some new \<Rightarrow>
         (let (r, t') = commit_creds env (set_groups new (group_list gi)) t
          in (r, get_group_info gi, t')))"

text \<open>A task without group list has none to dereference; \<open>bug_hit\<close> would record it.\<close>

definition sys_getgroups :: "int \<Rightarrow> u32 list \<Rightarrow> task_struct \<Rightarrow> int kresult \<times> u32 list \<times> task_struct" where
  "sys_getgroups gidsetsize grouplist t =
     (if gidsetsize < 0 then (Inl EINVAL, grouplist, t)
      else case cred_groups (cur_cred t) of
        None \<Rightarrow> (Inl EFAULT, grouplist, t\<lparr>bug_hit := True\<rparr>)
      | Some xs \<Rightarrow>
         (let i = int (length xs)
          in if gidsetsize = 0 then (Inr i, grouplist, t)
             else if i > gidsetsize then (Inl EINVAL, grouplist, t)
             else (case groups_to_user grouplist (stored_blocks xs) of
                     (Inl e, grouplist) \<Rightarrow> (Inl EFAULT, grouplist, t)
                   | (Inr _, grouplist) \<Rightarrow> (Inr i, grouplist, t))))"

definition sys_setgroups ::
  "kernel_env \<Rightarrow> group_mem \<Rightarrow> int \<Rightarrow> u32 list \<Rightarrow> task_struct \<Rightarrow> group_ledger \<Rightarrow>
   unit kresult \<times> task_struct \<times> group_ledger" where
  "sys_setgroups env mem gidsetsize grouplist t l =
     (case nsown_capable CAP_SETGID t of (b, t) \<Rightarrow>
      if \<not> b then (Inl EPERM, t, l)
      else if gidsetsize mod 2 ^ 32 > NGROUPS_MAX then (Inl EINVAL, t, l)
      else case groups_alloc mem gidsetsize l of
        (None, l) \<Rightarrow> (Inl ENOMEM, t, l)
      | (Some gi, l) \<Rightarrow>
         (case groups_from_user gi grouplist of
            (Inl e, gi) \<Rightarrow> (Inl e, t, snd (put_group_info gi l))
          | (Inr _, gi) \<Rightarrow>
             (case set_current_groups env gi t of (r, gi, t) \<Rightarrow> (r, t, snd (put_group_info gi l)))))"

section \<open>Blocks as a list\<close>

text \<open>
  The layout every list has: as many blocks as the size asks for, each with room for its share of
  the ids.  The small block has 32 entries, a page 1024.
\<close>

definition block_count :: "nat \<Rightarrow> nat" where
  "block_count n = max 1 ((n + NGROUPS_PER_BLOCK - 1) div NGROUPS_PER_BLOCK)"

definition blocks_ok :: "group_blocks \<Rightarrow> bool" where
  "blocks_ok gi \<longleftrightarrow>
     0 \<le> ngroups gi \<and> nblocks gi = block_count (nat (ngroups gi)) \<and> length (blocks gi) = nblocks gi \<and>
     (\<forall>i < nblocks gi. min NGROUPS_PER_BLOCK (nat (ngroups gi) - i * NGROUPS_PER_BLOCK) \<le> length (blocks gi ! i))"

definition mem_ok :: "group_mem \<Rightarrow> bool" where
  "mem_ok mem \<longleftrightarrow>
     (\<forall>b. kmalloc_info mem = Some b \<longrightarrow> length b = 32) \<and>
     (\<forall>i b. get_free_page mem i = Some b \<longrightarrow> length b = NGROUPS_PER_BLOCK)"

lemma in_block: "k < n \<Longrightarrow> k div NGROUPS_PER_BLOCK < block_count n"
  by (simp add: block_count_def)

lemma block_count_covers: "n \<le> block_count n * NGROUPS_PER_BLOCK"
  by (simp add: block_count_def)

lemma block_at:
  assumes "blocks_ok gi" and "k < nat (ngroups gi)"
  shows "k div NGROUPS_PER_BLOCK < length (blocks gi)"
    and "k mod NGROUPS_PER_BLOCK < length (blocks gi ! (k div NGROUPS_PER_BLOCK))"
proof -
  show b: "k div NGROUPS_PER_BLOCK < length (blocks gi)" using assms in_block by (simp add: blocks_ok_def)
  then have "min NGROUPS_PER_BLOCK (nat (ngroups gi) - k div NGROUPS_PER_BLOCK * NGROUPS_PER_BLOCK)
      \<le> length (blocks gi ! (k div NGROUPS_PER_BLOCK))"
    using assms(1) by (simp add: blocks_ok_def)
  moreover have "k mod NGROUPS_PER_BLOCK < nat (ngroups gi) - k div NGROUPS_PER_BLOCK * NGROUPS_PER_BLOCK"
    using assms(2) by (simp add: modulo_nat_def)
  ultimately show "k mod NGROUPS_PER_BLOCK < length (blocks gi ! (k div NGROUPS_PER_BLOCK))"
    using mod_less_divisor [of NGROUPS_PER_BLOCK k] by linarith
qed

lemma length_group_list [simp]: "length (group_list gi) = nat (ngroups gi)"
  by (simp add: group_list_def)

text \<open>Through \<^verbatim>\<open>GROUP_AT\<close> the blocks are an array: reading and storing are those of the list.\<close>

lemma group_list_at: "k < nat (ngroups gi) \<Longrightarrow> group_list gi ! k = GROUP_AT gi k"
  by (simp add: group_list_def)

lemma group_list_store:
  assumes "blocks_ok gi" and "k < nat (ngroups gi)"
  shows "group_list (set_group_at gi k v) = (group_list gi)[k := v]" and "blocks_ok (set_group_at gi k v)"
proof -
  note at = block_at [OF assms]
  have "GROUP_AT (set_group_at gi k v) j = (if j = k then v else GROUP_AT gi j)" for j
  proof (cases "j div NGROUPS_PER_BLOCK = k div NGROUPS_PER_BLOCK")
    case True
    moreover have "j = k \<longleftrightarrow> j mod NGROUPS_PER_BLOCK = k mod NGROUPS_PER_BLOCK"
      using True by (metis div_mult_mod_eq)
    ultimately show ?thesis using at by (auto simp: GROUP_AT_def set_group_at_def nth_list_update)
  qed (auto simp: GROUP_AT_def set_group_at_def)
  then show "group_list (set_group_at gi k v) = (group_list gi)[k := v]"
    by (auto simp: list_eq_iff_nth_eq group_list_at nth_list_update set_group_at_def group_list_def)
  have "length ((blocks gi)[a := (blocks gi ! a)[b := v]] ! i) = length (blocks gi ! i)" for a b i
    by (cases "a < length (blocks gi)"; cases "i = a") (simp_all add: list_update_beyond)
  then show "blocks_ok (set_group_at gi k v)" using assms(1) by (simp add: blocks_ok_def set_group_at_def)
qed

text \<open>Block \<open>i\<close> holds the ids from \<open>1024 * i\<close> on.\<close>

lemma block_ids:
  assumes "blocks_ok gi" and "i < nblocks gi" and "c = min NGROUPS_PER_BLOCK (nat (ngroups gi) - i * NGROUPS_PER_BLOCK)"
  shows "take c (blocks gi ! i) = take c (drop (i * NGROUPS_PER_BLOCK) (group_list gi))"
proof (rule nth_equalityI)
  have c: "c \<le> length (blocks gi ! i)" using assms by (simp add: blocks_ok_def)
  show len: "length (take c (blocks gi ! i)) = length (take c (drop (i * NGROUPS_PER_BLOCK) (group_list gi)))"
    using c assms(3) by simp
  fix j assume "j < length (take c (blocks gi ! i))"
  then have j: "j < c" by simp
  then have "j < NGROUPS_PER_BLOCK" "i * NGROUPS_PER_BLOCK + j < nat (ngroups gi)" using assms(3) by auto
  moreover from this(1) have "(i * NGROUPS_PER_BLOCK + j) div NGROUPS_PER_BLOCK = i"
    "(i * NGROUPS_PER_BLOCK + j) mod NGROUPS_PER_BLOCK = j" by simp_all
  ultimately show "take c (blocks gi ! i) ! j = take c (drop (i * NGROUPS_PER_BLOCK) (group_list gi)) ! j"
    using j by (simp add: group_list_at GROUP_AT_def)
qed

lemma ngroups_stored [simp]: "ngroups (stored_blocks xs) = int (length xs)"
  by (simp add: stored_blocks_def Let_def)

lemma stored_blocks_ok: "blocks_ok (stored_blocks xs)" and group_list_stored: "group_list (stored_blocks xs) = xs"
proof -
  have fields: "ngroups (stored_blocks xs) = int (length xs)" "nblocks (stored_blocks xs) = block_count (length xs)"
    "blocks (stored_blocks xs) = map (\<lambda>i. take NGROUPS_PER_BLOCK (drop (i * NGROUPS_PER_BLOCK) xs)) [0..<block_count (length xs)]"
    by (simp_all add: stored_blocks_def Let_def block_count_def)
  show "blocks_ok (stored_blocks xs)" by (auto simp: blocks_ok_def fields)
  have "GROUP_AT (stored_blocks xs) k = xs ! k" if "k < length xs" for k
    using in_block [OF that] that by (simp add: GROUP_AT_def fields)
  then show "group_list (stored_blocks xs) = xs" by (simp add: list_eq_iff_nth_eq group_list_at fields)
qed

section \<open>Copies\<close>

lemma to_user_loop_eq:
  assumes "blocks_ok gi" and "i + n = nblocks gi" and "xs = group_list gi"
    and "cnt = length xs - i * NGROUPS_PER_BLOCK" and "min (length xs) (i * NGROUPS_PER_BLOCK) \<le> length um"
    and "mem = take (i * NGROUPS_PER_BLOCK) xs @ drop (min (length xs) (i * NGROUPS_PER_BLOCK)) um"
  shows "to_user_loop gi n i cnt mem =
    (if length xs \<le> length um then (Ok, xs @ drop (length xs) um) else (Inl EFAULT, take (length um) xs))"
  using assms(2,4-)
proof (induction n arbitrary: i cnt mem)
  case 0
  have "length xs \<le> i * NGROUPS_PER_BLOCK"
    using block_count_covers [of "length xs"] assms(1,3) 0 by (simp add: blocks_ok_def)
  then show ?case using 0 by simp
next
  case (Suc n)
  let ?o = "i * NGROUPS_PER_BLOCK" and ?c = "min NGROUPS_PER_BLOCK cnt"
  let ?copy = "copy_ids_to_user mem ?o (take ?c (blocks gi ! i))"
  have ids: "take ?c (blocks gi ! i) = take ?c (drop ?o xs)"
    using block_ids [OF assms(1), of i ?c] Suc.prems assms(3) by simp
  have "i = 0 \<or> i < (length xs + NGROUPS_PER_BLOCK - 1) div NGROUPS_PER_BLOCK"
    using Suc.prems(1) assms(1,3) by (auto simp: blocks_ok_def block_count_def max_def split: if_splits)
  then have sub: "?o \<le> length xs" by auto
  have mem: "length mem = length um" "take ?o mem = take ?o xs" "drop (?o + ?c) mem = drop (?o + ?c) um"
    using Suc.prems(3,4) sub by (simp_all add: add.commute)
  have "cnt = length xs - ?o" by (fact Suc.prems(2))
  then have next': "take (?o + NGROUPS_PER_BLOCK) xs = take ?o xs @ take ?c (drop ?o xs)"
    "?o + ?c = min (length xs) (?o + NGROUPS_PER_BLOCK)" "length (take ?c (drop ?o xs)) = ?c"
    using sub by (auto simp: take_add min_def)
  show ?case
  proof (cases "?o + ?c \<le> length um")
    case True
    have "?copy = (True, take (?o + NGROUPS_PER_BLOCK) xs @ drop (min (length xs) (?o + NGROUPS_PER_BLOCK)) um)"
      unfolding copy_ids_to_user_def ids next'(3) mem
      using True by (simp add: next'(1)) (simp add: next'(2) [symmetric])
    then have "to_user_loop gi (Suc n) i cnt mem = to_user_loop gi n (Suc i) (cnt - ?c)
        (take (?o + NGROUPS_PER_BLOCK) xs @ drop (min (length xs) (?o + NGROUPS_PER_BLOCK)) um)" by simp
    also have "\<dots> = (if length xs \<le> length um then (Ok, xs @ drop (length xs) um) else (Inl EFAULT, take (length um) xs))"
      using Suc.prems(1,2) sub True next'(2) by (intro Suc.IH) (simp_all add: add.commute)
    finally show ?thesis .
  next
    case False
    then have "?copy = (False, take (length um) xs)"
      unfolding copy_ids_to_user_def ids next'(3) mem using Suc.prems(3) sub
      by (simp add: take_add [symmetric] min_def split: if_splits)
    moreover have "\<not> length xs \<le> length um" using False next'(2) by linarith
    ultimately show ?thesis by simp
  qed
qed

lemma groups_to_user_eq:
  assumes "blocks_ok gi"
  shows "groups_to_user um gi =
    (if length (group_list gi) \<le> length um then (Ok, group_list gi @ drop (length (group_list gi)) um)
     else (Inl EFAULT, take (length um) (group_list gi)))"
  unfolding groups_to_user_def by (rule to_user_loop_eq [OF assms]) simp_all

text \<open>What the loop of \<^verbatim>\<open>groups_from_user\<close> leaves in block \<open>j\<close> when it does not fail.\<close>

definition filled :: "u32 list \<Rightarrow> group_blocks \<Rightarrow> nat \<Rightarrow> u32 list" where
  "filled um gi j =
     (let c = min NGROUPS_PER_BLOCK (nat (ngroups gi) - j * NGROUPS_PER_BLOCK)
      in take c (drop (j * NGROUPS_PER_BLOCK) um) @ drop c (blocks gi ! j))"

lemma from_user_loop_eq:
  assumes "blocks_ok gi" and "i + n = nblocks gi" and "0 < n"
    and "cnt = nat (ngroups gi) - i * NGROUPS_PER_BLOCK"
    and "length bs = nblocks gi" and "\<And>j. i \<le> j \<Longrightarrow> j < nblocks gi \<Longrightarrow> bs ! j = blocks gi ! j"
  shows "if nat (ngroups gi) \<le> length um
    then from_user_loop um n i cnt (gi\<lparr>blocks := bs\<rparr>) = (Ok, gi\<lparr>blocks := take i bs @ map (filled um gi) [i..<nblocks gi]\<rparr>)
    else \<exists>bs'. from_user_loop um n i cnt (gi\<lparr>blocks := bs\<rparr>) = (Inl EFAULT, gi\<lparr>blocks := bs'\<rparr>)"
  using assms(2-)
proof (induction n arbitrary: i cnt bs)
  case (Suc n)
  let ?o = "i * NGROUPS_PER_BLOCK" and ?c = "min NGROUPS_PER_BLOCK cnt" and ?N = "nat (ngroups gi)"
  let ?bs = "bs[i := filled um gi i]"
  have "i = 0 \<or> i < (?N + NGROUPS_PER_BLOCK - 1) div NGROUPS_PER_BLOCK"
    using Suc.prems(1) assms(1) by (auto simp: blocks_ok_def block_count_def max_def split: if_splits)
  then have sub: "?o + ?c \<le> ?N" using Suc.prems(3) by auto
  show ?case
  proof (cases "?o + ?c \<le> length um")
    case True
    then have step: "from_user_loop um (Suc n) i cnt (gi\<lparr>blocks := bs\<rparr>)
        = from_user_loop um n (Suc i) (cnt - ?c) (gi\<lparr>blocks := ?bs\<rparr>)"
      using Suc.prems by (simp add: copy_ids_from_user_def filled_def Let_def)
    show ?thesis
    proof (cases "n = 0")
      case n: True
      then have "?N \<le> length um" "nblocks gi = Suc i"
        using True Suc.prems(1,3) block_count_covers [of ?N] assms(1) by (simp_all add: blocks_ok_def)
      then show ?thesis using Suc.prems(4) unfolding step by (simp add: n upd_conv_take_nth_drop)
    next
      case n: False
      have "cnt - ?c = ?N - Suc i * NGROUPS_PER_BLOCK" using Suc.prems(3) by (simp add: min_def add.commute)
      note IH = Suc.IH [OF _ _ this, of ?bs]
      have "take (Suc i) ?bs @ map (filled um gi) [Suc i..<nblocks gi] = take i bs @ map (filled um gi) [i..<nblocks gi]"
        using Suc.prems(1,4) by (simp add: take_Suc_conv_app_nth upt_conv_Cons)
      with IH show ?thesis using Suc.prems(1,4,5) n unfolding step by (simp only: add_Suc_right) simp
    qed
  next
    case False
    then have "\<not> ?N \<le> length um" using sub by linarith
    then show ?thesis using False by (auto simp: copy_ids_from_user_def Let_def intro: exI [of _ bs])
  qed
qed simp

lemma filled_nth:
  assumes "m < NGROUPS_PER_BLOCK" and "m < nat (ngroups gi) - j * NGROUPS_PER_BLOCK" and "nat (ngroups gi) \<le> length um"
  shows "filled um gi j ! m = um ! (j * NGROUPS_PER_BLOCK + m)"
  using assms by (simp add: filled_def Let_def nth_append)

lemma group_list_filled:
  assumes "blocks_ok gi" and "nat (ngroups gi) \<le> length um"
    and "gi' = gi\<lparr>blocks := map (filled um gi) [0..<nblocks gi]\<rparr>"
  shows "group_list gi' = take (nat (ngroups gi)) um"
proof -
  let ?N = "nat (ngroups gi)"
  have "GROUP_AT gi' k = um ! k" if "k < ?N" for k
  proof -
    have "k div NGROUPS_PER_BLOCK < nblocks gi" using in_block [OF that] assms(1) by (simp add: blocks_ok_def)
    moreover have "k mod NGROUPS_PER_BLOCK < ?N - k div NGROUPS_PER_BLOCK * NGROUPS_PER_BLOCK"
      using that by (simp add: modulo_nat_def)
    moreover have "GROUP_AT gi' k = filled um gi (k div NGROUPS_PER_BLOCK) ! (k mod NGROUPS_PER_BLOCK)"
      using calculation(1) by (simp add: GROUP_AT_def assms(3))
    ultimately show ?thesis
      using filled_nth [OF mod_less_divisor, of k gi "k div NGROUPS_PER_BLOCK" um] assms(2) by (simp only: div_mult_mod_eq)
  qed
  moreover have "nat (ngroups gi') = ?N" by (simp add: assms(3))
  ultimately show ?thesis using assms(2) by (intro nth_equalityI) (simp_all add: group_list_at)
qed

lemma groups_from_user_eq:
  assumes "blocks_ok gi"
  shows "if nat (ngroups gi) \<le> length um
    then \<exists>bs. groups_from_user gi um = (Ok, gi\<lparr>blocks := bs\<rparr>) \<and> group_list (gi\<lparr>blocks := bs\<rparr>) = take (nat (ngroups gi)) um
    else \<exists>bs. groups_from_user gi um = (Inl EFAULT, gi\<lparr>blocks := bs\<rparr>)"
proof -
  have "length (blocks gi) = nblocks gi" "0 < nblocks gi"
    using assms by (simp_all add: blocks_ok_def block_count_def)
  then have "if nat (ngroups gi) \<le> length um
    then groups_from_user gi um = (Ok, gi\<lparr>blocks := map (filled um gi) [0..<nblocks gi]\<rparr>)
    else \<exists>bs. groups_from_user gi um = (Inl EFAULT, gi\<lparr>blocks := bs\<rparr>)"
    using from_user_loop_eq [OF assms, of 0 "nblocks gi" "nat (ngroups gi)" "blocks gi" um]
    by (simp add: groups_from_user_def split: if_splits)
  then show ?thesis using group_list_filled [OF assms _ refl, of um] by metis
qed

section \<open>Allocation\<close>

text \<open>Memory suffices for \<open>n\<close> ids when the structure and, above the small size, every page can be had.\<close>

definition mem_enough :: "group_mem \<Rightarrow> nat \<Rightarrow> bool" where
  "mem_enough mem n \<longleftrightarrow>
     kmalloc_info mem \<noteq> None \<and> (32 < n \<longrightarrow> (\<forall>i \<in> {..<block_count n}. get_free_page mem i \<noteq> None))"

lemma held_free_pages [simp]:
  "held_pages (free_pages n l) = held_pages l - int n" "held_infos (free_pages n l) = held_infos l"
  by (induction n arbitrary: l) (simp_all add: free_page_def)

lemma held_kfree_info [simp]:
  "held_pages (kfree_info l) = held_pages l" "held_infos (kfree_info l) = held_infos l - 1"
  by (simp_all add: kfree_info_def)

lemma alloc_blocks_eq:
  "alloc_blocks mem n bs l =
     (if \<forall>i \<in> {length bs..<length bs + n}. get_free_page mem i \<noteq> None
      then (Some (bs @ map (\<lambda>i. the (get_free_page mem i)) [length bs..<length bs + n]), l\<lparr>held_pages := held_pages l + int n\<rparr>)
      else (None, l\<lparr>held_infos := held_infos l - 1, held_pages := held_pages l - int (length bs)\<rparr>))"
proof (induction n arbitrary: bs l)
  case (Suc n)
  show ?case
  proof (cases "get_free_page mem (length bs)")
    case None
    then show ?thesis by (auto intro!: group_ledger.equality)
  next
    case (Some b)
    have "{length bs..<length bs + Suc n} = insert (length bs) {Suc (length bs)..<Suc (length bs) + n}"
      "[length bs..<length bs + Suc n] = length bs # [Suc (length bs)..<Suc (length bs) + n]"
      by (auto simp: upt_conv_Cons)
    then show ?thesis using Suc.IH [of "bs @ [b]"] Some by (simp add: algebra_simps)
  qed
qed simp

lemma alloc_block_count:
  assumes "0 \<le> n" and "n \<le> NGROUPS_MAX"
  shows "(let k = nat ((n + int NGROUPS_PER_BLOCK - 1) mod 2 ^ 32 div int NGROUPS_PER_BLOCK) in if k \<noteq> 0 then k else 1)
     = block_count (nat n)"
proof -
  have "(n + int NGROUPS_PER_BLOCK - 1) mod 2 ^ 32 = n + int NGROUPS_PER_BLOCK - 1" using assms by simp
  moreover have "nat ((n + int NGROUPS_PER_BLOCK - 1) div int NGROUPS_PER_BLOCK) = (nat n + NGROUPS_PER_BLOCK - 1) div NGROUPS_PER_BLOCK"
    using assms(1) by (simp add: nat_div_distrib nat_add_distrib)
  ultimately show ?thesis by (simp add: block_count_def Let_def)
qed

text \<open>
  Allocation succeeds exactly when memory suffices; a failure gives back all it took, and releasing the
  list gives back all that a success took.
\<close>

lemma groups_alloc_exact:
  assumes "mem_ok mem" and "0 \<le> n" and "n \<le> NGROUPS_MAX"
  shows "if mem_enough mem (nat n)
    then \<exists>gi l'. groups_alloc mem n l = (Some gi, l') \<and> blocks_ok gi \<and> ngroups gi = n \<and> usage gi = 1 \<and>
      (\<forall>bs u. groups_free (gi\<lparr>blocks := bs, usage := u\<rparr>) l' = l) \<and> held_infos l' = held_infos l + 1 \<and>
      held_pages l' = held_pages l + (if n \<le> 32 then 0 else int (block_count (nat n)))
    else groups_alloc mem n l = (None, l)"
proof -
  let ?k = "block_count (nat n)"
  let ?gi = "\<lparr>usage = 1, ngroups = n, nblocks = ?k, in_small = n \<le> 32, blocks = []\<rparr>"
  let ?page = "\<lambda>i. the (get_free_page mem i)"
  have eq: "groups_alloc mem n l =
    (case kmalloc_info mem of None \<Rightarrow> (None, l)
     | Some small \<Rightarrow>
        if n \<le> 32 then (Some (?gi\<lparr>blocks := [small]\<rparr>), l\<lparr>held_infos := held_infos l + 1\<rparr>)
        else if \<forall>i \<in> {..<?k}. get_free_page mem i \<noteq> None
        then (Some (?gi\<lparr>blocks := map ?page [0..<?k]\<rparr>), l\<lparr>held_infos := held_infos l + 1, held_pages := held_pages l + int ?k\<rparr>)
        else (None, l))"
    unfolding groups_alloc_def Let_def alloc_block_count [OF assms(2,3), unfolded Let_def]
    by (simp add: alloc_blocks_eq atLeast0LessThan split: option.split)
  have free: "groups_free (?gi\<lparr>blocks := bs, usage := u\<rparr>)
      (l\<lparr>held_infos := held_infos l + 1, held_pages := held_pages l + (if n \<le> 32 then 0 else int ?k)\<rparr>) = l" for bs u
    by (simp add: groups_free_def)
  show ?thesis
  proof (cases "kmalloc_info mem")
    case None
    then show ?thesis by (simp add: eq mem_enough_def)
  next
    case (Some small)
    show ?thesis
    proof (cases "n \<le> 32")
      case True
      then have "blocks_ok (?gi\<lparr>blocks := [small]\<rparr>)" "?k = 1"
        using Some assms(1,2) by (auto simp: blocks_ok_def mem_ok_def block_count_def)
      then show ?thesis using free True assms(2) by (auto simp: eq Some mem_enough_def)
    next
      case False
      have "blocks_ok (?gi\<lparr>blocks := map ?page [0..<?k]\<rparr>)" if "\<forall>i \<in> {..<?k}. get_free_page mem i \<noteq> None"
        using that assms(1,2) by (fastforce simp: blocks_ok_def mem_ok_def)
      then show ?thesis using free False by (auto simp: eq Some mem_enough_def)
    qed
  qed
qed

section \<open>The system calls\<close>

lemma size_check:
  assumes "- (2 ^ 31) \<le> n" and "n < 2 ^ 31"
  shows "n mod 2 ^ 32 > NGROUPS_MAX \<longleftrightarrow> n < 0 \<or> n > NGROUPS_MAX"
proof (cases "n < 0")
  case True
  then have "n mod 2 ^ 32 = n + 2 ^ 32" using assms(1) by (intro mod_pos_pos_trivial [of "n + 2 ^ 32" "2 ^ 32", simplified mod_add_self2]) simp_all
  with True assms(1) show ?thesis by simp
qed (use assms(2) in simp)

lemma held_put_group_info:
  "usage gi = 1 \<Longrightarrow> put_group_info gi l = (gi\<lparr>usage := 0\<rparr>, groups_free (gi\<lparr>usage := 0\<rparr>) l)"
  "usage gi = 1 \<Longrightarrow> put_group_info (get_group_info gi) l = (gi, l)"
  by (simp_all add: put_group_info_def get_group_info_def Let_def)

text \<open>
  \<^verbatim>\<open>setgroups\<close> on every branch: which error it returns, the order of the checks, and that an error changes neither the
  credentials nor the memory in use.  A success installs the ids read, sorted, and keeps one structure
  and its pages.
\<close>

theorem setgroups_exact:
  assumes "mem_ok mem" and "- (2 ^ 31) \<le> n" and "n < 2 ^ 31"
    and "sys_setgroups env mem n um t l = (r, t', l')"
  shows "r = (if \<not> cap_raised (cap_effective (cur_cred t)) CAP_SETGID then Inl EPERM
      else if n < 0 \<or> n > NGROUPS_MAX then Inl EINVAL
      else if \<not> mem_enough mem (nat n) then Inl ENOMEM
      else if length um < nat n then Inl EFAULT
      else if \<not> cred_mem env then Inl ENOMEM else Ok) \<and>
    bug_hit t' = bug_hit t \<and>
    (if r = Ok
     then cur_cred t' = set_groups (cur_cred t) (take (nat n) um) \<and> held_infos l' = held_infos l + 1 \<and>
       held_pages l' = held_pages l + (if n \<le> 32 then 0 else int (block_count (nat n)))
     else cur_cred t' = cur_cred t \<and> l' = l)"
proof -
  obtain b t1 where g: "nsown_capable CAP_SETGID t = (b, t1)" by fastforce
  note cap = nsown_capableD [OF g cap_valid_setids(2)]
  note run = assms(4) [unfolded sys_setgroups_def g prod.case size_check [OF assms(2,3)]]
  show ?thesis
  proof (cases "b \<and> \<not> (n < 0 \<or> n > NGROUPS_MAX) \<and> mem_enough mem (nat n)")
    case False
    then show ?thesis
      using run cap groups_alloc_exact [OF assms(1), of n l] by (auto simp: same_creds_def split: if_splits)
  next
    case True
    then obtain gi l1 where alloc: "groups_alloc mem n l = (Some gi, l1)" and gi: "blocks_ok gi" "ngroups gi = n" "usage gi = 1"
      and free: "\<And>bs u. groups_free (gi\<lparr>blocks := bs, usage := u\<rparr>) l1 = l"
      and held: "held_infos l1 = held_infos l + 1" "held_pages l1 = held_pages l + (if n \<le> 32 then 0 else int (block_count (nat n)))"
      using groups_alloc_exact [OF assms(1), of n l] by auto
    note copy = groups_from_user_eq [OF gi(1), of um, unfolded gi(2)]
    have rel: "snd (put_group_info (gi\<lparr>blocks := bs\<rparr>) l1) = l" "snd (put_group_info (get_group_info (gi\<lparr>blocks := bs\<rparr>)) l1) = l1" for bs
      using free [where bs = bs and u = 0] by (simp_all add: held_put_group_info gi(3))
    show ?thesis
    proof (cases "nat n \<le> length um")
      case False
      with copy obtain bs where "groups_from_user gi um = (Inl EFAULT, gi\<lparr>blocks := bs\<rparr>)" by auto
      then show ?thesis using run True False cap rel by (auto simp: alloc same_creds_def)
    next
      case um: True
      with copy obtain bs where "groups_from_user gi um = (Ok, gi\<lparr>blocks := bs\<rparr>)"
        and ids: "group_list (gi\<lparr>blocks := bs\<rparr>) = take (nat n) um" by auto
      then show ?thesis
        using run True um cap rel held ids
        by (cases "cred_mem env") (auto simp: alloc same_creds_def set_current_groups_def prepare_creds_def
            split: prod.splits dest!: commit_credsD)
    qed
  qed
qed

lemma groups_sort_sort: "groups_sort gi = sort gi"
  by (intro properties_for_sort [symmetric]) (simp_all add: groups_sort_sorted groups_sort_mset)

lemma getgroups_eq:
  assumes "cred_groups (cur_cred t) = Some xs" and "int (length xs) \<le> n" and "0 < n"
  shows "sys_getgroups n um t =
    (if length xs \<le> length um then (Inr (int (length xs)), xs @ drop (length xs) um, t)
     else (Inl EFAULT, take (length um) xs, t))"
  using assms groups_to_user_eq [OF stored_blocks_ok [of xs], of um] by (simp add: sys_getgroups_def group_list_stored)

text \<open>
  What \<^verbatim>\<open>setgroups\<close> installs \<^verbatim>\<open>getgroups\<close> reads back, in ascending order: asked for the size it
  returns the number of groups, and a buffer that is large enough receives them and is not touched behind them.
\<close>

theorem setgroups_getgroups:
  assumes "mem_ok mem" and "0 < n" and "n \<le> NGROUPS_MAX" and "sys_setgroups env mem n um t l = (Ok, t', l')"
    and "n \<le> m" and "nat n \<le> length buf"
  shows "sys_getgroups 0 [] t' = (Inr n, [], t') \<and>
    sys_getgroups m buf t' = (Inr n, sort (take (nat n) um) @ drop (nat n) buf, t')"
proof -
  have "cur_cred t' = set_groups (cur_cred t) (take (nat n) um)" "nat n \<le> length um"
    using setgroups_exact [OF assms(1) _ _ assms(4)] assms(2,3) by (auto split: if_splits)
  then have g: "cred_groups (cur_cred t') = Some (sort (take (nat n) um))" "length (sort (take (nat n) um)) = nat n"
    by (simp_all add: set_groups_def groups_sort_sort)
  then show ?thesis
    using getgroups_eq [OF g(1), of m buf] assms by (simp add: sys_getgroups_def)
qed

end
