(* ===== verification/Exec_Cred.thy ===== *)
theory Exec_Cred
  imports Capability
begin

text \<open>
  The credentials of a program after \<^verbatim>\<open>execve\<close>: the set-id bits in \<^verbatim>\<open>prepare_binprm\<close>
  (\<^verbatim>\<open>fs/exec.c\<close>), the capabilities stored with the file and the rules for root in
  \<^verbatim>\<open>security/commoncap.c\<close>, and their installation.  What the file system answers, the extended
  attribute with the file capabilities and the first bytes of the file, are fields of the
  record \<open>exec_file\<close>.
\<close>

section \<open>Data\<close>

record exec_file =
  has_f_op :: bool
  i_mode :: u16
  i_uid :: u32
  i_gid :: u32
  MNT_NOSUID :: bool
  getxattr :: "(errno + u8 list) option"
  kernel_read :: "nat kresult"

record linux_binprm =
  bprm_cred :: cred
  bprm_cap_effective :: bool
  unsafe_bits :: u32
  per_clear :: bool
  cred_prepared :: bool

record cpu_vfs_cap_data =
  magic_etc :: u32
  vfs_permitted :: kernel_cap_t
  vfs_inheritable :: kernel_cap_t

abbreviation (input) VFS_CAP_REVISION_MASK :: u32 where "VFS_CAP_REVISION_MASK \<equiv> 0xFF000000"
abbreviation (input) VFS_CAP_REVISION_1 :: u32 where "VFS_CAP_REVISION_1 \<equiv> 0x01000000"
abbreviation (input) VFS_CAP_REVISION_2 :: u32 where "VFS_CAP_REVISION_2 \<equiv> 0x02000000"
abbreviation (input) VFS_CAP_FLAGS_EFFECTIVE :: u32 where "VFS_CAP_FLAGS_EFFECTIVE \<equiv> 1"

section \<open>File capabilities\<close>

definition cap_inode_need_killpriv :: "exec_file \<Rightarrow> bool" where
  "cap_inode_need_killpriv f =
     (case getxattr f of
        None \<Rightarrow> False
      | Some (Inl e) \<Rightarrow> False
      | Some (Inr bytes) \<Rightarrow> 0 < length bytes)"

definition bprm_clear_caps :: "linux_binprm \<Rightarrow> linux_binprm" where
  "bprm_clear_caps bprm =
     bprm\<lparr>bprm_cred := (bprm_cred bprm)\<lparr>cap_permitted := CAP_EMPTY_SET\<rparr>, bprm_cap_effective := False\<rparr>"

definition le32_at :: "u8 list \<Rightarrow> nat \<Rightarrow> u32" where
  "le32_at b i =
     ucast (b ! (4 * i)) OR push_bit 8 (ucast (b ! (4 * i + 1))) OR
     push_bit 16 (ucast (b ! (4 * i + 2))) OR push_bit 24 (ucast (b ! (4 * i + 3)))"

definition get_vfs_caps_from_disk :: "exec_file \<Rightarrow> cpu_vfs_cap_data kresult" where
  "get_vfs_caps_from_disk f =
     (case getxattr f of
        None \<Rightarrow> Inl ENODATA
      | Some (Inl e) \<Rightarrow> Inl (if e = ENODATA \<or> e = EOPNOTSUPP then ENODATA else e)
      | Some (Inr caps) \<Rightarrow>
          if length caps < 4 then Inl EINVAL
          else (let magic = le32_at caps 0; rev = magic AND VFS_CAP_REVISION_MASK
                in if rev = VFS_CAP_REVISION_1
                   then if length caps \<noteq> 12 then Inl EINVAL
                        else Inr \<lparr>magic_etc = magic,
                                  vfs_permitted = \<lparr>cap0 = le32_at caps 1, cap1 = 0\<rparr>,
                                  vfs_inheritable = \<lparr>cap0 = le32_at caps 2, cap1 = 0\<rparr>\<rparr>
                   else if rev = VFS_CAP_REVISION_2
                   then if length caps \<noteq> 20 then Inl EINVAL
                        else Inr \<lparr>magic_etc = magic,
                                  vfs_permitted = \<lparr>cap0 = le32_at caps 1, cap1 = le32_at caps 3\<rparr>,
                                  vfs_inheritable = \<lparr>cap0 = le32_at caps 2, cap1 = le32_at caps 4\<rparr>\<rparr>
                   else Inl EINVAL))"

definition new_permitted_word :: "u32 \<Rightarrow> u32 \<Rightarrow> u32 \<Rightarrow> u32 \<Rightarrow> u32" where
  "new_permitted_word bset fP pI fI = (bset AND fP) OR (pI AND fI)"

definition bprm_caps_from_vfs_caps ::
  "cpu_vfs_cap_data \<Rightarrow> linux_binprm \<Rightarrow> bool \<Rightarrow> unit kresult \<times> linux_binprm \<times> bool" where
  "bprm_caps_from_vfs_caps caps bprm effective =
     (let new = bprm_cred bprm;
          effective' = (if magic_etc caps AND VFS_CAP_FLAGS_EFFECTIVE \<noteq> 0 then True else effective);
          p0 = new_permitted_word (cap0 (cap_bset new)) (cap0 (vfs_permitted caps))
                 (cap0 (cap_inheritable new)) (cap0 (vfs_inheritable caps));
          p1 = new_permitted_word (cap1 (cap_bset new)) (cap1 (vfs_permitted caps))
                 (cap1 (cap_inheritable new)) (cap1 (vfs_inheritable caps));
          missing = cap0 (vfs_permitted caps) AND NOT p0 \<noteq> 0 \<or> cap1 (vfs_permitted caps) AND NOT p1 \<noteq> 0
      in (if effective' \<and> missing then Inl EPERM else Ok,
          bprm\<lparr>bprm_cred := new\<lparr>cap_permitted := \<lparr>cap0 = p0, cap1 = p1\<rparr>\<rparr>\<rparr>, effective'))"

definition get_file_caps ::
  "kernel_env \<Rightarrow> exec_file \<Rightarrow> linux_binprm \<Rightarrow> bool \<Rightarrow> unit kresult \<times> linux_binprm \<times> bool" where
  "get_file_caps env f bprm effective =
     (let bprm1 = bprm_clear_caps bprm
      in if \<not> file_caps_enabled env then (Ok, bprm1, effective)
         else if MNT_NOSUID f then (Ok, bprm1, effective)
         else case get_vfs_caps_from_disk f of
           Inl rc \<Rightarrow> if rc = ENODATA then (Ok, bprm1, effective)
                      else (Inl rc, bprm_clear_caps bprm1, effective)
         | Inr vcaps \<Rightarrow>
             (let (rc, bprm2, effective') = bprm_caps_from_vfs_caps vcaps bprm1 effective
              in (rc, if rc \<noteq> Ok then bprm_clear_caps bprm2 else bprm2, effective')))"

section \<open>The new credentials\<close>

abbreviation (input) LSM_UNSAFE_PTRACE_CAP :: u32 where "LSM_UNSAFE_PTRACE_CAP \<equiv> 4"

text \<open>The part for root; \<^verbatim>\<open>goto skip\<close> leaves it early.\<close>

definition root_caps :: "cred \<Rightarrow> cred \<Rightarrow> bool \<Rightarrow> task_struct \<Rightarrow> cred \<times> bool" where
  "root_caps new old effective t =
     (if issecure SECURE_NOROOT t then (new, effective)
      else if effective \<and> uid new \<noteq> 0 \<and> euid new = 0 then (new, effective)
      else (let n1 = (if euid new = 0 \<or> uid new = 0
                      then new\<lparr>cap_permitted := cap_combine (cap_bset old) (cap_inheritable old)\<rparr> else new)
            in (n1, if euid n1 = 0 then True else effective)))"

definition downgrade :: "cred \<Rightarrow> cred \<Rightarrow> u32 \<Rightarrow> task_struct \<Rightarrow> cred \<times> task_struct" where
  "downgrade new old unsf t =
     (if (euid new \<noteq> uid old \<or> egid new \<noteq> gid old \<or> \<not> cap_issubset (cap_permitted new) (cap_permitted old)) \<and>
         unsf AND NOT LSM_UNSAFE_PTRACE_CAP \<noteq> 0
      then (let (b, t') = capable CAP_SETUID t;
                n1 = (if \<not> b then new\<lparr>euid := uid new, egid := gid new\<rparr> else new)
            in (n1\<lparr>cap_permitted := cap_intersect (cap_permitted n1) (cap_permitted old)\<rparr>, t'))
      else (new, t))"

definition cap_bprm_set_creds ::
  "kernel_env \<Rightarrow> exec_file \<Rightarrow> linux_binprm \<Rightarrow> task_struct \<Rightarrow> unit kresult \<times> linux_binprm \<times> task_struct" where
  "cap_bprm_set_creds env f bprm t =
     (let old = cur_cred t;
          (ret, bprm1, eff1) = get_file_caps env f bprm False
      in if ret \<noteq> Ok then (ret, bprm1, t)
         else (let (n1, effective) = root_caps (bprm_cred bprm1) old eff1 t;
                   (n2, t') = downgrade n1 old (unsafe_bits bprm1) t;
                   n3 = n2\<lparr>suid := euid n2, fsuid := euid n2, sgid := egid n2, fsgid := egid n2\<rparr>;
                   n4 = n3\<lparr>cap_effective := if effective then cap_permitted n3 else CAP_EMPTY_SET\<rparr>;
                   bprm2 = bprm1\<lparr>bprm_cred := n4, bprm_cap_effective := effective\<rparr>
               in if \<not> cap_isclear (cap_effective n4) \<and>
                     (\<not> cap_issubset CAP_FULL_SET (cap_effective n4) \<or> euid n4 \<noteq> 0 \<or> uid n4 \<noteq> 0 \<or>
                      issecure SECURE_NOROOT t) \<and> audit_fcaps env \<noteq> Ok
                  then (audit_fcaps env, bprm2, t')
                  else (Ok, bprm2\<lparr>bprm_cred := n4\<lparr>securebits := securebits n4 AND NOT (issecure_mask SECURE_KEEP_CAPS)\<rparr>\<rparr>, t')))"

definition cap_bprm_secureexec :: "linux_binprm \<Rightarrow> task_struct \<Rightarrow> bool" where
  "cap_bprm_secureexec bprm t =
     (let cr = cur_cred t
      in if uid cr \<noteq> 0 \<and> bprm_cap_effective bprm then True
         else if uid cr \<noteq> 0 \<and> \<not> cap_isclear (cap_permitted cr) then True
         else euid cr \<noteq> uid cr \<or> egid cr \<noteq> gid cr)"

section \<open>Running a program\<close>

abbreviation (input) S_ISUID :: u16 where "S_ISUID \<equiv> 0x800"
abbreviation (input) S_ISGID_IXGRP :: u16 where "S_ISGID_IXGRP \<equiv> 0x408"

definition prepare_binprm ::
  "kernel_env \<Rightarrow> exec_file \<Rightarrow> linux_binprm \<Rightarrow> task_struct \<Rightarrow> nat kresult \<times> linux_binprm \<times> task_struct" where
  "prepare_binprm env f bprm t =
     (if \<not> has_f_op f then (Inl EACCES, bprm, t)
      else (let n0 = (bprm_cred bprm)\<lparr>euid := euid (cur_cred t), egid := egid (cur_cred t)\<rparr>;
                setuid_bit = (\<not> MNT_NOSUID f \<and> i_mode f AND S_ISUID \<noteq> 0);
                setgid_bit = (\<not> MNT_NOSUID f \<and> i_mode f AND S_ISGID_IXGRP = S_ISGID_IXGRP);
                n1 = (if setuid_bit then n0\<lparr>euid := i_uid f\<rparr> else n0);
                n2 = (if setgid_bit then n1\<lparr>egid := i_gid f\<rparr> else n1);
                bprm1 = bprm\<lparr>bprm_cred := n2, per_clear := per_clear bprm \<or> setuid_bit \<or> setgid_bit\<rparr>;
                (ret, bprm2, t') = cap_bprm_set_creds env f bprm1 t
            in case ret of
                 Inl e \<Rightarrow> (Inl e, bprm2, t')
               | Inr _ \<Rightarrow> (kernel_read f, bprm2\<lparr>cred_prepared := True\<rparr>, t')))"

definition install_exec_creds :: "kernel_env \<Rightarrow> linux_binprm \<Rightarrow> task_struct \<Rightarrow> unit kresult \<times> task_struct" where
  "install_exec_creds env bprm t = commit_creds env (bprm_cred bprm) t"

text \<open>
  The course of one \<^verbatim>\<open>execve\<close>, as far as credentials go: the process limit, fresh credentials, the
  checks for every file of the chain of interpreters in turn (a script and then its
  interpreter), and the installation once the last of them has been loaded.  \<open>loads\<close> is the
  outcome of the rest: opening the file, copying the arguments, mapping the program.
\<close>

fun exec_chain ::
  "kernel_env \<Rightarrow> exec_file list \<Rightarrow> linux_binprm \<Rightarrow> task_struct \<Rightarrow> nat kresult \<times> linux_binprm \<times> task_struct" where
  "exec_chain env [] bprm t = (Inr 0, bprm, t)"
| "exec_chain env (f # fs) bprm t =
     (case prepare_binprm env f bprm t of
        (Inl e, bprm', t') \<Rightarrow> (Inl e, bprm', t')
      | (Inr n, bprm', t') \<Rightarrow> exec_chain env fs bprm' t')"

definition do_execve_creds ::
  "kernel_env \<Rightarrow> u32 \<Rightarrow> exec_file \<Rightarrow> exec_file list \<Rightarrow> unit kresult \<Rightarrow> task_struct \<Rightarrow> unit kresult \<times> task_struct" where
  "do_execve_creds env unsf file interps loads t =
     (if PF_NPROC_EXCEEDED t \<and> processes t (user (cur_cred t)) > rlimit_nproc env then (Inl EAGAIN, t)
      else (let t1 = t\<lparr>PF_NPROC_EXCEEDED := False\<rparr>
            in case prepare_creds env t1 of
                 None \<Rightarrow> (Inl ENOMEM, t1)
               | Some new \<Rightarrow>
                  (case exec_chain env (file # interps)
                          \<lparr>bprm_cred = new, bprm_cap_effective = False, unsafe_bits = unsf,
                           per_clear = False, cred_prepared = False\<rparr> t1 of
                     (Inl e, bprm, t2) \<Rightarrow> (Inl e, t2)
                   | (Inr n, bprm, t2) \<Rightarrow>
                       (case loads of Inl e \<Rightarrow> (Inl e, t2) | Inr _ \<Rightarrow> install_exec_creds env bprm t2))))"

end
