(* ===== verification/Privilege.thy ===== *)
theory Privilege
  imports Setid Group_Calls Exec_Cred
begin

text \<open>
  What the credential calls together guarantee.  A \<open>cred_call\<close> is one system call that can change
  the credentials of the current task; \<open>run_calls\<close> performs a sequence of them, each in a kernel
  environment of its own.  Calls other than \<^verbatim>\<open>execve\<close> can only give up privilege; \<^verbatim>\<open>execve\<close> gives at
  most what the bounding set and the inheritable set allow.
\<close>

section \<open>Calls\<close>

datatype cred_call =
    Setuid u32 | Setreuid u32 u32 | Setresuid u32 u32 u32 | Setfsuid u32
  | Setgid u32 | Setregid u32 u32 | Setresgid u32 u32 u32 | Setfsgid u32
  | Setgroups group_mem int "u32 list" group_ledger
  | Capset cap_user_header "cap_user_data list" | Prctl prctl_option u32
  | Execve u32 exec_file "exec_file list" "unit kresult"

fun do_call :: "kernel_env \<Rightarrow> cred_call \<Rightarrow> task_struct \<Rightarrow> task_struct" where
  "do_call env (Setuid u) t = snd (sys_setuid env u t)"
| "do_call env (Setreuid r e) t = snd (sys_setreuid env r e t)"
| "do_call env (Setresuid r e s) t = snd (sys_setresuid env r e s t)"
| "do_call env (Setfsuid u) t = snd (sys_setfsuid env u t)"
| "do_call env (Setgid g) t = snd (sys_setgid env g t)"
| "do_call env (Setregid r e) t = snd (sys_setregid env r e t)"
| "do_call env (Setresgid r e s) t = snd (sys_setresgid env r e s t)"
| "do_call env (Setfsgid g) t = snd (sys_setfsgid env g t)"
| "do_call env (Setgroups mem n ids l) t = fst (snd (sys_setgroups env mem n ids t l))"
| "do_call env (Capset header d) t = snd (sys_capset env header d t)"
| "do_call env (Prctl opt arg) t = snd (cap_task_prctl env opt arg t)"
| "do_call env (Execve unsf f fs loads) t = snd (do_execve_creds env unsf f fs loads t)"

fun is_execve :: "cred_call \<Rightarrow> bool" where
  "is_execve (Execve _ _ _ _) = True"
| "is_execve _ = False"

fun run_calls :: "(kernel_env \<times> cred_call) list \<Rightarrow> task_struct \<Rightarrow> task_struct" where
  "run_calls [] t = t"
| "run_calls ((env, c) # cs) t = run_calls cs (do_call env c t)"

section \<open>Losing privilege\<close>

definition uids :: "cred \<Rightarrow> u32 set" where
  "uids c = {uid c, euid c, suid c, fsuid c}"

definition gids :: "cred \<Rightarrow> u32 set" where
  "gids c = {gid c, egid c, sgid c, fsgid c}"

definition caps_ok :: "cred \<Rightarrow> bool" where
  "caps_ok c \<longleftrightarrow> cap_issubset (cap_effective c) (cap_permitted c)"

text \<open>
  A lock bit stays set; a locked bit keeps its value, apart from keep-caps, which may be cleared
  (by an \<^verbatim>\<open>execve\<close>) and not set again.
\<close>

definition locks_kept :: "u32 \<Rightarrow> u32 \<Rightarrow> bool" where
  "locks_kept sb sb' \<longleftrightarrow>
     (bit sb 1 \<longrightarrow> bit sb' 1 \<and> (bit sb' 0 \<longleftrightarrow> bit sb 0)) \<and>
     (bit sb 3 \<longrightarrow> bit sb' 3 \<and> (bit sb' 2 \<longleftrightarrow> bit sb 2)) \<and>
     (bit sb 5 \<longrightarrow> bit sb' 5 \<and> (bit sb' 4 \<longrightarrow> bit sb 4))"

definition bounds_kept :: "cred \<Rightarrow> cred \<Rightarrow> bool" where
  "bounds_kept old new \<longleftrightarrow>
     caps_ok new \<and> cap_issubset (cap_bset new) (cap_bset old) \<and> locks_kept (securebits old) (securebits new) \<and>
     (groups_sorted old \<longrightarrow> groups_sorted new)"

definition no_gain :: "cred \<Rightarrow> cred \<Rightarrow> bool" where
  "no_gain old new \<longleftrightarrow>
     bounds_kept old new \<and> cap_issubset (cap_permitted new) (cap_permitted old) \<and>
     (\<not> cap_raised (cap_permitted old) CAP_SETUID \<longrightarrow> uids new \<subseteq> uids old) \<and>
     (\<not> cap_raised (cap_permitted old) CAP_SETGID \<longrightarrow> gids new \<subseteq> gids old \<and> cred_groups new = cred_groups old)"

lemma locks_kept_refl [simp]: "locks_kept sb sb"
  by (simp add: locks_kept_def)

lemma locks_kept_trans: "locks_kept a b \<Longrightarrow> locks_kept b c \<Longrightarrow> locks_kept a c"
  by (auto simp: locks_kept_def)

lemma bounds_kept_trans: "bounds_kept a b \<Longrightarrow> bounds_kept b c \<Longrightarrow> bounds_kept a c"
  by (auto simp: bounds_kept_def intro: kc.issubset_trans locks_kept_trans)

lemma raised_mono: "cap_issubset a b \<Longrightarrow> cap_raised a x \<Longrightarrow> x < 64 \<Longrightarrow> cap_raised b x"
  by (auto simp: cap_issubset_iff cap_set_def)

lemma no_gain_trans: "no_gain a b \<Longrightarrow> no_gain b c \<Longrightarrow> no_gain a c"
  unfolding no_gain_def
  by (auto intro: bounds_kept_trans kc.issubset_trans dest: raised_mono [of "cap_permitted b" "cap_permitted a"])

lemma no_gain_refl: "caps_ok c \<Longrightarrow> no_gain c c"
  by (simp add: no_gain_def bounds_kept_def groups_sorted_def)

section \<open>Checks with alternatives\<close>

lemma or_nsownD:
  assumes "or_nsown cond cap t = (b, t')" and "cap_valid cap"
  shows "same_creds t t'" and "b \<longleftrightarrow> cond \<or> cap_raised (cap_effective (cur_cred t)) cap"
  using assms nsown_capableD [of cap t b t']
  by (auto simp: or_nsown_def same_creds_def split: if_splits)

lemma set_userD:
  assumes "set_user env new t = (r, t')"
  shows "same_creds t t'" and "r = Inr n \<Longrightarrow> \<exists>u. n = new\<lparr>user := u\<rparr>"
  using assms by (auto simp: set_user_def same_creds_def split: option.splits)

section \<open>Calls without execve\<close>

text \<open>The fix-up after a change of the user id only lowers the permitted set.\<close>

definition lowered :: "cred \<Rightarrow> cred \<Rightarrow> bool" where
  "lowered new n \<longleftrightarrow>
     (\<exists>P E. n = new\<lparr>cap_permitted := P, cap_effective := E\<rparr> \<and> cap_issubset E P \<and> cap_issubset P (cap_permitted new))"

lemma lowered_refl: "caps_ok new \<Longrightarrow> lowered new new"
  unfolding lowered_def caps_ok_def by (intro exI [of _ "cap_permitted new"] exI [of _ "cap_effective new"]) simp

lemma emulate_lowers: "caps_ok new \<Longrightarrow> lowered new (cap_emulate_setxuid new old t)"
proof -
  let ?n = "cap_emulate_setxuid new old t"
  assume "caps_ok new"
  then have "cap_issubset (cap_effective ?n) (cap_permitted ?n)" "cap_issubset (cap_permitted ?n) (cap_permitted new)"
    by (auto simp: cap_emulate_setxuid_def Let_def caps_ok_def)
  moreover have "?n = new\<lparr>cap_permitted := cap_permitted ?n, cap_effective := cap_effective ?n\<rparr>"
    by (auto simp: cap_emulate_setxuid_def Let_def)
  ultimately show ?thesis unfolding lowered_def by blast
qed

lemma fs_sets_ok:
  assumes "cap_issubset E P"
  shows "cap_issubset (cap_drop_fs_set E) P" and "cap_issubset (cap_raise_fs_set E P) P"
  using assms by (simp_all add: cap_drop_fs_set_def cap_raise_fs_set_def kc.issubset_drop)

lemma fix_setuid_lowers:
  assumes "caps_ok new"
  shows "\<exists>n. cap_task_fix_setuid new old (Some flags) t = Inr n \<and> lowered new n"
proof (cases "flags = LSM_SETID_FS")
  case True
  let ?lower = "\<lambda>E. lowered new (new\<lparr>cap_effective := E\<rparr>)"
  have "?lower E" if "cap_issubset E (cap_permitted new)" for E
    unfolding lowered_def using that by (intro exI [of _ "cap_permitted new"] exI [of _ E]) simp
  then show ?thesis
    using True assms lowered_refl [OF assms] fs_sets_ok [of "cap_effective new" "cap_permitted new"]
    by (auto simp: cap_task_fix_setuid_def Let_def caps_ok_def)
next
  case False
  then show ?thesis
    using emulate_lowers [OF assms] lowered_refl [OF assms]
    by (cases flags) (auto simp: cap_task_fix_setuid_def)
qed

text \<open>A change of the user ids followed by the fix-up.\<close>

lemma no_gain_uids:
  assumes "caps_ok old" and "lowered (old\<lparr>uid := r, euid := e, suid := s, fsuid := f, user := u\<rparr>) new"
    and "\<not> cap_raised (cap_effective old) CAP_SETUID \<Longrightarrow> {r, e, s, f} \<subseteq> uids old"
  shows "no_gain old new"
proof -
  have "\<not> cap_raised (cap_permitted old) CAP_SETUID \<Longrightarrow> \<not> cap_raised (cap_effective old) CAP_SETUID"
    using raised_mono [of "cap_effective old" "cap_permitted old"] assms(1) by (auto simp: caps_ok_def)
  then show ?thesis
    using assms by (auto simp: no_gain_def bounds_kept_def groups_sorted_def lowered_def caps_ok_def uids_def gids_def)
qed

lemma no_gain_gids:
  assumes "caps_ok old"
    and "new = old\<lparr>gid := gid new, egid := egid new, sgid := sgid new, fsgid := fsgid new\<rparr>"
    and "\<not> cap_raised (cap_effective old) CAP_SETGID \<Longrightarrow> gids new \<subseteq> gids old"
  shows "no_gain old new"
proof -
  have "\<not> cap_raised (cap_permitted old) CAP_SETGID \<Longrightarrow> \<not> cap_raised (cap_effective old) CAP_SETGID"
    using raised_mono [of "cap_effective old" "cap_permitted old"] assms(1) by (auto simp: caps_ok_def)
  moreover have "cap_permitted new = cap_permitted old" "cap_effective new = cap_effective old" "cap_bset new = cap_bset old"
    "securebits new = securebits old" "uids new = uids old" "cred_groups new = cred_groups old"
    by (subst assms(2), simp add: uids_def)+
  ultimately show ?thesis
    using assms(1,3) by (auto simp: no_gain_def bounds_kept_def groups_sorted_def caps_ok_def)
qed

definition call_ok :: "task_struct \<Rightarrow> task_struct \<Rightarrow> bool" where
  "call_ok t t' \<longleftrightarrow> no_gain (cur_cred t) (cur_cred t') \<and> bug_hit t' = bug_hit t"

lemma call_ok_same: "caps_ok (cur_cred t) \<Longrightarrow> same_creds t t' \<Longrightarrow> call_ok t t'"
  by (simp add: same_creds_def no_gain_refl call_ok_def)

lemma call_ok_gids:
  assumes "same_creds t t'" and "caps_ok (cur_cred t)"
    and "new = (cur_cred t)\<lparr>gid := gid new, egid := egid new, sgid := sgid new, fsgid := fsgid new\<rparr>"
    and "\<not> cap_raised (cap_effective (cur_cred t)) CAP_SETGID \<Longrightarrow> gids new \<subseteq> gids (cur_cred t)"
  shows "call_ok t (snd (commit_creds env new t'))"
  using assms no_gain_gids [OF assms(2-4)] by (simp add: same_creds_def call_ok_def)

lemma fix_and_commit_ok:
  assumes "same_creds t t'" and "caps_ok (cur_cred t)"
    and "new = (cur_cred t)\<lparr>uid := uid new, euid := euid new, suid := suid new, fsuid := fsuid new, user := user new\<rparr>"
    and "\<not> cap_raised (cap_effective (cur_cred t)) CAP_SETUID \<Longrightarrow> uids new \<subseteq> uids (cur_cred t)"
  shows "call_ok t (snd (fix_and_commit env new flags t'))"
proof -
  have "caps_ok new" using assms(2) by (subst assms(3)) (simp add: caps_ok_def)
  then obtain n where n: "cap_task_fix_setuid new (cur_cred t') (Some flags) t' = Inr n" "lowered new n"
    using fix_setuid_lowers by blast
  let ?ids = "(cur_cred t)\<lparr>uid := uid new, euid := euid new, suid := suid new, fsuid := fsuid new, user := user new\<rparr>"
  have "lowered ?ids n" using n(2) assms(3) by argo
  then have "no_gain (cur_cred t) n"
    using assms(4) by (intro no_gain_uids [OF assms(2)]) (auto simp: uids_def)
  then show ?thesis
    using n assms(1) by (simp add: fix_and_commit_def same_creds_def call_ok_def)
qed

lemma guard_ok:
  assumes "(if x \<noteq> - 1 then or_nsown cond cap t' else (True, t')) = (b, t1)" and "cap_valid cap" and "same_creds t t'"
  shows "same_creds t t1" and "b \<Longrightarrow> x = - 1 \<or> cond \<or> cap_raised (cap_effective (cur_cred t)) cap"
  using assms or_nsownD [of cond cap t' b t1] by (auto simp: same_creds_def split: if_splits)

lemma setregid_ok: "caps_ok (cur_cred t) \<Longrightarrow> call_ok t (snd (sys_setregid env rg eg t))"
proof -
  assume ok: "caps_ok (cur_cred t)"
  let ?c = "cur_cred t"
  obtain ok1 t1 where g1: "(if rg \<noteq> - 1 then or_nsown (gid ?c = rg \<or> egid ?c = rg) CAP_SETGID t else (True, t)) = (ok1, t1)"
    by fastforce
  obtain ok2 t2 where g2: "(if eg \<noteq> - 1 then or_nsown (gid ?c = eg \<or> egid ?c = eg \<or> sgid ?c = eg) CAP_SETGID t1 else (True, t1)) = (ok2, t2)"
    by fastforce
  note 1 = guard_ok [OF g1 cap_valid_setids(2) same_creds_refl]
  note 2 = guard_ok [OF g2 cap_valid_setids(2) 1(1)]
  show ?thesis
    unfolding sys_setregid_def prepare_creds_def Let_def g1 g2 prod.case
    using ok call_ok_same [OF ok 1(1)] call_ok_same [OF ok 2(1)] call_ok_same [OF ok same_creds_refl] 1(2) 2(2)
    by (auto intro!: call_ok_gids [OF 2(1) ok] simp: gids_def)
qed

lemma setgid_ok: "caps_ok (cur_cred t) \<Longrightarrow> call_ok t (snd (sys_setgid env g t))"
proof -
  assume ok: "caps_ok (cur_cred t)"
  obtain b t1 where g: "nsown_capable CAP_SETGID t = (b, t1)" by fastforce
  note 1 = nsown_capableD [OF g cap_valid_setids(2)]
  show ?thesis
    unfolding sys_setgid_def prepare_creds_def Let_def g prod.case
    using call_ok_same [OF ok 1(1)] call_ok_same [OF ok same_creds_refl] 1(2)
    by (auto intro!: call_ok_gids [OF 1(1) ok] simp: gids_def)
qed

lemma setgroups_ok: "caps_ok (cur_cred t) \<Longrightarrow> call_ok t (fst (snd (sys_setgroups env mem n ids t l)))"
proof -
  assume ok: "caps_ok (cur_cred t)"
  obtain b t1 where g: "nsown_capable CAP_SETGID t = (b, t1)" by fastforce
  note 1 = nsown_capableD [OF g cap_valid_setids(2)]
  have "cap_raised (cap_effective (cur_cred t)) CAP_SETGID \<Longrightarrow> cap_raised (cap_permitted (cur_cred t)) CAP_SETGID"
    using raised_mono [of "cap_effective (cur_cred t)" "cap_permitted (cur_cred t)"] ok by (auto simp: caps_ok_def)
  then have set: "call_ok t (snd (commit_creds env (set_groups (cur_cred t) xs) t1))" if "b" for xs
    using ok 1 that
    by (auto simp: same_creds_def call_ok_def no_gain_def bounds_kept_def groups_sorted_def caps_ok_def uids_def gids_def set_groups_def groups_sort_sorted)
  show ?thesis
    unfolding sys_setgroups_def set_current_groups_def prepare_creds_def g prod.case
    using set call_ok_same [OF ok 1(1)] 1(1)
    by (auto simp: same_creds_def split: prod.split sum.split option.split) (metis snd_conv)+
qed

text \<open>The ids a call with three optional arguments installs.\<close>

definition pick :: "u32 \<Rightarrow> u32 \<Rightarrow> u32" where
  "pick x y = (if x \<noteq> - 1 then x else y)"

lemma pick_in: "x = - 1 \<or> x \<in> S \<Longrightarrow> y \<in> S \<Longrightarrow> pick x y \<in> S"
  by (auto simp: pick_def)

lemma setresgid_ok: "caps_ok (cur_cred t) \<Longrightarrow> call_ok t (snd (sys_setresgid env rg eg sg t))"
proof -
  assume ok: "caps_ok (cur_cred t)"
  let ?c = "cur_cred t"
  obtain b t1 where g: "nsown_capable CAP_SETGID t = (b, t1)" by fastforce
  note 1 = nsown_capableD [OF g cap_valid_setids(2)]
  let ?bad = "\<lambda>x. \<not> b \<and> x \<noteq> - 1 \<and> x \<noteq> gid ?c \<and> x \<noteq> egid ?c \<and> x \<noteq> sgid ?c"
  let ?n = "?c\<lparr>gid := pick rg (gid ?c), egid := pick eg (egid ?c), sgid := pick sg (sgid ?c), fsgid := pick eg (egid ?c)\<rparr>"
  have in_gids: "x = - 1 \<or> x \<in> gids ?c" if "\<not> ?bad x" "\<not> b" for x using that by (auto simp: gids_def)
  have own: "gid ?c \<in> gids ?c" "egid ?c \<in> gids ?c" "sgid ?c \<in> gids ?c" by (simp_all add: gids_def)
  have fin: "call_ok t (snd (commit_creds env ?n t1))" if "\<not> ?bad rg" "\<not> ?bad eg" "\<not> ?bad sg"
    by (rule call_ok_gids [OF 1(1) ok], simp)
       (use 1(2) pick_in [OF in_gids [OF that(1)] own(1)] pick_in [OF in_gids [OF that(2)] own(2)]
          pick_in [OF in_gids [OF that(3)] own(3)] in \<open>simp add: gids_def [of ?n]\<close>)
  have "sys_setresgid env rg eg sg t =
    (if \<not> cred_mem env then (Inl ENOMEM, t) else if ?bad rg \<or> ?bad eg \<or> ?bad sg then (Inl EPERM, t1)
     else commit_creds env ?n t1)"
    unfolding sys_setresgid_def prepare_creds_def Let_def g prod.case
    by (cases "cred_mem env"; cases "rg = - 1"; cases "eg = - 1"; cases "sg = - 1") (simp_all add: pick_def)
  then show ?thesis using fin call_ok_same [OF ok 1(1)] call_ok_same [OF ok same_creds_refl] by (simp split: if_split)
qed

lemma setfsgid_ok: "caps_ok (cur_cred t) \<Longrightarrow> call_ok t (snd (sys_setfsgid env g t))"
proof -
  assume ok: "caps_ok (cur_cred t)"
  let ?c = "cur_cred t"
  obtain b t1 where g: "or_nsown (g = gid ?c \<or> g = egid ?c \<or> g = sgid ?c \<or> g = fsgid ?c) CAP_SETGID t = (b, t1)" by fastforce
  note 1 = or_nsownD [OF g cap_valid_setids(2)]
  show ?thesis
    unfolding sys_setfsgid_def prepare_creds_def Let_def g prod.case
    using call_ok_same [OF ok 1(1)] call_ok_same [OF ok same_creds_refl] 1(2)
    by (auto intro!: call_ok_gids [OF 1(1) ok] simp: gids_def)
qed

lemma set_user_ok:
  assumes "(if p then set_user env new t' else (Inr new, t')) = (r, t2)" and "same_creds t t'"
  shows "same_creds t t2" and "r = Inr n \<Longrightarrow> \<exists>u. n = new\<lparr>user := u\<rparr>"
proof -
  show "same_creds t t2" using assms set_userD(1) [of env new t' r t2] by (auto simp: same_creds_def split: if_splits)
  assume "r = Inr n"
  then show "\<exists>u. n = new\<lparr>user := u\<rparr>"
    using assms(1) set_userD(2) [of env new t' r t2 n] by (auto split: if_splits intro!: exI [of _ "user new"])
qed

lemma setreuid_ok: "caps_ok (cur_cred t) \<Longrightarrow> call_ok t (snd (sys_setreuid env ru eu t))"
proof -
  assume ok: "caps_ok (cur_cred t)"
  let ?c = "cur_cred t"
  let ?n1 = "if ru \<noteq> - 1 then ?c\<lparr>uid := ru\<rparr> else ?c"
  let ?n2 = "if eu \<noteq> - 1 then ?n1\<lparr>euid := eu\<rparr> else ?n1"
  obtain ok1 t1 where g1: "(if ru \<noteq> - 1 then or_nsown (uid ?c = ru \<or> euid ?c = ru) CAP_SETUID t else (True, t)) = (ok1, t1)"
    by fastforce
  obtain ok2 t2 where g2: "(if eu \<noteq> - 1 then or_nsown (uid ?c = eu \<or> euid ?c = eu \<or> suid ?c = eu) CAP_SETUID t1 else (True, t1)) = (ok2, t2)"
    by fastforce
  obtain r t3 where g3: "(if uid ?n2 \<noteq> uid ?c then set_user env ?n2 t2 else (Inr ?n2, t2)) = (r, t3)" by fastforce
  note 1 = guard_ok [OF g1 cap_valid_setids(1) same_creds_refl]
  note 2 = guard_ok [OF g2 cap_valid_setids(1) 1(1)]
  note 3 = set_user_ok [OF g3 2(1)]
  have fin: "call_ok t (snd (fix_and_commit env (n3\<lparr>suid := s, fsuid := euid n3\<rparr>) LSM_SETID_RE t3))"
    if ok12: "ok1" "ok2" and r: "r = Inr n3" and s: "s = euid n3 \<or> s = suid n3" for n3 s
  proof -
    obtain u where u: "n3 = ?n2\<lparr>user := u\<rparr>" using 3(2) [OF r] by blast
    show ?thesis
      using 1(2) [OF ok12(1)] 2(2) [OF ok12(2)] s
      by (intro fix_and_commit_ok [OF 3(1) ok]) (auto simp: u uids_def)
  qed
  have suid: "n\<lparr>suid := suid n, fsuid := x\<rparr> = n\<lparr>fsuid := x\<rparr>" for n :: cred and x by simp
  note fin2 = fin [OF _ _ _ disjI2 [OF refl], unfolded suid]
  show ?thesis
    unfolding sys_setreuid_def prepare_creds_def
    using call_ok_same [OF ok 1(1)] call_ok_same [OF ok 2(1)] call_ok_same [OF ok 3(1)] call_ok_same [OF ok same_creds_refl]
    unfolding Let_def
    by (simp only: g1 g2 g3 prod.case option.case split: if_split option.split sum.split) (auto intro!: fin fin2)
qed

lemma setuid_ok: "caps_ok (cur_cred t) \<Longrightarrow> call_ok t (snd (sys_setuid env u t))"
proof -
  assume ok: "caps_ok (cur_cred t)"
  let ?c = "cur_cred t"
  let ?n1 = "?c\<lparr>suid := u, uid := u\<rparr>"
  obtain b t1 where g1: "nsown_capable CAP_SETUID t = (b, t1)" by fastforce
  obtain r t2 where g2: "(if u \<noteq> uid ?c then set_user env ?n1 t1 else (Inr ?n1, t1)) = (r, t2)" by fastforce
  note 1 = nsown_capableD [OF g1 cap_valid_setids(1)]
  note 2 = set_user_ok [OF g2 1(1)]
  have fin: "call_ok t (snd (fix_and_commit env (n\<lparr>fsuid := u, euid := u\<rparr>) LSM_SETID_ID t2))" if "b" "r = Inr n" for n
    using 2(2) [OF that(2)] that(1) 1(2) by (intro fix_and_commit_ok [OF 2(1) ok]) auto
  have fin': "call_ok t (snd (fix_and_commit env (?c\<lparr>fsuid := u, euid := u\<rparr>) LSM_SETID_ID t1))" if "u = uid ?c \<or> u = suid ?c"
    using that by (intro fix_and_commit_ok [OF 1(1) ok]) (auto simp: uids_def)
  have "sys_setuid env u t =
    (if \<not> cred_mem env then (Inl ENOMEM, t)
     else if b then (case r of Inl e \<Rightarrow> (Inl e, t2) | Inr n \<Rightarrow> fix_and_commit env (n\<lparr>fsuid := u, euid := u\<rparr>) LSM_SETID_ID t2)
     else if u \<noteq> uid ?c \<and> u \<noteq> suid ?c then (Inl EPERM, t1)
     else fix_and_commit env (?c\<lparr>fsuid := u, euid := u\<rparr>) LSM_SETID_ID t1)"
    unfolding sys_setuid_def prepare_creds_def Let_def g1 prod.case
    by (cases "cred_mem env") (simp_all only: option.case if_True if_False g2 prod.case simp_thms)
  then show ?thesis
    using fin fin' call_ok_same [OF ok 1(1)] call_ok_same [OF ok 2(1)] call_ok_same [OF ok same_creds_refl]
    by (auto split: sum.split)
qed

lemma setresuid_ok: "caps_ok (cur_cred t) \<Longrightarrow> call_ok t (snd (sys_setresuid env ru eu su t))"
proof -
  assume ok: "caps_ok (cur_cred t)"
  let ?c = "cur_cred t"
  obtain b t1 where g: "nsown_capable CAP_SETUID t = (b, t1)" by fastforce
  note 1 = nsown_capableD [OF g cap_valid_setids(1)]
  let ?bad = "\<lambda>x. \<not> b \<and> x \<noteq> - 1 \<and> x \<noteq> uid ?c \<and> x \<noteq> euid ?c \<and> x \<noteq> suid ?c"
  let ?n1 = "if ru \<noteq> - 1 then ?c\<lparr>uid := ru\<rparr> else ?c"
  obtain r t2 where g2: "(if ru \<noteq> - 1 \<and> ru \<noteq> uid ?c then set_user env ?n1 t1 else (Inr ?n1, t1)) = (r, t2)" by fastforce
  note 2 = set_user_ok [OF g2 1(1)]
  let ?up = "\<lambda>n. n\<lparr>euid := pick eu (euid n), suid := pick su (suid n), fsuid := pick eu (euid n)\<rparr>"
  have in_uids: "x = - 1 \<or> x \<in> uids ?c" if "\<not> ?bad x" "\<not> b" for x using that by (auto simp: uids_def)
  have own: "uid ?c \<in> uids ?c" "euid ?c \<in> uids ?c" "suid ?c \<in> uids ?c" by (simp_all add: uids_def)
  have fin: "call_ok t (snd (fix_and_commit env (?up n) LSM_SETID_RES t2))"
    if ok3: "\<not> ?bad ru" "\<not> ?bad eu" "\<not> ?bad su" and r: "r = Inr n" for n
  proof -
    obtain x where "n = ?n1\<lparr>user := x\<rparr>" using 2(2) [OF r] by blast
    then have n: "n = ?c\<lparr>uid := pick ru (uid ?c), user := x\<rparr>" by (simp add: pick_def)
    have "uids (?up n) = {pick ru (uid ?c), pick eu (euid ?c), pick su (suid ?c)}" by (auto simp: uids_def n)
    then have sub: "uids (?up n) \<subseteq> uids ?c" if "\<not> b"
      using that pick_in [OF in_uids [OF ok3(1)] own(1)] pick_in [OF in_uids [OF ok3(2)] own(2)]
        pick_in [OF in_uids [OF ok3(3)] own(3)] by simp
    show ?thesis by (rule fix_and_commit_ok [OF 2(1) ok], simp add: n) (use 1(2) sub in simp)
  qed
  have "sys_setresuid env ru eu su t =
    (if \<not> cred_mem env then (Inl ENOMEM, t) else if ?bad ru \<or> ?bad eu \<or> ?bad su then (Inl EPERM, t1)
     else case r of Inl e \<Rightarrow> (Inl e, t2) | Inr n \<Rightarrow> fix_and_commit env (?up n) LSM_SETID_RES t2)"
  proof (cases "cred_mem env")
    case True
    then have "prepare_creds env t = Some ?c" by (simp add: prepare_creds_def)
    then show ?thesis
      unfolding sys_setresuid_def Let_def g prod.case
      by (simp only: option.case g2 prod.case) (use True in \<open>cases r; cases "eu = - 1"; cases "su = - 1"; simp add: pick_def\<close>)
  qed (simp add: sys_setresuid_def prepare_creds_def)
  then show ?thesis
    using fin call_ok_same [OF ok 1(1)] call_ok_same [OF ok 2(1)] call_ok_same [OF ok same_creds_refl]
    by (simp split: if_split sum.split)
qed

lemma setfsuid_ok: "caps_ok (cur_cred t) \<Longrightarrow> call_ok t (snd (sys_setfsuid env u t))"
proof -
  assume ok: "caps_ok (cur_cred t)"
  let ?c = "cur_cred t"
  let ?own = "u = uid ?c \<or> u = euid ?c \<or> u = suid ?c \<or> u = fsuid ?c"
  obtain b t1 where g: "or_nsown ?own CAP_SETUID t = (b, t1)" by fastforce
  note 1 = or_nsownD [OF g cap_valid_setids(1)]
  have same: "cur_cred t1 = ?c" using 1(1) by (simp add: same_creds_def)
  have fin: "call_ok t (snd (fix_and_commit env (?c\<lparr>fsuid := u\<rparr>) LSM_SETID_FS t1))" if "b"
    using that 1(2) by (intro fix_and_commit_ok [OF 1(1) ok]) (auto simp: uids_def)
  have "snd (sys_setfsuid env u t) =
    (if \<not> cred_mem env then t else if b \<and> u \<noteq> fsuid ?c then snd (fix_and_commit env (?c\<lparr>fsuid := u\<rparr>) LSM_SETID_FS t1) else t1)"
    by (auto simp: sys_setfsuid_def prepare_creds_def g fix_and_commit_def same Let_def split: sum.split)
  then show ?thesis using fin call_ok_same [OF ok 1(1)] call_ok_same [OF ok same_creds_refl] by (simp split: if_split)
qed

subsection \<open>Setting capabilities and secure bits\<close>

lemma capset_ok: "caps_ok (cur_cred t) \<Longrightarrow> call_ok t (snd (sys_capset env header d t))"
proof -
  assume ok: "caps_ok (cur_cred t)"
  have "call_ok t (snd (commit_creds env new t))" if "cap_capset (cur_cred t) (cur_cred t) E I P t = Inr new" for E I P new
    using that
    by (auto simp: cap_capset_def call_ok_def no_gain_def bounds_kept_def groups_sorted_def caps_ok_def uids_def gids_def split: if_splits)
  then show ?thesis
    using call_ok_same [OF ok same_creds_refl]
    by (auto simp: sys_capset_def prepare_creds_def Let_def split: sum.split option.split)
qed

lemma cap_lower_subset: "cap_valid x \<Longrightarrow> cap_issubset (cap_lower c x) c"
  using cap_set_lower [of x c] by (auto simp: cap_issubset_iff cap_valid_def)

lemma bit_issecure_mask: "k < 32 \<Longrightarrow> bit (issecure_mask k) n \<longleftrightarrow> n = k"
  by (auto simp: issecure_mask_def bit_exp_iff)

lemma lock_bits: "bit SECURE_ALL_LOCKS (1 + n) \<longleftrightarrow> n = 0 \<or> n = 2 \<or> n = 4"
  unfolding SECURE_ALL_LOCKS_def bit_push_bit_iff SECURE_ALL_BITS_def bit_or_iff by (auto simp: bit_issecure_mask)

lemma set_securebits_keeps_locks:
  assumes "drop_bit 1 (sb AND SECURE_ALL_LOCKS) AND (sb XOR arg) = 0" and "sb AND SECURE_ALL_LOCKS AND NOT arg = 0"
  shows "locks_kept sb arg"
proof -
  have "bit sb (1 + n) \<longrightarrow> bit arg (1 + n) \<and> (bit arg n \<longleftrightarrow> bit sb n)" if "n = 0 \<or> n = 2 \<or> n = 4" for n
  proof -
    have "\<not> bit (drop_bit 1 (sb AND SECURE_ALL_LOCKS) AND (sb XOR arg)) n" "\<not> bit (sb AND SECURE_ALL_LOCKS AND NOT arg) (1 + n)"
      using assms by simp_all
    moreover have "1 + n < 32" using that by auto
    ultimately show ?thesis
      using that lock_bits [of n] by (auto simp: bit_and_iff bit_xor_iff bit_not_iff bit_drop_bit_eq)
  qed
  from this [of 0] this [of 2] this [of 4] show ?thesis by (simp add: locks_kept_def numeral_3_eq_3)
qed

lemma issecure_bit: "x < 32 \<Longrightarrow> issecure x t \<longleftrightarrow> bit (securebits (cur_cred t)) x"
  using and_exp_eq_0_iff_not_bit [of "securebits (cur_cred t)" x]
  by (simp add: issecure_def issecure_mask_def push_bit_eq_mult and.commute)

lemma no_gain_securebits:
  "caps_ok c \<Longrightarrow> locks_kept (securebits c) sb \<Longrightarrow> no_gain c (c\<lparr>securebits := sb\<rparr>)"
  by (simp add: no_gain_def bounds_kept_def groups_sorted_def caps_ok_def uids_def gids_def)

lemma keepcaps_locks:
  assumes "\<not> bit sb 5"
  shows "locks_kept sb (sb OR issecure_mask SECURE_KEEP_CAPS)" and "locks_kept sb (sb AND NOT (issecure_mask SECURE_KEEP_CAPS))"
  using assms by (auto simp: locks_kept_def bit_issecure_mask bit_or_iff bit_and_iff bit_not_iff)

lemma prctl_ok: "caps_ok (cur_cred t) \<Longrightarrow> call_ok t (snd (cap_task_prctl env opt arg t))"
proof -
  assume ok: "caps_ok (cur_cred t)"
  note same = call_ok_same [OF ok same_creds_refl]
  have commit: "call_ok t (snd (commit_value (commit_creds env ((cur_cred t)\<lparr>securebits := sb\<rparr>) t)))"
    if "locks_kept (securebits (cur_cred t)) sb" for sb
    using no_gain_securebits [OF ok that] by (simp add: call_ok_def commit_value_def)
  obtain b t1 where g: "capable CAP_SETPCAP t = (b, t1)" by fastforce
  note 1 = capableD(1) [OF g cap_valid_setids(3)]
  have bset: "call_ok t (snd (commit_value (commit_creds env ((cur_cred t)\<lparr>cap_bset := cap_lower (cap_bset (cur_cred t)) (unat arg)\<rparr>) t1)))"
    if "cap_valid (unat arg)"
    using cap_lower_subset [OF that] ok 1
    by (simp add: call_ok_def commit_value_def no_gain_def bounds_kept_def groups_sorted_def caps_ok_def uids_def gids_def same_creds_def)
  show ?thesis
    using same commit bset call_ok_same [OF ok 1] issecure_bit [of 5 t] keepcaps_locks [of "securebits (cur_cred t)"]
      set_securebits_keeps_locks [of "securebits (cur_cred t)" arg]
    by (cases opt) (simp_all add: cap_task_prctl_def cap_prctl_drop_def prepare_creds_def g)
qed

lemma non_exec_call_ok:
  assumes "caps_ok (cur_cred t)" and "\<not> is_execve c"
  shows "call_ok t (do_call env c t)"
  using assms setuid_ok setreuid_ok setresuid_ok setfsuid_ok setgid_ok setregid_ok setresgid_ok setfsgid_ok
    setgroups_ok capset_ok prctl_ok
  by (cases c) auto

lemma run_calls_no_gain:
  assumes "caps_ok (cur_cred t)" and "\<forall>(env, c) \<in> set calls. \<not> is_execve c"
  shows "call_ok t (run_calls calls t)"
  using assms
proof (induction calls arbitrary: t)
  case Nil
  then show ?case by (simp add: call_ok_def no_gain_refl)
next
  case (Cons ec calls)
  obtain env c where ec: "ec = (env, c)" by fastforce
  have step: "call_ok t (do_call env c t)" using Cons.prems by (intro non_exec_call_ok) (auto simp: ec)
  then have "caps_ok (cur_cred (do_call env c t))" by (simp add: call_ok_def no_gain_def bounds_kept_def groups_sorted_def)
  from Cons.IH [OF this] Cons.prems(2) have "call_ok (do_call env c t) (run_calls calls (do_call env c t))" by auto
  with step show ?case by (auto simp: call_ok_def ec intro: no_gain_trans)
qed

section \<open>Running programs\<close>

text \<open>The formula of the comment in the code, \<open>pP' = (X & fP) | (pI & fI)\<close>, on sets.\<close>

definition file_permitted :: "cred \<Rightarrow> cpu_vfs_cap_data \<Rightarrow> kernel_cap_t" where
  "file_permitted c v =
     cap_combine (cap_intersect (cap_bset c) (vfs_permitted v)) (cap_intersect (cap_inheritable c) (vfs_inheritable v))"

lemma bprm_caps_eq:
  "bprm_caps_from_vfs_caps v bprm eff =
     (let eff' = eff \<or> bit (magic_etc v) 0; P = file_permitted (bprm_cred bprm) v
      in (if eff' \<and> \<not> cap_issubset (vfs_permitted v) P then Inl EPERM else Ok,
          bprm\<lparr>bprm_cred := (bprm_cred bprm)\<lparr>cap_permitted := P\<rparr>\<rparr>, eff'))"
proof -
  have "(magic_etc v AND 1 \<noteq> 0) = bit (magic_etc v) 0"
    by (simp add: and_one_eq bit_0 odd_iff_mod_2_eq_one)
  then show ?thesis
    by (auto simp: bprm_caps_from_vfs_caps_def file_permitted_def new_permitted_word_def cap_combine_def cap_intersect_def
        cap_issubset_def cap_drop_def cap_isclear_def Let_def)
qed

lemma file_permitted_bounded: "cap_issubset (file_permitted c v) (cap_combine (cap_bset c) (cap_inheritable c))"
  by (auto simp: file_permitted_def cap_issubset_iff cap_set_ops)

definition with_permitted :: "linux_binprm \<Rightarrow> kernel_cap_t \<Rightarrow> linux_binprm" where
  "with_permitted bprm P =
     bprm\<lparr>bprm_cred := (bprm_cred bprm)\<lparr>cap_permitted := P\<rparr>, bprm_cap_effective := False\<rparr>"

lemma get_file_caps_eq:
  "get_file_caps env f bprm eff =
     (if \<not> file_caps_enabled env \<or> MNT_NOSUID f then (Ok, with_permitted bprm CAP_EMPTY_SET, eff)
      else case get_vfs_caps_from_disk f of
        Inl rc \<Rightarrow> (if rc = ENODATA then Ok else Inl rc, with_permitted bprm CAP_EMPTY_SET, eff)
      | Inr v \<Rightarrow>
         (let eff' = eff \<or> bit (magic_etc v) 0; P = file_permitted (bprm_cred bprm) v
          in if eff' \<and> \<not> cap_issubset (vfs_permitted v) P
             then (Inl EPERM, with_permitted bprm CAP_EMPTY_SET, eff') else (Ok, with_permitted bprm P, eff')))"
proof -
  have "file_permitted (bprm_cred (with_permitted bprm CAP_EMPTY_SET)) v = file_permitted (bprm_cred bprm) v" for v
    by (simp add: with_permitted_def file_permitted_def)
  moreover have clear: "bprm_clear_caps b = with_permitted b CAP_EMPTY_SET" for b
    by (simp add: with_permitted_def bprm_clear_caps_def)
  ultimately show ?thesis
    unfolding get_file_caps_def clear bprm_caps_eq Let_def
    by (auto simp: with_permitted_def split: sum.split)
qed

lemma get_file_caps_bounded:
  assumes "get_file_caps env f bprm eff = (r, bprm', eff')"
  shows "\<exists>P. bprm' = with_permitted bprm P \<and>
    cap_issubset P (cap_combine (cap_bset (bprm_cred bprm)) (cap_inheritable (bprm_cred bprm)))"
proof -
  have "bprm' = with_permitted bprm CAP_EMPTY_SET \<or> (\<exists>v. bprm' = with_permitted bprm (file_permitted (bprm_cred bprm) v))"
    using assms by (auto simp: get_file_caps_eq Let_def split: if_splits sum.splits)
  then show ?thesis using file_permitted_bounded kc.issubset_empty by blast
qed

text \<open>What a chain of files keeps of the fresh credentials, and what the last of them leaves.\<close>

definition exec_base :: "cred \<Rightarrow> u32 \<Rightarrow> linux_binprm \<Rightarrow> bool" where
  "exec_base old unsf bprm \<longleftrightarrow>
     unsafe_bits bprm = unsf \<and> cap_bset (bprm_cred bprm) = cap_bset old \<and>
     cap_inheritable (bprm_cred bprm) = cap_inheritable old \<and> uid (bprm_cred bprm) = uid old \<and>
     gid (bprm_cred bprm) = gid old \<and> cred_groups (bprm_cred bprm) = cred_groups old \<and>
     (securebits (bprm_cred bprm) = securebits old \<or>
      securebits (bprm_cred bprm) = securebits old AND NOT (issecure_mask SECURE_KEEP_CAPS))"

definition exec_bounded :: "cred \<Rightarrow> u32 \<Rightarrow> cred \<Rightarrow> bool" where
  "exec_bounded old unsf new \<longleftrightarrow>
     cap_issubset (cap_permitted new) (cap_combine (cap_bset old) (cap_inheritable old)) \<and>
     (cap_effective new = cap_permitted new \<or> cap_effective new = CAP_EMPTY_SET) \<and>
     cap_bset new = cap_bset old \<and> cap_inheritable new = cap_inheritable old \<and> uid new = uid old \<and> gid new = gid old \<and>
     cred_groups new = cred_groups old \<and> suid new = euid new \<and> fsuid new = euid new \<and> sgid new = egid new \<and> fsgid new = egid new \<and>
     \<not> bit (securebits new) SECURE_KEEP_CAPS \<and> locks_kept (securebits old) (securebits new) \<and>
     (unsf AND NOT LSM_UNSAFE_PTRACE_CAP \<noteq> 0 \<longrightarrow>
        cap_issubset (cap_permitted new) (cap_permitted old) \<and>
        (\<not> cap_raised (cap_effective old) CAP_SETUID \<longrightarrow> euid new = uid old \<and> egid new = gid old))"

lemma root_caps_bounded:
  assumes "root_caps new old eff t = (n, eff')" and "cap_issubset (cap_permitted new) (cap_combine (cap_bset old) (cap_inheritable old))"
  shows "\<exists>P. n = new\<lparr>cap_permitted := P\<rparr> \<and> cap_issubset P (cap_combine (cap_bset old) (cap_inheritable old))"
proof -
  have "n = new \<or> n = new\<lparr>cap_permitted := cap_combine (cap_bset old) (cap_inheritable old)\<rparr>"
    using assms(1) by (auto simp: root_caps_def Let_def split: if_splits)
  then show ?thesis
    using assms(2) by (auto intro: exI [of _ "cap_permitted new"])
qed

lemma downgrade_bounded:
  assumes "downgrade new (cur_cred t) unsf t = (n, t')" and "uid new = uid (cur_cred t)" and "gid new = gid (cur_cred t)"
  shows "same_creds t t'" and "\<exists>e g P. n = new\<lparr>euid := e, egid := g, cap_permitted := P\<rparr> \<and> cap_issubset P (cap_permitted new) \<and>
    (unsf AND NOT LSM_UNSAFE_PTRACE_CAP \<noteq> 0 \<longrightarrow> cap_issubset P (cap_permitted (cur_cred t)) \<and>
      (\<not> cap_raised (cap_effective (cur_cred t)) CAP_SETUID \<longrightarrow> e = uid (cur_cred t) \<and> g = gid (cur_cred t)))"
proof -
  obtain b t1 where g: "capable CAP_SETUID t = (b, t1)" by fastforce
  note 1 = capableD [OF g cap_valid_setids(1)]
  show "same_creds t t'" using assms(1) 1(1) by (auto simp: downgrade_def g Let_def split: if_splits)
  let ?P = "cap_intersect (cap_permitted new) (cap_permitted (cur_cred t))"
  consider "n = new" "unsf AND NOT 4 \<noteq> 0 \<Longrightarrow> euid new = uid (cur_cred t) \<and> egid new = gid (cur_cred t) \<and> cap_issubset (cap_permitted new) (cap_permitted (cur_cred t))"
    | "n = new\<lparr>cap_permitted := ?P\<rparr>" "b" | "n = new\<lparr>euid := uid new, egid := gid new, cap_permitted := ?P\<rparr>"
    using assms(1) by (auto simp: downgrade_def g Let_def split: if_splits)
  then show "\<exists>e g P. n = new\<lparr>euid := e, egid := g, cap_permitted := P\<rparr> \<and> cap_issubset P (cap_permitted new) \<and>
    (unsf AND NOT LSM_UNSAFE_PTRACE_CAP \<noteq> 0 \<longrightarrow> cap_issubset P (cap_permitted (cur_cred t)) \<and>
      (\<not> cap_raised (cap_effective (cur_cred t)) CAP_SETUID \<longrightarrow> e = uid (cur_cred t) \<and> g = gid (cur_cred t)))"
  proof cases
    case 1
    then show ?thesis by (intro exI [of _ "euid new"] exI [of _ "egid new"] exI [of _ "cap_permitted new"]) simp
  next
    case 2
    then show ?thesis
      using 1(2) by (intro exI [of _ "euid new"] exI [of _ "egid new"] exI [of _ ?P]) simp
  next
    case 3
    then show ?thesis using assms(2,3) by (intro exI [of _ "uid new"] exI [of _ "gid new"] exI [of _ ?P]) simp
  qed
qed

lemma keep_cleared:
  "sb' = sb \<or> sb' = sb AND NOT (issecure_mask SECURE_KEEP_CAPS) \<Longrightarrow>
     sb' AND NOT (issecure_mask SECURE_KEEP_CAPS) = sb AND NOT (issecure_mask SECURE_KEEP_CAPS)"
  "locks_kept sb (sb AND NOT (issecure_mask SECURE_KEEP_CAPS))" "\<not> bit (sb AND NOT (issecure_mask SECURE_KEEP_CAPS)) SECURE_KEEP_CAPS"
  by (auto simp: locks_kept_def bit_issecure_mask bit_and_iff bit_not_iff and.assoc)

lemma bprm_set_creds_bounded:
  assumes base: "exec_base (cur_cred t) unsf bprm" and run: "cap_bprm_set_creds env f bprm t = (Ok, bprm', t')"
  shows "same_creds t t' \<and> exec_base (cur_cred t) unsf bprm' \<and> exec_bounded (cur_cred t) unsf (bprm_cred bprm')"
proof -
  let ?old = "cur_cred t"
  obtain r b1 eff1 where g: "get_file_caps env f bprm False = (r, b1, eff1)" by (metis prod_cases3)
  obtain P where P: "b1 = with_permitted bprm P" "cap_issubset P (cap_combine (cap_bset ?old) (cap_inheritable ?old))"
    using get_file_caps_bounded [OF g] base by (auto simp: exec_base_def)
  obtain n1 eff where rc: "root_caps (bprm_cred b1) ?old eff1 t = (n1, eff)" by fastforce
  obtain Q where Q: "n1 = (bprm_cred b1)\<lparr>cap_permitted := Q\<rparr>" "cap_issubset Q (cap_combine (cap_bset ?old) (cap_inheritable ?old))"
    using root_caps_bounded [OF rc] P by (auto simp: with_permitted_def)
  obtain n2 t1 where d: "downgrade n1 ?old (unsafe_bits b1) t = (n2, t1)" by fastforce
  have ids: "uid n1 = uid ?old" "gid n1 = gid ?old" "unsafe_bits b1 = unsf"
    using base by (simp_all add: Q(1) P(1) with_permitted_def exec_base_def)
  obtain e gg R where R: "n2 = n1\<lparr>euid := e, egid := gg, cap_permitted := R\<rparr>" "cap_issubset R Q"
    "unsf AND NOT 4 \<noteq> 0 \<longrightarrow> cap_issubset R (cap_permitted ?old) \<and>
      (\<not> cap_raised (cap_effective ?old) CAP_SETUID \<longrightarrow> e = uid ?old \<and> gg = gid ?old)"
    using downgrade_bounded(2) [OF d ids(1,2)] ids(3) Q(1) by auto
  note same = downgrade_bounded(1) [OF d ids(1,2)]
  let ?sb = "securebits n2 AND NOT (issecure_mask SECURE_KEEP_CAPS)"
  let ?n = "n2\<lparr>suid := e, fsuid := e, sgid := gg, fsgid := gg, cap_effective := if eff then R else CAP_EMPTY_SET, securebits := ?sb\<rparr>"
  have "r = Ok" "t' = t1" and b': "bprm' = b1\<lparr>bprm_cred := ?n, bprm_cap_effective := eff\<rparr>"
    using run by (auto simp: cap_bprm_set_creds_def g rc d Let_def R(1) split: if_splits)
  have sb: "securebits (bprm_cred bprm) AND NOT (issecure_mask SECURE_KEEP_CAPS) =
      securebits ?old AND NOT (issecure_mask SECURE_KEEP_CAPS)"
    using base by (intro keep_cleared(1)) (simp add: exec_base_def)
  have n2: "securebits n2 = securebits (bprm_cred bprm)" by (simp add: R(1) Q(1) P(1) with_permitted_def)
  have "exec_base ?old unsf bprm'"
    unfolding b' n2 sb using base by (simp add: exec_base_def R(1) Q(1) P(1) with_permitted_def)
  moreover have "exec_bounded ?old unsf ?n"
    unfolding exec_bounded_def n2 sb using base R(2,3) keep_cleared(2,3) kc.issubset_trans [OF R(2) Q(2)]
    by (simp add: exec_base_def R(1) Q(1) P(1) with_permitted_def)
  ultimately show ?thesis using same \<open>t' = t1\<close> by (simp add: b')
qed

lemma bprm_set_creds_same: "cap_bprm_set_creds env f bprm t = (r, bprm', t') \<Longrightarrow> same_creds t t'"
proof -
  obtain b t1 where g: "capable CAP_SETUID t = (b, t1)" by fastforce
  have "same_creds t (snd (downgrade n old unsf t))" for n old unsf
    using capableD(1) [OF g cap_valid_setids(1)] by (simp add: downgrade_def g Let_def)
  then have "downgrade n old unsf t = (n', t2) \<Longrightarrow> same_creds t t2" for n old unsf n' t2
    by (metis snd_conv)
  then show "cap_bprm_set_creds env f bprm t = (r, bprm', t') \<Longrightarrow> same_creds t t'"
    by (auto simp: cap_bprm_set_creds_def Let_def split: prod.splits if_splits)
qed

lemma prepare_binprm_shape:
  "\<exists>n p. (\<exists>e g. n = (bprm_cred bprm)\<lparr>euid := e, egid := g\<rparr>) \<and> prepare_binprm env f bprm t =
    (if \<not> has_f_op f then (Inl EACCES, bprm, t)
     else let (ret, bprm2, t') = cap_bprm_set_creds env f (bprm\<lparr>bprm_cred := n, per_clear := p\<rparr>) t
          in case ret of Inl e \<Rightarrow> (Inl e, bprm2, t') | Inr _ \<Rightarrow> (kernel_read f, bprm2\<lparr>cred_prepared := True\<rparr>, t'))"
proof -
  let ?u = "\<not> MNT_NOSUID f \<and> i_mode f AND S_ISUID \<noteq> 0" and ?g = "\<not> MNT_NOSUID f \<and> i_mode f AND S_ISGID_IXGRP = S_ISGID_IXGRP"
  let ?n0 = "(bprm_cred bprm)\<lparr>euid := euid (cur_cred t), egid := egid (cur_cred t)\<rparr>"
  let ?n1 = "if ?u then ?n0\<lparr>euid := i_uid f\<rparr> else ?n0"
  let ?n2 = "if ?g then ?n1\<lparr>egid := i_gid f\<rparr> else ?n1"
  have "?n2 = (bprm_cred bprm)\<lparr>euid := if ?u then i_uid f else euid (cur_cred t), egid := if ?g then i_gid f else egid (cur_cred t)\<rparr>"
    by simp
  then have "\<exists>e g. ?n2 = (bprm_cred bprm)\<lparr>euid := e, egid := g\<rparr>" by blast
  then show ?thesis
    unfolding prepare_binprm_def Let_def
    by (intro exI [of _ ?n2] exI [of _ "per_clear bprm \<or> ?u \<or> ?g"] conjI refl)
qed

lemma prepare_binprm_bounded:
  assumes base: "exec_base (cur_cred t) unsf bprm" and run: "prepare_binprm env f bprm t = (r, bprm', t')"
  shows "same_creds t t'" and "r = Inr m \<Longrightarrow> exec_base (cur_cred t) unsf bprm' \<and> exec_bounded (cur_cred t) unsf (bprm_cred bprm')"
proof -
  have set: "exec_base (cur_cred t) unsf (bprm\<lparr>bprm_cred := (bprm_cred bprm)\<lparr>euid := e, egid := g\<rparr>, per_clear := p\<rparr>)" for e g p
    using base by (simp add: exec_base_def)
  obtain n p e g where n: "n = (bprm_cred bprm)\<lparr>euid := e, egid := g\<rparr>" and run': "prepare_binprm env f bprm t =
    (if \<not> has_f_op f then (Inl EACCES, bprm, t)
     else let (ret, bprm2, t') = cap_bprm_set_creds env f (bprm\<lparr>bprm_cred := n, per_clear := p\<rparr>) t
          in case ret of Inl e \<Rightarrow> (Inl e, bprm2, t') | Inr _ \<Rightarrow> (kernel_read f, bprm2\<lparr>cred_prepared := True\<rparr>, t'))"
    using prepare_binprm_shape [of bprm env f t] by (elim exE conjE) (rule that)
  have prepared: "exec_base c u (b\<lparr>cred_prepared := True\<rparr>) = exec_base c u b" for c u b
    by (simp add: exec_base_def)
  show "same_creds t t'"
    using run run' by (auto simp: Let_def split: if_splits prod.splits sum.splits dest: bprm_set_creds_same)
  assume "r = Inr m"
  then show "exec_base (cur_cred t) unsf bprm' \<and> exec_bounded (cur_cred t) unsf (bprm_cred bprm')"
    using run run' bprm_set_creds_bounded [OF set [where e = e and g = g and p = p, folded n]] by (auto simp: Let_def prepared split: if_splits prod.splits sum.splits)
qed

lemma exec_chain_bounded:
  assumes "exec_base (cur_cred t) unsf bprm" and "exec_chain env fs bprm t = (r, bprm', t')"
  shows "same_creds t t' \<and> (r = Inr n \<longrightarrow> fs \<noteq> [] \<or> exec_bounded (cur_cred t) unsf (bprm_cred bprm) \<longrightarrow>
    exec_bounded (cur_cred t) unsf (bprm_cred bprm'))"
  using assms
proof (induction fs arbitrary: bprm t)
  case (Cons f fs)
  obtain r1 b1 t1 where p: "prepare_binprm env f bprm t = (r1, b1, t1)" by (metis prod_cases3)
  note 1 = prepare_binprm_bounded [OF Cons.prems(1) p]
  have cur: "cur_cred t1 = cur_cred t" using 1(1) by (simp add: same_creds_def)
  show ?case
  proof (cases r1)
    case (Inl e)
    then show ?thesis using Cons.prems(2) p 1(1) by auto
  next
    case (Inr m)
    then have "exec_chain env fs b1 t1 = (r, bprm', t')" using Cons.prems(2) p by simp
    from Cons.IH [OF _ this] 1(2) [OF Inr] 1(1) show ?thesis unfolding cur by (auto simp: same_creds_def)
  qed
qed simp

lemma execve_bounded:
  assumes "do_execve_creds env unsf f fs loads t = (r, t')"
  shows "bug_hit t' = bug_hit t" and "r = Ok \<Longrightarrow> exec_bounded (cur_cred t) unsf (cur_cred t')"
    and "r \<noteq> Ok \<Longrightarrow> cur_cred t' = cur_cred t"
proof -
  let ?t1 = "t\<lparr>PF_NPROC_EXCEEDED := False\<rparr>"
  let ?b = "\<lparr>bprm_cred = cur_cred t, bprm_cap_effective = False, unsafe_bits = unsf, per_clear = False, cred_prepared = False\<rparr>"
  obtain r1 b1 t2 where c: "exec_chain env (f # fs) ?b ?t1 = (r1, b1, t2)" by (metis prod_cases3)
  have base: "exec_base (cur_cred ?t1) unsf ?b" by (simp add: exec_base_def)
  have 1: "same_creds t t2" and 2: "r1 = Inr n \<Longrightarrow> exec_bounded (cur_cred t) unsf (bprm_cred b1)" for n
    using exec_chain_bounded [OF base c] by (auto simp: same_creds_def)
  have run: "do_execve_creds env unsf f fs loads t =
    (if PF_NPROC_EXCEEDED t \<and> processes t (user (cur_cred t)) > rlimit_nproc env then (Inl EAGAIN, t)
     else if \<not> cred_mem env then (Inl ENOMEM, ?t1)
     else case r1 of Inl e \<Rightarrow> (Inl e, t2)
          | Inr n \<Rightarrow> (case loads of Inl e \<Rightarrow> (Inl e, t2) | Inr _ \<Rightarrow> commit_creds env (bprm_cred b1) t2))"
    unfolding do_execve_creds_def Let_def install_exec_creds_def prepare_creds_def
    by (simp del: exec_chain.simps add: c split: sum.split)
  show "bug_hit t' = bug_hit t" "r \<noteq> Ok \<Longrightarrow> cur_cred t' = cur_cred t"
    using assms 1 unfolding run by (auto simp: same_creds_def split: if_splits sum.splits dest: commit_credsD)
  show "r = Ok \<Longrightarrow> exec_bounded (cur_cred t) unsf (cur_cred t')"
    using assms 2 unfolding run by (auto split: if_splits sum.splits dest: commit_credsD)
qed

lemma call_bounds:
  assumes "caps_ok (cur_cred t)"
  shows "bounds_kept (cur_cred t) (cur_cred (do_call env c t)) \<and> bug_hit (do_call env c t) = bug_hit t"
proof (cases "is_execve c")
  case False
  then show ?thesis using non_exec_call_ok [OF assms, of c env] by (simp add: call_ok_def no_gain_def)
next
  case True
  then obtain unsf f fs loads where c: "c = Execve unsf f fs loads" by (cases c) auto
  obtain r t' where run: "do_execve_creds env unsf f fs loads t = (r, t')" by fastforce
  note ex = execve_bounded [OF run]
  show ?thesis
  proof (cases "r = Ok")
    case True
    then show ?thesis using ex(1) ex(2) run by (auto simp: c bounds_kept_def groups_sorted_def exec_bounded_def caps_ok_def)
  next
    case False
    then show ?thesis using ex(1) ex(3) run assms by (simp add: c bounds_kept_def caps_ok_def)
  qed
qed

section \<open>Properties\<close>

text \<open>Two tasks of the initial namespace: root with all capabilities, and a user without any.\<close>

definition demo_cred :: "u32 \<Rightarrow> kernel_cap_t \<Rightarrow> cred" where
  "demo_cred u c = \<lparr>uid = u, gid = u, suid = u, sgid = u, euid = u, egid = u, fsuid = u, fsgid = u, securebits = 0,
     cap_inheritable = CAP_EMPTY_SET, cap_permitted = c, cap_effective = c, cap_bset = CAP_FULL_SET,
     user = User (unat u) Init_user_ns, cred_groups = None\<rparr>"

definition demo_task :: "u32 \<Rightarrow> kernel_cap_t \<Rightarrow> task_struct" where
  "demo_task u c = \<lparr>cur_cred = demo_cred u c, task_pid = 42, PF_SUPERPRIV = False, PF_NPROC_EXCEEDED = False,
     has_mm = True, MMF_DUMPABLE = True, MMF_DUMP_SECURELY = False, pdeath_signal = 0, processes = (\<lambda>_. 1), bug_hit = False\<rparr>"

definition demo_env :: kernel_env where
  "demo_env = \<lparr>cred_mem = True, alloc_uid = (\<lambda>ns u. Some (User (unat u) ns)), rlimit_nproc = 100, suid_dumpable = 0,
     find_task = (\<lambda>_. None), audit_fcaps = Ok, file_caps_enabled = True, dac_mmap_min_addr = 4096,
     vm_enough_memory = (\<lambda>_ _. Ok)\<rparr>"

definition demo_mem :: group_mem where
  "demo_mem = \<lparr>kmalloc_info = Some (replicate 32 0), get_free_page = (\<lambda>_. Some (replicate 1024 0))\<rparr>"

definition demo_ledger :: group_ledger where
  "demo_ledger = \<lparr>held_infos = 0, held_pages = 0\<rparr>"

lemma demo_caps_ok: "caps_ok (cur_cred (demo_task u c))"
  by (simp add: demo_task_def demo_cred_def caps_ok_def)

lemma demo_facts:
  "\<not> bug_hit (demo_task u c)" "uids (cur_cred (demo_task u c)) = {u}" "cap_permitted (cur_cred (demo_task u c)) = c"
  by (simp_all add: demo_task_def demo_cred_def uids_def)

text \<open>
  C13: Invariant of the credentials.  Whatever sequence of set-id calls, \<^verbatim>\<open>setgroups\<close>, capability calls, \<^verbatim>\<open>prctl\<close>
  operations and executions a task performs, its effective capabilities stay within its permitted ones,
  its bounding set only shrinks, lock bits are never taken back, locked bits keep their values (the
  keep-caps bit may be cleared), the \<^verbatim>\<open>BUG()\<close> for an unknown capability is never reached, and the supplementary
  groups stay sorted, so that the binary search of \<^verbatim>\<open>in_group_p\<close> finds exactly the groups of the list.
\<close>

theorem cred_invariant:
  assumes "caps_ok (cur_cred t)" and "\<not> bug_hit t"
  shows "caps_ok (cur_cred (run_calls calls t)) \<and> \<not> bug_hit (run_calls calls t) \<and>
    cap_set (cap_bset (cur_cred (run_calls calls t))) \<subseteq> cap_set (cap_bset (cur_cred t)) \<and>
    locks_kept (securebits (cur_cred t)) (securebits (cur_cred (run_calls calls t))) \<and>
    (groups_sorted (cur_cred t) \<longrightarrow>
       (in_group_p (cur_cred (run_calls calls t)) g \<longleftrightarrow>
        g = fsgid (cur_cred (run_calls calls t)) \<or> g \<in> group_set (cur_cred (run_calls calls t))))"
proof -
  have "bounds_kept (cur_cred t) (cur_cred (run_calls calls t)) \<and> bug_hit (run_calls calls t) = bug_hit t"
    using assms(1)
  proof (induction calls arbitrary: t)
    case Nil
    then show ?case by (simp add: bounds_kept_def)
  next
    case (Cons ec calls)
    obtain env c where ec: "ec = (env, c)" by fastforce
    note step = call_bounds [OF Cons.prems, of env c]
    then have "caps_ok (cur_cred (do_call env c t))" by (simp add: bounds_kept_def)
    from Cons.IH [OF this] step show ?case by (auto simp: ec intro: bounds_kept_trans)
  qed
  with assms(2) show ?thesis by (auto simp: bounds_kept_def cap_issubset_iff fs.member_iff)
qed

theorem cred_invariant_witness:
  "caps_ok (cur_cred (demo_task 0 CAP_FULL_SET)) \<and>
   (let t = run_calls [(demo_env, Prctl PR_CAPBSET_DROP 21), (demo_env, Setgroups demo_mem 2 [50, 20] demo_ledger), (demo_env, Setuid 1000)]
              (demo_task 0 CAP_FULL_SET)
    in caps_ok (cur_cred t) \<and> (in_group_p (cur_cred t) 50 \<longleftrightarrow> 50 = fsgid (cur_cred t) \<or> 50 \<in> group_set (cur_cred t)))"
proof -
  have "groups_sorted (cur_cred (demo_task 0 CAP_FULL_SET))"
    by (simp add: demo_task_def demo_cred_def groups_sorted_def)
  then show ?thesis
    using cred_invariant [OF demo_caps_ok demo_facts(1)] demo_caps_ok by (simp only: Let_def)
qed

text \<open>
  C14: Without \<^verbatim>\<open>execve\<close> privilege is only lost.  In every sequence of the other calls the permitted
  capabilities shrink; a task without the permitted capability \<open>CAP_SETUID\<close> keeps its four user ids
  among those it had, and likewise without \<open>CAP_SETGID\<close> its group ids, and it keeps its supplementary groups.
\<close>

theorem calls_never_gain:
  assumes "caps_ok (cur_cred t)" and "\<forall>(env, c) \<in> set calls. \<not> is_execve c" and "t' = run_calls calls t"
  shows "cap_set (cap_permitted (cur_cred t')) \<subseteq> cap_set (cap_permitted (cur_cred t)) \<and>
    (\<not> cap_raised (cap_permitted (cur_cred t)) CAP_SETUID \<longrightarrow> uids (cur_cred t') \<subseteq> uids (cur_cred t)) \<and>
    (\<not> cap_raised (cap_permitted (cur_cred t)) CAP_SETGID \<longrightarrow>
       gids (cur_cred t') \<subseteq> gids (cur_cred t) \<and> cred_groups (cur_cred t') = cred_groups (cur_cred t))"
  using run_calls_no_gain [OF assms(1,2)] by (simp add: assms(3) call_ok_def no_gain_def cap_issubset_iff)

lemma no_caps_raised: "\<not> cap_raised CAP_EMPTY_SET x"
  by (simp add: cap_raised_def CAP_EMPTY_SET_def cap_word_def)

theorem calls_never_gain_witness:
  "uids (cur_cred (run_calls [(demo_env, Setresuid 0 0 0), (demo_env, Setfsuid 0)] (demo_task 1000 CAP_EMPTY_SET))) \<subseteq> {1000}"
  using calls_never_gain [OF demo_caps_ok [of 1000 CAP_EMPTY_SET] _ refl,
      of "[(demo_env, Setresuid 0 0 0), (demo_env, Setfsuid 0)]"]
  by (simp add: demo_facts no_caps_raised)

text \<open>
  C15: A task that gives up root with \<^verbatim>\<open>setuid\<close> cannot take it back.  If a task with a user id 0 and the
  effective capability \<open>CAP_SETUID\<close> successfully sets its user id to \<open>u \<noteq> 0\<close>, without keep-caps and
  without suppressed fix-up, then it has no capability left and all its user ids are \<open>u\<close>, also after
  any further calls that do not execute a program.
\<close>

theorem setuid_irrevocable:
  assumes "caps_ok (cur_cred t)" and "cap_raised (cap_effective (cur_cred t)) CAP_SETUID"
    and "uid (cur_cred t) = 0 \<or> euid (cur_cred t) = 0 \<or> suid (cur_cred t) = 0"
    and "\<not> issecure SECURE_KEEP_CAPS t" and "\<not> issecure SECURE_NO_SETUID_FIXUP t"
    and "u \<noteq> 0" and "sys_setuid env u t = (Ok, t1)"
    and "\<forall>(env, c) \<in> set calls. \<not> is_execve c" and "t2 = run_calls calls t1"
  shows "cap_permitted (cur_cred t2) = CAP_EMPTY_SET \<and> cap_effective (cur_cred t2) = CAP_EMPTY_SET \<and>
    uids (cur_cred t2) \<subseteq> {u}"
proof -
  let ?c = "cur_cred t"
  let ?n1 = "?c\<lparr>suid := u, uid := u\<rparr>"
  obtain b t' where g1: "nsown_capable CAP_SETUID t = (b, t')" by fastforce
  obtain r t'' where g2: "(if u \<noteq> uid ?c then set_user env ?n1 t' else (Inr ?n1, t')) = (r, t'')" by fastforce
  note 1 = nsown_capableD [OF g1 cap_valid_setids(1)]
  note 2 = set_user_ok [OF g2 1(1)]
  have cur: "cur_cred t'' = ?c" "issecure x t'' = issecure x t" for x
    using 2(1) by (simp_all add: same_creds_def issecure_def)
  have run: "sys_setuid env u t =
    (if \<not> cred_mem env then (Inl ENOMEM, t)
     else case r of Inl e \<Rightarrow> (Inl e, t'') | Inr n \<Rightarrow> fix_and_commit env (n\<lparr>fsuid := u, euid := u\<rparr>) LSM_SETID_ID t'')"
    using 1(2) assms(2) unfolding sys_setuid_def prepare_creds_def Let_def g1 prod.case
    by (cases "cred_mem env") (simp_all only: option.case if_True if_False g2 prod.case simp_thms)
  obtain n where n: "r = Inr n" and fc: "fix_and_commit env (n\<lparr>fsuid := u, euid := u\<rparr>) LSM_SETID_ID t'' = (Ok, t1)"
    using assms(7) unfolding run by (auto split: if_splits sum.splits)
  obtain x where x: "n = ?n1\<lparr>user := x\<rparr>" using 2(2) [OF n] by blast
  have "cur_cred t1 = ?c\<lparr>uid := u, euid := u, suid := u, fsuid := u, user := x,
      cap_permitted := CAP_EMPTY_SET, cap_effective := CAP_EMPTY_SET\<rparr>"
    using fc assms(3-6)
    by (auto simp: fix_and_commit_def cap_task_fix_setuid_def cap_emulate_setxuid_def cur x Let_def dest!: commit_credsD)
  then have t1: "caps_ok (cur_cred t1)" "uids (cur_cred t1) = {u}" "cap_permitted (cur_cred t1) = CAP_EMPTY_SET"
    by (simp_all add: caps_ok_def uids_def)
  have "no_gain (cur_cred t1) (cur_cred t2)"
    using run_calls_no_gain [OF t1(1) assms(8)] by (simp add: assms(9) call_ok_def)
  then have "cap_issubset (cap_permitted (cur_cred t2)) CAP_EMPTY_SET" "caps_ok (cur_cred t2)" "uids (cur_cred t2) \<subseteq> {u}"
    using t1 by (simp_all add: no_gain_def bounds_kept_def groups_sorted_def no_caps_raised)
  moreover from this have "cap_permitted (cur_cred t2) = CAP_EMPTY_SET" by (auto intro: kc.issubset_antisym)
  ultimately show ?thesis by (auto simp: caps_ok_def intro: kc.issubset_antisym)
qed

lemma full_raised: "cap_raised CAP_FULL_SET x"
  by (auto simp: cap_raised_bit CAP_FULL_SET_def cap_word_def bit_not_iff)

theorem setuid_irrevocable_witness:
  "\<exists>t1. sys_setuid demo_env 1000 (demo_task 0 CAP_FULL_SET) = (Ok, t1) \<and>
     cap_permitted (cur_cred (run_calls [(demo_env, Setuid 0), (demo_env, Prctl PR_SET_KEEPCAPS 1)] t1)) = CAP_EMPTY_SET \<and>
     uids (cur_cred (run_calls [(demo_env, Setuid 0), (demo_env, Prctl PR_SET_KEEPCAPS 1)] t1)) \<subseteq> {1000}"
proof -
  let ?t = "demo_task 0 CAP_FULL_SET"
  have "cap_capable (cur_cred ?t) Init_user_ns CAP_SETUID = Ok"
    by (subst cap_capable.simps) (simp add: demo_task_def demo_cred_def full_raised)
  then have "fst (sys_setuid demo_env 1000 ?t) = Ok"
    by (simp add: sys_setuid_def prepare_creds_def demo_env_def nsown_capable_def ns_capable_def cap_valid_def demo_task_def
        demo_cred_def set_user_def fix_and_commit_def cap_task_fix_setuid_def Let_def)
  then obtain t1 where run: "sys_setuid demo_env 1000 ?t = (Ok, t1)" by (cases "sys_setuid demo_env 1000 ?t") auto
  have "cap_raised (cap_effective (cur_cred ?t)) CAP_SETUID" "uid (cur_cred ?t) = 0" "\<not> issecure x ?t" for x
    by (simp_all add: demo_task_def demo_cred_def full_raised issecure_def)
  from setuid_irrevocable [OF demo_caps_ok this(1) _ this(3) this(3) _ run _ refl,
      of "[(demo_env, Setuid 0), (demo_env, Prctl PR_SET_KEEPCAPS 1)]"] this(2) run
  show ?thesis by auto
qed

text \<open>
  C16: What a successful \<^verbatim>\<open>execve\<close> can give.  The new permitted capabilities lie within the bounding set
  and the inheritable set, the effective ones are all of them or none, bounding set, inheritable set and
  real ids are unchanged, saved and file system ids are the effective ones, and keep-caps is cleared.
  When an unsafe bit other than \<^verbatim>\<open>LSM_UNSAFE_PTRACE_CAP\<close> is set (a tracer without \<open>CAP_SYS_PTRACE\<close>, or file system data shared with
  another process) the permitted set stays within the old one, and if the task does not have \<open>CAP_SETUID\<close> in its
  effective set the effective ids are the real ones whatever the set-id bits of the file say; with \<open>CAP_SETUID\<close> a
  set-id file still changes them, and a tracer with \<open>CAP_SYS_PTRACE\<close> alone hinders nothing.
\<close>

theorem execve_caps_bounded:
  assumes "do_execve_creds env unsf file interps loads t = (Ok, t')" and "old = cur_cred t" and "new = cur_cred t'"
  shows "cap_set (cap_permitted new) \<subseteq> cap_set (cap_bset old) \<union> cap_set (cap_inheritable old) \<and>
    (cap_effective new = cap_permitted new \<or> cap_effective new = CAP_EMPTY_SET) \<and>
    cap_bset new = cap_bset old \<and> cap_inheritable new = cap_inheritable old \<and> uid new = uid old \<and> gid new = gid old \<and>
    suid new = euid new \<and> fsuid new = euid new \<and> sgid new = egid new \<and> fsgid new = egid new \<and>
    \<not> bit (securebits new) SECURE_KEEP_CAPS \<and>
    (unsf AND NOT LSM_UNSAFE_PTRACE_CAP \<noteq> 0 \<longrightarrow>
       cap_set (cap_permitted new) \<subseteq> cap_set (cap_permitted old) \<and>
       (\<not> cap_raised (cap_effective old) CAP_SETUID \<longrightarrow> euid new = uid old \<and> egid new = gid old))"
  using execve_bounded(2) [OF assms(1) refl]
  by (simp add: exec_bounded_def assms(2,3) cap_issubset_iff cap_set_ops)

definition setuid_root_file :: exec_file where
  "setuid_root_file = \<lparr>has_f_op = True, i_mode = 0x89ED, i_uid = 0, i_gid = 0, MNT_NOSUID = False, getxattr = None,
     kernel_read = Inr 128\<rparr>"

lemma traced_execve:
  "\<exists>t'. do_execve_creds demo_env 2 setuid_root_file [] Ok (demo_task 1000 CAP_EMPTY_SET) = (Ok, t')"
proof -
  have "\<not> cap_issubset CAP_FULL_SET CAP_EMPTY_SET" by (simp add: cap_issubset_def cap_isclear_def cap_drop_def CAP_FULL_SET_def CAP_EMPTY_SET_def)
  then show ?thesis
    by (auto simp: do_execve_creds_def prepare_creds_def demo_env_def demo_task_def demo_cred_def setuid_root_file_def
        prepare_binprm_def cap_bprm_set_creds_def get_file_caps_def bprm_clear_caps_def get_vfs_caps_from_disk_def
        root_caps_def issecure_def downgrade_def capable_def ns_capable_def install_exec_creds_def Let_def
        intro!: prod_eqI exI split: prod.split)
qed

theorem execve_caps_bounded_witness:
  "\<exists>t'. do_execve_creds demo_env 2 setuid_root_file [] Ok (demo_task 1000 CAP_EMPTY_SET) = (Ok, t') \<and>
     euid (cur_cred t') = 1000 \<and> cap_permitted (cur_cred t') = CAP_EMPTY_SET"
proof -
  obtain t' where run: "do_execve_creds demo_env 2 setuid_root_file [] Ok (demo_task 1000 CAP_EMPTY_SET) = (Ok, t')"
    using traced_execve by blast
  have "(2 :: u32) AND NOT 4 \<noteq> 0" by simp
  moreover have "uid (cur_cred (demo_task 1000 CAP_EMPTY_SET)) = 1000" "cap_effective (cur_cred (demo_task 1000 CAP_EMPTY_SET)) = CAP_EMPTY_SET"
    by (simp_all add: demo_task_def demo_cred_def)
  ultimately show ?thesis
    using execve_caps_bounded [OF run refl refl] run
    by (simp add: demo_facts no_caps_raised cap_set_ops caps_eq_iff [of _ CAP_EMPTY_SET, simplified cap_set_ops])
qed

text \<open>
  C17: File capabilities for ordinary users.  When neither the real nor the effective id of the new program
  is 0, no unsafe bit is set, file capabilities are enabled, the file is not on a nosuid mount, its attribute
  can be read and the audit record can be made, the permitted set is \<open>(bounding \<inter> fP) \<union> (inheritable \<inter> fI)\<close>
  for the sets \<open>fP\<close>, \<open>fI\<close> stored with the file, and it becomes effective if and only if the file's
  effective flag is set.  The execution fails with EPERM exactly when that flag is set and a
  capability of \<open>fP\<close> would be missing.
\<close>

theorem exec_file_caps_exact:
  assumes "get_vfs_caps_from_disk f = Inr v" and "file_caps_enabled env" and "\<not> MNT_NOSUID f" and "audit_fcaps env = Ok"
    and "uid (bprm_cred bprm) \<noteq> 0" and "euid (bprm_cred bprm) \<noteq> 0" and "unsafe_bits bprm = 0"
    and "cap_bprm_set_creds env f bprm t = (r, bprm', t')"
    and "P = (cap_set (cap_bset (bprm_cred bprm)) \<inter> cap_set (vfs_permitted v)) \<union>
             (cap_set (cap_inheritable (bprm_cred bprm)) \<inter> cap_set (vfs_inheritable v))"
  shows "if bit (magic_etc v) 0 \<and> \<not> cap_set (vfs_permitted v) \<subseteq> P then r = Inl EPERM
    else r = Ok \<and> cap_set (cap_permitted (bprm_cred bprm')) = P \<and>
      cap_set (cap_effective (bprm_cred bprm')) = (if bit (magic_etc v) 0 then P else {})"
proof -
  let ?Q = "file_permitted (bprm_cred bprm) v"
  have P: "cap_set ?Q = P" by (simp add: file_permitted_def cap_set_ops assms(9))
  have sub: "cap_issubset (vfs_permitted v) ?Q \<longleftrightarrow> cap_set (vfs_permitted v) \<subseteq> P" by (simp add: cap_issubset_iff P)
  have root: "root_caps (bprm_cred (with_permitted bprm ?Q)) old e t = (bprm_cred (with_permitted bprm ?Q), e)" for old e
    using assms(5,6) by (simp add: root_caps_def with_permitted_def)
  have down: "downgrade n old (unsafe_bits (with_permitted bprm ?Q)) t = (n, t)" for n old
    using assms(7) by (simp add: downgrade_def with_permitted_def)
  have wp: "cap_permitted (bprm_cred (with_permitted bprm ?Q)) = ?Q" by (simp add: with_permitted_def)
  show ?thesis
    using assms(8) unfolding cap_bprm_set_creds_def Let_def get_file_caps_eq
    by (auto simp: assms(1-4) sub root down wp P cap_set_ops split: if_splits)
qed

definition ping_file :: exec_file where
  "ping_file = \<lparr>has_f_op = True, i_mode = 0x81ED, i_uid = 0, i_gid = 0, MNT_NOSUID = False,
     getxattr = Some (Inr [1, 0, 0, 2, 0, 0x20, 0, 0, 0, 0, 0, 0, 0, 0, 0, 0, 0, 0, 0, 0]), kernel_read = Inr 128\<rparr>"

lemma ping_caps:
  "get_vfs_caps_from_disk ping_file =
     Inr \<lparr>magic_etc = 0x2000001, vfs_permitted = \<lparr>cap0 = 0x2000, cap1 = 0\<rparr>, vfs_inheritable = \<lparr>cap0 = 0, cap1 = 0\<rparr>\<rparr>"
  by (simp add: get_vfs_caps_from_disk_def ping_file_def le32_at_def)

theorem exec_file_caps_exact_witness:
  "\<exists>bprm' t'. cap_bprm_set_creds demo_env ping_file
       \<lparr>bprm_cred = demo_cred 1000 CAP_EMPTY_SET, bprm_cap_effective = False, unsafe_bits = 0, per_clear = False, cred_prepared = False\<rparr>
       (demo_task 1000 CAP_EMPTY_SET) = (Ok, bprm', t') \<and>
     cap_set (cap_effective (bprm_cred bprm')) = cap_set \<lparr>cap0 = 0x2000, cap1 = 0\<rparr>"
proof -
  let ?b = "\<lparr>bprm_cred = demo_cred 1000 CAP_EMPTY_SET, bprm_cap_effective = False, unsafe_bits = 0, per_clear = False, cred_prepared = False\<rparr>"
  obtain r b' t' where run: "cap_bprm_set_creds demo_env ping_file ?b (demo_task 1000 CAP_EMPTY_SET) = (r, b', t')" by (metis prod_cases3)
  have "cap_set CAP_FULL_SET = {x. x < 64}" by (auto simp: cap_set_def full_raised)
  moreover have "cap_set c \<subseteq> {x. x < 64}" for c by (auto simp: cap_set_def)
  ultimately have full: "cap_set CAP_FULL_SET \<inter> cap_set c = cap_set c" for c by blast
  have flag: "bit (0x2000001 :: u32) 0" by simp
  from exec_file_caps_exact [OF ping_caps _ _ _ _ _ _ run refl] flag show ?thesis
    using run by (auto simp: demo_env_def ping_file_def demo_cred_def full cap_set_ops)
qed

text \<open>
  Saving the capability sets with \<^verbatim>\<open>capget\<close> and setting them again with \<^verbatim>\<open>capset\<close> succeeds and
  restores exactly the credentials, for the 64-bit versions of the interface and whatever the capabilities are.
\<close>

theorem capget_capset_roundtrip:
  assumes "caps_ok (cur_cred t)" and "cred_mem env" and "hdr_pid header = Some 0"
    and "hdr_version header = Some CAPABILITY_VERSION_3 \<or> hdr_version header = Some CAPABILITY_VERSION_2"
    and "2 \<le> room" and "sys_capget env header (Some room) t = (r, saved)"
  shows "r = Ok \<and> fst (sys_capset env header saved t) = Ok \<and> cur_cred (snd (sys_capset env header saved t)) = cur_cred t"
proof -
  let ?c = "cur_cred t"
  have v: "fst (cap_validate_magic header) = Inr 2" using assms(4) by (auto simp: cap_validate_magic_def)
  have get: "r = Ok" "saved = map (\<lambda>i. \<lparr>d_effective = cap_word (cap_effective ?c) i, d_permitted = cap_word (cap_permitted ?c) i,
      d_inheritable = cap_word (cap_inheritable ?c) i\<rparr>) [0, 1]"
    using assms(3,5,6) by (auto simp: sys_capget_def v cap_get_target_pid_def cap_capget_def numeral_2_eq_2)
  have words: "words_of d_effective saved = cap_effective ?c" "words_of d_permitted saved = cap_permitted ?c"
    "words_of d_inheritable saved = cap_inheritable ?c"
    by (simp_all add: get(2) words_of_def cap_word_def)
  have "cap_capset ?c ?c (cap_effective ?c) (cap_inheritable ?c) (cap_permitted ?c) t = Inr ?c"
    using assms(1) by (simp add: cap_capset_def caps_ok_def kc.issubset_combine_mono)
  moreover have "length saved = 2" "take 2 saved = saved" by (simp_all add: get(2))
  ultimately have "sys_capset env header saved t = commit_creds env ?c t"
    using assms(2,3) by (simp add: sys_capset_def v prepare_creds_def words Let_def)
  then show ?thesis using get(1) by simp
qed

theorem capget_capset_roundtrip_witness:
  "\<exists>saved. sys_capget demo_env \<lparr>hdr_version = Some CAPABILITY_VERSION_3, hdr_writable = True, hdr_pid = Some 0\<rparr> (Some 2)
       (demo_task 0 CAP_FULL_SET) = (Ok, saved) \<and>
     fst (sys_capset demo_env \<lparr>hdr_version = Some CAPABILITY_VERSION_3, hdr_writable = True, hdr_pid = Some 0\<rparr> saved
       (demo_task 0 CAP_FULL_SET)) = Ok"
proof -
  let ?h = "\<lparr>hdr_version = Some CAPABILITY_VERSION_3, hdr_writable = True, hdr_pid = Some 0\<rparr>"
  obtain r saved where run: "sys_capget demo_env ?h (Some 2) (demo_task 0 CAP_FULL_SET) = (r, saved)" by fastforce
  from capget_capset_roundtrip [OF demo_caps_ok _ _ _ order_refl run] run show ?thesis by (simp add: demo_env_def)
qed

end
