(* ===== verification/Uid16.thy ===== *)
theory Uid16
  imports Group_Calls
begin

text \<open>
  The 16-bit id system calls of \<^verbatim>\<open>kernel/uid16.c\<close> and the conversions of \<^verbatim>\<open>include/linux/highuid.h\<close>.
  An id that does not fit is shown to the caller as the overflow id, a parameter that the administrator
  can set; \<open>- 1\<close>, which asks for no change, has a value of its own at each width.  The lemmas say that
  the calls do what the 32-bit calls do on the converted arguments, for group lists also where
  the loops differ.
\<close>

section \<open>Conversions\<close>

definition high2lowuid :: "int \<Rightarrow> u32 \<Rightarrow> u16" where
  "high2lowuid overflowuid u = (if u AND NOT 0xFFFF \<noteq> 0 then word_of_int overflowuid else ucast u)"

definition high2lowgid :: "int \<Rightarrow> u32 \<Rightarrow> u16" where
  "high2lowgid overflowgid g = (if g AND NOT 0xFFFF \<noteq> 0 then word_of_int overflowgid else ucast g)"

definition low2highuid :: "u16 \<Rightarrow> u32" where
  "low2highuid u = (if u = - 1 then - 1 else ucast u)"

definition low2highgid :: "u16 \<Rightarrow> u32" where
  "low2highgid g = (if g = - 1 then - 1 else ucast g)"

section \<open>Setting and reading ids\<close>

definition sys_setregid16 :: "kernel_env \<Rightarrow> u16 \<Rightarrow> u16 \<Rightarrow> task_struct \<Rightarrow> unit kresult \<times> task_struct" where
  "sys_setregid16 env rg eg t = sys_setregid env (low2highgid rg) (low2highgid eg) t"

definition sys_setgid16 :: "kernel_env \<Rightarrow> u16 \<Rightarrow> task_struct \<Rightarrow> unit kresult \<times> task_struct" where
  "sys_setgid16 env g t = sys_setgid env (low2highgid g) t"

definition sys_setreuid16 :: "kernel_env \<Rightarrow> u16 \<Rightarrow> u16 \<Rightarrow> task_struct \<Rightarrow> unit kresult \<times> task_struct" where
  "sys_setreuid16 env ru eu t = sys_setreuid env (low2highuid ru) (low2highuid eu) t"

definition sys_setuid16 :: "kernel_env \<Rightarrow> u16 \<Rightarrow> task_struct \<Rightarrow> unit kresult \<times> task_struct" where
  "sys_setuid16 env u t = sys_setuid env (low2highuid u) t"

definition sys_setresuid16 :: "kernel_env \<Rightarrow> u16 \<Rightarrow> u16 \<Rightarrow> u16 \<Rightarrow> task_struct \<Rightarrow> unit kresult \<times> task_struct" where
  "sys_setresuid16 env ru eu su t = sys_setresuid env (low2highuid ru) (low2highuid eu) (low2highuid su) t"

definition sys_getresuid16 :: "int \<Rightarrow> bool \<Rightarrow> bool \<Rightarrow> bool \<Rightarrow> task_struct \<Rightarrow> unit kresult \<times> u16 list" where
  "sys_getresuid16 ov wr we ws t =
     put_three (high2lowuid ov (uid (cur_cred t))) (high2lowuid ov (euid (cur_cred t))) (high2lowuid ov (suid (cur_cred t))) wr we ws"

definition sys_setresgid16 :: "kernel_env \<Rightarrow> u16 \<Rightarrow> u16 \<Rightarrow> u16 \<Rightarrow> task_struct \<Rightarrow> unit kresult \<times> task_struct" where
  "sys_setresgid16 env rg eg sg t = sys_setresgid env (low2highgid rg) (low2highgid eg) (low2highgid sg) t"

definition sys_getresgid16 :: "int \<Rightarrow> bool \<Rightarrow> bool \<Rightarrow> bool \<Rightarrow> task_struct \<Rightarrow> unit kresult \<times> u16 list" where
  "sys_getresgid16 ov wr we ws t =
     put_three (high2lowgid ov (gid (cur_cred t))) (high2lowgid ov (egid (cur_cred t))) (high2lowgid ov (sgid (cur_cred t))) wr we ws"

definition sys_setfsuid16 :: "kernel_env \<Rightarrow> u16 \<Rightarrow> task_struct \<Rightarrow> u32 \<times> task_struct" where
  "sys_setfsuid16 env u t = sys_setfsuid env (low2highuid u) t"

definition sys_setfsgid16 :: "kernel_env \<Rightarrow> u16 \<Rightarrow> task_struct \<Rightarrow> u32 \<times> task_struct" where
  "sys_setfsgid16 env g t = sys_setfsgid env (low2highgid g) t"

definition sys_getuid16 :: "int \<Rightarrow> task_struct \<Rightarrow> u16" where
  "sys_getuid16 ov t = high2lowuid ov (uid (cur_cred t))"

definition sys_geteuid16 :: "int \<Rightarrow> task_struct \<Rightarrow> u16" where
  "sys_geteuid16 ov t = high2lowuid ov (euid (cur_cred t))"

definition sys_getgid16 :: "int \<Rightarrow> task_struct \<Rightarrow> u16" where
  "sys_getgid16 ov t = high2lowgid ov (gid (cur_cred t))"

definition sys_getegid16 :: "int \<Rightarrow> task_struct \<Rightarrow> u16" where
  "sys_getegid16 ov t = high2lowgid ov (egid (cur_cred t))"

section \<open>Group lists\<close>

text \<open>The loops over the \<open>n\<close> remaining ids from id \<open>i\<close> on, one access to user memory each.\<close>

primrec to_user16_loop :: "int \<Rightarrow> group_blocks \<Rightarrow> nat \<Rightarrow> nat \<Rightarrow> u16 list \<Rightarrow> unit kresult \<times> u16 list" where
  "to_user16_loop ov gi 0 i grouplist = (Ok, grouplist)"
| "to_user16_loop ov gi (Suc n) i grouplist =
     (let group = high2lowgid ov (GROUP_AT gi i)
      in if i < length grouplist then to_user16_loop ov gi n (i + 1) (grouplist[i := group])
         else (Inl EFAULT, grouplist))"

definition groups16_to_user :: "int \<Rightarrow> u16 list \<Rightarrow> group_blocks \<Rightarrow> unit kresult \<times> u16 list" where
  "groups16_to_user ov grouplist gi = to_user16_loop ov gi (nat (ngroups gi)) 0 grouplist"

primrec from_user16_loop :: "u16 list \<Rightarrow> nat \<Rightarrow> nat \<Rightarrow> group_blocks \<Rightarrow> unit kresult \<times> group_blocks" where
  "from_user16_loop grouplist 0 i gi = (Ok, gi)"
| "from_user16_loop grouplist (Suc n) i gi =
     (if i < length grouplist then from_user16_loop grouplist n (i + 1) (set_group_at gi i (low2highgid (grouplist ! i)))
      else (Inl EFAULT, gi))"

definition groups16_from_user :: "group_blocks \<Rightarrow> u16 list \<Rightarrow> unit kresult \<times> group_blocks" where
  "groups16_from_user gi grouplist = from_user16_loop grouplist (nat (ngroups gi)) 0 gi"

definition sys_getgroups16 :: "int \<Rightarrow> int \<Rightarrow> u16 list \<Rightarrow> task_struct \<Rightarrow> int kresult \<times> u16 list \<times> task_struct" where
  "sys_getgroups16 ov gidsetsize grouplist t =
     (if gidsetsize < 0 then (Inl EINVAL, grouplist, t)
      else case cred_groups (cur_cred t) of
        None \<Rightarrow> (Inl EFAULT, grouplist, t\<lparr>bug_hit := True\<rparr>)
      | Some xs \<Rightarrow>
         (let i = int (length xs)
          in if gidsetsize = 0 then (Inr i, grouplist, t)
             else if i > gidsetsize then (Inl EINVAL, grouplist, t)
             else (case groups16_to_user ov grouplist (stored_blocks xs) of
                     (Inl e, grouplist) \<Rightarrow> (Inl EFAULT, grouplist, t)
                   | (Inr _, grouplist) \<Rightarrow> (Inr i, grouplist, t))))"

definition sys_setgroups16 ::
  "kernel_env \<Rightarrow> group_mem \<Rightarrow> int \<Rightarrow> u16 list \<Rightarrow> task_struct \<Rightarrow> group_ledger \<Rightarrow>
   unit kresult \<times> task_struct \<times> group_ledger" where
  "sys_setgroups16 env mem gidsetsize grouplist t l =
     (case nsown_capable CAP_SETGID t of (b, t) \<Rightarrow>
      if \<not> b then (Inl EPERM, t, l)
      else if gidsetsize mod 2 ^ 32 > NGROUPS_MAX then (Inl EINVAL, t, l)
      else case groups_alloc mem gidsetsize l of
        (None, l) \<Rightarrow> (Inl ENOMEM, t, l)
      | (Some gi, l) \<Rightarrow>
         (case groups16_from_user gi grouplist of
            (Inl e, gi) \<Rightarrow> (Inl e, t, snd (put_group_info gi l))
          | (Inr _, gi) \<Rightarrow>
             (case set_current_groups env gi t of (r, gi, t) \<Rightarrow> (r, t, snd (put_group_info gi l)))))"

section \<open>Conversions, there and back\<close>

lemma low_word: "(ucast (u :: u16) :: u32) AND NOT 0xFFFF = 0"
proof (rule bit_word_eqI)
  fix n assume "n < LENGTH(32)"
  have low: "(0xFFFF :: u32) = mask 16" by (simp add: mask_eq_exp_minus_1)
  show "bit ((ucast u :: u32) AND NOT 0xFFFF) n \<longleftrightarrow> bit (0 :: u32) n"
    unfolding low using bit_imp_le_length [of u n] by (auto simp: bit_and_iff bit_not_iff bit_mask_iff bit_ucast_iff)
qed

lemma low2high_minus1 [simp]:
  "low2highuid u = - 1 \<longleftrightarrow> u = - 1" "low2highgid u = - 1 \<longleftrightarrow> u = - 1"
proof -
  have "(ucast u :: u32) \<noteq> - 1"
  proof
    assume "(ucast u :: u32) = - 1"
    then have "bit (ucast u :: u32) 16" by simp
    then show False using bit_imp_le_length [of u 16] by (simp add: bit_ucast_iff)
  qed
  then show "low2highuid u = - 1 \<longleftrightarrow> u = - 1" "low2highgid u = - 1 \<longleftrightarrow> u = - 1"
    by (auto simp: low2highuid_def low2highgid_def)
qed

text \<open>An id that is no request for no change survives the way up and down; any other is shown as the overflow id.\<close>

theorem high2low_low2high:
  "high2lowuid ov (low2highuid u) = (if u = - 1 then word_of_int ov else u)"
  "high2lowgid ov (low2highgid u) = (if u = - 1 then word_of_int ov else u)"
  using low_word [of u] by (simp_all add: high2lowuid_def high2lowgid_def low2highuid_def low2highgid_def ucast_up_ucast_id is_up)

section \<open>Group lists, there and back\<close>

lemma set_group_at_fields [simp]:
  "ngroups (set_group_at gi i v) = ngroups gi" "usage (set_group_at gi i v) = usage gi"
  "in_small (set_group_at gi i v) = in_small gi" "nblocks (set_group_at gi i v) = nblocks gi"
  by (simp_all add: set_group_at_def)

text \<open>
  The loop over single ids fills the blocks as the copy of whole blocks does; only the entries behind the
  list may differ.
\<close>

lemma from_user16_loop_eq:
  assumes "blocks_ok gi" and "i + n = nat (ngroups gi)"
  shows "\<exists>bs. from_user16_loop um n i gi = (if i + n \<le> length um \<or> n = 0 then Ok else Inl EFAULT, gi\<lparr>blocks := bs\<rparr>) \<and>
    (i + n \<le> length um \<longrightarrow>
       group_list (gi\<lparr>blocks := bs\<rparr>) = take i (group_list gi) @ map low2highgid (take n (drop i um)))"
  using assms
proof (induction n arbitrary: i gi)
  case 0
  then show ?case by (intro exI [of _ "blocks gi"]) simp
next
  case (Suc n)
  show ?case
  proof (cases "i < length um")
    case False
    then show ?thesis by (intro exI [of _ "blocks gi"]) simp
  next
    case True
    let ?gi = "set_group_at gi i (low2highgid (um ! i))"
    have i: "i < nat (ngroups gi)" using Suc.prems(2) by simp
    note store = group_list_store [OF Suc.prems(1) i, of "low2highgid (um ! i)"]
    have list: "take (Suc i) (group_list ?gi) @ map low2highgid (take n (drop (Suc i) um))
        = take i (group_list gi) @ map low2highgid (take (Suc n) (drop i um))"
      using i True by (simp add: store(1) take_Suc_conv_app_nth Cons_nth_drop_Suc [symmetric])
    have same: "?gi\<lparr>blocks := bs\<rparr> = gi\<lparr>blocks := bs\<rparr>" for bs by (simp add: set_group_at_def)
    have "Suc i + n = nat (ngroups ?gi)" using Suc.prems(2) by simp
    from Suc.IH [OF store(2) this] obtain bs where
      bs: "from_user16_loop um n (Suc i) ?gi = (if Suc i + n \<le> length um \<or> n = 0 then Ok else Inl EFAULT, gi\<lparr>blocks := bs\<rparr>)"
        "Suc i + n \<le> length um \<Longrightarrow> group_list (gi\<lparr>blocks := bs\<rparr>) = take i (group_list gi) @ map low2highgid (take (Suc n) (drop i um))"
      unfolding same list by blast
    then show ?thesis using True by (intro exI [of _ bs]) auto
  qed
qed

lemma groups16_from_user_eq:
  assumes "blocks_ok gi"
  shows "\<exists>bs. groups16_from_user gi um = (if nat (ngroups gi) \<le> length um then Ok else Inl EFAULT, gi\<lparr>blocks := bs\<rparr>) \<and>
    (nat (ngroups gi) \<le> length um \<longrightarrow> group_list (gi\<lparr>blocks := bs\<rparr>) = map low2highgid (take (nat (ngroups gi)) um))"
  using from_user16_loop_eq [OF assms, of 0 "nat (ngroups gi)" um]
  by (cases "nat (ngroups gi) = 0") (auto simp: groups16_from_user_def)

lemma put_blocks: "snd (put_group_info (gi\<lparr>blocks := bs\<rparr>) l) = snd (put_group_info gi l)"
  by (simp add: put_group_info_def groups_free_def Let_def)

lemma get_blocks: "get_group_info (gi\<lparr>blocks := bs\<rparr>) = (get_group_info gi)\<lparr>blocks := bs\<rparr>"
  by (simp add: get_group_info_def)

text \<open>\<^verbatim>\<open>setgroups16\<close> is \<^verbatim>\<open>setgroups\<close> on the converted ids: the same result, credentials and memory in use.\<close>

theorem setgroups16_equiv:
  assumes "mem_ok mem" and "- (2 ^ 31) \<le> n" and "n < 2 ^ 31"
  shows "sys_setgroups16 env mem n um t l = sys_setgroups env mem n (map low2highgid um) t l"
proof -
  obtain b t1 where g: "nsown_capable CAP_SETGID t = (b, t1)" by fastforce
  show ?thesis
  proof (cases "b \<and> \<not> (n < 0 \<or> n > NGROUPS_MAX) \<and> mem_enough mem (nat n)")
    case False
    then show ?thesis
      using groups_alloc_exact [OF assms(1), of n l]
      by (auto simp: sys_setgroups16_def sys_setgroups_def g size_check [OF assms(2,3)] simp del: power_numeral)
  next
    case True
    then obtain gi l1 where alloc: "groups_alloc mem n l = (Some gi, l1)" and gi: "blocks_ok gi" "ngroups gi = n"
      using groups_alloc_exact [OF assms(1), of n l] by auto
    let ?good = "nat n \<le> length um"
    obtain bs where a: "groups16_from_user gi um = (if ?good then Ok else Inl EFAULT, gi\<lparr>blocks := bs\<rparr>)"
      "?good \<Longrightarrow> group_list (gi\<lparr>blocks := bs\<rparr>) = map low2highgid (take (nat n) um)"
      using groups16_from_user_eq [OF gi(1), of um, unfolded gi(2)] by blast
    obtain bs' where b: "groups_from_user gi (map low2highgid um) = (if ?good then Ok else Inl EFAULT, gi\<lparr>blocks := bs'\<rparr>)"
      "?good \<Longrightarrow> group_list (gi\<lparr>blocks := bs'\<rparr>) = map low2highgid (take (nat n) um)"
      using groups_from_user_eq [OF gi(1), of "map low2highgid um", unfolded gi(2)]
      by (cases ?good) (auto simp: take_map)
    show ?thesis
      using True a b
      by (auto simp: sys_setgroups16_def sys_setgroups_def g size_check [OF assms(2,3)] alloc put_blocks get_blocks
          set_current_groups_def simp del: power_numeral split: option.split prod.split)
  qed
qed

lemma to_user16_loop_eq:
  "length mem = length um \<Longrightarrow> i \<le> length um \<Longrightarrow>
   to_user16_loop ov gi n i mem =
     (if i + n \<le> length um then (Ok, take i mem @ map (\<lambda>k. high2lowgid ov (GROUP_AT gi k)) [i..<i + n] @ drop (i + n) mem)
      else (Inl EFAULT, take i mem @ map (\<lambda>k. high2lowgid ov (GROUP_AT gi k)) [i..<length um]))"
proof (induction n arbitrary: i mem)
  case (Suc n)
  show ?case
  proof (cases "i < length um")
    case True
    let ?v = "high2lowgid ov (GROUP_AT gi i)"
    have "to_user16_loop ov gi (Suc n) i mem = to_user16_loop ov gi n (Suc i) (mem[i := ?v])"
      using True Suc.prems(1) by (simp add: Let_def)
    moreover have "take (Suc i) (mem[i := ?v]) = take i mem @ [?v]" using True Suc.prems(1) by (simp add: take_Suc_conv_app_nth)
    moreover have "[i..<i + Suc n] = i # [Suc i..<Suc i + n]" "[i..<length um] = i # [Suc i..<length um]"
      using True by (simp_all add: upt_conv_Cons del: upt_Suc)
    ultimately show ?thesis
      using Suc.IH [of "mem[i := ?v]" "Suc i"] True Suc.prems(1) by (simp del: upt_Suc to_user16_loop.simps)
  qed (use Suc.prems in \<open>simp add: Let_def\<close>)
qed simp

text \<open>
  A list set through the 16-bit interface is read back through it, except that an entry \<open>- 1\<close> is
  shown as the overflow id.
\<close>

theorem setgroups16_getgroups16:
  assumes "mem_ok mem" and "0 < n" and "n \<le> NGROUPS_MAX" and "sys_setgroups16 env mem n um t l = (Ok, t', l')"
    and "n \<le> m" and "nat n \<le> length buf" and "- 1 \<notin> set (take (nat n) um)"
  shows "\<exists>ids. sys_getgroups16 ov m buf t' = (Inr n, ids @ drop (nat n) buf, t') \<and> mset ids = mset (take (nat n) um)"
proof -
  let ?hi = "map low2highgid (take (nat n) um)"
  have run: "sys_setgroups env mem n (map low2highgid um) t l = (Ok, t', l')"
    using setgroups16_equiv [OF assms(1)] assms(2-4) by simp
  have "cur_cred t' = set_groups (cur_cred t) ?hi" and len: "length ?hi = nat n"
    using setgroups_exact [OF assms(1) _ _ run] assms(2,3) by (auto simp: take_map split: if_splits)
  then have g: "cred_groups (cur_cred t') = Some (sort ?hi)" by (simp add: set_groups_def groups_sort_sort)
  have shown: "map (\<lambda>k. high2lowgid ov (GROUP_AT (stored_blocks xs) k)) [0..<length xs] = map (high2lowgid ov) xs" for xs
    by (subst (2) group_list_stored [of xs, symmetric]) (simp add: group_list_def)
  have "sys_getgroups16 ov m buf t' = (Inr n, map (high2lowgid ov) (sort ?hi) @ drop (nat n) buf, t')"
    using assms(2,5,6) len shown [of "sort ?hi"]
    by (simp add: sys_getgroups16_def g groups16_to_user_def to_user16_loop_eq [OF refl])
  moreover have "mset (map (high2lowgid ov) (sort ?hi)) = mset (map (high2lowgid ov) ?hi)" by (simp only: mset_map mset_sort)
  moreover have "map (high2lowgid ov) ?hi = take (nat n) um"
    using assms(7) by (auto simp: high2low_low2high intro!: map_idI)
  ultimately show ?thesis by metis
qed

end
