(* ===== verification/Resource.thy ===== *)
theory Resource
  imports Kernel_Prelude
begin

text \<open>
  The resource tree of \<^verbatim>\<open>kernel/resource.c\<close>, in which drivers reserve ranges of I/O ports and physical
  addresses.  A \<^verbatim>\<open>struct resource\<close> is a value of the datatype \<open>resource\<close>; its list of children is the
  chain that starts at \<^verbatim>\<open>child\<close> and goes on along \<^verbatim>\<open>sibling\<close>, and \<^verbatim>\<open>parent\<close> is the node around it.
  The number \<open>rid\<close> stands for the address of the structure, which is what the code compares.
  Bounds are inclusive and 32 bits wide.  An operation returns the changed node, or the
  conflicting resource.
\<close>

section \<open>Data\<close>

datatype resource =
  Resource (rid: nat) (rstart: u32) (rend: u32) (rname: string) (rflags: u32) (children: "resource list")

fun set_children :: "resource list \<Rightarrow> resource \<Rightarrow> resource" where
  "set_children cs (Resource i s e n f _) = Resource i s e n f cs"

fun set_range :: "u32 \<Rightarrow> u32 \<Rightarrow> resource \<Rightarrow> resource" where
  "set_range s e (Resource i _ _ n f cs) = Resource i s e n f cs"

abbreviation (input) IORESOURCE_BUSY :: u32 where "IORESOURCE_BUSY \<equiv> 0x80000000"
abbreviation (input) IORESOURCE_MUXED :: u32 where "IORESOURCE_MUXED \<equiv> 0x00400000"
abbreviation (input) IORESOURCE_SIZEALIGN :: u32 where "IORESOURCE_SIZEALIGN \<equiv> 0x00040000"
abbreviation (input) IORESOURCE_STARTALIGN :: u32 where "IORESOURCE_STARTALIGN \<equiv> 0x00080000"

definition resource_size :: "resource \<Rightarrow> u32" where
  "resource_size r = rend r - rstart r + 1"

section \<open>Requesting and releasing\<close>

text \<open>The loop over the children: the new node goes before the first that starts behind it.\<close>

fun link_child :: "resource list \<Rightarrow> resource \<Rightarrow> resource + resource list" where
  "link_child [] new = Inr [new]"
| "link_child (tmp # rest) new =
     (if rstart tmp > rend new then Inr (new # tmp # rest)
      else if rend tmp < rstart new
      then (case link_child rest new of Inl c \<Rightarrow> Inl c | Inr cs \<Rightarrow> Inr (tmp # cs))
      else Inl tmp)"

definition do_request_resource :: "resource \<Rightarrow> resource \<Rightarrow> resource + resource" where
  \<comment> \<open>\<open>Inl\<close> the conflict, \<open>Inr\<close> the changed root\<close>
  "do_request_resource root new =
     (if rend new < rstart new then Inl root
      else if rstart new < rstart root then Inl root
      else if rend new > rend root then Inl root
      else case link_child (children root) new of
        Inl c \<Rightarrow> Inl c
      | Inr cs \<Rightarrow> Inr (set_children cs root))"

fun unlink_child :: "resource list \<Rightarrow> nat \<Rightarrow> resource list option" where
  "unlink_child [] i = None"
| "unlink_child (tmp # rest) i =
     (if rid tmp = i then Some rest
      else (case unlink_child rest i of None \<Rightarrow> None | Some cs \<Rightarrow> Some (tmp # cs)))"

definition do_release_resource :: "resource \<Rightarrow> nat \<Rightarrow> resource kresult" where
  "do_release_resource parent old =
     (case unlink_child (children parent) old of
        None \<Rightarrow> Inl EINVAL
      | Some cs \<Rightarrow> Inr (set_children cs parent))"

text \<open>The descriptors that come free, with their sizes kept and their positions forgotten.\<close>

fun released :: "resource \<Rightarrow> resource list" where
  "released (Resource i s e n f cs) = concat (map released cs) @ [Resource i 0 (resource_size (Resource i s e n f cs) - 1) n f []]"

definition release_child_resources :: "resource \<Rightarrow> resource \<times> resource list" where
  "release_child_resources r = (set_children [] r, concat (map released (children r)))"

definition request_resource :: "resource \<Rightarrow> resource \<Rightarrow> unit kresult \<times> resource" where
  "request_resource root new =
     (case do_request_resource root new of Inl _ \<Rightarrow> (Inl EBUSY, root) | Inr root' \<Rightarrow> (Ok, root'))"

definition lookup_resource :: "resource \<Rightarrow> u32 \<Rightarrow> resource option" where
  "lookup_resource root s = find (\<lambda>r. rstart r = s) (children root)"

definition resource_alignment :: "resource \<Rightarrow> u32" where
  "resource_alignment r =
     (let k = rflags r AND (IORESOURCE_SIZEALIGN OR IORESOURCE_STARTALIGN)
      in if k = IORESOURCE_SIZEALIGN then resource_size r
         else if k = IORESOURCE_STARTALIGN then rstart r
         else 0)"

section \<open>Finding a free slot\<close>

record resource_constraint =
  cmin :: u32
  cmax :: u32
  calign :: u32
  alignf :: "u32 \<Rightarrow> u32 \<Rightarrow> u32 \<Rightarrow> u32 \<Rightarrow> u32"

text \<open>The alignment callback sees the available range, the size and the alignment.\<close>

definition simple_align_resource :: "u32 \<Rightarrow> u32 \<Rightarrow> u32 \<Rightarrow> u32 \<Rightarrow> u32" where
  "simple_align_resource avail_start avail_end sz align = avail_start"

definition resource_clip :: "u32 \<times> u32 \<Rightarrow> u32 \<Rightarrow> u32 \<Rightarrow> u32 \<times> u32" where
  "resource_clip r lo hi = (if fst r < lo then lo else fst r, if snd r > hi then hi else snd r)"

definition ALIGN :: "u32 \<Rightarrow> u32 \<Rightarrow> u32" where
  "ALIGN x a = (x + (a - 1)) AND NOT (a - 1)"

definition resource_contains :: "u32 \<times> u32 \<Rightarrow> u32 \<times> u32 \<Rightarrow> bool" where
  "resource_contains r1 r2 \<longleftrightarrow> fst r1 \<le> fst r2 \<and> snd r1 \<ge> snd r2"

text \<open>One gap: the clipped gap, and the slot if there is one.\<close>

definition try_gap :: "resource_constraint \<Rightarrow> u32 \<Rightarrow> u32 \<times> u32 \<Rightarrow> (u32 \<times> u32) \<times> (u32 \<times> u32) option" where
  "try_gap con sz gap =
     (let tmp = resource_clip gap (cmin con) (cmax con);
          avail = (ALIGN (fst tmp) (calign con), snd tmp)
      in if fst avail \<ge> fst tmp
         then (let s = alignf con (fst avail) (snd avail) sz (calign con);
                   alloc = (s, s + sz - 1)
               in (tmp, if resource_contains avail alloc then Some alloc else None))
         else (tmp, None))"

fun find_loop ::
  "resource \<Rightarrow> nat option \<Rightarrow> u32 \<Rightarrow> resource_constraint \<Rightarrow> u32 \<Rightarrow> resource list \<Rightarrow> (u32 \<times> u32) kresult" where
  "find_loop root old sz con tstart [] =
     (let tend = rend root
      in if tend < tstart then Inl EBUSY
         else (case snd (try_gap con sz (tstart, tend)) of Some slot \<Rightarrow> Inr slot | None \<Rightarrow> Inl EBUSY))"
| "find_loop root old sz con tstart (this # rest) =
     (let is_old = (old = Some (rid this));
          tend = (if is_old then rend this else rstart this - 1);
          (tmp, slot) = (if tend < tstart then ((tstart, tend), None) else try_gap con sz (tstart, tend))
      in case slot of
           Some s \<Rightarrow> Inr s
         | None \<Rightarrow>
             if rend this = rend root then Inl EBUSY
             else find_loop root old sz con (if \<not> is_old then rend this + 1 else fst tmp) rest)"

definition do_find_resource ::
  "resource \<Rightarrow> nat option \<Rightarrow> u32 \<Rightarrow> resource_constraint \<Rightarrow> (u32 \<times> u32) kresult" where
  "do_find_resource root old sz con =
     (case children root of
        this # rest \<Rightarrow>
          if rstart this = rstart root
          then find_loop root old sz con (if old = Some (rid this) then rstart this else rend this + 1) rest
          else find_loop root old sz con (rstart root) (this # rest)
      | [] \<Rightarrow> find_loop root old sz con (rstart root) [])"

definition find_resource :: "resource \<Rightarrow> u32 \<Rightarrow> resource_constraint \<Rightarrow> (u32 \<times> u32) kresult" where
  "find_resource root sz con = do_find_resource root None sz con"

section \<open>Allocating\<close>

text \<open>\<open>None\<close> is the \<^verbatim>\<open>BUG_ON\<close> after a failed second request.\<close>

definition reallocate_resource ::
  "resource \<Rightarrow> resource \<Rightarrow> u32 \<Rightarrow> resource_constraint \<Rightarrow> (unit kresult \<times> resource) option" where
  "reallocate_resource root old newsize con =
     (case do_find_resource root (Some (rid old)) newsize con of
        Inl e \<Rightarrow> Some (Inl e, root)
      | Inr new \<Rightarrow>
          (let resized = set_range (fst new) (snd new) old;
               replace = (\<lambda>cs. map (\<lambda>c. if rid c = rid old then resized else c) cs)
           in if resource_contains new (rstart old, rend old)
              then Some (Ok, set_children (replace (children root)) root)
              else if children old \<noteq> [] then Some (Inl EBUSY, root)
              else if resource_contains (rstart old, rend old) new
              then Some (Ok, set_children (replace (children root)) root)
              else (let root1 = (case do_release_resource root (rid old) of Inl e \<Rightarrow> root | Inr r \<Rightarrow> r)
                    in case do_request_resource root1 resized of
                         Inl conflict \<Rightarrow> None
                       | Inr root2 \<Rightarrow> Some (Ok, root2))))"

definition allocate_resource ::
  "resource \<Rightarrow> resource \<Rightarrow> bool \<Rightarrow> u32 \<Rightarrow> resource_constraint \<Rightarrow> (unit kresult \<times> resource) option" where
  \<comment> \<open>the flag: \<^verbatim>\<open>new->parent\<close> is set, the resource is in the tree already\<close>
  "allocate_resource root new has_parent sz con =
     (if has_parent then reallocate_resource root new sz con
      else (case find_resource root sz con of
              Inl e \<Rightarrow> Some (Inl e, root)
            | Inr (s, e) \<Rightarrow>
               (case do_request_resource root (set_range s e new) of
                  Inl conflict \<Rightarrow> Some (Inl EBUSY, root)
                | Inr root' \<Rightarrow> Some (Ok, root'))))"

section \<open>Inserting\<close>

text \<open>
  The children from the first conflict on that the new resource covers, and the rest; or the
  one that it covers only in part.
\<close>

fun take_covered :: "resource list \<Rightarrow> resource \<Rightarrow> resource + (resource list \<times> resource list)" where
  "take_covered [] new = Inr ([], [])"
| "take_covered (next # rest) new =
     (if rstart next < rstart new \<or> rend next > rend new then Inl next
      else (case rest of
              [] \<Rightarrow> Inr ([next], [])
            | sib # _ \<Rightarrow>
                if rstart sib > rend new then Inr ([next], rest)
                else (case take_covered rest new of
                        Inl c \<Rightarrow> Inl c
                      | Inr (covered, behind) \<Rightarrow> Inr (next # covered, behind))))"

definition adopt :: "resource \<Rightarrow> resource \<Rightarrow> resource \<Rightarrow> resource + resource" where
  "adopt parent first new =
     (let before = takeWhile (\<lambda>c. rid c \<noteq> rid first) (children parent);
          from_first = dropWhile (\<lambda>c. rid c \<noteq> rid first) (children parent)
      in case take_covered from_first new of
           Inl next \<Rightarrow> Inl next
         | Inr (covered, behind) \<Rightarrow>
             Inr (set_children (before @ set_children covered new # behind) parent))"

lemma link_child_conflict: "link_child cs new = Inl c \<Longrightarrow> c \<in> set cs"
  by (induction cs) (auto split: if_splits sum.splits)

lemma request_conflict_child:
  "do_request_resource root new = Inl c \<Longrightarrow> rid c \<noteq> rid root \<Longrightarrow> c \<in> set (children root)"
  by (auto simp: do_request_resource_def dest: link_child_conflict split: if_splits sum.splits)

lemma child_smaller: "c \<in> set (children r) \<Longrightarrow> size c < size r"
  using size_list_estimation' [of c _ "size c" size] by (cases r) (auto simp: less_Suc_eq_le)

function do_insert_resource :: "resource \<Rightarrow> resource \<Rightarrow> resource + resource" where
  "do_insert_resource parent new =
     (case do_request_resource parent new of
        Inr parent' \<Rightarrow> Inr parent'
      | Inl first \<Rightarrow>
          if rid first = rid parent then Inl first
          else if rid first = rid new then Inl first
          else if rstart first > rstart new \<or> rend first < rend new then adopt parent first new
          else if rstart first = rstart new \<and> rend first = rend new then adopt parent first new
          else (case do_insert_resource first new of
                  Inl c \<Rightarrow> Inl c
                | Inr first' \<Rightarrow>
                    Inr (set_children (map (\<lambda>c. if rid c = rid first then first' else c) (children parent)) parent)))"
  by pat_completeness auto

termination
  by (relation "measure (\<lambda>(parent, new). size parent)") (auto intro: child_smaller request_conflict_child)

declare do_insert_resource.simps [simp del]

definition insert_resource :: "resource \<Rightarrow> resource \<Rightarrow> unit kresult \<times> resource" where
  "insert_resource parent new =
     (case do_insert_resource parent new of Inl _ \<Rightarrow> (Inl EBUSY, parent) | Inr parent' \<Rightarrow> (Ok, parent'))"

text \<open>The loop that widens the new resource; \<open>None\<close> when the fuel does not suffice.\<close>

fun expand_loop :: "nat \<Rightarrow> resource \<Rightarrow> resource \<Rightarrow> (resource \<times> resource) option" where
  "expand_loop 0 root new = None"
| "expand_loop (Suc fuel) root new =
     (case do_insert_resource root new of
        Inr root' \<Rightarrow> Some (root', new)
      | Inl conflict \<Rightarrow>
          if rid conflict = rid root then Some (root, new)
          else expand_loop fuel root
                 (set_range (if rstart conflict < rstart new then rstart conflict else rstart new)
                            (if rend conflict > rend new then rend conflict else rend new) new))"

definition insert_resource_expand_to_fit ::
  "nat \<Rightarrow> resource \<Rightarrow> resource \<Rightarrow> bool \<Rightarrow> (resource \<times> resource) option" where
  "insert_resource_expand_to_fit fuel root new has_parent =
     (if has_parent then Some (root, new) else expand_loop fuel root new)"

section \<open>Adjusting\<close>

text \<open>\<open>None\<close>: the resource is not a child of its parent, and the code runs off the list.\<close>

definition adjust_resource :: "resource \<Rightarrow> nat \<Rightarrow> u32 \<Rightarrow> u32 \<Rightarrow> (unit kresult \<times> resource) option" where
  "adjust_resource parent i s sz =
     (let e = s + sz - 1;
          before = takeWhile (\<lambda>c. rid c \<noteq> i) (children parent)
      in case dropWhile (\<lambda>c. rid c \<noteq> i) (children parent) of
           [] \<Rightarrow> None
         | res # behind \<Rightarrow>
             if s < rstart parent \<or> e > rend parent then Some (Inl EBUSY, parent)
             else if \<exists>tmp \<in> set (children res). rstart tmp < s \<or> rend tmp > e then Some (Inl EBUSY, parent)
             else if behind \<noteq> [] \<and> rstart (hd behind) \<le> e then Some (Inl EBUSY, parent)
             else if before \<noteq> [] \<and> s \<le> rend (last before) then Some (Inl EBUSY, parent)
             else Some (Ok, set_children (before @ set_range s e res # behind) parent))"

section \<open>Reserving around what is there\<close>

text \<open>
  Every allocated descriptor gets the next number; \<open>mem\<close> tells for each whether \<^verbatim>\<open>kzalloc\<close> succeeds.
  \<open>None\<close> is a recursion deeper than the fuel.
\<close>

fun reserve_split ::
  "nat \<Rightarrow> (nat \<Rightarrow> bool) \<Rightarrow> nat \<Rightarrow> string \<Rightarrow> u32 \<Rightarrow> u32 \<Rightarrow> resource \<Rightarrow> (resource \<times> nat) option" where
  "reserve_split 0 mem fresh name s e root = None"
| "reserve_split (Suc fuel) mem fresh name s e root =
     (if \<not> mem fresh then Some (root, fresh + 1)
      else (case do_request_resource root (Resource fresh s e name IORESOURCE_BUSY []) of
              Inr root' \<Rightarrow> Some (root', fresh + 1)
            | Inl conflict \<Rightarrow>
                if rstart conflict \<le> s \<and> rend conflict \<ge> e then Some (root, fresh + 1)
                else (case (if rstart conflict > s
                            then reserve_split fuel mem (fresh + 1) name s (rstart conflict - 1) root
                            else Some (root, fresh + 1)) of
                        None \<Rightarrow> None
                      | Some (root1, fresh1) \<Rightarrow>
                          if rend conflict < e
                          then reserve_split fuel mem fresh1 name (rend conflict + 1) e root1
                          else Some (root1, fresh1))))"

section \<open>Regions\<close>

datatype region_result =
    Granted resource
  | Busy
  | Sleep nat  \<comment> \<open>wait for a muxed region, and go on at the resource with this number\<close>

text \<open>
  The conflict becomes the parent before its busy flag is looked at; a request that waits goes on
  inside the region it has waited for.
\<close>

function do_request_region :: "resource \<Rightarrow> resource \<Rightarrow> region_result" where
  "do_request_region parent res =
     (case do_request_resource parent res of
        Inr parent' \<Rightarrow> Granted parent'
      | Inl conflict \<Rightarrow>
          if rid conflict \<noteq> rid parent \<and> rflags conflict AND IORESOURCE_BUSY = 0
          then (case do_request_region conflict res of
                  Granted c' \<Rightarrow>
                    Granted (set_children (map (\<lambda>c. if rid c = rid conflict then c' else c) (children parent)) parent)
                | Busy \<Rightarrow> Busy
                | Sleep i \<Rightarrow> Sleep i)
          else if rflags conflict AND rflags res AND IORESOURCE_MUXED \<noteq> 0 then Sleep (rid conflict)
          else Busy)"
  by pat_completeness auto

termination
  by (relation "measure (\<lambda>(parent, res). size parent)") (auto intro: child_smaller request_conflict_child)

declare do_request_region.simps [simp del]

text \<open>The walk of \<^verbatim>\<open>__release_region\<close>; the result tells whether a waiting task is woken.\<close>

fun release_region_list :: "u32 \<Rightarrow> u32 \<Rightarrow> resource list \<Rightarrow> (resource list \<times> bool) option"
  and release_region_node :: "u32 \<Rightarrow> u32 \<Rightarrow> resource \<Rightarrow> (resource \<times> bool) option" where
  "release_region_list s e [] = None"
| "release_region_list s e (res # rest) =
     (if rstart res \<le> s \<and> rend res \<ge> e
      then if rflags res AND IORESOURCE_BUSY = 0
           then (case release_region_node s e res of None \<Rightarrow> None | Some (res', w) \<Rightarrow> Some (res' # rest, w))
           else if rstart res \<noteq> s \<or> rend res \<noteq> e then None
           else Some (rest, rflags res AND IORESOURCE_MUXED \<noteq> 0)
      else (case release_region_list s e rest of None \<Rightarrow> None | Some (cs, w) \<Rightarrow> Some (res # cs, w)))"
| "release_region_node s e (Resource i s' e' n f cs) =
     (case release_region_list s e cs of None \<Rightarrow> None | Some (cs', w) \<Rightarrow> Some (Resource i s' e' n f cs', w))"

definition do_release_region :: "resource \<Rightarrow> u32 \<Rightarrow> u32 \<Rightarrow> (resource \<times> bool) option" where
  "do_release_region parent s n = release_region_node s (s + n - 1) parent"

definition request_region :: "bool \<Rightarrow> nat \<Rightarrow> resource \<Rightarrow> u32 \<Rightarrow> u32 \<Rightarrow> string \<Rightarrow> u32 \<Rightarrow> region_result option" where
  \<comment> \<open>\<open>None\<close>: no memory for the descriptor\<close>
  "request_region mem fresh parent s n name fl =
     (if \<not> mem then None
      else Some (do_request_region parent (Resource fresh s (s + n - 1) name (IORESOURCE_BUSY OR fl) [])))"

definition do_check_region :: "bool \<Rightarrow> nat \<Rightarrow> resource \<Rightarrow> u32 \<Rightarrow> u32 \<Rightarrow> unit kresult" where
  "do_check_region mem fresh parent s n =
     (case request_region mem fresh parent s n ''check-region'' 0 of
        Some (Granted _) \<Rightarrow> Ok
      | _ \<Rightarrow> Inl EBUSY)"

section \<open>Well-formed trees\<close>

definition apart :: "resource list \<Rightarrow> bool" where
  "apart cs \<longleftrightarrow> sorted_wrt (\<lambda>a b. rend a < rstart b) cs"

fun wf_res :: "resource \<Rightarrow> bool" where
  "wf_res (Resource i s e n f cs) \<longleftrightarrow>
     s \<le> e \<and> apart cs \<and> (\<forall>c \<in> set cs. s \<le> rstart c \<and> rend c \<le> e \<and> wf_res c)"

definition span :: "resource \<Rightarrow> u32 set" where
  "span r = {rstart r .. rend r}"

definition taken :: "resource \<Rightarrow> u32 set" where
  "taken r = (\<Union>c \<in> set (children r). span c)"

fun ids :: "resource \<Rightarrow> nat list" where
  "ids (Resource i s e n f cs) = i # concat (map ids cs)"

lemma set_children_simps [simp]:
  "rid (set_children cs r) = rid r" "rstart (set_children cs r) = rstart r" "rend (set_children cs r) = rend r"
  "children (set_children cs r) = cs" "rflags (set_children cs r) = rflags r" "rname (set_children cs r) = rname r"
  by (cases r; simp)+

lemma set_range_simps [simp]:
  "rid (set_range s e r) = rid r" "rstart (set_range s e r) = s" "rend (set_range s e r) = e"
  "children (set_range s e r) = children r" "rflags (set_range s e r) = rflags r"
  by (cases r; simp)+

lemma wf_res_iff:
  "wf_res r \<longleftrightarrow> rstart r \<le> rend r \<and> apart (children r) \<and>
     (\<forall>c \<in> set (children r). rstart r \<le> rstart c \<and> rend c \<le> rend r \<and> wf_res c)"
  by (cases r) simp

lemma apart_insert:
  "apart (xs @ ys) \<Longrightarrow> \<forall>x \<in> set xs. rend x < rstart new \<Longrightarrow> \<forall>y \<in> set ys. rend new < rstart y \<Longrightarrow> apart (xs @ new # ys)"
  by (auto simp: apart_def sorted_wrt_append)

lemma apart_disjoint:
  assumes "apart cs" and "a \<in> set cs" and "b \<in> set cs" and "span a \<inter> span b \<noteq> {}"
  shows "a = b"
proof -
  obtain i j where i: "i < length cs" "a = cs ! i" and j: "j < length cs" "b = cs ! j"
    using assms(2,3) by (metis in_set_conv_nth)
  obtain x where "rstart a \<le> x" "x \<le> rend a" "rstart b \<le> x" "x \<le> rend b" using assms(4) unfolding span_def by (metis Int_iff atLeastAtMost_iff ex_in_conv)
  moreover have "p < q \<Longrightarrow> q < length cs \<Longrightarrow> rend (cs ! p) < rstart (cs ! q)" for p q
    using assms(1) by (simp add: apart_def sorted_wrt_iff_nth_less)
  ultimately show ?thesis using i j by (metis linorder_neqE_nat order.strict_trans1 order.strict_trans2 not_less)
qed

lemma link_child_correct:
  assumes "apart cs" and "\<forall>c \<in> set cs. rstart c \<le> rend c"
  shows "case link_child cs new of
      Inl c \<Rightarrow> c \<in> set cs \<and> rstart c \<le> rend new \<and> rstart new \<le> rend c
    | Inr cs' \<Rightarrow> \<exists>xs ys. cs = xs @ ys \<and> cs' = xs @ new # ys \<and>
        (\<forall>x \<in> set xs. rend x < rstart new) \<and> (\<forall>y \<in> set ys. rend new < rstart y)"
  using assms
proof (induction cs)
  case (Cons tmp rest)
  have IH: "case link_child rest new of Inl c \<Rightarrow> c \<in> set rest \<and> rstart c \<le> rend new \<and> rstart new \<le> rend c
    | Inr cs' \<Rightarrow> \<exists>xs ys. rest = xs @ ys \<and> cs' = xs @ new # ys \<and>
        (\<forall>x \<in> set xs. rend x < rstart new) \<and> (\<forall>y \<in> set ys. rend new < rstart y)"
    using Cons by (simp add: apart_def)
  consider "rstart tmp > rend new" | "\<not> rstart tmp > rend new" "rend tmp < rstart new" | "\<not> rstart tmp > rend new" "\<not> rend tmp < rstart new"
    by blast
  then show ?case
  proof cases
    case 1
    then have "\<forall>y \<in> set (tmp # rest). rend new < rstart y"
      using Cons.prems by (fastforce simp: apart_def)
    then show ?thesis using 1 by (simp add: exI [of _ "[]"])
  next
    case 2
    then show ?thesis
      using IH
      by (auto split: sum.splits) (metis append_Cons set_ConsD)
  next
    case 3
    then show ?thesis by auto
  qed
qed simp

lemma request_ok:
  assumes "wf_res root" and "wf_res new" and "do_request_resource root new = Inr root'"
  shows "\<exists>xs ys. children root = xs @ ys \<and> root' = set_children (xs @ new # ys) root \<and>
    (\<forall>x \<in> set xs. rend x < rstart new) \<and> (\<forall>y \<in> set ys. rend new < rstart y) \<and>
    rstart root \<le> rstart new \<and> rend new \<le> rend root"
  using assms link_child_correct [of "children root" new]
  by (fastforce simp: do_request_resource_def wf_res_iff [of root] wf_res_iff [of new] dest: wf_res_iff [THEN iffD1]
      split: if_splits sum.splits)

lemma request_wf:
  assumes "wf_res root" and "wf_res new" and "do_request_resource root new = Inr root'"
  shows "wf_res root'" and "taken root' = taken root \<union> span new" and "taken root \<inter> span new = {}"
proof -
  obtain xs ys where r: "children root = xs @ ys" "root' = set_children (xs @ new # ys) root"
    and xy: "\<forall>x \<in> set xs. rend x < rstart new" "\<forall>y \<in> set ys. rend new < rstart y"
    and b: "rstart root \<le> rstart new" "rend new \<le> rend root"
    using request_ok [OF assms] by blast
  show "wf_res root'"
    using assms(1,2) r b apart_insert [OF _ xy] wf_res_iff [of root'] by (auto simp: wf_res_iff [of root])
  show "taken root' = taken root \<union> span new" by (auto simp: taken_def r)
  show "taken root \<inter> span new = {}" using xy by (force simp: taken_def r span_def)
qed

lemma request_conflict:
  assumes "wf_res root" and "do_request_resource root new = Inl c"
  shows "c = root \<and> (rend new < rstart new \<or> \<not> span new \<subseteq> span root) \<or>
    c \<in> set (children root) \<and> span c \<inter> span new \<noteq> {}"
proof -
  have "\<forall>c \<in> set (children root). rstart c \<le> rend c" using assms(1) by (auto simp: wf_res_iff [of root] dest: wf_res_iff [THEN iffD1])
  from link_child_correct [OF _ this, of new] assms
  consider "c = root" "rend new < rstart new" | "c = root" "rstart new < rstart root" "rstart new \<le> rend new"
    | "c = root" "rend root < rend new" "rstart new \<le> rend new"
    | "c \<in> set (children root)" "rstart c \<le> rend new" "rstart new \<le> rend c" "rstart new \<le> rend new" "rstart c \<le> rend c"
    using \<open>\<forall>c \<in> set (children root). rstart c \<le> rend c\<close>
    by (auto simp: do_request_resource_def wf_res_iff [of root] not_less split: if_splits sum.splits)
  then show ?thesis
  proof cases
    case 4
    then have "max (rstart c) (rstart new) \<in> span c \<inter> span new" by (auto simp: span_def max_def)
    with 4 show ?thesis by blast
  qed (auto simp: span_def)
qed

section \<open>The contract of exclusive ranges\<close>

text \<open>A sequence of claims, and those of them that were granted.\<close>

fun grant_all :: "('s \<Rightarrow> 'i \<Rightarrow> 's option) \<Rightarrow> 's \<Rightarrow> 'i list \<Rightarrow> 's \<times> 'i list" where
  "grant_all claim s [] = (s, [])"
| "grant_all claim s (i # is) =
     (case claim s i of
        None \<Rightarrow> grant_all claim s is
      | Some s' \<Rightarrow> (let (t, gs) = grant_all claim s' is in (t, i # gs)))"

locale range_owner =
  fixes ok :: "'s \<Rightarrow> bool" and owned :: "'s \<Rightarrow> 'a set"
    and valid :: "'i \<Rightarrow> bool" and cells :: "'i \<Rightarrow> 'a set"
    and claim :: "'s \<Rightarrow> 'i \<Rightarrow> 's option"
  assumes claim_law: "ok s \<Longrightarrow> valid i \<Longrightarrow> claim s i = Some s' \<Longrightarrow>
    ok s' \<and> owned s \<inter> cells i = {} \<and> owned s' = owned s \<union> cells i"
begin

lemma grants_exclusive:
  assumes "ok s" and "\<forall>i \<in> set is. valid i" and "grant_all claim s is = (t, gs)"
  shows "ok t \<and> owned t = owned s \<union> (\<Union>i \<in> set gs. cells i) \<and>
    sorted_wrt (\<lambda>i j. cells i \<inter> cells j = {}) gs \<and> (\<forall>i \<in> set gs. owned s \<inter> cells i = {})"
  using assms
proof (induction "is" arbitrary: s t gs)
  case (Cons i "is")
  show ?case
  proof (cases "claim s i")
    case None
    then show ?thesis using Cons by simp
  next
    case (Some s')
    obtain gs' where rest: "grant_all claim s' is = (t, gs')" "gs = i # gs'"
      using Cons.prems(3) Some by (auto split: prod.splits)
    note law = claim_law [OF Cons.prems(1) _ Some]
    have "ok s'" "owned s \<inter> cells i = {}" "owned s' = owned s \<union> cells i" using law Cons.prems(2) by simp_all
    with Cons.IH [OF _ _ rest(1)] Cons.prems(2) rest(2) show ?thesis by (auto simp: Un_assoc)
  qed
qed simp

end

definition claim_resource :: "resource \<Rightarrow> resource \<Rightarrow> resource option" where
  "claim_resource root new = (case do_request_resource root new of Inl _ \<Rightarrow> None | Inr root' \<Rightarrow> Some root')"

interpretation rt: range_owner wf_res taken wf_res span claim_resource
proof (unfold_locales, goal_cases)
  case (1 root new root')
  then show ?case using request_wf [of root new root'] by (auto simp: claim_resource_def split: sum.splits)
qed

section \<open>The free slots\<close>











lemma wf_children: "wf_res r \<Longrightarrow> c \<in> set (children r) \<Longrightarrow> rstart r \<le> rstart c \<and> rstart c \<le> rend c \<and> rend c \<le> rend r"
  by (metis wf_res_iff)


section \<open>Reserving around what is there\<close>

definition hits :: "resource \<Rightarrow> u32 \<Rightarrow> u32 \<Rightarrow> nat" where
  "hits root s e = length (filter (\<lambda>c. span c \<inter> {s..e} \<noteq> {}) (children root))"

text \<open>What is added to \<open>root\<close> lies within \<open>X\<close>.\<close>

definition grown_in :: "u32 set \<Rightarrow> resource \<Rightarrow> resource \<Rightarrow> bool" where
  "grown_in X root root' \<longleftrightarrow>
     wf_res root' \<and> rstart root' = rstart root \<and> rend root' = rend root \<and> rid root' = rid root \<and>
     taken root' = taken root \<union> X \<and>
     (\<forall>Y. X \<inter> Y = {} \<longrightarrow>
        filter (\<lambda>c. span c \<inter> Y \<noteq> {}) (children root') = filter (\<lambda>c. span c \<inter> Y \<noteq> {}) (children root))"

lemma grown_request:
  assumes "wf_res root" and "wf_res new" and "do_request_resource root new = Inr root'"
  shows "grown_in (span new) root root'"
proof -
  obtain xs ys where "children root = xs @ ys" "root' = set_children (xs @ new # ys) root" using request_ok [OF assms] by blast
  with request_wf [OF assms] show ?thesis by (auto simp: grown_in_def)
qed

lemma grown_trans:
  assumes "grown_in X r1 r2" and "grown_in Y r2 r3"
  shows "grown_in (X \<union> Y) r1 r3"
  using assms by (auto simp: grown_in_def Int_Un_distrib2)

text \<open>The two parts of a range on both sides of a conflict, and the conflict's own part of it.\<close>

lemma split_range:
  fixes s e a b :: u32
  assumes "a \<le> b" and "{a..b} \<inter> {s..e} \<noteq> {}"
  shows "{s..e} = (if a > s then {s..a - 1} else {}) \<union> ({a..b} \<inter> {s..e}) \<union> (if b < e then {b + 1..e} else {})"
    and "a > s \<Longrightarrow> {s..a - 1} \<inter> {a..b} = {} \<and> s \<le> a - 1 \<and> a - 1 \<le> e" and "b < e \<Longrightarrow> {b + 1..e} \<inter> {a..b} = {} \<and> b + 1 \<le> e \<and> s \<le> b + 1"
    and "a > s \<Longrightarrow> {s..a - 1} \<inter> {b + 1..e} = {} \<or> \<not> b < e"
proof -
  obtain x where x: "a \<le> x" "x \<le> b" "s \<le> x" "x \<le> e"
    using assms(2) by (metis Int_iff atLeastAtMost_iff ex_in_conv)
  have dec: "unat (a - 1) + 1 = unat a" if "a > s" using that unat_dec [of a] by (metis word_gt_0_no word_zero_le order.strict_trans1)
  have inc: "unat (b + 1) = unat b + 1" if "b < e"
    using that unat_bound [of e] by (intro unat_inc) (simp add: word_less_nat_alt)
  note [simp] = word_le_nat_alt word_less_nat_alt
  show "{s..e} = (if a > s then {s..a - 1} else {}) \<union> ({a..b} \<inter> {s..e}) \<union> (if b < e then {b + 1..e} else {})"
    using x dec inc assms(1) by (auto simp del: atLeastatMost_subset_iff)
  show "a > s \<Longrightarrow> {s..a - 1} \<inter> {a..b} = {} \<and> s \<le> a - 1 \<and> a - 1 \<le> e" using x dec by auto
  show "b < e \<Longrightarrow> {b + 1..e} \<inter> {a..b} = {} \<and> b + 1 \<le> e \<and> s \<le> b + 1" using x inc by auto
  show "a > s \<Longrightarrow> {s..a - 1} \<inter> {b + 1..e} = {} \<or> \<not> b < e" using x dec inc assms(1) by auto
qed

lemma hits_less:
  assumes "c \<in> set (children root)" and "span c \<inter> {s..e} \<noteq> {}" and "{s'..e'} \<subseteq> {s..e}" and "span c \<inter> {s'..e'} = {}"
  shows "hits root s' e' < hits root s e"
proof -
  obtain xs ys where c: "children root = xs @ c # ys" using assms(1) by (meson split_list)
  have le: "length (filter (\<lambda>c. span c \<inter> {s'..e'} \<noteq> {}) zs) \<le> length (filter (\<lambda>c. span c \<inter> {s..e} \<noteq> {}) zs)" for zs
  proof (induction zs)
    case (Cons z zs)
    have "span z \<inter> {s'..e'} \<subseteq> span z \<inter> {s..e}" using assms(3) by blast
    with Cons show ?case by auto
  qed simp
  show ?thesis using assms(2,4) le [of xs] le [of ys] by (simp add: hits_def c)
qed

lemma hits_grown: "grown_in X r1 r2 \<Longrightarrow> X \<inter> {s..e} = {} \<Longrightarrow> hits r2 s e = hits r1 s e"
  by (simp add: grown_in_def hits_def)

lemma grown_refl: "wf_res r \<Longrightarrow> grown_in {} r r"
  by (simp add: grown_in_def)

lemma grown_more: "grown_in X r r' \<Longrightarrow> Z \<subseteq> taken r \<Longrightarrow> grown_in (X \<union> Z) r r'"
  by (auto simp: grown_in_def Int_Un_distrib2)

lemma reserve_split_correct:
  assumes "wf_res root" and "rstart root \<le> s" and "s \<le> e" and "e \<le> rend root" and "hits root s e < fuel"
  shows "\<exists>root' fresh'. reserve_split fuel (\<lambda>_. True) fresh name s e root = Some (root', fresh') \<and>
    wf_res root' \<and> grown_in {s..e} root root'"
  using assms
proof (induction fuel arbitrary: fresh s e root)
  case (Suc fuel)
  let ?new = "Resource fresh s e name IORESOURCE_BUSY []"
  have new: "wf_res ?new" "span ?new = {s..e}" using Suc.prems(3) by (simp_all add: apart_def span_def)
  show ?case
  proof (cases "do_request_resource root ?new")
    case (Inr root')
    then show ?thesis using grown_request [OF Suc.prems(1) new(1) Inr] new(2) by (simp add: grown_in_def)
  next
    case (Inl c)
    have "c \<in> set (children root)" and meet: "span c \<inter> {s..e} \<noteq> {}"
      using request_conflict [OF Suc.prems(1) Inl] Suc.prems(2-4) new(2) by (auto simp: span_def [of root])
    then have c: "rstart root \<le> rstart c" "rstart c \<le> rend c" "rend c \<le> rend root" using wf_children [OF Suc.prems(1)] by auto
    note split = split_range [OF c(2), of s e, folded span_def, OF meet]
    have cov: "span c \<subseteq> taken root" using \<open>c \<in> set (children root)\<close> by (auto simp: taken_def)
    let ?L = "if s < rstart c then {s..rstart c - 1} else {}" and ?R = "if rend c < e then {rend c + 1..e} else {}"
    have le: "hits root s e \<le> fuel" using Suc.prems(5) by simp
    show ?thesis
    proof (cases "rstart c \<le> s \<and> e \<le> rend c")
      case True
      then have "{s..e} \<subseteq> span c" by (auto simp: span_def)
      then have "{s..e} \<subseteq> taken root" using cov by blast
      then show ?thesis
        using True Inl Suc.prems(1) grown_more [OF grown_refl [OF Suc.prems(1)]] by simp
    next
      case False
      have "\<exists>root1 fresh1. (if rstart c > s then reserve_split fuel (\<lambda>_. True) (fresh + 1) name s (rstart c - 1) root
          else Some (root, fresh + 1)) = Some (root1, fresh1) \<and> wf_res root1 \<and> grown_in ?L root root1"
      proof (cases "rstart c > s")
        case True
        note side = split(2) [OF True]
        have "{s..rstart c - 1} \<subseteq> {s..e}" using side by auto
        with hits_less [OF \<open>c \<in> set (children root)\<close> meet] side have "hits root s (rstart c - 1) < hits root s e" by blast
        with Suc.IH [OF Suc.prems(1,2), of "rstart c - 1"] side Suc.prems(4) le True show ?thesis by auto
      qed (use Suc.prems(1) grown_refl in auto)
      then obtain root1 fresh1 where 1: "(if rstart c > s then reserve_split fuel (\<lambda>_. True) (fresh + 1) name s (rstart c - 1) root
          else Some (root, fresh + 1)) = Some (root1, fresh1)" "wf_res root1" "grown_in ?L root root1" by blast
      have "\<exists>root2 fresh2. (if rend c < e then reserve_split fuel (\<lambda>_. True) fresh1 name (rend c + 1) e root1
          else Some (root1, fresh1)) = Some (root2, fresh2) \<and> wf_res root2 \<and> grown_in ?R root1 root2"
      proof (cases "rend c < e")
        case True
        note side = split(3) [OF True]
        have "{rend c + 1..e} \<subseteq> {s..e}" using side by auto
        with hits_less [OF \<open>c \<in> set (children root)\<close> meet] side have "hits root (rend c + 1) e < hits root s e" by blast
        moreover have "hits root1 (rend c + 1) e = hits root (rend c + 1) e"
          using split(4) True by (intro hits_grown [OF 1(3)]) auto
        moreover have "rstart root1 = rstart root" "rend root1 = rend root" using 1(3) by (simp_all add: grown_in_def)
        ultimately show ?thesis
          using Suc.IH [OF 1(2), of "rend c + 1" e fresh1] side Suc.prems(2,4) le True by auto
      qed (use 1(2) grown_refl in auto)
      then obtain root2 fresh2 where 2: "(if rend c < e then reserve_split fuel (\<lambda>_. True) fresh1 name (rend c + 1) e root1
          else Some (root1, fresh1)) = Some (root2, fresh2)" "wf_res root2" "grown_in ?R root1 root2" by blast
      have "?L \<union> ?R \<union> (span c \<inter> {s..e}) = {s..e}" using split(1) by blast
      with grown_more [OF grown_trans [OF 1(3) 2(3)], of "span c \<inter> {s..e}"] cov have "grown_in {s..e} root root2" by auto
      moreover have "reserve_split (Suc fuel) (\<lambda>_. True) fresh name s e root = Some (root2, fresh2)"
        using Inl False 1(1) 2(1) by (simp only: reserve_split.simps sum.case if_False if_True option.case prod.case simp_thms)
      ultimately show ?thesis using 2(2) by blast
    qed
  qed
qed simp

section \<open>Insertion\<close>

fun entries :: "resource \<Rightarrow> (nat \<times> u32 \<times> u32) list" where
  "entries (Resource i s e n f cs) = (i, s, e) # concat (map entries cs)"

lemma entries_eq: "entries r = (rid r, rstart r, rend r) # concat (map entries (children r))"
  by (cases r) simp

lemma ids_eq: "ids r = rid r # concat (map ids (children r))"
  by (cases r) simp

lemma rid_in_ids: "rid r \<in> set (ids r)"
  by (cases r) simp

lemma link_conflict_split:
  "link_child cs new = Inl c \<Longrightarrow> \<exists>xs ys. cs = xs @ c # ys \<and> (\<forall>x \<in> set xs. rend x < rstart new)"
proof (induction cs)
  case (Cons tmp rest)
  show ?case
  proof (cases "rend tmp < rstart new \<and> \<not> rstart tmp > rend new")
    case True
    then obtain xs ys where "rest = xs @ c # ys" "\<forall>x \<in> set xs. rend x < rstart new" using Cons by (auto split: sum.splits)
    then show ?thesis using True by (intro exI [of _ "tmp # xs"] exI [of _ ys]) simp
  next
    case False
    then have "c = tmp" using Cons.prems by (auto split: if_splits)
    then show ?thesis by (intro exI [of _ "[]"] exI [of _ rest]) simp
  qed
qed simp

lemma take_covered_correct:
  assumes "apart cs" and "\<forall>c \<in> set cs. rstart c \<le> rend c" and "take_covered cs new = Inr (covered, behind)"
  shows "cs = covered @ behind \<and> (\<forall>c \<in> set covered. rstart new \<le> rstart c \<and> rend c \<le> rend new) \<and>
    (\<forall>c \<in> set behind. rend new < rstart c)"
  using assms
proof (induction cs arbitrary: covered)
  case (Cons c rest)
  show ?case
  proof (cases rest)
    case Nil
    then show ?thesis using Cons.prems by (auto split: if_splits)
  next
    case (Cons sib rest')
    have "\<forall>x \<in> set rest. rstart sib \<le> rstart x"
      using Cons.prems(1,2) unfolding \<open>rest = sib # rest'\<close> apart_def by (fastforce intro: order.strict_implies_order order.strict_trans1)
    then show ?thesis
      using Cons.prems Cons.IH Cons
      by (auto simp: apart_def split: if_splits sum.splits intro: order.strict_trans2)
  qed
qed simp

lemma distinct_child_ids:
  assumes "distinct (ids r)" and "children r = xs @ c # ys" and "x \<in> set xs \<union> set ys"
  shows "rid x \<noteq> rid c"
  using assms rid_in_ids [of x] rid_in_ids [of c] by (fastforce simp: ids_eq [of r])

lemma replace_child:
  assumes "distinct (ids r)" and "children r = xs @ c # ys"
  shows "map (\<lambda>x. if rid x = rid c then c' else x) (children r) = xs @ c' # ys"
  using distinct_child_ids [OF assms] by (simp add: assms(2) map_idI)

lemma split_child:
  assumes "distinct (ids r)" and "children r = xs @ c # ys"
  shows "takeWhile (\<lambda>x. rid x \<noteq> rid c) (children r) = xs" and "dropWhile (\<lambda>x. rid x \<noteq> rid c) (children r) = c # ys"
  using distinct_child_ids [OF assms] by (simp_all add: assms(2) takeWhile_tail dropWhile_append3)

definition inserted :: "resource \<Rightarrow> resource \<Rightarrow> resource \<Rightarrow> bool" where
  "inserted parent new parent' \<longleftrightarrow>
     wf_res parent' \<and> rid parent' = rid parent \<and> rstart parent' = rstart parent \<and> rend parent' = rend parent \<and>
     mset (entries parent') = add_mset (rid new, rstart new, rend new) (mset (entries parent))"

lemma insertedI:
  assumes "wf_res parent" and "children parent = xs @ ms @ ys" and "parent' = set_children (xs @ ns @ ys) parent"
    and "apart (xs @ ns @ ys)" and "\<forall>c \<in> set ns. rstart parent \<le> rstart c \<and> rend c \<le> rend parent \<and> wf_res c"
    and "mset (concat (map entries ns)) = add_mset (rid new, rstart new, rend new) (mset (concat (map entries ms)))"
  shows "inserted parent new parent'"
  using assms wf_res_iff [of parent'] wf_res_iff [of parent]
  by (auto simp: inserted_def entries_eq [of "set_children (xs @ ns @ ys) parent"] entries_eq [of parent])

lemma apart_parts: "apart (xs @ ys) \<longleftrightarrow> apart xs \<and> apart ys \<and> (\<forall>x \<in> set xs. \<forall>y \<in> set ys. rend x < rstart y)"
  by (simp add: apart_def sorted_wrt_append)

lemma adopt_correct:
  assumes wf: "wf_res parent" and new: "wf_res new" "children new = []" and dist: "distinct (ids parent)"
    and ch: "children parent = xs @ first # ys" "\<forall>x \<in> set xs. rend x < rstart new"
    and inside: "rstart parent \<le> rstart new" "rend new \<le> rend parent"
    and run: "adopt parent first new = Inr parent'"
  shows "inserted parent new parent'"
proof -
  have ap: "apart (xs @ first # ys)" and cs: "\<forall>c \<in> set (xs @ first # ys). rstart c \<le> rend c \<and> wf_res c"
    using wf wf_children [OF wf] unfolding ch(1) [symmetric] by (auto simp: wf_res_iff [of parent])
  obtain covered behind where t: "take_covered (first # ys) new = Inr (covered, behind)"
    and p: "parent' = set_children (xs @ set_children covered new # behind) parent"
    using run by (auto simp: adopt_def split_child [OF dist ch(1)] split: sum.splits prod.splits)
  have "first # ys = covered @ behind \<and> (\<forall>c \<in> set covered. rstart new \<le> rstart c \<and> rend c \<le> rend new) \<and>
      (\<forall>c \<in> set behind. rend new < rstart c)"
    using ap cs by (intro take_covered_correct t) (auto simp: apart_parts)
  then have c: "first # ys = covered @ behind" "\<forall>c \<in> set covered. rstart new \<le> rstart c \<and> rend c \<le> rend new"
    "\<forall>c \<in> set behind. rend new < rstart c" by auto
  have "apart (xs @ covered @ behind)" using ap c(1) by simp
  then have parts: "apart xs" "apart covered" "apart behind" "\<forall>x \<in> set xs. \<forall>y \<in> set behind. rend x < rstart y"
    by (auto simp: apart_parts)
  have "wf_res (set_children covered new)"
    using parts(2) c(1,2) cs new(1) wf_res_iff [of "set_children covered new"] wf_res_iff [of new] by auto
  moreover have "apart (xs @ [set_children covered new] @ behind)"
    using parts ch(2) c(3) by (auto simp: apart_parts) (simp_all add: apart_def)
  ultimately show ?thesis
    using inside ch(1) c(1)
    by (intro insertedI [OF wf, of xs covered behind _ "[set_children covered new]"])
       (auto simp: p entries_eq [of "set_children covered new"])
qed

lemma insert_correct:
  "do_insert_resource parent new = Inr parent' \<Longrightarrow> wf_res parent \<Longrightarrow> wf_res new \<Longrightarrow> children new = [] \<Longrightarrow>
    distinct (ids parent) \<Longrightarrow> inserted parent new parent'"
proof (induction parent new arbitrary: parent' rule: do_insert_resource.induct)
  case (1 parent new)
  show ?case
  proof (cases "do_request_resource parent new")
    case (Inr p)
    then have p: "parent' = p" using "1.prems"(1) by (simp add: do_insert_resource.simps [of parent])
    obtain xs ys where r: "children parent = xs @ ys" "parent' = set_children (xs @ new # ys) parent"
      "rstart parent \<le> rstart new" "rend new \<le> rend parent"
      using request_ok [OF "1.prems"(2,3) Inr] p by blast
    have "wf_res parent'" using request_wf(1) [OF "1.prems"(2,3) Inr] p by simp
    then have "apart (xs @ new # ys)" unfolding wf_res_iff [of parent'] by (simp add: r(2))
    then show ?thesis
      using r "1.prems"(3,4) by (intro insertedI [OF "1.prems"(2), of xs "[]" ys _ "[new]"]) (auto simp: entries_eq [of new])
  next
    case (Inl first)
    have ne: "rid first \<noteq> rid parent" "rid first \<noteq> rid new"
      using "1.prems"(1) Inl by (auto simp: do_insert_resource.simps [of parent] split: if_splits)
    then have "link_child (children parent) new = Inl first" and inside: "rstart parent \<le> rstart new" "rend new \<le> rend parent"
      using Inl by (auto simp: do_request_resource_def not_less split: if_splits sum.splits)
    then obtain xs ys where ch: "children parent = xs @ first # ys" "\<forall>x \<in> set xs. rend x < rstart new"
      using link_conflict_split by blast
    show ?thesis
    proof (cases "(rstart first > rstart new \<or> rend first < rend new) \<or> rstart first = rstart new \<and> rend first = rend new")
      case True
      then have "adopt parent first new = Inr parent'"
        using "1.prems"(1) Inl ne by (auto simp: do_insert_resource.simps [of parent] split: if_splits)
      then show ?thesis by (intro adopt_correct [OF "1.prems"(2-5) ch inside])
    next
      case False
      then obtain f where f: "do_insert_resource first new = Inr f"
        and p: "parent' = set_children (map (\<lambda>c. if rid c = rid first then f else c) (children parent)) parent"
        using "1.prems"(1) Inl ne by (auto simp: do_insert_resource.simps [of parent] split: if_splits sum.splits)
      have wf: "wf_res first" "distinct (ids first)" and ap: "apart (xs @ first # ys)"
        and fb: "rstart parent \<le> rstart first" "rend first \<le> rend parent"
        using "1.prems"(2,5) ch(1) by (auto simp: wf_res_iff [of parent] ids_eq [of parent])
      have ins: "inserted first new f"
        using False by (intro "1.IH" [OF Inl ne _ _ f wf(1) "1.prems"(3,4) wf(2)]) auto
      have "apart (xs @ [f] @ ys)" using ap ins by (auto simp: apart_parts inserted_def) (simp_all add: apart_def inserted_def)
      then show ?thesis
        using ins fb ch(1) by (intro insertedI [OF "1.prems"(2), of xs "[first]" ys _ "[f]"])
          (auto simp: p [unfolded replace_child [OF "1.prems"(5) ch(1)]] inserted_def)
    qed
  qed
qed

section \<open>Properties\<close>

text \<open>
  C18: Reservations are exclusive.  Whatever sequence of requests is made on a well-formed resource, the
  granted ranges are disjoint from each other and from what was reserved before, they lie within the
  resource, and the reserved addresses grow by exactly the granted ranges.
\<close>

theorem resource_requests_exclusive:
  assumes "wf_res root" and "\<forall>r \<in> set news. wf_res r" and "grant_all claim_resource root news = (root', granted)"
  shows "wf_res root' \<and> taken root' = taken root \<union> (\<Union>r \<in> set granted. span r) \<and>
    sorted_wrt (\<lambda>a b. span a \<inter> span b = {}) granted \<and> (\<forall>r \<in> set granted. taken root \<inter> span r = {})"
  by (rule rt.grants_exclusive [OF assms])

definition demo_root :: resource where
  "demo_root = Resource 0 0x1000 0x1FFF ''PCI mem'' 0x200 [Resource 1 0x1100 0x11FF ''eth0'' 0x200 []]"

lemma demo_root_wf: "wf_res demo_root" "distinct (ids demo_root)"
  by (simp_all add: demo_root_def apart_def)

theorem resource_requests_exclusive_witness:
  "snd (grant_all claim_resource demo_root
     [Resource 2 0x1180 0x1280 ''a'' 0 [], Resource 3 0x1200 0x12FF ''b'' 0 [], Resource 4 0x12FF 0x1300 ''c'' 0 []]) =
     [Resource 3 0x1200 0x12FF ''b'' 0 []] \<and>
   taken demo_root \<inter> {0x1200..0x12FF} = {}"
proof -
  let ?news = "[Resource 2 0x1180 0x1280 ''a'' 0 [], Resource 3 0x1200 0x12FF ''b'' 0 [], Resource 4 0x12FF 0x1300 ''c'' 0 []]"
  have run: "grant_all claim_resource demo_root ?news =
    (Resource 0 0x1000 0x1FFF ''PCI mem'' 0x200 [Resource 1 0x1100 0x11FF ''eth0'' 0x200 [], Resource 3 0x1200 0x12FF ''b'' 0 []],
     [Resource 3 0x1200 0x12FF ''b'' 0 []])"
    by (simp add: claim_resource_def do_request_resource_def demo_root_def)
  have "\<forall>r \<in> set ?news. wf_res r" by (simp add: apart_def)
  from resource_requests_exclusive [OF demo_root_wf(1) this run] run show ?thesis by (simp add: span_def)
qed

text \<open>
  A request is granted exactly when its range lies in the parent and is free, the conflict reported
  otherwise really overlaps (or is the parent itself), and releasing a granted resource gives back the
  tree as it was.
\<close>

theorem request_resource_exact:
  assumes "wf_res root" and "wf_res new" and "rid new \<notin> rid ` set (children root)"
  shows "case do_request_resource root new of
      Inr root' \<Rightarrow> span new \<subseteq> span root \<and> span new \<inter> taken root = {} \<and> do_release_resource root' (rid new) = Inr root
    | Inl c \<Rightarrow> (c = root \<and> \<not> span new \<subseteq> span root) \<or> (c \<in> set (children root) \<and> span c \<inter> span new \<noteq> {})"
proof (cases "do_request_resource root new")
  case (Inl c)
  moreover have "rstart new \<le> rend new" using assms(2) by (simp add: wf_res_iff [of new])
  ultimately show ?thesis using request_conflict [OF assms(1) Inl] by auto
next
  case (Inr root')
  obtain xs ys where r: "children root = xs @ ys" "root' = set_children (xs @ new # ys) root"
    "rstart root \<le> rstart new" "rend new \<le> rend root"
    using request_ok [OF assms(1,2) Inr] by blast
  have "rid new \<notin> rid ` set xs" using assms(3) r(1) by auto
  then have "unlink_child (xs @ new # ys) (rid new) = Some (xs @ ys)" by (induction xs) auto
  moreover have "set_children (xs @ ys) (set_children cs root) = root" for cs using r(1) by (cases root) simp
  ultimately have "do_release_resource root' (rid new) = Inr root" by (simp add: do_release_resource_def r(2))
  moreover have "span new \<subseteq> span root" using r(3,4) by (auto simp: span_def)
  ultimately show ?thesis using Inr request_wf(3) [OF assms(1,2) Inr] by auto
qed

theorem request_resource_exact_witness:
  "do_release_resource (Resource 0 0x1000 0x1FFF ''PCI mem'' 0x200
     [Resource 1 0x1100 0x11FF ''eth0'' 0x200 [], Resource 3 0x1200 0x12FF ''b'' 0 []]) 3 = Inr demo_root"
proof -
  have "do_request_resource demo_root (Resource 3 0x1200 0x12FF ''b'' 0 []) = Inr (Resource 0 0x1000 0x1FFF ''PCI mem'' 0x200
      [Resource 1 0x1100 0x11FF ''eth0'' 0x200 [], Resource 3 0x1200 0x12FF ''b'' 0 []])"
    by (simp add: do_request_resource_def demo_root_def)
  with request_resource_exact [OF demo_root_wf(1), of "Resource 3 0x1200 0x12FF ''b'' 0 []"] show ?thesis
    by (simp add: apart_def demo_root_def)
qed




text \<open>
  C20: Inserting a resource keeps the tree well-formed and loses nothing: every resource of the tree is still
  there with its range, the new one has been added, and what the new one covers is now below it.
\<close>

theorem insert_resource_keeps_tree:
  assumes "wf_res parent" and "distinct (ids parent)" and "wf_res new" and "children new = []"
    and "insert_resource parent new = (res, parent')"
  shows "(res = Ok \<longrightarrow> wf_res parent' \<and>
      mset (entries parent') = add_mset (rid new, rstart new, rend new) (mset (entries parent))) \<and>
    (res \<noteq> Ok \<longrightarrow> res = Inl EBUSY \<and> parent' = parent)"
  using assms insert_correct [of parent new]
  by (auto simp: insert_resource_def inserted_def split: sum.splits)

theorem insert_resource_keeps_tree_witness:
  "insert_resource demo_root (Resource 5 0x1080 0x14FF ''bridge'' 0x200 []) =
     (Ok, Resource 0 0x1000 0x1FFF ''PCI mem'' 0x200
       [Resource 5 0x1080 0x14FF ''bridge'' 0x200 [Resource 1 0x1100 0x11FF ''eth0'' 0x200 []]]) \<and>
   wf_res (snd (insert_resource demo_root (Resource 5 0x1080 0x14FF ''bridge'' 0x200 [])))"
proof -
  have run: "insert_resource demo_root (Resource 5 0x1080 0x14FF ''bridge'' 0x200 []) =
     (Ok, Resource 0 0x1000 0x1FFF ''PCI mem'' 0x200
       [Resource 5 0x1080 0x14FF ''bridge'' 0x200 [Resource 1 0x1100 0x11FF ''eth0'' 0x200 []]])"
    by (simp add: insert_resource_def do_insert_resource.simps do_request_resource_def adopt_def demo_root_def Let_def)
  from insert_resource_keeps_tree [OF demo_root_wf _ _ run] run show ?thesis by (simp add: apart_def)
qed

text \<open>
  C21: \<^verbatim>\<open>reserve_region_with_split\<close> ends and reserves exactly the gaps.  For a range within the root and
  enough memory, a recursion of the depth of the number of children that meet the range is enough; afterwards
  the tree is well-formed and the reserved addresses are the old ones together with the whole range.
\<close>

theorem reserve_region_covers:
  assumes "wf_res root" and "rstart root \<le> s" and "s \<le> e" and "e \<le> rend root" and "hits root s e < fuel"
  shows "\<exists>root' fresh'. reserve_split fuel (\<lambda>_. True) fresh name s e root = Some (root', fresh') \<and>
    wf_res root' \<and> taken root' = taken root \<union> {s..e}"
  using reserve_split_correct [OF assms, of fresh name] unfolding grown_in_def by blast

theorem reserve_region_covers_witness:
  "\<exists>root' fresh'. reserve_split (Suc (Suc 0)) (\<lambda>_. True) 7 ''reserved'' 0x1000 0x1FFF demo_root = Some (root', fresh') \<and>
     taken root' = taken demo_root \<union> {0x1000..0x1FFF} \<and> length (children root') = 3"
proof -
  have run: "reserve_split (Suc (Suc 0)) (\<lambda>_. True) 7 ''reserved'' 0x1000 0x1FFF demo_root =
    Some (Resource 0 0x1000 0x1FFF ''PCI mem'' 0x200
      [Resource 8 0x1000 0x10FF ''reserved'' 0x80000000 [], Resource 1 0x1100 0x11FF ''eth0'' 0x200 [],
       Resource 9 0x1200 0x1FFF ''reserved'' 0x80000000 []], 10)"
    by (simp add: do_request_resource_def demo_root_def)
  have "hits demo_root 0x1000 0x1FFF < Suc (Suc 0)" by (simp add: hits_def demo_root_def)
  moreover have "rstart demo_root \<le> 0x1000" "(0x1000 :: u32) \<le> 0x1FFF" "0x1FFF \<le> rend demo_root" by (simp_all add: demo_root_def)
  ultimately have "\<exists>root' fresh'. reserve_split (Suc (Suc 0)) (\<lambda>_. True) 7 ''reserved'' 0x1000 0x1FFF demo_root = Some (root', fresh') \<and>
      wf_res root' \<and> taken root' = taken demo_root \<union> {0x1000..0x1FFF}"
    by (intro reserve_region_covers [OF demo_root_wf(1)])
  then show ?thesis unfolding run by auto
qed

section \<open>Where the code fails\<close>

text \<open>
  A range that begins before the root conflicts with the root itself, and the part before the root is
  tried again and again: the recursion has no end.
\<close>

theorem reserve_region_never_returns:
  assumes "s < rstart root"
  shows "reserve_split fuel (\<lambda>_. True) fresh name s e root = None"
proof (induction fuel arbitrary: e fresh)
  case (Suc fuel)
  let ?new = "Resource fresh s e name IORESOURCE_BUSY []"
  have "do_request_resource root ?new = Inl root" using assms by (simp add: do_request_resource_def)
  then show ?case using Suc.IH assms by (simp add: not_le)
qed simp

text \<open>
  A size near the end of the address range wraps the computed end around; the slot is taken for
  free, and the request that cannot fail in \<^verbatim>\<open>reallocate_resource\<close> runs into its \<^verbatim>\<open>BUG_ON\<close>.
\<close>

theorem reallocate_wraps_into_bug:
  "reallocate_resource (Resource 0 0 0xFFFFFFFF ''mem'' 0x200 [Resource 1 0x100 0x200 ''dev'' 0x200 []])
     (Resource 1 0x100 0x200 ''dev'' 0x200 []) 0xFFFFF000
     \<lparr>cmin = 0x2000, cmax = 0xFFFFFFFF, calign = 1, alignf = simple_align_resource\<rparr> = None"
  by (simp add: reallocate_resource_def do_find_resource_def try_gap_def resource_clip_def ALIGN_def
      simple_align_resource_def resource_contains_def do_release_resource_def do_request_resource_def Let_def)

end
