(* ===== verification/File_Locks.thy ===== *)
theory File_Locks
  imports Kernel_Prelude
begin

text \<open>
  Advisory and mandatory file locks, \<^verbatim>\<open>fs/locks.c\<close>.  The list \<^verbatim>\<open>inode->i_flock\<close> is a list of
  \<open>file_lock\<close> records; \<open>fl_id\<close> stands for the address of the structure, which is what the code compares
  and stores through.  \<open>flock_state\<close> holds the lists of all inodes and the waiting requests, each with
  the lock in its \<^verbatim>\<open>fl_next\<close>; the lists \<^verbatim>\<open>fl_block\<close> of a lock and the global \<^verbatim>\<open>blocked_list\<close> are the
  parts of it that wait for that lock and for any POSIX lock; the newest comes first, as in \<^verbatim>\<open>blocked_list\<close>.  A section under
  \<^verbatim>\<open>file_lock_lock\<close> is one function.  Offsets are integers between 0 and \<open>OFFSET_MAX\<close>; the conversions
  from user requests, where sums can leave that range, wrap around as C does.  Lock managers
  (\<^verbatim>\<open>fl_lmops\<close>, set by lockd only) and leases, beyond their place in the list, are not modelled.
\<close>

section \<open>Data\<close>

record file_lock =
  fl_id :: nat
  fl_owner :: nat  \<comment> \<open>the table of open files of the process; 0 is NULL\<close>
  fl_flags :: u8
  fl_type :: u8
  fl_pid :: nat
  fl_file :: nat
  fl_start :: int
  fl_end :: int

abbreviation (input) FL_POSIX :: u8 where "FL_POSIX \<equiv> 1"
abbreviation (input) FL_FLOCK :: u8 where "FL_FLOCK \<equiv> 2"
abbreviation (input) FL_ACCESS :: u8 where "FL_ACCESS \<equiv> 8"
abbreviation (input) FL_EXISTS :: u8 where "FL_EXISTS \<equiv> 16"
abbreviation (input) FL_LEASE :: u8 where "FL_LEASE \<equiv> 32"
abbreviation (input) FL_CLOSE :: u8 where "FL_CLOSE \<equiv> 64"
abbreviation (input) FL_SLEEP :: u8 where "FL_SLEEP \<equiv> 128"

abbreviation (input) F_RDLCK :: u8 where "F_RDLCK \<equiv> 0"
abbreviation (input) F_WRLCK :: u8 where "F_WRLCK \<equiv> 1"
abbreviation (input) F_UNLCK :: u8 where "F_UNLCK \<equiv> 2"
abbreviation (input) LOCK_MAND :: u8 where "LOCK_MAND \<equiv> 32"

definition OFFSET_MAX :: int where "OFFSET_MAX = 2 ^ 63 - 1"
definition OFFT_OFFSET_MAX :: int where "OFFT_OFFSET_MAX = 2 ^ 31 - 1"

definition has_flag :: "file_lock \<Rightarrow> u8 \<Rightarrow> bool" where
  "has_flag fl m \<longleftrightarrow> fl_flags fl AND m \<noteq> 0"

definition IS_POSIX :: "file_lock \<Rightarrow> bool" where "IS_POSIX fl \<longleftrightarrow> has_flag fl FL_POSIX"
definition IS_FLOCK :: "file_lock \<Rightarrow> bool" where "IS_FLOCK fl \<longleftrightarrow> has_flag fl FL_FLOCK"
definition IS_LEASE :: "file_lock \<Rightarrow> bool" where "IS_LEASE fl \<longleftrightarrow> has_flag fl FL_LEASE"

type_synonym waits = "(file_lock \<times> file_lock) list"

record flock_state =
  i_flock :: "nat \<Rightarrow> file_lock list"
  waits :: waits

datatype lock_outcome =
    Lock_ret "unit kresult"
  | FILE_LOCK_DEFERRED
  | Lock_bug  \<comment> \<open>\<^verbatim>\<open>BUG_ON\<close> of \<^verbatim>\<open>locks_insert_block\<close>\<close>

section \<open>Conflicts\<close>

definition locks_overlap :: "file_lock \<Rightarrow> file_lock \<Rightarrow> bool" where
  "locks_overlap fl1 fl2 \<longleftrightarrow> fl_end fl1 \<ge> fl_start fl2 \<and> fl_end fl2 \<ge> fl_start fl1"

definition posix_same_owner :: "file_lock \<Rightarrow> file_lock \<Rightarrow> bool" where
  "posix_same_owner fl1 fl2 \<longleftrightarrow> fl_owner fl1 = fl_owner fl2"

definition locks_conflict :: "file_lock \<Rightarrow> file_lock \<Rightarrow> bool" where
  "locks_conflict caller_fl sys_fl \<longleftrightarrow> fl_type sys_fl = F_WRLCK \<or> fl_type caller_fl = F_WRLCK"

definition posix_locks_conflict :: "file_lock \<Rightarrow> file_lock \<Rightarrow> bool" where
  "posix_locks_conflict caller_fl sys_fl =
     (if \<not> IS_POSIX sys_fl \<or> posix_same_owner caller_fl sys_fl then False
      else if \<not> locks_overlap caller_fl sys_fl then False
      else locks_conflict caller_fl sys_fl)"

definition flock_locks_conflict :: "file_lock \<Rightarrow> file_lock \<Rightarrow> bool" where
  "flock_locks_conflict caller_fl sys_fl =
     (if \<not> IS_FLOCK sys_fl \<or> fl_file caller_fl = fl_file sys_fl then False
      else if fl_type caller_fl AND LOCK_MAND \<noteq> 0 \<or> fl_type sys_fl AND LOCK_MAND \<noteq> 0 then False
      else locks_conflict caller_fl sys_fl)"

section \<open>Waiting\<close>

definition locks_delete_block :: "nat \<Rightarrow> waits \<Rightarrow> waits" where
  "locks_delete_block waiter ws = filter (\<lambda>(w, b). fl_id w \<noteq> waiter) ws"

definition locks_insert_block :: "file_lock \<Rightarrow> file_lock \<Rightarrow> waits \<Rightarrow> waits option" where
  "locks_insert_block blocker waiter ws =
     (if \<exists>(w, b) \<in> set ws. fl_id w = fl_id waiter then None else Some ((waiter, blocker) # ws))"

definition locks_wake_up_blocks :: "nat \<Rightarrow> waits \<Rightarrow> waits" where
  "locks_wake_up_blocks blocker ws = filter (\<lambda>(w, b). fl_id b \<noteq> blocker) ws"

abbreviation (input) MAX_DEADLK_ITERATIONS :: nat where "MAX_DEADLK_ITERATIONS \<equiv> 10"

definition what_owner_is_waiting_for :: "waits \<Rightarrow> file_lock \<Rightarrow> file_lock option" where
  "what_owner_is_waiting_for ws block_fl =
     map_option snd (find (\<lambda>(fl, next). IS_POSIX next \<and> posix_same_owner fl block_fl) ws)"

function deadlock_loop :: "waits \<Rightarrow> file_lock \<Rightarrow> file_lock \<Rightarrow> nat \<Rightarrow> bool" where
  "deadlock_loop ws caller_fl block_fl i =
     (case what_owner_is_waiting_for ws block_fl of
        None \<Rightarrow> False
      | Some next \<Rightarrow>
          if i > MAX_DEADLK_ITERATIONS then False
          else if posix_same_owner caller_fl next then True
          else deadlock_loop ws caller_fl next (i + 1))"
  by pat_completeness auto
termination
  by (relation "measure (\<lambda>(ws, c, b, i). MAX_DEADLK_ITERATIONS + 1 - i)") auto

declare deadlock_loop.simps [simp del]

definition posix_locks_deadlock :: "waits \<Rightarrow> file_lock \<Rightarrow> file_lock \<Rightarrow> bool" where
  "posix_locks_deadlock ws caller_fl block_fl = deadlock_loop ws caller_fl block_fl 0"

section \<open>POSIX locks\<close>

text \<open>
  \<^verbatim>\<open>posix_test_lock\<close>: the first conflicting lock is copied over the request, or its type is set to
  \<^verbatim>\<open>F_UNLCK\<close>.
\<close>

definition do_locks_copy_lock :: "file_lock \<Rightarrow> file_lock \<Rightarrow> file_lock" where
  "do_locks_copy_lock new fl = fl\<lparr>fl_id := fl_id new, fl_file := 0\<rparr>"

definition locks_copy_lock :: "nat \<Rightarrow> file_lock \<Rightarrow> file_lock" where
  "locks_copy_lock new fl = fl\<lparr>fl_id := new\<rparr>"

definition posix_test_lock :: "flock_state \<Rightarrow> nat \<Rightarrow> file_lock \<Rightarrow> file_lock" where
  "posix_test_lock st inode fl =
     (case find (\<lambda>cfl. IS_POSIX cfl \<and> posix_locks_conflict fl cfl) (i_flock st inode) of
        Some cfl \<Rightarrow> do_locks_copy_lock fl cfl
      | None \<Rightarrow> fl\<lparr>fl_type := F_UNLCK\<rparr>)"

text \<open>
  The second part of \<^verbatim>\<open>__posix_lock_file\<close>.  \<open>w_before\<close> and \<open>w_after\<close> are the list in front of and
  behind the position \<^verbatim>\<open>before\<close>; \<^verbatim>\<open>left\<close> and \<^verbatim>\<open>right\<close> are addresses.  Once \<^verbatim>\<open>request\<close> points to a lock
  of the list, that lock is in \<open>w_before\<close>, and what is stored through \<^verbatim>\<open>request\<close> is stored there as well.
\<close>

record posix_work =
  w_request :: file_lock
  w_added :: bool
  w_left :: "nat option"
  w_right :: "nat option"
  w_before :: "file_lock list"
  w_after :: "file_lock list"
  w_waits :: waits

definition store_lock :: "file_lock \<Rightarrow> file_lock list \<Rightarrow> file_lock list" where
  "store_lock fl ls = map (\<lambda>l. if fl_id l = fl_id fl then fl else l) ls"

fun owner_loop :: "posix_work \<Rightarrow> file_lock list \<Rightarrow> posix_work" where
  "owner_loop w [] = w\<lparr>w_after := []\<rparr>"
| "owner_loop w (fl # rest) =
     (let request = w_request w
      in if \<not> posix_same_owner request fl then w\<lparr>w_after := fl # rest\<rparr>
         else if fl_type request = fl_type fl
         then if fl_end fl < fl_start request - 1 then owner_loop (w\<lparr>w_before := w_before w @ [fl]\<rparr>) rest
              else if fl_start fl - 1 > fl_end request then w\<lparr>w_after := fl # rest\<rparr>
              else (let s = (if fl_start fl > fl_start request then fl_start request else fl_start fl);
                        e = (if fl_end fl < fl_end request then fl_end request else fl_end fl);
                        fl' = fl\<lparr>fl_start := s, fl_end := e\<rparr>;
                        request' = request\<lparr>fl_start := s, fl_end := e\<rparr>
                    in if w_added w
                       then owner_loop (w\<lparr>w_request := request', w_before := store_lock request' (w_before w),
                              w_waits := locks_wake_up_blocks (fl_id fl) (w_waits w)\<rparr>) rest
                       else owner_loop (w\<lparr>w_request := fl', w_added := True, w_before := w_before w @ [fl']\<rparr>) rest)
         else if fl_end fl < fl_start request then owner_loop (w\<lparr>w_before := w_before w @ [fl]\<rparr>) rest
         else if fl_start fl > fl_end request then w\<lparr>w_after := fl # rest\<rparr>
         else (let added = (w_added w \<or> fl_type request = F_UNLCK);
                   w1 = w\<lparr>w_added := added,
                     w_left := (if fl_start fl < fl_start request then Some (fl_id fl) else w_left w)\<rparr>
               in if fl_end fl > fl_end request then w1\<lparr>w_right := Some (fl_id fl), w_after := fl # rest\<rparr>
                  else if fl_start fl \<ge> fl_start request
                  then if added
                       then owner_loop (w1\<lparr>w_waits := locks_wake_up_blocks (fl_id fl) (w_waits w)\<rparr>) rest
                       else (let fl' = fl\<lparr>fl_start := fl_start request, fl_end := fl_end request, fl_type := fl_type request\<rparr>
                             in owner_loop (w1\<lparr>w_request := fl', w_added := True, w_before := w_before w @ [fl'],
                                  w_waits := locks_wake_up_blocks (fl_id fl) (w_waits w)\<rparr>) rest)
                  else owner_loop (w1\<lparr>w_before := w_before w @ [fl]\<rparr>) rest))"

definition posix_owner_locks :: "file_lock \<Rightarrow> file_lock list \<Rightarrow> waits \<Rightarrow> posix_work" where
  "posix_owner_locks request ls ws =
     (let skip = (\<lambda>fl. \<not> IS_POSIX fl \<or> \<not> posix_same_owner request fl)
      in owner_loop \<lparr>w_request = request, w_added = False, w_left = None, w_right = None,
           w_before = takeWhile skip ls, w_after = [], w_waits = ws\<rparr> (dropWhile skip ls))"

definition change_lock :: "nat \<Rightarrow> (file_lock \<Rightarrow> file_lock) \<Rightarrow> file_lock list \<Rightarrow> file_lock list" where
  "change_lock i f ls = map (\<lambda>l. if fl_id l = i then f l else l) ls"

text \<open>
  The third part.  \<open>mid\<close> is the new lock, if one has been inserted at \<^verbatim>\<open>before\<close>; the locks that stick
  out are cut, and one that sticks out on both sides is split with the second new structure.
\<close>

definition posix_cut :: "nat option \<Rightarrow> posix_work \<Rightarrow> file_lock list \<Rightarrow> file_lock list \<times> waits" where
  "posix_cut new_fl2 w mid =
     (let request = w_request w;
          (left, ls1, ws1) =
            (case w_right w of
               None \<Rightarrow> (w_left w, w_before w @ mid @ w_after w, w_waits w)
             | Some r \<Rightarrow>
                 (let (left, pieces) =
                        (if w_left w = Some r then (new_fl2, [locks_copy_lock (the new_fl2) (hd (w_after w))]) else (w_left w, []))
                  in (left, change_lock r (\<lambda>l. l\<lparr>fl_start := fl_end request + 1\<rparr>) (w_before w @ pieces @ mid @ w_after w),
                      locks_wake_up_blocks r (w_waits w))))
      in case left of
           None \<Rightarrow> (ls1, ws1)
         | Some l \<Rightarrow> (change_lock l (\<lambda>x. x\<lparr>fl_end := fl_start request - 1\<rparr>) ls1, locks_wake_up_blocks l ws1))"

definition posix_insert ::
  "nat option \<Rightarrow> nat option \<Rightarrow> posix_work \<Rightarrow> unit kresult \<times> file_lock list \<times> waits" where
  "posix_insert new_fl new_fl2 w =
     (let request = w_request w;
          unchanged = (w_before w @ w_after w, w_waits w)
      in if w_right w \<noteq> None \<and> w_left w = w_right w \<and> new_fl2 = None then (Inl ENOLCK, unchanged)
         else if \<not> w_added w
         then if fl_type request = F_UNLCK
              then (if has_flag request FL_EXISTS then Inl ENOENT else Ok, unchanged)
              else (case new_fl of
                      None \<Rightarrow> (Inl ENOLCK, unchanged)
                    | Some i \<Rightarrow> (Ok, posix_cut new_fl2 w [locks_copy_lock i request]))
         else (Ok, posix_cut new_fl2 w []))"

definition do_posix_lock_file ::
  "flock_state \<Rightarrow> nat \<Rightarrow> file_lock \<Rightarrow> nat option \<Rightarrow> nat option \<Rightarrow> lock_outcome \<times> file_lock option \<times> flock_state" where
  \<comment> \<open>the addresses \<^verbatim>\<open>locks_alloc_lock\<close> delivers, if it does; the second result is what goes to \<^verbatim>\<open>conflock\<close>\<close>
  "do_posix_lock_file st inode request alloc1 alloc2 =
     (let need = (\<not> has_flag request FL_ACCESS \<and>
                  (fl_type request \<noteq> F_UNLCK \<or> fl_start request \<noteq> 0 \<or> fl_end request \<noteq> OFFSET_MAX));
          new_fl = (if need then alloc1 else None);
          new_fl2 = (if need then alloc2 else None);
          conflict = (if fl_type request \<noteq> F_UNLCK
                      then find (\<lambda>fl. IS_POSIX fl \<and> posix_locks_conflict request fl) (i_flock st inode) else None)
      in case conflict of
           Some fl \<Rightarrow>
             if \<not> has_flag request FL_SLEEP then (Lock_ret (Inl EAGAIN), Some fl, st)
             else if posix_locks_deadlock (waits st) request fl then (Lock_ret (Inl EDEADLK), Some fl, st)
             else (case locks_insert_block fl request (waits st) of
                     None \<Rightarrow> (Lock_bug, Some fl, st)
                   | Some ws \<Rightarrow> (FILE_LOCK_DEFERRED, Some fl, st\<lparr>waits := ws\<rparr>))
         | None \<Rightarrow>
             if has_flag request FL_ACCESS then (Lock_ret Ok, None, st)
             else (let (r, ls, ws) = posix_insert new_fl new_fl2 (posix_owner_locks request (i_flock st inode) (waits st))
                   in (Lock_ret r, None, st\<lparr>i_flock := (i_flock st)(inode := ls), waits := ws\<rparr>)))"

definition posix_lock_file ::
  "flock_state \<Rightarrow> nat \<Rightarrow> file_lock \<Rightarrow> nat option \<Rightarrow> nat option \<Rightarrow> lock_outcome \<times> file_lock option \<times> flock_state" where
  "posix_lock_file st inode fl alloc1 alloc2 = do_posix_lock_file st inode fl alloc1 alloc2"

definition posix_unblock_lock :: "flock_state \<Rightarrow> nat \<Rightarrow> unit kresult \<times> flock_state" where
  "posix_unblock_lock st waiter =
     (if \<exists>(w, b) \<in> set (waits st). fl_id w = waiter
      then (Ok, st\<lparr>waits := locks_delete_block waiter (waits st)\<rparr>)
      else (Inl ENOENT, st))"

section \<open>Sleeping for a lock\<close>

text \<open>
  The loop that \<^verbatim>\<open>posix_lock_file_wait\<close>, \<^verbatim>\<open>do_lock_file_wait\<close>, \<^verbatim>\<open>flock_lock_file_wait\<close> and \<^verbatim>\<open>locks_mandatory_area\<close> share.
  Each time the task looks again there is one event: what the others have done in the meantime,
  whether a signal is pending, and what the next call of the lock function will find.  The task goes on
  sleeping while its request is in the queue and there is no signal; with no event left it sleeps still.
\<close>

type_synonym 'a wake_up = "(flock_state \<Rightarrow> flock_state) \<times> bool \<times> 'a"

definition is_waiting :: "nat \<Rightarrow> waits \<Rightarrow> bool" where
  "is_waiting i ws \<longleftrightarrow> (\<exists>(w, b) \<in> set ws. fl_id w = i)"

fun lock_sleep ::
  "('a \<Rightarrow> flock_state \<Rightarrow> lock_outcome \<times> flock_state) \<Rightarrow> nat \<Rightarrow> flock_state \<Rightarrow> 'a wake_up list \<Rightarrow> lock_outcome \<times> flock_state" where
  "lock_sleep call i st [] = (FILE_LOCK_DEFERRED, st)"
| "lock_sleep call i st ((others, signal, a) # evs) =
     (let st1 = others st
      in if \<not> is_waiting i (waits st1)
         then (let (r, st2) = call a st1 in if r = FILE_LOCK_DEFERRED then lock_sleep call i st2 evs else (r, st2))
         else if signal then (Lock_ret (Inl ERESTARTSYS), st1\<lparr>waits := locks_delete_block i (waits st1)\<rparr>)
         else lock_sleep call i st1 evs)"

definition lock_wait ::
  "('a \<Rightarrow> flock_state \<Rightarrow> lock_outcome \<times> flock_state) \<Rightarrow> nat \<Rightarrow> flock_state \<Rightarrow> 'a \<Rightarrow> 'a wake_up list \<Rightarrow> lock_outcome \<times> flock_state" where
  "lock_wait call i st a evs =
     (let (r, st1) = call a st in if r = FILE_LOCK_DEFERRED then lock_sleep call i st1 evs else (r, st1))"

definition posix_call :: "nat \<Rightarrow> file_lock \<Rightarrow> nat option \<times> nat option \<Rightarrow> flock_state \<Rightarrow> lock_outcome \<times> flock_state" where
  "posix_call inode fl alloc st = (let (r, conf, st') = posix_lock_file st inode fl (fst alloc) (snd alloc) in (r, st'))"

definition posix_lock_file_wait ::
  "flock_state \<Rightarrow> nat \<Rightarrow> file_lock \<Rightarrow> nat option \<times> nat option \<Rightarrow> (nat option \<times> nat option) wake_up list \<Rightarrow> lock_outcome \<times> flock_state" where
  "posix_lock_file_wait st inode fl alloc evs = lock_wait (posix_call inode fl) (fl_id fl) st alloc evs"

text \<open>No file system sets its own \<^verbatim>\<open>->lock\<close> here, and the default security module has no \<^verbatim>\<open>file_lock\<close> hook.\<close>

definition do_lock_file_wait ::
  "flock_state \<Rightarrow> nat \<Rightarrow> file_lock \<Rightarrow> nat option \<times> nat option \<Rightarrow> (nat option \<times> nat option) wake_up list \<Rightarrow> lock_outcome \<times> flock_state" where
  "do_lock_file_wait st inode fl alloc evs = lock_wait (posix_call inode fl) (fl_id fl) st alloc evs"

section \<open>Mandatory locks\<close>

definition locks_mandatory_locked :: "flock_state \<Rightarrow> nat \<Rightarrow> nat \<Rightarrow> unit kresult" where
  "locks_mandatory_locked st inode owner =
     (if \<exists>fl \<in> set (i_flock st inode). IS_POSIX fl \<and> fl_owner fl \<noteq> owner then Inl EAGAIN else Ok)"

text \<open>
  The request is a local variable at address \<open>i\<close>; the file may be absent, and opened with \<^verbatim>\<open>O_NONBLOCK\<close>.  After
  each sleep it is looked at whether the inode still takes mandatory locks.
\<close>

definition mandatory_request :: "nat \<Rightarrow> nat \<Rightarrow> nat \<Rightarrow> nat option \<Rightarrow> bool \<Rightarrow> bool \<Rightarrow> int \<Rightarrow> int \<Rightarrow> file_lock" where
  "mandatory_request i files tgid filp nonblock verify_write offset len =
     \<lparr>fl_id = i, fl_owner = files,
      fl_flags = FL_POSIX OR FL_ACCESS OR (if filp \<noteq> None \<and> \<not> nonblock then FL_SLEEP else 0),
      fl_type = (if verify_write then F_WRLCK else F_RDLCK),
      fl_pid = tgid, fl_file = (case filp of None \<Rightarrow> 0 | Some f \<Rightarrow> f), fl_start = offset, fl_end = offset + len - 1\<rparr>"

definition mandatory_call :: "nat \<Rightarrow> file_lock \<Rightarrow> bool \<Rightarrow> flock_state \<Rightarrow> lock_outcome \<times> flock_state" where
  "mandatory_call inode fl mandatory st =
     (if mandatory then posix_call inode fl (None, None) st
      else (Lock_ret Ok, st\<lparr>waits := locks_delete_block (fl_id fl) (waits st)\<rparr>))"

definition locks_mandatory_area ::
  "flock_state \<Rightarrow> nat \<Rightarrow> nat \<Rightarrow> nat \<Rightarrow> nat \<Rightarrow> nat option \<Rightarrow> bool \<Rightarrow> bool \<Rightarrow> int \<Rightarrow> int \<Rightarrow> bool wake_up list \<Rightarrow> lock_outcome \<times> flock_state" where
  "locks_mandatory_area st inode i files tgid filp nonblock verify_write offset len evs =
     lock_wait (mandatory_call inode (mandatory_request i files tgid filp nonblock verify_write offset len)) i st True evs"

text \<open>The checks of the NFS server, which look at share modes as well.\<close>

abbreviation (input) LOCK_READ :: u8 where "LOCK_READ \<equiv> 64"
abbreviation (input) LOCK_WRITE :: u8 where "LOCK_WRITE \<equiv> 128"

definition lock_may_read :: "flock_state \<Rightarrow> nat \<Rightarrow> int \<Rightarrow> int \<Rightarrow> bool" where
  "lock_may_read st inode start len \<longleftrightarrow>
     \<not> (\<exists>fl \<in> set (i_flock st inode).
          if IS_POSIX fl then \<not> fl_type fl = F_RDLCK \<and> \<not> (fl_end fl < start \<or> fl_start fl > start + len)
          else if IS_FLOCK fl then fl_type fl AND LOCK_MAND \<noteq> 0 \<and> \<not> fl_type fl AND LOCK_READ \<noteq> 0
          else False)"

definition lock_may_write :: "flock_state \<Rightarrow> nat \<Rightarrow> int \<Rightarrow> int \<Rightarrow> bool" where
  "lock_may_write st inode start len \<longleftrightarrow>
     \<not> (\<exists>fl \<in> set (i_flock st inode).
          if IS_POSIX fl then \<not> (fl_end fl < start \<or> fl_start fl > start + len)
          else if IS_FLOCK fl then fl_type fl AND LOCK_MAND \<noteq> 0 \<and> \<not> fl_type fl AND LOCK_WRITE \<noteq> 0
          else False)"

section \<open>BSD locks\<close>

definition flock_translate_cmd :: "u32 \<Rightarrow> u32 kresult" where
  "flock_translate_cmd cmd =
     (if cmd AND 32 \<noteq> 0 then Inr (cmd AND (32 OR 192))
      else if cmd = 1 then Inr 0
      else if cmd = 2 then Inr 1
      else if cmd = 8 then Inr 2
      else Inl EINVAL)"

definition flock_make_lock :: "nat \<Rightarrow> nat \<Rightarrow> u32 \<Rightarrow> nat option \<Rightarrow> file_lock kresult" where
  "flock_make_lock filp tgid cmd alloc =
     (case flock_translate_cmd cmd of
        Inl e \<Rightarrow> Inl e
      | Inr ty \<Rightarrow>
         (case alloc of
            None \<Rightarrow> Inl ENOMEM
          | Some i \<Rightarrow> Inr \<lparr>fl_id = i, fl_owner = 0, fl_flags = FL_FLOCK, fl_type = ucast ty, fl_pid = tgid,
                         fl_file = filp, fl_start = 0, fl_end = OFFSET_MAX\<rparr>))"

text \<open>
  The first loop of \<^verbatim>\<open>flock_lock_file\<close>: \<open>None\<close> when the file holds a lock of the type already, otherwise the
  address of the lock that is deleted and the list without it.
\<close>

fun flock_own :: "nat \<Rightarrow> u8 \<Rightarrow> file_lock list \<Rightarrow> (nat option \<times> file_lock list) option" where
  "flock_own filp ty [] = Some (None, [])"
| "flock_own filp ty (fl # rest) =
     (if IS_POSIX fl then Some (None, fl # rest)
      else if IS_LEASE fl \<or> filp \<noteq> fl_file fl
      then (case flock_own filp ty rest of None \<Rightarrow> None | Some (d, ls) \<Rightarrow> Some (d, fl # ls))
      else if ty = fl_type fl then None
      else Some (Some (fl_id fl), rest))"

definition flock_release :: "flock_state \<Rightarrow> nat \<Rightarrow> nat \<Rightarrow> u8 \<Rightarrow> (bool \<times> flock_state) option" where
  "flock_release st inode filp ty =
     (case flock_own filp ty (i_flock st inode) of
        None \<Rightarrow> None
      | Some (d, ls) \<Rightarrow>
          Some (d \<noteq> None, st\<lparr>i_flock := (i_flock st)(inode := ls),
            waits := (case d of None \<Rightarrow> waits st | Some i \<Rightarrow> locks_wake_up_blocks i (waits st))\<rparr>))"

text \<open>From the label \<^verbatim>\<open>find_conflict\<close> on.\<close>

definition flock_place :: "flock_state \<Rightarrow> nat \<Rightarrow> file_lock \<Rightarrow> nat \<Rightarrow> lock_outcome \<times> flock_state" where
  "flock_place st inode request new_fl =
     (let front = takeWhile (\<lambda>fl. \<not> IS_POSIX fl) (i_flock st inode);
          behind = dropWhile (\<lambda>fl. \<not> IS_POSIX fl) (i_flock st inode)
      in case find (\<lambda>fl. \<not> IS_LEASE fl \<and> flock_locks_conflict request fl) front of
           Some fl \<Rightarrow>
             if \<not> has_flag request FL_SLEEP then (Lock_ret (Inl EAGAIN), st)
             else (case locks_insert_block fl request (waits st) of
                     None \<Rightarrow> (Lock_bug, st)
                   | Some ws \<Rightarrow> (FILE_LOCK_DEFERRED, st\<lparr>waits := ws\<rparr>))
         | None \<Rightarrow>
             if has_flag request FL_ACCESS then (Lock_ret Ok, st)
             else (Lock_ret Ok, st\<lparr>i_flock := (i_flock st)(inode := front @ locks_copy_lock new_fl request # behind)\<rparr>))"

text \<open>
  \<open>resched\<close> is what other tasks do while the lock is dropped between giving up the old and asking for
  the new lock.
\<close>

definition flock_lock_file ::
  "(flock_state \<Rightarrow> flock_state) \<Rightarrow> flock_state \<Rightarrow> nat \<Rightarrow> nat \<Rightarrow> file_lock \<Rightarrow> nat option \<Rightarrow> lock_outcome \<times> flock_state" where
  "flock_lock_file resched st inode filp request alloc =
     (if has_flag request FL_ACCESS then flock_place st inode request 0
      else if fl_type request \<noteq> F_UNLCK \<and> alloc = None then (Lock_ret (Inl ENOMEM), st)
      else (case flock_release st inode filp (fl_type request) of
              None \<Rightarrow> (Lock_ret Ok, st)
            | Some (found, st1) \<Rightarrow>
                if fl_type request = F_UNLCK
                then (Lock_ret (if has_flag request FL_EXISTS \<and> \<not> found then Inl ENOENT else Ok), st1)
                else flock_place (if found then resched st1 else st1) inode request (the alloc)))"

definition flock_call ::
  "nat \<Rightarrow> nat \<Rightarrow> file_lock \<Rightarrow> nat option \<times> (flock_state \<Rightarrow> flock_state) \<Rightarrow> flock_state \<Rightarrow> lock_outcome \<times> flock_state" where
  "flock_call inode filp fl a st = flock_lock_file (snd a) st inode filp fl (fst a)"

definition flock_lock_file_wait ::
  "flock_state \<Rightarrow> nat \<Rightarrow> nat \<Rightarrow> file_lock \<Rightarrow> nat option \<times> (flock_state \<Rightarrow> flock_state) \<Rightarrow>
   (nat option \<times> (flock_state \<Rightarrow> flock_state)) wake_up list \<Rightarrow> lock_outcome \<times> flock_state" where
  "flock_lock_file_wait st inode filp fl a evs = lock_wait (flock_call inode filp fl) (fl_id fl) st a evs"

record open_file =
  f_id :: nat
  f_inode :: nat
  f_pos :: int
  i_size :: int  \<comment> \<open>\<^verbatim>\<open>i_size_read\<close> of its inode\<close>
  f_read :: bool
  f_write :: bool

definition sys_flock ::
  "flock_state \<Rightarrow> open_file option \<Rightarrow> nat \<Rightarrow> u32 \<Rightarrow> nat option \<Rightarrow> nat option \<times> (flock_state \<Rightarrow> flock_state) \<Rightarrow>
   (nat option \<times> (flock_state \<Rightarrow> flock_state)) wake_up list \<Rightarrow> lock_outcome \<times> flock_state" where
  \<comment> \<open>\<open>alloc\<close> is for the request, \<open>a\<close> for the first call of \<^verbatim>\<open>flock_lock_file\<close>\<close>
  "sys_flock st fd tgid cmd0 alloc a evs =
     (case fd of
        None \<Rightarrow> (Lock_ret (Inl EBADF), st)
      | Some filp \<Rightarrow>
         (let can_sleep = (cmd0 AND 4 = 0);
              cmd = cmd0 AND NOT 4;
              unlock = (cmd = 8)
          in if \<not> unlock \<and> cmd AND 32 = 0 \<and> \<not> (f_read filp \<or> f_write filp) then (Lock_ret (Inl EBADF), st)
             else (case flock_make_lock (f_id filp) tgid cmd alloc of
                     Inl e \<Rightarrow> (Lock_ret (Inl e), st)
                   | Inr lock \<Rightarrow>
                      flock_lock_file_wait st (f_inode filp) (f_id filp)
                        (if can_sleep then lock\<lparr>fl_flags := fl_flags lock OR FL_SLEEP\<rparr> else lock) a evs)))"

section \<open>Closing a file\<close>

definition locks_remove_posix :: "flock_state \<Rightarrow> nat \<Rightarrow> nat \<Rightarrow> nat \<Rightarrow> nat \<Rightarrow> nat \<Rightarrow> flock_state" where
  "locks_remove_posix st inode i filp owner tgid =
     (if i_flock st inode = [] then st
      else snd (snd (posix_lock_file st inode
             \<lparr>fl_id = i, fl_owner = owner, fl_flags = FL_POSIX OR FL_CLOSE, fl_type = F_UNLCK, fl_pid = tgid,
              fl_file = filp, fl_start = 0, fl_end = OFFSET_MAX\<rparr> None None)))"

text \<open>\<open>None\<close> is the \<^verbatim>\<open>BUG()\<close>.\<close>

fun remove_flock_loop :: "nat \<Rightarrow> file_lock list \<Rightarrow> waits \<Rightarrow> (file_lock list \<times> waits) option" where
  "remove_flock_loop filp [] ws = Some ([], ws)"
| "remove_flock_loop filp (fl # rest) ws =
     (if fl_file fl = filp
      then if IS_FLOCK fl \<or> IS_LEASE fl then remove_flock_loop filp rest (locks_wake_up_blocks (fl_id fl) ws)
           else None
      else (case remove_flock_loop filp rest ws of None \<Rightarrow> None | Some (ls, ws') \<Rightarrow> Some (fl # ls, ws')))"

definition locks_remove_flock :: "flock_state \<Rightarrow> nat \<Rightarrow> nat \<Rightarrow> flock_state option" where
  "locks_remove_flock st inode filp =
     (case remove_flock_loop filp (i_flock st inode) (waits st) of
        None \<Rightarrow> None
      | Some (ls, ws) \<Rightarrow> Some (st\<lparr>i_flock := (i_flock st)(inode := ls), waits := ws\<rparr>))"

section \<open>The fcntl commands\<close>

record flock_arg =
  l_type :: int
  l_whence :: int
  l_start :: int
  l_len :: int
  l_pid :: nat

definition assign_type :: "file_lock \<Rightarrow> int \<Rightarrow> file_lock kresult" where
  "assign_type fl ty =
     (if ty = 0 \<or> ty = 1 \<or> ty = 2 then Inr (fl\<lparr>fl_type := of_int ty\<rparr>) else Inl EINVAL)"

text \<open>
  The range a \<^verbatim>\<open>struct flock\<close> describes, computed in \<open>n\<close> bits: 32 for \<^verbatim>\<open>off_t\<close> in \<^verbatim>\<open>flock_to_posix_lock\<close>, 64
  for \<^verbatim>\<open>loff_t\<close> in \<^verbatim>\<open>flock64_to_posix_lock\<close>.
\<close>

definition lock_range :: "nat \<Rightarrow> open_file \<Rightarrow> flock_arg \<Rightarrow> (int \<times> int) kresult" where
  "lock_range n filp l =
     (let base = (if l_whence l = 0 then Some 0
                  else if l_whence l = 1 then Some (wrap_s n (f_pos filp))
                  else if l_whence l = 2 then Some (wrap_s n (i_size filp))
                  else None)
      in case base of
           None \<Rightarrow> Inl EINVAL
         | Some b \<Rightarrow>
            (let start = wrap_s n (b + l_start l)
             in if start < 0 then Inl EINVAL
                else if l_len l > 0
                then (let fin = wrap_s n (start + l_len l - 1)
                      in if fin < start then Inl EOVERFLOW else Inr (start, fin))
                else if l_len l < 0
                then (let start' = wrap_s n (start + l_len l)
                      in if start' < 0 then Inl EINVAL
                         else if start - 1 < start' then Inl EOVERFLOW else Inr (start', start - 1))
                else if OFFSET_MAX < start then Inl EOVERFLOW else Inr (start, OFFSET_MAX)))"

definition to_posix_lock :: "nat \<Rightarrow> open_file \<Rightarrow> nat \<Rightarrow> nat \<Rightarrow> nat \<Rightarrow> flock_arg \<Rightarrow> file_lock kresult" where
  "to_posix_lock n filp i files tgid l =
     (case lock_range n filp l of
        Inl e \<Rightarrow> Inl e
      | Inr (s, e) \<Rightarrow> assign_type \<lparr>fl_id = i, fl_owner = files, fl_flags = FL_POSIX, fl_type = 0, fl_pid = tgid,
                        fl_file = f_id filp, fl_start = s, fl_end = e\<rparr> (l_type l))"

definition flock_to_posix_lock :: "open_file \<Rightarrow> nat \<Rightarrow> nat \<Rightarrow> nat \<Rightarrow> flock_arg \<Rightarrow> file_lock kresult" where
  "flock_to_posix_lock = to_posix_lock 32"

definition flock64_to_posix_lock :: "open_file \<Rightarrow> nat \<Rightarrow> nat \<Rightarrow> nat \<Rightarrow> flock_arg \<Rightarrow> file_lock kresult" where
  "flock64_to_posix_lock = to_posix_lock 64"

definition posix_lock_to_flock64 :: "flock_arg \<Rightarrow> file_lock \<Rightarrow> flock_arg" where
  "posix_lock_to_flock64 flock fl =
     flock\<lparr>l_pid := fl_pid fl, l_start := fl_start fl,
       l_len := (if fl_end fl = OFFSET_MAX then 0 else fl_end fl - fl_start fl + 1),
       l_whence := 0, l_type := uint (fl_type fl)\<rparr>"

definition posix_lock_to_flock :: "flock_arg \<Rightarrow> file_lock \<Rightarrow> flock_arg kresult" where
  "posix_lock_to_flock flock fl =
     (if fl_start fl > OFFT_OFFSET_MAX then Inl EOVERFLOW
      else if fl_end fl \<noteq> OFFSET_MAX \<and> fl_end fl > OFFT_OFFSET_MAX then Inl EOVERFLOW
      else Inr (flock\<lparr>l_pid := fl_pid fl, l_start := wrap_s 32 (fl_start fl),
             l_len := (if fl_end fl = OFFSET_MAX then 0 else wrap_s 32 (fl_end fl - fl_start fl + 1)),
             l_whence := 0, l_type := uint (fl_type fl)\<rparr>))"

text \<open>User memory: the structure read, if it can be, and whether it can be written back.\<close>

definition fcntl_getlk64 ::
  "flock_state \<Rightarrow> open_file \<Rightarrow> nat \<Rightarrow> nat \<Rightarrow> nat \<Rightarrow> flock_arg option \<Rightarrow> bool \<Rightarrow> flock_arg kresult" where
  "fcntl_getlk64 st filp i files tgid l writable =
     (case l of
        None \<Rightarrow> Inl EFAULT
      | Some flock \<Rightarrow>
          if l_type flock \<noteq> 0 \<and> l_type flock \<noteq> 1 then Inl EINVAL
          else (case flock64_to_posix_lock filp i files tgid flock of
                  Inl e \<Rightarrow> Inl e
                | Inr fl \<Rightarrow>
                   (let file_lock = posix_test_lock st (f_inode filp) fl;
                        flock1 = flock\<lparr>l_type := uint (fl_type file_lock)\<rparr>;
                        flock2 = (if fl_type file_lock \<noteq> F_UNLCK then posix_lock_to_flock64 flock1 file_lock else flock1)
                    in if writable then Inr flock2 else Inl EFAULT)))"

definition fcntl_getlk ::
  "flock_state \<Rightarrow> open_file \<Rightarrow> nat \<Rightarrow> nat \<Rightarrow> nat \<Rightarrow> flock_arg option \<Rightarrow> bool \<Rightarrow> flock_arg kresult" where
  "fcntl_getlk st filp i files tgid l writable =
     (case l of
        None \<Rightarrow> Inl EFAULT
      | Some flock \<Rightarrow>
          if l_type flock \<noteq> 0 \<and> l_type flock \<noteq> 1 then Inl EINVAL
          else (case flock_to_posix_lock filp i files tgid flock of
                  Inl e \<Rightarrow> Inl e
                | Inr fl \<Rightarrow>
                   (let file_lock = posix_test_lock st (f_inode filp) fl;
                        flock1 = flock\<lparr>l_type := uint (fl_type file_lock)\<rparr>
                    in case (if fl_type file_lock \<noteq> F_UNLCK then posix_lock_to_flock flock1 file_lock else Inr flock1) of
                         Inl e \<Rightarrow> Inl e
                       | Inr flock2 \<Rightarrow> if writable then Inr flock2 else Inl EFAULT)))"

text \<open>
  \<^verbatim>\<open>fcntl_setlk\<close> and \<^verbatim>\<open>fcntl_setlk64\<close> differ in the conversion.  \<open>wait\<close> is the command \<^verbatim>\<open>F_SETLKW\<close>; \<open>mapped\<close>: the inode
  takes mandatory locks and is mapped writably; \<open>same_fd\<close>: the descriptor still belongs to the file
  afterwards, otherwise the lock just taken is released again.
\<close>

type_synonym setlk_env = "(nat option \<times> nat option) \<times> (nat option \<times> nat option) wake_up list"

definition setlk_attempt ::
  "(flock_arg \<Rightarrow> file_lock kresult) \<Rightarrow> flock_state \<Rightarrow> open_file \<Rightarrow> bool \<Rightarrow> setlk_env \<Rightarrow> flock_arg \<Rightarrow> lock_outcome \<times> flock_state" where
  "setlk_attempt conv st filp wait env flock =
     (case conv flock of
        Inl e \<Rightarrow> (Lock_ret (Inl e), st)
      | Inr fl \<Rightarrow>
         (let file_lock = (if wait then fl\<lparr>fl_flags := fl_flags fl OR FL_SLEEP\<rparr> else fl)
          in if l_type flock = 0 \<and> \<not> f_read filp then (Lock_ret (Inl EBADF), st)
             else if l_type flock = 1 \<and> \<not> f_write filp then (Lock_ret (Inl EBADF), st)
             else do_lock_file_wait st (f_inode filp) file_lock (fst env) (snd env)))"

definition setlk_common ::
  "(flock_arg \<Rightarrow> file_lock kresult) \<Rightarrow> flock_state \<Rightarrow> open_file \<Rightarrow> bool \<Rightarrow> bool \<Rightarrow> bool \<Rightarrow> setlk_env \<Rightarrow> setlk_env \<Rightarrow>
   flock_arg option \<Rightarrow> lock_outcome \<times> flock_state" where
  "setlk_common conv st filp wait mapped same_fd env env' l =
     (case l of
        None \<Rightarrow> (Lock_ret (Inl EFAULT), st)
      | Some flock \<Rightarrow>
          if mapped then (Lock_ret (Inl EAGAIN), st)
          else (let (r, st1) = setlk_attempt conv st filp wait env flock
                in if r = Lock_ret Ok \<and> \<not> same_fd \<and> l_type flock \<noteq> 2
                   then setlk_attempt conv st1 filp wait env' (flock\<lparr>l_type := 2\<rparr>)
                   else (r, st1)))"

definition fcntl_setlk ::
  "flock_state \<Rightarrow> open_file \<Rightarrow> nat option \<Rightarrow> nat \<Rightarrow> nat \<Rightarrow> bool \<Rightarrow> bool \<Rightarrow> bool \<Rightarrow> setlk_env \<Rightarrow> setlk_env \<Rightarrow>
   flock_arg option \<Rightarrow> lock_outcome \<times> flock_state" where
  "fcntl_setlk st filp i files tgid wait mapped same_fd env env' l =
     (case i of
        None \<Rightarrow> (Lock_ret (Inl ENOLCK), st)
      | Some a \<Rightarrow> setlk_common (flock_to_posix_lock filp a files tgid) st filp wait mapped same_fd env env' l)"

definition fcntl_setlk64 ::
  "flock_state \<Rightarrow> open_file \<Rightarrow> nat option \<Rightarrow> nat \<Rightarrow> nat \<Rightarrow> bool \<Rightarrow> bool \<Rightarrow> bool \<Rightarrow> setlk_env \<Rightarrow> setlk_env \<Rightarrow>
   flock_arg option \<Rightarrow> lock_outcome \<times> flock_state" where
  "fcntl_setlk64 st filp i files tgid wait mapped same_fd env env' l =
     (case i of
        None \<Rightarrow> (Lock_ret (Inl ENOLCK), st)
      | Some a \<Rightarrow> setlk_common (flock64_to_posix_lock filp a files tgid) st filp wait mapped same_fd env env' l)"

end
