(* ===== verification/Lock_Scan.thy ===== *)
theory Lock_Scan
  imports File_Locks
begin

text \<open>
  The second and third part of \<^verbatim>\<open>__posix_lock_file\<close>: merging, replacing, splitting and inserting.  The locks
  of an owner form a canonical list (in order, disjoint, merged as far as possible); the scan keeps
  the invariant \<open>scanned\<close>, and what it leaves is finished by \<open>posix_insert\<close> to a canonical list that holds
  exactly the wanted ranges.  \<open>keeps\<close> shows that nobody is left waiting for a lock that is gone or has shrunk.
\<close>

section \<open>Canonical lists\<close>

definition covers :: "file_lock \<Rightarrow> int \<Rightarrow> bool" where
  "covers l x \<longleftrightarrow> fl_start l \<le> x \<and> x \<le> fl_end l"

definition held :: "file_lock list \<Rightarrow> int \<Rightarrow> u8 \<Rightarrow> bool" where
  "held ls x ty \<longleftrightarrow> (\<exists>l \<in> set ls. covers l x \<and> fl_type l = ty)"

definition range_ok :: "file_lock \<Rightarrow> bool" where
  "range_ok l \<longleftrightarrow> 0 \<le> fl_start l \<and> fl_start l \<le> fl_end l \<and> fl_end l \<le> OFFSET_MAX"

text \<open>In order, disjoint, and not to be merged.\<close>

definition before_lock :: "file_lock \<Rightarrow> file_lock \<Rightarrow> bool" where
  "before_lock a b \<longleftrightarrow> fl_end a < fl_start b \<and> (fl_type a = fl_type b \<longrightarrow> fl_end a < fl_start b - 1)"

definition canon :: "file_lock list \<Rightarrow> bool" where
  "canon ls \<longleftrightarrow> sorted_wrt before_lock ls \<and> (\<forall>l \<in> set ls. range_ok l \<and> IS_POSIX l \<and> fl_type l \<noteq> F_UNLCK)"

lemma held_simps [simp]:
  "held [] x ty = False"
  "held (l # ls) x ty \<longleftrightarrow> covers l x \<and> fl_type l = ty \<or> held ls x ty"
  "held (xs @ ys) x ty \<longleftrightarrow> held xs x ty \<or> held ys x ty"
  by (auto simp: held_def)

abbreviation opt_list :: "'a option \<Rightarrow> 'a list" where
  "opt_list a \<equiv> (case a of None \<Rightarrow> [] | Some x \<Rightarrow> [x])"

text \<open>
  What the scan of the owner's locks keeps: \<open>D\<close> lies before the request, \<open>lo\<close> is the lock that
  sticks out on the left, \<open>here\<close> tells whether the request has become a lock of the list, and \<open>R\<close> is
  still to be looked at.  \<open>G\<close> is what the owner holds in the end.
\<close>

definition scanned ::
  "(int \<Rightarrow> u8 \<Rightarrow> bool) \<Rightarrow> file_lock list \<Rightarrow> file_lock list \<Rightarrow> file_lock list \<Rightarrow> file_lock option \<Rightarrow> bool \<Rightarrow>
   file_lock list \<Rightarrow> posix_work \<Rightarrow> bool" where
  "scanned G pre post D lo here R w \<longleftrightarrow>
     (let r = w_request w; t = fl_type r in
      w_before w = pre @ D @ opt_list lo @ (if here then [r] else []) \<and>
      w_right w = None \<and> w_left w = map_option fl_id lo \<and>
      (here \<longrightarrow> w_added w \<and> t \<noteq> F_UNLCK) \<and> (w_added w \<longrightarrow> here \<or> t = F_UNLCK) \<and> (lo \<noteq> None \<and> t = F_UNLCK \<longrightarrow> w_added w) \<and>
      range_ok r \<and> IS_POSIX r \<and> canon (D @ opt_list lo @ R) \<and> distinct (map fl_id (r # pre @ D @ opt_list lo @ R @ post)) \<and>
      (\<forall>l \<in> set (D @ opt_list lo @ R). fl_owner l = fl_owner r) \<and>
      (\<forall>d \<in> set D. before_lock d r) \<and>
      (\<forall>l. lo = Some l \<longrightarrow> fl_type l \<noteq> t \<and> fl_start l < fl_start r \<and> fl_start r \<le> fl_end l \<and> fl_end l \<le> fl_end r) \<and>
      (w_added w \<longrightarrow> (\<forall>x \<in> set R. fl_start r \<le> fl_start x)) \<and>
      (\<forall>x ty. G x ty \<longleftrightarrow> (if covers r x then ty = t \<and> t \<noteq> F_UNLCK else held (D @ opt_list lo @ R) x ty)))"

lemma canon_parts:
  assumes "canon (D @ opt_list lo @ fl # R)"
  shows "range_ok fl" "IS_POSIX fl" "fl_type fl \<noteq> F_UNLCK" "\<forall>d \<in> set D. before_lock d fl"
    "lo = Some l \<Longrightarrow> before_lock l fl" "\<forall>x \<in> set R. before_lock fl x" "canon (D @ opt_list lo @ R)"
  using assms by (auto simp: canon_def sorted_wrt_append split: option.splits)

lemma canon_unique:
  assumes "canon (D @ opt_list lo @ fl # R)" and "covers fl x"
  shows "\<not> held (D @ opt_list lo @ R) x ty"
proof -
  have "\<not> covers l x" if "l \<in> set D \<or> lo = Some l \<or> l \<in> set R" for l
    using canon_parts(4-6) [OF assms(1)] that assms(2) unfolding covers_def before_lock_def by force
  then show ?thesis by (auto simp: held_def split: option.splits)
qed

lemma scannedD:
  assumes "scanned G pre post D lo here R w"
  shows "w_before w = pre @ D @ opt_list lo @ (if here then [w_request w] else [])"
    and "w_right w = None" and "w_left w = map_option fl_id lo"
    and "here \<Longrightarrow> w_added w" and "here \<Longrightarrow> fl_type (w_request w) \<noteq> F_UNLCK"
    and "w_added w \<Longrightarrow> here \<or> fl_type (w_request w) = F_UNLCK"
    and "lo \<noteq> None \<Longrightarrow> fl_type (w_request w) = F_UNLCK \<Longrightarrow> w_added w"
    and "range_ok (w_request w)" and "IS_POSIX (w_request w)" and "canon (D @ opt_list lo @ R)"
    and "distinct (map fl_id (w_request w # pre @ D @ opt_list lo @ R @ post))"
    and "\<And>l. l \<in> set (D @ opt_list lo @ R) \<Longrightarrow> fl_owner l = fl_owner (w_request w)"
    and "\<And>d. d \<in> set D \<Longrightarrow> before_lock d (w_request w)"
    and "\<And>l. lo = Some l \<Longrightarrow> fl_type l \<noteq> fl_type (w_request w) \<and> fl_start l < fl_start (w_request w) \<and>
      fl_start (w_request w) \<le> fl_end l \<and> fl_end l \<le> fl_end (w_request w)"
    and "\<And>x. w_added w \<Longrightarrow> x \<in> set R \<Longrightarrow> fl_start (w_request w) \<le> fl_start x"
    and "\<And>x ty. G x ty \<longleftrightarrow> (if covers (w_request w) x then ty = fl_type (w_request w) \<and> fl_type (w_request w) \<noteq> F_UNLCK
      else held (D @ opt_list lo @ R) x ty)"
  using assms unfolding scanned_def Let_def by blast+

lemma scannedI:
  assumes "w_before w = pre @ D @ opt_list lo @ (if here then [w_request w] else [])"
    and "w_right w = None" and "w_left w = map_option fl_id lo"
    and "here \<Longrightarrow> w_added w" and "here \<Longrightarrow> fl_type (w_request w) \<noteq> F_UNLCK"
    and "w_added w \<Longrightarrow> here \<or> fl_type (w_request w) = F_UNLCK"
    and "lo \<noteq> None \<Longrightarrow> fl_type (w_request w) = F_UNLCK \<Longrightarrow> w_added w"
    and "range_ok (w_request w)" and "IS_POSIX (w_request w)" and "canon (D @ opt_list lo @ R)"
    and "distinct (map fl_id (w_request w # pre @ D @ opt_list lo @ R @ post))"
    and "\<And>l. l \<in> set (D @ opt_list lo @ R) \<Longrightarrow> fl_owner l = fl_owner (w_request w)"
    and "\<And>d. d \<in> set D \<Longrightarrow> before_lock d (w_request w)"
    and "\<And>l. lo = Some l \<Longrightarrow> fl_type l \<noteq> fl_type (w_request w) \<and> fl_start l < fl_start (w_request w) \<and>
      fl_start (w_request w) \<le> fl_end l \<and> fl_end l \<le> fl_end (w_request w)"
    and "\<And>x. w_added w \<Longrightarrow> x \<in> set R \<Longrightarrow> fl_start (w_request w) \<le> fl_start x"
    and "\<And>x ty. G x ty \<longleftrightarrow> (if covers (w_request w) x then ty = fl_type (w_request w) \<and> fl_type (w_request w) \<noteq> F_UNLCK
      else held (D @ opt_list lo @ R) x ty)"
  shows "scanned G pre post D lo here R w"
  using assms unfolding scanned_def Let_def by blast

text \<open>The steps of the scan.\<close>

lemma scan_pass:
  assumes "scanned G pre post D lo here (fl # R) w" and "before_lock fl (w_request w)"
  shows "scanned G pre post (D @ [fl]) lo here R (w\<lparr>w_before := w_before w @ [fl]\<rparr>)" and "lo = None"
proof -
  have c: "canon (D @ opt_list lo @ fl # R)" using assms(1) by (simp add: scanned_def Let_def)
  have f: "fl_end fl < fl_start (w_request w)" "fl_start fl \<le> fl_end fl"
    using assms(2) canon_parts(1) [OF c] by (auto simp: before_lock_def range_ok_def)
  show lo: "lo = None"
  proof (rule ccontr)
    assume "lo \<noteq> None"
    then obtain l where "lo = Some l" by auto
    then show False using assms(1) f canon_parts(5) [OF c, of l] by (auto simp: scanned_def Let_def before_lock_def)
  qed
  have "\<not> w_added w" using assms(1) f by (auto simp: scanned_def Let_def)
  with lo show "scanned G pre post (D @ [fl]) lo here R (w\<lparr>w_before := w_before w @ [fl]\<rparr>)"
    using assms by (auto simp: scanned_def Let_def)
qed

lemma store_lock_other: "fl_id fl \<notin> fl_id ` set ls \<Longrightarrow> store_lock fl ls = ls"
  unfolding store_lock_def by (induction ls) auto

lemma scan_merge_added:
  assumes "scanned G pre post D lo here (fl # R) w" and "w_added w" and "fl_type fl = fl_type (w_request w)"
    and "fl_start fl - 1 \<le> fl_end (w_request w)"
  defines "request \<equiv> (w_request w)\<lparr>fl_start := min (fl_start fl) (fl_start (w_request w)), fl_end := max (fl_end fl) (fl_end (w_request w))\<rparr>"
  shows "scanned G pre post D lo here R
    (w\<lparr>w_request := request, w_before := store_lock request (w_before w), w_waits := ws\<rparr>)"
proof -
  let ?r = "w_request w"
  note sc = scannedD [OF assms(1)]
  note p = canon_parts [OF sc(10)]
  have here: "here" using sc(6) [OF assms(2)] assms(3) p(3) by auto
  have fr: "fl_start ?r \<le> fl_start fl" "fl_start fl \<le> fl_end fl" "fl_start ?r \<le> fl_end ?r"
    using sc(15) [OF assms(2), of fl] sc(8) p(1) by (simp_all add: range_ok_def)
  note request = request_def min_absorb2 [OF fr(1)]
  have "fl_id request \<notin> fl_id ` set (pre @ D @ opt_list lo)" using sc(11) by (auto simp: request)
  moreover have "w_before w = (pre @ D @ opt_list lo) @ [?r]" using sc(1) here by simp
  ultimately have st: "store_lock request (w_before w) = pre @ D @ opt_list lo @ [request]"
    using store_lock_other [of request "pre @ D @ opt_list lo"] by (simp add: store_lock_def request)
  have sem: "G x ty \<longleftrightarrow> (if covers request x then ty = fl_type ?r \<and> fl_type ?r \<noteq> F_UNLCK else held (D @ opt_list lo @ R) x ty)" for x ty
  proof -
    have "covers request x \<longleftrightarrow> covers ?r x \<or> covers fl x"
      using fr assms(4) by (auto simp: covers_def request max_def)
    then show ?thesis using sc(16) [of x ty] sc(5) [OF here] assms(3) canon_unique [OF sc(10), of x ty] by auto
  qed
  show ?thesis
  proof (rule scannedI, goal_cases)
    case 8 show ?case using sc(8) p(1) fr by (simp add: request range_ok_def)
  next
    case 9 show ?case using sc(9) by (simp add: request IS_POSIX_def has_flag_def)
  next
    case 11 show ?case using sc(11) by (simp add: request)
  next
    case (12 l) then show ?case using sc(12) [of l] by (auto simp: request)
  next
    case (13 d) then show ?case using sc(13) [of d] by (simp add: request before_lock_def)
  next
    case (14 l) then show ?case using sc(14) [of l] by (simp add: request le_max_iff_disj)
  next
    case (15 x) then show ?case using sc(15) [of x] by (simp add: request)
  qed (use sc(2-7) here p(7) st sem in \<open>simp_all add: request\<close>)
qed

lemma scan_merge_new:
  assumes "scanned G pre post D lo here (fl # R) w" and "\<not> w_added w" and "fl_type fl = fl_type (w_request w)"
    and "fl_start fl - 1 \<le> fl_end (w_request w)" and "fl_start (w_request w) - 1 \<le> fl_end fl"
  defines "fl' \<equiv> fl\<lparr>fl_start := min (fl_start fl) (fl_start (w_request w)), fl_end := max (fl_end fl) (fl_end (w_request w))\<rparr>"
  shows "scanned G pre post D lo True R
    (w\<lparr>w_request := fl', w_added := True, w_before := w_before w @ [fl']\<rparr>)"
proof -
  let ?r = "w_request w"
  note sc = scannedD [OF assms(1)]
  note p = canon_parts [OF sc(10)]
  have here: "\<not> here" using sc(4) assms(2) by auto
  have sem: "G x ty \<longleftrightarrow> (if covers fl' x then ty = fl_type fl \<and> fl_type fl \<noteq> F_UNLCK else held (D @ opt_list lo @ R) x ty)" for x ty
  proof -
    have "covers fl' x \<longleftrightarrow> covers ?r x \<or> covers fl x"
      using sc(8) p(1) assms(4,5) by (auto simp: covers_def fl'_def max_def min_def range_ok_def)
    then show ?thesis using sc(16) [of x ty] p(3) assms(3) canon_unique [OF sc(10), of x ty] by auto
  qed
  have left: "fl_start ?r < fl_start fl" if "lo = Some l" for l
    using sc(14) [OF that] p(5) [OF that] by (auto simp: before_lock_def)
  show ?thesis
  proof (rule scannedI, goal_cases)
    case 8 show ?case using sc(8) p(1) by (auto simp: fl'_def range_ok_def)
  next
    case 9 show ?case using p(2) by (simp add: fl'_def IS_POSIX_def has_flag_def)
  next
    case 11 show ?case using sc(11) by (auto simp: fl'_def)
  next
    case (12 l) then show ?case using sc(12) [of l] sc(12) [of fl] by (auto simp: fl'_def)
  next
    case (13 d) then show ?case using sc(13) [of d] p(4) assms(3) by (auto simp: fl'_def before_lock_def)
  next
    case (14 l) then show ?case using sc(14) [of l] left [of l] assms(3) by (auto simp: fl'_def)
  next
    case (15 x) then show ?case using p(1,6) by (force simp: fl'_def before_lock_def range_ok_def)
  qed (use sc(1-7) here p(3,7) sem in \<open>simp_all add: fl'_def\<close>)
qed

lemma scan_left:
  assumes "scanned G pre post D lo here (fl # R) w" and "fl_type fl \<noteq> fl_type (w_request w)"
    and "fl_start fl < fl_start (w_request w)" and "fl_start (w_request w) \<le> fl_end fl" and "fl_end fl \<le> fl_end (w_request w)"
  shows "scanned G pre post D (Some fl) here R
    (w\<lparr>w_added := (fl_type (w_request w) = F_UNLCK), w_left := Some (fl_id fl), w_before := w_before w @ [fl]\<rparr>)"
    and "lo = None" and "\<not> w_added w"
proof -
  note sc = scannedD [OF assms(1)]
  note p = canon_parts [OF sc(10)]
  show added: "\<not> w_added w" using sc(15) [of fl] assms(3) by auto
  then have here: "\<not> here" using sc(4) by auto
  show lo: "lo = None"
  proof (rule ccontr)
    assume "lo \<noteq> None"
    then obtain l where "lo = Some l" by auto
    then show False using sc(14) [of l] p(5) [of l] assms(3) by (auto simp: before_lock_def)
  qed
  show "scanned G pre post D (Some fl) here R
    (w\<lparr>w_added := (fl_type (w_request w) = F_UNLCK), w_left := Some (fl_id fl), w_before := w_before w @ [fl]\<rparr>)"
  proof (rule scannedI, goal_cases)
    case 11 show ?case using sc(11) lo by simp
  next
    case (15 x) then show ?case using p(6) assms(4) by (force simp: before_lock_def)
  qed (use sc(1,2,8,9,10,12,13,16) lo here assms(2-5) in simp_all)
qed

lemma scan_delete:
  assumes "scanned G pre post D lo here (fl # R) w" and "fl_type fl \<noteq> fl_type (w_request w)"
    and "w_added w \<or> fl_type (w_request w) = F_UNLCK"
    and "fl_start (w_request w) \<le> fl_start fl" and "fl_end fl \<le> fl_end (w_request w)"
  shows "scanned G pre post D lo here R (w\<lparr>w_added := True, w_waits := ws\<rparr>)"
proof -
  let ?r = "w_request w"
  note sc = scannedD [OF assms(1)]
  note p = canon_parts [OF sc(10)]
  have sem: "G x ty \<longleftrightarrow> (if covers ?r x then ty = fl_type ?r \<and> fl_type ?r \<noteq> F_UNLCK else held (D @ opt_list lo @ R) x ty)" for x ty
  proof -
    have "covers fl x \<Longrightarrow> covers ?r x" using assms(4,5) by (auto simp: covers_def)
    then show ?thesis using sc(16) [of x ty] by auto
  qed
  show ?thesis
  proof (rule scannedI, goal_cases)
    case 6 show ?case using sc(6) assms(3) by auto
  next
    case 11 show ?case using sc(11) by simp
  next
    case (15 x) then show ?case using p(1,6) assms(4) by (force simp: before_lock_def range_ok_def)
  qed (use sc(1,2,3,5,8,9,12,13,14) p(7) sem in simp_all)
qed

lemma scan_replace:
  assumes "scanned G pre post D lo here (fl # R) w" and "fl_type fl \<noteq> fl_type (w_request w)"
    and "\<not> w_added w" and "fl_type (w_request w) \<noteq> F_UNLCK"
    and "fl_start (w_request w) \<le> fl_start fl" and "fl_end fl \<le> fl_end (w_request w)"
  defines "fl' \<equiv> fl\<lparr>fl_start := fl_start (w_request w), fl_end := fl_end (w_request w), fl_type := fl_type (w_request w)\<rparr>"
  shows "scanned G pre post D lo True R
    (w\<lparr>w_request := fl', w_added := True, w_before := w_before w @ [fl'], w_waits := ws\<rparr>)"
proof -
  let ?r = "w_request w"
  note sc = scannedD [OF assms(1)]
  note p = canon_parts [OF sc(10)]
  have here: "\<not> here" using sc(4) assms(3) by auto
  have sem: "G x ty \<longleftrightarrow> (if covers fl' x then ty = fl_type ?r \<and> fl_type ?r \<noteq> F_UNLCK else held (D @ opt_list lo @ R) x ty)" for x ty
  proof -
    have "covers fl' x \<longleftrightarrow> covers ?r x" "covers fl x \<Longrightarrow> covers ?r x" using assms(5,6) by (auto simp: covers_def fl'_def)
    then show ?thesis using sc(16) [of x ty] by auto
  qed
  show ?thesis
  proof (rule scannedI, goal_cases)
    case 8 show ?case using sc(8) by (auto simp: fl'_def range_ok_def)
  next
    case 9 show ?case using p(2) by (simp add: fl'_def IS_POSIX_def has_flag_def)
  next
    case 11 show ?case using sc(11) by (auto simp: fl'_def)
  next
    case (12 l) then show ?case using sc(12) [of l] sc(12) [of fl] by (auto simp: fl'_def)
  next
    case (13 d) then show ?case using sc(13) [of d] by (auto simp: fl'_def before_lock_def)
  next
    case (15 x) then show ?case using p(1,6) assms(5) by (force simp: fl'_def before_lock_def range_ok_def)
  qed (use sc(1-7,14) here p(7) assms(4) sem in \<open>simp_all add: fl'_def\<close>)
qed

text \<open>Where the scan stops: behind the request, or at a lock that sticks out on the right.\<close>

definition from_start :: "file_lock \<Rightarrow> file_lock list \<Rightarrow> waits \<Rightarrow> file_lock list \<Rightarrow> bool \<Rightarrow> posix_work \<Rightarrow> bool" where
  "from_start q bs ws cur here w \<longleftrightarrow>
     (here \<or> w_request w = q) \<and> fl_type (w_request w) = fl_type q \<and> fl_owner (w_request w) = fl_owner q \<and>
     (w_added w \<or> cur = bs \<and> w_waits w = ws)"

definition scan_result ::
  "(int \<Rightarrow> u8 \<Rightarrow> bool) \<Rightarrow> file_lock list \<Rightarrow> file_lock list \<Rightarrow> file_lock \<Rightarrow> file_lock list \<Rightarrow> waits \<Rightarrow> posix_work \<Rightarrow> bool" where
  "scan_result G pre post q bs ws w' \<longleftrightarrow>
     (\<exists>w D lo here R. scanned G pre post D lo here R w \<and> from_start q bs ws (D @ opt_list lo @ R) here w \<and>
        (w' = w\<lparr>w_after := R @ post\<rparr> \<and> (R = [] \<or> before_lock (w_request w) (hd R)) \<or>
         (\<exists>fl R'. R = fl # R' \<and> fl_type fl \<noteq> fl_type q \<and> fl_start fl \<le> fl_end (w_request w) \<and> fl_end (w_request w) < fl_end fl \<and>
            fl_start (w_request w) \<le> fl_end fl \<and>
            w' = w\<lparr>w_added := w_added w \<or> fl_type q = F_UNLCK,
              w_left := (if fl_start fl < fl_start (w_request w) then Some (fl_id fl) else w_left w),
              w_right := Some (fl_id fl), w_after := R @ post\<rparr>)))"

lemma scan_resultI:
  assumes "scanned G pre post D lo here R w" and "from_start q bs ws (D @ opt_list lo @ R) here w"
    and "R = [] \<or> before_lock (w_request w) (hd R)"
  shows "scan_result G pre post q bs ws (w\<lparr>w_after := R @ post\<rparr>)"
  unfolding scan_result_def using assms
  by (intro exI [of _ w] exI [of _ D] exI [of _ lo] exI [of _ here] exI [of _ R]) simp

lemma owner_loop_ends:
  assumes "scanned G pre post D lo here R w" and "from_start q bs ws (D @ opt_list lo @ R) here w"
    and "post = [] \<or> fl_owner (hd post) \<noteq> fl_owner q"
  shows "scan_result G pre post q bs ws (owner_loop w (R @ post))"
  using assms
proof (induction R arbitrary: w D lo here)
  case Nil
  then have "owner_loop w post = w\<lparr>w_after := post\<rparr>"
    by (cases post) (auto simp: Let_def posix_same_owner_def from_start_def)
  then show ?case using scan_resultI [OF Nil.prems(1,2)] by simp
next
  case (Cons fl R)
  let ?r = "w_request w"
  note sc = scannedD [OF Cons.prems(1)]
  note p = canon_parts [OF sc(10)]
  note fs = Cons.prems(2) [unfolded from_start_def]
  have own: "fl_owner fl = fl_owner ?r" by (rule sc(12)) simp
  have minmax: "(if x > y then y else x) = min x y" "(if x < y then y else x) = max x y" for x y :: int by auto
  note step = Cons.IH [unfolded from_start_def]
  have stop: "scan_result G pre post q bs ws (w\<lparr>w_after := fl # R @ post\<rparr>)" if "before_lock ?r fl"
    using scan_resultI [OF Cons.prems(1,2)] that by simp
  have pass: "scan_result G pre post q bs ws (owner_loop (w\<lparr>w_before := w_before w @ [fl]\<rparr>) (R @ post))" if "before_lock fl ?r"
    using step [OF scan_pass(1) [OF Cons.prems(1) that]] scan_pass(2) [OF Cons.prems(1) that] fs Cons.prems(3) by simp
  have "scan_result G pre post q bs ws (owner_loop w (fl # R @ post))"
  proof (cases "fl_type ?r = fl_type fl")
    case same: True
    consider "fl_end fl < fl_start ?r - 1" | "fl_start fl - 1 > fl_end ?r" "fl_end fl \<ge> fl_start ?r - 1"
      | "fl_end fl \<ge> fl_start ?r - 1" "fl_start fl - 1 \<le> fl_end ?r" by linarith
    then show ?thesis
    proof cases
      case 1
      then have "before_lock fl ?r" using same by (simp add: before_lock_def)
      then show ?thesis using pass own same 1 by (simp add: posix_same_owner_def)
    next
      case 2
      then have "before_lock ?r fl" using same by (simp add: before_lock_def)
      then show ?thesis using stop own same 2 by (simp add: posix_same_owner_def)
    next
      case 3
      show ?thesis
      proof (cases "w_added w")
        case True
        then have here: here using sc(6) p(3) same by auto
        show ?thesis
          using step [OF scan_merge_added [OF Cons.prems(1) True same [symmetric] 3(2)]] fs Cons.prems(3) own same 3 here True
          by (simp add: posix_same_owner_def Let_def minmax)
      next
        case False
        then show ?thesis
          using step [OF scan_merge_new [OF Cons.prems(1) False same [symmetric] 3(2,1)]] fs Cons.prems(3) own same 3
          by (simp add: posix_same_owner_def Let_def minmax)
      qed
    qed
  next
    case diff: False
    note diff' = not_sym [OF diff]
    consider "fl_end fl < fl_start ?r" | "fl_start fl > fl_end ?r" "fl_start ?r \<le> fl_end fl"
      | "fl_end fl \<ge> fl_start ?r" "fl_start fl \<le> fl_end ?r" "fl_end fl > fl_end ?r"
      | "fl_end fl \<ge> fl_start ?r" "fl_start fl \<le> fl_end ?r" "fl_end fl \<le> fl_end ?r" "fl_start fl \<ge> fl_start ?r"
      | "fl_end fl \<ge> fl_start ?r" "fl_start fl \<le> fl_end ?r" "fl_end fl \<le> fl_end ?r" "fl_start fl < fl_start ?r" by linarith
    then show ?thesis
    proof cases
      case 1
      then have "before_lock fl ?r" using diff by (auto simp: before_lock_def)
      then show ?thesis using pass own diff 1 by (simp add: posix_same_owner_def)
    next
      case 2
      then have "before_lock ?r fl" using diff by (simp add: before_lock_def)
      then show ?thesis using stop own diff 2 by (simp add: posix_same_owner_def)
    next
      case 3
      have "scan_result G pre post q bs ws (w\<lparr>w_added := w_added w \<or> fl_type q = F_UNLCK,
          w_left := (if fl_start fl < fl_start ?r then Some (fl_id fl) else w_left w), w_right := Some (fl_id fl), w_after := fl # R @ post\<rparr>)"
        unfolding scan_result_def using Cons.prems(1,2) fs diff' 3
        by (intro exI [of _ w] exI [of _ D] exI [of _ lo] exI [of _ here] exI [of _ "fl # R"]) simp
      then show ?thesis using own diff 3 fs by (simp add: posix_same_owner_def Let_def)
    next
      case 4
      show ?thesis
      proof (cases "w_added w \<or> fl_type ?r = F_UNLCK")
        case True
        then show ?thesis using step [OF scan_delete [OF Cons.prems(1) diff' True 4(4,3)]] fs Cons.prems(3) own diff 4
          by (simp add: posix_same_owner_def Let_def)
      next
        case False
        then show ?thesis using step [OF scan_replace [OF Cons.prems(1) diff' _ _ 4(4,3)]] fs Cons.prems(3) own diff 4
          by (simp add: posix_same_owner_def Let_def)
      qed
    next
      case 5
      note left = scan_left [OF Cons.prems(1) diff' 5(4,1,3)]
      have "from_start q bs ws (D @ opt_list (Some fl) @ R) here
        (w\<lparr>w_added := (fl_type ?r = F_UNLCK), w_left := Some (fl_id fl), w_before := w_before w @ [fl]\<rparr>)"
        using left(2,3) fs by (simp add: from_start_def)
      then show ?thesis using Cons.IH [OF left(1)] left(3) Cons.prems(3) own diff 5
        by (simp add: posix_same_owner_def Let_def)
    qed
  qed
  then show ?case by simp
qed

text \<open>Putting the pieces together: \<open>L\<close> ends before the request, \<open>Q\<close> begins behind it.\<close>

lemma before_trans:
  "before_lock a r \<Longrightarrow> before_lock r b \<Longrightarrow> range_ok r \<Longrightarrow> before_lock a b"
  by (auto simp: before_lock_def range_ok_def)

lemma held_apart:
  "\<forall>l \<in> set L. before_lock l r \<or> before_lock r l \<Longrightarrow> covers r x \<Longrightarrow> \<not> held L x ty"
  by (force simp: held_def covers_def before_lock_def)

lemma assemble:
  assumes "scanned G pre post D lo here R w" and "canon (D @ L)" and "canon Q"
    and "\<forall>l \<in> set L. before_lock l (w_request w)" and "\<forall>l \<in> set Q. before_lock (w_request w) l"
    and "\<And>x ty. \<not> covers (w_request w) x \<Longrightarrow> held (L @ Q) x ty \<longleftrightarrow> held (opt_list lo @ R) x ty"
    and "(\<exists>i. mid = [locks_copy_lock i (w_request w)]) \<and> fl_type (w_request w) \<noteq> F_UNLCK \<or> mid = [] \<and> fl_type (w_request w) = F_UNLCK"
  shows "canon (D @ L @ mid @ Q)" and "\<And>x ty. held (D @ L @ mid @ Q) x ty \<longleftrightarrow> G x ty"
proof -
  let ?r = "w_request w"
  note sc = scannedD [OF assms(1)]
  have DL: "\<forall>l \<in> set (D @ L). before_lock l ?r" using sc(13) assms(4) by auto
  have "before_lock a b" if "a \<in> set (D @ L)" "b \<in> set Q" for a b
    using before_trans [of a ?r b] DL assms(5) sc(8) that by auto
  moreover have "before_lock a m" "before_lock m b" if "a \<in> set (D @ L)" "b \<in> set Q" "m \<in> set mid" for a b m
    using assms(7) DL assms(5) that by (auto simp: before_lock_def locks_copy_lock_def)
  moreover have "range_ok m \<and> IS_POSIX m \<and> fl_type m \<noteq> F_UNLCK" if "m \<in> set mid" for m
    using assms(7) that sc(8,9) by (auto simp: range_ok_def IS_POSIX_def has_flag_def locks_copy_lock_def)
  moreover have "sorted_wrt before_lock mid" using assms(7) by auto
  moreover have "before_lock a m" if "a \<in> set (D @ L)" "m \<in> set mid" for a m
    using assms(7) DL that by (auto simp: before_lock_def locks_copy_lock_def)
  moreover have "before_lock m b" if "b \<in> set Q" "m \<in> set mid" for b m
    using assms(5,7) that by (auto simp: before_lock_def locks_copy_lock_def)
  ultimately show "canon (D @ L @ mid @ Q)" using assms(2,3)
    unfolding canon_def sorted_wrt_append set_append by blast
  show "held (D @ L @ mid @ Q) x ty \<longleftrightarrow> G x ty" for x ty
  proof (cases "covers ?r x")
    case True
    then have "\<not> held (D @ L) x ty" "\<not> held Q x ty" using held_apart DL assms(5) by blast+
    moreover have "held mid x ty \<longleftrightarrow> ty = fl_type ?r \<and> fl_type ?r \<noteq> F_UNLCK"
      using assms(7) True by (auto simp: covers_def locks_copy_lock_def)
    ultimately show ?thesis using sc(16) [of x ty] True by simp
  next
    case False
    then have "\<not> held mid x ty" using assms(7) by (auto simp: covers_def locks_copy_lock_def)
    then show ?thesis using sc(16) [of x ty] assms(6) [OF False, of ty] False by auto
  qed
qed

text \<open>What is behind the request at the end of the scan, and the lock that is cut on the left.\<close>

definition cut_start :: "int \<Rightarrow> file_lock \<Rightarrow> file_lock" where "cut_start x l = l\<lparr>fl_start := x\<rparr>"
definition cut_end :: "int \<Rightarrow> file_lock \<Rightarrow> file_lock" where "cut_end x l = l\<lparr>fl_end := x\<rparr>"

lemma scanned_canon:
  assumes "scanned G pre post D lo here R w"
  shows "canon D" "canon R" "canon (opt_list lo)" "lo = Some l \<Longrightarrow> range_ok l \<and> IS_POSIX l \<and> fl_type l \<noteq> F_UNLCK"
    "lo = Some l \<Longrightarrow> d \<in> set D \<Longrightarrow> before_lock d l"
  using scannedD(10) [OF assms] by (auto simp: canon_def sorted_wrt_append)

lemma behind_request:
  assumes "canon R" and "R = [] \<or> before_lock r (hd R)"
  shows "\<forall>l \<in> set R. before_lock r l"
  using assms by (cases R) (auto simp: canon_def range_ok_def before_lock_def)

lemma left_cut:
  assumes "scanned G pre post D lo here R w"
  shows "canon (D @ map (cut_end (fl_start (w_request w) - 1)) (opt_list lo))"
    and "\<forall>l \<in> set (map (cut_end (fl_start (w_request w) - 1)) (opt_list lo)). before_lock l (w_request w)"
    and "\<not> covers (w_request w) x \<Longrightarrow> held (map (cut_end (fl_start (w_request w) - 1)) (opt_list lo)) x ty \<longleftrightarrow> held (opt_list lo) x ty"
proof -
  let ?r = "w_request w"
  note sc = scannedD [OF assms] and c = scanned_canon [OF assms]
  have lo: "fl_start l < fl_start ?r" "fl_start ?r \<le> fl_end l" "fl_end l \<le> fl_end ?r" "fl_type l \<noteq> fl_type ?r" if "lo = Some l" for l
    using sc(14) [OF that] by auto
  show "canon (D @ map (cut_end (fl_start ?r - 1)) (opt_list lo))"
  proof (cases lo)
    case (Some l)
    have "range_ok (cut_end (fl_start ?r - 1) l)" using lo [OF Some] c(4) [OF Some] sc(8) by (auto simp: range_ok_def cut_end_def)
    moreover have "IS_POSIX (cut_end (fl_start ?r - 1) l)" using c(4) [OF Some] by (simp add: IS_POSIX_def has_flag_def cut_end_def)
    moreover have "before_lock d (cut_end (fl_start ?r - 1) l)" if "d \<in> set D" for d
      using c(5) [OF Some that] by (simp add: before_lock_def cut_end_def)
    moreover have "fl_type (cut_end (fl_start ?r - 1) l) \<noteq> F_UNLCK" using c(4) [OF Some] by (simp add: cut_end_def)
    ultimately show ?thesis using c(1) Some unfolding canon_def sorted_wrt_append by auto
  qed (use c(1) in simp)
  show "\<forall>l \<in> set (map (cut_end (fl_start ?r - 1)) (opt_list lo)). before_lock l ?r"
    using lo by (cases lo) (auto simp: before_lock_def cut_end_def)
  show "held (map (cut_end (fl_start ?r - 1)) (opt_list lo)) x ty \<longleftrightarrow> held (opt_list lo) x ty" if "\<not> covers ?r x"
    using lo that by (cases lo) (auto simp: covers_def cut_end_def)
qed

lemma right_cut:
  assumes "canon (fl # R)" and "range_ok r" and "fl_type fl \<noteq> fl_type r" and "fl_start fl \<le> fl_end r" and "fl_end r < fl_end fl"
  shows "canon (cut_start (fl_end r + 1) fl # R)" and "\<forall>l \<in> set (cut_start (fl_end r + 1) fl # R). before_lock r l"
    and "\<not> covers r x \<Longrightarrow> fl_start r \<le> x \<Longrightarrow> held (cut_start (fl_end r + 1) fl # R) x ty \<longleftrightarrow> held (fl # R) x ty"
    and "x < fl_start r \<Longrightarrow> held (cut_start (fl_end r + 1) fl # R) x ty \<longleftrightarrow> False"
proof -
  let ?fl = "cut_start (fl_end r + 1) fl"
  have fl: "range_ok fl" "\<forall>l \<in> set R. before_lock fl l" using assms(1) by (auto simp: canon_def)
  have behind: "before_lock r l" if "l \<in> set R" for l
    using fl that assms(2-5) by (force simp: before_lock_def range_ok_def)
  show "canon (?fl # R)"
    using assms(1,2,5) fl unfolding canon_def
    by (auto simp: cut_start_def range_ok_def before_lock_def IS_POSIX_def has_flag_def)
  show "\<forall>l \<in> set (?fl # R). before_lock r l" using behind assms(3) by (auto simp: before_lock_def cut_start_def)
  then show "held (?fl # R) x ty \<longleftrightarrow> False" if "x < fl_start r"
    using that assms(2) by (force simp: held_def covers_def before_lock_def range_ok_def)
  show "held (?fl # R) x ty \<longleftrightarrow> held (fl # R) x ty" if "\<not> covers r x" "fl_start r \<le> x"
    using that assms(4,5) by (auto simp: covers_def cut_start_def)
qed

lemma change_lock_other: "i \<notin> fl_id ` set ls \<Longrightarrow> change_lock i f ls = ls"
  unfolding change_lock_def by (induction ls) auto

lemma change_lock_append [simp]: "change_lock i f (xs @ ys) = change_lock i f xs @ change_lock i f ys"
  by (simp add: change_lock_def)

lemma change_lock_at:
  "fl_id a = i \<Longrightarrow> i \<notin> fl_id ` set xs \<Longrightarrow> i \<notin> fl_id ` set ys \<Longrightarrow> change_lock i f (xs @ a # ys) = xs @ f a # ys"
  using change_lock_other [of i xs f] change_lock_other [of i ys f] by (simp add: change_lock_def)

definition posix_done ::
  "(int \<Rightarrow> u8 \<Rightarrow> bool) \<Rightarrow> file_lock list \<Rightarrow> file_lock list \<Rightarrow> file_lock \<Rightarrow> file_lock list \<Rightarrow> bool" where
  "posix_done G pre post q ls \<longleftrightarrow>
     (\<exists>own. ls = pre @ own @ post \<and> canon own \<and> (\<forall>l \<in> set own. fl_owner l = fl_owner q) \<and>
        (\<forall>x ty. held own x ty \<longleftrightarrow> G x ty) \<and> distinct (map fl_id ls))"

lemma posix_doneI:
  assumes "ls = pre @ own @ post" and "canon own" and "\<And>l. l \<in> set own \<Longrightarrow> fl_owner l = fl_owner q"
    and "\<And>x ty. held own x ty \<longleftrightarrow> G x ty" and "distinct (map fl_id (pre @ own @ post))"
  shows "posix_done G pre post q ls"
  using assms unfolding posix_done_def by blast

text \<open>The list with the request in its place, before the neighbours are cut.\<close>

definition placed :: "file_lock \<Rightarrow> file_lock list \<Rightarrow> bool" where
  "placed r mid \<longleftrightarrow>
     (\<exists>i. mid = [locks_copy_lock i r]) \<and> fl_type r \<noteq> F_UNLCK \<or> mid = [] \<and> fl_type r = F_UNLCK"

lemma cut_ids [simp]: "fl_id (cut_end x l) = fl_id l" "fl_id (cut_start x l) = fl_id l"
  "fl_owner (cut_end x l) = fl_owner l" "fl_owner (cut_start x l) = fl_owner l"
  by (simp_all add: cut_end_def cut_start_def)

lemma finish_plain:
  assumes "scanned G pre post D lo here R w" and "R = [] \<or> before_lock (w_request w) (hd R)" and "placed (w_request w) mid"
    and "distinct (map fl_id (mid @ pre @ D @ opt_list lo @ R @ post))" and "fl_owner (w_request w) = fl_owner q"
  defines "full \<equiv> pre @ D @ opt_list lo @ mid @ R @ post"
  shows "posix_done G pre post q
    (case lo of None \<Rightarrow> full | Some l \<Rightarrow> change_lock (fl_id l) (\<lambda>x. x\<lparr>fl_end := fl_start (w_request w) - 1\<rparr>) full)"
proof -
  let ?L = "map (cut_end (fl_start (w_request w) - 1)) (opt_list lo)"
  note lc = left_cut [OF assms(1)] and c = scanned_canon [OF assms(1)] and sc = scannedD [OF assms(1)]
  have sem: "held (?L @ R) x ty \<longleftrightarrow> held (opt_list lo @ R) x ty" if "\<not> covers (w_request w) x" for x ty
    using lc(3) [OF that, of ty] unfolding held_simps(3) by blast
  note as = assemble [OF assms(1) lc(1) c(2) lc(2) behind_request [OF c(2) assms(2)] sem assms(3) [unfolded placed_def]]
  have out: "(case lo of None \<Rightarrow> full | Some l \<Rightarrow> change_lock (fl_id l) (\<lambda>x. x\<lparr>fl_end := fl_start (w_request w) - 1\<rparr>) full) =
    pre @ (D @ ?L @ mid @ R) @ post"
  proof (cases lo)
    case (Some l)
    have "change_lock (fl_id l) (\<lambda>x. x\<lparr>fl_end := fl_start (w_request w) - 1\<rparr>) ((pre @ D) @ l # mid @ R @ post) =
      (pre @ D) @ (l\<lparr>fl_end := fl_start (w_request w) - 1\<rparr>) # mid @ R @ post"
      using assms(4) Some by (intro change_lock_at) auto
    then show ?thesis using Some by (simp add: full_def cut_end_def)
  qed (simp add: full_def)
  have own: "fl_owner l = fl_owner q" if "l \<in> set (D @ ?L @ mid @ R)" for l
    using that sc(12) assms(3,5) by (auto simp: placed_def locks_copy_lock_def split: option.splits)
  have "mset (map fl_id (pre @ (D @ ?L @ mid @ R) @ post)) = mset (map fl_id (mid @ pre @ D @ opt_list lo @ R @ post))"
    by (cases lo) simp_all
  then have ids: "distinct (map fl_id (pre @ (D @ ?L @ mid @ R) @ post))"
    by (rule iffD2 [OF mset_eq_imp_distinct_iff assms(4)])
  show ?thesis by (rule posix_doneI [OF out as(1) own as(2) ids])
qed

lemma finish_right:
  assumes "scanned G pre post D lo here (fl # R) w" and "fl_type fl \<noteq> fl_type (w_request w)"
    and "fl_start (w_request w) \<le> fl_start fl" and "fl_start fl \<le> fl_end (w_request w)" and "fl_end (w_request w) < fl_end fl"
    and "placed (w_request w) mid" and "distinct (map fl_id (mid @ pre @ D @ opt_list lo @ (fl # R) @ post))"
    and "fl_owner (w_request w) = fl_owner q"
  defines "full \<equiv> change_lock (fl_id fl) (\<lambda>x. x\<lparr>fl_start := fl_end (w_request w) + 1\<rparr>) (pre @ D @ opt_list lo @ mid @ fl # R @ post)"
  shows "posix_done G pre post q
    (case lo of None \<Rightarrow> full | Some l \<Rightarrow> change_lock (fl_id l) (\<lambda>x. x\<lparr>fl_end := fl_start (w_request w) - 1\<rparr>) full)"
proof -
  let ?r = "w_request w"
  let ?L = "map (cut_end (fl_start ?r - 1)) (opt_list lo)" and ?fl = "cut_start (fl_end ?r + 1) fl"
  note lc = left_cut [OF assms(1)] and c = scanned_canon [OF assms(1)] and sc = scannedD [OF assms(1)]
  note rc = right_cut [OF c(2) sc(8) assms(2,4,5)]
  have sem: "held (?L @ ?fl # R) x ty \<longleftrightarrow> held (opt_list lo @ fl # R) x ty" if "\<not> covers ?r x" for x ty
  proof (cases "fl_start ?r \<le> x")
    case True
    then show ?thesis using rc(3) [OF that True, of ty] lc(3) [OF that, of ty] unfolding held_simps(3) by blast
  next
    case False
    have "fl_start ?r \<le> fl_start l" if "l \<in> set (fl # R)" for l
      using that assms(3) c(2) by (fastforce simp: canon_def before_lock_def range_ok_def)
    then have "\<not> held (fl # R) x ty" using False by (force simp: held_def covers_def)
    then show ?thesis using rc(4) [of x ty] False lc(3) [OF that, of ty] unfolding held_simps(3) by auto
  qed
  note as = assemble [OF assms(1) lc(1) rc(1) lc(2) rc(2) sem assms(6) [unfolded placed_def]]
  have full: "full = pre @ D @ opt_list lo @ mid @ ?fl # R @ post"
  proof -
    have "change_lock (fl_id fl) (\<lambda>x. x\<lparr>fl_start := fl_end ?r + 1\<rparr>) ((pre @ D @ opt_list lo @ mid) @ fl # R @ post) =
      (pre @ D @ opt_list lo @ mid) @ (fl\<lparr>fl_start := fl_end ?r + 1\<rparr>) # R @ post"
      using assms(7) by (intro change_lock_at) auto
    then show ?thesis by (simp add: full_def cut_start_def)
  qed
  have out: "(case lo of None \<Rightarrow> full | Some l \<Rightarrow> change_lock (fl_id l) (\<lambda>x. x\<lparr>fl_end := fl_start ?r - 1\<rparr>) full) =
    pre @ (D @ ?L @ mid @ ?fl # R) @ post"
  proof (cases lo)
    case (Some l)
    have "change_lock (fl_id l) (\<lambda>x. x\<lparr>fl_end := fl_start ?r - 1\<rparr>) ((pre @ D) @ l # mid @ ?fl # R @ post) =
      (pre @ D) @ (l\<lparr>fl_end := fl_start ?r - 1\<rparr>) # mid @ ?fl # R @ post"
      using assms(7) Some by (intro change_lock_at) auto
    then show ?thesis using Some by (simp add: full cut_end_def)
  qed (simp add: full)
  have own: "fl_owner l = fl_owner q" if "l \<in> set (D @ ?L @ mid @ ?fl # R)" for l
    using that sc(12) assms(6,8) by (auto simp: placed_def locks_copy_lock_def split: option.splits)
  have "mset (map fl_id (pre @ (D @ ?L @ mid @ ?fl # R) @ post)) = mset (map fl_id (mid @ pre @ D @ opt_list lo @ (fl # R) @ post))"
    by (cases lo) simp_all
  then have ids: "distinct (map fl_id (pre @ (D @ ?L @ mid @ ?fl # R) @ post))"
    by (rule iffD2 [OF mset_eq_imp_distinct_iff assms(7)])
  show ?thesis by (rule posix_doneI [OF out as(1) own as(2) ids])
qed

lemma finish_split:
  assumes "scanned G pre post D None here (fl # R) w" and "fl_type fl \<noteq> fl_type (w_request w)"
    and "fl_start fl < fl_start (w_request w)" and "fl_start (w_request w) \<le> fl_end (w_request w)" and "fl_end (w_request w) < fl_end fl"
    and "placed (w_request w) mid" and "distinct (j # map fl_id (mid @ pre @ D @ (fl # R) @ post))"
    and "fl_owner (w_request w) = fl_owner q"
  shows "posix_done G pre post q
    (change_lock j (\<lambda>x. x\<lparr>fl_end := fl_start (w_request w) - 1\<rparr>)
      (change_lock (fl_id fl) (\<lambda>x. x\<lparr>fl_start := fl_end (w_request w) + 1\<rparr>)
        (pre @ D @ locks_copy_lock j fl # mid @ fl # R @ post)))"
proof -
  let ?r = "w_request w"
  let ?l = "cut_end (fl_start ?r - 1) (locks_copy_lock j fl)" and ?fl = "cut_start (fl_end ?r + 1) fl"
  note c = scanned_canon [OF assms(1)] and sc = scannedD [OF assms(1)]
  note p = canon_parts [OF sc(10)]
  have le: "fl_start fl \<le> fl_end ?r" using assms(3,4) by simp
  note rc = right_cut [OF c(2) sc(8) assms(2) le assms(5)]
  have l: "range_ok ?l" "IS_POSIX ?l" "fl_type ?l = fl_type fl" "before_lock ?l ?r" "fl_start ?l = fl_start fl" "fl_owner ?l = fl_owner fl"
    using p(1,2) sc(8) assms(2,3) by (auto simp: cut_end_def locks_copy_lock_def range_ok_def before_lock_def IS_POSIX_def has_flag_def)
  have "before_lock d ?l" if "d \<in> set D" for d using p(4) that l(3,5) by (auto simp: before_lock_def)
  then have DL: "canon (D @ [?l])" using c(1) l(1-3) p(3) unfolding canon_def sorted_wrt_append by auto
  have sem: "held ([?l] @ ?fl # R) x ty \<longleftrightarrow> held (opt_list None @ fl # R) x ty" if "\<not> covers ?r x" for x ty
  proof (cases "fl_start ?r \<le> x")
    case True
    then have "\<not> covers ?l x" by (simp add: covers_def cut_end_def)
    then show ?thesis using rc(3) [OF that True, of ty] by simp
  next
    case False
    then have "\<not> held R x ty" using p(6) assms(4,5) by (force simp: held_def covers_def before_lock_def)
    moreover have "covers ?l x \<longleftrightarrow> covers fl x" using False assms(4,5) by (auto simp: covers_def cut_end_def locks_copy_lock_def)
    ultimately show ?thesis using rc(4) [of x ty] False l(3) by auto
  qed
  have "\<forall>a \<in> set [?l]. before_lock a ?r" using l(4) by simp
  note as = assemble [OF assms(1) DL rc(1) this rc(2) sem assms(6) [unfolded placed_def]]
  have right: "change_lock (fl_id fl) (\<lambda>x. x\<lparr>fl_start := fl_end ?r + 1\<rparr>) ((pre @ D @ locks_copy_lock j fl # mid) @ fl # R @ post) =
      (pre @ D @ locks_copy_lock j fl # mid) @ (fl\<lparr>fl_start := fl_end ?r + 1\<rparr>) # R @ post"
    using assms(7) by (intro change_lock_at) (auto simp: locks_copy_lock_def)
  have left: "change_lock j (\<lambda>x. x\<lparr>fl_end := fl_start ?r - 1\<rparr>) ((pre @ D) @ locks_copy_lock j fl # mid @ ?fl # R @ post) =
      (pre @ D) @ ((locks_copy_lock j fl)\<lparr>fl_end := fl_start ?r - 1\<rparr>) # mid @ ?fl # R @ post"
    using assms(7) by (intro change_lock_at) (auto simp: locks_copy_lock_def)
  have out: "change_lock j (\<lambda>x. x\<lparr>fl_end := fl_start ?r - 1\<rparr>) (change_lock (fl_id fl) (\<lambda>x. x\<lparr>fl_start := fl_end ?r + 1\<rparr>)
        (pre @ D @ locks_copy_lock j fl # mid @ fl # R @ post)) = pre @ (D @ [?l] @ mid @ ?fl # R) @ post"
    using right left by (simp add: cut_end_def cut_start_def)
  have own: "fl_owner a = fl_owner q" if "a \<in> set (D @ [?l] @ mid @ ?fl # R)" for a
    using that sc(12) assms(6,8) l(6) by (auto simp: placed_def locks_copy_lock_def)
  have "mset (map fl_id (pre @ (D @ [?l] @ mid @ ?fl # R) @ post)) = mset (j # map fl_id (mid @ pre @ D @ (fl # R) @ post))"
    by (simp add: locks_copy_lock_def)
  then have ids: "distinct (map fl_id (pre @ (D @ [?l] @ mid @ ?fl # R) @ post))"
    by (rule iffD2 [OF mset_eq_imp_distinct_iff assms(7)])
  show ?thesis by (rule posix_doneI [OF out as(1) own as(2) ids])
qed

text \<open>The cutting step after each kind of scan.\<close>

abbreviation now :: "bool \<Rightarrow> posix_work \<Rightarrow> file_lock list" where
  "now here w \<equiv> (if here then [w_request w] else [])"

lemma cut_plain:
  assumes "scanned G pre post D lo here R w" and "R = [] \<or> before_lock (w_request w) (hd R)"
    and "placed (w_request w) (now here w @ mid)" and "distinct (map fl_id ((now here w @ mid) @ pre @ D @ opt_list lo @ R @ post))"
    and "fl_owner (w_request w) = fl_owner q"
  shows "posix_done G pre post q (fst (posix_cut new_fl2 (w\<lparr>w_after := R @ post\<rparr>) mid))"
  using finish_plain [OF assms] scannedD(1-3) [OF assms(1)]
  by (cases lo; cases here) (simp_all add: posix_cut_def Let_def del: change_lock_append)

lemma cut_right:
  assumes "scanned G pre post D lo here (fl # R) w" and "fl_type fl \<noteq> fl_type (w_request w)"
    and "fl_start (w_request w) \<le> fl_start fl" and "fl_start fl \<le> fl_end (w_request w)" and "fl_end (w_request w) < fl_end fl"
    and "placed (w_request w) (now here w @ mid)"
    and "distinct (map fl_id ((now here w @ mid) @ pre @ D @ opt_list lo @ (fl # R) @ post))"
    and "fl_owner (w_request w) = fl_owner q"
  shows "posix_done G pre post q (fst (posix_cut new_fl2
    (w\<lparr>w_added := added, w_left := w_left w, w_right := Some (fl_id fl), w_after := (fl # R) @ post\<rparr>) mid))"
proof -
  have "w_left w \<noteq> Some (fl_id fl)" using assms(7) scannedD(3) [OF assms(1)] by (cases lo) auto
  then show ?thesis using finish_right [OF assms] scannedD(1-3) [OF assms(1)]
    by (cases lo; cases here) (simp_all add: posix_cut_def Let_def del: change_lock_append)
qed

lemma cut_split:
  assumes "scanned G pre post D None here (fl # R) w" and "fl_type fl \<noteq> fl_type (w_request w)"
    and "fl_start fl < fl_start (w_request w)" and "fl_end (w_request w) < fl_end fl" and "\<not> here"
    and "placed (w_request w) mid" and "distinct (j # map fl_id (mid @ pre @ D @ (fl # R) @ post))"
    and "fl_owner (w_request w) = fl_owner q"
  shows "posix_done G pre post q (fst (posix_cut (Some j)
    (w\<lparr>w_added := added, w_left := Some (fl_id fl), w_right := Some (fl_id fl), w_after := (fl # R) @ post\<rparr>) mid))"
proof -
  have "fl_start (w_request w) \<le> fl_end (w_request w)" using scannedD(8) [OF assms(1)] by (simp add: range_ok_def)
  note fin = finish_split [OF assms(1-3) this assms(4,6-8)]
  show ?thesis using fin scannedD(1-3) [OF assms(1)] assms(5) by (simp add: posix_cut_def Let_def del: change_lock_append)
qed

lemma scan_unchanged:
  assumes "scanned G pre post D lo here R w" and "from_start q bs ws (D @ opt_list lo @ R) here w" and "\<not> w_added w"
  shows "w_before w @ R @ post = pre @ bs @ post" "w_waits w = ws" "w_request w = q" "\<not> here"
  using assms(2,3) scannedD(1,4) [OF assms(1)] by (auto simp: from_start_def)

lemma placed_added:
  assumes "scanned G pre post D lo here R w" and "w_added w"
  shows "placed (w_request w) (now here w @ [])"
    and "distinct (map fl_id ((now here w @ []) @ pre @ D @ opt_list lo @ R @ post))"
proof -
  have "[w_request w] = [locks_copy_lock (fl_id (w_request w)) (w_request w)]" by (simp add: locks_copy_lock_def)
  then show "placed (w_request w) (now here w @ [])"
    "distinct (map fl_id ((now here w @ []) @ pre @ D @ opt_list lo @ R @ post))"
    using scannedD(5,6,11) [OF assms(1)] assms(2) unfolding placed_def by auto
qed

lemma placed_new:
  assumes "scanned G pre post D lo here R w" and "from_start q bs ws (D @ opt_list lo @ R) here w" and "\<not> w_added w"
    and "fl_type q \<noteq> F_UNLCK" and "i \<notin> fl_id ` set (w_before w @ R @ post)"
  shows "placed (w_request w) (now here w @ [locks_copy_lock i (w_request w)])"
    and "distinct (map fl_id ((now here w @ [locks_copy_lock i (w_request w)]) @ pre @ D @ opt_list lo @ R @ post))"
  using scannedD(1,11) [OF assms(1)] scan_unchanged(3,4) [OF assms(1-3)] assms(4,5)
  unfolding placed_def by (auto simp: locks_copy_lock_def)

definition insert_good ::
  "(int \<Rightarrow> u8 \<Rightarrow> bool) \<Rightarrow> file_lock list \<Rightarrow> file_lock list \<Rightarrow> file_lock \<Rightarrow> file_lock list \<Rightarrow> waits \<Rightarrow> nat option \<Rightarrow> nat option \<Rightarrow>
   unit kresult \<times> file_lock list \<times> waits \<Rightarrow> bool" where
  "insert_good G pre post q bs ws new_fl new_fl2 out \<longleftrightarrow>
     (case out of (res, ls, ws') \<Rightarrow>
        res = Ok \<and> posix_done G pre post q ls \<or>
        res = Inl ENOLCK \<and> (new_fl = None \<or> new_fl2 = None) \<and> (fl_type q \<noteq> F_UNLCK \<or> fl_end q < OFFSET_MAX) \<and>
          ls = pre @ bs @ post \<and> ws' = ws \<or>
        res = Inl ENOENT \<and> fl_type q = F_UNLCK \<and> has_flag q FL_EXISTS \<and> posix_done G pre post q ls \<and>
          ls = pre @ bs @ post \<and> ws' = ws)"

lemma insert_goodI:
  "posix_done G pre post q (fst res) \<Longrightarrow> insert_good G pre post q bs ws new_fl new_fl2 (Ok, res)"
  by (cases res) (simp add: insert_good_def)

lemma insert_plain:
  assumes "scanned G pre post D lo here R w" and "from_start q bs ws (D @ opt_list lo @ R) here w"
    and "R = [] \<or> before_lock (w_request w) (hd R)" and "\<And>i. new_fl = Some i \<Longrightarrow> i \<notin> fl_id ` set (w_before w @ R @ post)"
  shows "insert_good G pre post q bs ws new_fl new_fl2 (posix_insert new_fl new_fl2 (w\<lparr>w_after := R @ post\<rparr>))"
proof -
  let ?w = "w\<lparr>w_after := R @ post\<rparr>" and ?r = "w_request w"
  note d = scannedD [OF assms(1)]
  have t: "fl_type ?r = fl_type q" "fl_owner ?r = fl_owner q" using assms(2) by (simp_all add: from_start_def)
  note cut = cut_plain [OF assms(1,3) _ _ t(2), of _ new_fl2]
  consider (added) "w_added w" | (new) "\<not> w_added w" "fl_type q \<noteq> F_UNLCK" | (none) "\<not> w_added w" "fl_type q = F_UNLCK" by blast
  then show ?thesis
  proof cases
    case added
    then have "posix_insert new_fl new_fl2 ?w = (Ok, posix_cut new_fl2 ?w [])" using d(2) by (simp add: posix_insert_def Let_def)
    then show ?thesis using insert_goodI [OF cut [OF placed_added [OF assms(1) added]]] by simp
  next
    case new
    note u = scan_unchanged [OF assms(1,2) new(1)]
    show ?thesis
    proof (cases new_fl)
      case None
      then show ?thesis using new d(2) t u by (simp add: posix_insert_def insert_good_def Let_def)
    next
      case (Some i)
      then have "posix_insert new_fl new_fl2 ?w = (Ok, posix_cut new_fl2 ?w [locks_copy_lock i ?r])"
        using new d(2) t by (simp add: posix_insert_def Let_def)
      then show ?thesis using insert_goodI [OF cut [OF placed_new [OF assms(1,2) new assms(4) [OF Some]]]] by simp
    qed
  next
    case none
    note u = scan_unchanged [OF assms(1,2) none(1)]
    have lo: "lo = None" using d(7) none t by (cases lo) auto
    have "posix_done G pre post q (fst (posix_cut new_fl2 ?w []))"
      using u(4) d(11) none t by (intro cut) (auto simp: placed_def)
    moreover have "fst (posix_cut new_fl2 ?w []) = w_before w @ R @ post" using d(2,3) lo by (simp add: posix_cut_def)
    moreover have "posix_insert new_fl new_fl2 ?w = (if has_flag q FL_EXISTS then Inl ENOENT else Ok, w_before w @ R @ post, w_waits w)"
      using none d(2) t u(3) by (simp add: posix_insert_def Let_def)
    ultimately show ?thesis using u none(2) by (simp add: insert_good_def)
  qed
qed

lemma insert_split:
  assumes "scanned G pre post D lo here (fl # R) w" and "from_start q bs ws (D @ opt_list lo @ fl # R) here w"
    and "fl_type fl \<noteq> fl_type q" and "fl_start fl < fl_start (w_request w)" and "fl_end (w_request w) < fl_end fl"
    and "\<And>i. new_fl = Some i \<Longrightarrow> i \<notin> fl_id ` set (w_before w @ (fl # R) @ post)"
    and "\<And>i. new_fl2 = Some i \<Longrightarrow> i \<notin> fl_id ` set (w_before w @ (fl # R) @ post)" and "new_fl = None \<or> new_fl \<noteq> new_fl2"
  shows "insert_good G pre post q bs ws new_fl new_fl2 (posix_insert new_fl new_fl2
    (w\<lparr>w_added := w_added w \<or> fl_type q = F_UNLCK, w_left := Some (fl_id fl), w_right := Some (fl_id fl), w_after := (fl # R) @ post\<rparr>))"
    (is "insert_good _ _ _ _ _ _ _ _ (posix_insert _ _ ?w)")
proof -
  let ?r = "w_request w"
  note d = scannedD [OF assms(1)]
  have t: "fl_type ?r = fl_type q" "fl_owner ?r = fl_owner q" using assms(2) by (simp_all add: from_start_def)
  have added: "\<not> w_added w" using d(15) [of fl] assms(4) by auto
  note u = scan_unchanged [OF assms(1,2) added]
  have lo: "lo = None"
  proof (rule ccontr)
    assume "lo \<noteq> None"
    then obtain l where "lo = Some l" by auto
    then show False using d(10,14) assms(4) by (auto simp: canon_def before_lock_def sorted_wrt_append)
  qed
  define mid where "mid = (if fl_type q = F_UNLCK then [] else [locks_copy_lock (the new_fl) ?r])"
  show ?thesis
  proof (cases "new_fl2 = None \<or> fl_type q \<noteq> F_UNLCK \<and> new_fl = None")
    case True
    then have "posix_insert new_fl new_fl2 ?w = (Inl ENOLCK, w_before w @ (fl # R) @ post, w_waits w)"
      using added t(1) by (auto simp: posix_insert_def Let_def)
    moreover have "fl_end q < OFFSET_MAX" using canon_parts(1) [OF d(10)] assms(5) u(3) by (simp add: range_ok_def)
    ultimately show ?thesis using u True by (auto simp: insert_good_def)
  next
    case False
    then obtain j where j: "new_fl2 = Some j" by auto
    have m: "placed ?r mid" "distinct (j # map fl_id (mid @ pre @ D @ (fl # R) @ post))"
      using False j assms(6-8) d(1,11) lo u(4) t(1) unfolding placed_def mid_def by (auto simp: locks_copy_lock_def)
    have "fl_type fl \<noteq> fl_type ?r" using assms(3) t by simp
    note fin = cut_split [OF assms(1) [unfolded lo] this assms(4,5) u(4) m t(2)]
    have "posix_insert new_fl new_fl2 ?w = (Ok, posix_cut (Some j) ?w mid)"
      using False j added t(1) unfolding posix_insert_def mid_def by (auto simp: Let_def)
    then show ?thesis using insert_goodI [OF fin] by simp
  qed
qed

lemma insert_right:
  assumes "scanned G pre post D lo here (fl # R) w" and "from_start q bs ws (D @ opt_list lo @ fl # R) here w"
    and "fl_type fl \<noteq> fl_type q" and "fl_start (w_request w) \<le> fl_start fl" and "fl_start fl \<le> fl_end (w_request w)"
    and "fl_end (w_request w) < fl_end fl" and "\<And>i. new_fl = Some i \<Longrightarrow> i \<notin> fl_id ` set (w_before w @ (fl # R) @ post)"
  shows "insert_good G pre post q bs ws new_fl new_fl2 (posix_insert new_fl new_fl2
    (w\<lparr>w_added := w_added w \<or> fl_type q = F_UNLCK, w_left := w_left w, w_right := Some (fl_id fl), w_after := (fl # R) @ post\<rparr>))"
    (is "insert_good _ _ _ _ _ _ _ _ (posix_insert _ _ ?w)")
proof -
  let ?r = "w_request w"
  note d = scannedD [OF assms(1)]
  have t: "fl_type ?r = fl_type q" "fl_owner ?r = fl_owner q" using assms(2) by (simp_all add: from_start_def)
  have left: "w_left w \<noteq> Some (fl_id fl)" using d(3,11) by (cases lo) auto
  have "fl_type fl \<noteq> fl_type ?r" using assms(3) t by simp
  note cut = cut_right [OF assms(1) this assms(4-6) _ _ t(2), of _ new_fl2 "w_added w \<or> fl_type q = F_UNLCK"]
  consider (added) "w_added w" | (new) "\<not> w_added w" "fl_type q \<noteq> F_UNLCK" | (unl) "\<not> w_added w" "fl_type q = F_UNLCK" by blast
  then show ?thesis
  proof cases
    case added
    then have "posix_insert new_fl new_fl2 ?w = (Ok, posix_cut new_fl2 ?w [])" using left by (simp add: posix_insert_def Let_def)
    then show ?thesis using insert_goodI [OF cut [OF placed_added [OF assms(1) added]]] by simp
  next
    case new
    note u = scan_unchanged [OF assms(1,2) new(1)]
    show ?thesis
    proof (cases new_fl)
      case None
      then show ?thesis using new left t u by (simp add: posix_insert_def insert_good_def Let_def)
    next
      case (Some i)
      then have "posix_insert new_fl new_fl2 ?w = (Ok, posix_cut new_fl2 ?w [locks_copy_lock i ?r])"
        using new left t by (simp add: posix_insert_def Let_def)
      then show ?thesis using insert_goodI [OF cut [OF placed_new [OF assms(1,2) new assms(7) [OF Some]]]] by simp
    qed
  next
    case unl
    then have "posix_insert new_fl new_fl2 ?w = (Ok, posix_cut new_fl2 ?w [])" using left by (simp add: posix_insert_def Let_def)
    moreover have "placed ?r (now here w @ [])" "distinct (map fl_id ((now here w @ []) @ pre @ D @ opt_list lo @ (fl # R) @ post))"
      using scan_unchanged(4) [OF assms(1,2) unl(1)] unl(2) t d(11) by (auto simp: placed_def)
    ultimately show ?thesis using insert_goodI [OF cut] by simp
  qed
qed

lemma posix_insert_ok:
  assumes "scan_result G pre post q bs ws w'"
    and "\<And>i. new_fl = Some i \<Longrightarrow> i \<notin> fl_id ` set (w_before w' @ w_after w')"
    and "\<And>i. new_fl2 = Some i \<Longrightarrow> i \<notin> fl_id ` set (w_before w' @ w_after w')" and "new_fl = None \<or> new_fl \<noteq> new_fl2"
  shows "insert_good G pre post q bs ws new_fl new_fl2 (posix_insert new_fl new_fl2 w')"
proof -
  obtain w D lo here R where sc: "scanned G pre post D lo here R w" "from_start q bs ws (D @ opt_list lo @ R) here w"
    and stop: "w' = w\<lparr>w_after := R @ post\<rparr> \<and> (R = [] \<or> before_lock (w_request w) (hd R)) \<or>
      (\<exists>fl R'. R = fl # R' \<and> fl_type fl \<noteq> fl_type q \<and> fl_start fl \<le> fl_end (w_request w) \<and> fl_end (w_request w) < fl_end fl \<and>
        fl_start (w_request w) \<le> fl_end fl \<and>
        w' = w\<lparr>w_added := w_added w \<or> fl_type q = F_UNLCK,
          w_left := (if fl_start fl < fl_start (w_request w) then Some (fl_id fl) else w_left w),
          w_right := Some (fl_id fl), w_after := R @ post\<rparr>)"
    using assms(1) unfolding scan_result_def by blast
  have same: "w_before w' = w_before w" "w_after w' = R @ post" using stop by auto
  note fresh = assms(2,3) [unfolded same]
  from stop show ?thesis
  proof (rule disjE)
    assume "w' = w\<lparr>w_after := R @ post\<rparr> \<and> (R = [] \<or> before_lock (w_request w) (hd R))"
    then show ?thesis using insert_plain [OF sc, where new_fl = new_fl and ?new_fl2.0 = new_fl2] fresh(1) by blast
  next
    assume "\<exists>fl R'. R = fl # R' \<and> fl_type fl \<noteq> fl_type q \<and> fl_start fl \<le> fl_end (w_request w) \<and> fl_end (w_request w) < fl_end fl \<and>
        fl_start (w_request w) \<le> fl_end fl \<and>
        w' = w\<lparr>w_added := w_added w \<or> fl_type q = F_UNLCK,
          w_left := (if fl_start fl < fl_start (w_request w) then Some (fl_id fl) else w_left w),
          w_right := Some (fl_id fl), w_after := R @ post\<rparr>"
    then obtain fl R' where R: "R = fl # R'" and r: "fl_type fl \<noteq> fl_type q" "fl_start fl \<le> fl_end (w_request w)" "fl_end (w_request w) < fl_end fl"
      and w': "w' = w\<lparr>w_added := w_added w \<or> fl_type q = F_UNLCK,
          w_left := (if fl_start fl < fl_start (w_request w) then Some (fl_id fl) else w_left w), w_right := Some (fl_id fl), w_after := R @ post\<rparr>"
      by blast
    note sc = sc [unfolded R] and fresh = fresh [unfolded R]
    show ?thesis
    proof (cases "fl_start fl < fl_start (w_request w)")
      case True
      then show ?thesis using insert_split [OF sc r(1) True r(3), where new_fl = new_fl and ?new_fl2.0 = new_fl2] fresh assms(4) w' R by simp
    next
      case False
      then show ?thesis using insert_right [OF sc r(1) _ r(2,3), where new_fl = new_fl and ?new_fl2.0 = new_fl2] fresh(1) w' R by simp
    qed
  qed
qed

section \<open>Waiters keep a lock to wait for\<close>

definition grown :: "file_lock \<Rightarrow> file_lock \<Rightarrow> bool" where
  "grown l l' \<longleftrightarrow> fl_id l' = fl_id l \<and> fl_owner l' = fl_owner l \<and> fl_type l' = fl_type l \<and> fl_flags l' = fl_flags l \<and>
     fl_file l' = fl_file l \<and> fl_start l' \<le> fl_start l \<and> fl_end l \<le> fl_end l'"

text \<open>Every lock of \<open>ls\<close> somebody still waits for is in \<open>ls'\<close>, with at least its range.\<close>

definition awaited :: "waits \<Rightarrow> nat set" where
  "awaited ws = (\<lambda>p. fl_id (snd p)) ` set ws"

definition keeps :: "waits \<Rightarrow> file_lock list \<Rightarrow> file_lock list \<Rightarrow> bool" where
  "keeps ws ls ls' \<longleftrightarrow> (\<forall>l \<in> set ls. fl_id l \<in> awaited ws \<longrightarrow> (\<exists>l' \<in> set ls'. grown l l'))"

lemma lock_grown_refl [simp]: "grown l l"
  by (simp add: grown_def)

lemma lock_grown_trans: "grown a b \<Longrightarrow> grown b c \<Longrightarrow> grown a c"
  by (auto simp: grown_def)

lemma grown_id: "grown a b \<Longrightarrow> fl_id b = fl_id a"
  by (simp add: grown_def)

lemma keeps_refl [simp]: "keeps ws ls ls"
  unfolding keeps_def by (metis lock_grown_refl)

lemma awaited_mono: "set ws' \<subseteq> set ws \<Longrightarrow> awaited ws' \<subseteq> awaited ws"
  unfolding awaited_def by (rule image_mono)

lemma keeps_trans:
  assumes "keeps ws ls ls1" and "keeps ws' ls1 ls2" and "set ws' \<subseteq> set ws"
  shows "keeps ws' ls ls2"
  using assms(1,2) awaited_mono [OF assms(3)] unfolding keeps_def by (metis grown_id lock_grown_trans subsetD)

lemma waits_after_wake [simp]:
  "set (locks_wake_up_blocks i ws) \<subseteq> set ws" "i \<notin> awaited (locks_wake_up_blocks i ws)"
  by (auto simp: locks_wake_up_blocks_def awaited_def)

definition alias_ok :: "posix_work \<Rightarrow> file_lock list \<Rightarrow> bool" where
  "alias_ok w R \<longleftrightarrow> distinct (map fl_id (w_before w @ R)) \<and> fl_id (w_request w) \<notin> fl_id ` set R \<and>
     (\<forall>l \<in> set (w_before w). fl_id l = fl_id (w_request w) \<longrightarrow> l = w_request w)"

definition scan_keeps :: "posix_work \<Rightarrow> file_lock list \<Rightarrow> posix_work \<Rightarrow> bool" where
  "scan_keeps w R w' \<longleftrightarrow> set (w_waits w') \<subseteq> set (w_waits w) \<and> keeps (w_waits w') (w_before w @ R) (w_before w' @ w_after w') \<and>
     fl_id ` set (w_before w' @ w_after w') \<subseteq> fl_id ` set (w_before w @ R)"

lemma scan_keeps_step:
  assumes "scan_keeps w1 R w'" and "set (w_waits w1) \<subseteq> set (w_waits w)" and "keeps (w_waits w1) (w_before w @ fl # R) (w_before w1 @ R)"
    and "fl_id ` set (w_before w1) \<subseteq> fl_id ` set (w_before w @ [fl])"
  shows "scan_keeps w (fl # R) w'"
proof -
  have "keeps (w_waits w') (w_before w @ fl # R) (w_before w' @ w_after w')"
    using keeps_trans [OF assms(3)] assms(1) by (simp add: scan_keeps_def)
  moreover have "fl_id ` set (w_before w' @ w_after w') \<subseteq> fl_id ` set (w_before w1) \<union> fl_id ` set R"
    using assms(1) by (simp add: scan_keeps_def image_Un)
  moreover have "fl_id ` set (w_before w1) \<union> fl_id ` set R \<subseteq> fl_id ` set (w_before w @ fl # R)"
    using assms(4) by (simp add: image_Un) blast
  moreover have "set (w_waits w') \<subseteq> set (w_waits w)" using assms(1,2) by (auto simp: scan_keeps_def)
  ultimately show ?thesis unfolding scan_keeps_def by blast
qed

lemma keeps_one:
  assumes "fl_id fl \<in> awaited ws \<Longrightarrow> \<exists>l' \<in> set xs'. grown fl l'" and "\<And>l. l \<in> set xs \<Longrightarrow> \<exists>l' \<in> set xs'. grown l l'"
  shows "keeps ws (xs @ fl # R) (xs' @ R)"
proof -
  have "\<exists>l' \<in> set (xs' @ R). grown l l'" if "l \<in> set (xs @ fl # R)" "fl_id l \<in> awaited ws" for l
  proof (cases "l \<in> set R")
    case True
    then show ?thesis by (intro bexI [of _ l]) simp_all
  next
    case False
    then show ?thesis using that assms by auto
  qed
  then show ?thesis unfolding keeps_def by blast
qed

lemma scan_keeps_move:
  assumes "alias_ok w (fl # R)" and "alias_ok w1 R \<Longrightarrow> scan_keeps w1 R w'"
    and w1: "w_before w1 = w_before w @ [fl']" "fl_id fl' = fl_id fl" "w_request w1 = w_request w \<or> w_request w1 = fl'"
      "set (w_waits w1) \<subseteq> set (w_waits w)" "grown fl fl' \<or> fl_id fl \<notin> awaited (w_waits w1)"
  shows "scan_keeps w (fl # R) w'"
proof (rule scan_keeps_step [OF assms(2)])
  note a = assms(1) [unfolded alias_ok_def]
  have other: "fl_id l \<noteq> fl_id fl" if "l \<in> set (w_before w)" for l using a imageI [OF that, of fl_id] by auto
  have "l = w_request w1" if "l \<in> set (w_before w1)" "fl_id l = fl_id (w_request w1)" for l
    using a that w1(1-3) other by auto
  moreover have "map fl_id (w_before w1 @ R) = map fl_id (w_before w @ fl # R)" using w1(1,2) by simp
  moreover have "fl_id (w_request w1) \<notin> fl_id ` set R"
    using a w1(3) by (elim disjE) (simp_all add: w1(2))
  ultimately show "alias_ok w1 R" using a unfolding alias_ok_def by metis
  show "keeps (w_waits w1) (w_before w @ fl # R) (w_before w1 @ R)"
  proof (rule keeps_one)
    fix l assume "l \<in> set (w_before w)"
    then show "\<exists>l' \<in> set (w_before w1). grown l l'" using w1(1) by (intro bexI [of _ l]) simp_all
  qed (use w1(1,5) in auto)
qed (use w1 in auto)

lemma scan_keeps_drop:
  assumes "alias_ok w (fl # R)" and "alias_ok w1 R \<Longrightarrow> scan_keeps w1 R w'"
    and w1: "w_before w1 = store_lock r' (w_before w)" "w_request w1 = r'" "fl_id r' = fl_id (w_request w)" "grown (w_request w) r'"
      "set (w_waits w1) \<subseteq> set (w_waits w)" "fl_id fl \<notin> awaited (w_waits w1)"
  shows "scan_keeps w (fl # R) w'"
proof (rule scan_keeps_step [OF assms(2)])
  note a = assms(1) [unfolded alias_ok_def]
  have ids: "map fl_id (w_before w1) = map fl_id (w_before w)" using w1(1) by (auto simp: store_lock_def)
  then have ids': "fl_id ` set (w_before w1) = fl_id ` set (w_before w)" by (metis list.set_map)
  have "l = r'" if "l \<in> set (w_before w1)" "fl_id l = fl_id r'" for l
    using that w1(1) by (auto simp: store_lock_def split: if_splits)
  then show "alias_ok w1 R" using a w1(2,3) unfolding alias_ok_def map_append ids by simp
  show "keeps (w_waits w1) (w_before w @ fl # R) (w_before w1 @ R)"
  proof (rule keeps_one)
    fix l assume l: "l \<in> set (w_before w)"
    then have "(if fl_id l = fl_id r' then r' else l) \<in> set (w_before w1)" using w1(1) by (simp add: store_lock_def)
    moreover have "grown l (if fl_id l = fl_id r' then r' else l)" using a w1(3,4) l by auto
    ultimately show "\<exists>l' \<in> set (w_before w1). grown l l'" by blast
  qed (use w1(6) in simp)
  show "fl_id ` set (w_before w1) \<subseteq> fl_id ` set (w_before w @ [fl])" using ids' by auto
qed (use w1(5) in auto)

lemma owner_loop_keeps: "alias_ok w R \<Longrightarrow> scan_keeps w R (owner_loop w R)"
proof (induction R arbitrary: w)
  case Nil
  then show ?case by (simp add: scan_keeps_def)
next
  case (Cons fl R)
  let ?r = "w_request w"
  have stop: "scan_keeps w (fl # R) w1" if "w_before w1 = w_before w" "w_after w1 = fl # R" "w_waits w1 = w_waits w" for w1
    using that by (simp add: scan_keeps_def)
  note move = scan_keeps_move [OF Cons.prems Cons.IH] and drop_it = scan_keeps_drop [OF Cons.prems Cons.IH]
  have unchanged: "store_lock ?r (w_before w) = w_before w"
    using Cons.prems unfolding alias_ok_def store_lock_def by (intro map_idI) auto
  consider "\<not> posix_same_owner ?r fl" | "posix_same_owner ?r fl" "fl_type ?r = fl_type fl" | "posix_same_owner ?r fl" "fl_type ?r \<noteq> fl_type fl" by blast
  then show ?case
  proof cases
    case 1
    then show ?thesis by (simp add: stop)
  next
    case 2
    consider "fl_end fl < fl_start ?r - 1" | "\<not> fl_end fl < fl_start ?r - 1" "fl_start fl - 1 > fl_end ?r"
      | "\<not> fl_end fl < fl_start ?r - 1" "\<not> fl_start fl - 1 > fl_end ?r" by linarith
    then show ?thesis
    proof cases
      case 3
      let ?s = "if fl_start fl > fl_start ?r then fl_start ?r else fl_start fl"
      let ?e = "if fl_end fl < fl_end ?r then fl_end ?r else fl_end fl"
      show ?thesis
      proof (cases "w_added w")
        case True
        then have "owner_loop w (fl # R) = owner_loop (w\<lparr>w_request := ?r\<lparr>fl_start := ?s, fl_end := ?e\<rparr>,
          w_before := store_lock (?r\<lparr>fl_start := ?s, fl_end := ?e\<rparr>) (w_before w),
          w_waits := locks_wake_up_blocks (fl_id fl) (w_waits w)\<rparr>) R" using 2 3 by (simp add: Let_def)
        then show ?thesis using drop_it [of _ "?r\<lparr>fl_start := ?s, fl_end := ?e\<rparr>"] by (simp add: grown_def)
      next
        case False
        then have "owner_loop w (fl # R) = owner_loop (w\<lparr>w_request := fl\<lparr>fl_start := ?s, fl_end := ?e\<rparr>, w_added := True,
          w_before := w_before w @ [fl\<lparr>fl_start := ?s, fl_end := ?e\<rparr>]\<rparr>) R" using 2 3 by (simp add: Let_def)
        then show ?thesis using move [of _ "fl\<lparr>fl_start := ?s, fl_end := ?e\<rparr>"] by (simp add: grown_def)
      qed
    qed (use 2 in \<open>simp_all add: stop move\<close>)
  next
    case 3
    note diff = 3
    consider "fl_end fl < fl_start ?r" | "\<not> fl_end fl < fl_start ?r" "fl_start fl > fl_end ?r"
      | "\<not> fl_end fl < fl_start ?r" "\<not> fl_start fl > fl_end ?r" "fl_end fl > fl_end ?r"
      | "\<not> fl_end fl < fl_start ?r" "\<not> fl_start fl > fl_end ?r" "\<not> fl_end fl > fl_end ?r" by linarith
    then show ?thesis
    proof cases
      case 4
      let ?fl = "fl\<lparr>fl_start := fl_start ?r, fl_end := fl_end ?r, fl_type := fl_type ?r\<rparr>"
      show ?thesis using diff 4 move [of _ fl] move [of _ ?fl] drop_it [of _ ?r] by (simp add: Let_def unchanged)
    qed (use diff in \<open>simp_all add: Let_def stop move\<close>)
  qed
qed

lemma change_keeps: "i \<notin> awaited ws \<Longrightarrow> keeps ws ls (change_lock i f ls)"
  unfolding keeps_def
proof (intro ballI impI)
  fix l assume "i \<notin> awaited ws" "l \<in> set ls" "fl_id l \<in> awaited ws"
  then have "l \<in> set (change_lock i f ls)" unfolding change_lock_def by force
  then show "\<exists>l' \<in> set (change_lock i f ls). grown l l'" by (intro bexI [of _ l]) simp_all
qed

lemma keeps_more: "set ls \<subseteq> set ls' \<Longrightarrow> keeps ws ls ls'"
  unfolding keeps_def by (metis lock_grown_refl subsetD)

lemma posix_cut_keeps:
  assumes "posix_cut new_fl2 w mid = (ls, ws)"
  shows "set ws \<subseteq> set (w_waits w) \<and> keeps ws (w_before w @ w_after w) ls"
proof -
  obtain left ls1 ws1 where 1: "set ws1 \<subseteq> set (w_waits w)" "keeps ws1 (w_before w @ w_after w) ls1"
    and out: "(ls, ws) = (case left of None \<Rightarrow> (ls1, ws1)
      | Some l \<Rightarrow> (change_lock l (\<lambda>x. x\<lparr>fl_end := fl_start (w_request w) - 1\<rparr>) ls1, locks_wake_up_blocks l ws1))"
  proof (cases "w_right w")
    case None
    have "keeps (w_waits w) (w_before w @ w_after w) (w_before w @ mid @ w_after w)" by (rule keeps_more) auto
    then show ?thesis using that [of "w_waits w" _ "w_left w"] assms None by (simp add: posix_cut_def)
  next
    case (Some r)
    define pieces where "pieces = (if w_left w = Some r then [locks_copy_lock (the new_fl2) (hd (w_after w))] else [])"
    let ?ws = "locks_wake_up_blocks r (w_waits w)"
    have "keeps ?ws (w_before w @ w_after w) (w_before w @ pieces @ mid @ w_after w)" by (rule keeps_more) auto
    then have "keeps ?ws (w_before w @ w_after w)
      (change_lock r (\<lambda>l. l\<lparr>fl_start := fl_end (w_request w) + 1\<rparr>) (w_before w @ pieces @ mid @ w_after w))"
      by (rule keeps_trans [OF _ change_keeps]) simp_all
    then show ?thesis using that [of ?ws _ "if w_left w = Some r then new_fl2 else w_left w"] assms Some
      by (simp add: posix_cut_def pieces_def Let_def split: if_splits)
  qed
  show ?thesis
  proof (cases left)
    case None
    then show ?thesis using 1 out by simp
  next
    case (Some l)
    have "set (locks_wake_up_blocks l ws1) \<subseteq> set (w_waits w)" using 1(1) waits_after_wake(1) by blast
    then show ?thesis using out Some keeps_trans [OF 1(2) change_keeps] by simp
  qed
qed

end
