(* ===== verification/Lock_Contract.thy ===== *)
theory Lock_Contract
  imports Lock_Scan
begin

text \<open>
  What file locks promise: the effect of a POSIX lock request on the locks of an inode, exclusion between
  owners, wake-ups, deadlock detection and the ranges of the fcntl commands.
\<close>

section \<open>The list of an inode\<close>

text \<open>
  Leases and flock locks come first; the POSIX locks are grouped by owner, and the locks of an owner
  are in order, disjoint and merged as far as possible.
\<close>

definition group_ok :: "file_lock list \<Rightarrow> bool" where
  "group_ok g \<longleftrightarrow> g \<noteq> [] \<and> canon g \<and> (\<forall>l \<in> set g. fl_owner l = fl_owner (hd g))"

definition groups_ok :: "file_lock list \<Rightarrow> file_lock list list \<Rightarrow> bool" where
  "groups_ok np gs \<longleftrightarrow> (\<forall>l \<in> set np. \<not> IS_POSIX l) \<and> (\<forall>g \<in> set gs. group_ok g) \<and> distinct (map (fl_owner \<circ> hd) gs)"

definition list_ok :: "file_lock list \<Rightarrow> bool" where
  "list_ok ls \<longleftrightarrow> distinct (map fl_id ls) \<and> (\<exists>np gs. ls = np @ concat gs \<and> groups_ok np gs)"

definition posix_held :: "file_lock list \<Rightarrow> nat \<Rightarrow> int \<Rightarrow> u8 \<Rightarrow> bool" where
  "posix_held ls ow x ty \<longleftrightarrow> (\<exists>l \<in> set ls. IS_POSIX l \<and> fl_owner l = ow \<and> covers l x \<and> fl_type l = ty)"

lemma posix_held_append [simp]: "posix_held (xs @ ys) ow x ty \<longleftrightarrow> posix_held xs ow x ty \<or> posix_held ys ow x ty"
  by (auto simp: posix_held_def)

lemma posix_held_own:
  "canon g \<Longrightarrow> \<forall>l \<in> set g. fl_owner l = ow \<Longrightarrow> posix_held g ow' x ty \<longleftrightarrow> ow' = ow \<and> held g x ty"
  by (auto simp: posix_held_def held_def canon_def)

definition no_own :: "nat \<Rightarrow> file_lock list \<Rightarrow> bool" where
  "no_own ow ls \<longleftrightarrow> (\<forall>l \<in> set ls. IS_POSIX l \<longrightarrow> fl_owner l \<noteq> ow)"

text \<open>The part of the list that belongs to an owner.\<close>

lemma no_own_groups:
  assumes "groups_ok np gs" and "set gs' \<subseteq> set gs" and "\<And>g. g \<in> set gs' \<Longrightarrow> fl_owner (hd g) \<noteq> ow"
  shows "no_own ow (np @ concat gs')"
  unfolding no_own_def
proof (intro ballI impI)
  fix l assume "l \<in> set (np @ concat gs')" "IS_POSIX l"
  then obtain g where "g \<in> set gs'" "l \<in> set g" using assms(1) by (auto simp: groups_ok_def)
  then show "fl_owner l \<noteq> ow" using assms unfolding groups_ok_def group_ok_def by (metis subsetD)
qed

lemma own_part:
  assumes "groups_ok np gs"
  obtains (some) gs1 g gs2 where "gs = gs1 @ g # gs2" and "group_ok g" and "fl_owner (hd g) = ow"
    and "no_own ow (np @ concat gs1)" and "no_own ow (concat gs2)" and "concat gs2 = [] \<or> fl_owner (hd (concat gs2)) \<noteq> ow"
  | (none) "no_own ow (np @ concat gs)"
proof (cases "\<exists>g \<in> set gs. fl_owner (hd g) = ow")
  case True
  then obtain gs1 g gs2 where gs: "gs = gs1 @ g # gs2" "fl_owner (hd g) = ow" by (metis split_list)
  have "ow \<notin> (fl_owner \<circ> hd) ` (set gs1 \<union> set gs2)"
    using assms gs unfolding groups_ok_def by (simp add: image_Un)
  then have d: "fl_owner (hd g') \<noteq> ow" if "g' \<in> set gs1 \<union> set gs2" for g' using that by force
  have "no_own ow (np @ concat gs1)" "no_own ow (np @ concat gs2)"
    using d gs by (auto intro!: no_own_groups [OF assms])
  then have "no_own ow (np @ concat gs1)" "no_own ow (concat gs2)" by (auto simp: no_own_def)
  moreover have "concat gs2 = [] \<or> fl_owner (hd (concat gs2)) \<noteq> ow"
  proof (cases gs2)
    case (Cons g' rest)
    then have "g' \<noteq> []" using assms gs unfolding groups_ok_def group_ok_def by auto
    then show ?thesis using Cons d by auto
  qed simp
  moreover have "group_ok g" using assms gs unfolding groups_ok_def by auto
  ultimately show ?thesis using some gs by blast
next
  case False
  then have "no_own ow (np @ concat gs)" by (intro no_own_groups [OF assms]) auto
  then show ?thesis by (rule none)
qed

lemma groups_replace:
  assumes "groups_ok np (gs1 @ g # gs2)" and "canon own" and "\<forall>l \<in> set own. fl_owner l = fl_owner (hd g)"
  shows "\<exists>gs. np @ concat gs1 @ own @ concat gs2 = np @ concat gs \<and> groups_ok np gs"
proof (cases "own = []")
  case True
  then show ?thesis using assms(1) by (intro exI [of _ "gs1 @ gs2"]) (auto simp: groups_ok_def)
next
  case False
  then have "group_ok own" "fl_owner (hd own) = fl_owner (hd g)" using assms(2,3) by (auto simp: group_ok_def)
  then show ?thesis using assms(1) by (intro exI [of _ "gs1 @ own # gs2"]) (auto simp: groups_ok_def)
qed

lemma groups_append:
  assumes "groups_ok np gs" and "no_own ow (np @ concat gs)" and "canon own" and "\<forall>l \<in> set own. fl_owner l = ow"
  shows "\<exists>gs'. np @ concat gs @ own = np @ concat gs' \<and> groups_ok np gs'"
proof (cases "own = []")
  case True
  then show ?thesis using assms(1) by (intro exI [of _ gs]) simp
next
  case False
  then have g: "group_ok own" "fl_owner (hd own) = ow" using assms(3,4) by (auto simp: group_ok_def)
  have "fl_owner (hd g) \<noteq> ow" if "g \<in> set gs" for g
  proof -
    have "g \<noteq> []" "IS_POSIX (hd g)"
      using assms(1) that unfolding groups_ok_def group_ok_def canon_def by auto
    moreover from this(1) have "hd g \<in> set (concat gs)" using that by simp (metis hd_in_set)
    ultimately show ?thesis using assms(2) by (auto simp: no_own_def)
  qed
  then have "ow \<notin> (fl_owner \<circ> hd) ` set gs" by auto
  then have "groups_ok np (gs @ [own])" using assms(1) g unfolding groups_ok_def by simp
  then show ?thesis by (intro exI [of _ "gs @ [own]"]) simp
qed

section \<open>What a POSIX lock request does\<close>

definition updated :: "file_lock \<Rightarrow> file_lock list \<Rightarrow> file_lock list \<Rightarrow> bool" where
  "updated q ls ls' \<longleftrightarrow> list_ok ls' \<and> filter (\<lambda>l. \<not> IS_POSIX l) ls' = filter (\<lambda>l. \<not> IS_POSIX l) ls \<and>
     (\<forall>ow x ty. posix_held ls' ow x ty \<longleftrightarrow>
        (if ow = fl_owner q \<and> covers q x then ty = fl_type q \<and> fl_type q \<noteq> F_UNLCK else posix_held ls ow x ty))"

definition wanted :: "file_lock \<Rightarrow> file_lock list \<Rightarrow> int \<Rightarrow> u8 \<Rightarrow> bool" where
  "wanted q own x ty \<longleftrightarrow> (if covers q x then ty = fl_type q \<and> fl_type q \<noteq> F_UNLCK else held own x ty)"

text \<open>The locks of the owner of a request, in the list.\<close>

definition own_split :: "nat \<Rightarrow> file_lock list \<Rightarrow> file_lock list \<Rightarrow> file_lock list \<Rightarrow> file_lock list \<Rightarrow> bool" where
  "own_split ow ls pre own post \<longleftrightarrow> ls = pre @ own @ post \<and> no_own ow pre \<and> no_own ow post \<and> canon own \<and>
     (\<forall>l \<in> set own. fl_owner l = ow) \<and> (own = [] \<longrightarrow> post = []) \<and> (post = [] \<or> fl_owner (hd post) \<noteq> ow) \<and>
     (\<forall>own'. canon own' \<and> (\<forall>l \<in> set own'. fl_owner l = ow) \<and> distinct (map fl_id (pre @ own' @ post)) \<longrightarrow> list_ok (pre @ own' @ post))"

lemma own_splitD:
  assumes "own_split ow ls pre own post"
  shows "ls = pre @ own @ post" and "no_own ow pre" and "no_own ow post" and "canon own" and "\<forall>l \<in> set own. fl_owner l = ow"
    and "own = [] \<Longrightarrow> post = []" and "post = [] \<or> fl_owner (hd post) \<noteq> ow"
    and "canon own' \<Longrightarrow> \<forall>l \<in> set own'. fl_owner l = ow \<Longrightarrow> distinct (map fl_id (pre @ own' @ post)) \<Longrightarrow> list_ok (pre @ own' @ post)"
  using assms unfolding own_split_def by blast+

lemma list_ok_split:
  assumes "list_ok ls"
  obtains pre own post where "own_split ow ls pre own post"
proof -
  obtain np gs where ls: "ls = np @ concat gs" and gs: "groups_ok np gs" using assms by (auto simp: list_ok_def)
  from gs show ?thesis
  proof (cases rule: own_part [where ow = ow])
    case (some gs1 g gs2)
    have "list_ok ((np @ concat gs1) @ own' @ concat gs2)"
      if "canon own'" "\<forall>l \<in> set own'. fl_owner l = ow" "distinct (map fl_id ((np @ concat gs1) @ own' @ concat gs2))" for own'
      unfolding list_ok_def using that groups_replace [OF gs [unfolded some(1)], of own'] some(3) by (metis append.assoc)
    then have "own_split ow ls (np @ concat gs1) g (concat gs2)"
      using some ls unfolding own_split_def group_ok_def by (metis append.assoc concat.simps(2) concat_append)
    then show ?thesis by (rule that)
  next
    case none
    have "list_ok (ls @ own' @ [])"
      if "canon own'" "\<forall>l \<in> set own'. fl_owner l = ow" "distinct (map fl_id (ls @ own' @ []))" for own'
      unfolding list_ok_def using that groups_append [OF gs none, of own'] ls by (metis append.assoc append.right_neutral)
    then have "own_split ow ls ls [] []"
      using none ls unfolding own_split_def by (simp add: no_own_def canon_def)
    then show ?thesis by (rule that)
  qed
qed

lemma own_split_while:
  assumes "own_split (fl_owner q) ls pre own post"
  shows "takeWhile (\<lambda>fl. \<not> IS_POSIX fl \<or> \<not> posix_same_owner q fl) ls = pre"
    and "dropWhile (\<lambda>fl. \<not> IS_POSIX fl \<or> \<not> posix_same_owner q fl) ls = own @ post"
proof -
  let ?skip = "\<lambda>fl. \<not> IS_POSIX fl \<or> \<not> posix_same_owner q fl"
  note sp = own_splitD [OF assms]
  have pre: "?skip l" if "l \<in> set pre" for l using sp(2) that by (auto simp: no_own_def posix_same_owner_def)
  have own: "\<not> ?skip l" if "l \<in> set own" for l using sp(4,5) that by (auto simp: canon_def posix_same_owner_def)
  have "takeWhile ?skip (own @ post) = []" "dropWhile ?skip (own @ post) = own @ post"
    using own sp(6) by (cases own; force)+
  then show "takeWhile ?skip ls = pre" "dropWhile ?skip ls = own @ post" using pre unfolding sp(1) by simp_all
qed

lemma posix_done_updated:
  assumes "own_split (fl_owner q) ls pre own post" and "posix_done (wanted q own) pre post q ls'"
  shows "updated q ls ls'"
proof -
  obtain own' where ls': "ls' = pre @ own' @ post" and own': "canon own'" "\<forall>l \<in> set own'. fl_owner l = fl_owner q"
    and sem: "\<And>x ty. held own' x ty \<longleftrightarrow> wanted q own x ty" and d: "distinct (map fl_id ls')"
    using assms(2) unfolding posix_done_def by blast
  note sp = own_splitD [OF assms(1)]
  have "list_ok ls'" using sp(8) own' d unfolding ls' by blast
  moreover have "filter (\<lambda>l. \<not> IS_POSIX l) ls' = filter (\<lambda>l. \<not> IS_POSIX l) ls"
  proof -
    have "filter (\<lambda>l. \<not> IS_POSIX l) g = []" if "canon g" for g using that by (auto simp: canon_def filter_empty_conv)
    then show ?thesis using sp(4) own'(1) unfolding ls' sp(1) by simp
  qed
  moreover have "posix_held ls' ow x ty \<longleftrightarrow>
      (if ow = fl_owner q \<and> covers q x then ty = fl_type q \<and> fl_type q \<noteq> F_UNLCK else posix_held ls ow x ty)" for ow x ty
  proof -
    have "\<not> posix_held pre (fl_owner q) x ty" "\<not> posix_held post (fl_owner q) x ty"
      using sp(2,3) by (auto simp: posix_held_def no_own_def)
    then show ?thesis
      using posix_held_own [OF own', of ow x ty] posix_held_own [OF sp(4,5), of ow x ty] sem [of x ty]
      unfolding ls' sp(1) posix_held_append by (auto simp: wanted_def)
  qed
  ultimately show ?thesis unfolding updated_def by blast
qed

lemma posix_insert_keeps:
  assumes "posix_insert new_fl new_fl2 w = (res, ls, ws)"
  shows "set ws \<subseteq> set (w_waits w) \<and> keeps ws (w_before w @ w_after w) ls"
  using assms posix_cut_keeps [of new_fl2 w _ ls ws]
  unfolding posix_insert_def Let_def by (auto split: if_splits option.splits)

lemma posix_owner_keeps:
  fixes ws :: waits
  assumes "distinct (map fl_id (q # ls))"
  defines "w' \<equiv> posix_owner_locks q ls ws"
  shows "set (w_waits w') \<subseteq> set ws" and "keeps (w_waits w') ls (w_before w' @ w_after w')"
    and "fl_id ` set (w_before w' @ w_after w') \<subseteq> fl_id ` set ls"
proof -
  let ?skip = "\<lambda>fl. \<not> IS_POSIX fl \<or> \<not> posix_same_owner q fl"
  let ?w = "\<lparr>w_request = q, w_added = False, w_left = None, w_right = None, w_before = takeWhile ?skip ls, w_after = [], w_waits = ws\<rparr>"
  have notq: "fl_id l \<noteq> fl_id q" if "l \<in> set ls" for l using assms(1) imageI [OF that, of fl_id] by auto
  have "alias_ok ?w (dropWhile ?skip ls)"
    using assms(1) notq by (auto simp: alias_ok_def simp flip: map_append dest!: set_takeWhileD set_dropWhileD)
  then have "scan_keeps ?w (dropWhile ?skip ls) w'" unfolding w'_def posix_owner_locks_def Let_def by (rule owner_loop_keeps)
  then show "set (w_waits w') \<subseteq> set ws" "keeps (w_waits w') ls (w_before w' @ w_after w')"
    "fl_id ` set (w_before w' @ w_after w') \<subseteq> fl_id ` set ls" unfolding scan_keeps_def by simp_all
qed

lemma posix_update:
  assumes "list_ok ls" and "range_ok q" and "IS_POSIX q" and "fl_id q \<notin> fl_id ` set ls"
    and "\<And>i. i \<in> set_option new_fl \<union> set_option new_fl2 \<Longrightarrow> i \<notin> fl_id ` set ls" and "new_fl = None \<or> new_fl \<noteq> new_fl2"
    and out: "posix_insert new_fl new_fl2 (posix_owner_locks q ls ws) = (res, ls', ws')"
  shows "res = Ok \<and> updated q ls ls' \<or>
    res = Inl ENOLCK \<and> (new_fl = None \<or> new_fl2 = None) \<and> (fl_type q \<noteq> F_UNLCK \<or> fl_end q < OFFSET_MAX) \<and> ls' = ls \<and> ws' = ws \<or>
    res = Inl ENOENT \<and> fl_type q = F_UNLCK \<and> has_flag q FL_EXISTS \<and> updated q ls ls' \<and> ls' = ls \<and> ws' = ws"
proof -
  obtain pre own post where sp: "own_split (fl_owner q) ls pre own post" by (rule list_ok_split [OF assms(1)])
  note s = own_splitD [OF sp]
  have d: "distinct (map fl_id (q # pre @ own @ post))" using assms(1,4) by (simp add: list_ok_def s(1) [symmetric])
  let ?w = "\<lparr>w_request = q, w_added = False, w_left = None, w_right = None, w_before = pre, w_after = [], w_waits = ws\<rparr>"
  have w': "posix_owner_locks q ls ws = owner_loop ?w (own @ post)"
    using own_split_while [OF sp] by (simp add: posix_owner_locks_def)
  have "scanned (wanted q own) pre post [] None False own ?w"
    by (rule scannedI) (use assms(2,3) s(4,5) d in \<open>auto simp: wanted_def\<close>)
  then have sr: "scan_result (wanted q own) pre post q own ws (posix_owner_locks q ls ws)"
    unfolding w' by (rule owner_loop_ends) (use s(7) in \<open>auto simp: from_start_def\<close>)
  have "fl_id ` set (w_before (posix_owner_locks q ls ws) @ w_after (posix_owner_locks q ls ws)) \<subseteq> fl_id ` set ls"
    using posix_owner_keeps(3) [of q ls ws] assms(1,4) by (simp add: list_ok_def)
  then have fresh: "i \<notin> fl_id ` set (w_before (posix_owner_locks q ls ws) @ w_after (posix_owner_locks q ls ws))"
    if "i \<in> set_option new_fl \<union> set_option new_fl2" for i using assms(5) [OF that] by blast
  have "insert_good (wanted q own) pre post q own ws new_fl new_fl2 (res, ls', ws')"
    using posix_insert_ok [OF sr _ _ assms(6)] fresh out by simp
  then show ?thesis using posix_done_updated [OF sp] unfolding insert_good_def s(1) by auto
qed

section \<open>Invariants of the lock tables\<close>

definition exclusive :: "file_lock list \<Rightarrow> bool" where
  "exclusive ls \<longleftrightarrow> (\<forall>x ow ow' ty ty'. posix_held ls ow x ty \<and> posix_held ls ow' x ty' \<and> ow \<noteq> ow' \<longrightarrow> ty \<noteq> F_WRLCK \<and> ty' \<noteq> F_WRLCK)"

definition bsd_lock :: "file_lock \<Rightarrow> bool" where
  "bsd_lock l \<longleftrightarrow> IS_FLOCK l \<and> \<not> IS_POSIX l \<and> \<not> IS_LEASE l"

definition flock_exclusive :: "file_lock list \<Rightarrow> bool" where
  "flock_exclusive ls \<longleftrightarrow> (\<forall>a b. a \<in> set ls \<and> b \<in> set ls \<and> bsd_lock a \<and> bsd_lock b \<longrightarrow> \<not> flock_locks_conflict a b)"

definition table_ok :: "file_lock list \<Rightarrow> bool" where
  "table_ok ls \<longleftrightarrow> list_ok ls \<and> exclusive ls \<and> flock_exclusive ls"

text \<open>Every waiting request has a lock in some list that stands in its way.\<close>

definition hinders :: "file_lock \<Rightarrow> file_lock \<Rightarrow> bool" where
  "hinders l w \<longleftrightarrow> posix_locks_conflict w l \<or> bsd_lock l \<and> flock_locks_conflict w l"

definition waits_ok :: "(nat \<Rightarrow> file_lock list) \<Rightarrow> waits \<Rightarrow> bool" where
  "waits_ok tab ws \<longleftrightarrow> (\<forall>(w, b) \<in> set ws. \<exists>inode. \<exists>l \<in> set (tab inode). fl_id l = fl_id b \<and> fl_owner l = fl_owner b \<and> hinders l w)"

definition locks_ok :: "flock_state \<Rightarrow> bool" where
  "locks_ok st \<longleftrightarrow> (\<forall>inode. table_ok (i_flock st inode)) \<and> waits_ok (i_flock st) (waits st)"

lemma waits_okD:
  "waits_ok tab ws \<Longrightarrow> (w, b) \<in> set ws \<Longrightarrow> \<exists>inode. \<exists>l \<in> set (tab inode). fl_id l = fl_id b \<and> fl_owner l = fl_owner b \<and> hinders l w"
  unfolding waits_ok_def by fast

lemma grown_hinders: "grown l l' \<Longrightarrow> hinders l w \<Longrightarrow> hinders l' w"
  by (auto simp: grown_def hinders_def bsd_lock_def posix_locks_conflict_def flock_locks_conflict_def locks_conflict_def locks_overlap_def
      posix_same_owner_def IS_POSIX_def IS_FLOCK_def IS_LEASE_def has_flag_def split: if_splits)

text \<open>A list may be replaced by one that keeps what is still waited for.\<close>

lemma waits_ok_update:
  assumes "waits_ok tab ws" and "set ws' \<subseteq> set ws" and "keeps ws' (tab inode) ls"
  shows "waits_ok (tab(inode := ls)) ws'"
  unfolding waits_ok_def
proof (rule ballI, clarify)
  fix w b assume wb: "(w, b) \<in> set ws'"
  then obtain i l where l: "l \<in> set (tab i)" "fl_id l = fl_id b" "fl_owner l = fl_owner b" "hinders l w"
    using waits_okD [OF assms(1)] assms(2) by blast
  show "\<exists>j. \<exists>l \<in> set ((tab(inode := ls)) j). fl_id l = fl_id b \<and> fl_owner l = fl_owner b \<and> hinders l w"
  proof (cases "i = inode")
    case True
    have "fl_id l \<in> awaited ws'" using wb l(2) by (force simp: awaited_def)
    then obtain l' where "l' \<in> set ls" "grown l l'" using assms(3) l(1) True by (auto simp: keeps_def)
    then show ?thesis using l grown_hinders [of l l' w] by (intro exI [of _ inode] bexI [of _ l']) (auto simp: grown_def)
  next
    case False
    then show ?thesis using l by (intro exI [of _ i]) auto
  qed
qed

lemma waits_ok_less: "waits_ok tab ws \<Longrightarrow> set ws' \<subseteq> set ws \<Longrightarrow> waits_ok tab ws'"
  unfolding waits_ok_def by blast

lemma waits_ok_block:
  assumes "waits_ok tab ws" and "locks_insert_block fl q ws = Some ws'" and "fl \<in> set (tab inode)" and "hinders fl q"
  shows "waits_ok tab ws'"
proof -
  have ws': "ws' = (q, fl) # ws" using assms(2) by (simp add: locks_insert_block_def split: if_splits)
  show ?thesis unfolding waits_ok_def
  proof (rule ballI, clarify)
    fix w b assume "(w, b) \<in> set ws'"
    then show "\<exists>inode. \<exists>l \<in> set (tab inode). fl_id l = fl_id b \<and> fl_owner l = fl_owner b \<and> hinders l w"
      using waits_okD [OF assms(1), of w b] assms(3,4) unfolding ws' by auto
  qed
qed

lemma locks_ok_table:
  assumes "locks_ok st" and "table_ok ls" and "waits_ok ((i_flock st)(inode := ls)) ws"
  shows "locks_ok (st\<lparr>i_flock := (i_flock st)(inode := ls), waits := ws\<rparr>)"
  using assms by (simp add: locks_ok_def)

subsection \<open>POSIX requests\<close>

lemma no_conflict_exclusive:
  assumes "exclusive ls" and "updated q ls ls'" and "fl_type q = F_UNLCK \<or> find (\<lambda>fl. IS_POSIX fl \<and> posix_locks_conflict q fl) ls = None"
  shows "exclusive ls'"
proof -
  have free: "ty \<noteq> F_WRLCK \<and> fl_type q \<noteq> F_WRLCK" if "posix_held ls ow x ty" "covers q x" "ow \<noteq> fl_owner q" "fl_type q \<noteq> F_UNLCK" for ow x ty
  proof -
    obtain l where l: "l \<in> set ls" "IS_POSIX l" "fl_owner l = ow" "covers l x" "fl_type l = ty"
      using \<open>posix_held ls ow x ty\<close> unfolding posix_held_def by blast
    then have "\<not> posix_locks_conflict q l" using assms(3) \<open>fl_type q \<noteq> F_UNLCK\<close> by (auto simp: find_None_iff)
    then show ?thesis using l that(2,3)
      by (auto simp: posix_locks_conflict_def posix_same_owner_def locks_overlap_def locks_conflict_def covers_def split: if_splits)
  qed
  have held: "posix_held ls' ow x ty \<longleftrightarrow>
      (if ow = fl_owner q \<and> covers q x then ty = fl_type q \<and> fl_type q \<noteq> F_UNLCK else posix_held ls ow x ty)" for ow x ty
    using assms(2) unfolding updated_def by blast
  show ?thesis unfolding exclusive_def
  proof (intro allI impI, elim conjE)
    fix x ow ow' ty ty' assume *: "posix_held ls' ow x ty" "posix_held ls' ow' x ty'" "ow \<noteq> ow'"
    consider "ow = fl_owner q" "covers q x" | "ow' = fl_owner q" "covers q x" | "\<not> (ow = fl_owner q \<and> covers q x)" "\<not> (ow' = fl_owner q \<and> covers q x)" by blast
    then show "ty \<noteq> F_WRLCK \<and> ty' \<noteq> F_WRLCK"
    proof cases
      case 3
      then have "posix_held ls ow x ty" "posix_held ls ow' x ty'" using * held by auto
      then show ?thesis using assms(1) *(3) unfolding exclusive_def by blast
    qed (use * held free in auto)
  qed
qed

lemma updated_flock_exclusive: "flock_exclusive ls \<Longrightarrow> updated q ls ls' \<Longrightarrow> flock_exclusive ls'"
proof -
  assume f: "flock_exclusive ls" and u: "updated q ls ls'"
  have "bsd_lock l \<and> l \<in> set ls' \<longleftrightarrow> bsd_lock l \<and> l \<in> set ls" for l
  proof -
    have "l \<in> set (filter (\<lambda>l. \<not> IS_POSIX l) ls') \<longleftrightarrow> l \<in> set (filter (\<lambda>l. \<not> IS_POSIX l) ls)" using u by (simp add: updated_def)
    then show ?thesis by (auto simp: bsd_lock_def)
  qed
  then show ?thesis using f unfolding flock_exclusive_def by blast
qed

text \<open>The premises of a request: its structure and the new ones are none of the list.\<close>

definition fresh_ids :: "file_lock \<Rightarrow> nat option \<Rightarrow> nat option \<Rightarrow> file_lock list \<Rightarrow> bool" where
  "fresh_ids q a1 a2 ls \<longleftrightarrow> fl_id q \<notin> fl_id ` set ls \<and> (\<forall>i \<in> set_option a1 \<union> set_option a2. i \<notin> fl_id ` set ls) \<and> (a1 = None \<or> a1 \<noteq> a2)"

definition posix_request :: "file_lock \<Rightarrow> bool" where
  "posix_request q \<longleftrightarrow> IS_POSIX q \<and> (has_flag q FL_ACCESS \<or> range_ok q)"

text \<open>The conflict that a request meets, if any.\<close>

definition conflict :: "flock_state \<Rightarrow> nat \<Rightarrow> file_lock \<Rightarrow> file_lock option" where
  "conflict st inode q =
     (if fl_type q \<noteq> F_UNLCK then find (\<lambda>fl. IS_POSIX fl \<and> posix_locks_conflict q fl) (i_flock st inode) else None)"

lemma conflictD: "conflict st inode q = Some fl \<Longrightarrow> fl \<in> set (i_flock st inode) \<and> posix_locks_conflict q fl \<and> IS_POSIX fl"
  unfolding conflict_def by (auto simp: find_Some_iff split: if_splits)

lemma posix_granted:
  assumes "list_ok (i_flock st inode)" and "IS_POSIX q" and "range_ok q" and "\<not> has_flag q FL_ACCESS"
    and "fresh_ids q a1 a2 (i_flock st inode)" and "conflict st inode q = None"
    and "do_posix_lock_file st inode q a1 a2 = (out, conf, st')"
  obtains ls ws where "st' = st\<lparr>i_flock := (i_flock st)(inode := ls), waits := ws\<rparr>"
    and "set ws \<subseteq> set (waits st)" and "keeps ws (i_flock st inode) ls"
    and "out = Lock_ret Ok \<and> updated q (i_flock st inode) ls \<or>
      out = Lock_ret (Inl ENOLCK) \<and> ls = i_flock st inode \<and> ws = waits st \<and>
        (a1 = None \<or> a2 = None) \<and> (fl_type q \<noteq> F_UNLCK \<or> fl_end q < OFFSET_MAX) \<or>
      out = Lock_ret (Inl ENOENT) \<and> fl_type q = F_UNLCK \<and> has_flag q FL_EXISTS \<and> updated q (i_flock st inode) ls \<and>
        ls = i_flock st inode \<and> ws = waits st"
proof -
  let ?ls = "i_flock st inode"
  define need where "need \<longleftrightarrow> fl_type q \<noteq> F_UNLCK \<or> fl_start q \<noteq> 0 \<or> fl_end q \<noteq> OFFSET_MAX"
  let ?n1 = "if need then a1 else None" and ?n2 = "if need then a2 else None"
  obtain r ls ws where ins: "posix_insert ?n1 ?n2 (posix_owner_locks q ?ls (waits st)) = (r, ls, ws)" by (metis prod_cases3)
  have st': "out = Lock_ret r" "st' = st\<lparr>i_flock := (i_flock st)(inode := ls), waits := ws\<rparr>"
    using assms(4,6,7) ins unfolding do_posix_lock_file_def conflict_def [symmetric] need_def by (simp_all add: Let_def)
  have fresh: "\<And>i. i \<in> set_option ?n1 \<union> set_option ?n2 \<Longrightarrow> i \<notin> fl_id ` set ?ls" "?n1 = None \<or> ?n1 \<noteq> ?n2" "fl_id q \<notin> fl_id ` set ?ls"
    using assms(5) unfolding fresh_ids_def by (auto split: if_splits)
  note upd = posix_update [OF assms(1,3,2) fresh(3,1,2) ins]
  have d: "distinct (map fl_id (q # ?ls))" using assms(1) fresh(3) by (simp add: list_ok_def)
  note ok = posix_owner_keeps [OF d, of "waits st"]
  have "set ws \<subseteq> set (waits st) \<and> keeps ws ?ls ls"
    using posix_insert_keeps [OF ins] ok(1) keeps_trans [OF ok(2)] by blast
  then show ?thesis using that [OF st'(2)] upd st'(1) unfolding need_def by (auto split: if_splits)
qed

lemma posix_lock_ok:
  assumes "locks_ok st" and "posix_request q" and "fresh_ids q a1 a2 (i_flock st inode)"
    and "do_posix_lock_file st inode q a1 a2 = (out, conf, st')"
  shows "locks_ok st'"
proof (cases "conflict st inode q")
  case (Some fl)
  note c = conflictD [OF Some]
  have "hinders fl q" using c by (simp add: hinders_def)
  then have "waits_ok (i_flock st) ws" if "locks_insert_block fl q (waits st) = Some ws" for ws
    using waits_ok_block [OF _ that] c assms(1) unfolding locks_ok_def by blast
  moreover have "st' = st \<or> (\<exists>ws. locks_insert_block fl q (waits st) = Some ws \<and> st' = st\<lparr>waits := ws\<rparr>)"
    using assms(4) Some unfolding do_posix_lock_file_def conflict_def [symmetric]
    by (auto simp: Let_def split: if_splits option.splits)
  ultimately show ?thesis using assms(1) by (auto simp: locks_ok_def)
next
  case None
  note tab = assms(1) [unfolded locks_ok_def table_ok_def]
  show ?thesis
  proof (cases "has_flag q FL_ACCESS")
    case True
    then have "st' = st"
      using assms(4) None unfolding do_posix_lock_file_def conflict_def [symmetric] by (simp add: Let_def)
    then show ?thesis using assms(1) by simp
  next
    case False
    then have q: "IS_POSIX q" "range_ok q" using assms(2) by (auto simp: posix_request_def)
    have lo: "list_ok (i_flock st inode)" using tab by blast
    obtain ls ws where st': "st' = st\<lparr>i_flock := (i_flock st)(inode := ls), waits := ws\<rparr>"
      and ws: "set ws \<subseteq> set (waits st)" "keeps ws (i_flock st inode) ls"
      and upd: "updated q (i_flock st inode) ls \<or> ls = i_flock st inode"
      by (rule posix_granted [OF lo q False assms(3) None assms(4)]) blast
    have "table_ok ls" using upd
    proof
      assume u: "updated q (i_flock st inode) ls"
      then have "list_ok ls" by (simp add: updated_def)
      moreover have "exclusive ls"
        using no_conflict_exclusive [OF _ u] None tab unfolding conflict_def by (auto split: if_splits)
      moreover have "flock_exclusive ls" using updated_flock_exclusive [OF _ u] tab by blast
      ultimately show ?thesis by (simp add: table_ok_def)
    qed (use tab in \<open>simp add: table_ok_def\<close>)
    then show ?thesis using locks_ok_table [OF assms(1)] waits_ok_update [OF _ ws(1)] ws(2) assms(1) unfolding st' locks_ok_def by simp
  qed
qed

subsection \<open>BSD requests\<close>

lemma while_posix:
  assumes "\<And>l. l \<in> set xs \<Longrightarrow> IS_POSIX l"
  shows "takeWhile (\<lambda>l. \<not> IS_POSIX l) xs = []" and "dropWhile (\<lambda>l. \<not> IS_POSIX l) xs = xs"
  using assms by (cases xs; simp)+

lemma list_ok_parts:
  assumes "list_ok ls"
  obtains gs where "dropWhile (\<lambda>l. \<not> IS_POSIX l) ls = concat gs" and "groups_ok (takeWhile (\<lambda>l. \<not> IS_POSIX l) ls) gs"
    and "\<And>l. l \<in> set (concat gs) \<Longrightarrow> IS_POSIX l"
proof -
  obtain np gs where ls: "ls = np @ concat gs" and gs: "groups_ok np gs" using assms by (auto simp: list_ok_def)
  have np: "\<forall>l \<in> set np. \<not> IS_POSIX l" using gs by (simp add: groups_ok_def)
  have posix: "IS_POSIX l" if "l \<in> set (concat gs)" for l
    using that gs unfolding groups_ok_def group_ok_def canon_def set_concat by blast
  note while_posix [of "concat gs", OF posix]
  then have w: "takeWhile (\<lambda>l. \<not> IS_POSIX l) ls = np" "dropWhile (\<lambda>l. \<not> IS_POSIX l) ls = concat gs"
    using np unfolding ls by (simp_all add: dropWhile_append2)
  show ?thesis by (rule that [of gs]) (use w gs posix in simp_all)
qed

lemma group_ok_filter: "group_ok g \<Longrightarrow> filter P g \<noteq> [] \<Longrightarrow> group_ok (filter P g) \<and> fl_owner (hd (filter P g)) = fl_owner (hd g)"
proof -
  assume g: "group_ok g" and ne: "filter P g \<noteq> []"
  then have own: "fl_owner l = fl_owner (hd g)" if "l \<in> set (filter P g)" for l
    using that unfolding group_ok_def set_filter by blast
  have hd: "fl_owner (hd (filter P g)) = fl_owner (hd g)" using own [OF hd_in_set [OF ne]] .
  have "sorted_wrt before_lock (filter P g)" using g by (simp add: group_ok_def canon_def sorted_wrt_filter)
  then have "canon (filter P g)" using g unfolding group_ok_def canon_def by simp
  then show ?thesis using hd ne own unfolding group_ok_def hd by blast
qed

lemma list_ok_filter: "list_ok ls \<Longrightarrow> list_ok (filter P ls)"
proof -
  assume "list_ok ls"
  then obtain np gs where ls: "ls = np @ concat gs" and gs: "groups_ok np gs" and d: "distinct (map fl_id ls)" by (auto simp: list_ok_def)
  define gs' where "gs' = filter (\<lambda>g. g \<noteq> []) (map (filter P) gs)"
  have g': "group_ok (filter P g)" "fl_owner (hd (filter P g)) = fl_owner (hd g)" if "g \<in> set gs" "filter P g \<noteq> []" for g
    using group_ok_filter [of g P] that gs by (auto simp: groups_ok_def)
  have "map (fl_owner \<circ> hd) gs' = map (fl_owner \<circ> hd) (filter (\<lambda>g. filter P g \<noteq> []) gs)"
    using g'(2) unfolding gs'_def filter_map comp_def by simp
  moreover have "distinct (map (fl_owner \<circ> hd) (filter (\<lambda>g. filter P g \<noteq> []) gs))"
    using gs by (auto simp: groups_ok_def distinct_map intro: inj_on_subset)
  moreover have "\<forall>g \<in> set gs'. group_ok g" using g'(1) by (auto simp: gs'_def)
  ultimately have "groups_ok (filter P np) gs'" using gs by (simp add: groups_ok_def)
  moreover have "filter P (concat gs) = concat gs'" unfolding gs'_def by (induction gs) auto
  moreover have "distinct (map fl_id (filter P ls))" using d by (rule distinct_map_filter)
  ultimately show ?thesis unfolding list_ok_def ls by (intro conjI exI [of _ "filter P np"] exI [of _ gs']) simp_all
qed

lemma table_ok_filter: "table_ok ls \<Longrightarrow> table_ok (filter P ls)"
proof -
  assume t: "table_ok ls"
  have "posix_held (filter P ls) ow x ty \<Longrightarrow> posix_held ls ow x ty" for ow x ty by (auto simp: posix_held_def)
  then have "exclusive (filter P ls)" using t unfolding table_ok_def exclusive_def by blast
  then show ?thesis using t list_ok_filter unfolding table_ok_def flock_exclusive_def by auto
qed

lemma keeps_filter:
  assumes "\<And>l. l \<in> set ls \<Longrightarrow> \<not> P l \<Longrightarrow> fl_id l \<notin> awaited ws"
  shows "keeps ws ls (filter P ls)"
  unfolding keeps_def
proof (intro ballI impI)
  fix l assume "l \<in> set ls" "fl_id l \<in> awaited ws"
  then have "l \<in> set (filter P ls)" using assms by auto
  then show "\<exists>l' \<in> set (filter P ls). grown l l'" by (intro bexI [of _ l]) simp_all
qed

lemma locks_ok_filter:
  assumes "locks_ok st" and "set ws \<subseteq> set (waits st)" and "\<And>l. l \<in> set (i_flock st inode) \<Longrightarrow> \<not> P l \<Longrightarrow> fl_id l \<notin> awaited ws"
  shows "locks_ok (st\<lparr>i_flock := (i_flock st)(inode := filter P (i_flock st inode)), waits := ws\<rparr>)"
  using assms keeps_filter [of "i_flock st inode" P ws]
  by (intro locks_ok_table waits_ok_update table_ok_filter) (auto simp: locks_ok_def)

lemma flock_own_filter:
  "flock_own filp ty ls = Some (d, ls') \<Longrightarrow> distinct (map fl_id ls) \<Longrightarrow>
   ls' = (case d of None \<Rightarrow> ls | Some i \<Rightarrow> filter (\<lambda>l. fl_id l \<noteq> i) ls)"
proof (induction ls arbitrary: d ls')
  case (Cons fl rest)
  have "fl_id l \<noteq> fl_id fl" if "l \<in> set rest" for l using Cons.prems(2) imageI [OF that, of fl_id] by auto
  then have rest: "filter (\<lambda>l. fl_id l \<noteq> fl_id fl) rest = rest" by (simp add: filter_id_conv)
  show ?case
  proof (cases "\<not> IS_POSIX fl \<and> (IS_LEASE fl \<or> filp \<noteq> fl_file fl)")
    case True
    then obtain ls1 where ls1: "flock_own filp ty rest = Some (d, ls1)" "ls' = fl # ls1"
      using Cons.prems(1) by (auto split: option.splits)
    have "fl_id fl \<noteq> i" if "d = Some i" for i
    proof -
      have "i \<in> fl_id ` set rest" using ls1(1) that
        by (induction rest arbitrary: ls1) (auto split: if_splits option.splits)
      then show ?thesis using Cons.prems(2) by auto
    qed
    then show ?thesis using Cons.IH [OF ls1(1)] Cons.prems(2) ls1(2) by (auto split: option.splits)
  qed (use Cons.prems rest in \<open>auto split: if_splits\<close>)
qed simp

lemma flock_release_ok:
  assumes "locks_ok st" and "flock_release st inode filp ty = Some (found, st')"
  shows "locks_ok st'"
proof -
  obtain d ls where own: "flock_own filp ty (i_flock st inode) = Some (d, ls)"
    and st': "st' = st\<lparr>i_flock := (i_flock st)(inode := ls),
      waits := (case d of None \<Rightarrow> waits st | Some i \<Rightarrow> locks_wake_up_blocks i (waits st))\<rparr>"
    using assms(2) by (auto simp: flock_release_def split: option.splits)
  have "distinct (map fl_id (i_flock st inode))" using assms(1) by (simp add: locks_ok_def table_ok_def list_ok_def)
  note ls = flock_own_filter [OF own this]
  show ?thesis
  proof (cases d)
    case None
    then show ?thesis using assms(1) ls st' by simp
  next
    case (Some i)
    then show ?thesis unfolding st' ls
      using locks_ok_filter [OF assms(1), of "locks_wake_up_blocks i (waits st)" inode "\<lambda>l. fl_id l \<noteq> i"] by simp
  qed
qed

lemma remove_flock_filter:
  assumes "remove_flock_loop filp ls ws = Some (ls', ws')"
  shows "ls' = filter (\<lambda>l. fl_file l \<noteq> filp) ls" and "set ws' \<subseteq> set ws" and "l \<in> set ls \<Longrightarrow> fl_file l = filp \<Longrightarrow> fl_id l \<notin> awaited ws'"
proof -
  have "ls' = filter (\<lambda>l. fl_file l \<noteq> filp) ls \<and> set ws' \<subseteq> set ws \<and> (\<forall>l \<in> set ls. fl_file l = filp \<longrightarrow> fl_id l \<notin> awaited ws')"
    using assms
  proof (induction ls arbitrary: ws ls')
    case (Cons fl rest)
    show ?case
    proof (cases "fl_file fl = filp")
      case True
      then have *: "remove_flock_loop filp rest (locks_wake_up_blocks (fl_id fl) ws) = Some (ls', ws')"
        using Cons.prems by (auto split: if_splits)
      note ih = Cons.IH [OF *]
      moreover have "set ws' \<subseteq> set ws" using ih waits_after_wake(1) by blast
      moreover have "fl_id fl \<notin> awaited ws'" using ih awaited_mono waits_after_wake(2) by blast
      ultimately show ?thesis using True by auto
    next
      case False
      then show ?thesis using Cons.prems Cons.IH by (auto split: option.splits)
    qed
  qed simp
  then show "ls' = filter (\<lambda>l. fl_file l \<noteq> filp) ls" "set ws' \<subseteq> set ws" "l \<in> set ls \<Longrightarrow> fl_file l = filp \<Longrightarrow> fl_id l \<notin> awaited ws'" by blast+
qed

lemma remove_flock_ok:
  assumes "locks_ok st" and "locks_remove_flock st inode filp = Some st'"
  shows "locks_ok st'"
proof -
  obtain ls ws where r: "remove_flock_loop filp (i_flock st inode) (waits st) = Some (ls, ws)"
    and st': "st' = st\<lparr>i_flock := (i_flock st)(inode := ls), waits := ws\<rparr>"
    using assms(2) by (auto simp: locks_remove_flock_def split: option.splits)
  note f = remove_flock_filter [OF r]
  show ?thesis unfolding st' f(1) by (rule locks_ok_filter [OF assms(1) f(2)]) (use f(3) in simp)
qed

lemma flock_place_ok:
  assumes "locks_ok st" and "bsd_lock q" and "new_fl \<notin> fl_id ` set (i_flock st inode)"
    and "flock_place st inode q new_fl = (out, st')"
  shows "locks_ok st'"
proof -
  let ?ls = "i_flock st inode"
  let ?front = "takeWhile (\<lambda>fl. \<not> IS_POSIX fl) ?ls" and ?behind = "dropWhile (\<lambda>fl. \<not> IS_POSIX fl) ?ls"
  let ?c = "find (\<lambda>fl. \<not> IS_LEASE fl \<and> flock_locks_conflict q fl) ?front" and ?new = "locks_copy_lock new_fl q"
  note tab = assms(1) [unfolded locks_ok_def]
  have t: "table_ok ?ls" using tab by blast
  show ?thesis
  proof (cases ?c)
    case (Some fl)
    then have fl: "fl \<in> set ?front" "\<not> IS_LEASE fl" "flock_locks_conflict q fl" by (auto simp: find_Some_iff)
    then have "bsd_lock fl" by (auto simp: bsd_lock_def flock_locks_conflict_def dest: set_takeWhileD split: if_splits)
    then have h: "hinders fl q" "fl \<in> set ?ls" using fl by (auto simp: hinders_def dest: set_takeWhileD)
    have "st' = st \<or> (\<exists>ws. locks_insert_block fl q (waits st) = Some ws \<and> st' = st\<lparr>waits := ws\<rparr>)"
      using assms(4) Some by (auto simp: flock_place_def Let_def split: if_splits option.splits)
    moreover have "waits_ok (i_flock st) ws" if "locks_insert_block fl q (waits st) = Some ws" for ws
      using waits_ok_block [OF _ that, of "i_flock st" inode] h tab by blast
    ultimately show ?thesis using assms(1) by (auto simp: locks_ok_def)
  next
    case None
    show ?thesis
    proof (cases "has_flag q FL_ACCESS")
      case True
      then show ?thesis using assms(1,4) None by (simp add: flock_place_def Let_def)
    next
      case False
      let ?ls' = "(?front @ [?new]) @ ?behind"
      have st': "st' = st\<lparr>i_flock := (i_flock st)(inode := ?ls')\<rparr>"
        using assms(4) None False by (simp add: flock_place_def Let_def)
      have set': "set ?ls' = insert ?new (set ?ls)" using set_append [of ?front ?behind] by simp
      have new: "bsd_lock ?new" "flock_locks_conflict a ?new \<longleftrightarrow> flock_locks_conflict a q"
        "flock_locks_conflict ?new a \<longleftrightarrow> flock_locks_conflict q a" for a
        using assms(2) by (auto simp: bsd_lock_def flock_locks_conflict_def locks_conflict_def locks_copy_lock_def IS_FLOCK_def IS_POSIX_def
            IS_LEASE_def has_flag_def)
      obtain gs where gs: "?behind = concat gs" "groups_ok ?front gs" "\<And>l. l \<in> set (concat gs) \<Longrightarrow> IS_POSIX l"
        using list_ok_parts [of ?ls] t unfolding table_ok_def by metis
      have d: "distinct (map fl_id (?new # ?ls))"
        using t assms(3) by (simp add: table_ok_def list_ok_def locks_copy_lock_def)
      have "mset ?ls' = mset (?new # ?ls)" using mset_append [of ?front ?behind] by simp
      then have "mset (map fl_id ?ls') = mset (map fl_id (?new # ?ls))" by (simp only: mset_map)
      then have "distinct (map fl_id ?ls')" by (rule iffD2 [OF mset_eq_imp_distinct_iff d])
      moreover have "groups_ok (?front @ [?new]) gs" using gs(2) new(1) by (auto simp: groups_ok_def bsd_lock_def)
      ultimately have "list_ok ?ls'" unfolding list_ok_def using gs(1) by metis
      moreover have "posix_held ?ls' ow x ty \<longleftrightarrow> posix_held ?ls ow x ty" for ow x ty
        unfolding posix_held_def set' using new(1) by (auto simp: bsd_lock_def)
      then have "exclusive ?ls'" using t unfolding table_ok_def exclusive_def by blast
      moreover have "\<not> flock_locks_conflict q l" if "l \<in> set ?ls" "bsd_lock l" for l
      proof -
        have "l \<notin> set ?behind" using gs that(2) by (auto simp: bsd_lock_def)
        then have "l \<in> set ?front" using that(1) set_append [of ?front ?behind] by simp
        then show ?thesis using None that(2) by (auto simp: find_None_iff bsd_lock_def)
      qed
      moreover have "flock_locks_conflict l q \<Longrightarrow> bsd_lock l \<Longrightarrow> flock_locks_conflict q l" for l
        using assms(2) by (auto simp: flock_locks_conflict_def locks_conflict_def bsd_lock_def split: if_splits)
      moreover have "\<not> flock_locks_conflict q q" by (simp add: flock_locks_conflict_def)
      ultimately have "table_ok ?ls'"
        using t new unfolding table_ok_def flock_exclusive_def set' by blast
      moreover have "waits_ok ((i_flock st)(inode := ?ls')) (waits st)"
        using waits_ok_update [of "i_flock st" "waits st" "waits st" inode ?ls'] keeps_more [of ?ls ?ls' "waits st"] set' tab by auto
      ultimately show ?thesis using tab unfolding st' locks_ok_def by simp
    qed
  qed
qed

section \<open>All lock calls together\<close>

text \<open>
  The calls of any number of tasks, each under \<^verbatim>\<open>file_lock_lock\<close>.  \<^verbatim>\<open>flock_lock_file\<close> drops that lock between
  giving up an old and asking for a new lock, and its two halves are two steps.  A sleeping request that
  is woken is a new call; one that gets a signal is taken out of the queue.
\<close>

inductive lock_step :: "flock_state \<Rightarrow> flock_state \<Rightarrow> bool" where
  posix: "posix_request q \<Longrightarrow> fresh_ids q a1 a2 (i_flock st inode) \<Longrightarrow>
     do_posix_lock_file st inode q a1 a2 = (out, conf, st') \<Longrightarrow> lock_step st st'"
| release: "flock_release st inode filp ty = Some (found, st') \<Longrightarrow> lock_step st st'"
| place: "bsd_lock q \<Longrightarrow> new_fl \<notin> fl_id ` set (i_flock st inode) \<Longrightarrow> flock_place st inode q new_fl = (out, st') \<Longrightarrow> lock_step st st'"
| unblock: "posix_unblock_lock st waiter = (r, st') \<Longrightarrow> lock_step st st'"
| close_posix: "i \<notin> fl_id ` set (i_flock st inode) \<Longrightarrow> locks_remove_posix st inode i filp owner tgid = st' \<Longrightarrow> lock_step st st'"
| close_flock: "locks_remove_flock st inode filp = Some st' \<Longrightarrow> lock_step st st'"

definition no_locks :: "flock_state \<Rightarrow> bool" where
  "no_locks st \<longleftrightarrow> (\<forall>inode. i_flock st inode = []) \<and> waits st = []"

lemma no_locks_ok: "no_locks st \<Longrightarrow> locks_ok st"
proof -
  assume n: "no_locks st"
  have "list_ok []" unfolding list_ok_def by (auto intro!: exI [of _ "[]"] simp: groups_ok_def)
  then have "table_ok []" by (simp add: table_ok_def exclusive_def flock_exclusive_def posix_held_def)
  then show ?thesis using n by (simp add: no_locks_def locks_ok_def waits_ok_def)
qed

lemma remove_posix_ok:
  assumes "locks_ok st" and "i \<notin> fl_id ` set (i_flock st inode)"
  shows "locks_ok (locks_remove_posix st inode i filp owner tgid)"
proof -
  let ?q = "\<lparr>fl_id = i, fl_owner = owner, fl_flags = FL_POSIX OR FL_CLOSE, fl_type = F_UNLCK, fl_pid = tgid,
              fl_file = filp, fl_start = 0, fl_end = OFFSET_MAX\<rparr>"
  obtain out conf st' where call: "do_posix_lock_file st inode ?q None None = (out, conf, st')" by (metis prod_cases3)
  have "posix_request ?q" by (simp add: posix_request_def IS_POSIX_def has_flag_def range_ok_def OFFSET_MAX_def)
  moreover have "fresh_ids ?q None None (i_flock st inode)" using assms(2) by (simp add: fresh_ids_def)
  ultimately have "locks_ok st'" using posix_lock_ok [OF assms(1) _ _ call] by blast
  then show ?thesis using assms(1) call by (simp add: locks_remove_posix_def posix_lock_file_def)
qed

lemma lock_step_ok: "lock_step st st' \<Longrightarrow> locks_ok st \<Longrightarrow> locks_ok st'"
proof (induction rule: lock_step.induct)
  case (unblock st waiter r st')
  then show ?case using waits_ok_less [of "i_flock st" "waits st"]
    by (auto simp: posix_unblock_lock_def locks_delete_block_def locks_ok_def split: if_splits)
qed (blast intro: posix_lock_ok flock_release_ok flock_place_ok remove_posix_ok remove_flock_ok)+

interpretation fl: invariant_system no_locks lock_step locks_ok
  by unfold_locales (auto intro: no_locks_ok lock_step_ok)

section \<open>Deadlocks\<close>

text \<open>Who waits for whom, and the walk along these edges.\<close>

definition posix_waits :: "waits \<Rightarrow> waits" where
  "posix_waits ws = filter (\<lambda>(w, b). IS_POSIX b) ws"

definition wait_edges :: "waits \<Rightarrow> (nat \<times> nat) set" where
  "wait_edges ws = (\<lambda>(w, b). (fl_owner w, fl_owner b)) ` set (posix_waits ws)"

definition waits_once :: "waits \<Rightarrow> bool" where
  "waits_once ws \<longleftrightarrow> distinct (map (\<lambda>(w, b). fl_owner w) (posix_waits ws))"

lemma edges_step:
  assumes "what_owner_is_waiting_for ws b = Some next"
  shows "(fl_owner b, fl_owner next) \<in> wait_edges ws"
proof -
  obtain w where "find (\<lambda>(fl, next). IS_POSIX next \<and> posix_same_owner fl b) ws = Some (w, next)"
    using assms by (auto simp: what_owner_is_waiting_for_def)
  then have "(w, next) \<in> set (posix_waits ws)" "fl_owner w = fl_owner b"
    by (auto simp: find_Some_iff posix_waits_def posix_same_owner_def in_set_conv_nth)
  then show ?thesis unfolding wait_edges_def by force
qed

lemma waits_once_unique:
  assumes "waits_once ws" and "(w, b) \<in> set (posix_waits ws)" and "(w', b') \<in> set (posix_waits ws)" and "fl_owner w = fl_owner w'"
  shows "b = b'"
  using assms unfolding waits_once_def distinct_map inj_on_def by auto

lemma edges_next:
  assumes "waits_once ws" and "(fl_owner b, ow) \<in> wait_edges ws"
  obtains nx where "what_owner_is_waiting_for ws b = Some nx" and "fl_owner nx = ow"
proof -
  obtain w fl where wf: "(w, fl) \<in> set (posix_waits ws)" "fl_owner w = fl_owner b" "fl_owner fl = ow"
    using assms(2) by (auto simp: wait_edges_def)
  then have "find (\<lambda>(fl, next). IS_POSIX next \<and> posix_same_owner fl b) ws \<noteq> None"
    by (auto simp: find_None_iff posix_waits_def posix_same_owner_def)
  then obtain w' nx where f: "find (\<lambda>(fl, next). IS_POSIX next \<and> posix_same_owner fl b) ws = Some (w', nx)" by auto
  then have "(w', nx) \<in> set (posix_waits ws)" "fl_owner w' = fl_owner b"
    by (auto simp: find_Some_iff posix_waits_def posix_same_owner_def in_set_conv_nth)
  then have "nx = fl" using waits_once_unique [OF assms(1) _ wf(1)] wf(2) by simp
  then show ?thesis using that f wf(3) by (simp add: what_owner_is_waiting_for_def)
qed

text \<open>The loop follows the edges for at most eleven steps.\<close>

lemma deadlock_loop_sound:
  "deadlock_loop ws c b i \<Longrightarrow> (fl_owner b, fl_owner c) \<in> (wait_edges ws)\<^sup>+"
proof (induction ws c b i rule: deadlock_loop.induct)
  case (1 ws c b i)
  then obtain nx where nx: "what_owner_is_waiting_for ws b = Some nx" "\<not> i > MAX_DEADLK_ITERATIONS"
    "posix_same_owner c nx \<or> deadlock_loop ws c nx (i + 1)"
    by (subst (asm) (2) deadlock_loop.simps) (auto split: option.splits if_splits)
  have e: "(fl_owner b, fl_owner nx) \<in> wait_edges ws" by (rule edges_step [OF nx(1)])
  show ?case
  proof (cases "posix_same_owner c nx")
    case True
    then show ?thesis using e by (auto simp: posix_same_owner_def)
  next
    case False
    then show ?thesis using "1.IH" [OF nx(1,2)] nx(3) e by (meson trancl_into_trancl2)
  qed
qed

lemma deadlock_loop_complete:
  assumes "waits_once ws" and "(fl_owner b, fl_owner c) \<in> wait_edges ws ^^ n" and "0 < n" and "n + i \<le> MAX_DEADLK_ITERATIONS + 1"
  shows "deadlock_loop ws c b i"
  using assms(2-4)
proof (induction n arbitrary: b i)
  case (Suc n)
  obtain ow where ow: "(fl_owner b, ow) \<in> wait_edges ws" "(ow, fl_owner c) \<in> wait_edges ws ^^ n"
    using relpow_Suc_D2 [OF Suc.prems(1)] by blast
  obtain nx where nx: "what_owner_is_waiting_for ws b = Some nx" "fl_owner nx = ow" by (rule edges_next [OF assms(1) ow(1)])
  have i: "\<not> i > MAX_DEADLK_ITERATIONS" using Suc.prems(3) by simp
  show ?case
  proof (cases "posix_same_owner c nx")
    case True
    then show ?thesis using nx(1) i by (subst deadlock_loop.simps) simp
  next
    case False
    then have "n \<noteq> 0" using ow(2) nx(2) by (auto simp: posix_same_owner_def intro: ccontr)
    then have "deadlock_loop ws c nx (i + 1)" using Suc.IH [of nx "i + 1"] ow(2) nx(2) Suc.prems(3) by simp
    then show ?thesis using nx(1) i False by (subst deadlock_loop.simps) simp
  qed
qed simp

lemma card_wait_edges: "finite (wait_edges ws)" "card (wait_edges ws) \<le> length (posix_waits ws)"
  unfolding wait_edges_def by (simp, meson card_image_le card_length finite_set le_trans)

lemma deadlock_exact:
  assumes "waits_once ws" and "length (posix_waits ws) \<le> MAX_DEADLK_ITERATIONS + 1"
  shows "posix_locks_deadlock ws c b \<longleftrightarrow> (fl_owner b, fl_owner c) \<in> (wait_edges ws)\<^sup>+"
proof
  assume "(fl_owner b, fl_owner c) \<in> (wait_edges ws)\<^sup>+"
  then obtain n where "0 < n" "n \<le> card (wait_edges ws)" "(fl_owner b, fl_owner c) \<in> wait_edges ws ^^ n"
    unfolding trancl_finite_eq_relpow [OF card_wait_edges(1)] by blast
  then show "posix_locks_deadlock ws c b"
    unfolding posix_locks_deadlock_def using deadlock_loop_complete [OF assms(1), of b c n 0] card_wait_edges(2) [of ws] assms(2) by simp
qed (simp add: posix_locks_deadlock_def deadlock_loop_sound)

section \<open>Properties\<close>

text \<open>
  C22: A POSIX lock request changes exactly the range it names.  On a well-formed list, a request that
  succeeds gives its owner the type of the request on every byte of its range (nothing, for an
  unlock), and leaves every other byte, every other owner and every other kind of lock as it was;
  the list stays grouped by owner, in order, disjoint and merged.  A request that fails leaves the
  whole state as it was.  Without a conflict it fails only for want of memory, or with ENOENT when
  asked to report that there was nothing to unlock; releasing up to the end of the file needs no memory.
\<close>

theorem posix_lock_exact:
  assumes "list_ok (i_flock st inode)" and "IS_POSIX q" and "range_ok q" and "\<not> has_flag q FL_ACCESS"
    and "fresh_ids q a1 a2 (i_flock st inode)" and "do_posix_lock_file st inode q a1 a2 = (out, conf, st')"
  shows "(out = Lock_ret Ok \<longrightarrow> updated q (i_flock st inode) (i_flock st' inode)) \<and>
    (\<forall>e. out = Lock_ret (Inl e) \<longrightarrow> st' = st) \<and> (\<forall>j. j \<noteq> inode \<longrightarrow> i_flock st' j = i_flock st j) \<and>
    (conflict st inode q = None \<longrightarrow> out = Lock_ret Ok \<or>
       out = Lock_ret (Inl ENOLCK) \<and> (a1 = None \<or> a2 = None) \<and> (fl_type q \<noteq> F_UNLCK \<or> fl_end q < OFFSET_MAX) \<or>
       out = Lock_ret (Inl ENOENT) \<and> fl_type q = F_UNLCK \<and> has_flag q FL_EXISTS) \<and>
    (conflict st inode q \<noteq> None \<longrightarrow> out \<noteq> Lock_ret Ok \<and> i_flock st' = i_flock st)"
proof (cases "conflict st inode q")
  case None
  obtain ls ws where "st' = st\<lparr>i_flock := (i_flock st)(inode := ls), waits := ws\<rparr>"
    and "out = Lock_ret Ok \<and> updated q (i_flock st inode) ls \<or>
      out = Lock_ret (Inl ENOLCK) \<and> ls = i_flock st inode \<and> ws = waits st \<and>
        (a1 = None \<or> a2 = None) \<and> (fl_type q \<noteq> F_UNLCK \<or> fl_end q < OFFSET_MAX) \<or>
      out = Lock_ret (Inl ENOENT) \<and> fl_type q = F_UNLCK \<and> has_flag q FL_EXISTS \<and> updated q (i_flock st inode) ls \<and>
        ls = i_flock st inode \<and> ws = waits st"
    by (rule posix_granted [OF assms(1-5) None assms(6)])
  then show ?thesis using None by auto
next
  case (Some fl)
  then have "out \<noteq> Lock_ret Ok \<and> i_flock st' = i_flock st \<and> (\<forall>e. out = Lock_ret (Inl e) \<longrightarrow> st' = st)"
    using assms(6) unfolding do_posix_lock_file_def conflict_def [symmetric]
    by (auto simp: Let_def split: if_splits option.splits)
  then show ?thesis using Some by auto
qed

abbreviation demo_lock :: "nat \<Rightarrow> nat \<Rightarrow> u8 \<Rightarrow> int \<Rightarrow> int \<Rightarrow> file_lock" where
  "demo_lock i ow ty s e \<equiv> \<lparr>fl_id = i, fl_owner = ow, fl_flags = FL_POSIX, fl_type = ty, fl_pid = 0, fl_file = 7, fl_start = s, fl_end = e\<rparr>"

definition demo_table :: flock_state where
  "demo_table = \<lparr>i_flock = (\<lambda>_. [])(5 := [demo_lock 1 10 F_RDLCK 0 99, demo_lock 2 11 F_RDLCK 50 60]), waits = []\<rparr>"

lemma demo_table_ok: "list_ok (i_flock demo_table 5)"
  unfolding list_ok_def demo_table_def
  by (auto intro!: exI [of _ "[]"] exI [of _ "[[demo_lock 1 10 F_RDLCK 0 99], [demo_lock 2 11 F_RDLCK 50 60]]"]
      simp: groups_ok_def group_ok_def canon_def range_ok_def IS_POSIX_def has_flag_def OFFSET_MAX_def)

text \<open>An unlock in the middle splits the lock of the owner.\<close>

theorem posix_lock_exact_witness:
  "do_posix_lock_file demo_table 5 (demo_lock 3 10 F_UNLCK 20 29) (Some 8) (Some 9) =
     (Lock_ret Ok, None, demo_table\<lparr>i_flock := (\<lambda>_. [])(5 :=
        [demo_lock 9 10 F_RDLCK 0 19, demo_lock 1 10 F_RDLCK 30 99, demo_lock 2 11 F_RDLCK 50 60])\<rparr>) \<and>
   updated (demo_lock 3 10 F_UNLCK 20 29) (i_flock demo_table 5)
     [demo_lock 9 10 F_RDLCK 0 19, demo_lock 1 10 F_RDLCK 30 99, demo_lock 2 11 F_RDLCK 50 60]"
proof -
  have call: "do_posix_lock_file demo_table 5 (demo_lock 3 10 F_UNLCK 20 29) (Some 8) (Some 9) =
     (Lock_ret Ok, None, demo_table\<lparr>i_flock := (\<lambda>_. [])(5 :=
        [demo_lock 9 10 F_RDLCK 0 19, demo_lock 1 10 F_RDLCK 30 99, demo_lock 2 11 F_RDLCK 50 60])\<rparr>)"
    by (simp add: do_posix_lock_file_def posix_owner_locks_def posix_insert_def posix_cut_def change_lock_def locks_copy_lock_def
        locks_wake_up_blocks_def demo_table_def IS_POSIX_def has_flag_def posix_same_owner_def Let_def fun_eq_iff)
  have "fresh_ids (demo_lock 3 10 F_UNLCK 20 29) (Some 8) (Some 9) (i_flock demo_table 5)"
    by (simp add: fresh_ids_def demo_table_def)
  from posix_lock_exact [OF demo_table_ok _ _ _ this call] call show ?thesis
    by (simp add: IS_POSIX_def has_flag_def range_ok_def OFFSET_MAX_def)
qed

lemma list_ok_range: "list_ok ls \<Longrightarrow> l \<in> set ls \<Longrightarrow> IS_POSIX l \<Longrightarrow> range_ok l"
  unfolding list_ok_def groups_ok_def group_ok_def canon_def by auto

text \<open>
  C23: Locks are exclusive.  However the lock, unlock, wait, signal and close calls of all processes are
  interleaved, no two POSIX locks of different owners on an inode overlap when one of them is a write
  lock, and no two BSD locks of different open files exclude each other.
\<close>

theorem file_locks_exclusive:
  assumes "no_locks start" and "lock_step\<^sup>*\<^sup>* start st" and "a \<in> set (i_flock st inode)" and "b \<in> set (i_flock st inode)"
  shows "(IS_POSIX a \<longrightarrow> \<not> posix_locks_conflict a b) \<and> (bsd_lock a \<and> bsd_lock b \<longrightarrow> \<not> flock_locks_conflict a b)"
proof -
  have t: "table_ok (i_flock st inode)" using fl.inv_reachable [OF assms(1,2)] by (simp add: locks_ok_def)
  have "\<not> posix_locks_conflict a b" if "IS_POSIX a"
  proof
    assume "posix_locks_conflict a b"
    then have c: "IS_POSIX b" "fl_owner a \<noteq> fl_owner b" "locks_overlap a b" "fl_type a = F_WRLCK \<or> fl_type b = F_WRLCK"
      by (auto simp: posix_locks_conflict_def posix_same_owner_def locks_conflict_def split: if_splits)
    let ?x = "max (fl_start a) (fl_start b)"
    have "range_ok a" "range_ok b" using t assms(3,4) that c(1) list_ok_range unfolding table_ok_def by blast+
    then have "covers a ?x" "covers b ?x" using c(3) by (auto simp: covers_def locks_overlap_def range_ok_def)
    then have "posix_held (i_flock st inode) (fl_owner a) ?x (fl_type a)" "posix_held (i_flock st inode) (fl_owner b) ?x (fl_type b)"
      unfolding posix_held_def using assms(3,4) that c(1) by blast+
    then show False using t c(2,4) unfolding table_ok_def exclusive_def by blast
  qed
  then show ?thesis using t assms(3,4) unfolding table_ok_def flock_exclusive_def by blast
qed

text \<open>
  C24: Nobody sleeps for nothing.  In every reachable state a waiting request has a lock in its way: the
  lock it has been queued for is still in the list of its inode, with the same owner, and excludes the
  request.  Whenever a lock is released, cut, replaced or merged away, its waiters are woken.
\<close>

theorem file_lock_waiters_hindered:
  assumes "no_locks start" and "lock_step\<^sup>*\<^sup>* start st" and "(w, b) \<in> set (waits st)"
  shows "\<exists>inode. \<exists>l \<in> set (i_flock st inode). fl_id l = fl_id b \<and> fl_owner l = fl_owner b \<and>
    (posix_locks_conflict w l \<or> bsd_lock l \<and> flock_locks_conflict w l)"
  using fl.inv_reachable [OF assms(1,2)] waits_okD [OF _ assms(3)] unfolding locks_ok_def hinders_def by blast

text \<open>
  C25: POSIX locks do not deadlock.  As long as no owner waits for two locks at once (threads that share a file table
  are one owner and may do so; \<^verbatim>\<open>posix_locks_deadlock\<close> then follows only one of the waits and can miss a cycle) and no more than
  eleven requests wait, a call of \<^verbatim>\<open>__posix_lock_file\<close> keeps the graph of who waits for whom free of cycles, and it
  reports EDEADLK only when waiting would close a cycle.
\<close>

theorem posix_deadlock_exact:
  assumes "waits_once (waits st)" and "length (posix_waits (waits st)) \<le> 11" and "acyclic (wait_edges (waits st))"
    and "fl_id q \<notin> fl_id ` set (i_flock st inode)" and "list_ok (i_flock st inode)"
    and "do_posix_lock_file st inode q a1 a2 = (out, conf, st')"
  shows "acyclic (wait_edges (waits st')) \<and>
    (out = Lock_ret (Inl EDEADLK) \<longrightarrow>
       (\<exists>fl \<in> set (i_flock st inode). posix_locks_conflict q fl \<and> (fl_owner fl, fl_owner q) \<in> (wait_edges (waits st))\<^sup>+))"
proof (cases "conflict st inode q")
  case (Some fl)
  note c = conflictD [OF Some]
  note dl = deadlock_exact [OF assms(1), of q fl]
  have "st' = st \<or> out \<noteq> Lock_ret (Inl EDEADLK) \<and> \<not> posix_locks_deadlock (waits st) q fl \<and> waits st' = (q, fl) # waits st"
    using assms(6) Some unfolding do_posix_lock_file_def conflict_def [symmetric]
    by (auto simp: Let_def locks_insert_block_def split: if_splits option.splits)
  then have "acyclic (wait_edges (waits st'))"
  proof (elim disjE conjE)
    assume n: "\<not> posix_locks_deadlock (waits st) q fl" and ws: "waits st' = (q, fl) # waits st"
    have "wait_edges (waits st') = insert (fl_owner q, fl_owner fl) (wait_edges (waits st))"
      using c ws by (simp add: wait_edges_def posix_waits_def)
    moreover have "fl_owner fl \<noteq> fl_owner q" using c by (auto simp: posix_locks_conflict_def posix_same_owner_def split: if_splits)
    then have "(fl_owner fl, fl_owner q) \<notin> (wait_edges (waits st))\<^sup>*" using n dl assms(2) by (simp add: rtrancl_eq_or_trancl)
    ultimately show ?thesis using assms(3) by (simp add: acyclic_insert)
  qed (use assms(3) in simp)
  moreover have "out = Lock_ret (Inl EDEADLK) \<Longrightarrow> posix_locks_deadlock (waits st) q fl"
    using assms(6) Some unfolding do_posix_lock_file_def conflict_def [symmetric]
    by (auto simp: Let_def split: if_splits option.splits)
  ultimately show ?thesis using c dl assms(2) by auto
next
  case None
  have d: "distinct (map fl_id (q # i_flock st inode))" using assms(4,5) by (simp add: list_ok_def)
  have "st' = st \<and> out = Lock_ret Ok \<or> (\<exists>r n1 n2 ls ws. out = Lock_ret r \<and> waits st' = ws \<and>
      posix_insert n1 n2 (posix_owner_locks q (i_flock st inode) (waits st)) = (r, ls, ws))"
    using assms(6) None unfolding do_posix_lock_file_def conflict_def [symmetric]
    by (auto simp: Let_def split: if_splits prod.splits)
  then show ?thesis
  proof (elim disjE conjE exE)
    fix r n1 n2 ls ws assume out: "out = Lock_ret r" "waits st' = ws"
      and ins: "posix_insert n1 n2 (posix_owner_locks q (i_flock st inode) (waits st)) = (r, ls, ws)"
    have "set ws \<subseteq> set (waits st)"
      using posix_insert_keeps [OF ins] posix_owner_keeps(1) [OF d, of "waits st"] by blast
    then have "wait_edges ws \<subseteq> wait_edges (waits st)" by (auto simp: wait_edges_def posix_waits_def)
    moreover have "r \<noteq> Inl EDEADLK" using ins by (auto simp: posix_insert_def Let_def split: if_splits option.splits)
    ultimately show ?thesis using assms(3) out by (auto intro: acyclic_subset)
  qed (use assms(3) in simp)
qed

section \<open>A run, and a deadlock\<close>

abbreviation demo_wait :: "nat \<Rightarrow> nat \<Rightarrow> u8 \<Rightarrow> int \<Rightarrow> int \<Rightarrow> file_lock" where
  "demo_wait i ow ty s e \<equiv> \<lparr>fl_id = i, fl_owner = ow, fl_flags = 129, fl_type = ty, fl_pid = 0, fl_file = 7, fl_start = s, fl_end = e\<rparr>"

definition demo_blocked :: flock_state where
  "demo_blocked = demo_table\<lparr>waits := [(demo_wait 4 12 F_WRLCK 55 70, demo_lock 1 10 F_RDLCK 0 99)]\<rparr>"

lemmas lock_eval = do_posix_lock_file_def posix_owner_locks_def posix_insert_def posix_cut_def change_lock_def locks_copy_lock_def
  locks_wake_up_blocks_def locks_insert_block_def IS_POSIX_def has_flag_def posix_same_owner_def posix_locks_conflict_def
  locks_overlap_def locks_conflict_def posix_locks_deadlock_def deadlock_loop.simps what_owner_is_waiting_for_def Let_def

lemma demo_run: "lock_step\<^sup>*\<^sup>* \<lparr>i_flock = (\<lambda>_. []), waits = []\<rparr> demo_blocked"
proof -
  let ?s0 = "\<lparr>i_flock = (\<lambda>_. []), waits = []\<rparr> :: flock_state"
  let ?s1 = "\<lparr>i_flock = (\<lambda>_. [])(5 := [demo_lock 1 10 F_RDLCK 0 99]), waits = []\<rparr> :: flock_state"
  have req: "posix_request (demo_lock i ow ty s e)" "posix_request (demo_wait i ow ty s e)" if "0 \<le> s" "s \<le> e" "e \<le> 99" for i ow ty s e
    using that by (simp_all add: posix_request_def range_ok_def OFFSET_MAX_def IS_POSIX_def has_flag_def)
  have "do_posix_lock_file ?s0 5 (demo_lock 3 10 F_RDLCK 0 99) (Some 1) (Some 8) = (Lock_ret Ok, None, ?s1)"
    by (simp add: lock_eval)
  then have 1: "lock_step ?s0 ?s1" by (rule lock_step.posix [rotated 2]) (simp_all add: req fresh_ids_def)
  have "do_posix_lock_file ?s1 5 (demo_lock 3 11 F_RDLCK 50 60) (Some 2) (Some 8) = (Lock_ret Ok, None, demo_table)"
    by (simp add: lock_eval demo_table_def fun_eq_iff)
  then have 2: "lock_step ?s1 demo_table" by (rule lock_step.posix [rotated 2]) (simp_all add: req fresh_ids_def)
  have "do_posix_lock_file demo_table 5 (demo_wait 4 12 F_WRLCK 55 70) None None =
      (FILE_LOCK_DEFERRED, Some (demo_lock 1 10 F_RDLCK 0 99), demo_blocked)"
    by (simp add: lock_eval demo_table_def demo_blocked_def)
  then have 3: "lock_step demo_table demo_blocked"
    by (rule lock_step.posix [rotated 2]) (simp_all add: req fresh_ids_def demo_table_def)
  show ?thesis using 1 2 3 by (meson converse_rtranclp_into_rtranclp rtranclp.rtrancl_refl)
qed

theorem file_locks_exclusive_witness:
  "\<not> posix_locks_conflict (demo_lock 1 10 F_RDLCK 0 99) (demo_lock 2 11 F_RDLCK 50 60)"
  using file_locks_exclusive [OF _ demo_run, of "demo_lock 1 10 F_RDLCK 0 99" 5 "demo_lock 2 11 F_RDLCK 50 60"]
  by (simp add: no_locks_def demo_blocked_def demo_table_def IS_POSIX_def has_flag_def)

theorem file_lock_waiters_hindered_witness:
  "\<exists>inode. \<exists>l \<in> set (i_flock demo_blocked inode). fl_id l = 1 \<and> fl_owner l = 10 \<and>
     (posix_locks_conflict (demo_wait 4 12 F_WRLCK 55 70) l \<or> bsd_lock l \<and> flock_locks_conflict (demo_wait 4 12 F_WRLCK 55 70) l)"
  using file_lock_waiters_hindered [OF _ demo_run, of "demo_wait 4 12 F_WRLCK 55 70" "demo_lock 1 10 F_RDLCK 0 99"]
  by (simp add: no_locks_def demo_blocked_def)

definition demo_crossed :: flock_state where
  "demo_crossed = \<lparr>i_flock = (\<lambda>_. [])(5 := [demo_lock 1 10 F_WRLCK 0 9, demo_lock 2 11 F_WRLCK 20 29]),
     waits = [(demo_wait 4 11 F_WRLCK 0 9, demo_lock 1 10 F_WRLCK 0 9)]\<rparr>"

theorem posix_deadlock_exact_witness:
  "do_posix_lock_file demo_crossed 5 (demo_wait 3 10 F_WRLCK 20 29) None None =
     (Lock_ret (Inl EDEADLK), Some (demo_lock 2 11 F_WRLCK 20 29), demo_crossed) \<and>
   (\<exists>fl \<in> set (i_flock demo_crossed 5). (fl_owner fl, 10) \<in> (wait_edges (waits demo_crossed))\<^sup>+)"
proof -
  have call: "do_posix_lock_file demo_crossed 5 (demo_wait 3 10 F_WRLCK 20 29) None None =
     (Lock_ret (Inl EDEADLK), Some (demo_lock 2 11 F_WRLCK 20 29), demo_crossed)"
    by (simp add: lock_eval demo_crossed_def)
  have edges: "wait_edges (waits demo_crossed) = {(11, 10)}"
    by (simp add: wait_edges_def posix_waits_def demo_crossed_def IS_POSIX_def has_flag_def)
  have "acyclic ({} :: (nat \<times> nat) set)" by (simp add: acyclic_def)
  then have "acyclic {(11 :: nat, 10 :: nat)}" by (simp add: acyclic_insert)
  moreover have "list_ok (i_flock demo_crossed 5)"
    unfolding list_ok_def demo_crossed_def
    by (auto intro!: exI [of _ "[]"] exI [of _ "[[demo_lock 1 10 F_WRLCK 0 9], [demo_lock 2 11 F_WRLCK 20 29]]"]
        simp: groups_ok_def group_ok_def canon_def range_ok_def IS_POSIX_def has_flag_def OFFSET_MAX_def)
  ultimately have "\<exists>fl \<in> set (i_flock demo_crossed 5). posix_locks_conflict (demo_wait 3 10 F_WRLCK 20 29) fl \<and>
      (fl_owner fl, fl_owner (demo_wait 3 10 F_WRLCK 20 29)) \<in> (wait_edges (waits demo_crossed))\<^sup>+"
    using posix_deadlock_exact [OF _ _ _ _ _ call] edges
    by (simp add: waits_once_def posix_waits_def demo_crossed_def IS_POSIX_def has_flag_def)
  then show ?thesis using call by auto
qed

text \<open>
  A cycle of thirteen processes is not seen: the walk is given up after eleven steps, although each of them
  waits for one lock only.
\<close>

theorem long_deadlock_missed:
  "let ws = map (\<lambda>i. (demo_wait i i F_WRLCK 0 9, demo_lock (100 + i) (i + 1) F_WRLCK 0 9)) [0..<12]
   in waits_once ws \<and> \<not> posix_locks_deadlock ws (demo_wait 12 12 F_WRLCK 0 9) (demo_lock 100 0 F_WRLCK 0 9) \<and>
      (0, 12) \<in> (wait_edges ws)\<^sup>+"
proof -
  define ws where "ws = map (\<lambda>i. (demo_wait i i F_WRLCK 0 9, demo_lock (100 + i) (i + 1) F_WRLCK 0 9)) [0..<12]"
  have e: "(i, i + 1) \<in> wait_edges ws" if "i < 12" for i
    using that by (auto simp: ws_def wait_edges_def posix_waits_def IS_POSIX_def has_flag_def image_iff)
  have "(0, Suc n) \<in> (wait_edges ws)\<^sup>+" if "n < 12" for n
    using that
  proof (induction n)
    case (Suc n)
    then show ?case using e [of "Suc n"] trancl_into_trancl [of 0 "Suc n" "wait_edges ws" "Suc (Suc n)"] by simp
  qed (use e [of 0] in auto)
  from this [of 11] have "(0, 12) \<in> (wait_edges ws)\<^sup>+" by simp
  moreover have "waits_once ws"
    by (simp add: ws_def waits_once_def posix_waits_def IS_POSIX_def has_flag_def upt_rec)
  moreover have "\<not> posix_locks_deadlock ws (demo_wait 12 12 F_WRLCK 0 9) (demo_lock 100 0 F_WRLCK 0 9)"
    by (simp add: ws_def lock_eval upt_rec)
  ultimately show ?thesis unfolding Let_def ws_def by blast
qed

end
