(* ===== verification/Lock_Calls.thy ===== *)
theory Lock_Calls
  imports Lock_Contract
begin

text \<open>
  The lock commands of \<^verbatim>\<open>fcntl\<close> as a process calls them: the range that a \<^verbatim>\<open>struct flock64\<close> names, against
  arithmetic that has no bounds, and what a call leaves behind when it comes back from sleeping.
\<close>

section \<open>Ranges\<close>

definition fits64 :: "int \<Rightarrow> bool" where
  "fits64 x \<longleftrightarrow> - (2 ^ 63) \<le> x \<and> x < 2 ^ 63"

lemma wrap_s_id: "fits64 x \<Longrightarrow> wrap_s 64 x = x"
  unfolding wrap_s_def fits64_def by simp

lemma wrap_s_above: "2 ^ 63 \<le> x \<Longrightarrow> x < 2 ^ 64 \<Longrightarrow> wrap_s 64 x < 0"
proof -
  assume x: "2 ^ 63 \<le> x" "x < 2 ^ 64"
  have "(x + 2 ^ 63) mod 2 ^ 64 = (x + 2 ^ 63 - 2 ^ 64) mod 2 ^ 64" by (rule minus_mod_self2 [symmetric])
  also have "\<dots> = x + 2 ^ 63 - 2 ^ 64" using x by (intro mod_pos_pos_trivial) simp_all
  finally show ?thesis using x by (simp add: wrap_s_def)
qed

text \<open>The range in integers without bounds; POSIX asks for EINVAL and EOVERFLOW as here.\<close>

definition byte_range :: "open_file \<Rightarrow> flock_arg \<Rightarrow> (int \<times> int) kresult" where
  "byte_range filp l =
     (if l_whence l \<noteq> 0 \<and> l_whence l \<noteq> 1 \<and> l_whence l \<noteq> 2 then Inl EINVAL
      else (let s = (if l_whence l = 0 then 0 else if l_whence l = 1 then f_pos filp else i_size filp) + l_start l
            in if s < 0 \<or> s > OFFSET_MAX then Inl EINVAL
               else if l_len l = 0 then Inr (s, OFFSET_MAX)
               else if l_len l > 0
               then (if s + l_len l - 1 > OFFSET_MAX then Inl EOVERFLOW else Inr (s, s + l_len l - 1))
               else if s + l_len l < 0 then Inl EINVAL else Inr (s + l_len l, s - 1)))"

definition file_ok :: "open_file \<Rightarrow> bool" where
  "file_ok filp \<longleftrightarrow> 0 \<le> f_pos filp \<and> f_pos filp \<le> OFFSET_MAX \<and> 0 \<le> i_size filp \<and> i_size filp \<le> OFFSET_MAX"

lemma lock_range_from:
  assumes "0 \<le> b" and "b \<le> OFFSET_MAX" and "fits64 (l_start l)" and "fits64 (l_len l)"
  shows "(let start = wrap_s 64 (b + l_start l)
     in if start < 0 then Inl EINVAL
        else if l_len l > 0
        then (let fin = wrap_s 64 (start + l_len l - 1)
              in if fin < start then Inl EOVERFLOW else Inr (start, fin))
        else if l_len l < 0
        then (let start' = wrap_s 64 (start + l_len l)
              in if start' < 0 then Inl EINVAL
                 else if start - 1 < start' then Inl EOVERFLOW else Inr (start', start - 1))
        else if OFFSET_MAX < start then Inl EOVERFLOW else Inr (start, OFFSET_MAX)) =
    (let s = b + l_start l
     in if s < 0 \<or> s > OFFSET_MAX then Inl EINVAL
        else if l_len l = 0 then Inr (s, OFFSET_MAX)
        else if l_len l > 0
        then (if s + l_len l - 1 > OFFSET_MAX then Inl EOVERFLOW else Inr (s, s + l_len l - 1))
        else if s + l_len l < 0 then Inl EINVAL else Inr (s + l_len l, s - 1))"
proof -
  let ?s = "b + l_start l"
  note lims = assms(1-4) [unfolded OFFSET_MAX_def fits64_def]
  consider "?s < 0" | "?s > OFFSET_MAX" | "0 \<le> ?s" "?s \<le> OFFSET_MAX" by linarith
  then show ?thesis
  proof cases
    case 1
    then have "wrap_s 64 ?s = ?s" using lims by (intro wrap_s_id) (simp add: fits64_def)
    then show ?thesis using 1 by simp
  next
    case 2
    then have "wrap_s 64 ?s < 0" using lims by (intro wrap_s_above) (simp_all add: OFFSET_MAX_def)
    then show ?thesis using 2 by simp
  next
    case 3
    then have s: "wrap_s 64 ?s = ?s" by (intro wrap_s_id) (simp add: fits64_def OFFSET_MAX_def)
    show ?thesis
    proof (cases "l_len l > 0 \<and> ?s + l_len l - 1 > OFFSET_MAX")
      case True
      then have "wrap_s 64 (?s + l_len l - 1) < 0" using lims 3 by (intro wrap_s_above) (simp_all add: OFFSET_MAX_def)
      then show ?thesis using True 3 s by simp
    next
      case False
      then have "l_len l > 0 \<Longrightarrow> wrap_s 64 (?s + l_len l - 1) = ?s + l_len l - 1"
        using 3 by (intro wrap_s_id) (simp add: fits64_def OFFSET_MAX_def)
      moreover have "l_len l < 0 \<Longrightarrow> wrap_s 64 (?s + l_len l) = ?s + l_len l"
        using 3 lims by (intro wrap_s_id) (simp add: fits64_def OFFSET_MAX_def)
      ultimately show ?thesis using 3 s False by (simp add: Let_def)
    qed
  qed
qed

lemma lock_range_exact:
  assumes "file_ok filp" and "fits64 (l_start l)" and "fits64 (l_len l)"
  shows "lock_range 64 filp l = byte_range filp l"
proof -
  have "wrap_s 64 (f_pos filp) = f_pos filp" "wrap_s 64 (i_size filp) = i_size filp"
    using assms(1) by (auto intro!: wrap_s_id simp: file_ok_def fits64_def OFFSET_MAX_def)
  moreover have "0 \<le> OFFSET_MAX" by (simp add: OFFSET_MAX_def)
  ultimately show ?thesis
    using assms(1) lock_range_from [of 0, OF _ _ assms(2,3)] lock_range_from [of "f_pos filp", OF _ _ assms(2,3)]
      lock_range_from [of "i_size filp", OF _ _ assms(2,3)]
    unfolding lock_range_def byte_range_def file_ok_def by simp
qed

lemma byte_range_ok: "byte_range filp l = Inr (s, e) \<Longrightarrow> 0 \<le> s \<and> s \<le> e \<and> e \<le> OFFSET_MAX"
  by (auto simp: byte_range_def Let_def split: if_splits)

section \<open>Coming back from a call\<close>

text \<open>
  A request is a local variable or is freed when its call returns, so it must be in no queue then.
  \<open>left_clean\<close> says this of an outcome, and that the \<^verbatim>\<open>BUG_ON\<close> of \<^verbatim>\<open>locks_insert_block\<close> has not been met.
\<close>

fun left_clean :: "nat \<Rightarrow> lock_outcome \<times> flock_state \<Rightarrow> bool" where
  "left_clean i (r, st) \<longleftrightarrow> r \<noteq> Lock_bug \<and> (r = FILE_LOCK_DEFERRED \<or> \<not> is_waiting i (waits st))"

text \<open>What the waiting loop relies on: a call for a request that is in no queue.\<close>

locale lock_call =
  fixes call :: "'a \<Rightarrow> flock_state \<Rightarrow> lock_outcome \<times> flock_state"
    and i :: nat
    and good :: "'a \<Rightarrow> bool"
  assumes call_clean: "good a \<Longrightarrow> \<not> is_waiting i (waits st) \<Longrightarrow> left_clean i (call a st)"
begin

lemma sleep_clean: "list_all (\<lambda>(f, s, a). good a) evs \<Longrightarrow> left_clean i (lock_sleep call i st evs)"
proof (induction evs arbitrary: st)
  case (Cons ev evs)
  obtain f sg a where ev: "ev = (f, sg, a)" by (metis prod_cases3)
  obtain r st2 where c: "call a (f st) = (r, st2)" by fastforce
  have "left_clean i (call a (f st))" if "\<not> is_waiting i (waits (f st))"
    using call_clean [OF _ that] Cons.prems ev by simp
  moreover have "\<not> is_waiting i (locks_delete_block i ws)" for ws
    by (auto simp: is_waiting_def locks_delete_block_def)
  ultimately show ?case using Cons ev c by (auto simp: Let_def)
qed simp

lemma wait_clean:
  assumes "good a" and "list_all (\<lambda>(f, s, a). good a) evs" and "\<not> is_waiting i (waits st)"
  shows "left_clean i (lock_wait call i st a evs)"
proof -
  obtain r st1 where c: "call a st = (r, st1)" by fastforce
  then show ?thesis using call_clean [OF assms(1,3)] sleep_clean [OF assms(2), of st1]
    unfolding lock_wait_def by auto
qed

end

lemma is_waiting_less: "set ws' \<subseteq> set ws \<Longrightarrow> \<not> is_waiting i ws \<Longrightarrow> \<not> is_waiting i ws'"
  unfolding is_waiting_def by blast

lemma wake_less: "set (locks_wake_up_blocks i ws) \<subseteq> set ws"
  by (auto simp: locks_wake_up_blocks_def)

lemma owner_loop_waits: "set (w_waits (owner_loop w ls)) \<subseteq> set (w_waits w)"
proof (induction ls arbitrary: w)
  case (Cons fl rest)
  have less: "set (w_waits (owner_loop w' rest)) \<subseteq> set (w_waits w)" if "set (w_waits w') \<subseteq> set (w_waits w)" for w'
    using subset_trans [OF Cons.IH that] .
  show ?case unfolding owner_loop.simps Let_def
    by (intro if_split [where P = "\<lambda>w'. set (w_waits w') \<subseteq> set (w_waits w)", THEN iffD2] conjI impI)
      (simp_all add: less wake_less)
qed simp

lemma insert_block_fresh: "\<not> is_waiting (fl_id q) ws \<Longrightarrow> locks_insert_block fl q ws = Some ((q, fl) # ws)"
  by (auto simp: is_waiting_def locks_insert_block_def)

lemma posix_lock_clean:
  assumes "\<not> is_waiting (fl_id q) (waits st)" and "do_posix_lock_file st inode q a1 a2 = (out, conf, st')"
  shows "left_clean (fl_id q) (out, st')"
proof (cases "conflict st inode q")
  case (Some fl)
  then show ?thesis using assms insert_block_fresh [OF assms(1), of fl]
    unfolding do_posix_lock_file_def conflict_def [symmetric] by (auto simp: Let_def split: if_splits option.splits)
next
  case None
  then have "(\<exists>r. out = Lock_ret r) \<and> (st' = st \<or> (\<exists>r n1 n2 ls. posix_insert n1 n2 (posix_owner_locks q (i_flock st inode) (waits st)) = (r, ls, waits st')))"
    using assms(2) unfolding do_posix_lock_file_def conflict_def [symmetric] by (auto simp: Let_def split: if_splits prod.splits)
  moreover have "set (waits st') \<subseteq> set (waits st)"
    if "posix_insert n1 n2 (posix_owner_locks q (i_flock st inode) (waits st)) = (r, ls, waits st')" for r n1 n2 ls
    using posix_insert_keeps [OF that] owner_loop_waits unfolding posix_owner_locks_def Let_def by fastforce
  ultimately have "(\<exists>r. out = Lock_ret r) \<and> (st' = st \<or> set (waits st') \<subseteq> set (waits st))" by blast
  then show ?thesis using assms(1) is_waiting_less [of "waits st'" "waits st"] by auto
qed

interpretation posix_wait: lock_call "posix_call inode fl" "fl_id fl" "\<lambda>_. True" for inode fl
proof
  fix a and st :: flock_state assume "\<not> is_waiting (fl_id fl) (waits st)"
  then show "left_clean (fl_id fl) (posix_call inode fl a st)"
    using posix_lock_clean [of fl st inode "fst a" "snd a"]
    by (auto simp: posix_call_def posix_lock_file_def split: prod.splits)
qed

interpretation mandatory_wait: lock_call "mandatory_call inode fl" "fl_id fl" "\<lambda>_. True" for inode fl
proof
  fix a and st :: flock_state assume n: "\<not> is_waiting (fl_id fl) (waits st)"
  have "\<not> is_waiting (fl_id fl) (locks_delete_block (fl_id fl) (waits st))"
    by (auto simp: is_waiting_def locks_delete_block_def)
  then show "left_clean (fl_id fl) (mandatory_call inode fl a st)"
    using posix_wait.call_clean [OF _ n] by (simp add: mandatory_call_def)
qed

definition no_request_of :: "nat \<Rightarrow> (flock_state \<Rightarrow> flock_state) \<Rightarrow> bool" where
  "no_request_of i f \<longleftrightarrow> (\<forall>s. \<not> is_waiting i (waits s) \<longrightarrow> \<not> is_waiting i (waits (f s)))"

lemma flock_place_clean: "\<not> is_waiting (fl_id q) (waits st) \<Longrightarrow> left_clean (fl_id q) (flock_place st inode q new_fl)"
  by (auto simp: insert_block_fresh flock_place_def Let_def split: option.splits)

interpretation flock_wait: lock_call "flock_call inode filp fl" "fl_id fl" "\<lambda>a. no_request_of (fl_id fl) (snd a)" for inode filp fl
proof
  fix a :: "nat option \<times> (flock_state \<Rightarrow> flock_state)" and st :: flock_state assume g: "no_request_of (fl_id fl) (snd a)" and n: "\<not> is_waiting (fl_id fl) (waits st)"
  have "\<not> is_waiting (fl_id fl) (waits st1)" if "flock_release st inode filp (fl_type fl) = Some (found, st1)" for found st1
    using that n is_waiting_less [of "waits st1" "waits st"]
    by (auto simp: flock_release_def locks_wake_up_blocks_def split: option.splits)
  then show "left_clean (fl_id fl) (flock_call inode filp fl a st)"
    using flock_place_clean n g unfolding flock_call_def flock_lock_file_def no_request_of_def by (auto split: option.splits)
qed

lemma setlk_attempt_clean:
  assumes "\<not> is_waiting i (waits st)" and "\<And>fl. conv flock = Inr fl \<Longrightarrow> fl_id fl = i"
  shows "left_clean i (setlk_attempt conv st filp wait env flock)"
proof (cases "conv flock")
  case (Inr fl)
  let ?fl = "if wait then fl\<lparr>fl_flags := fl_flags fl OR FL_SLEEP\<rparr> else fl"
  have "list_all (\<lambda>(f, s, a). True) (snd env)" by (simp add: list_all_iff)
  moreover have "fl_id ?fl = i" using assms(2) Inr by simp
  ultimately have "left_clean i (do_lock_file_wait st (f_inode filp) ?fl (fst env) (snd env))"
    using posix_wait.wait_clean [of "snd env" ?fl st "f_inode filp" "fst env"] assms(1) by (simp add: do_lock_file_wait_def)
  then show ?thesis using Inr assms(1) by (simp add: setlk_attempt_def Let_def)
qed (use assms(1) in \<open>simp add: setlk_attempt_def\<close>)

lemma setlk_clean:
  assumes "\<not> is_waiting i (waits st)" and "\<And>flock fl. conv flock = Inr fl \<Longrightarrow> fl_id fl = i"
  shows "left_clean i (setlk_common conv st filp wait mapped same_fd env env' l)"
proof (cases l)
  case (Some flock)
  obtain r st1 where r: "setlk_attempt conv st filp wait env flock = (r, st1)" by fastforce
  then have c: "left_clean i (r, st1)" using setlk_attempt_clean [OF assms(1), of conv flock filp wait env] assms(2) by simp
  moreover have "left_clean i (setlk_attempt conv st1 filp wait env' fl)" if "r = Lock_ret Ok" for fl
    using setlk_attempt_clean [of i st1 conv fl] c that assms(2) by simp
  ultimately show ?thesis using Some r assms(1) by (simp add: setlk_common_def del: left_clean.simps) (simp add: assms(1))
qed (use assms(1) in \<open>simp add: setlk_common_def\<close>)

lemma to_posix_id: "to_posix_lock n filp i files tgid flock = Inr fl \<Longrightarrow> fl_id fl = i"
  by (auto simp: to_posix_lock_def assign_type_def split: sum.splits if_splits)

section \<open>Properties\<close>

text \<open>
  The 64-bit lock commands lock the bytes they are asked to.  For a file whose position and size are
  offsets and any 64-bit start and length, \<^verbatim>\<open>flock64_to_posix_lock\<close> yields the range that arithmetic
  without bounds gives, EINVAL when it begins before the file or beyond the largest offset, and EOVERFLOW
  when it ends there; and what F_GETLK writes back for a lock names that lock again.
\<close>

theorem setlk_range_exact:
  assumes "file_ok filp" and "fits64 (l_start l)" and "fits64 (l_len l)"
  shows "flock64_to_posix_lock filp i files tgid l =
      (case byte_range filp l of
         Inl e \<Rightarrow> Inl e
       | Inr (s, e) \<Rightarrow>
           if l_type l = 0 \<or> l_type l = 1 \<or> l_type l = 2
           then Inr \<lparr>fl_id = i, fl_owner = files, fl_flags = FL_POSIX, fl_type = of_int (l_type l), fl_pid = tgid,
                  fl_file = f_id filp, fl_start = s, fl_end = e\<rparr>
           else Inl EINVAL) \<and>
    (\<forall>fl. flock64_to_posix_lock filp i files tgid l = Inr fl \<longrightarrow> posix_request fl \<and>
       flock64_to_posix_lock filp i files tgid (posix_lock_to_flock64 l fl) = Inr fl)"
proof -
  have conv: "flock64_to_posix_lock filp i files tgid l' =
      (case byte_range filp l' of
         Inl e \<Rightarrow> Inl e
       | Inr (s, e) \<Rightarrow>
           if l_type l' = 0 \<or> l_type l' = 1 \<or> l_type l' = 2
           then Inr \<lparr>fl_id = i, fl_owner = files, fl_flags = FL_POSIX, fl_type = of_int (l_type l'), fl_pid = tgid,
                  fl_file = f_id filp, fl_start = s, fl_end = e\<rparr>
           else Inl EINVAL)" if "fits64 (l_start l')" "fits64 (l_len l')" for l'
    using lock_range_exact [OF assms(1) that]
    by (auto simp: flock64_to_posix_lock_def to_posix_lock_def assign_type_def split: sum.splits)
  have "posix_request fl \<and> flock64_to_posix_lock filp i files tgid (posix_lock_to_flock64 l fl) = Inr fl"
    if fl: "flock64_to_posix_lock filp i files tgid l = Inr fl" for fl
  proof -
    obtain s e where se: "byte_range filp l = Inr (s, e)" and ty: "l_type l = 0 \<or> l_type l = 1 \<or> l_type l = 2"
      and fl': "fl = \<lparr>fl_id = i, fl_owner = files, fl_flags = FL_POSIX, fl_type = of_int (l_type l), fl_pid = tgid,
                  fl_file = f_id filp, fl_start = s, fl_end = e\<rparr>"
      using fl conv [OF assms(2,3)] by (auto split: sum.splits if_splits)
    note r = byte_range_ok [OF se]
    let ?l = "posix_lock_to_flock64 l fl"
    have "fits64 (l_start ?l)" "fits64 (l_len ?l)"
      using r by (auto simp: posix_lock_to_flock64_def fits64_def fl' OFFSET_MAX_def)
    note conv' = conv [OF this]
    have "byte_range filp ?l = Inr (s, e)"
      using r by (auto simp: byte_range_def posix_lock_to_flock64_def fl' Let_def)
    moreover have "l_type ?l = l_type l" using ty by (auto simp: posix_lock_to_flock64_def fl')
    ultimately show ?thesis using conv' ty r by (auto simp: fl' posix_request_def range_ok_def IS_POSIX_def has_flag_def)
  qed
  then show ?thesis using conv [OF assms(2,3)] by blast
qed

abbreviation demo_file :: open_file where
  "demo_file \<equiv> \<lparr>f_id = 7, f_inode = 5, f_pos = 100, i_size = 2 ^ 62, f_read = True, f_write = True\<rparr>"

theorem setlk_range_exact_witness:
  "flock64_to_posix_lock demo_file 3 10 0 \<lparr>l_type = 1, l_whence = 1, l_start = 20, l_len = - 10, l_pid = 0\<rparr> =
     Inr (demo_lock 3 10 F_WRLCK 110 119)"
proof -
  have "byte_range demo_file \<lparr>l_type = 1, l_whence = 1, l_start = 20, l_len = - 10, l_pid = 0\<rparr> = Inr (110, 119)"
    by (simp add: byte_range_def OFFSET_MAX_def)
  then show ?thesis
    using setlk_range_exact [of demo_file "\<lparr>l_type = 1, l_whence = 1, l_start = 20, l_len = - 10, l_pid = 0\<rparr>" 3 10 0]
    by (simp add: file_ok_def fits64_def OFFSET_MAX_def)
qed

text \<open>The older command computes in 32 bits: 4 GB into a file, a lock of ten bytes goes to the wrong place.\<close>

theorem setlk_truncates_position:
  "flock_to_posix_lock (demo_file\<lparr>f_pos := 2 ^ 32 + 5\<rparr>) 3 10 0 \<lparr>l_type = 1, l_whence = 1, l_start = 0, l_len = 10, l_pid = 0\<rparr> =
     Inr (demo_lock 3 10 F_WRLCK 5 14)"
  by (simp add: flock_to_posix_lock_def to_posix_lock_def lock_range_def wrap_s_def assign_type_def)

text \<open>
  C26: No lock call leaves its request behind.  Whatever the other tasks do and whatever signals come
  while it sleeps, when one of the lock calls of \<^verbatim>\<open>fcntl\<close> or \<^verbatim>\<open>flock\<close>, or the check of a read or write against
  mandatory locks, returns, its request waits in no queue, so that it may be freed; and none runs into the
  \<^verbatim>\<open>BUG_ON\<close> of \<^verbatim>\<open>locks_insert_block\<close>.
\<close>

theorem lock_calls_leave_no_waiter:
  assumes "\<not> is_waiting i (waits st)"
  shows "left_clean i (fcntl_setlk st filp (Some i) files tgid wait mapped same_fd env env' l) \<and>
    left_clean i (fcntl_setlk64 st filp (Some i) files tgid wait mapped same_fd env env' l) \<and>
    left_clean i (locks_mandatory_area st inode i files tgid f nonblock verify_write offset len evs) \<and>
    (no_request_of i (snd a) \<and> list_all (\<lambda>(_, _, a). no_request_of i (snd a)) evs' \<longrightarrow>
       left_clean i (sys_flock st fd tgid cmd (Some i) a evs'))"
proof (intro conjI impI)
  show "left_clean i (fcntl_setlk st filp (Some i) files tgid wait mapped same_fd env env' l)"
    "left_clean i (fcntl_setlk64 st filp (Some i) files tgid wait mapped same_fd env env' l)"
    unfolding fcntl_setlk_def fcntl_setlk64_def flock_to_posix_lock_def flock64_to_posix_lock_def option.case
    by (rule setlk_clean [OF assms], erule to_posix_id)+
  show "left_clean i (locks_mandatory_area st inode i files tgid f nonblock verify_write offset len evs)"
    using mandatory_wait.wait_clean [of evs "mandatory_request i files tgid f nonblock verify_write offset len" st inode True] assms
    by (simp add: locks_mandatory_area_def mandatory_request_def list_all_iff)
next
  assume g: "no_request_of i (snd a) \<and> list_all (\<lambda>(_, _, a). no_request_of i (snd a)) evs'"
  have "left_clean i (flock_lock_file_wait st inode' filp' fl a evs')" if "fl_id fl = i" for inode' filp' fl
    using flock_wait.wait_clean [of fl a evs' st inode' filp'] g assms that by (simp add: flock_lock_file_wait_def)
  moreover have "fl_id fl = i" if "flock_make_lock filp' tgid' c (Some i) = Inr fl" for filp' tgid' c fl
    using that by (auto simp: flock_make_lock_def split: sum.splits)
  ultimately show "left_clean i (sys_flock st fd tgid cmd (Some i) a evs')"
    using assms by (auto simp: sys_flock_def Let_def split: option.splits sum.splits)
qed

text \<open>A write lock that waits for the readers of the table, and a signal.\<close>

theorem lock_calls_leave_no_waiter_witness:
  "fcntl_setlk64 demo_table demo_file (Some 3) 12 0 True False True ((Some 8, Some 9), [(\<lambda>s. s, True, (None, None))]) ((None, None), [])
     (Some \<lparr>l_type = 1, l_whence = 0, l_start = 0, l_len = 10, l_pid = 0\<rparr>) = (Lock_ret (Inl ERESTARTSYS), demo_table) \<and>
   \<not> is_waiting 3 (waits demo_table)"
proof -
  let ?r = "fcntl_setlk64 demo_table demo_file (Some 3) 12 0 True False True ((Some 8, Some 9), [(\<lambda>s. s, True, (None, None))]) ((None, None), [])
     (Some \<lparr>l_type = 1, l_whence = 0, l_start = 0, l_len = 10, l_pid = 0\<rparr>)"
  have r: "?r = (Lock_ret (Inl ERESTARTSYS), demo_table)"
    by (simp add: fcntl_setlk64_def setlk_common_def setlk_attempt_def flock64_to_posix_lock_def to_posix_lock_def lock_range_def
        wrap_s_def assign_type_def do_lock_file_wait_def lock_wait_def posix_call_def posix_lock_file_def is_waiting_def
        locks_delete_block_def demo_table_def lock_eval)
  have "\<not> is_waiting 3 (waits demo_table)" by (simp add: is_waiting_def demo_table_def)
  from lock_calls_leave_no_waiter [THEN conjunct2, THEN conjunct1, OF this] r show ?thesis
    by (metis left_clean.simps lock_outcome.distinct(1))
qed

end
