(* ===== verification/Ipc_Ids.thy ===== *)
theory Ipc_Ids
  imports Capability Cred_Groups
begin

text \<open>
  Identifiers and permissions of System V IPC objects, \<^verbatim>\<open>ipc/util.c\<close>.  An object is a record that extends
  \<open>kern_ipc_perm\<close>, as the C structures begin with one.  The radix tree \<^verbatim>\<open>ipcs_idr\<close> is the list of its slots;
  \<^verbatim>\<open>idr_get_new\<close> takes the first free one, and \<^verbatim>\<open>idr_pre_get\<close> has provided the memory.  \<^verbatim>\<open>deleted\<close> is the absence from
  the table, since the removal and the mark are made under both locks.
\<close>

section \<open>The table of identifiers\<close>

record kern_ipc_perm =
  perm_id :: int
  perm_key :: int
  perm_uid :: u32
  perm_gid :: u32
  perm_cuid :: u32
  perm_cgid :: u32
  perm_mode :: u32
  perm_seq :: int

record 'o ipc_ids =
  in_use :: int
  ids_seq :: int
  seq_max :: int
  ipcs_idr :: "'o option list"

abbreviation (input) IPCMNI :: int where "IPCMNI \<equiv> 32768"
abbreviation (input) SEQ_MULTIPLIER :: int where "SEQ_MULTIPLIER \<equiv> 32768"

definition ipc_init_ids :: "'o ipc_ids" where
  "ipc_init_ids =
     (let seq_limit = 2147483647 div SEQ_MULTIPLIER
      in \<lparr>in_use = 0, ids_seq = 0, seq_max = (if seq_limit > 65535 then 65535 else seq_limit), ipcs_idr = []\<rparr>)"

definition idr_find :: "'o option list \<Rightarrow> nat \<Rightarrow> 'o option" where
  "idr_find idr lid = (if lid < length idr then idr ! lid else None)"

fun idr_get_new :: "'o option list \<Rightarrow> nat" where
  "idr_get_new [] = 0"
| "idr_get_new (None # idr) = 0"
| "idr_get_new (Some p # idr) = Suc (idr_get_new idr)"

definition idr_store :: "'o option list \<Rightarrow> nat \<Rightarrow> 'o \<Rightarrow> 'o option list" where
  "idr_store idr lid p = (if lid < length idr then idr[lid := Some p] else idr @ [Some p])"

definition idr_remove :: "'o option list \<Rightarrow> nat \<Rightarrow> 'o option list" where
  "idr_remove idr lid = idr[lid := None]"

definition ipcid_to_idx :: "int \<Rightarrow> nat" where "ipcid_to_idx i = nat (i mod SEQ_MULTIPLIER)"

definition ipc_buildid :: "nat \<Rightarrow> int \<Rightarrow> int" where "ipc_buildid lid seq = SEQ_MULTIPLIER * seq + int lid"

definition ipc_checkid :: "'x kern_ipc_perm_scheme \<Rightarrow> int \<Rightarrow> bool" where
  "ipc_checkid ipcp u \<longleftrightarrow> u div SEQ_MULTIPLIER \<noteq> perm_seq ipcp"

text \<open>\<^verbatim>\<open>total\<close> counts the objects passed; with all of them passed the loop ends.\<close>

fun findkey_loop :: "int \<Rightarrow> int \<Rightarrow> 'x kern_ipc_perm_scheme option list \<Rightarrow> int \<Rightarrow> 'x kern_ipc_perm_scheme option" where
  "findkey_loop n tot [] key = None"
| "findkey_loop n tot (slot # idr) key =
     (if \<not> tot < n then None
      else (case slot of
              None \<Rightarrow> findkey_loop n tot idr key
            | Some ipc \<Rightarrow> if perm_key ipc \<noteq> key then findkey_loop n (tot + 1) idr key else Some ipc))"

definition ipc_findkey :: "'x kern_ipc_perm_scheme ipc_ids \<Rightarrow> int \<Rightarrow> 'x kern_ipc_perm_scheme option" where
  "ipc_findkey ids key = findkey_loop (in_use ids) 0 (ipcs_idr ids) key"

fun maxid_loop :: "int \<Rightarrow> int \<Rightarrow> int \<Rightarrow> int \<Rightarrow> 'o option list \<Rightarrow> int" where
  "maxid_loop n tot i max_id [] = max_id"
| "maxid_loop n tot i max_id (slot # idr) =
     (if \<not> (i < IPCMNI \<and> tot < n) then max_id
      else (case slot of
              None \<Rightarrow> maxid_loop n tot (i + 1) max_id idr
            | Some ipc \<Rightarrow> maxid_loop n (tot + 1) (i + 1) i idr))"

definition ipc_get_maxid :: "'o ipc_ids \<Rightarrow> int" where
  "ipc_get_maxid ids =
     (if in_use ids = 0 then - 1
      else if in_use ids = IPCMNI then IPCMNI - 1
      else maxid_loop (in_use ids) 0 0 (- 1) (ipcs_idr ids))"

definition ipc_addid ::
  "'x kern_ipc_perm_scheme ipc_ids \<Rightarrow> 'x kern_ipc_perm_scheme \<Rightarrow> int \<Rightarrow> cred \<Rightarrow>
   ('x kern_ipc_perm_scheme \<times> 'x kern_ipc_perm_scheme ipc_ids) kresult" where
  \<comment> \<open>the object with its identifier, and the table that holds it\<close>
  "ipc_addid ids new sz cr =
     (if in_use ids \<ge> (if sz > IPCMNI then IPCMNI else sz) then Inl ENOSPC
      else (let lid = idr_get_new (ipcs_idr ids);
                next_seq = (ids_seq ids + 1) mod 65536;
                p = new\<lparr>perm_cuid := euid cr, perm_uid := euid cr, perm_gid := egid cr, perm_cgid := egid cr,
                        perm_seq := ids_seq ids, perm_id := ipc_buildid lid (ids_seq ids)\<rparr>
            in Inr (p, ids\<lparr>in_use := in_use ids + 1, ids_seq := (if next_seq > seq_max ids then 0 else next_seq),
                           ipcs_idr := idr_store (ipcs_idr ids) lid p\<rparr>)))"

definition ipc_rmid :: "'x kern_ipc_perm_scheme ipc_ids \<Rightarrow> 'x kern_ipc_perm_scheme \<Rightarrow> 'x kern_ipc_perm_scheme ipc_ids" where
  "ipc_rmid ids ipcp =
     ids\<lparr>ipcs_idr := idr_remove (ipcs_idr ids) (ipcid_to_idx (perm_id ipcp)), in_use := in_use ids - 1\<rparr>"

definition ipc_lock :: "'x kern_ipc_perm_scheme ipc_ids \<Rightarrow> int \<Rightarrow> 'x kern_ipc_perm_scheme kresult" where
  "ipc_lock ids i = (case idr_find (ipcs_idr ids) (ipcid_to_idx i) of None \<Rightarrow> Inl EINVAL | Some out \<Rightarrow> Inr out)"

definition ipc_lock_check :: "'x kern_ipc_perm_scheme ipc_ids \<Rightarrow> int \<Rightarrow> 'x kern_ipc_perm_scheme kresult" where
  "ipc_lock_check ids i =
     (case ipc_lock ids i of
        Inl e \<Rightarrow> Inl e
      | Inr out \<Rightarrow> if ipc_checkid out i then Inl EIDRM else Inr out)"

definition ipc_parse_version :: "int \<Rightarrow> bool \<times> int" where
  \<comment> \<open>whether the flag \<^verbatim>\<open>IPC_64\<close> was set, and the command without it\<close>
  "ipc_parse_version cmd = (if cmd AND 0x100 \<noteq> 0 then (True, cmd XOR 0x100) else (False, cmd))"

section \<open>Permissions\<close>

abbreviation (input) CAP_IPC_OWNER :: nat where "CAP_IPC_OWNER \<equiv> 15"
abbreviation (input) S_IRWXUGO :: u32 where "S_IRWXUGO \<equiv> 0x1FF"
abbreviation (input) S_IRUGO :: u32 where "S_IRUGO \<equiv> 0x124"
abbreviation (input) S_IWUGO :: u32 where "S_IWUGO \<equiv> 0x92"

definition ipcperms :: "user_namespace \<Rightarrow> 'x kern_ipc_perm_scheme \<Rightarrow> u32 \<Rightarrow> task_struct \<Rightarrow> bool \<times> task_struct" where
  \<comment> \<open>whether access is granted\<close>
  "ipcperms ns ipcp flag t =
     (let cr = cur_cred t;
          requested_mode = drop_bit 6 flag OR drop_bit 3 flag OR flag;
          granted_mode = (if euid cr = perm_cuid ipcp \<or> euid cr = perm_uid ipcp then drop_bit 6 (perm_mode ipcp)
                          else if in_group_p cr (perm_cgid ipcp) \<or> in_group_p cr (perm_gid ipcp) then drop_bit 3 (perm_mode ipcp)
                          else perm_mode ipcp)
      in if requested_mode AND NOT granted_mode AND 7 \<noteq> 0 then ns_capable ns CAP_IPC_OWNER t else (True, t))"

definition ipc_update_perm :: "u32 \<Rightarrow> u32 \<Rightarrow> u32 \<Rightarrow> 'x kern_ipc_perm_scheme \<Rightarrow> 'x kern_ipc_perm_scheme" where
  "ipc_update_perm in_uid in_gid in_mode out =
     out\<lparr>perm_uid := in_uid, perm_gid := in_gid,
         perm_mode := (perm_mode out AND NOT S_IRWXUGO) OR (in_mode AND S_IRWXUGO)\<rparr>"

definition ipcctl_pre_down ::
  "user_namespace \<Rightarrow> 'x kern_ipc_perm_scheme ipc_ids \<Rightarrow> int \<Rightarrow> task_struct \<Rightarrow> 'x kern_ipc_perm_scheme kresult \<times> task_struct" where
  "ipcctl_pre_down ns ids i t =
     (case ipc_lock_check ids i of
        Inl e \<Rightarrow> (Inl e, t)
      | Inr ipcp \<Rightarrow>
          if euid (cur_cred t) = perm_cuid ipcp \<or> euid (cur_cred t) = perm_uid ipcp then (Inr ipcp, t)
          else (let (b, t') = ns_capable ns CAP_SYS_ADMIN t in (if b then Inr ipcp else Inl EPERM, t')))"

section \<open>Creating and finding objects\<close>

record ipc_params =
  par_key :: int
  par_flg :: u32
  par_nsems :: int

abbreviation (input) IPC_PRIVATE :: int where "IPC_PRIVATE \<equiv> 0"
abbreviation (input) IPC_CREAT :: u32 where "IPC_CREAT \<equiv> 0x200"
abbreviation (input) IPC_EXCL :: u32 where "IPC_EXCL \<equiv> 0x400"

text \<open>
  \<open>mem\<close> is the result of \<^verbatim>\<open>idr_pre_get\<close>; \<open>getnew\<close> and \<open>more_checks\<close> are the operations of the kind of object, applied to
  its state \<open>st\<close>.
\<close>

definition ipcget_new :: "bool \<Rightarrow> ('s \<Rightarrow> int kresult \<times> 's) \<Rightarrow> 's \<Rightarrow> int kresult \<times> 's" where
  "ipcget_new mem getnew st = (if \<not> mem then (Inl ENOMEM, st) else getnew st)"

definition ipc_check_perms ::
  "user_namespace \<Rightarrow> 'x kern_ipc_perm_scheme \<Rightarrow> ipc_params \<Rightarrow> task_struct \<Rightarrow> int kresult \<times> task_struct" where
  "ipc_check_perms ns ipcp params t =
     (let (b, t') = ipcperms ns ipcp (par_flg params) t in (if b then Inr (perm_id ipcp) else Inl EACCES, t'))"

definition ipcget_public ::
  "bool \<Rightarrow> user_namespace \<Rightarrow> ('s \<Rightarrow> int kresult \<times> 's) \<Rightarrow> ('x kern_ipc_perm_scheme \<Rightarrow> ipc_params \<Rightarrow> unit kresult) \<Rightarrow>
   's \<Rightarrow> 'x kern_ipc_perm_scheme ipc_ids \<Rightarrow> ipc_params \<Rightarrow> task_struct \<Rightarrow> int kresult \<times> 's \<times> task_struct" where
  "ipcget_public mem ns getnew more_checks st ids params t =
     (case ipc_findkey ids (par_key params) of
        None \<Rightarrow>
          if par_flg params AND IPC_CREAT = 0 then (Inl ENOENT, st, t)
          else if \<not> mem then (Inl ENOMEM, st, t)
          else (let (r, st') = getnew st in (r, st', t))
      | Some ipcp \<Rightarrow>
          if par_flg params AND IPC_CREAT \<noteq> 0 \<and> par_flg params AND IPC_EXCL \<noteq> 0 then (Inl EEXIST, st, t)
          else (case more_checks ipcp params of
                  Inl e \<Rightarrow> (Inl e, st, t)
                | Inr _ \<Rightarrow> (let (r, t') = ipc_check_perms ns ipcp params t in (r, st, t'))))"

definition ipcget ::
  "bool \<Rightarrow> user_namespace \<Rightarrow> ('s \<Rightarrow> int kresult \<times> 's) \<Rightarrow> ('x kern_ipc_perm_scheme \<Rightarrow> ipc_params \<Rightarrow> unit kresult) \<Rightarrow>
   's \<Rightarrow> 'x kern_ipc_perm_scheme ipc_ids \<Rightarrow> ipc_params \<Rightarrow> task_struct \<Rightarrow> int kresult \<times> 's \<times> task_struct" where
  "ipcget mem ns getnew more_checks st ids params t =
     (if par_key params = IPC_PRIVATE then (let (r, st') = ipcget_new mem getnew st in (r, st', t))
      else ipcget_public mem ns getnew more_checks st ids params t)"

section \<open>Facts on the table\<close>

lemma idr_get_new_free:
  "idr_get_new idr \<le> length idr \<and> (idr_get_new idr < length idr \<longrightarrow> idr ! idr_get_new idr = None) \<and>
   idr_get_new idr \<le> length (filter (\<lambda>x. x \<noteq> None) idr)"
  by (induction idr rule: idr_get_new.induct) auto

lemma count_set:
  "l < length xs \<Longrightarrow> int (length (filter P (xs[l := y]))) = int (length (filter P xs)) - (if P (xs ! l) then 1 else 0) + (if P y then 1 else 0)"
proof (induction xs arbitrary: l)
  case (Cons x xs)
  show ?case
  proof (cases l)
    case (Suc m)
    have "int (length (filter P (xs[m := y]))) = int (length (filter P xs)) - (if P (xs ! m) then 1 else 0) + (if P y then 1 else 0)"
      using Cons.IH [of m] Cons.prems Suc by simp
    then show ?thesis using Suc by (simp split: if_splits)
  qed simp
qed simp

lemma idr_store_find:
  assumes "lid \<le> length idr"
  shows "idr_find (idr_store idr lid p) k = (if k = lid then Some p else idr_find idr k)"
  using assms by (auto simp: idr_store_def idr_find_def nth_append nth_list_update)

lemma idr_store_count:
  assumes "lid \<le> length idr" and "lid < length idr \<Longrightarrow> idr ! lid = None"
  shows "int (length (filter (\<lambda>x. x \<noteq> None) (idr_store idr lid p))) = int (length (filter (\<lambda>x. x \<noteq> None) idr)) + 1"
proof (cases "lid < length idr")
  case True
  then show ?thesis using assms(2) count_set [OF True, of "\<lambda>x. x \<noteq> None" "Some p"] by (simp add: idr_store_def)
qed (simp add: idr_store_def)

lemma count_update: "l < length xs \<Longrightarrow> xs ! l \<noteq> None \<Longrightarrow> length (filter (\<lambda>x. x \<noteq> None) (xs[l := Some y])) = length (filter (\<lambda>x. x \<noteq> None) xs)"
proof -
  assume l: "l < length xs" "xs ! l \<noteq> None"
  have c: "length (filter (\<lambda>x. x \<noteq> None) ys) = length (filter (\<lambda>b. b) (map (\<lambda>x. x \<noteq> None) ys))" for ys :: "'a option list"
    by (induction ys) auto
  have "map (\<lambda>x. x \<noteq> None) (xs[l := Some y]) = map (\<lambda>x. x \<noteq> None) xs"
    using l by (simp add: map_update list_update_same_conv)
  then show ?thesis unfolding c by simp
qed

text \<open>The table counts its objects, and each is in the slot its identifier names.\<close>

definition ids_table_ok :: "'x kern_ipc_perm_scheme ipc_ids \<Rightarrow> bool" where
  "ids_table_ok ids \<longleftrightarrow> in_use ids = int (length (filter (\<lambda>x. x \<noteq> None) (ipcs_idr ids))) \<and>
     (\<forall>l p. idr_find (ipcs_idr ids) l = Some p \<longrightarrow> ipcid_to_idx (perm_id p) = l)"

lemma ids_tableD: "ids_table_ok ids \<Longrightarrow> idr_find (ipcs_idr ids) l = Some p \<Longrightarrow> ipcid_to_idx (perm_id p) = l"
  by (simp add: ids_table_ok_def)

lemma idr_findD: "idr_find idr l = Some p \<Longrightarrow> l < length idr \<and> idr ! l = Some p"
  by (auto simp: idr_find_def split: if_splits)

lemma idr_find_update: "idr_find idr l = Some p \<Longrightarrow> idr_find (idr[l := y]) k = (if k = l then y else idr_find idr k)"
  by (auto simp: idr_find_def split: if_splits)

lemma ids_table_put:
  assumes "ids_table_ok ids" and "idr_find (ipcs_idr ids) l = Some p" and "perm_id p' = perm_id p"
  shows "ids_table_ok (ids\<lparr>ipcs_idr := (ipcs_idr ids)[l := Some p']\<rparr>)"
  using assms idr_findD [OF assms(2)] count_update [of l "ipcs_idr ids" p'] unfolding ids_table_ok_def by (simp add: idr_find_update [OF assms(2)])

lemma ids_table_rmid:
  assumes "ids_table_ok ids" and "idr_find (ipcs_idr ids) l = Some p"
  shows "ids_table_ok (ipc_rmid ids p)" and "ipcs_idr (ipc_rmid ids p) = (ipcs_idr ids)[l := None]"
proof -
  have l: "ipcid_to_idx (perm_id p) = l" by (rule ids_tableD [OF assms])
  then show idr: "ipcs_idr (ipc_rmid ids p) = (ipcs_idr ids)[l := None]" by (simp add: ipc_rmid_def idr_remove_def)
  show "ids_table_ok (ipc_rmid ids p)"
    using assms(1) idr_findD [OF assms(2)] count_set [of l "ipcs_idr ids" "\<lambda>x. x \<noteq> None" None]
    unfolding ids_table_ok_def idr by (simp add: idr_find_update [OF assms(2)]) (simp add: ipc_rmid_def)
qed

lemma ids_table_addid:
  assumes ok: "ids_table_ok ids" and add: "ipc_addid ids new n cr = Inr (p, ids')"
  obtains lid where "lid \<le> length (ipcs_idr ids)" "idr_find (ipcs_idr ids) lid = None" "ipcs_idr ids' = idr_store (ipcs_idr ids) lid p" "ids_table_ok ids'"
    "p = new\<lparr>perm_cuid := perm_cuid p, perm_uid := perm_uid p, perm_gid := perm_gid p, perm_cgid := perm_cgid p, perm_seq := perm_seq p, perm_id := perm_id p\<rparr>"
proof -
  let ?idr = "ipcs_idr ids" and ?lid = "idr_get_new (ipcs_idr ids)"
  note f = idr_get_new_free [of ?idr]
  have d: "in_use ids < IPCMNI" "p = new\<lparr>perm_cuid := euid cr, perm_uid := euid cr, perm_gid := egid cr, perm_cgid := egid cr, perm_seq := ids_seq ids, perm_id := ipc_buildid ?lid (ids_seq ids)\<rparr>"
    "ipcs_idr ids' = idr_store ?idr ?lid p" "in_use ids' = in_use ids + 1"
    using add by (auto simp: ipc_addid_def Let_def split: if_splits)
  have "?lid < 32768" using f ok d(1) by (auto simp: ids_table_ok_def)
  then have idx: "ipcid_to_idx (perm_id p) = ?lid" unfolding d(2) by (simp add: ipcid_to_idx_def ipc_buildid_def)
  have "ids_table_ok ids'"
    using ok d(4) idx idr_store_find [of ?lid ?idr p] idr_store_count [of ?lid ?idr p] f unfolding ids_table_ok_def d(3) by simp
  moreover have "idr_find ?idr ?lid = None" using f by (auto simp: idr_find_def)
  ultimately show ?thesis using that [of ?lid] f d(3) by (simp add: d(2))
qed

text \<open>A number added up over the objects of a table.\<close>

definition table_sum :: "('o \<Rightarrow> nat) \<Rightarrow> 'o option list \<Rightarrow> nat" where
  "table_sum f idr = sum_list (map (case_option 0 f) idr)"

lemma table_sum_update: "idr_find idr l = Some p \<Longrightarrow> table_sum f (idr[l := y]) + f p = table_sum f idr + case_option 0 f y"
proof -
  assume "idr_find idr l = Some p"
  then have l: "l < length idr" "idr ! l = Some p" by (auto dest: idr_findD)
  have "f p \<le> table_sum f idr" using member_le_sum_list [of "f p" "map (case_option 0 f) idr"] l by (force simp: table_sum_def set_conv_nth image_iff)
  then show ?thesis using l by (simp add: table_sum_def map_update sum_list_update)
qed

lemma table_sum_store: "lid \<le> length idr \<Longrightarrow> idr_find idr lid = None \<Longrightarrow> table_sum f (idr_store idr lid p) = table_sum f idr + f p"
  by (auto simp: table_sum_def idr_store_def idr_find_def map_update sum_list_update)

end
