(* ===== verification/Sysv_Sem.thy ===== *)
theory Sysv_Sem
  imports Ipc_Ids
begin

text \<open>
  System V semaphores, \<^verbatim>\<open>ipc/sem.c\<close>.  An array of semaphores has a queue of the operations that sleep; those
  with one operation are also in the queue of their semaphore.  \<open>q_id\<close> and \<open>un_id\<close> stand for the addresses of the
  queue entry on the stack of a sleeper and of an undo structure.  The undo structures of an array are
  in its \<^verbatim>\<open>list_id\<close>; \<open>list_proc\<close> gives for each \<^verbatim>\<open>sem_undo_list\<close> its structures with the array each belongs to.  A
  section under the lock of an array is one function; where a function drops the lock and takes it
  again, an argument \<open>mid\<close> is what others do in between.  What C leaves undefined and every \<^verbatim>\<open>BUG_ON\<close> is
  \<open>None\<close> or \<open>Sem_fault\<close>.
\<close>

section \<open>Data\<close>

record sembuf =
  sem_num :: nat
  sem_op :: int
  sem_flg :: u16

record sem_queue =
  q_id :: nat
  q_undo :: "nat option"
  q_pid :: int
  q_sops :: "sembuf list"
  q_alter :: bool

record sem =
  semval :: int
  sempid :: int
  sem_pending :: "sem_queue list"

record sem_undo =
  un_id :: nat
  un_ulp :: nat
  semadj :: "int list"

record sem_array = kern_ipc_perm +
  sma_addr :: nat
  sem_otime :: int
  sem_ctime :: int
  sem_base :: "sem list"
  sma_pending :: "sem_queue list"
  list_id :: "sem_undo list"
  sem_nsems :: nat
  complex_count :: int

abbreviation (input) SEM_UNDO :: u16 where "SEM_UNDO \<equiv> 0x1000"
abbreviation (input) IPC_NOWAIT :: u16 where "IPC_NOWAIT \<equiv> 0x800"
abbreviation (input) SEMVMX :: int where "SEMVMX \<equiv> 32767"
abbreviation (input) SEMAEM :: int where "SEMAEM \<equiv> 32767"

definition with_undo :: "sembuf \<Rightarrow> bool" where "with_undo sop \<longleftrightarrow> sem_flg sop AND SEM_UNDO \<noteq> 0"
definition no_wait :: "sembuf \<Rightarrow> bool" where "no_wait sop \<longleftrightarrow> sem_flg sop AND IPC_NOWAIT \<noteq> 0"

datatype semop_result = Sem_done | Sem_block | Sem_error errno | Sem_fault

section \<open>Trying a sequence of operations\<close>

definition would_block :: "sembuf \<Rightarrow> semop_result" where
  "would_block sop = (if no_wait sop then Sem_error EAGAIN else Sem_block)"

text \<open>The check of the adjustment; \<open>None\<close> if there is none to look at.\<close>

definition undo_in_range :: "int list option \<Rightarrow> sembuf \<Rightarrow> bool option" where
  "undo_in_range adj sop =
     (if \<not> with_undo sop then Some True
      else (case adj of
              None \<Rightarrow> None
            | Some a \<Rightarrow>
                if \<not> sem_num sop < length a then None
                else (let undo = a ! sem_num sop - sem_op sop in Some (\<not> (undo < - SEMAEM - 1 \<or> undo > SEMAEM)))))"

text \<open>The first loop; \<open>prev\<close> are the operations already made, the last one first.\<close>

fun semop_loop :: "int list option \<Rightarrow> sembuf list \<Rightarrow> sembuf list \<Rightarrow> sem list \<Rightarrow> semop_result \<times> sembuf list \<times> sem list" where
  "semop_loop adj prev [] base = (Sem_done, prev, base)"
| "semop_loop adj prev (sop # sops) base =
     (if \<not> sem_num sop < length base then (Sem_fault, prev, base)
      else (let curr = base ! sem_num sop;
                result = semval curr + sem_op sop
            in if sem_op sop = 0 \<and> semval curr \<noteq> 0 then (would_block sop, prev, base)
               else if result < 0 then (would_block sop, prev, base)
               else if result > SEMVMX then (Sem_error ERANGE, prev, base)
               else (case undo_in_range adj sop of
                       None \<Rightarrow> (Sem_fault, prev, base)
                     | Some False \<Rightarrow> (Sem_error ERANGE, prev, base)
                     | Some True \<Rightarrow> semop_loop adj (sop # prev) sops (base[sem_num sop := curr\<lparr>semval := result\<rparr>]))))"

fun semop_undo :: "sembuf list \<Rightarrow> sem list \<Rightarrow> sem list" where
  "semop_undo [] base = base"
| "semop_undo (sop # prev) base =
     semop_undo prev (base[sem_num sop := (base ! sem_num sop)\<lparr>semval := semval (base ! sem_num sop) - sem_op sop\<rparr>])"

fun semop_commit :: "int \<Rightarrow> sembuf list \<Rightarrow> sem list \<Rightarrow> int list option \<Rightarrow> sem list \<times> int list option" where
  "semop_commit pid [] base adj = (base, adj)"
| "semop_commit pid (sop # prev) base adj =
     semop_commit pid prev (base[sem_num sop := (base ! sem_num sop)\<lparr>sempid := pid\<rparr>])
       (if with_undo sop then map_option (\<lambda>a. a[sem_num sop := wrap_s 16 (a ! sem_num sop - sem_op sop)]) adj else adj)"

definition find_undo :: "sem_array \<Rightarrow> nat option \<Rightarrow> sem_undo option" where
  "find_undo sma un = (case un of None \<Rightarrow> None | Some i \<Rightarrow> find (\<lambda>u. un_id u = i) (list_id sma))"

definition store_undo :: "nat option \<Rightarrow> int list option \<Rightarrow> sem_array \<Rightarrow> sem_array" where
  "store_undo un adj sma =
     (case (un, adj) of
        (Some i, Some a) \<Rightarrow> sma\<lparr>list_id := map (\<lambda>u. if un_id u = i then u\<lparr>semadj := a\<rparr> else u) (list_id sma)\<rparr>
      | _ \<Rightarrow> sma)"

definition try_atomic_semop :: "sem_array \<Rightarrow> sembuf list \<Rightarrow> nat option \<Rightarrow> int \<Rightarrow> semop_result \<times> sem_array" where
  "try_atomic_semop sma sops un pid =
     (let adj = map_option semadj (find_undo sma un);
          (r, prev, base) = semop_loop adj [] sops (sem_base sma)
      in if r = Sem_done
         then (let (base', adj') = semop_commit pid prev base adj
               in (Sem_done, store_undo un adj' (sma\<lparr>sem_base := base'\<rparr>)))
         else (r, sma\<lparr>sem_base := semop_undo prev base\<rparr>))"

section \<open>The queues\<close>

type_synonym wake_list = "(nat \<times> unit kresult) list"

definition is_simple :: "sem_queue \<Rightarrow> bool" where "is_simple q \<longleftrightarrow> length (q_sops q) = 1"
definition simple_sop :: "sem_queue \<Rightarrow> sembuf" where "simple_sop q = hd (q_sops q)"

definition unlink_queue :: "sem_array \<Rightarrow> sem_queue \<Rightarrow> sem_array option" where
  "unlink_queue sma q =
     (if \<not> (\<exists>p \<in> set (sma_pending sma). q_id p = q_id q) then None
      else (let sma1 = sma\<lparr>sma_pending := filter (\<lambda>p. q_id p \<noteq> q_id q) (sma_pending sma)\<rparr>;
                n = sem_num (simple_sop q);
                curr = sem_base sma ! n
            in if is_simple q
               then Some (sma1\<lparr>sem_base := (sem_base sma)[n := curr\<lparr>sem_pending := filter (\<lambda>p. q_id p \<noteq> q_id q) (sem_pending curr)\<rparr>]\<rparr>)
               else Some (sma1\<lparr>complex_count := complex_count sma - 1\<rparr>)))"

definition check_restart :: "sem_array \<Rightarrow> sem_queue \<Rightarrow> bool option" where
  "check_restart sma q =
     (if \<not> q_alter q then Some False
      else if complex_count sma \<noteq> 0 then Some True
      else if length (q_sops q) > 1 then Some True
      else (let curr = sem_base sma ! sem_num (simple_sop q)
            in case sem_pending curr of
                 [] \<Rightarrow> Some False
               | h # _ \<Rightarrow>
                   if semval curr \<noteq> 0 then (if sem_op (simple_sop q) \<ge> 0 then None else Some False)
                   else if length (q_sops h) \<noteq> 1 then None
                   else if sem_num (simple_sop h) \<noteq> sem_num (simple_sop q) then None
                   else Some (sem_op (simple_sop h) = 0)))"

definition pending_list :: "nat option \<Rightarrow> sem_array \<Rightarrow> sem_queue list" where
  "pending_list semnum sma = (case semnum of None \<Rightarrow> sma_pending sma | Some n \<Rightarrow> sem_pending (sem_base sma ! n))"

lemma pending_try [simp]: "sma_pending (snd (try_atomic_semop sma sops un pid)) = sma_pending sma"
  by (simp add: try_atomic_semop_def store_undo_def Let_def split: prod.splits option.splits)

lemma pending_unlink: "unlink_queue sma q = Some sma' \<Longrightarrow> length (sma_pending sma') < length (sma_pending sma)"
proof -
  assume u: "unlink_queue sma q = Some sma'"
  then obtain p where "p \<in> set (sma_pending sma)" "\<not> q_id p \<noteq> q_id q" by (auto simp: unlink_queue_def split: if_splits)
  then have "length (filter (\<lambda>p. q_id p \<noteq> q_id q) (sma_pending sma)) < length (sma_pending sma)"
    by (rule length_filter_less)
  moreover have "sma_pending sma' = filter (\<lambda>p. q_id p \<noteq> q_id q) (sma_pending sma)"
    using u by (auto simp: unlink_queue_def Let_def split: if_splits)
  ultimately show ?thesis by simp
qed

lemma pending_tried: "(r, sma') = try_atomic_semop sma sops un pid \<Longrightarrow> length (sma_pending sma') = length (sma_pending sma)"
  by (metis pending_try snd_conv)

text \<open>The loop of \<^verbatim>\<open>update_queue\<close>; \<open>walk\<close> are the entries still to be looked at.\<close>

function update_loop :: "nat option \<Rightarrow> sem_array \<Rightarrow> sem_queue list \<Rightarrow> wake_list \<Rightarrow> bool \<Rightarrow> (sem_array \<times> wake_list \<times> bool) option" where
  "update_loop semnum sma [] pt completed = Some (sma, pt, completed)"
| "update_loop semnum sma (q # walk) pt completed =
     (if semnum \<noteq> None \<and> semval (sem_base sma ! the semnum) = 0 \<and> q_alter q then Some (sma, pt, completed)
      else (case try_atomic_semop sma (q_sops q) (q_undo q) (q_pid q) of
              (Sem_fault, sma1) \<Rightarrow> None
            | (Sem_block, sma1) \<Rightarrow> update_loop semnum sma1 walk pt completed
            | (Sem_error e, sma1) \<Rightarrow>
                (case unlink_queue sma1 q of
                   None \<Rightarrow> None
                 | Some sma2 \<Rightarrow> update_loop semnum sma2 walk (pt @ [(q_id q, Inl e)]) completed)
            | (Sem_done, sma1) \<Rightarrow>
                (case unlink_queue sma1 q of
                   None \<Rightarrow> None
                 | Some sma2 \<Rightarrow>
                    (case check_restart sma2 q of
                       None \<Rightarrow> None
                     | Some restart \<Rightarrow>
                         update_loop semnum sma2 (if restart then pending_list semnum sma2 else walk) (pt @ [(q_id q, Ok)]) True))))"
  by pat_completeness auto
termination
  by (relation "measures [\<lambda>(n, sma, walk, pt, c). length (sma_pending sma), \<lambda>(n, sma, walk, pt, c). length walk]")
    (auto dest!: pending_unlink pending_tried)

declare update_loop.simps(2) [simp del]

definition update_queue :: "sem_array \<Rightarrow> nat option \<Rightarrow> wake_list \<Rightarrow> (sem_array \<times> wake_list \<times> bool) option" where
  "update_queue sma semnum pt =
     (let semnum' = (if complex_count sma \<noteq> 0 then None else semnum)
      in update_loop semnum' sma (pending_list semnum' sma) pt False)"

fun smart_loop :: "sem_array \<Rightarrow> sembuf list \<Rightarrow> bool \<Rightarrow> wake_list \<Rightarrow> (sem_array \<times> wake_list \<times> bool) option" where
  "smart_loop sma [] otime pt = Some (sma, pt, otime)"
| "smart_loop sma (sop # sops) otime pt =
     (if sem_op sop > 0 \<or> sem_op sop < 0 \<and> semval (sem_base sma ! sem_num sop) = 0
      then (case update_queue sma (Some (sem_num sop)) pt of
              None \<Rightarrow> None
            | Some (sma1, pt1, completed) \<Rightarrow> smart_loop sma1 sops (otime \<or> completed) pt1)
      else smart_loop sma sops otime pt)"

definition do_smart_update :: "sem_array \<Rightarrow> sembuf list option \<Rightarrow> bool \<Rightarrow> int \<Rightarrow> (sem_array \<times> wake_list) option" where
  "do_smart_update sma sops otime now =
     (let r = (if complex_count sma \<noteq> 0 \<or> sops = None
               then map_option (\<lambda>(sma1, pt, completed). (sma1, pt, otime \<or> completed)) (update_queue sma None [])
               else smart_loop sma (the sops) otime [])
      in map_option (\<lambda>(sma1, pt, otime'). (if otime' then sma1\<lparr>sem_otime := now\<rparr> else sma1, pt)) r)"

definition count_semncnt :: "sem_array \<Rightarrow> nat \<Rightarrow> nat" where
  "count_semncnt sma semnum =
     length (filter (\<lambda>sop. sem_num sop = semnum \<and> sem_op sop < 0 \<and> \<not> no_wait sop) (concat (map q_sops (sma_pending sma))))"

definition count_semzcnt :: "sem_array \<Rightarrow> nat \<Rightarrow> nat" where
  "count_semzcnt sma semnum =
     length (filter (\<lambda>sop. sem_num sop = semnum \<and> sem_op sop = 0 \<and> \<not> no_wait sop) (concat (map q_sops (sma_pending sma))))"

section \<open>The namespace\<close>

text \<open>
  \<open>undo_list\<close> is \<^verbatim>\<open>current->sysvsem.undo_list\<close> of every task; \<open>woken\<close> are the results that sleepers find in
  their \<^verbatim>\<open>queue.status\<close>.
\<close>

record ipc_namespace =
  sem_ids :: "sem_array ipc_ids"
  used_sems :: int
  sc_semmsl :: int
  sc_semmns :: int
  sc_semopm :: int
  sc_semmni :: int
  ipc_user_ns :: user_namespace
  undo_list :: "tid \<Rightarrow> nat option"
  refcnt :: "nat \<Rightarrow> int"
  list_proc :: "nat \<Rightarrow> (nat \<times> int) list"
  woken :: wake_list

definition sem_init_ns :: "user_namespace \<Rightarrow> ipc_namespace" where
  "sem_init_ns uns =
     \<lparr>sem_ids = ipc_init_ids, used_sems = 0, sc_semmsl = 250, sc_semmns = 32000, sc_semopm = 32, sc_semmni = 128,
      ipc_user_ns = uns, undo_list = (\<lambda>_. None), refcnt = (\<lambda>_. 0), list_proc = (\<lambda>_. []), woken = []\<rparr>"

definition store_array :: "ipc_namespace \<Rightarrow> sem_array \<Rightarrow> ipc_namespace" where
  "store_array ns sma =
     ns\<lparr>sem_ids := (sem_ids ns)\<lparr>ipcs_idr := (ipcs_idr (sem_ids ns))[ipcid_to_idx (perm_id sma) := Some sma]\<rparr>\<rparr>"

definition wake_up_sem_queue_do :: "wake_list \<Rightarrow> ipc_namespace \<Rightarrow> ipc_namespace" where
  "wake_up_sem_queue_do pt ns = ns\<lparr>woken := woken ns @ pt\<rparr>"

text \<open>The array after its lock has been taken again; \<open>None\<close> if it has been deleted.\<close>

definition relock :: "ipc_namespace \<Rightarrow> sem_array \<Rightarrow> sem_array option" where
  "relock ns sma =
     (case idr_find (ipcs_idr (sem_ids ns)) (ipcid_to_idx (perm_id sma)) of
        None \<Rightarrow> None
      | Some s \<Rightarrow> if sma_addr s = sma_addr sma then Some s else None)"

section \<open>Creation and removal\<close>

definition new_array :: "ipc_params \<Rightarrow> nat \<Rightarrow> int \<Rightarrow> sem_array" where
  "new_array params a now =
     \<lparr>perm_id = 0, perm_key = par_key params, perm_uid = 0, perm_gid = 0, perm_cuid = 0, perm_cgid = 0,
      perm_mode = par_flg params AND S_IRWXUGO, perm_seq = 0,
      sma_addr = a, sem_otime = 0, sem_ctime = now,
      sem_base = replicate (nat (par_nsems params)) \<lparr>semval = 0, sempid = 0, sem_pending = []\<rparr>,
      sma_pending = [], list_id = [], sem_nsems = nat (par_nsems params), complex_count = 0\<rparr>"

definition newary :: "ipc_params \<Rightarrow> nat option \<Rightarrow> cred \<Rightarrow> int \<Rightarrow> ipc_namespace \<Rightarrow> int kresult \<times> ipc_namespace" where
  "newary params alloc cr now ns =
     (let nsems = par_nsems params
      in if nsems = 0 then (Inl EINVAL, ns)
         else if used_sems ns + nsems > sc_semmns ns then (Inl ENOSPC, ns)
         else (case alloc of
                 None \<Rightarrow> (Inl ENOMEM, ns)
               | Some a \<Rightarrow>
                  (case ipc_addid (sem_ids ns) (new_array params a now) (sc_semmni ns) cr of
                     Inl e \<Rightarrow> (Inl e, ns)
                   | Inr (sma, ids) \<Rightarrow> (Inr (perm_id sma), ns\<lparr>used_sems := used_sems ns + nsems, sem_ids := ids\<rparr>))))"

definition sem_more_checks :: "sem_array \<Rightarrow> ipc_params \<Rightarrow> unit kresult" where
  "sem_more_checks sma params = (if par_nsems params > int (sem_nsems sma) then Inl EINVAL else Ok)"

definition sys_semget ::
  "ipc_namespace \<Rightarrow> int \<Rightarrow> int \<Rightarrow> u32 \<Rightarrow> bool \<Rightarrow> nat option \<Rightarrow> int \<Rightarrow> task_struct \<Rightarrow> int kresult \<times> ipc_namespace \<times> task_struct" where
  "sys_semget ns key nsems semflg mem alloc now t =
     (if nsems < 0 \<or> nsems > sc_semmsl ns then (Inl EINVAL, ns, t)
      else (let params = \<lparr>par_key = key, par_flg = semflg, par_nsems = nsems\<rparr>
            in ipcget mem (ipc_user_ns ns) (newary params alloc (cur_cred t) now) sem_more_checks ns (sem_ids ns) params t))"

definition freeary :: "ipc_namespace \<Rightarrow> sem_array \<Rightarrow> ipc_namespace" where
  "freeary ns sma =
     wake_up_sem_queue_do (map (\<lambda>q. (q_id q, Inl EIDRM)) (sma_pending sma))
       (ns\<lparr>list_proc := (\<lambda>ulp. filter (\<lambda>(un, semid). un \<notin> un_id ` set (list_id sma)) (list_proc ns ulp)),
           sem_ids := ipc_rmid (sem_ids ns) sma,
           used_sems := used_sems ns - int (sem_nsems sma)\<rparr>)"

section \<open>semctl\<close>

abbreviation (input) GETPID :: int where "GETPID \<equiv> 11"
abbreviation (input) GETVAL :: int where "GETVAL \<equiv> 12"
abbreviation (input) GETALL :: int where "GETALL \<equiv> 13"
abbreviation (input) GETNCNT :: int where "GETNCNT \<equiv> 14"
abbreviation (input) GETZCNT :: int where "GETZCNT \<equiv> 15"
abbreviation (input) SETVAL :: int where "SETVAL \<equiv> 16"
abbreviation (input) SETALL :: int where "SETALL \<equiv> 17"
abbreviation (input) SEMMSL_FAST :: nat where "SEMMSL_FAST \<equiv> 256"

text \<open>
  What a call meets: memory for a large array, the actions of others while the lock is dropped, the
  user's array of 16-bit values, whether the result can be copied out, the time and the caller's group id.
\<close>

record semctl_env =
  io_mem :: bool
  env_mid :: "ipc_namespace \<Rightarrow> ipc_namespace"
  user_array :: "u16 list option"
  user_writable :: bool
  env_now :: int
  env_tgid :: int

text \<open>
  An index outside \<^verbatim>\<open>sem_base\<close> or \<^verbatim>\<open>semadj\<close> is a fault here as in \<^verbatim>\<open>try_atomic_semop\<close>: the accesses of a command are
  made only after it is known that they stay inside.
\<close>

definition getall_copy :: "sem_array \<Rightarrow> semctl_env \<Rightarrow> int list kresult option" where
  "getall_copy s env =
     (if length (sem_base s) < sem_nsems s then None
      else Some (if user_writable env then Inr (map semval (take (sem_nsems s) (sem_base s))) else Inl EFAULT))"

definition semctl_getall :: "ipc_namespace \<Rightarrow> sem_array \<Rightarrow> semctl_env \<Rightarrow> (int list kresult \<times> ipc_namespace) option" where
  "semctl_getall ns sma env =
     (if sem_nsems sma > SEMMSL_FAST
      then if \<not> io_mem env then Some (Inl ENOMEM, env_mid env ns)
           else (let ns1 = env_mid env ns
                 in case relock ns1 sma of
                      None \<Rightarrow> Some (Inl EIDRM, ns1)
                    | Some s \<Rightarrow> map_option (\<lambda>r. (r, ns1)) (getall_copy s env))
      else map_option (\<lambda>r. (r, ns)) (getall_copy sma env))"

text \<open>\<^verbatim>\<open>SETALL\<close> from the point where the lock is taken again.\<close>

definition setall_store :: "ipc_namespace \<Rightarrow> sem_array \<Rightarrow> u16 list \<Rightarrow> int \<Rightarrow> (unit kresult \<times> ipc_namespace) option" where
  "setall_store ns sma vs time =
     (case relock ns sma of
        None \<Rightarrow> Some (Inl EIDRM, ns)
      | Some s \<Rightarrow>
         if length (sem_base s) < length vs \<or> (\<exists>u \<in> set (list_id s). length (semadj u) < length vs) then None
         else
         (case do_smart_update
                 (s\<lparr>sem_base := map2 (\<lambda>c v. c\<lparr>semval := uint v\<rparr>) (sem_base s) vs,
                    list_id := map (\<lambda>u. u\<lparr>semadj := map (\<lambda>_. 0) (semadj u)\<rparr>) (list_id s),
                    sem_ctime := time\<rparr>) None False time of
            None \<Rightarrow> None
          | Some (s', pt) \<Rightarrow> Some (Ok, wake_up_sem_queue_do pt (store_array ns s'))))"

definition semctl_setall :: "ipc_namespace \<Rightarrow> sem_array \<Rightarrow> semctl_env \<Rightarrow> (unit kresult \<times> ipc_namespace) option" where
  "semctl_setall ns sma env =
     (let ns1 = env_mid env ns
      in if sem_nsems sma > SEMMSL_FAST \<and> \<not> io_mem env then Some (Inl ENOMEM, ns1)
         else (case user_array env of
                 None \<Rightarrow> Some (Inl EFAULT, ns1)
               | Some vs0 \<Rightarrow>
                  (let vs = take (sem_nsems sma) vs0
                   in if length vs < sem_nsems sma then Some (Inl EFAULT, ns1)
                      else if \<exists>v \<in> set vs. uint v > SEMVMX then Some (Inl ERANGE, ns1)
                      else setall_store ns1 sma vs (env_now env))))"

definition semctl_setval :: "ipc_namespace \<Rightarrow> sem_array \<Rightarrow> nat \<Rightarrow> int \<Rightarrow> semctl_env \<Rightarrow> (unit kresult \<times> ipc_namespace) option" where
  "semctl_setval ns sma n val env =
     (if val > SEMVMX \<or> val < 0 then Some (Inl ERANGE, ns)
      else if n \<ge> length (sem_base sma) \<or> (\<exists>u \<in> set (list_id sma). n \<ge> length (semadj u)) then None
      else (case do_smart_update
                   (sma\<lparr>list_id := map (\<lambda>u. u\<lparr>semadj := (semadj u)[n := 0]\<rparr>) (list_id sma),
                        sem_base := (sem_base sma)[n := (sem_base sma ! n)\<lparr>semval := val, sempid := env_tgid env\<rparr>],
                        sem_ctime := env_now env\<rparr>) None False (env_now env) of
              None \<Rightarrow> None
            | Some (s', pt) \<Rightarrow> Some (Ok, wake_up_sem_queue_do pt (store_array ns s'))))"

text \<open>The value and the array returned.\<close>

definition semctl_main ::
  "ipc_namespace \<Rightarrow> int \<Rightarrow> int \<Rightarrow> int \<Rightarrow> int \<Rightarrow> semctl_env \<Rightarrow> task_struct \<Rightarrow>
   ((int \<times> int list) kresult \<times> ipc_namespace \<times> task_struct) option" where
  "semctl_main ns semid semnum cmd val env t =
     (case ipc_lock_check (sem_ids ns) semid of
        Inl e \<Rightarrow> Some (Inl e, ns, t)
      | Inr sma \<Rightarrow>
         (let (b, t1) = ipcperms (ipc_user_ns ns) sma (if cmd = SETVAL \<or> cmd = SETALL then S_IWUGO else S_IRUGO) t;
              unit = map_option (\<lambda>(r, ns'). (map_sum (\<lambda>e. e) (\<lambda>_. (0, [])) r, ns', t1))
          in if \<not> b then Some (Inl EACCES, ns, t1)
             else if cmd = GETALL
             then map_option (\<lambda>(r, ns'). (map_sum (\<lambda>e. e) (\<lambda>vs. (0, vs)) r, ns', t1)) (semctl_getall ns sma env)
             else if cmd = SETALL then unit (semctl_setall ns sma env)
             else if semnum < 0 \<or> semnum \<ge> int (sem_nsems sma) then Some (Inl EINVAL, ns, t1)
             else (let curr = (if nat semnum < length (sem_base sma) then Some (sem_base sma ! nat semnum) else None)
                   in if cmd = GETVAL then map_option (\<lambda>c. (Inr (semval c, []), ns, t1)) curr
                      else if cmd = GETPID then map_option (\<lambda>c. (Inr (sempid c, []), ns, t1)) curr
                      else if cmd = GETNCNT then Some (Inr (int (count_semncnt sma (nat semnum)), []), ns, t1)
                      else if cmd = GETZCNT then Some (Inr (int (count_semzcnt sma (nat semnum)), []), ns, t1)
                      else if cmd = SETVAL then unit (semctl_setval ns sma (nat semnum) val env)
                      else Some (Inl EINVAL, ns, t1))))"

text \<open>\<open>arg\<close> is the structure of \<^verbatim>\<open>IPC_SET\<close>: user, group and mode, if it can be read.\<close>

definition semctl_down ::
  "ipc_namespace \<Rightarrow> int \<Rightarrow> int \<Rightarrow> (u32 \<times> u32 \<times> u32) option \<Rightarrow> int \<Rightarrow> task_struct \<Rightarrow> unit kresult \<times> ipc_namespace \<times> task_struct" where
  "semctl_down ns semid cmd arg time t =
     (if cmd = 1 \<and> arg = None then (Inl EFAULT, ns, t)
      else (case ipcctl_pre_down (ipc_user_ns ns) (sem_ids ns) semid t of
              (Inl e, t1) \<Rightarrow> (Inl e, ns, t1)
            | (Inr sma, t1) \<Rightarrow>
                if cmd = 0 then (Ok, freeary ns sma, t1)
                else if cmd = 1
                then (let (u, g, m) = the arg
                      in (Ok, store_array ns ((ipc_update_perm u g m sma)\<lparr>sem_ctime := time\<rparr>), t1))
                else (Inl EINVAL, ns, t1)))"

definition semctl_nolock ::
  "ipc_namespace \<Rightarrow> int \<Rightarrow> int \<Rightarrow> bool \<Rightarrow> task_struct \<Rightarrow> (int \<times> int list) kresult \<times> task_struct" where
  \<comment> \<open>\<^verbatim>\<open>IPC_INFO\<close> 3, \<^verbatim>\<open>SEM_INFO\<close> 19, \<^verbatim>\<open>IPC_STAT\<close> 2, \<^verbatim>\<open>SEM_STAT\<close> 18; the numbers of the structure copied out\<close>
  "semctl_nolock ns semid cmd writable t =
     (if cmd = 3 \<or> cmd = 19
      then (let max_id = ipc_get_maxid (sem_ids ns);
                info = [sc_semmni ns, sc_semmns ns, sc_semmsl ns, sc_semopm ns, SEMVMX, 32000, 32000, 32] @
                       (if cmd = 19 then [in_use (sem_ids ns), used_sems ns] else [20, SEMAEM])
            in (if writable then Inr (if max_id < 0 then 0 else max_id, info) else Inl EFAULT, t))
      else if cmd = 2 \<or> cmd = 18
      then (case (if cmd = 18 then ipc_lock (sem_ids ns) semid else ipc_lock_check (sem_ids ns) semid) of
              Inl e \<Rightarrow> (Inl e, t)
            | Inr sma \<Rightarrow>
               (let (b, t1) = ipcperms (ipc_user_ns ns) sma S_IRUGO t
                in (if \<not> b then Inl EACCES
                    else if \<not> writable then Inl EFAULT
                    else Inr (if cmd = 18 then perm_id sma else 0,
                              [perm_key sma, uint (perm_uid sma), uint (perm_gid sma), uint (perm_cuid sma), uint (perm_cgid sma),
                               uint (perm_mode sma), perm_seq sma, sem_otime sma, sem_ctime sma, int (sem_nsems sma)]), t1)))
      else (Inl EINVAL, t))"

text \<open>The call itself: commands that need no lock, that lock the array, and that lock the whole table.\<close>

definition sys_semctl ::
  "ipc_namespace \<Rightarrow> int \<Rightarrow> int \<Rightarrow> int \<Rightarrow> int \<Rightarrow> (u32 \<times> u32 \<times> u32) option \<Rightarrow> semctl_env \<Rightarrow> task_struct \<Rightarrow>
   ((int \<times> int list) kresult \<times> ipc_namespace \<times> task_struct) option" where
  "sys_semctl ns semid semnum cmd val arg env t =
     (if semid < 0 then Some (Inl EINVAL, ns, t)
      else (let (version, cmd) = ipc_parse_version cmd
            in if cmd = 3 \<or> cmd = 19 \<or> cmd = 2 \<or> cmd = 18
               then (let (r, t1) = semctl_nolock ns semid cmd (user_writable env) t in Some (r, ns, t1))
               else if cmd = GETALL \<or> cmd = GETVAL \<or> cmd = GETPID \<or> cmd = GETNCNT \<or> cmd = GETZCNT \<or> cmd = SETVAL \<or> cmd = SETALL
               then semctl_main ns semid semnum cmd val env t
               else if cmd = 0 \<or> cmd = 1
               then (let (r, ns', t1) = semctl_down ns semid cmd arg (env_now env) t in Some (map_sum (\<lambda>e. e) (\<lambda>_. (0, [])) r, ns', t1))
               else Some (Inl EINVAL, ns, t)))"

section \<open>Undo structures\<close>

definition get_undo_list :: "ipc_namespace \<Rightarrow> tid \<Rightarrow> nat option \<Rightarrow> nat kresult \<times> ipc_namespace" where
  "get_undo_list ns current alloc =
     (case undo_list ns current of
        Some ulp \<Rightarrow> (Inr ulp, ns)
      | None \<Rightarrow>
         (case alloc of
            None \<Rightarrow> (Inl ENOMEM, ns)
          | Some ulp \<Rightarrow> (Inr ulp, ns\<lparr>refcnt := (refcnt ns)(ulp := 1), list_proc := (list_proc ns)(ulp := []),
                              undo_list := (undo_list ns)(current := Some ulp)\<rparr>)))"

definition do_lookup_undo :: "ipc_namespace \<Rightarrow> nat \<Rightarrow> int \<Rightarrow> nat option" where
  "do_lookup_undo ns ulp semid = map_option fst (find (\<lambda>(un, i). i = semid) (list_proc ns ulp))"

text \<open>A structure that is found moves to the front of its list.\<close>

definition lookup_undo :: "ipc_namespace \<Rightarrow> nat \<Rightarrow> int \<Rightarrow> nat option \<times> ipc_namespace" where
  "lookup_undo ns ulp semid =
     (case do_lookup_undo ns ulp semid of
        None \<Rightarrow> (None, ns)
      | Some un \<Rightarrow> (Some un, ns\<lparr>list_proc := (list_proc ns)
                      (ulp := (un, semid) # filter (\<lambda>(u, i). u \<noteq> un) (list_proc ns ulp))\<rparr>))"

text \<open>Steps 3 to 5 of \<^verbatim>\<open>find_alloc_undo\<close>, with the array locked again.\<close>

definition add_undo :: "ipc_namespace \<Rightarrow> sem_array \<Rightarrow> nat \<Rightarrow> int \<Rightarrow> nat \<Rightarrow> nat kresult \<times> ipc_namespace" where
  "add_undo ns sma ulp semid new =
     (case relock ns sma of
        None \<Rightarrow> (Inl EIDRM, ns)
      | Some s \<Rightarrow>
         (case lookup_undo ns ulp semid of
            (Some un, ns1) \<Rightarrow> (Inr un, ns1)
          | (None, ns1) \<Rightarrow>
              (Inr new, store_array
                 (ns1\<lparr>list_proc := (list_proc ns1)(ulp := (new, semid) # list_proc ns1 ulp)\<rparr>)
                 (s\<lparr>list_id := \<lparr>un_id = new, un_ulp = ulp, semadj = replicate (sem_nsems sma) 0\<rparr> # list_id s\<rparr>))))"

definition find_alloc_undo ::
  "ipc_namespace \<Rightarrow> tid \<Rightarrow> int \<Rightarrow> nat option \<Rightarrow> nat option \<Rightarrow> (ipc_namespace \<Rightarrow> ipc_namespace) \<Rightarrow> nat kresult \<times> ipc_namespace" where
  "find_alloc_undo ns current semid alloc_list alloc_undo mid =
     (case get_undo_list ns current alloc_list of
        (Inl e, ns1) \<Rightarrow> (Inl e, ns1)
      | (Inr ulp, ns1) \<Rightarrow>
         (case lookup_undo ns1 ulp semid of
            (Some un, ns2) \<Rightarrow> (Inr un, ns2)
          | (None, ns2) \<Rightarrow>
             (case ipc_lock_check (sem_ids ns2) semid of
                Inl e \<Rightarrow> (Inl e, ns2)
              | Inr sma \<Rightarrow>
                 (case alloc_undo of
                    None \<Rightarrow> (Inl ENOMEM, mid ns2)
                  | Some new \<Rightarrow> add_undo (mid ns2) sma ulp semid new))))"

section \<open>semop\<close>

record timespec =
  tv_sec :: int
  tv_nsec :: int

text \<open>
  The checks before anything is locked: the operations and the timeout as they are in user memory, and
  \<open>None\<close> inside \<open>timeout\<close> for one that cannot be read.
\<close>

definition semtimedop_args ::
  "ipc_namespace \<Rightarrow> int \<Rightarrow> sembuf list option \<Rightarrow> nat \<Rightarrow> bool \<Rightarrow> timespec option option \<Rightarrow> sembuf list kresult" where
  "semtimedop_args ns semid tsops nsops mem timeout =
     (if nsops < 1 \<or> semid < 0 then Inl EINVAL
      else if int nsops > sc_semopm ns then Inl E2BIG
      else if nsops > 64 \<and> \<not> mem then Inl ENOMEM
      else (case tsops of
              None \<Rightarrow> Inl EFAULT
            | Some sops \<Rightarrow>
                if length sops < nsops then Inl EFAULT
                else (case timeout of
                        None \<Rightarrow> Inr (take nsops sops)
                      | Some None \<Rightarrow> Inl EFAULT
                      | Some (Some ts) \<Rightarrow>
                          if tv_sec ts < 0 \<or> tv_nsec ts < 0 \<or> tv_nsec ts \<ge> 1000000000 then Inl EINVAL
                          else Inr (take nsops sops))))"

definition sops_max :: "sembuf list \<Rightarrow> nat" where
  "sops_max sops = fold (\<lambda>sop m. if sem_num sop \<ge> m then sem_num sop else m) sops 0"

definition sops_undos :: "sembuf list \<Rightarrow> bool" where "sops_undos sops \<longleftrightarrow> (\<exists>sop \<in> set sops. with_undo sop)"
definition sops_alter :: "sembuf list \<Rightarrow> bool" where "sops_alter sops \<longleftrightarrow> (\<exists>sop \<in> set sops. sem_op sop \<noteq> 0)"

datatype semop_outcome = Semop_ret "unit kresult" | Semop_sleeps

definition enqueue :: "sem_array \<Rightarrow> sem_queue \<Rightarrow> sem_array" where
  "enqueue sma q =
     (let add = (\<lambda>ls. if q_alter q then ls @ [q] else q # ls);
          sma1 = sma\<lparr>sma_pending := add (sma_pending sma)\<rparr>;
          n = sem_num (simple_sop q);
          curr = sem_base sma ! n
      in if is_simple q then sma1\<lparr>sem_base := (sem_base sma)[n := curr\<lparr>sem_pending := add (sem_pending curr)\<rparr>]\<rparr>
         else sma1\<lparr>complex_count := complex_count sma + 1\<rparr>)"

text \<open>
  The part of \<^verbatim>\<open>semtimedop\<close> under the lock, up to falling asleep.  \<open>un\<close> comes from \<^verbatim>\<open>find_alloc_undo\<close>; when it is no
  longer in the list of the array its \<^verbatim>\<open>semid\<close> has been set to -1.  \<open>i\<close> is the address of \<^verbatim>\<open>queue\<close>.
\<close>

definition semop_try ::
  "ipc_namespace \<Rightarrow> sem_array \<Rightarrow> sembuf list \<Rightarrow> nat option \<Rightarrow> nat \<Rightarrow> int \<Rightarrow> int \<Rightarrow> (semop_outcome \<times> ipc_namespace) option" where
  "semop_try ns sma sops un i pid time =
     (let alter = sops_alter sops
      in case try_atomic_semop sma sops un pid of
           (Sem_fault, sma1) \<Rightarrow> None
         | (Sem_error e, sma1) \<Rightarrow> Some (Semop_ret (Inl e), store_array ns sma1)
         | (Sem_done, sma1) \<Rightarrow>
             if alter
             then (case do_smart_update sma1 (Some sops) True time of
                     None \<Rightarrow> None
                   | Some (sma2, pt) \<Rightarrow> Some (Semop_ret Ok, wake_up_sem_queue_do pt (store_array ns sma2)))
             else Some (Semop_ret Ok, store_array ns sma1)
         | (Sem_block, sma1) \<Rightarrow>
             Some (Semop_sleeps, store_array ns (enqueue sma1
               \<lparr>q_id = i, q_undo = un, q_pid = pid, q_sops = sops, q_alter = alter\<rparr>)))"

definition semtimedop_locked ::
  "ipc_namespace \<Rightarrow> int \<Rightarrow> sembuf list \<Rightarrow> nat option \<Rightarrow> nat \<Rightarrow> int \<Rightarrow> int \<Rightarrow> task_struct \<Rightarrow>
   (semop_outcome \<times> ipc_namespace \<times> task_struct) option" where
  "semtimedop_locked ns semid sops un i pid time t =
     (case ipc_lock_check (sem_ids ns) semid of
        Inl e \<Rightarrow> Some (Semop_ret (Inl e), ns, t)
      | Inr sma \<Rightarrow>
          if un \<noteq> None \<and> find_undo sma un = None then Some (Semop_ret (Inl EIDRM), ns, t)
          else if sops_max sops \<ge> sem_nsems sma then Some (Semop_ret (Inl EFBIG), ns, t)
          else (let (b, t1) = ipcperms (ipc_user_ns ns) sma (if sops_alter sops then S_IWUGO else S_IRUGO) t
                in if \<not> b then Some (Semop_ret (Inl EACCES), ns, t1)
                   else map_option (\<lambda>(out, ns'). (out, ns', t1)) (semop_try ns sma sops un i pid time)))"

text \<open>
  The call up to its sleep.  \<open>mid\<close> acts while \<^verbatim>\<open>find_alloc_undo\<close> allocates, \<open>mid'\<close> between its end and the lock; \<^verbatim>\<open>semop\<close> is the
  call without a timeout.
\<close>

definition sys_semtimedop ::
  "ipc_namespace \<Rightarrow> int \<Rightarrow> sembuf list option \<Rightarrow> nat \<Rightarrow> timespec option option \<Rightarrow> bool \<Rightarrow> nat option \<Rightarrow> nat option \<Rightarrow>
   (ipc_namespace \<Rightarrow> ipc_namespace) \<Rightarrow> (ipc_namespace \<Rightarrow> ipc_namespace) \<Rightarrow> tid \<Rightarrow> nat \<Rightarrow> int \<Rightarrow> int \<Rightarrow> task_struct \<Rightarrow>
   (semop_outcome \<times> ipc_namespace \<times> task_struct) option" where
  "sys_semtimedop ns semid tsops nsops timeout mem alloc_list alloc_undo mid mid' current i pid time t =
     (case semtimedop_args ns semid tsops nsops mem timeout of
        Inl e \<Rightarrow> Some (Semop_ret (Inl e), ns, t)
      | Inr sops \<Rightarrow>
          if sops_undos sops
          then (case find_alloc_undo ns current semid alloc_list alloc_undo mid of
                  (Inl e, ns1) \<Rightarrow> Some (Semop_ret (Inl e), ns1, t)
                | (Inr un, ns1) \<Rightarrow> semtimedop_locked (mid' ns1) semid sops (Some un) i pid time t)
          else semtimedop_locked ns semid sops None i pid time t)"

definition sys_semop ::
  "ipc_namespace \<Rightarrow> int \<Rightarrow> sembuf list option \<Rightarrow> nat \<Rightarrow> bool \<Rightarrow> nat option \<Rightarrow> nat option \<Rightarrow>
   (ipc_namespace \<Rightarrow> ipc_namespace) \<Rightarrow> (ipc_namespace \<Rightarrow> ipc_namespace) \<Rightarrow> tid \<Rightarrow> nat \<Rightarrow> int \<Rightarrow> int \<Rightarrow> task_struct \<Rightarrow>
   (semop_outcome \<times> ipc_namespace \<times> task_struct) option" where
  "sys_semop ns semid tsops nsops = sys_semtimedop ns semid tsops nsops None"

text \<open>After the sleep: the result someone has left, or a signal or the timeout.\<close>

definition semtimedop_resume :: "ipc_namespace \<Rightarrow> int \<Rightarrow> sem_queue \<Rightarrow> bool \<Rightarrow> (unit kresult \<times> ipc_namespace) option" where
  "semtimedop_resume ns semid q timed_out =
     (case map_of (woken ns) (q_id q) of
        Some r \<Rightarrow> Some (r, ns\<lparr>woken := filter (\<lambda>(i, r). i \<noteq> q_id q) (woken ns)\<rparr>)
      | None \<Rightarrow>
         (case ipc_lock (sem_ids ns) semid of
            Inl e \<Rightarrow> Some (Inl EIDRM, ns)
          | Inr sma \<Rightarrow>
             (case unlink_queue sma q of
                None \<Rightarrow> None
              | Some sma1 \<Rightarrow> Some (Inl (if timed_out then EAGAIN else EINTR), store_array ns sma1))))"

section \<open>Tasks that start and end\<close>

definition copy_semundo :: "bool \<Rightarrow> tid \<Rightarrow> tid \<Rightarrow> nat option \<Rightarrow> ipc_namespace \<Rightarrow> unit kresult \<times> ipc_namespace" where
  \<comment> \<open>\<open>share\<close> is the flag \<^verbatim>\<open>CLONE_SYSVSEM\<close>\<close>
  "copy_semundo share current child alloc ns =
     (if share
      then (case get_undo_list ns current alloc of
              (Inl e, ns1) \<Rightarrow> (Inl e, ns1)
            | (Inr ulp, ns1) \<Rightarrow> (Ok, ns1\<lparr>refcnt := (refcnt ns1)(ulp := refcnt ns1 ulp + 1),
                                  undo_list := (undo_list ns1)(child := Some ulp)\<rparr>))
      else (Ok, ns\<lparr>undo_list := (undo_list ns)(child := None)\<rparr>))"

text \<open>The beginning of \<^verbatim>\<open>exit_sem\<close>; \<open>Some ulp\<close> if its adjustments have to be made.\<close>

definition exit_sem :: "tid \<Rightarrow> ipc_namespace \<Rightarrow> nat option \<times> ipc_namespace" where
  "exit_sem tsk ns =
     (case undo_list ns tsk of
        None \<Rightarrow> (None, ns)
      | Some ulp \<Rightarrow>
         (let ns1 = ns\<lparr>undo_list := (undo_list ns)(tsk := None), refcnt := (refcnt ns)(ulp := refcnt ns ulp - 1)\<rparr>
          in (if refcnt ns1 ulp \<noteq> 0 then None else Some ulp, ns1)))"

definition adjust_sem :: "int \<Rightarrow> int \<Rightarrow> sem \<Rightarrow> sem" where
  "adjust_sem pid adj s =
     (if adj = 0 then s
      else (let v = semval s + adj;
                v1 = (if v < 0 then 0 else v);
                v2 = (if v1 > SEMVMX then SEMVMX else v1)
            in s\<lparr>semval := v2, sempid := pid\<rparr>))"

text \<open>
  One pass of its loop, for the first structure of the list, and whether the loop goes on.  \<open>mid\<close> is what
  others do between \<^verbatim>\<open>rcu_read_unlock\<close> and the lock of the array.  \<^verbatim>\<open>un->semid\<close> is read once more after it: when
  \<^verbatim>\<open>freeary\<close> has taken the structure off the list meanwhile it may be freed, and the read is a fault.
\<close>

definition exit_sem_pass ::
  "nat \<Rightarrow> int \<Rightarrow> int \<Rightarrow> (ipc_namespace \<Rightarrow> ipc_namespace) \<Rightarrow> ipc_namespace \<Rightarrow> (bool \<times> ipc_namespace) option" where
  "exit_sem_pass ulp pid time mid ns =
     (case list_proc ns ulp of
        [] \<Rightarrow> Some (False, ns)
      | (first, semid) # _ \<Rightarrow>
         (let ns = mid ns
          in case map_of (list_proc ns ulp) first of
            None \<Rightarrow> None
          | Some un_semid \<Rightarrow>
         (case ipc_lock_check (sem_ids ns) un_semid of
            Inl e \<Rightarrow> Some (True, ns)
          | Inr sma \<Rightarrow>
             (case do_lookup_undo ns ulp semid of
                None \<Rightarrow> Some (True, ns)
              | Some un \<Rightarrow>
                 (case find_undo sma (Some un) of
                    None \<Rightarrow> None
                  | Some u \<Rightarrow>
                     if length (semadj u) < sem_nsems sma \<or> length (sem_base sma) < sem_nsems sma then None
                     else
                     (case do_smart_update
                             (sma\<lparr>list_id := filter (\<lambda>x. un_id x \<noteq> un) (list_id sma),
                                  sem_base := map2 (adjust_sem pid) (semadj u) (sem_base sma)\<rparr>) None True time of
                        None \<Rightarrow> None
                      | Some (sma2, pt) \<Rightarrow>
                          Some (True, wake_up_sem_queue_do pt (store_array
                            (ns\<lparr>list_proc := (list_proc ns)(ulp := filter (\<lambda>(x, i). x \<noteq> un) (list_proc ns ulp))\<rparr>) sma2))))))))"

text \<open>
  The loop when nothing comes in between; \<open>fuel\<close> bounds the number of passes, and one more than the length
  of the list is enough (\<open>exit_sem_completes\<close>).
\<close>

fun exit_sem_loop :: "nat \<Rightarrow> nat \<Rightarrow> int \<Rightarrow> int \<Rightarrow> ipc_namespace \<Rightarrow> ipc_namespace option" where
  "exit_sem_loop 0 ulp pid time ns = None"
| "exit_sem_loop (Suc fuel) ulp pid time ns =
     (case exit_sem_pass ulp pid time (\<lambda>ns. ns) ns of
        None \<Rightarrow> None
      | Some (again, ns') \<Rightarrow> if again then exit_sem_loop fuel ulp pid time ns' else Some ns')"

end
