(* ===== verification/Sem_Queue.thy ===== *)
theory Sem_Queue
  imports Sysv_Sem
begin

text \<open>
  The queue of a semaphore array: a sequence of operations happens as a whole or not at all, and the
  scans of \<^verbatim>\<open>update_queue\<close> and \<^verbatim>\<open>do_smart_update\<close> leave no operation asleep that could be made.
\<close>

section \<open>One sequence of operations\<close>

lemma semop_loop_undo: "semop_loop adj prev sops base = (r, prev', base') \<Longrightarrow> semop_undo prev' base' = semop_undo prev base"
proof (induction adj prev sops base rule: semop_loop.induct)
  case (2 adj prev sop sops base)
  let ?curr = "base ! sem_num sop"
  let ?base = "base[sem_num sop := ?curr\<lparr>semval := semval ?curr + sem_op sop\<rparr>]"
  show ?case
  proof (cases "sem_num sop < length base \<and> undo_in_range adj sop = Some True \<and> semop_loop adj (sop # prev) sops ?base = (r, prev', base')")
    case True
    then show ?thesis using 2 by (auto simp: Let_def split: if_splits)
  next
    case False
    then show ?thesis using 2(2) by (auto simp: Let_def split: if_splits option.splits bool.splits)
  qed
qed simp

text \<open>Only the values and the adjustments decide.\<close>

lemma map_nth_eq: "map f xs = map f ys \<Longrightarrow> k < length xs \<Longrightarrow> f (xs ! k) = f (ys ! k)"
  by (metis length_map nth_map)

lemma semop_loop_cong:
  "map semval base = map semval base' \<Longrightarrow> fst (semop_loop adj prev sops base) = fst (semop_loop adj prev' sops base')"
proof (induction sops arbitrary: prev prev' base base')
  case (Cons sop sops)
  have len: "length base = length base'" using Cons.prems by (metis length_map)
  show ?case
  proof (cases "sem_num sop < length base")
    case True
    then have v: "semval (base ! sem_num sop) = semval (base' ! sem_num sop)" using Cons.prems len by (metis nth_map)
    have "map semval (base[sem_num sop := (base ! sem_num sop)\<lparr>semval := x\<rparr>]) =
        map semval (base'[sem_num sop := (base' ! sem_num sop)\<lparr>semval := x\<rparr>])" for x
      using Cons.prems by (simp add: map_update)
    note IH = Cons.IH [OF this]
    show ?thesis using True len v by (auto simp: Let_def split: option.splits bool.splits intro: IH)
  qed (use len in simp)
qed simp

text \<open>
  What a sequence of operations adds to a semaphore, and what is to be said of an operation when those
  in \<open>pre\<close> have been made: nothing, if it can go on.
\<close>

definition change :: "sembuf list \<Rightarrow> nat \<Rightarrow> int" where
  "change sops k = sum_list (map sem_op (filter (\<lambda>sop. sem_num sop = k) sops))"

definition sop_verdict :: "sem list \<Rightarrow> int list option \<Rightarrow> sembuf list \<Rightarrow> sembuf \<Rightarrow> semop_result option" where
  "sop_verdict base adj pre sop =
     (if \<not> sem_num sop < length base then Some Sem_fault
      else (let v = semval (base ! sem_num sop) + change pre (sem_num sop)
            in if sem_op sop = 0 \<and> v \<noteq> 0 \<or> v + sem_op sop < 0 then Some (would_block sop)
               else if v + sem_op sop > SEMVMX then Some (Sem_error ERANGE)
               else (case undo_in_range adj sop of
                       None \<Rightarrow> Some Sem_fault
                     | Some b \<Rightarrow> if b then None else Some (Sem_error ERANGE))))"

lemma change_Nil [simp]: "change [] k = 0"
  by (simp add: change_def)

lemma change_append [simp]: "change (xs @ ys) k = change xs k + change ys k"
  by (simp add: change_def)

lemma change_Cons: "change (sop # sops) k = (if sem_num sop = k then sem_op sop else 0) + change sops k"
  by (simp add: change_def)

lemma change_none: "(\<And>sop. sop \<in> set sops \<Longrightarrow> sem_num sop = k \<Longrightarrow> sem_op sop = 0) \<Longrightarrow> change sops k = 0"
  by (induction sops) (auto simp: change_Cons)

lemma would_block_neq [simp]: "would_block sop \<noteq> Sem_done" "would_block sop \<noteq> Sem_fault"
  by (simp_all add: would_block_def)

lemma semop_loop_spec:
  assumes "length base = length base0" and "\<And>k. k < length base0 \<Longrightarrow> semval (base ! k) = semval (base0 ! k) + change pre k"
    and "semop_loop adj prev sops base = (r, prev', base')"
  shows "(r = Sem_done \<longrightarrow> prev' = rev sops @ prev \<and> (\<forall>i < length sops. sop_verdict base0 adj (pre @ take i sops) (sops ! i) = None) \<and>
      (\<forall>k < length base0. semval (base' ! k) = semval (base0 ! k) + change (pre @ sops) k)) \<and>
    (r \<noteq> Sem_done \<longrightarrow> (\<exists>i < length sops. sop_verdict base0 adj (pre @ take i sops) (sops ! i) = Some r \<and>
       (\<forall>j < i. sop_verdict base0 adj (pre @ take j sops) (sops ! j) = None))) \<and>
    length base' = length base0"
  using assms
proof (induction sops arbitrary: pre prev base)
  case (Cons sop sops)
  let ?k = "sem_num sop" and ?curr = "base ! sem_num sop"
  let ?base = "base[?k := ?curr\<lparr>semval := semval ?curr + sem_op sop\<rparr>]"
  show ?case
  proof (cases "sop_verdict base0 adj pre sop")
    case None
    then have k: "?k < length base" and u: "undo_in_range adj sop = Some True"
      and v: "\<not> (sem_op sop = 0 \<and> semval ?curr \<noteq> 0)" "\<not> semval ?curr + sem_op sop < 0" "\<not> semval ?curr + sem_op sop > SEMVMX"
      using Cons.prems(1,2) by (auto simp: sop_verdict_def Let_def split: if_splits option.splits)
    have run: "semop_loop adj (sop # prev) sops ?base = (r, prev', base')"
      using Cons.prems(3) k u v by (simp add: Let_def del: not_less)
    have vals: "semval (?base ! j) = semval (base0 ! j) + change (pre @ [sop]) j" if "j < length base0" for j
      using Cons.prems(1,2) that k by (auto simp: nth_list_update change_Cons)
    note IH = Cons.IH [OF _ vals run]
    show ?thesis
    proof (cases "r = Sem_done")
      case True
      then show ?thesis using IH Cons.prems(1) None by (simp add: All_less_Suc2)
    next
      case False
      then obtain i where "i < length sops" "sop_verdict base0 adj (pre @ take (Suc i) (sop # sops)) ((sop # sops) ! Suc i) = Some r"
        "\<forall>j < i. sop_verdict base0 adj (pre @ take (Suc j) (sop # sops)) ((sop # sops) ! Suc j) = None"
        using IH Cons.prems(1) by auto
      then have "\<exists>i < length (sop # sops). sop_verdict base0 adj (pre @ take i (sop # sops)) ((sop # sops) ! i) = Some r \<and>
          (\<forall>j < i. sop_verdict base0 adj (pre @ take j (sop # sops)) ((sop # sops) ! j) = None)"
        using None by (intro exI [of _ "Suc i"]) (auto simp: less_Suc_eq_0_disj)
      then show ?thesis using False IH Cons.prems(1) by simp
    qed
  next
    case (Some x)
    then have "r = x \<and> x \<noteq> Sem_done \<and> base' = base"
      using Cons.prems by (auto simp: sop_verdict_def Let_def split: if_splits option.splits bool.splits)
    then show ?thesis using Some Cons.prems(1) by auto
  qed
qed simp

lemma semop_loop_pending: "semop_loop adj prev sops base = (r, prev', base') \<Longrightarrow> map sem_pending base' = map sem_pending base"
proof (induction sops arbitrary: prev base)
  case (Cons sop sops)
  let ?curr = "base ! sem_num sop"
  let ?base = "base[sem_num sop := ?curr\<lparr>semval := semval ?curr + sem_op sop\<rparr>]"
  have "map sem_pending ?base = map sem_pending base"
    by (cases "sem_num sop < length base") (simp_all add: map_update list_update_beyond list_update_same_conv)
  then show ?case using Cons.IH [of "sop # prev" ?base] Cons.prems by (auto simp: Let_def split: if_splits option.splits bool.splits)
qed simp

lemma semop_loop_bounds:
  "semop_loop adj prev sops base = (r, prev', base') \<Longrightarrow> \<forall>s \<in> set base. 0 \<le> semval s \<and> semval s \<le> SEMVMX \<Longrightarrow>
     \<forall>s \<in> set base'. 0 \<le> semval s \<and> semval s \<le> SEMVMX"
proof (induction sops arbitrary: prev base)
  case (Cons sop sops)
  let ?curr = "base ! sem_num sop" and ?v = "semval (base ! sem_num sop) + sem_op sop"
  have "\<forall>s \<in> set (base[sem_num sop := ?curr\<lparr>semval := ?v\<rparr>]). 0 \<le> semval s \<and> semval s \<le> SEMVMX" if "0 \<le> ?v" "?v \<le> SEMVMX"
    using Cons.prems(2) that by (auto dest!: set_update_subset_insert [THEN subsetD])
  then show ?case using Cons.IH [of "sop # prev" "base[sem_num sop := ?curr\<lparr>semval := ?v\<rparr>]"] Cons.prems
    by (auto simp: Let_def split: if_splits option.splits bool.splits)
qed auto

text \<open>An adjustment is kept in 16 bits.\<close>

definition short :: "int \<Rightarrow> bool" where "short x \<longleftrightarrow> - 32768 \<le> x \<and> x \<le> 32767"

lemma short_wrap: "short (wrap_s 16 x)"
  using pos_mod_bound [of 65536 "x + 32768"] pos_mod_sign [of 65536 "x + 32768"] by (simp add: short_def wrap_s_def)

lemma wrap_short: "short x \<Longrightarrow> wrap_s 16 x = x"
  by (simp add: short_def wrap_s_def)

lemma semop_commit_base:
  "map semval (fst (semop_commit pid prev base adj)) = map semval base \<and>
   map sem_pending (fst (semop_commit pid prev base adj)) = map sem_pending base"
proof (induction prev arbitrary: base adj)
  case (Cons sop prev)
  let ?base = "base[sem_num sop := (base ! sem_num sop)\<lparr>sempid := pid\<rparr>]"
  have "map semval ?base = map semval base \<and> map sem_pending ?base = map sem_pending base"
    by (cases "sem_num sop < length base") (simp_all add: map_update list_update_beyond list_update_same_conv)
  then show ?case using Cons.IH by simp
qed simp

lemma semop_commit_adj:
  "(case adj of None \<Rightarrow> snd (semop_commit pid prev base adj) = None
    | Some a \<Rightarrow> \<exists>a'. snd (semop_commit pid prev base adj) = Some a' \<and> length a' = length a \<and>
        ((\<forall>x \<in> set a. short x) \<longrightarrow> (\<forall>x \<in> set a'. short x) \<and> (\<not> sops_alter prev \<longrightarrow> a' = a)))"
proof (induction prev arbitrary: base adj)
  case (Cons sop prev)
  show ?case
  proof (cases adj)
    case (Some a)
    define a1 where "a1 = (if with_undo sop then a[sem_num sop := wrap_s 16 (a ! sem_num sop - sem_op sop)] else a)"
    let ?base = "base[sem_num sop := (base ! sem_num sop)\<lparr>sempid := pid\<rparr>]"
    have s: "(\<forall>x \<in> set a. short x) \<longrightarrow> (\<forall>x \<in> set a1. short x)" and len: "length a1 = length a"
      using short_wrap by (auto simp: a1_def dest!: set_update_subset_insert [THEN subsetD])
    have same: "a1 = a" if "\<forall>x \<in> set a. short x" "sem_op sop = 0"
      using that by (cases "sem_num sop < length a") (auto simp: a1_def wrap_short list_update_same_conv list_update_beyond)
    obtain a' where a': "snd (semop_commit pid prev ?base (Some a1)) = Some a'" "length a' = length a1"
      "(\<forall>x \<in> set a1. short x) \<longrightarrow> (\<forall>x \<in> set a'. short x) \<and> (\<not> sops_alter prev \<longrightarrow> a' = a1)"
      using Cons.IH [of ?base "Some a1"] unfolding option.case by blast
    have run: "snd (semop_commit pid (sop # prev) base (Some a)) = Some a'" using a'(1) by (simp add: a1_def split: if_splits)
    have "(\<forall>x \<in> set a'. short x) \<and> (\<not> sops_alter (sop # prev) \<longrightarrow> a' = a)" if sh: "\<forall>x \<in> set a. short x"
    proof -
      have "\<forall>x \<in> set a'. short x" "\<not> sops_alter prev \<longrightarrow> a' = a1" using a'(3) s sh by blast+
      moreover have "sem_op sop = 0 \<and> \<not> sops_alter prev" if "\<not> sops_alter (sop # prev)"
        using that by (simp add: sops_alter_def)
      ultimately show ?thesis using same [OF sh] by blast
    qed
    then show ?thesis unfolding Some option.case using run a'(2) len by (intro exI [of _ a']) simp
  qed (use Cons.IH [of _ None] in simp)
qed (auto split: option.splits)

section \<open>Arrays\<close>

text \<open>An entry of the queue, as \<^verbatim>\<open>semtimedop\<close> makes it; an increment alone never sleeps.\<close>

definition entry_ok :: "sem_array \<Rightarrow> sem_queue \<Rightarrow> bool" where
  "entry_ok sma q \<longleftrightarrow> q_sops q \<noteq> [] \<and> (\<forall>sop \<in> set (q_sops q). sem_num sop < sem_nsems sma) \<and>
     q_alter q = sops_alter (q_sops q) \<and> (sops_undos (q_sops q) \<longrightarrow> find_undo sma (q_undo q) \<noteq> None) \<and>
     (is_simple q \<longrightarrow> \<not> no_wait (simple_sop q) \<and> sem_op (simple_sop q) \<le> 0)"

definition on_sem :: "nat \<Rightarrow> sem_queue \<Rightarrow> bool" where
  "on_sem k q \<longleftrightarrow> is_simple q \<and> sem_num (simple_sop q) = k"

definition values_ok :: "sem_array \<Rightarrow> bool" where
  "values_ok sma \<longleftrightarrow> length (sem_base sma) = sem_nsems sma \<and> (\<forall>s \<in> set (sem_base sma). 0 \<le> semval s \<and> semval s \<le> SEMVMX)"

definition undos_ok :: "sem_array \<Rightarrow> bool" where
  "undos_ok sma \<longleftrightarrow> distinct (map un_id (list_id sma)) \<and>
     (\<forall>u \<in> set (list_id sma). length (semadj u) = sem_nsems sma \<and> (\<forall>x \<in> set (semadj u). short x))"

definition pending_ok :: "sem_array \<Rightarrow> bool" where
  "pending_ok sma \<longleftrightarrow> distinct (map q_id (sma_pending sma)) \<and> (\<forall>q \<in> set (sma_pending sma). entry_ok sma q) \<and>
     (\<forall>k < sem_nsems sma. sem_pending (sem_base sma ! k) = filter (on_sem k) (sma_pending sma)) \<and>
     complex_count sma = int (length (filter (\<lambda>q. \<not> is_simple q) (sma_pending sma))) \<and>
     sorted_wrt (\<lambda>p q. q_alter p \<longrightarrow> q_alter q) (sma_pending sma)"

definition array_ok :: "sem_array \<Rightarrow> bool" where
  "array_ok sma \<longleftrightarrow> values_ok sma \<and> undos_ok sma \<and> pending_ok sma"

definition blocked :: "sem_array \<Rightarrow> sem_queue \<Rightarrow> bool" where
  "blocked sma q \<longleftrightarrow> fst (try_atomic_semop sma (q_sops q) (q_undo q) (q_pid q)) = Sem_block"

text \<open>What the operations keep of an array: everything but values, adjustments, queues and times.\<close>

definition frame :: "sem_array \<Rightarrow> sem_array \<Rightarrow> bool" where
  "frame s s' \<longleftrightarrow> sem_nsems s' = sem_nsems s \<and> sma_addr s' = sma_addr s \<and> perm_id s' = perm_id s \<and> perm_seq s' = perm_seq s \<and>
     map un_id (list_id s') = map un_id (list_id s) \<and>
     map (\<lambda>u. (un_id u, un_ulp u)) (list_id s') = map (\<lambda>u. (un_id u, un_ulp u)) (list_id s)"

lemma frame_refl [simp]: "frame s s"
  by (simp add: frame_def)

lemma frame_trans: "frame s s' \<Longrightarrow> frame s' s'' \<Longrightarrow> frame s s''"
  by (simp add: frame_def)

lemma try_fst: "fst (try_atomic_semop sma sops un pid) = fst (semop_loop (map_option semadj (find_undo sma un)) [] sops (sem_base sma))"
  by (auto simp: try_atomic_semop_def Let_def split: prod.splits)

lemma try_fails: "try_atomic_semop sma sops un pid = (r, sma') \<Longrightarrow> r \<noteq> Sem_done \<Longrightarrow> sma' = sma"
  using semop_loop_undo [of _ "[]" sops "sem_base sma"]
  by (auto simp: try_atomic_semop_def Let_def split: prod.splits if_splits)

lemma blocked_cong:
  assumes "map semval (sem_base s) = map semval (sem_base s')"
    and "map_option semadj (find_undo s (q_undo q)) = map_option semadj (find_undo s' (q_undo q))"
  shows "blocked s q \<longleftrightarrow> blocked s' q"
  unfolding blocked_def try_fst assms(2) using semop_loop_cong [OF assms(1)] by metis

lemma blocked_simple:
  assumes "entry_ok s q" and "is_simple q" and "length (sem_base s) = sem_nsems s"
  shows "blocked s q \<longleftrightarrow> (let v = semval (sem_base s ! sem_num (simple_sop q)); d = sem_op (simple_sop q) in d = 0 \<and> v \<noteq> 0 \<or> v + d < 0)"
proof -
  obtain sop where "q_sops q = [sop]" using assms(2) by (auto simp: is_simple_def length_Suc_conv)
  then show ?thesis using assms(1,3) unfolding blocked_def try_fst
    by (auto simp: entry_ok_def simple_sop_def is_simple_def would_block_def Let_def split: option.splits bool.splits)
qed

lemma find_undo_store:
  "find_undo (store_undo un adj s) un' = (case (un, adj) of
     (Some i, Some a) \<Rightarrow> map_option (\<lambda>u. if un_id u = i then u\<lparr>semadj := a\<rparr> else u) (find_undo s un')
   | _ \<Rightarrow> find_undo s un')"
proof -
  have "find (\<lambda>u. un_id u = j) (map (\<lambda>u. if un_id u = i then u\<lparr>semadj := a\<rparr> else u) us) =
      map_option (\<lambda>u. if un_id u = i then u\<lparr>semadj := a\<rparr> else u) (find (\<lambda>u. un_id u = j) us)" for i j a us
    by (induction us) auto
  then show ?thesis by (auto simp: find_undo_def store_undo_def split: option.splits)
qed

lemma find_undo_known: "find_undo s un \<noteq> None \<longleftrightarrow> (\<exists>i. un = Some i \<and> i \<in> set (map un_id (list_id s)))"
proof (cases un)
  case (Some i)
  then show ?thesis by (auto simp: find_undo_def find_None_iff image_iff)
qed (simp add: find_undo_def)

lemma find_undo_mem: "find_undo s (Some i) = Some u \<Longrightarrow> u \<in> set (list_id s) \<and> un_id u = i"
  by (auto simp: find_undo_def find_Some_iff)

lemma store_undo_simps [simp]:
  "sem_base (store_undo un adj s) = sem_base s" "sma_pending (store_undo un adj s) = sma_pending s"
  "sem_nsems (store_undo un adj s) = sem_nsems s" "complex_count (store_undo un adj s) = complex_count s"
  "sma_addr (store_undo un adj s) = sma_addr s" "perm_id (store_undo un adj s) = perm_id s" "perm_seq (store_undo un adj s) = perm_seq s"
  "map un_id (list_id (store_undo un adj s)) = map un_id (list_id s)" 
  "map (\<lambda>u. (un_id u, un_ulp u)) (list_id (store_undo un adj s)) = map (\<lambda>u. (un_id u, un_ulp u)) (list_id s)"
  by (auto simp: store_undo_def split: option.splits)

lemma find_undo_base [simp]: "find_undo (s\<lparr>sem_base := b\<rparr>) un = find_undo s un"
  by (simp add: find_undo_def split: option.splits)

lemma undos_ok_store:
  assumes "undos_ok s" and "\<And>a i. adj = Some a \<Longrightarrow> un = Some i \<Longrightarrow> i \<in> un_id ` set (list_id s) \<Longrightarrow> length a = sem_nsems s \<and> (\<forall>x \<in> set a. short x)"
  shows "undos_ok (store_undo un adj s)"
proof (cases "un = None \<or> adj = None")
  case False
  then obtain i a where ia: "un = Some i" "adj = Some a" by auto
  show ?thesis using assms(1) assms(2) [OF ia(2,1)]
    unfolding undos_ok_def store_undo_simps by (auto simp: store_undo_def ia)
qed (use assms(1) in \<open>auto simp: store_undo_def split: option.splits\<close>)

lemma try_done:
  assumes ok: "array_ok sma" and tr: "try_atomic_semop sma sops un pid = (Sem_done, sma')"
  shows "array_ok sma'" and "frame sma sma'" and "sma_pending sma' = sma_pending sma" and "complex_count sma' = complex_count sma"
    and "k < sem_nsems sma \<Longrightarrow> semval (sem_base sma' ! k) = semval (sem_base sma ! k) + change sops k"
    and "\<not> sops_alter sops \<Longrightarrow> blocked sma' q \<longleftrightarrow> blocked sma q"
proof -
  let ?adj = "map_option semadj (find_undo sma un)"
  obtain prev base where loop: "semop_loop ?adj [] sops (sem_base sma) = (Sem_done, prev, base)"
    using tr by (auto simp: try_atomic_semop_def Let_def split: prod.splits if_splits)
  obtain base' adj' where commit: "semop_commit pid prev base ?adj = (base', adj')" by fastforce
  have sma': "sma' = store_undo un adj' (sma\<lparr>sem_base := base'\<rparr>)"
    using tr loop commit by (simp add: try_atomic_semop_def)
  note spec = semop_loop_spec [OF refl _ loop, of "[]"]
  have len2: "length base = length (sem_base sma)" using spec by simp
  have len: "length base' = length (sem_base sma)"
    using semop_commit_base [of pid prev base ?adj] commit len2 by (metis fst_conv length_map)
  have prev: "prev = rev sops" using spec by simp
  have vals: "map semval base' = map semval base" "map sem_pending base' = map sem_pending (sem_base sma)"
    using semop_commit_base [of pid prev base ?adj] semop_loop_pending [OF loop] commit by simp_all
  then have val: "semval (base' ! k) = semval (base ! k)" "sem_pending (base' ! k) = sem_pending (sem_base sma ! k)"
    if "k < length base'" for k
    using map_nth_eq [OF vals(1) that] map_nth_eq [OF vals(2) that] by blast+
  note v = ok [unfolded array_ok_def values_ok_def] and q = ok [unfolded array_ok_def pending_ok_def] and u = ok [unfolded array_ok_def undos_ok_def]
  have adj: "find_undo sma un = Some u \<Longrightarrow> \<exists>a'. adj' = Some a' \<and> length a' = sem_nsems sma \<and> (\<forall>x \<in> set a'. short x) \<and> (\<not> sops_alter sops \<longrightarrow> a' = semadj u)"
    "find_undo sma un = None \<Longrightarrow> adj' = None" for u
    using semop_commit_adj [of pid prev base ?adj] commit u find_undo_mem [of sma _ u]
    by (cases un; force simp: find_undo_def prev sops_alter_def)+
  have "undos_ok sma'" unfolding sma'
  proof (rule undos_ok_store)
    show "undos_ok (sma\<lparr>sem_base := base'\<rparr>)" using ok by (simp add: array_ok_def undos_ok_def)
    show "length a = sem_nsems (sma\<lparr>sem_base := base'\<rparr>) \<and> (\<forall>x \<in> set a. short x)" if "adj' = Some a" for a
      using adj that by (cases "find_undo sma un") auto
  qed
  moreover have "\<forall>s \<in> set base. 0 \<le> semval s \<and> semval s \<le> SEMVMX" using semop_loop_bounds [OF loop] v by blast
  then have "\<forall>x \<in> set (map semval base'). 0 \<le> x \<and> x \<le> SEMVMX" unfolding vals(1) by auto
  then have "values_ok sma'" using v len by (simp add: sma' values_ok_def)
  moreover have "find_undo sma' x \<noteq> None" if "find_undo sma x \<noteq> None" for x
    using that by (auto simp: sma' find_undo_store split: option.splits)
  then have "pending_ok sma'" using q val len v unfolding pending_ok_def sma' by (auto simp: entry_ok_def)
  ultimately show "array_ok sma'" by (simp add: array_ok_def)
  show "frame sma sma'" "sma_pending sma' = sma_pending sma" "complex_count sma' = complex_count sma"
    by (simp_all add: sma' frame_def)
  show sums: "semval (sem_base sma' ! k) = semval (sem_base sma ! k) + change sops k" if "k < sem_nsems sma" for k
    using that spec val len v by (simp add: sma')
  assume n: "\<not> sops_alter sops"
  have "change sops k = 0" for k using n by (intro change_none) (auto simp: sops_alter_def)
  then have "map semval (sem_base sma') = map semval (sem_base sma)"
    using sums len v by (intro nth_equalityI) (simp_all add: sma')
  moreover have "map_option semadj (find_undo sma' x) = map_option semadj (find_undo sma x)" for x
  proof (cases "find_undo sma un")
    case (Some u)
    then obtain i where i: "un = Some i" by (cases un) (auto simp: find_undo_def)
    then have a': "adj' = Some (semadj u)" and "un_id u = i" "u \<in> set (list_id sma)"
      using adj(1) [OF Some] n Some find_undo_mem by auto
    moreover have "u' = u" if "find_undo sma x = Some u'" "un_id u' = i" for u'
    proof -
      have "u' \<in> set (list_id sma)" using that(1) by (cases x) (auto simp: find_undo_def find_Some_iff)
      then show ?thesis using that(2) \<open>un_id u = i\<close> \<open>u \<in> set (list_id sma)\<close> u by (metis distinct_map inj_onD)
    qed
    ultimately show ?thesis by (cases "find_undo sma x") (auto simp: sma' find_undo_store i)
  qed (use adj(2) in \<open>simp add: sma' find_undo_store split: option.splits\<close>)
  ultimately show "blocked sma' q \<longleftrightarrow> blocked sma q" for q by (rule blocked_cong)
qed

lemma try_no_fault:
  assumes "values_ok sma" and "undos_ok sma" and "\<forall>sop \<in> set sops. sem_num sop < sem_nsems sma" and "sops_undos sops \<longrightarrow> find_undo sma un \<noteq> None"
  shows "fst (try_atomic_semop sma sops un pid) \<noteq> Sem_fault"
proof
  let ?adj = "map_option semadj (find_undo sma un)"
  assume "fst (try_atomic_semop sma sops un pid) = Sem_fault"
  then obtain prev base where "semop_loop ?adj [] sops (sem_base sma) = (Sem_fault, prev, base)"
    unfolding try_fst by (metis prod.collapse)
  from semop_loop_spec [OF refl _ this, of "[]"] obtain i where i: "i < length sops" "sop_verdict (sem_base sma) ?adj (take i sops) (sops ! i) = Some Sem_fault"
    by auto
  have mem: "sops ! i \<in> set sops" using i(1) by simp
  have "undo_in_range ?adj (sops ! i) \<noteq> None"
  proof (cases "with_undo (sops ! i)")
    case True
    then obtain u where u: "find_undo sma un = Some u" using assms(4) mem by (auto simp: sops_undos_def)
    then have "u \<in> set (list_id sma)" by (cases un) (auto simp: find_undo_def find_Some_iff)
    then show ?thesis using u assms(2,3) mem by (auto simp: undo_in_range_def undos_ok_def Let_def)
  qed (simp add: undo_in_range_def)
  then show False using i(2) assms(1,3) mem by (auto simp: sop_verdict_def values_ok_def Let_def split: if_splits option.splits)
qed

subsection \<open>Leaving the queue\<close>

lemma drop_entry: "distinct (map q_id qs) \<Longrightarrow> q \<in> set qs \<Longrightarrow> filter (\<lambda>p. q_id p \<noteq> q_id q) qs = remove1 q qs"
proof -
  assume d: "distinct (map q_id qs)" and q: "q \<in> set qs"
  have "filter (\<lambda>p. q_id p \<noteq> q_id q) qs = filter (\<lambda>p. p \<noteq> q) qs"
    using d q by (intro filter_cong) (auto simp: distinct_map dest: inj_onD)
  then show ?thesis using d by (simp add: distinct_map distinct_remove1_removeAll removeAll_filter_not_eq eq_commute)
qed

lemma entry_ok_frame:
  "sem_nsems s' = sem_nsems s \<Longrightarrow> (\<And>un. find_undo s un \<noteq> None \<Longrightarrow> find_undo s' un \<noteq> None) \<Longrightarrow> entry_ok s q \<Longrightarrow> entry_ok s' q"
  unfolding entry_ok_def by metis

lemma unlink_some:
  assumes ok: "array_ok sma" and q: "q \<in> set (sma_pending sma)"
  obtains sma' where "unlink_queue sma q = Some sma'" and "array_ok sma'" and "frame sma sma'"
    and "sma_pending sma' = remove1 q (sma_pending sma)" and "map semval (sem_base sma') = map semval (sem_base sma)"
    and "list_id sma' = list_id sma"
proof -
  let ?P = "sma_pending sma" and ?n = "sem_num (simple_sop q)"
  note o = ok [unfolded array_ok_def values_ok_def pending_ok_def]
  have d: "distinct (map q_id ?P)" using o by blast
  have drop: "filter (\<lambda>p. q_id p \<noteq> q_id q) ?P = remove1 q ?P" by (rule drop_entry [OF d q])
  have e: "entry_ok sma q" using o q by blast
  have "unlink_queue sma q \<noteq> None" using q by (auto simp: unlink_queue_def Let_def)
  then obtain sma' where sma': "unlink_queue sma q = Some sma'" by blast
  have pend: "sma_pending sma' = remove1 q ?P" "list_id sma' = list_id sma" "sem_nsems sma' = sem_nsems sma" "frame sma sma'"
    using sma' drop by (auto simp: unlink_queue_def Let_def frame_def split: if_splits)
  have n: "?n < length (sem_base sma)" if "is_simple q"
    using e o that by (auto simp: entry_ok_def simple_sop_def is_simple_def hd_conv_nth)
  have base: "sem_base sma' = (if is_simple q then (sem_base sma)[?n := (sem_base sma ! ?n)\<lparr>sem_pending := remove1 q (sem_pending (sem_base sma ! ?n))\<rparr>] else sem_base sma)"
  proof -
    have "filter (\<lambda>p. q_id p \<noteq> q_id q) (sem_pending (sem_base sma ! ?n)) = remove1 q (sem_pending (sem_base sma ! ?n))" if s: "is_simple q"
    proof -
      have "sem_pending (sem_base sma ! ?n) = filter (on_sem ?n) ?P" using o n [OF s] by auto
      moreover have "distinct (map q_id (filter (on_sem ?n) ?P))" using d by (rule distinct_map_filter)
      moreover have "q \<in> set (filter (on_sem ?n) ?P)" using q s by (simp add: on_sem_def)
      ultimately show ?thesis using drop_entry [of "filter (on_sem ?n) ?P" q] by simp
    qed
    then show ?thesis using sma' by (auto simp: unlink_queue_def Let_def split: if_splits)
  qed
  have vals: "map semval (sem_base sma') = map semval (sem_base sma)"
    unfolding base using n by (auto simp: map_update list_update_same_conv)
  have len: "length (sem_base sma') = sem_nsems sma'" unfolding base pend using o by simp
  have "\<forall>x \<in> set (map semval (sem_base sma')). 0 \<le> x \<and> x \<le> SEMVMX" unfolding vals using o by auto
  then have "values_ok sma'" using len by (simp add: values_ok_def)
  moreover have "undos_ok sma'" using ok pend by (simp add: undos_ok_def array_ok_def)
  moreover have "pending_ok sma'" unfolding pending_ok_def pend(1,3)
  proof (intro conjI ballI allI impI)
    show "distinct (map q_id (remove1 q ?P))" unfolding drop [symmetric] using d by (rule distinct_map_filter)
    show "entry_ok sma' p" if "p \<in> set (remove1 q ?P)" for p
      using that o pend(2) by (intro entry_ok_frame [OF pend(3)]) (auto simp: find_undo_def dest: notin_set_remove1 split: option.splits)
    show "sem_pending (sem_base sma' ! k) = filter (on_sem k) (remove1 q ?P)" if k: "k < sem_nsems sma" for k
    proof -
      have "sem_pending (sem_base sma ! k) = filter (on_sem k) ?P" using o k by blast
      moreover have "remove1 q (filter (on_sem k) ?P) = filter (on_sem k) ?P" if "\<not> on_sem k q" using that by (simp add: remove1_idem)
      ultimately show ?thesis using n unfolding base by (auto simp: filter_remove1 nth_list_update on_sem_def)
    qed
    let ?C = "filter (\<lambda>q. \<not> is_simple q) ?P"
    have cc: "complex_count sma' = (if is_simple q then int (length ?C) else int (length ?C) - 1)"
      using sma' o by (auto simp: unlink_queue_def Let_def split: if_splits)
    show "complex_count sma' = int (length (filter (\<lambda>q. \<not> is_simple q) (remove1 q ?P)))"
    proof (cases "is_simple q")
      case False
      then have "q \<in> set ?C" using q by simp
      then have "length (remove1 q ?C) = length ?C - 1" and pos: "0 < length ?C"
        by (rule length_remove1 [THEN trans, OF if_P]) (rule length_pos_if_in_set [OF \<open>q \<in> set ?C\<close>])
      moreover have "int (length ?C - 1) = int (length ?C) - 1" using pos by linarith
      ultimately show ?thesis using cc False by (simp only: filter_remove1 if_False)
    qed (simp add: cc filter_remove1 remove1_idem)
    show "sorted_wrt (\<lambda>p q. q_alter p \<longrightarrow> q_alter q) (remove1 q ?P)" unfolding drop [symmetric] using o by (intro sorted_wrt_filter) blast
  qed
  ultimately have "array_ok sma'" by (simp add: array_ok_def)
  then show ?thesis using that sma' pend vals by blast
qed

subsection \<open>Scanning the queue\<close>

lemma alter_simple:
  "entry_ok s q \<Longrightarrow> is_simple q \<Longrightarrow> q_alter q \<longleftrightarrow> sem_op (simple_sop q) < 0"
  by (auto simp: entry_ok_def is_simple_def simple_sop_def sops_alter_def length_Suc_conv)

lemma sorted_on_sem:
  assumes "pending_ok s" and "k < sem_nsems s" and "sem_pending (sem_base s ! k) = pre @ h # rest" and "q_alter h" and "p \<in> set rest"
  shows "q_alter p"
proof -
  have "sorted_wrt (\<lambda>p q. q_alter p \<longrightarrow> q_alter q) (sem_pending (sem_base s ! k))"
    using assms(1,2) sorted_wrt_filter [of _ "sma_pending s" "on_sem k"] unfolding pending_ok_def by simp
  then show ?thesis unfolding assms(3) using assms(4,5) by (auto simp: sorted_wrt_append)
qed

lemma check_restart_ok:
  assumes ok: "array_ok s" and e: "entry_ok s q"
  obtains b where "check_restart s q = Some b"
    and "\<not> b \<Longrightarrow> q_alter q \<Longrightarrow> complex_count s = 0 \<and> is_simple q \<and>
      (semval (sem_base s ! sem_num (simple_sop q)) \<noteq> 0 \<or> (\<forall>p \<in> set (sma_pending s). on_sem (sem_num (simple_sop q)) p \<longrightarrow> q_alter p))"
proof -
  let ?n = "sem_num (simple_sop q)" and ?curr = "sem_base s ! sem_num (simple_sop q)"
  show ?thesis
  proof (cases "\<not> q_alter q \<or> complex_count s \<noteq> 0 \<or> length (q_sops q) > 1")
    case True
    then have "\<exists>b. check_restart s q = Some b \<and> (q_alter q \<longrightarrow> b)" by (auto simp: check_restart_def)
    then show ?thesis using that by blast
  next
    case False
    then have simple: "is_simple q" using e unfolding entry_ok_def is_simple_def
      by (metis One_nat_def length_0_conv less_one linorder_neqE_nat)
    have n: "?n < sem_nsems s" using e simple by (auto simp: entry_ok_def simple_sop_def is_simple_def hd_conv_nth)
    then have list: "sem_pending ?curr = filter (on_sem ?n) (sma_pending s)" using ok by (simp add: array_ok_def pending_ok_def)
    have neg: "sem_op (simple_sop q) < 0" using alter_simple [OF e simple] False by simp
    show ?thesis
    proof (cases "sem_pending ?curr")
      case Nil
      then have "\<forall>p \<in> set (sma_pending s). \<not> on_sem ?n p" unfolding list by (simp add: filter_empty_conv)
      then show ?thesis using that [of False] Nil False simple by (auto simp: check_restart_def)
    next
      case (Cons h rest)
      then have "h \<in> set (filter (on_sem ?n) (sma_pending s))" unfolding list by simp
      then have h: "is_simple h" "sem_num (simple_sop h) = ?n" "entry_ok s h" using ok by (auto simp: on_sem_def array_ok_def pending_ok_def)
      show ?thesis
      proof (cases "semval ?curr \<noteq> 0")
        case True
        then show ?thesis using that [of False] Cons False neg simple by (auto simp: check_restart_def)
      next
        case zero: False
        have c: "check_restart s q = Some (sem_op (simple_sop h) = 0)"
          using Cons False zero h(1,2) by (simp add: check_restart_def is_simple_def)
        have "q_alter p" if a: "q_alter h" and p: "p \<in> set (sma_pending s)" "on_sem ?n p" for p
        proof -
          have "set (h # rest) = set (filter (on_sem ?n) (sma_pending s))" using list Cons by metis
          then have "p \<in> set (h # rest)" using p by simp
          then show ?thesis using a sorted_on_sem [of s ?n "[]" h rest p] ok n Cons by (auto simp: array_ok_def)
        qed
        moreover have "sem_op (simple_sop h) \<noteq> 0 \<Longrightarrow> q_alter h" using alter_simple [OF h(3,1)] h(1,3) by (auto simp: entry_ok_def)
        ultimately show ?thesis using that [OF c] False simple by blast
      qed
    qed
  qed
qed

text \<open>What blocked before an operation of the queue was made is blocked still, if there is no restart.\<close>

lemma done_keeps_blocked:
  assumes ok: "array_ok sma" and q: "q \<in> set (sma_pending sma)" and ok2: "array_ok sma2"
    and tr: "try_atomic_semop sma (q_sops q) (q_undo q) (q_pid q) = (Sem_done, sma1)"
    and vals: "map semval (sem_base sma2) = map semval (sem_base sma1)" and un: "list_id sma2 = list_id sma1" and ns: "sem_nsems sma2 = sem_nsems sma"
    and pend: "sma_pending sma2 = remove1 q (sma_pending sma)" and c: "check_restart sma2 q = Some False"
    and p: "p \<in> set (sma_pending sma2)" "blocked sma p"
  shows "blocked sma2 p"
proof -
  have same: "blocked sma2 x \<longleftrightarrow> blocked sma1 x" for x
    by (rule blocked_cong) (simp_all add: vals un find_undo_def split: option.splits)
  have eq: "entry_ok sma q" "entry_ok sma p" using ok q p(1) notin_set_remove1 [of p "sma_pending sma" q] unfolding array_ok_def pending_ok_def pend by blast+
  have ep: "entry_ok sma2 p" using ok2 p(1) by (simp add: array_ok_def pending_ok_def)
  have frame: "frame sma sma1" by (rule try_done(2) [OF ok tr])
  have e2: "entry_ok sma2 q"
  proof (rule entry_ok_frame [OF ns _ eq(1)])
    show "find_undo sma2 x \<noteq> None" if "find_undo sma x \<noteq> None" for x
      using that frame un unfolding find_undo_known frame_def by metis
  qed
  show ?thesis
  proof (cases "q_alter q")
    case False
    then have "\<not> sops_alter (q_sops q)" using eq(1) by (simp add: entry_ok_def)
    then show ?thesis using same try_done(6) [OF ok tr, of p] p(2) by blast
  next
    case True
    let ?n = "sem_num (simple_sop q)"
    obtain cc: "complex_count sma2 = 0" and sq: "is_simple q"
      and free: "semval (sem_base sma2 ! ?n) \<noteq> 0 \<or> (\<forall>p \<in> set (sma_pending sma2). on_sem ?n p \<longrightarrow> q_alter p)"
      using check_restart_ok [OF ok2 e2] c True by (metis option.inject)
    have sp: "is_simple p" using cc p(1) ok2 by (auto simp: array_ok_def pending_ok_def filter_empty_conv)
    let ?k = "sem_num (simple_sop p)"
    have k: "?k < sem_nsems sma" using eq(2) sp by (auto simp: entry_ok_def simple_sop_def is_simple_def hd_conv_nth)
    have len: "length (sem_base sma) = sem_nsems sma" "length (sem_base sma2) = sem_nsems sma2"
      using ok ok2 by (simp_all add: array_ok_def values_ok_def)
    have "q_sops q = [simple_sop q]" using sq by (auto simp: is_simple_def simple_sop_def length_Suc_conv)
    then have "change (q_sops q) ?k = (if ?k = ?n then sem_op (simple_sop q) else 0)" by (metis change_Cons change_Nil add_0_right)
    then have v: "semval (sem_base sma2 ! ?k) = semval (sem_base sma ! ?k) + (if ?k = ?n then sem_op (simple_sop q) else 0)"
      using try_done(5) [OF ok tr k] map_nth_eq [OF vals, of ?k] k len ns by simp
    have neg: "sem_op (simple_sop q) < 0" using alter_simple [OF eq(1) sq] True by simp
    have "?k = ?n \<Longrightarrow> semval (sem_base sma2 ! ?k) \<noteq> 0 \<or> sem_op (simple_sop p) < 0"
      using free alter_simple [OF ep sp] p(1) sp by (auto simp: on_sem_def)
    moreover have "sem_op (simple_sop p) \<le> 0" using eq(2) sp by (simp add: entry_ok_def)
    ultimately show ?thesis
      using p(2) v neg unfolding blocked_simple [OF eq(2) sp len(1)] blocked_simple [OF ep sp len(2)] by (auto simp: Let_def)
  qed
qed

definition in_scan :: "nat option \<Rightarrow> sem_queue \<Rightarrow> bool" where
  "in_scan semnum q \<longleftrightarrow> (case semnum of None \<Rightarrow> True | Some n \<Rightarrow> on_sem n q)"

lemma in_scan_simps: "in_scan None = (\<lambda>_. True)" "in_scan (Some n) = on_sem n"
  by (simp_all add: in_scan_def fun_eq_iff)

text \<open>Where a scan is: what lies behind it is blocked.\<close>

definition scan_pos :: "nat option \<Rightarrow> sem_array \<Rightarrow> sem_queue list \<Rightarrow> bool" where
  "scan_pos semnum s walk \<longleftrightarrow> array_ok s \<and> (\<exists>pre. pending_list semnum s = pre @ walk \<and> (\<forall>p \<in> set pre. blocked s p)) \<and>
     (\<forall>n. semnum = Some n \<longrightarrow> n < sem_nsems s \<and> complex_count s = 0)"

text \<open>What it has done: some entries have left the queue with a result, and other semaphores are as before.\<close>

definition scan_step :: "nat option \<Rightarrow> sem_array \<Rightarrow> sem_array \<Rightarrow> wake_list \<Rightarrow> bool" where
  "scan_step semnum s s' pts \<longleftrightarrow> array_ok s' \<and> frame s s' \<and> set (sma_pending s') \<subseteq> set (sma_pending s) \<and>
     q_id ` set (sma_pending s) = q_id ` set (sma_pending s') \<union> fst ` set pts \<and> q_id ` set (sma_pending s') \<inter> fst ` set pts = {} \<and>
     (\<forall>n k. semnum = Some n \<and> k \<noteq> n \<and> k < sem_nsems s \<longrightarrow> semval (sem_base s' ! k) = semval (sem_base s ! k)) \<and>
     (\<forall>p \<in> set (sma_pending s). \<not> in_scan semnum p \<longrightarrow> p \<in> set (sma_pending s'))"

lemma scan_step_refl: "array_ok s \<Longrightarrow> scan_step semnum s s []"
  by (simp add: scan_step_def)

lemma scan_stepD:
  assumes "scan_step semnum s s' pts"
  shows "array_ok s'" "frame s s'" "set (sma_pending s') \<subseteq> set (sma_pending s)"
    "q_id ` set (sma_pending s) = q_id ` set (sma_pending s') \<union> fst ` set pts" "q_id ` set (sma_pending s') \<inter> fst ` set pts = {}"
    "\<And>n k. semnum = Some n \<Longrightarrow> k \<noteq> n \<Longrightarrow> k < sem_nsems s \<Longrightarrow> semval (sem_base s' ! k) = semval (sem_base s ! k)"
    "\<And>p. p \<in> set (sma_pending s) \<Longrightarrow> \<not> in_scan semnum p \<Longrightarrow> p \<in> set (sma_pending s')"
  using assms unfolding scan_step_def by auto

lemma scan_step_trans:
  assumes a: "scan_step semnum s s1 pts" and b: "scan_step semnum s1 s2 pts'"
  shows "scan_step semnum s s2 (pts @ pts')"
proof -
  note a = scan_stepD [OF a] and b = scan_stepD [OF b]
  have sets: "X = Z \<union> (F \<union> F')" "Z \<inter> (F \<union> F') = {}" if "X = Y \<union> F" "Y \<inter> F = {}" "Y = Z \<union> F'" "Z \<inter> F' = {}" for X Y Z F F' :: "nat set"
    using that by blast+
  have ns: "sem_nsems s1 = sem_nsems s" using a(2) by (simp add: frame_def)
  show ?thesis unfolding scan_step_def set_append image_Un
  proof (intro conjI ballI allI impI)
    show "semval (sem_base s2 ! k) = semval (sem_base s ! k)" if "semnum = Some n \<and> k \<noteq> n \<and> k < sem_nsems s" for n k
      using a(6) [of n k] b(6) [of n k] that ns by simp
  qed (fact b(1) frame_trans [OF a(2) b(2)] subset_trans [OF b(3) a(3)] sets [OF a(4,5) b(4,5)] | erule b(7) [OF a(7)], assumption)+
qed

lemma pending_listD:
  assumes "pending_ok s" and "\<And>n. semnum = Some n \<Longrightarrow> n < sem_nsems s"
  shows "pending_list semnum s = filter (in_scan semnum) (sma_pending s)"
  using assms by (cases semnum) (auto simp: pending_list_def in_scan_simps pending_ok_def)

lemma scan_leave:
  assumes pos: "scan_pos semnum s (q # walk)" and tr: "try_atomic_semop s (q_sops q) (q_undo q) (q_pid q) = (r, s1)" and r: "r \<noteq> Sem_block" "r \<noteq> Sem_fault"
  obtains s2 where "unlink_queue s1 q = Some s2" and "scan_step semnum s s2 [(q_id q, x)]" and "scan_pos semnum s2 (pending_list semnum s2)"
    and "r \<noteq> Sem_done \<Longrightarrow> scan_pos semnum s2 walk" and "check_restart s2 q = Some False \<Longrightarrow> scan_pos semnum s2 walk"
    and "check_restart s2 q \<noteq> None"
proof -
  note ok = pos [unfolded scan_pos_def, THEN conjunct1]
  obtain pre where pre: "pending_list semnum s = pre @ q # walk" "\<And>p. p \<in> set pre \<Longrightarrow> blocked s p" using pos unfolding scan_pos_def by blast
  have n: "\<And>n. semnum = Some n \<Longrightarrow> n < sem_nsems s \<and> complex_count s = 0" using pos unfolding scan_pos_def by blast
  have pl: "pending_list semnum s = filter (in_scan semnum) (sma_pending s)" using pending_listD ok n by (simp add: array_ok_def)
  then have "set (pre @ q # walk) = set (filter (in_scan semnum) (sma_pending s))" using pre(1) by metis
  then have "q \<in> set (filter (in_scan semnum) (sma_pending s))" by (simp only: set_append list.set Un_iff insert_iff) blast
  then have q: "q \<in> set (sma_pending s)" "in_scan semnum q" by auto
  have e: "entry_ok s q" using ok q(1) by (simp add: array_ok_def pending_ok_def)
  have s1: "array_ok s1" "frame s s1" "sma_pending s1 = sma_pending s"
    using try_fails [OF tr] try_done(1-3) [OF ok] tr ok by (cases "r = Sem_done"; auto)+
  have q1: "q \<in> set (sma_pending s1)" using q(1) s1(3) by simp
  obtain s2 where s2: "unlink_queue s1 q = Some s2" "array_ok s2" "frame s1 s2" "sma_pending s2 = remove1 q (sma_pending s1)"
    "map semval (sem_base s2) = map semval (sem_base s1)" "list_id s2 = list_id s1" by (rule unlink_some [OF s1(1) q1])
  have fr: "frame s s2" using frame_trans [OF s1(2) s2(3)] .
  then have ns: "sem_nsems s2 = sem_nsems s" by (simp add: frame_def)
  have d: "distinct (map q_id (sma_pending s))" using ok by (simp add: array_ok_def pending_ok_def)
  have pend: "sma_pending s2 = remove1 q (sma_pending s)" using s2(4) s1(3) by simp
  have set2: "set (sma_pending s2) = set (sma_pending s) - {q}" using d pend by (simp add: distinct_map)
  have "inj_on q_id (set (sma_pending s))" using d by (simp add: distinct_map)
  then have ids: "q_id ` set (sma_pending s2) = q_id ` set (sma_pending s) - {q_id q}"
    unfolding set2 using q(1) by (simp add: inj_on_image_set_diff [of q_id "set (sma_pending s)"])
  have complex: "complex_count s2 = 0" if "complex_count s = 0"
    using that ok s2(2) set2 by (auto simp: array_ok_def pending_ok_def filter_empty_conv)
  have len: "length (sem_base s) = sem_nsems s" "length (sem_base s1) = sem_nsems s" "length (sem_base s2) = sem_nsems s"
    using ok s1(1,2) s2(2) ns by (auto simp: array_ok_def values_ok_def frame_def)
  have val: "semval (sem_base s2 ! k) = semval (sem_base s ! k)" if "semnum = Some n" "k \<noteq> n" "k < sem_nsems s" for n k
  proof -
    have "on_sem n q" using q(2) that(1) by (simp add: in_scan_def)
    then have "change (q_sops q) k = 0" using that(2)
      by (intro change_none) (auto simp: on_sem_def is_simple_def simple_sop_def length_Suc_conv)
    then have "semval (sem_base s1 ! k) = semval (sem_base s ! k)"
      using try_fails [OF tr] try_done(5) [OF ok _ that(3)] tr by (cases "r = Sem_done") auto
    then show ?thesis using map_nth_eq [OF s2(5), of k] that(3) len by simp
  qed
  have step: "scan_step semnum s s2 [(q_id q, x)]"
    using s2(2) fr set2 ids q val imageI [OF q(1), of q_id] unfolding scan_step_def by auto
  have n2: "\<forall>n. semnum = Some n \<longrightarrow> n < sem_nsems s2 \<and> complex_count s2 = 0" using n complex ns by simp
  have pl2: "pending_list semnum s2 = pre @ walk"
  proof -
    have "pending_list semnum s2 = filter (in_scan semnum) (sma_pending s2)" using pending_listD s2(2) n2 by (simp add: array_ok_def)
    also have "\<dots> = remove1 q (pre @ q # walk)" unfolding pend filter_remove1 pl [symmetric] pre(1) ..
    also have "\<dots> = pre @ walk"
    proof -
      have "distinct (filter (in_scan semnum) (sma_pending s))" using d by (simp add: distinct_map)
      then have "q \<notin> set pre" unfolding pl [symmetric] pre(1) by simp
      then show ?thesis by (simp add: remove1_append)
    qed
    finally show ?thesis .
  qed
  have at: "scan_pos semnum s2 walk" if "\<And>p. p \<in> set pre \<Longrightarrow> blocked s2 p"
    unfolding scan_pos_def using s2(2) pl2 that n2 by blast
  have pre2: "p \<in> set (sma_pending s2)" if "p \<in> set pre" for p
  proof -
    have "p \<in> set (pending_list semnum s2)" using pl2 that by simp
    then show ?thesis using pending_listD [of s2 semnum] s2(2) n2 by (auto simp: array_ok_def)
  qed
  have "scan_pos semnum s2 walk" if "r \<noteq> Sem_done"
  proof (rule at)
    have "blocked s2 p \<longleftrightarrow> blocked s p" for p
      using try_fails [OF tr that] s2(5,6) by (intro blocked_cong) (simp_all add: find_undo_def split: option.splits)
    then show "blocked s2 p" if "p \<in> set pre" for p using pre(2) that by blast
  qed
  moreover have "scan_pos semnum s2 walk" if c: "check_restart s2 q = Some False"
  proof (cases "r = Sem_done")
    case True
    then show ?thesis
      using at done_keeps_blocked [OF ok q(1) s2(2) _ s2(5,6) ns pend c pre2] tr pre(2) by blast
  qed (use calculation in blast)
  moreover have "check_restart s2 q \<noteq> None"
  proof -
    have "entry_ok s2 q" using entry_ok_frame [OF ns _ e] fr unfolding find_undo_known frame_def by (metis (no_types, lifting))
    then show ?thesis using check_restart_ok [OF s2(2)] by (metis option.distinct(1))
  qed
  moreover have "scan_pos semnum s2 (pending_list semnum s2)"
    unfolding scan_pos_def using s2(2) n2 by (intro conjI exI [of _ "[]"]) auto
  ultimately show ?thesis using that s2(1) step by blast
qed

definition quiet :: "nat option \<Rightarrow> sem_array \<Rightarrow> bool" where
  "quiet semnum s \<longleftrightarrow> (\<forall>p \<in> set (sma_pending s). in_scan semnum p \<longrightarrow> blocked s p)"

definition queue_scanned :: "nat option \<Rightarrow> sem_array \<Rightarrow> wake_list \<Rightarrow> (sem_array \<times> wake_list \<times> bool) option \<Rightarrow> bool" where
  "queue_scanned semnum s pt out \<longleftrightarrow> (\<exists>s' pts c. out = Some (s', pt @ pts, c) \<and> scan_step semnum s s' pts \<and> quiet semnum s')"

lemma scanned_after:
  assumes "scan_step semnum s s1 pts" and "queue_scanned semnum s1 (pt @ pts) out"
  shows "queue_scanned semnum s pt out"
proof -
  obtain s' pts' c where "out = Some (s', (pt @ pts) @ pts', c)" "scan_step semnum s1 s' pts'" "quiet semnum s'"
    using assms(2) unfolding queue_scanned_def by blast
  then show ?thesis using scan_step_trans [OF assms(1)] unfolding queue_scanned_def by (metis append.assoc)
qed

lemma scan_end: "scan_pos semnum s [] \<Longrightarrow> quiet semnum s"
  unfolding scan_pos_def quiet_def using pending_listD [of s semnum] by (auto simp: array_ok_def)

text \<open>A semaphore at zero lets no decrement through, and the decrements are behind all others.\<close>

lemma scan_break:
  assumes pos: "scan_pos (Some n) s (q # walk)" and "semval (sem_base s ! n) = 0" and "q_alter q"
  shows "quiet (Some n) s"
  unfolding quiet_def
proof (intro ballI impI)
  fix p assume p: "p \<in> set (sma_pending s)" "in_scan (Some n) p"
  note ok = pos [unfolded scan_pos_def, THEN conjunct1]
  obtain pre where pre: "pending_list (Some n) s = pre @ q # walk" "\<And>p. p \<in> set pre \<Longrightarrow> blocked s p" and n: "n < sem_nsems s"
    using pos unfolding scan_pos_def by blast
  have "sem_pending (sem_base s ! n) = pre @ q # walk" using pre(1) by (simp add: pending_list_def)
  moreover have "sem_pending (sem_base s ! n) = filter (on_sem n) (sma_pending s)" using ok n by (simp add: array_ok_def pending_ok_def)
  ultimately have "set (pre @ q # walk) = set (filter (on_sem n) (sma_pending s))" by metis
  then consider "p \<in> set pre" | "p = q" | "p \<in> set walk" using p by (auto simp: in_scan_simps)
  then show "blocked s p"
  proof cases
    case 1
    then show ?thesis by (rule pre(2))
  next
    case 2
    then have "q_alter p" using assms(3) by simp
    then show ?thesis using blocked_simple [of s p] alter_simple [of s p] ok p assms(2)
      by (auto simp: array_ok_def pending_ok_def values_ok_def in_scan_simps on_sem_def Let_def)
  next
    case 3
    then have "q_alter p" using sorted_on_sem [of s n pre q walk p] \<open>sem_pending (sem_base s ! n) = pre @ q # walk\<close> ok n assms(3)
      by (simp add: array_ok_def)
    then show ?thesis using blocked_simple [of s p] alter_simple [of s p] ok p assms(2)
      by (auto simp: array_ok_def pending_ok_def values_ok_def in_scan_simps on_sem_def Let_def)
  qed
qed

lemma scan_block:
  assumes "scan_pos semnum s (q # walk)" and "try_atomic_semop s (q_sops q) (q_undo q) (q_pid q) = (Sem_block, s1)"
  shows "s1 = s \<and> scan_pos semnum s walk"
proof -
  obtain pre where "pending_list semnum s = (pre @ [q]) @ walk" "\<forall>p \<in> set pre. blocked s p" using assms(1) unfolding scan_pos_def by auto
  moreover have "blocked s q" using assms(2) by (simp add: blocked_def)
  ultimately have "\<exists>pre. pending_list semnum s = pre @ walk \<and> (\<forall>p \<in> set pre. blocked s p)" by (intro exI [of _ "pre @ [q]"]) auto
  then show ?thesis using assms try_fails unfolding scan_pos_def by blast
qed

lemma update_loop_scanned:
  "scan_pos semnum s walk \<Longrightarrow> queue_scanned semnum s pt (update_loop semnum s walk pt completed)"
proof (induction semnum s walk pt completed rule: update_loop.induct)
  case (1 semnum s pt completed)
  then show ?case using scan_end scan_step_refl [of s semnum] unfolding queue_scanned_def scan_pos_def by auto
next
  case (2 semnum s q walk pt completed)
  note pos = "2.prems"
  obtain r s1 where tr: "try_atomic_semop s (q_sops q) (q_undo q) (q_pid q) = (r, s1)" by fastforce
  note ok = pos [unfolded scan_pos_def, THEN conjunct1]
  show ?case
  proof (cases "semnum \<noteq> None \<and> semval (sem_base s ! the semnum) = 0 \<and> q_alter q")
    case True
    then have "quiet semnum s" using pos scan_break by auto
    then show ?thesis using True scan_step_refl [OF ok, of semnum] unfolding queue_scanned_def by (simp add: update_loop.simps(2))
  next
    case go: False
    have "q \<in> set (pending_list semnum s)" using pos unfolding scan_pos_def by auto
    then have "entry_ok s q" using pos pending_listD [of s semnum] unfolding scan_pos_def by (auto simp: array_ok_def pending_ok_def)
    then have "r \<noteq> Sem_fault" using try_no_fault [of s "q_sops q" "q_undo q" "q_pid q"] ok tr by (auto simp: entry_ok_def array_ok_def)
    then consider "r = Sem_block" | e where "r = Sem_error e" | "r = Sem_done" by (cases r) auto
    then show ?thesis
    proof cases
      case 1
      then have b: "s1 = s" "scan_pos semnum s walk" using scan_block [OF pos] tr by auto
      then have "queue_scanned semnum s pt (update_loop semnum s walk pt completed)" using "2.IH"(2) [OF go _ 1, of s1] tr by simp
      then show ?thesis unfolding update_loop.simps(2) if_not_P [OF go] using tr 1 b by simp
    next
      case (2 e)
      obtain s2 where s2: "unlink_queue s1 q = Some s2" "scan_step semnum s s2 [(q_id q, Inl e)]" "scan_pos semnum s2 walk"
        using scan_leave [OF pos tr] 2 by blast
      then have "queue_scanned semnum s2 (pt @ [(q_id q, Inl e)]) (update_loop semnum s2 walk (pt @ [(q_id q, Inl e)]) completed)"
        using "2.IH"(3) [OF go _ 2 s2(1)] tr by simp
      then show ?thesis unfolding update_loop.simps(2) if_not_P [OF go] using scanned_after [OF s2(2)] tr 2 s2(1) by simp
    next
      case 3
      obtain s2 where s2: "unlink_queue s1 q = Some s2" "scan_step semnum s s2 [(q_id q, Ok)]" "scan_pos semnum s2 (pending_list semnum s2)"
        "check_restart s2 q = Some False \<Longrightarrow> scan_pos semnum s2 walk" "check_restart s2 q \<noteq> None"
        using scan_leave [OF pos tr] 3 by blast
      then obtain b where b: "check_restart s2 q = Some b" by blast
      let ?w = "if b then pending_list semnum s2 else walk"
      have "scan_pos semnum s2 ?w" using s2(3,4) b by auto
      then have "queue_scanned semnum s2 (pt @ [(q_id q, Ok)]) (update_loop semnum s2 ?w (pt @ [(q_id q, Ok)]) True)"
        using "2.IH"(1) [OF go _ 3 s2(1) b] tr by simp
      then show ?thesis unfolding update_loop.simps(2) if_not_P [OF go] using scanned_after [OF s2(2)] tr 3 s2(1) b by simp
    qed
  qed
qed

subsection \<open>The smart update\<close>

lemma scan_start:
  "array_ok s \<Longrightarrow> (\<And>n. semnum = Some n \<Longrightarrow> n < sem_nsems s \<and> complex_count s = 0) \<Longrightarrow> scan_pos semnum s (pending_list semnum s)"
  unfolding scan_pos_def by auto

lemma update_queue_all: "array_ok s \<Longrightarrow> queue_scanned None s pt (update_queue s None pt)"
  using update_loop_scanned [OF scan_start [of s None]] by (simp add: update_queue_def)

lemma update_queue_one:
  "array_ok s \<Longrightarrow> n < sem_nsems s \<Longrightarrow> complex_count s = 0 \<Longrightarrow> queue_scanned (Some n) s pt (update_queue s (Some n) pt)"
  using update_loop_scanned [OF scan_start [of s "Some n"]] by (simp add: update_queue_def Let_def)

lemma scan_step_weaken: "scan_step semnum s s' pts \<Longrightarrow> scan_step None s s' pts"
  by (simp add: scan_step_def in_scan_simps)

lemma no_complex: "array_ok s \<Longrightarrow> complex_count s = 0 \<longleftrightarrow> (\<forall>p \<in> set (sma_pending s). is_simple p)"
  by (auto simp: array_ok_def pending_ok_def filter_empty_conv)

lemma quiet_all:
  assumes "array_ok s" and "complex_count s = 0" and "\<And>k. k < sem_nsems s \<Longrightarrow> quiet (Some k) s"
  shows "quiet None s"
  unfolding quiet_def
proof (intro ballI impI)
  fix p assume p: "p \<in> set (sma_pending s)"
  then have "is_simple p" "entry_ok s p" using assms(1,2) no_complex [OF assms(1)] by (auto simp: array_ok_def pending_ok_def)
  then have "on_sem (sem_num (simple_sop p)) p" "sem_num (simple_sop p) < sem_nsems s"
    by (auto simp: on_sem_def entry_ok_def simple_sop_def is_simple_def hd_conv_nth)
  then show "blocked s p" using assms(3) p unfolding quiet_def in_scan_simps by blast
qed

lemma quiet_value:
  assumes "array_ok s" and "array_ok s'" and "sem_nsems s' = sem_nsems s" and "set (sma_pending s') \<subseteq> set (sma_pending s)"
    and "quiet (Some k) s" and "semval (sem_base s' ! k) = semval (sem_base s ! k)"
  shows "quiet (Some k) s'"
  unfolding quiet_def in_scan_simps
proof (intro ballI impI)
  fix p assume p: "p \<in> set (sma_pending s')" "on_sem k p"
  then have "blocked s p" using assms(4,5) unfolding quiet_def in_scan_simps by blast
  moreover have "entry_ok s p" "entry_ok s' p" using assms(1,2,4) p(1) by (auto simp: array_ok_def pending_ok_def)
  ultimately show "blocked s' p" using p(2) assms(1-3,6) blocked_simple [of s p] blocked_simple [of s' p]
    by (simp add: on_sem_def array_ok_def values_ok_def)
qed

text \<open>Which operations make the loop look at their semaphore.\<close>

definition looked_at :: "sem_array \<Rightarrow> sembuf \<Rightarrow> bool" where
  "looked_at s sop \<longleftrightarrow> sem_op sop > 0 \<or> sem_op sop < 0 \<and> semval (sem_base s ! sem_num sop) = 0"

lemma smart_loop_scanned:
  assumes "array_ok s" and "complex_count s = 0" and "\<forall>sop \<in> set sops. sem_num sop < sem_nsems s"
    and "\<And>k. k < sem_nsems s \<Longrightarrow> quiet (Some k) s \<or> (\<exists>sop \<in> set sops. sem_num sop = k \<and> looked_at s sop)"
  shows "queue_scanned None s pt (smart_loop s sops ot pt)"
  using assms
proof (induction sops arbitrary: s ot pt)
  case Nil
  then have "quiet None s" by (intro quiet_all) auto
  then show ?case using Nil.prems(1) scan_step_refl unfolding queue_scanned_def by auto
next
  case (Cons sop sops)
  let ?n = "sem_num sop"
  show ?case
  proof (cases "looked_at s sop")
    case True
    obtain s1 pts c where up: "update_queue s (Some ?n) pt = Some (s1, pt @ pts, c)" "scan_step (Some ?n) s s1 pts" "quiet (Some ?n) s1"
      using update_queue_one [OF Cons.prems(1) _ Cons.prems(2)] Cons.prems(3) unfolding queue_scanned_def by force
    note d = scan_stepD [OF up(2)]
    have ns: "sem_nsems s1 = sem_nsems s" using d(2) by (simp add: frame_def)
    have "queue_scanned None s1 (pt @ pts) (smart_loop s1 sops (ot \<or> c) (pt @ pts))"
    proof (rule Cons.IH [OF d(1)])
      show "complex_count s1 = 0" using no_complex [OF d(1)] no_complex [OF Cons.prems(1)] Cons.prems(2) d(3) by blast
      show "\<forall>sop \<in> set sops. sem_num sop < sem_nsems s1" using Cons.prems(3) ns by simp
      show "quiet (Some k) s1 \<or> (\<exists>sop \<in> set sops. sem_num sop = k \<and> looked_at s1 sop)" if k: "k < sem_nsems s1" for k
      proof (cases "k = ?n")
        case False
        then have v: "semval (sem_base s1 ! k) = semval (sem_base s ! k)" using d(6) k ns by simp
        have "quiet (Some k) s \<Longrightarrow> quiet (Some k) s1" using quiet_value [OF Cons.prems(1) d(1) ns d(3) _ v] .
        then show ?thesis using Cons.prems(4) [of k] k ns False v by (auto simp: looked_at_def)
      qed (use up(3) in simp)
    qed
    then have "queue_scanned None s pt (smart_loop s1 sops (ot \<or> c) (pt @ pts))" by (rule scanned_after [OF scan_step_weaken [OF up(2)]])
    then show ?thesis using up(1) True by (simp add: looked_at_def)
  next
    case False
    then have "queue_scanned None s pt (smart_loop s sops ot pt)" using Cons.prems by (intro Cons.IH) auto
    then show ?thesis using False by (auto simp: looked_at_def)
  qed
qed

lemma otime_frame [simp]:
  "array_ok (s\<lparr>sem_otime := x\<rparr>) = array_ok s" "frame s' (s\<lparr>sem_otime := x\<rparr>) = frame s' s" "blocked (s\<lparr>sem_otime := x\<rparr>) q = blocked s q"
proof -
  have f: "find_undo (s\<lparr>sem_otime := x\<rparr>) un = find_undo s un" for un by (simp add: find_undo_def split: option.splits)
  show "array_ok (s\<lparr>sem_otime := x\<rparr>) = array_ok s" by (simp add: array_ok_def values_ok_def undos_ok_def pending_ok_def entry_ok_def f)
  show "frame s' (s\<lparr>sem_otime := x\<rparr>) = frame s' s" by (simp add: frame_def)
  show "blocked (s\<lparr>sem_otime := x\<rparr>) q = blocked s q" by (rule blocked_cong) (simp_all add: f)
qed

definition updated_queue :: "sem_array \<Rightarrow> (sem_array \<times> wake_list) option \<Rightarrow> bool" where
  "updated_queue s out \<longleftrightarrow> (\<exists>s' pts. out = Some (s', pts) \<and> scan_step None s s' pts \<and> quiet None s')"

lemma scan_step_otime: "scan_step None s (s'\<lparr>sem_otime := x\<rparr>) pts = scan_step None s s' pts" "quiet None (s'\<lparr>sem_otime := x\<rparr>) = quiet None s'"
  by (simp_all add: scan_step_def quiet_def)

lemma smart_update_scanned:
  assumes "queue_scanned None s [] r"
  shows "updated_queue s (map_option (\<lambda>(s1, pt, ot). (if f ot then s1\<lparr>sem_otime := time\<rparr> else s1, pt)) r)"
proof -
  obtain s' pts c where "r = Some (s', pts, c)" "scan_step None s s' pts" "quiet None s'" using assms unfolding queue_scanned_def by auto
  then show ?thesis unfolding updated_queue_def
    by (intro exI [of _ "if f c then s'\<lparr>sem_otime := time\<rparr> else s'"] exI [of _ pts]) (simp add: scan_step_otime)
qed

lemma smart_update_all: "array_ok s \<Longrightarrow> updated_queue s (do_smart_update s None ot time)"
  using smart_update_scanned [OF update_queue_all, of s "\<lambda>c. ot \<or> c" time]
  by (simp add: do_smart_update_def option.map_comp comp_def case_prod_unfold cong: if_cong)

lemma smart_update_after:
  assumes "array_ok s0" and "quiet None s0" and "try_atomic_semop s0 sops un pid = (Sem_done, s)" and "\<forall>sop \<in> set sops. sem_num sop < sem_nsems s0"
  shows "updated_queue s (do_smart_update s (Some sops) ot time)"
proof -
  note t = try_done [OF assms(1,3)]
  have ns: "sem_nsems s = sem_nsems s0" using t(2) by (simp add: frame_def)
  show ?thesis
  proof (cases "complex_count s = 0")
    case True
    have "quiet (Some k) s \<or> (\<exists>sop \<in> set sops. sem_num sop = k \<and> looked_at s sop)" if k: "k < sem_nsems s" for k
    proof (cases "\<exists>sop \<in> set sops. sem_num sop = k \<and> looked_at s sop")
      case no: False
      then have le: "sem_op sop \<le> 0" "sem_op sop < 0 \<Longrightarrow> semval (sem_base s ! k) \<noteq> 0" if "sop \<in> set sops" "sem_num sop = k" for sop
        using that by (auto simp: looked_at_def)
      have v: "semval (sem_base s ! k) = semval (sem_base s0 ! k) + change sops k" using t(5) k ns by simp
      have neg: "change sops k \<le> 0" unfolding change_def using le(1) by (intro sum_list_nonpos) auto
      have z: "change sops k = 0 \<or> semval (sem_base s ! k) \<noteq> 0"
        using le change_none [of sops k] by (metis order_antisym not_less)
      have "blocked s p" if p: "p \<in> set (sma_pending s)" "on_sem k p" for p
      proof -
        have "blocked s0 p" using p t(3) assms(2) by (simp add: quiet_def in_scan_simps)
        moreover have e: "entry_ok s p" "entry_ok s0 p" using p(1) t(1,3) assms(1) by (auto simp: array_ok_def pending_ok_def)
        moreover have "length (sem_base s) = sem_nsems s" "length (sem_base s0) = sem_nsems s0" using t(1) assms(1) by (simp_all add: array_ok_def values_ok_def)
        moreover have "is_simple p" "sem_num (simple_sop p) = k" "sem_op (simple_sop p) \<le> 0" using p(2) e by (auto simp: on_sem_def entry_ok_def)
        ultimately show ?thesis using v neg z by (auto simp: blocked_simple Let_def)
      qed
      then show ?thesis unfolding quiet_def in_scan_simps by blast
    qed simp
    then have "queue_scanned None s [] (smart_loop s sops ot [])"
      using smart_loop_scanned [OF t(1) True] assms(4) ns by simp
    then show ?thesis using smart_update_scanned [of s _ "\<lambda>c. c" time] True by (simp add: do_smart_update_def)
  next
    case False
    then have "do_smart_update s (Some sops) ot time = do_smart_update s None ot time" by (simp add: do_smart_update_def)
    then show ?thesis using smart_update_all [OF t(1)] by simp
  qed
qed

end
