(* ===== verification/Sem_Contract.thy ===== *)
theory Sem_Contract
  imports Sem_Queue
begin

text \<open>
  All calls on semaphores together.  A state is the namespace and the tasks asleep in \<^verbatim>\<open>semtimedop\<close>, each with the
  identifier it used and its queue entry; every section under a lock is a step.  Shown: sleepers are
  blocked or have their result, no call runs into a \<^verbatim>\<open>BUG_ON\<close> or a dangling pointer, sequences of operations are
  atomic, and the undo structures undo.
\<close>

section \<open>Steps\<close>

type_synonym sem_sys = "ipc_namespace \<times> (int \<times> sem_queue) list"

text \<open>
  Stack addresses and addresses of new structures are not in use; memory that is still referred to is not
  given out again, so an array found again at its address has its old size.  An undo list is worked off
  when no task shares it any more, in particular none that sleeps.
\<close>

definition semop_ok :: "sembuf list \<Rightarrow> nat option \<Rightarrow> bool" where
  "semop_ok sops un \<longleftrightarrow> sops \<noteq> [] \<and> (sops_undos sops \<longrightarrow> un \<noteq> None)"

definition same_object :: "ipc_namespace \<Rightarrow> sem_array \<Rightarrow> bool" where
  "same_object ns sma \<longleftrightarrow> (\<forall>s. relock ns sma = Some s \<longrightarrow> sem_nsems s = sem_nsems sma \<and> perm_id s = perm_id sma \<and> perm_seq s = perm_seq sma)"

definition fresh_undo :: "ipc_namespace \<Rightarrow> nat \<Rightarrow> bool" where
  "fresh_undo ns un \<longleftrightarrow> (\<forall>s. Some s \<in> set (ipcs_idr (sem_ids ns)) \<longrightarrow> un \<notin> un_id ` set (list_id s))"

definition undo_idle :: "(int \<times> sem_queue) list \<Rightarrow> ipc_namespace \<Rightarrow> nat \<Rightarrow> bool" where
  "undo_idle sl ns ulp \<longleftrightarrow> list_all (\<lambda>(_, q). q_undo q \<notin> (\<lambda>(un, _). Some un) ` set (list_proc ns ulp)) sl"

inductive sysv_step :: "sem_sys \<Rightarrow> sem_sys \<Rightarrow> bool" where
  semget: "sys_semget ns key nsems flg mem alloc time t = (r, ns', t') \<Longrightarrow> sysv_step (ns, sl) (ns', sl)"
| semop: "semop_ok sops un \<Longrightarrow> semtimedop_locked ns semid sops un i pid time t = Some (Semop_ret r, ns', t') \<Longrightarrow> sysv_step (ns, sl) (ns', sl)"
| sleep: "semop_ok sops un \<Longrightarrow> i \<notin> q_id ` snd ` set sl \<Longrightarrow>
     semtimedop_locked ns semid sops un i pid time t = Some (Semop_sleeps, ns', t') \<Longrightarrow>
     sysv_step (ns, sl) (ns', (semid, \<lparr>q_id = i, q_undo = un, q_pid = pid, q_sops = sops, q_alter = sops_alter sops\<rparr>) # sl)"
| resume: "(semid, q) \<in> set sl \<Longrightarrow> semtimedop_resume ns semid q timed_out = Some (r, ns') \<Longrightarrow>
     sysv_step (ns, sl) (ns', filter (\<lambda>(_, p). q_id p \<noteq> q_id q) sl)"
| semctl: "cmd \<noteq> GETALL \<Longrightarrow> cmd \<noteq> SETALL \<Longrightarrow> semctl_main ns semid semnum cmd val env t = Some (r, ns', t') \<Longrightarrow> sysv_step (ns, sl) (ns', sl)"
| setall: "same_object ns sma \<Longrightarrow> length vs = sem_nsems sma \<Longrightarrow> list_all (\<lambda>v. uint v \<le> SEMVMX) vs \<Longrightarrow>
     setall_store ns sma vs time = Some (r, ns') \<Longrightarrow> sysv_step (ns, sl) (ns', sl)"
| down: "semctl_down ns semid cmd arg time t = (r, ns', t') \<Longrightarrow> sysv_step (ns, sl) (ns', sl)"
| get_list: "(\<And>ulp. alloc = Some ulp \<Longrightarrow> list_proc ns ulp = []) \<Longrightarrow> get_undo_list ns current alloc = (r, ns') \<Longrightarrow> sysv_step (ns, sl) (ns', sl)"
| find_undo: "lookup_undo ns ulp semid = (r, ns') \<Longrightarrow> sysv_step (ns, sl) (ns', sl)"
| new_undo: "same_object ns sma \<Longrightarrow> \<not> ipc_checkid sma semid \<Longrightarrow> ipcid_to_idx semid = ipcid_to_idx (perm_id sma) \<Longrightarrow> fresh_undo ns new \<Longrightarrow>
     add_undo ns sma ulp semid new = (r, ns') \<Longrightarrow> sysv_step (ns, sl) (ns', sl)"
| fork: "(\<And>ulp. alloc = Some ulp \<Longrightarrow> list_proc ns ulp = []) \<Longrightarrow> copy_semundo share current child alloc ns = (r, ns') \<Longrightarrow> sysv_step (ns, sl) (ns', sl)"
| leave: "exit_sem tsk ns = (r, ns') \<Longrightarrow> sysv_step (ns, sl) (ns', sl)"
| leave_pass: "undo_idle sl ns ulp \<Longrightarrow> exit_sem_pass ulp pid time (\<lambda>ns. ns) ns = Some (b, ns') \<Longrightarrow> sysv_step (ns, sl) (ns', sl)"

section \<open>The invariant\<close>

definition slot :: "ipc_namespace \<Rightarrow> nat \<Rightarrow> sem_array option" where
  "slot ns l = idr_find (ipcs_idr (sem_ids ns)) l"

definition ids_ok :: "ipc_namespace \<Rightarrow> bool" where
  "ids_ok ns \<longleftrightarrow> in_use (sem_ids ns) = int (length (filter (\<lambda>x. x \<noteq> None) (ipcs_idr (sem_ids ns)))) \<and>
     (\<forall>l s. slot ns l = Some s \<longrightarrow> ipcid_to_idx (perm_id s) = l)"

definition arrays_ok :: "ipc_namespace \<Rightarrow> bool" where
  "arrays_ok ns \<longleftrightarrow> (\<forall>l s. slot ns l = Some s \<longrightarrow> array_ok s \<and> quiet None s)"

text \<open>Each entry of an undo list is in the array it names.\<close>

definition lists_ok :: "ipc_namespace \<Rightarrow> bool" where
  "lists_ok ns \<longleftrightarrow> (\<forall>ulp un semid. (un, semid) \<in> set (list_proc ns ulp) \<longrightarrow>
     (\<exists>s. slot ns (ipcid_to_idx semid) = Some s \<and> \<not> ipc_checkid s semid \<and> (un, ulp) \<in> (\<lambda>u. (un_id u, un_ulp u)) ` set (list_id s)))"

text \<open>Every sleeper is in exactly one place: the queue of its array or the list of the woken.\<close>

definition sleepers_ok :: "sem_sys \<Rightarrow> bool" where
  "sleepers_ok = (\<lambda>(ns, sl). distinct (map (q_id \<circ> snd) sl) \<and>
     (\<forall>l s q. slot ns l = Some s \<and> q \<in> set (sma_pending s) \<longrightarrow> (\<exists>semid. (semid, q) \<in> set sl \<and> ipcid_to_idx semid = l) \<and> q_id q \<notin> fst ` set (woken ns)) \<and>
     (\<forall>semid q. (semid, q) \<in> set sl \<longrightarrow> q_id q \<in> fst ` set (woken ns) \<or>
        (\<exists>s. slot ns (ipcid_to_idx semid) = Some s \<and> q \<in> set (sma_pending s))) \<and>
     fst ` set (woken ns) \<subseteq> q_id ` snd ` set sl)"

definition sys_ok :: "sem_sys \<Rightarrow> bool" where
  "sys_ok sys \<longleftrightarrow> ids_ok (fst sys) \<and> arrays_ok (fst sys) \<and> lists_ok (fst sys) \<and> sleepers_ok sys"

section \<open>Changing one array\<close>

lemma slot_wake [simp]: "slot (wake_up_sem_queue_do pts ns) = slot ns" "list_proc (wake_up_sem_queue_do pts ns) = list_proc ns"
  "sem_ids (wake_up_sem_queue_do pts ns) = sem_ids ns" "woken (wake_up_sem_queue_do pts ns) = woken ns @ pts"
  by (simp_all add: wake_up_sem_queue_do_def slot_def fun_eq_iff)

lemma store_simps [simp]: "list_proc (store_array ns s) = list_proc ns" "woken (store_array ns s) = woken ns"
  by (simp_all add: store_array_def)

lemma slot_store:
  assumes "slot ns l = Some s" and "ipcid_to_idx (perm_id s') = l"
  shows "slot (store_array ns s') k = (if k = l then Some s' else slot ns k)"
  using assms by (auto simp: slot_def store_array_def idr_find_def split: if_splits)

lemma ids_ok_store:
  assumes "ids_ok ns" and "slot ns l = Some s" and "ipcid_to_idx (perm_id s') = l"
  shows "ids_ok (store_array ns s')"
proof -
  have l: "l < length (ipcs_idr (sem_ids ns))" "ipcs_idr (sem_ids ns) ! l \<noteq> None"
    using assms(2) by (auto simp: slot_def idr_find_def split: if_splits)
  then show ?thesis using assms(1) slot_store [OF assms(2,3)] count_update [OF l, of s'] assms(3)
    unfolding ids_ok_def by (auto simp: store_array_def)
qed

lemma idx_perm: "ids_ok ns \<Longrightarrow> slot ns l = Some s \<Longrightarrow> frame s s' \<Longrightarrow> ipcid_to_idx (perm_id s') = l"
  by (simp add: ids_ok_def frame_def)

lemma arrays_ok_store:
  "arrays_ok ns \<Longrightarrow> slot ns l = Some s \<Longrightarrow> ipcid_to_idx (perm_id s') = l \<Longrightarrow> array_ok s' \<Longrightarrow> quiet None s' \<Longrightarrow> arrays_ok (store_array ns s')"
  unfolding arrays_ok_def using slot_store [of ns l s s'] by auto

lemma lists_ok_store:
  assumes "lists_ok ns" and "slot ns l = Some s" and "ipcid_to_idx (perm_id s') = l" and "frame s s'"
  shows "lists_ok (store_array ns s')"
  unfolding lists_ok_def
proof (intro allI impI)
  fix ulp un semid assume "(un, semid) \<in> set (list_proc (store_array ns s') ulp)"
  then obtain x where x: "slot ns (ipcid_to_idx semid) = Some x" "\<not> ipc_checkid x semid" "(un, ulp) \<in> (\<lambda>u. (un_id u, un_ulp u)) ` set (list_id x)"
    using assms(1) unfolding lists_ok_def store_simps by blast
  have "set (map (\<lambda>u. (un_id u, un_ulp u)) (list_id s')) = set (map (\<lambda>u. (un_id u, un_ulp u)) (list_id s))" "perm_seq s' = perm_seq s"
    using assms(4) unfolding frame_def by metis+
  then show "\<exists>x. slot (store_array ns s') (ipcid_to_idx semid) = Some x \<and> \<not> ipc_checkid x semid \<and>
      (un, ulp) \<in> (\<lambda>u. (un_id u, un_ulp u)) ` set (list_id x)"
    using x assms(2) slot_store [OF assms(2,3)] by (cases "ipcid_to_idx semid = l") (auto simp: ipc_checkid_def)
qed

lemma sleepers_okD:
  assumes "sleepers_ok (ns, sl)"
  shows "distinct (map (q_id \<circ> snd) sl)"
    "\<And>l s q. slot ns l = Some s \<Longrightarrow> q \<in> set (sma_pending s) \<Longrightarrow> \<exists>semid. (semid, q) \<in> set sl \<and> ipcid_to_idx semid = l"
    "\<And>l s q. slot ns l = Some s \<Longrightarrow> q \<in> set (sma_pending s) \<Longrightarrow> q_id q \<notin> fst ` set (woken ns)"
    "\<And>semid q. (semid, q) \<in> set sl \<Longrightarrow> q_id q \<in> fst ` set (woken ns) \<or> (\<exists>s. slot ns (ipcid_to_idx semid) = Some s \<and> q \<in> set (sma_pending s))"
    "fst ` set (woken ns) \<subseteq> q_id ` snd ` set sl"
  using assms unfolding sleepers_ok_def by auto

text \<open>Entries are told apart by their addresses.\<close>

lemma sleeper_unique:
  assumes "sleepers_ok (ns, sl)" and "(i, p) \<in> set sl" and "(j, q) \<in> set sl" and "q_id p = q_id q"
  shows "i = j \<and> p = q"
  using sleepers_okD(1) [OF assms(1)] inj_onD [of "q_id \<circ> snd" "set sl" "(i, p)" "(j, q)"] assms(2-4) by (auto simp: distinct_map)

text \<open>A change of one slot, \<open>None\<close> for its removal; those no longer queued there have been woken.\<close>

definition queued :: "sem_array option \<Rightarrow> sem_queue set" where
  "queued x = (case x of None \<Rightarrow> {} | Some s \<Rightarrow> set (sma_pending s))"

lemma queued_simps [simp]: "queued None = {}" "queued (Some s) = set (sma_pending s)"
  by (simp_all add: queued_def)

lemma queued_iff: "q \<in> queued x \<longleftrightarrow> (\<exists>s. x = Some s \<and> q \<in> set (sma_pending s))"
  by (cases x) simp_all

lemma sleepers_ok_change:
  assumes ok: "sleepers_ok (ns, sl)" and s: "slot ns l = Some s"
    and slot': "\<And>k. slot ns' k = (if k = l then so else slot ns k)" and wok: "woken ns' = woken ns @ pts"
    and p: "queued so \<subseteq> set (sma_pending s)" "q_id ` set (sma_pending s) = q_id ` queued so \<union> fst ` set pts"
      "q_id ` queued so \<inter> fst ` set pts = {}"
  shows "sleepers_ok (ns', sl)"
proof -
  note d = sleepers_okD [OF ok]
  have new: "\<exists>q. q \<in> set (sma_pending s) \<and> q_id q = i" if "i \<in> fst ` set pts" for i using p(2) that by (metis Un_iff imageE)
  have other: "q_id q \<notin> fst ` set pts" if q: "slot ns k = Some x" "q \<in> set (sma_pending x)" "k \<noteq> l" for k x q
  proof
    assume "q_id q \<in> fst ` set pts"
    then obtain q' where q': "q' \<in> set (sma_pending s)" "q_id q' = q_id q" using new by metis
    obtain i j where "(i, q) \<in> set sl" "ipcid_to_idx i = k" "(j, q') \<in> set sl" "ipcid_to_idx j = l"
      using d(2) [OF q(1,2)] d(2) [OF s q'(1)] by blast
    then show False using sleeper_unique [OF ok] q'(2) q(3) by metis
  qed
  show ?thesis unfolding sleepers_ok_def split_conv wok slot' set_append image_Un
  proof (intro conjI allI impI)
    fix k x q assume "(if k = l then so else slot ns k) = Some x \<and> q \<in> set (sma_pending x)"
    then have q: "slot ns k = Some (if k = l then s else x)" "q \<in> set (sma_pending (if k = l then s else x))" "k = l \<Longrightarrow> q \<in> queued so"
      using p(1) s by (auto split: if_splits)
    show "\<exists>semid. (semid, q) \<in> set sl \<and> ipcid_to_idx semid = k" by (rule d(2) [OF q(1,2)])
    have "q_id q \<notin> fst ` set pts" using q p(3) other [of k x q] by (cases "k = l") auto
    then show "q_id q \<notin> fst ` set (woken ns) \<union> fst ` set pts" using d(3) [OF q(1,2)] by blast
  next
    fix semid q assume sl: "(semid, q) \<in> set sl"
    show "q_id q \<in> fst ` set (woken ns) \<union> fst ` set pts \<or>
      (\<exists>x. (if ipcid_to_idx semid = l then so else slot ns (ipcid_to_idx semid)) = Some x \<and> q \<in> set (sma_pending x))"
    proof (cases "ipcid_to_idx semid = l \<and> q \<in> set (sma_pending s)")
      case True
      have "q \<in> queued so" if m: "q_id q \<in> q_id ` queued so"
      proof -
        obtain q' where q': "q' \<in> queued so" "q_id q' = q_id q" using m by (metis imageE)
        then obtain j where "(j, q') \<in> set sl" using d(2) [OF s] p(1) by blast
        then show ?thesis using sleeper_unique [OF ok _ sl] q' by blast
      qed
      then show ?thesis using True p(2) imageI [of q "set (sma_pending s)" q_id] by (auto simp: queued_iff)
    next
      case False
      then show ?thesis using d(4) [OF sl] s by auto
    qed
  next
    have "fst ` set pts \<subseteq> q_id ` snd ` set sl"
    proof
      fix i assume "i \<in> fst ` set pts"
      then obtain q where "q \<in> set (sma_pending s)" "q_id q = i" using new by blast
      then show "i \<in> q_id ` snd ` set sl" using d(2) [OF s] by force
    qed
    then show "fst ` set (woken ns) \<union> fst ` set pts \<subseteq> q_id ` snd ` set sl" using d(5) by blast
  qed (rule d(1))
qed

lemma sleepers_ok_store:
  assumes ok: "sleepers_ok (ns, sl)" and s: "slot ns l = Some s" "ipcid_to_idx (perm_id s') = l"
    and p: "set (sma_pending s') \<subseteq> set (sma_pending s)" "q_id ` set (sma_pending s) = q_id ` set (sma_pending s') \<union> fst ` set pts"
      "q_id ` set (sma_pending s') \<inter> fst ` set pts = {}"
  shows "sleepers_ok (wake_up_sem_queue_do pts (store_array ns s'), sl)"
  by (rule sleepers_ok_change [OF ok s(1), of _ "Some s'" pts]) (simp_all add: slot_store [OF s] p)

lemma sys_okD: "sys_ok (ns, sl) \<Longrightarrow> ids_ok ns \<and> arrays_ok ns \<and> lists_ok ns \<and> sleepers_ok (ns, sl)"
  by (simp add: sys_ok_def)

lemma sys_ok_arrays: "sys_ok (ns, sl) \<Longrightarrow> slot ns l = Some s \<Longrightarrow> array_ok s \<and> quiet None s"
  by (simp add: sys_ok_def arrays_ok_def)

lemma ids_ok_wake [simp]: "ids_ok (wake_up_sem_queue_do pts ns) = ids_ok ns" "arrays_ok (wake_up_sem_queue_do pts ns) = arrays_ok ns"
  "lists_ok (wake_up_sem_queue_do pts ns) = lists_ok ns"
  by (simp_all add: ids_ok_def arrays_ok_def lists_ok_def)

lemma wake_none [simp]: "wake_up_sem_queue_do [] ns = ns"
  by (simp add: wake_up_sem_queue_do_def)

text \<open>A step inside one array that keeps its shape and leaves the queue quiet.\<close>

lemma sys_ok_update:
  assumes ok: "sys_ok (ns, sl)" and s: "slot ns l = Some s" and fr: "frame s s1" "sma_pending s1 = sma_pending s"
    and st: "scan_step None s1 s' pts" "quiet None s'"
  shows "sys_ok (wake_up_sem_queue_do pts (store_array ns s'), sl)"
proof -
  note o = sys_okD [OF ok] and d = scan_stepD [OF st(1)]
  have f: "frame s s'" by (rule frame_trans [OF fr(1) d(2)])
  have idx: "ipcid_to_idx (perm_id s') = l" using idx_perm [OF _ s f] o by blast
  show ?thesis unfolding sys_ok_def fst_conv ids_ok_wake
  proof (intro conjI)
    show "ids_ok (store_array ns s')" using ids_ok_store [OF _ s idx] o by blast
    show "arrays_ok (store_array ns s')" using arrays_ok_store [OF _ s idx d(1) st(2)] o by blast
    show "lists_ok (store_array ns s')" using lists_ok_store [OF _ s idx f] o by blast
    show "sleepers_ok (wake_up_sem_queue_do pts (store_array ns s'), sl)"
      using sleepers_ok_store [OF _ s idx] o d(3-5) fr(2) by simp
  qed
qed

lemma sys_ok_smart:
  assumes "sys_ok (ns, sl)" and "slot ns l = Some s" and "frame s s1" "sma_pending s1 = sma_pending s"
    and "updated_queue s1 out"
  shows "\<exists>s' pts. out = Some (s', pts) \<and> sys_ok (wake_up_sem_queue_do pts (store_array ns s'), sl)"
  using assms(5) sys_ok_update [OF assms(1-4)] unfolding updated_queue_def by blast

lemma store_same: "ids_ok ns \<Longrightarrow> slot ns l = Some s \<Longrightarrow> store_array ns s = ns"
  by (auto simp: ids_ok_def slot_def store_array_def idr_find_def list_update_same_conv split: if_splits)

lemma lock_slot: "ipc_lock (sem_ids ns) semid = Inr s \<longleftrightarrow> slot ns (ipcid_to_idx semid) = Some s"
  by (auto simp: ipc_lock_def slot_def split: option.splits)

lemma lock_check_slot: "ipc_lock_check (sem_ids ns) semid = Inr s \<longleftrightarrow> slot ns (ipcid_to_idx semid) = Some s \<and> \<not> ipc_checkid s semid"
  by (auto simp: ipc_lock_check_def lock_slot [symmetric] split: sum.splits)

section \<open>Operations\<close>

lemma enqueue_ok:
  assumes ok: "array_ok s" "quiet None s" and e: "entry_ok s q" and b: "blocked s q" and new: "q_id q \<notin> q_id ` set (sma_pending s)"
  shows "array_ok (enqueue s q)" and "quiet None (enqueue s q)" and "frame s (enqueue s q)"
    and "set (sma_pending (enqueue s q)) = insert q (set (sma_pending s))"
proof -
  let ?s = "enqueue s q" and ?n = "sem_num (simple_sop q)" and ?add = "\<lambda>ls. if q_alter q then ls @ [q] else q # ls"
  note o = ok(1) [unfolded array_ok_def values_ok_def pending_ok_def]
  have pend: "sma_pending ?s = ?add (sma_pending s)" by (simp add: enqueue_def Let_def)
  show fr: "frame s ?s" by (simp add: enqueue_def frame_def Let_def)
  show set: "set (sma_pending ?s) = insert q (set (sma_pending s))" by (simp add: pend)
  have ns: "sem_nsems ?s = sem_nsems s" "list_id ?s = list_id s" by (simp_all add: enqueue_def Let_def)
  have n: "?n < length (sem_base s)" if "is_simple q" using e o that by (auto simp: entry_ok_def simple_sop_def is_simple_def hd_conv_nth)
  have base: "sem_base ?s = (if is_simple q then (sem_base s)[?n := (sem_base s ! ?n)\<lparr>sem_pending := ?add (sem_pending (sem_base s ! ?n))\<rparr>] else sem_base s)"
    by (simp add: enqueue_def Let_def)
  have vals: "map semval (sem_base ?s) = map semval (sem_base s)" unfolding base using n by (auto simp: map_update list_update_same_conv)
  have same: "blocked ?s x \<longleftrightarrow> blocked s x" for x by (rule blocked_cong [OF vals]) (simp add: find_undo_def ns split: option.splits)
  show "quiet None ?s" using ok(2) b same unfolding quiet_def set by (simp add: in_scan_simps)
  have "\<forall>x \<in> set (map semval (sem_base ?s)). 0 \<le> x \<and> x \<le> SEMVMX" unfolding vals using o by auto
  moreover have "length (sem_base ?s) = sem_nsems ?s" unfolding base ns using o by simp
  ultimately have "values_ok ?s" by (simp add: values_ok_def)
  moreover have "undos_ok ?s" using ok(1) ns by (simp add: undos_ok_def array_ok_def)
  moreover have "pending_ok ?s" unfolding pending_ok_def ns(1)
  proof (intro conjI ballI allI impI)
    show "distinct (map q_id (sma_pending ?s))" using o new unfolding pend by (auto simp: distinct_append)
    show "entry_ok ?s p" if "p \<in> set (sma_pending ?s)" for p
      using that o e ns(2) unfolding set by (intro entry_ok_frame [OF ns(1)]) (auto simp: find_undo_def split: option.splits)
    show "sem_pending (sem_base ?s ! k) = filter (on_sem k) (sma_pending ?s)" if k: "k < sem_nsems s" for k
    proof -
      have "sem_pending (sem_base s ! k) = filter (on_sem k) (sma_pending s)" using o k by blast
      then show ?thesis using n k o unfolding base pend by (auto simp: nth_list_update on_sem_def)
    qed
    show "complex_count ?s = int (length (filter (\<lambda>q. \<not> is_simple q) (sma_pending ?s)))"
      using o unfolding pend by (auto simp: enqueue_def Let_def)
    show "sorted_wrt (\<lambda>p q. q_alter p \<longrightarrow> q_alter q) (sma_pending ?s)" using o unfolding pend by (auto simp: sorted_wrt_append)
  qed
  ultimately show "array_ok ?s" by (simp add: array_ok_def)
qed

lemma sops_max_ge:
  "m \<le> fold (\<lambda>sop m. if sem_num sop \<ge> m then sem_num sop else m) sops m \<and>
   (\<forall>sop \<in> set sops. sem_num sop \<le> fold (\<lambda>sop m. if sem_num sop \<ge> m then sem_num sop else m) sops m)"
proof (induction sops arbitrary: m)
  case (Cons a sops)
  show ?case using Cons.IH [of "if m \<le> sem_num a then sem_num a else m"] by (auto split: if_splits)
qed simp

lemma sops_max_bound: "sops_max sops < n \<Longrightarrow> sop \<in> set sops \<Longrightarrow> sem_num sop < n"
  using sops_max_ge [of 0 sops] unfolding sops_max_def by (meson le_less_trans)

lemma sleep_ok:
  assumes ok: "sys_ok (ns, sl)" and s: "slot ns (ipcid_to_idx semid) = Some s" and e: "entry_ok s q" and b: "blocked s q"
    and new: "q_id q \<notin> q_id ` snd ` set sl"
  shows "sys_ok (store_array ns (enqueue s q), (semid, q) # sl)"
proof -
  note o = sys_okD [OF ok]
  then have so: "sleepers_ok (ns, sl)" by blast
  note d = sleepers_okD [OF so]
  let ?l = "ipcid_to_idx semid"
  have "q_id p \<noteq> q_id q" if m: "p \<in> set (sma_pending s)" for p
  proof -
    obtain j where "(j, p) \<in> set sl" using d(2) [OF s m] by blast
    then have "q_id p \<in> q_id ` snd ` set sl" by (metis image_eqI snd_conv)
    then show ?thesis using new by metis
  qed
  then have "q_id q \<notin> q_id ` set (sma_pending s)" by (metis imageE)
  then have en: "array_ok (enqueue s q)" "quiet None (enqueue s q)" "frame s (enqueue s q)" "set (sma_pending (enqueue s q)) = insert q (set (sma_pending s))"
    using enqueue_ok [OF _ _ e b] sys_ok_arrays [OF ok s] by blast+
  have idx: "ipcid_to_idx (perm_id (enqueue s q)) = ?l" using idx_perm [OF _ s en(3)] o by blast
  have slot': "slot (store_array ns (enqueue s q)) k = (if k = ?l then Some (enqueue s q) else slot ns k)" for k by (rule slot_store [OF s idx])
  have "q_id q \<notin> fst ` set (woken ns)" using d(5) new by blast
  have "sleepers_ok (store_array ns (enqueue s q), (semid, q) # sl)"
    unfolding sleepers_ok_def split_conv store_simps slot'
  proof (intro conjI allI impI)
    show "distinct (map (q_id \<circ> snd) ((semid, q) # sl))" using d(1) new by (auto simp: image_comp)
    fix k x p assume "(if k = ?l then Some (enqueue s q) else slot ns k) = Some x \<and> p \<in> set (sma_pending x)"
    then consider "k = ?l" "p = q" | y where "slot ns k = Some y" "p \<in> set (sma_pending y)"
      using en(4) s by (auto split: if_splits)
    then have "(\<exists>j. (j, p) \<in> set ((semid, q) # sl) \<and> ipcid_to_idx j = k) \<and> q_id p \<notin> fst ` set (woken ns)"
    proof cases
      case 1
      then show ?thesis using \<open>q_id q \<notin> fst ` set (woken ns)\<close> by auto
    next
      case 2
      then show ?thesis using d(2,3) [OF 2] by auto
    qed
    then show "\<exists>j. (j, p) \<in> set ((semid, q) # sl) \<and> ipcid_to_idx j = k" "q_id p \<notin> fst ` set (woken ns)" by blast+
  next
    show "q_id p \<in> fst ` set (woken ns) \<or> (\<exists>x. (if ipcid_to_idx j = ?l then Some (enqueue s q) else slot ns (ipcid_to_idx j)) = Some x \<and> p \<in> set (sma_pending x))"
      if "(j, p) \<in> set ((semid, q) # sl)" for j p
      using that d(4) [of j p] en(4) s by auto
    show "fst ` set (woken ns) \<subseteq> q_id ` snd ` set ((semid, q) # sl)" using d(5) by auto
  qed
  then show ?thesis using ids_ok_store [OF _ s idx] arrays_ok_store [OF _ s idx en(1,2)] lists_ok_store [OF _ s idx en(3)] o
    unfolding sys_ok_def by simp
qed

lemma blocked_entry:
  assumes "array_ok s" and "semop_ok sops un" and "\<forall>sop \<in> set sops. sem_num sop < sem_nsems s" and "un \<noteq> None \<longrightarrow> find_undo s un \<noteq> None"
    and "fst (try_atomic_semop s sops un pid) = Sem_block"
  shows "entry_ok s \<lparr>q_id = i, q_undo = un, q_pid = pid, q_sops = sops, q_alter = sops_alter sops\<rparr>"
proof -
  have "\<not> no_wait sop \<and> sem_op sop \<le> 0" if "sops = [sop]" for sop
  proof -
    have k: "sem_num sop < length (sem_base s)" using assms(1,3) that by (simp add: array_ok_def values_ok_def)
    then have "0 \<le> semval (sem_base s ! sem_num sop)" using assms(1) by (simp add: array_ok_def values_ok_def)
    then show ?thesis using assms(5) k unfolding try_fst that by (auto simp: would_block_def Let_def split: if_splits option.splits bool.splits)
  qed
  then show ?thesis using assms(2-4) by (auto simp: entry_ok_def semop_ok_def is_simple_def simple_sop_def length_Suc_conv)
qed

definition semop_result_ok :: "(int \<times> sem_queue) list \<Rightarrow> int \<Rightarrow> sem_queue \<Rightarrow> semop_outcome \<Rightarrow> ipc_namespace \<Rightarrow> bool" where
  "semop_result_ok sl semid q out ns \<longleftrightarrow>
     (case out of Semop_ret r \<Rightarrow> sys_ok (ns, sl) | Semop_sleeps \<Rightarrow> q_id q \<notin> q_id ` snd ` set sl \<longrightarrow> sys_ok (ns, (semid, q) # sl))"

lemma semop_try_ok:
  fixes i :: nat and pid :: int
  assumes ok: "sys_ok (ns, sl)" and so: "semop_ok sops un" and s: "slot ns (ipcid_to_idx semid) = Some s"
    and un: "un \<noteq> None \<longrightarrow> find_undo s un \<noteq> None" and nums: "\<forall>sop \<in> set sops. sem_num sop < sem_nsems s"
  defines "q \<equiv> \<lparr>q_id = i, q_undo = un, q_pid = pid, q_sops = sops, q_alter = sops_alter sops\<rparr>"
  shows "\<exists>out ns'. semop_try ns s sops un i pid time = Some (out, ns') \<and> semop_result_ok sl semid q out ns'"
proof -
  note a = sys_ok_arrays [OF ok s]
  obtain r s1 where tr: "try_atomic_semop s sops un pid = (r, s1)" by fastforce
  have "r \<noteq> Sem_fault" using try_no_fault [of s sops un pid] a nums so un tr by (auto simp: array_ok_def semop_ok_def)
  then consider (err) e where "r = Sem_error e" | (don) "r = Sem_done" | (blk) "r = Sem_block" by (cases r) auto
  then show ?thesis
  proof cases
    case err
    then have "store_array ns s1 = ns" using try_fails [OF tr] store_same [OF _ s] sys_okD [OF ok] by simp
    then show ?thesis using ok tr err by (simp add: semop_try_def semop_result_ok_def)
  next
    case don
    note d = try_done [OF a [THEN conjunct1] tr [unfolded don]]
    show ?thesis
    proof (cases "sops_alter sops")
      case True
      obtain s2 pts where "do_smart_update s1 (Some sops) True time = Some (s2, pts)" "sys_ok (wake_up_sem_queue_do pts (store_array ns s2), sl)"
        using sys_ok_smart [OF ok s d(2,3) smart_update_after [OF _ _ tr [unfolded don] nums]] a by blast
      then show ?thesis using tr don True by (simp add: semop_try_def semop_result_ok_def)
    next
      case False
      have "quiet None s1" using a d(3) d(6) [OF False] by (simp add: quiet_def)
      then have "sys_ok (store_array ns s1, sl)" using sys_ok_update [OF ok s d(2,3) scan_step_refl [OF d(1)]] by simp
      then show ?thesis using tr don False by (simp add: semop_try_def semop_result_ok_def)
    qed
  next
    case blk
    have s1: "s1 = s" using try_fails [OF tr] blk by simp
    have "entry_ok s q" using blocked_entry [OF _ so nums un] a tr blk by (simp add: q_def)
    moreover have "blocked s q" using tr blk by (simp add: blocked_def q_def)
    ultimately have "q_id q \<notin> q_id ` snd ` set sl \<Longrightarrow> sys_ok (store_array ns (enqueue s q), (semid, q) # sl)" using sleep_ok [OF ok s] by simp
    then show ?thesis using tr blk s1 by (simp add: semop_try_def semop_result_ok_def q_def)
  qed
qed

lemma semop_locked_ok:
  fixes i :: nat and pid :: int
  assumes ok: "sys_ok (ns, sl)" and so: "semop_ok sops un"
  defines "q \<equiv> \<lparr>q_id = i, q_undo = un, q_pid = pid, q_sops = sops, q_alter = sops_alter sops\<rparr>"
  shows "\<exists>out ns' t'. semtimedop_locked ns semid sops un i pid time t = Some (out, ns', t') \<and> semop_result_ok sl semid q out ns'"
proof (cases "ipc_lock_check (sem_ids ns) semid")
  case (Inl e)
  then show ?thesis using ok by (simp add: semtimedop_locked_def semop_result_ok_def)
next
  case (Inr s)
  then have s: "slot ns (ipcid_to_idx semid) = Some s" by (simp add: lock_check_slot)
  obtain b t1 where perm: "ipcperms (ipc_user_ns ns) s (if sops_alter sops then S_IWUGO else S_IRUGO) t = (b, t1)" by fastforce
  show ?thesis
  proof (cases "\<not> (un \<noteq> None \<and> find_undo s un = None) \<and> \<not> sops_max sops \<ge> sem_nsems s \<and> b")
    case True
    then have "\<forall>sop \<in> set sops. sem_num sop < sem_nsems s" using sops_max_bound by (meson not_le)
    then obtain out ns' where "semop_try ns s sops un i pid time = Some (out, ns')" "semop_result_ok sl semid q out ns'"
      using semop_try_ok [OF ok so s] True unfolding q_def by blast
    then show ?thesis using True Inr perm unfolding semtimedop_locked_def by auto
  next
    case False
    then show ?thesis using Inr perm ok unfolding semtimedop_locked_def by (auto simp: semop_result_ok_def)
  qed
qed

subsection \<open>Waking up\<close>

lemma sleepers_leave:
  assumes ok: "sleepers_ok (ns, sl)" and mem: "(semid, q) \<in> set sl"
    and slot: "\<And>k x p. slot ns' k = Some x \<Longrightarrow> p \<in> set (sma_pending x) \<Longrightarrow> \<exists>y. slot ns k = Some y \<and> p \<in> set (sma_pending y) \<and> q_id p \<noteq> q_id q"
    and keep: "\<And>k y p. slot ns k = Some y \<Longrightarrow> p \<in> set (sma_pending y) \<Longrightarrow> q_id p \<noteq> q_id q \<Longrightarrow> \<exists>x. slot ns' k = Some x \<and> p \<in> set (sma_pending x)"
    and wok: "fst ` set (woken ns') = fst ` set (woken ns) - {q_id q}"
  shows "sleepers_ok (ns', filter (\<lambda>(_, p). q_id p \<noteq> q_id q) sl)"
proof -
  note d = sleepers_okD [OF ok]
  have mem': "(j, p) \<in> set (filter (\<lambda>(_, p). q_id p \<noteq> q_id q) sl) \<longleftrightarrow> (j, p) \<in> set sl \<and> q_id p \<noteq> q_id q" for j p by auto
  show ?thesis unfolding sleepers_ok_def split_conv mem'
  proof (intro conjI allI impI)
    show "distinct (map (q_id \<circ> snd) (filter (\<lambda>(_, p). q_id p \<noteq> q_id q) sl))" using d(1) by (rule distinct_map_filter)
    fix k x p assume "slot ns' k = Some x \<and> p \<in> set (sma_pending x)"
    then obtain y where y: "slot ns k = Some y" "p \<in> set (sma_pending y)" "q_id p \<noteq> q_id q" using slot by blast
    show "\<exists>j. ((j, p) \<in> set sl \<and> q_id p \<noteq> q_id q) \<and> ipcid_to_idx j = k" using d(2) [OF y(1,2)] y(3) by blast
    show "q_id p \<notin> fst ` set (woken ns')" using d(3) [OF y(1,2)] wok by blast
  next
    fix j p assume p: "(j, p) \<in> set sl \<and> q_id p \<noteq> q_id q"
    then show "q_id p \<in> fst ` set (woken ns') \<or> (\<exists>x. slot ns' (ipcid_to_idx j) = Some x \<and> p \<in> set (sma_pending x))"
      using d(4) [of j p] keep wok by blast
  next
    show "fst ` set (woken ns') \<subseteq> q_id ` snd ` set (filter (\<lambda>(_, p). q_id p \<noteq> q_id q) sl)"
    proof
      fix i assume "i \<in> fst ` set (woken ns')"
      then have "i \<in> q_id ` snd ` set sl" "i \<noteq> q_id q" using wok d(5) by blast+
      then obtain j p where "(j, p) \<in> set sl" "q_id p = i" by auto
      then have "(j, p) \<in> set (filter (\<lambda>(_, p). q_id p \<noteq> q_id q) sl)" using \<open>i \<noteq> q_id q\<close> by simp
      then show "i \<in> q_id ` snd ` set (filter (\<lambda>(_, p). q_id p \<noteq> q_id q) sl)" using \<open>q_id p = i\<close> by (metis image_eqI snd_conv)
    qed
  qed
qed

lemma resume_ok:
  assumes ok: "sys_ok (ns, sl)" and mem: "(semid, q) \<in> set sl"
  shows "\<exists>r ns'. semtimedop_resume ns semid q timed_out = Some (r, ns') \<and> sys_ok (ns', filter (\<lambda>(_, p). q_id p \<noteq> q_id q) sl)"
proof -
  note o = sys_okD [OF ok]
  then have so: "sleepers_ok (ns, sl)" by blast
  note d = sleepers_okD [OF so]
  show ?thesis
  proof (cases "map_of (woken ns) (q_id q)")
    case (Some r)
    let ?ns = "ns\<lparr>woken := filter (\<lambda>(i, r). i \<noteq> q_id q) (woken ns)\<rparr>"
    have slot: "slot ?ns k = slot ns k" for k by (simp add: slot_def)
    have "q_id q \<in> fst ` set (woken ns)" using Some by (metis map_of_eq_None_iff option.distinct(1))
    then have "q_id p \<noteq> q_id q" if "slot ns k = Some x" "p \<in> set (sma_pending x)" for k x p using d(3) [OF that] by metis
    then have "sleepers_ok (?ns, filter (\<lambda>(_, p). q_id p \<noteq> q_id q) sl)"
      by (intro sleepers_leave [OF so mem]) (auto simp: slot)
    moreover have "ids_ok ?ns" "arrays_ok ?ns" "lists_ok ?ns" using o by (simp_all add: ids_ok_def arrays_ok_def lists_ok_def slot)
    ultimately show ?thesis using Some by (simp add: semtimedop_resume_def sys_ok_def)
  next
    case None
    then have w: "q_id q \<notin> fst ` set (woken ns)" by (simp add: map_of_eq_None_iff)
    then obtain s where s: "slot ns (ipcid_to_idx semid) = Some s" "q \<in> set (sma_pending s)" using d(4) [OF mem] by blast
    note a = sys_ok_arrays [OF ok s(1)]
    obtain s' where s': "unlink_queue s q = Some s'" "array_ok s'" "frame s s'" "sma_pending s' = remove1 q (sma_pending s)"
      "map semval (sem_base s') = map semval (sem_base s)" "list_id s' = list_id s" using unlink_some [OF _ s(2)] a by blast
    have dist: "distinct (map q_id (sma_pending s))" using a by (simp add: array_ok_def pending_ok_def)
    have set': "set (sma_pending s') = set (sma_pending s) - {q}" using s'(4) dist by (simp add: distinct_map)
    have same: "blocked s' p \<longleftrightarrow> blocked s p" for p using s'(5,6) by (intro blocked_cong) (simp_all add: find_undo_def split: option.splits)
    have quiet: "quiet None s'" using a set' same by (simp add: quiet_def in_scan_simps)
    have idx: "ipcid_to_idx (perm_id s') = ipcid_to_idx semid" using idx_perm [OF _ s(1) s'(3)] o by blast
    have slot': "slot (store_array ns s') k = (if k = ipcid_to_idx semid then Some s' else slot ns k)" for k by (rule slot_store [OF s(1) idx])
    have uniq: "q_id p = q_id q \<longleftrightarrow> p = q \<and> k = ipcid_to_idx semid" if "slot ns k = Some x" "p \<in> set (sma_pending x)" for k x p
      using d(2) [OF that] sleeper_unique [OF so _ mem] by metis
    have "sleepers_ok (store_array ns s', filter (\<lambda>(_, p). q_id p \<noteq> q_id q) sl)"
    proof (rule sleepers_leave [OF so mem])
      show "\<exists>y. slot ns k = Some y \<and> p \<in> set (sma_pending y) \<and> q_id p \<noteq> q_id q"
        if "slot (store_array ns s') k = Some x" "p \<in> set (sma_pending x)" for k x p
        using that s uniq set' unfolding slot' by (cases "k = ipcid_to_idx semid") auto
      show "\<exists>x. slot (store_array ns s') k = Some x \<and> p \<in> set (sma_pending x)"
        if "slot ns k = Some y" "p \<in> set (sma_pending y)" "q_id p \<noteq> q_id q" for k y p
        using that s set' unfolding slot' by (cases "k = ipcid_to_idx semid") auto
    qed (use w in simp)
    then have "sys_ok (store_array ns s', filter (\<lambda>(_, p). q_id p \<noteq> q_id q) sl)"
      using ids_ok_store [OF _ s(1) idx] arrays_ok_store [OF _ s(1) idx s'(2) quiet] lists_ok_store [OF _ s(1) idx s'(3)] o unfolding sys_ok_def by simp
    moreover have "ipc_lock (sem_ids ns) semid = Inr s" using s(1) by (simp add: lock_slot)
    ultimately show ?thesis using None s'(1) by (simp add: semtimedop_resume_def)
  qed
qed

subsection \<open>Setting values\<close>

lemma array_ok_set:
  assumes "array_ok s" and "map sem_pending b = map sem_pending (sem_base s)" and "\<forall>c \<in> set b. 0 \<le> semval c \<and> semval c \<le> SEMVMX"
    and "map (\<lambda>u. (un_id u, un_ulp u)) us = map (\<lambda>u. (un_id u, un_ulp u)) (list_id s)"
    and "\<forall>u \<in> set us. length (semadj u) = sem_nsems s \<and> (\<forall>x \<in> set (semadj u). short x)"
  shows "array_ok (s\<lparr>sem_base := b, list_id := us, sem_ctime := x\<rparr>) \<and> frame s (s\<lparr>sem_base := b, list_id := us, sem_ctime := x\<rparr>)"
proof -
  let ?s = "s\<lparr>sem_base := b, list_id := us, sem_ctime := x\<rparr>"
  note o = assms(1) [unfolded array_ok_def values_ok_def undos_ok_def pending_ok_def]
  have len: "length b = sem_nsems s" using assms(2) o by (metis length_map)
  have "map fst (map (\<lambda>u. (un_id u, un_ulp u)) us) = map fst (map (\<lambda>u. (un_id u, un_ulp u)) (list_id s))" using assms(4) by simp
  then have un: "map un_id us = map un_id (list_id s)" by (simp add: comp_def)
  have "find_undo ?s i \<noteq> None" if "find_undo s i \<noteq> None" for i
    using that un unfolding find_undo_known by (simp del: set_map)
  then have "entry_ok ?s q" if "entry_ok s q" for q using that by (intro entry_ok_frame [of ?s s]) auto
  moreover have "sem_pending (b ! k) = sem_pending (sem_base s ! k)" if "k < sem_nsems s" for k using map_nth_eq [OF assms(2)] that len by simp
  ultimately show ?thesis using o len assms(3,4,5) un
    by (auto simp: array_ok_def values_ok_def undos_ok_def pending_ok_def frame_def)
qed

lemma short_zero [simp]: "short 0"
  by (simp add: short_def)

lemma setval_ok:
  assumes ok: "sys_ok (ns, sl)" and s: "slot ns l = Some s" and n: "n < sem_nsems s"
  shows "\<exists>r ns'. semctl_setval ns s n val env = Some (r, ns') \<and> sys_ok (ns', sl)"
proof (cases "val > SEMVMX \<or> val < 0")
  case False
  note a = sys_ok_arrays [OF ok s, THEN conjunct1]
  note o = a [unfolded array_ok_def values_ok_def undos_ok_def]
  let ?us = "map (\<lambda>u. u\<lparr>semadj := (semadj u)[n := 0]\<rparr>) (list_id s)"
  let ?b = "(sem_base s)[n := (sem_base s ! n)\<lparr>semval := val, sempid := env_tgid env\<rparr>]"
  let ?s = "s\<lparr>sem_base := ?b, list_id := ?us, sem_ctime := env_now env\<rparr>"
  have "\<forall>c \<in> set ?b. 0 \<le> semval c \<and> semval c \<le> SEMVMX" using o False by (auto dest!: set_update_subset_insert [THEN subsetD])
  moreover have "\<forall>u \<in> set ?us. length (semadj u) = sem_nsems s \<and> (\<forall>x \<in> set (semadj u). short x)"
    using o by (auto dest!: set_update_subset_insert [THEN subsetD])
  ultimately have "array_ok ?s \<and> frame s ?s"
    using n o by (intro array_ok_set [OF a]) (auto simp: map_update list_update_same_conv)
  then obtain s' pts where "do_smart_update ?s None False (env_now env) = Some (s', pts)" "sys_ok (wake_up_sem_queue_do pts (store_array ns s'), sl)"
    using sys_ok_smart [OF ok s _ _ smart_update_all] by force
  moreover have "s\<lparr>list_id := ?us, sem_base := ?b, sem_ctime := env_now env\<rparr> = ?s" by simp
  moreover have "\<not> (n \<ge> length (sem_base s) \<or> (\<exists>u \<in> set (list_id s). n \<ge> length (semadj u)))" using o n by (auto simp: not_le)
  ultimately show ?thesis using False unfolding semctl_setval_def by (simp only: if_False option.case prod.case) blast
qed (use ok in \<open>auto simp: semctl_setval_def\<close>)

lemma setall_ok:
  assumes ok: "sys_ok (ns, sl)" and "same_object ns sma" and "length vs = sem_nsems sma" and "list_all (\<lambda>v. uint v \<le> SEMVMX) vs"
  shows "\<exists>r ns'. setall_store ns sma vs time = Some (r, ns') \<and> sys_ok (ns', sl)"
proof (cases "relock ns sma")
  case (Some s)
  then have s: "slot ns (ipcid_to_idx (perm_id sma)) = Some s" by (auto simp: relock_def slot_def split: option.splits if_splits)
  have len: "length vs = sem_nsems s" using assms(2,3) Some by (simp add: same_object_def)
  note a = sys_ok_arrays [OF ok s, THEN conjunct1]
  note o = a [unfolded array_ok_def values_ok_def undos_ok_def]
  let ?us = "map (\<lambda>u. u\<lparr>semadj := map (\<lambda>_. 0) (semadj u)\<rparr>) (list_id s)" and ?b = "map2 (\<lambda>c v. c\<lparr>semval := uint v\<rparr>) (sem_base s) vs"
  let ?s = "s\<lparr>sem_base := ?b, list_id := ?us, sem_ctime := time\<rparr>"
  have "map sem_pending ?b = map sem_pending (sem_base s)" using len o by (intro nth_equalityI) simp_all
  moreover have "\<forall>c \<in> set ?b. 0 \<le> semval c \<and> semval c \<le> SEMVMX"
    using assms(4) by (auto simp: list_all_iff dest!: set_zip_rightD)
  ultimately have "array_ok ?s \<and> frame s ?s" using o by (intro array_ok_set [OF a]) auto
  then obtain s' pts where "do_smart_update ?s None False time = Some (s', pts)" "sys_ok (wake_up_sem_queue_do pts (store_array ns s'), sl)"
    using sys_ok_smart [OF ok s _ _ smart_update_all] by force
  moreover have "\<not> (length (sem_base s) < length vs \<or> (\<exists>u \<in> set (list_id s). length (semadj u) < length vs))"
    using o len by auto
  ultimately show ?thesis using Some by (simp add: setall_store_def)
qed (use ok in \<open>simp add: setall_store_def\<close>)

end
