(* ===== verification/Sem_Steps.thy ===== *)
theory Sem_Steps
  imports Sem_Contract
begin

text \<open>
  The remaining calls on semaphores keep the invariant: creation and removal of arrays, \<^verbatim>\<open>semctl\<close>, and the
  undo structures of tasks that start and end.  So the invariant holds in every reachable state.
\<close>

section \<open>Calls that leave the arrays alone\<close>

definition same_arrays :: "ipc_namespace \<Rightarrow> ipc_namespace \<Rightarrow> bool" where
  "same_arrays ns ns' \<longleftrightarrow> sem_ids ns' = sem_ids ns \<and> woken ns' = woken ns \<and> (\<forall>ulp. set (list_proc ns' ulp) \<subseteq> set (list_proc ns ulp))"

lemma same_arrays_refl [simp]: "same_arrays ns ns"
  by (simp add: same_arrays_def)

lemma sleepers_ok_cong: "slot ns' = slot ns \<Longrightarrow> woken ns' = woken ns \<Longrightarrow> sleepers_ok (ns', sl) = sleepers_ok (ns, sl)"
  by (simp only: sleepers_ok_def split_conv)

lemma sys_ok_same:
  assumes ok: "sys_ok (ns, sl)" and same: "same_arrays ns ns'"
  shows "sys_ok (ns', sl)"
proof -
  have slot: "slot ns' = slot ns" and ids: "sem_ids ns' = sem_ids ns" "woken ns' = woken ns"
    using same by (simp_all add: slot_def fun_eq_iff same_arrays_def)
  note o = sys_okD [OF ok]
  have "lists_ok ns'" using o same unfolding lists_ok_def slot same_arrays_def by blast
  moreover have "sleepers_ok (ns', sl)" using o sleepers_ok_cong [OF slot ids(2)] by blast
  ultimately show ?thesis using o by (simp add: sys_ok_def ids_ok_def arrays_ok_def slot ids)
qed

lemma get_undo_list_same: "get_undo_list ns current alloc = (r, ns') \<Longrightarrow> same_arrays ns ns'"
  by (auto simp: get_undo_list_def same_arrays_def split: option.splits if_splits)

lemma do_lookup_undo_mem: "do_lookup_undo ns ulp semid = Some un \<Longrightarrow> (un, semid) \<in> set (list_proc ns ulp)"
  using nth_mem by (fastforce simp: do_lookup_undo_def find_Some_iff)

lemma lookup_undo_same: "lookup_undo ns ulp semid = (r, ns') \<Longrightarrow> same_arrays ns ns'"
  using do_lookup_undo_mem [of ns ulp semid] by (auto simp: lookup_undo_def same_arrays_def split: option.splits if_splits)

lemma copy_semundo_same:
  assumes "copy_semundo share current child alloc ns = (r, ns')"
  shows "same_arrays ns ns'"
proof -
  obtain x ns1 where g: "get_undo_list ns current alloc = (x, ns1)" by fastforce
  then show ?thesis using assms get_undo_list_same [OF g] by (simp add: copy_semundo_def same_arrays_def split: if_splits sum.splits) force+
qed

lemma exit_sem_same: "exit_sem tsk ns = (r, ns') \<Longrightarrow> same_arrays ns ns'"
  by (auto simp: exit_sem_def same_arrays_def Let_def split: option.splits)

section \<open>Creation\<close>

lemma new_array_ok: "array_ok (new_array params a time\<lparr>perm_cuid := x1, perm_uid := x2, perm_gid := x3, perm_cgid := x4, perm_seq := x5, perm_id := x6\<rparr>)"
  by (auto simp: array_ok_def values_ok_def undos_ok_def pending_ok_def new_array_def)

text \<open>An array in a free slot changes nothing for the others.\<close>

lemma sys_ok_new:
  assumes ok: "sys_ok (ns, sl)" and free: "slot ns lid = None"
    and slot': "\<And>k. slot ns' k = (if k = lid then Some s else slot ns k)"
    and cnt: "in_use (sem_ids ns') = int (length (filter (\<lambda>x. x \<noteq> None) (ipcs_idr (sem_ids ns'))))"
    and same: "woken ns' = woken ns" "list_proc ns' = list_proc ns"
    and s: "array_ok s" "sma_pending s = []" "ipcid_to_idx (perm_id s) = lid"
  shows "sys_ok (ns', sl)"
proof -
  note o = sys_okD [OF ok]
  note d = sleepers_okD [of ns sl]
  have "ids_ok ns'" using o cnt s(3) unfolding ids_ok_def slot' by simp
  moreover have "arrays_ok ns'" using o s(1,2) unfolding arrays_ok_def slot' by (simp add: quiet_def)
  moreover have keep: "slot ns' k = Some x" if "slot ns k = Some x" for k x using that free unfolding slot' by auto
  moreover have "lists_ok ns'" using o keep unfolding lists_ok_def same by meson
  moreover have "sleepers_ok (ns', sl)"
    unfolding sleepers_ok_def split_conv same
  proof (intro conjI allI impI)
    fix l x q assume "slot ns' l = Some x \<and> q \<in> set (sma_pending x)"
    then have q: "slot ns l = Some x" "q \<in> set (sma_pending x)" using s(2) unfolding slot' by (auto split: if_splits)
    show "\<exists>semid. (semid, q) \<in> set sl \<and> ipcid_to_idx semid = l" "q_id q \<notin> fst ` set (woken ns)" using d(2,3) [OF _ q] o by blast+
  next
    fix semid q assume "(semid, q) \<in> set sl"
    then show "q_id q \<in> fst ` set (woken ns) \<or> (\<exists>x. slot ns' (ipcid_to_idx semid) = Some x \<and> q \<in> set (sma_pending x))"
      using d(4) o keep by blast
  qed (use d(1,5) o in blast)+
  ultimately show ?thesis by (simp add: sys_ok_def)
qed

text \<open>The array \<^verbatim>\<open>newary\<close> makes, with what \<^verbatim>\<open>ipc_addid\<close> fills in.\<close>

definition made :: "ipc_namespace \<Rightarrow> ipc_params \<Rightarrow> nat \<Rightarrow> cred \<Rightarrow> int \<Rightarrow> sem_array" where
  "made ns params a cr time = new_array params a time\<lparr>perm_cuid := euid cr, perm_uid := euid cr, perm_gid := egid cr, perm_cgid := egid cr,
     perm_seq := ids_seq (sem_ids ns), perm_id := ipc_buildid (idr_get_new (ipcs_idr (sem_ids ns))) (ids_seq (sem_ids ns))\<rparr>"

lemma made_simps [simp]: "array_ok (made ns params a cr time)" "sma_pending (made ns params a cr time) = []"
  using new_array_ok by (simp_all add: made_def new_array_def)

lemma newary_new:
  assumes ok: "ids_ok ns" and n: "newary params alloc cr time ns = (r, ns')" and suc: "ns' \<noteq> ns \<or> (\<exists>i. r = Inr i)"
  obtains a lid where "r = Inr (perm_id (made ns params a cr time))" "slot ns lid = None"
    "\<And>k. slot ns' k = (if k = lid then Some (made ns params a cr time) else slot ns k)" "woken ns' = woken ns" "list_proc ns' = list_proc ns"
    "in_use (sem_ids ns') = int (length (filter (\<lambda>x. x \<noteq> None) (ipcs_idr (sem_ids ns'))))" "ipcid_to_idx (perm_id (made ns params a cr time)) = lid"
    "\<not> ipc_checkid (made ns params a cr time) (perm_id (made ns params a cr time))"
proof -
  let ?idr = "ipcs_idr (sem_ids ns)" and ?n = "in_use (sem_ids ns)"
  let ?lid = "idr_get_new ?idr"
  obtain a where a: "alloc = Some a" "?n < (if sc_semmni ns > IPCMNI then IPCMNI else sc_semmni ns)"
    using n suc by (auto simp: newary_def ipc_addid_def Let_def split: if_splits option.splits)
  let ?p = "made ns params a cr time"
  have ns': "ipcs_idr (sem_ids ns') = idr_store ?idr ?lid ?p" "in_use (sem_ids ns') = ?n + 1" "woken ns' = woken ns" "list_proc ns' = list_proc ns"
    and r: "r = Inr (perm_id ?p)"
    using n suc a unfolding newary_def ipc_addid_def Let_def made_def by (auto split: if_splits)
  note f = idr_get_new_free [of ?idr]
  have cnt: "?n = int (length (filter (\<lambda>x. x \<noteq> None) ?idr))" using ok by (simp add: ids_ok_def)
  then have "?lid < 32768" using f a(2) by (auto split: if_splits)
  then have "ipcid_to_idx (perm_id ?p) = ?lid" "\<not> ipc_checkid ?p (perm_id ?p)"
    by (simp_all add: made_def ipcid_to_idx_def ipc_buildid_def ipc_checkid_def)
  moreover have "slot ns ?lid = None" using f by (auto simp: slot_def idr_find_def)
  moreover have "slot ns' k = (if k = ?lid then Some ?p else slot ns k)" for k
    using idr_store_find [OF f [THEN conjunct1], of ?p k] by (simp only: slot_def ns')
  moreover have "in_use (sem_ids ns') = int (length (filter (\<lambda>x. x \<noteq> None) (ipcs_idr (sem_ids ns'))))"
    unfolding ns' cnt using idr_store_count [of ?lid ?idr ?p] f by simp
  ultimately show ?thesis using that r ns'(3,4) by blast
qed

lemma newary_ok:
  assumes ok: "sys_ok (ns, sl)" and n: "newary params alloc cr time ns = (r, ns')"
  shows "sys_ok (ns', sl)"
proof (cases "ns' = ns")
  case False
  have ids: "ids_ok ns" using sys_okD [OF ok] by blast
  show ?thesis
  proof (rule newary_new [OF ids n])
    fix a lid
    assume m: "slot ns lid = None" "\<And>k. slot ns' k = (if k = lid then Some (made ns params a cr time) else slot ns k)"
      "in_use (sem_ids ns') = int (length (filter (\<lambda>x. x \<noteq> None) (ipcs_idr (sem_ids ns'))))" "woken ns' = woken ns" "list_proc ns' = list_proc ns"
      "ipcid_to_idx (perm_id (made ns params a cr time)) = lid"
    show "sys_ok (ns', sl)" by (rule sys_ok_new [OF ok m(1-5) made_simps m(6)])
  qed (use False in simp)
qed (use ok in simp)

lemma semget_ok:
  assumes "sys_ok (ns, sl)" and "sys_semget ns key nsems flg mem alloc time t = (r, ns', t')"
  shows "sys_ok (ns', sl)"
proof -
  let ?p = "\<lparr>par_key = key, par_flg = flg, par_nsems = nsems\<rparr>"
  obtain x ns1 where n: "newary ?p alloc (cur_cred t) time ns = (x, ns1)" by fastforce
  have "ns' = ns \<or> ns' = ns1" using assms(2) n
    by (auto simp: sys_semget_def ipcget_def ipcget_new_def ipcget_public_def Let_def split: if_splits option.splits sum.splits prod.splits)
  then show ?thesis using assms(1) newary_ok [OF assms(1) n] by blast
qed


section \<open>semctl\<close>

lemma semctl_main_ok:
  assumes ok: "sys_ok (ns, sl)" and cmd: "cmd \<noteq> GETALL" "cmd \<noteq> SETALL"
  shows "\<exists>r ns' t'. semctl_main ns semid semnum cmd val env t = Some (r, ns', t') \<and> sys_ok (ns', sl)"
proof (cases "ipc_lock_check (sem_ids ns) semid")
  case (Inr s)
  then have s: "slot ns (ipcid_to_idx semid) = Some s" by (simp add: lock_check_slot)
  obtain b t1 where perm: "ipcperms (ipc_user_ns ns) s (if cmd = SETVAL \<or> cmd = SETALL then S_IWUGO else S_IRUGO) t = (b, t1)" by fastforce
  have inside: "nat semnum < length (sem_base s)" if "\<not> (semnum < 0 \<or> semnum \<ge> int (sem_nsems s))"
    using that sys_ok_arrays [OF ok s] by (simp add: array_ok_def values_ok_def nat_less_iff)
  show ?thesis
  proof (cases "b \<and> \<not> (semnum < 0 \<or> semnum \<ge> int (sem_nsems s)) \<and> cmd = SETVAL")
    case True
    then obtain r ns' where "semctl_setval ns s (nat semnum) val env = Some (r, ns')" "sys_ok (ns', sl)"
      using setval_ok [OF ok s, of "nat semnum" val env] by (metis nat_less_iff not_le)
    then show ?thesis using Inr perm cmd True by (simp add: semctl_main_def)
  next
    case False
    then show ?thesis using Inr perm ok cmd inside by (auto simp: semctl_main_def Let_def)
  qed
qed (use ok in \<open>simp add: semctl_main_def\<close>)

lemma freeary_ok:
  assumes ok: "sys_ok (ns, sl)" and s: "slot ns l = Some s"
  shows "sys_ok (freeary ns s, sl)"
proof -
  note o = sys_okD [OF ok]
  let ?idr = "ipcs_idr (sem_ids ns)" and ?ns = "freeary ns s"
  have idx: "ipcid_to_idx (perm_id s) = l" using o s by (simp add: ids_ok_def)
  have l: "l < length ?idr" "?idr ! l = Some s" using s by (auto simp: slot_def idr_find_def split: if_splits)
  have slot': "slot ?ns k = (if k = l then None else slot ns k)" for k
    using l by (simp add: slot_def freeary_def ipc_rmid_def idr_remove_def idr_find_def idx)
  have "ids_ok ?ns" using o count_set [OF l(1), of "\<lambda>x. x \<noteq> None" None] l
    unfolding ids_ok_def slot' by (simp add: freeary_def ipc_rmid_def idr_remove_def idx)
  moreover have "arrays_ok ?ns" using o unfolding arrays_ok_def slot' by simp
  moreover have "lists_ok ?ns"
    unfolding lists_ok_def
  proof (intro allI impI)
    fix ulp un semid assume "(un, semid) \<in> set (list_proc ?ns ulp)"
    then have un: "(un, semid) \<in> set (list_proc ns ulp)" "un \<notin> un_id ` set (list_id s)" by (auto simp: freeary_def)
    then obtain x where x: "slot ns (ipcid_to_idx semid) = Some x" "\<not> ipc_checkid x semid" "(un, ulp) \<in> (\<lambda>u. (un_id u, un_ulp u)) ` set (list_id x)"
      using o unfolding lists_ok_def by blast
    moreover have "ipcid_to_idx semid \<noteq> l" using x un(2) s by auto
    ultimately show "\<exists>x. slot ?ns (ipcid_to_idx semid) = Some x \<and> \<not> ipc_checkid x semid \<and> (un, ulp) \<in> (\<lambda>u. (un_id u, un_ulp u)) ` set (list_id x)"
      unfolding slot' by simp
  qed
  moreover have "sleepers_ok (?ns, sl)"
    using o by (intro sleepers_ok_change [OF _ s slot', where pts = "map (\<lambda>q. (q_id q, Inl EIDRM)) (sma_pending s)"])
      (auto simp: freeary_def image_image)
  ultimately show ?thesis by (simp add: sys_ok_def)
qed

lemma ctime_perm_ok:
  assumes "array_ok s"
  shows "array_ok ((ipc_update_perm u g m s)\<lparr>sem_ctime := time\<rparr>)" "frame s ((ipc_update_perm u g m s)\<lparr>sem_ctime := time\<rparr>)"
    "blocked ((ipc_update_perm u g m s)\<lparr>sem_ctime := time\<rparr>) q = blocked s q" "sma_pending ((ipc_update_perm u g m s)\<lparr>sem_ctime := time\<rparr>) = sma_pending s"
proof -
  let ?s = "(ipc_update_perm u g m s)\<lparr>sem_ctime := time\<rparr>"
  have f: "find_undo ?s un = find_undo s un" for un by (simp add: find_undo_def ipc_update_perm_def split: option.splits)
  show "array_ok ?s" using assms unfolding array_ok_def values_ok_def undos_ok_def pending_ok_def entry_ok_def f by (simp add: ipc_update_perm_def)
  show "blocked ?s q = blocked s q" by (rule blocked_cong) (simp_all add: f, simp add: ipc_update_perm_def)
qed (simp_all add: frame_def ipc_update_perm_def)

lemma pre_down_slot: "ipcctl_pre_down uns (sem_ids ns) semid t = (Inr s, t') \<Longrightarrow> slot ns (ipcid_to_idx semid) = Some s"
  by (auto simp: ipcctl_pre_down_def lock_check_slot split: sum.splits if_splits prod.splits)

lemma semctl_down_ok:
  assumes ok: "sys_ok (ns, sl)" and d: "semctl_down ns semid cmd arg time t = (r, ns', t')"
  shows "sys_ok (ns', sl)"
proof (cases "ns' = ns")
  case False
  then obtain s t1 where pre: "ipcctl_pre_down (ipc_user_ns ns) (sem_ids ns) semid t = (Inr s, t1)"
    using d by (auto simp: semctl_down_def split: if_splits prod.splits sum.splits)
  note s = pre_down_slot [OF pre]
  consider "ns' = freeary ns s" | u g m where "ns' = store_array ns ((ipc_update_perm u g m s)\<lparr>sem_ctime := time\<rparr>)"
    using d pre False by (auto simp: semctl_down_def split: if_splits prod.splits)
  then show ?thesis
  proof cases
    case 2
    note c = ctime_perm_ok [OF sys_ok_arrays [OF ok s, THEN conjunct1], where u = u and g = g and m = m and time = time]
    have "quiet None ((ipc_update_perm u g m s)\<lparr>sem_ctime := time\<rparr>)" using sys_ok_arrays [OF ok s] c(3,4) by (simp add: quiet_def)
    then show ?thesis using sys_ok_update [OF ok s c(2,4) scan_step_refl [OF c(1)]] 2 by simp
  qed (use freeary_ok [OF ok s] in simp)
qed (use ok in simp)


section \<open>Undo structures\<close>

text \<open>A step inside one array that also changes its undo structures and the lists they are in.\<close>

lemma store_twice: "perm_id s1 = perm_id s \<Longrightarrow> store_array (store_array ns s) s1 = store_array ns s1"
  by (simp add: store_array_def)

lemma sys_ok_undo:
  assumes ok: "sys_ok (ns, sl)" and s: "slot ns l = Some s" and fr: "perm_id s1 = perm_id s" "sma_pending s1 = sma_pending s"
    and lists: "lists_ok (store_array (ns\<lparr>list_proc := lp\<rparr>) s1)"
    and st: "scan_step None s1 s' pts" "quiet None s'"
  shows "sys_ok (wake_up_sem_queue_do pts (store_array (ns\<lparr>list_proc := lp\<rparr>) s'), sl)"
proof -
  let ?ns = "ns\<lparr>list_proc := lp\<rparr>"
  note o = sys_okD [OF ok] and d = scan_stepD [OF st(1)]
  have slot: "slot ?ns k = slot ns k" for k by (simp add: slot_def)
  have s': "slot ?ns l = Some s" using s slot by simp
  have p: "perm_id s' = perm_id s1" using d(2) by (simp add: frame_def)
  have idx: "ipcid_to_idx (perm_id s1) = l" "ipcid_to_idx (perm_id s') = l" using o s fr(1) p by (simp_all add: ids_ok_def)
  have "ids_ok ?ns" "arrays_ok ?ns" using o by (simp_all add: ids_ok_def arrays_ok_def slot)
  moreover have so: "sleepers_ok (?ns, sl)" using o sleepers_ok_cong [of ?ns ns] slot by (simp add: fun_eq_iff)
  moreover have "slot (store_array ?ns s1) l = Some s1" using slot_store [OF s' idx(1)] by simp
  then have "lists_ok (store_array ?ns s')" using lists_ok_store [OF lists _ idx(2) d(2)] store_twice [OF p] by simp
  ultimately show ?thesis unfolding sys_ok_def fst_conv ids_ok_wake
    using ids_ok_store [OF _ s' idx(2)] arrays_ok_store [OF _ s' idx(2) d(1) st(2)] sleepers_ok_store [OF so s' idx(2)] d(3-5) fr(2) by simp
qed

lemma semop_loop_no_undo: "\<not> sops_undos sops \<Longrightarrow> semop_loop adj prev sops base = semop_loop adj' prev sops base"
  by (induction sops arbitrary: prev base) (simp_all add: sops_undos_def undo_in_range_def Let_def)

definition with_new_undo :: "sem_undo \<Rightarrow> sem_array \<Rightarrow> sem_array" where
  "with_new_undo u s = s\<lparr>list_id := u # list_id s\<rparr>"

lemma with_new_undo_simps [simp]:
  "sem_base (with_new_undo u s) = sem_base s" "sma_pending (with_new_undo u s) = sma_pending s" "sem_nsems (with_new_undo u s) = sem_nsems s"
  "complex_count (with_new_undo u s) = complex_count s" "perm_id (with_new_undo u s) = perm_id s" "perm_seq (with_new_undo u s) = perm_seq s"
  "list_id (with_new_undo u s) = u # list_id s"
  "find_undo (with_new_undo u s) i = (if i = Some (un_id u) then Some u else find_undo s i)"
  by (auto simp: with_new_undo_def find_undo_def split: option.splits)

lemma with_new_undo_ok:
  assumes ok: "array_ok s" "quiet None s" and u: "un_id u \<notin> un_id ` set (list_id s)" "semadj u = replicate (sem_nsems s) 0"
  shows "array_ok (with_new_undo u s) \<and> quiet None (with_new_undo u s)"
proof
  note o = ok(1) [unfolded array_ok_def values_ok_def undos_ok_def pending_ok_def]
  have e: "entry_ok (with_new_undo u s) q" if "entry_ok s q" for q
    using that by (rule entry_ok_frame [of _ s, rotated 2]) (simp_all split: if_splits)
  then show "array_ok (with_new_undo u s)" using o u by (simp add: array_ok_def values_ok_def undos_ok_def pending_ok_def)
  have none: "find_undo s (Some (un_id u)) = None" using u(1) find_undo_known [of s "Some (un_id u)"] by auto
  have "blocked (with_new_undo u s) q" if q: "q \<in> set (sma_pending s)" for q
  proof (cases "q_undo q = Some (un_id u)")
    case True
    then have "\<not> sops_undos (q_sops q)" using o q none by (auto simp: entry_ok_def)
    moreover have "blocked s q" using ok(2) q by (simp add: quiet_def in_scan_simps)
    ultimately show ?thesis using semop_loop_no_undo by (simp add: blocked_def try_fst) metis
  next
    case False
    then have "blocked (with_new_undo u s) q = blocked s q" by (intro blocked_cong) simp_all
    then show ?thesis using ok(2) q by (simp add: quiet_def in_scan_simps)
  qed
  then show "quiet None (with_new_undo u s)" by (simp add: quiet_def in_scan_simps)
qed

lemma relock_slot: "relock ns sma = Some s \<Longrightarrow> slot ns (ipcid_to_idx (perm_id sma)) = Some s"
  by (auto simp: relock_def slot_def split: option.splits if_splits)

lemma add_undo_ok:
  assumes ok: "sys_ok (ns, sl)" and so: "same_object ns sma" and i: "\<not> ipc_checkid sma semid" "ipcid_to_idx semid = ipcid_to_idx (perm_id sma)"
    and fresh: "fresh_undo ns new" and add: "add_undo ns sma ulp semid new = (r, ns')"
  shows "sys_ok (ns', sl)"
proof (cases "relock ns sma = None \<or> fst (lookup_undo ns ulp semid) \<noteq> None")
  case True
  obtain x ns1 where l: "lookup_undo ns ulp semid = (x, ns1)" by fastforce
  then have "ns' = ns \<or> ns' = ns1" using add True by (auto simp: add_undo_def split: option.splits)
  then show ?thesis using ok sys_ok_same [OF ok lookup_undo_same [OF l]] by blast
next
  case False
  then obtain s where rs: "relock ns sma = Some s" and l: "lookup_undo ns ulp semid = (None, ns)"
    by (cases "do_lookup_undo ns ulp semid") (auto simp: lookup_undo_def)
  have s: "slot ns (ipcid_to_idx semid) = Some s" using relock_slot [OF rs] i(2) by simp
  have sz: "sem_nsems sma = sem_nsems s" "\<not> ipc_checkid s semid" using so rs i(1) by (auto simp: same_object_def ipc_checkid_def)
  define u where "u = \<lparr>un_id = new, un_ulp = ulp, semadj = replicate (sem_nsems sma) 0\<rparr>"
  let ?lp = "(list_proc ns)(ulp := (new, semid) # list_proc ns ulp)" and ?s = "with_new_undo u s"
  have ns': "ns' = store_array (ns\<lparr>list_proc := ?lp\<rparr>) ?s" using add rs l by (simp add: add_undo_def u_def with_new_undo_def)
  have "Some s \<in> set (ipcs_idr (sem_ids ns))" using s by (auto simp: slot_def idr_find_def split: if_splits dest: nth_mem)
  then have "un_id u \<notin> un_id ` set (list_id s)" using fresh by (simp add: fresh_undo_def u_def)
  then have a: "array_ok ?s" "quiet None ?s" using with_new_undo_ok [of s u] sys_ok_arrays [OF ok s] sz by (auto simp: u_def)
  have "lists_ok (store_array (ns\<lparr>list_proc := ?lp\<rparr>) ?s)"
    unfolding lists_ok_def
  proof (intro allI impI)
    have slot: "slot (ns\<lparr>list_proc := ?lp\<rparr>) k = slot ns k" for k by (simp add: slot_def)
    have slot': "slot (store_array (ns\<lparr>list_proc := ?lp\<rparr>) ?s) k = (if k = ipcid_to_idx semid then Some ?s else slot ns k)" for k
      using slot_store [of "ns\<lparr>list_proc := ?lp\<rparr>" "ipcid_to_idx semid" s ?s] s sys_okD [OF ok] by (simp add: slot ids_ok_def)
    fix ulp' un semid' assume "(un, semid') \<in> set (list_proc (store_array (ns\<lparr>list_proc := ?lp\<rparr>) ?s) ulp')"
    then consider "un = new" "semid' = semid" "ulp' = ulp" | "(un, semid') \<in> set (list_proc ns ulp')" by (auto split: if_splits)
    then show "\<exists>x. slot (store_array (ns\<lparr>list_proc := ?lp\<rparr>) ?s) (ipcid_to_idx semid') = Some x \<and> \<not> ipc_checkid x semid' \<and>
        (un, ulp') \<in> (\<lambda>u. (un_id u, un_ulp u)) ` set (list_id x)"
    proof cases
      case 1
      then show ?thesis using sz(2) unfolding slot' by (simp add: u_def ipc_checkid_def)
    next
      case 2
      then obtain x where "slot ns (ipcid_to_idx semid') = Some x" "\<not> ipc_checkid x semid'" "(un, ulp') \<in> (\<lambda>u. (un_id u, un_ulp u)) ` set (list_id x)"
        using sys_okD [OF ok] unfolding lists_ok_def by blast
      then show ?thesis using s unfolding slot' by (cases "ipcid_to_idx semid' = ipcid_to_idx semid") (auto simp: ipc_checkid_def)
    qed
  qed
  then show ?thesis using sys_ok_undo [OF ok s _ _ _ scan_step_refl [OF a(1)] a(2)] ns' by simp
qed


section \<open>The end of a task\<close>

lemma adjust_sem_simps [simp]: "sem_pending (adjust_sem pid a c) = sem_pending c"
  by (simp add: adjust_sem_def Let_def)

lemma adjust_sem_bounds: "0 \<le> semval c \<Longrightarrow> semval c \<le> SEMVMX \<Longrightarrow> 0 \<le> semval (adjust_sem pid a c) \<and> semval (adjust_sem pid a c) \<le> SEMVMX"
  by (simp add: adjust_sem_def Let_def)

definition undone :: "int \<Rightarrow> sem_undo \<Rightarrow> sem_array \<Rightarrow> sem_array" where
  "undone pid u s = s\<lparr>list_id := filter (\<lambda>x. un_id x \<noteq> un_id u) (list_id s), sem_base := map2 (adjust_sem pid) (semadj u) (sem_base s)\<rparr>"

lemma undone_simps [simp]:
  "sma_pending (undone pid u s) = sma_pending s" "sem_nsems (undone pid u s) = sem_nsems s" "complex_count (undone pid u s) = complex_count s"
  "perm_id (undone pid u s) = perm_id s" "perm_seq (undone pid u s) = perm_seq s" "list_id (undone pid u s) = filter (\<lambda>x. un_id x \<noteq> un_id u) (list_id s)"
  by (simp_all add: undone_def)

lemma undone_ok:
  assumes ok: "array_ok s" and u: "u \<in> set (list_id s)" and q: "\<And>q. q \<in> set (sma_pending s) \<Longrightarrow> q_undo q \<noteq> Some (un_id u)"
  shows "array_ok (undone pid u s)"
proof -
  note o = ok [unfolded array_ok_def values_ok_def undos_ok_def pending_ok_def]
  have len: "length (semadj u) = sem_nsems s" "length (sem_base s) = sem_nsems s" using o u by blast+
  have base: "sem_base (undone pid u s) ! k = adjust_sem pid (semadj u ! k) (sem_base s ! k)" if "k < sem_nsems s" for k
    using that len by (simp add: undone_def)
  have "values_ok (undone pid u s)"
    using o len adjust_sem_bounds by (auto simp: values_ok_def undone_def dest!: set_zip_rightD)
  moreover have "undos_ok (undone pid u s)" using ok by (auto simp: array_ok_def undos_ok_def distinct_map_filter)
  moreover have "entry_ok (undone pid u s) p" if p: "p \<in> set (sma_pending s)" for p
  proof -
    have "find_undo (undone pid u s) (q_undo p) \<noteq> None" if "find_undo s (q_undo p) \<noteq> None"
      using that q [OF p] unfolding find_undo_known by auto
    moreover have "entry_ok s p" using o p by blast
    ultimately show ?thesis by (simp add: entry_ok_def)
  qed
  then have "pending_ok (undone pid u s)" using o base by (simp add: pending_ok_def)
  ultimately show ?thesis by (simp add: array_ok_def)
qed

lemma undone_lists:
  assumes ok: "sys_ok (ns, sl)" and s: "slot ns l = Some s" and u: "u \<in> set (list_id s)" "un_ulp u = ulp"
  shows "lists_ok (store_array (ns\<lparr>list_proc := (list_proc ns)(ulp := filter (\<lambda>(x, i). x \<noteq> un_id u) (list_proc ns ulp))\<rparr>) (undone pid u s))"
    (is "lists_ok (store_array ?ns ?s)")
  unfolding lists_ok_def
proof (intro allI impI)
  have slot: "slot ?ns k = slot ns k" for k by (simp add: slot_def)
  have slot': "slot (store_array ?ns ?s) k = (if k = l then Some ?s else slot ns k)" for k
    using slot_store [of ?ns l s ?s] s sys_okD [OF ok] by (simp add: slot ids_ok_def)
  fix ulp' un semid assume "(un, semid) \<in> set (list_proc (store_array ?ns ?s) ulp')"
  then have un: "(un, semid) \<in> set (list_proc ns ulp')" "ulp' = ulp \<Longrightarrow> un \<noteq> un_id u" by (auto split: if_splits)
  then obtain x v where x: "slot ns (ipcid_to_idx semid) = Some x" "\<not> ipc_checkid x semid" "v \<in> set (list_id x)" "un_id v = un" "un_ulp v = ulp'"
    using sys_okD [OF ok] unfolding lists_ok_def by blast
  have "inj_on un_id (set (list_id s))" using sys_ok_arrays [OF ok s] by (auto simp: array_ok_def undos_ok_def distinct_map)
  then have "un_id v \<noteq> un_id u" if "x = s" using inj_onD [of un_id "set (list_id s)" v u] x un(2) u that by blast
  then show "\<exists>x. slot (store_array ?ns ?s) (ipcid_to_idx semid) = Some x \<and> \<not> ipc_checkid x semid \<and>
      (un, ulp') \<in> (\<lambda>u. (un_id u, un_ulp u)) ` set (list_id x)"
    using x s unfolding slot' by (cases "ipcid_to_idx semid = l") (auto simp: ipc_checkid_def)
qed

lemma undo_idleD: "undo_idle sl ns ulp \<Longrightarrow> (semid, q) \<in> set sl \<Longrightarrow> (un, i) \<in> set (list_proc ns ulp) \<Longrightarrow> q_undo q \<noteq> Some un"
  unfolding undo_idle_def list_all_iff by force

lemma undo_idle_mono: "set (list_proc ns' ulp) \<subseteq> set (list_proc ns ulp) \<Longrightarrow> undo_idle sl ns ulp \<Longrightarrow> undo_idle sl ns' ulp"
  unfolding undo_idle_def list_all_iff by blast

lemma exit_sem_pass_ok:
  assumes ok: "sys_ok (ns, sl)" and left: "undo_idle sl ns ulp"
  shows "\<exists>b ns'. exit_sem_pass ulp pid time (\<lambda>ns. ns) ns = Some (b, ns') \<and> sys_ok (ns', sl)"
proof (cases "list_proc ns ulp")
  case (Cons p rest)
  obtain first semid where p: "p = (first, semid)" by fastforce
  show ?thesis
  proof (cases "(\<exists>e. ipc_lock_check (sem_ids ns) semid = Inl e) \<or> do_lookup_undo ns ulp semid = None")
    case True
    then show ?thesis using ok Cons p by (auto simp: exit_sem_pass_def Let_def split: sum.splits option.splits)
  next
    case False
    then obtain s un where lock: "ipc_lock_check (sem_ids ns) semid = Inr s" and un: "do_lookup_undo ns ulp semid = Some un"
      by (cases "ipc_lock_check (sem_ids ns) semid") auto
    have s: "slot ns (ipcid_to_idx semid) = Some s" using lock by (simp add: lock_check_slot)
    have mem: "(un, semid) \<in> set (list_proc ns ulp)" by (rule do_lookup_undo_mem [OF un])
    then obtain v where v: "v \<in> set (list_id s)" "un_id v = un" "un_ulp v = ulp" using sys_okD [OF ok] s unfolding lists_ok_def by force
    then obtain u where fu: "find_undo s (Some un) = Some u" using find_undo_known [of s "Some un"] by auto
    then have u: "u \<in> set (list_id s)" "un_id u = un" using find_undo_mem by blast+
    have "inj_on un_id (set (list_id s))" using sys_ok_arrays [OF ok s] by (auto simp: array_ok_def undos_ok_def distinct_map)
    then have "un_ulp u = ulp" using inj_onD [of un_id "set (list_id s)" u v] u v by simp
    note lists = undone_lists [OF ok s u(1) this, of pid, unfolded u(2)]
    have "q_undo q \<noteq> Some (un_id u)" if q: "q \<in> set (sma_pending s)" for q
      using sleepers_okD(2) [OF _ s q] sys_okD [OF ok] undo_idleD [OF left _ mem, of _ q] u(2) by blast
    then have "array_ok (undone pid u s)" using undone_ok [OF _ u(1)] sys_ok_arrays [OF ok s] by blast
    then obtain s2 pt where up: "do_smart_update (undone pid u s) None True time = Some (s2, pt)" "scan_step None (undone pid u s) s2 pt" "quiet None s2"
      using smart_update_all unfolding updated_queue_def by blast
    moreover have "\<not> (length (semadj u) < sem_nsems s \<or> length (sem_base s) < sem_nsems s)"
      using sys_ok_arrays [OF ok s] u(1) by (auto simp: array_ok_def values_ok_def undos_ok_def)
    ultimately show ?thesis using Cons p lock un fu sys_ok_undo [OF ok s _ _ lists up(2,3)] u(2)
      unfolding exit_sem_pass_def undone_def Let_def by simp blast
  qed
qed (use ok in \<open>auto simp: exit_sem_pass_def\<close>)

text \<open>A pass takes one structure off the list and touches no other list.\<close>

lemma do_lookup_undo_first: "list_proc ns ulp = (first, semid) # rest \<Longrightarrow> do_lookup_undo ns ulp semid = Some first"
  by (simp add: do_lookup_undo_def)

lemma exit_sem_pass_shrinks:
  assumes ok: "sys_ok (ns, sl)" and p: "exit_sem_pass ulp pid time (\<lambda>ns. ns) ns = Some (b, ns')"
  shows "b = (list_proc ns ulp \<noteq> [])" and "list_proc ns' = (list_proc ns)(ulp := filter (\<lambda>(x, i). x \<noteq> fst (hd (list_proc ns ulp))) (list_proc ns ulp))"
proof -
  have "b = (list_proc ns ulp \<noteq> []) \<and> list_proc ns' = (list_proc ns)(ulp := filter (\<lambda>(x, i). x \<noteq> fst (hd (list_proc ns ulp))) (list_proc ns ulp))"
  proof (cases "list_proc ns ulp")
    case Nil
    then show ?thesis using p by (auto simp: exit_sem_pass_def)
  next
    case (Cons e rest)
    obtain first semid where e: "e = (first, semid)" by fastforce
    then have "(first, semid) \<in> set (list_proc ns ulp)" using Cons by simp
    then obtain s where "slot ns (ipcid_to_idx semid) = Some s" "\<not> ipc_checkid s semid"
      using sys_okD [OF ok] unfolding lists_ok_def by blast
    then have "ipc_lock_check (sem_ids ns) semid = Inr s" by (simp add: lock_check_slot)
    then show ?thesis using p do_lookup_undo_first [OF Cons [unfolded e]] Cons e by (auto simp: exit_sem_pass_def Let_def split: option.splits if_splits)
  qed
  then show "b = (list_proc ns ulp \<noteq> [])" "list_proc ns' = (list_proc ns)(ulp := filter (\<lambda>(x, i). x \<noteq> fst (hd (list_proc ns ulp))) (list_proc ns ulp))"
    by blast+
qed

section \<open>All steps\<close>

lemma sysv_step_ok:
  assumes "sysv_step sys sys'" and "sys_ok sys"
  shows "sys_ok sys'"
  using assms
proof (cases rule: sysv_step.cases)
  case (semget ns key nsems flg mem alloc time t r ns' t' sl)
  then show ?thesis using semget_ok assms(2) by blast
next
  case (semop sops un ns semid i pid time t r ns' t' sl)
  then show ?thesis using semop_locked_ok [of ns sl sops un semid i pid time t] assms(2) by (simp add: semop_result_ok_def)
next
  case (sleep sops un i sl ns semid pid time t ns' t')
  then show ?thesis using semop_locked_ok [of ns sl sops un semid i pid time t] assms(2) by (simp add: semop_result_ok_def)
next
  case (resume semid q sl ns timed_out r ns')
  then show ?thesis using resume_ok [of ns sl semid q timed_out] assms(2) by auto
next
  case (semctl cmd ns semid semnum val env t r ns' t' sl)
  then show ?thesis using semctl_main_ok [of ns sl cmd semid semnum val env t] assms(2) by auto
next
  case (setall ns sma vs time r ns' sl)
  then show ?thesis using setall_ok [of ns sl sma vs time] assms(2) by auto
next
  case (down ns semid cmd arg time t r ns' t' sl)
  then show ?thesis using semctl_down_ok assms(2) by blast
next
  case (get_list alloc ns current r ns' sl)
  then show ?thesis using sys_ok_same get_undo_list_same assms(2) by blast
next
  case (find_undo ns ulp semid r ns' sl)
  then show ?thesis using sys_ok_same lookup_undo_same assms(2) by blast
next
  case (new_undo ns sma semid new ulp r ns' sl)
  then show ?thesis using add_undo_ok assms(2) by blast
next
  case (fork alloc ns share current child r ns' sl)
  then show ?thesis using sys_ok_same copy_semundo_same assms(2) by blast
next
  case (leave tsk ns r ns' sl)
  then show ?thesis using sys_ok_same exit_sem_same assms(2) by blast
next
  case (leave_pass sl ns ulp pid time b ns')
  then show ?thesis using exit_sem_pass_ok [of ns sl ulp pid time] assms(2) by auto
qed

definition sem_init :: "sem_sys \<Rightarrow> bool" where
  "sem_init sys \<longleftrightarrow> (\<exists>uns. sys = (sem_init_ns uns, []))"

interpretation sems: invariant_system sem_init sysv_step sys_ok
proof
  show "sys_ok s" if "sem_init s" for s
    using that by (auto simp: sem_init_def sem_init_ns_def ipc_init_ids_def sys_ok_def ids_ok_def arrays_ok_def lists_ok_def sleepers_ok_def slot_def idr_find_def)
qed (rule sysv_step_ok)

end
