(* ===== verification/Sem_Calls.thy ===== *)
theory Sem_Calls
  imports Sem_Steps
begin

text \<open>
  What the calls on semaphores promise: a sequence of operations is made whole or not at all, what a task has done
  with undo is taken back exactly, sleepers are blocked or have their result, and no call
  runs into a \<^verbatim>\<open>BUG_ON\<close> or a dangling pointer.
\<close>

section \<open>Sequences of operations\<close>

lemma semop_commit_pid:
  "k < length base \<Longrightarrow> sempid (fst (semop_commit pid prev base adj) ! k) = (if k \<in> sem_num ` set prev then pid else sempid (base ! k))"
  by (induction prev arbitrary: base adj) (auto simp: nth_list_update)

lemma semop_loop_pid: "semop_loop adj prev sops base = (r, prev', base') \<Longrightarrow> map sempid base' = map sempid base"
proof (induction sops arbitrary: prev base)
  case (Cons sop sops)
  have "map sempid (base[sem_num sop := (base ! sem_num sop)\<lparr>semval := x\<rparr>]) = map sempid base" for x
    by (cases "sem_num sop < length base") (simp_all add: map_update list_update_beyond list_update_same_conv)
  then show ?case using Cons by (auto simp: Let_def split: if_splits option.splits bool.splits)
qed simp

lemma wrap_s_cong: "wrap_s 16 (wrap_s 16 x - y) = wrap_s 16 (x - y)"
proof -
  have "((x + 32768) mod 65536 - 32768 - y + 32768) mod 65536 = (x - y + 32768) mod 65536"
    using mod_diff_left_eq [of "x + 32768" 65536 y] by (simp add: algebra_simps)
  then show ?thesis by (simp add: wrap_s_def)
qed

lemma semop_commit_adjust:
  assumes "\<forall>x \<in> set a. short x" and "k < length a"
  shows "\<exists>a'. snd (semop_commit pid prev base (Some a)) = Some a' \<and> length a' = length a \<and>
    a' ! k = wrap_s 16 (a ! k - change (filter with_undo prev) k)"
  using assms
proof (induction prev arbitrary: base a)
  case Nil
  then show ?case by (simp add: wrap_short)
next
  case (Cons sop prev)
  define a1 where "a1 = (if with_undo sop then a[sem_num sop := wrap_s 16 (a ! sem_num sop - sem_op sop)] else a)"
  have "\<forall>x \<in> set a1. short x" using Cons.prems(1) short_wrap by (auto simp: a1_def dest!: set_update_subset_insert [THEN subsetD])
  moreover have k: "k < length a1" using Cons.prems(2) by (simp add: a1_def)
  ultimately obtain a' where a': "snd (semop_commit pid prev (base[sem_num sop := (base ! sem_num sop)\<lparr>sempid := pid\<rparr>]) (Some a1)) = Some a'"
    "length a' = length a1" "a' ! k = wrap_s 16 (a1 ! k - change (filter with_undo prev) k)" using Cons.IH by blast
  have "a1 ! k = (if with_undo sop \<and> sem_num sop = k then wrap_s 16 (a ! k - sem_op sop) else a ! k)"
    using Cons.prems(2) by (simp add: a1_def nth_list_update)
  then have "a' ! k = wrap_s 16 (a ! k - change (filter with_undo (sop # prev)) k)"
    using a'(3) by (simp add: change_Cons wrap_s_cong algebra_simps)
  moreover have "semop_commit pid (sop # prev) base (Some a) = semop_commit pid prev (base[sem_num sop := (base ! sem_num sop)\<lparr>sempid := pid\<rparr>]) (Some a1)"
    by (simp add: a1_def)
  ultimately show ?case using a'(1,2) by (simp add: a1_def)
qed

lemma change_rev [simp]: "change (rev sops) k = change sops k"
  by (simp add: change_def rev_filter [symmetric] rev_map [symmetric] sum_list_rev)

lemma filter_rev_change [simp]: "change (filter P (rev sops)) k = change (filter P sops) k"
  by (simp add: rev_filter [symmetric])

text \<open>What is done when all operations can be made.\<close>

lemma try_done_exact:
  assumes ok: "array_ok sma" and tr: "try_atomic_semop sma sops un pid = (Sem_done, sma')" and k: "k < sem_nsems sma"
  shows "semval (sem_base sma' ! k) = semval (sem_base sma ! k) + change sops k"
    and "sempid (sem_base sma' ! k) = (if k \<in> sem_num ` set sops then pid else sempid (sem_base sma ! k))"
    and "find_undo sma un = Some u \<Longrightarrow> \<exists>u'. find_undo sma' un = Some u' \<and> semadj u' ! k = wrap_s 16 (semadj u ! k - change (filter with_undo sops) k)"
proof -
  let ?adj = "map_option semadj (find_undo sma un)"
  obtain prev base where loop: "semop_loop ?adj [] sops (sem_base sma) = (Sem_done, prev, base)"
    using tr by (auto simp: try_atomic_semop_def Let_def split: prod.splits if_splits)
  have sma': "sma' = store_undo un (snd (semop_commit pid prev base ?adj)) (sma\<lparr>sem_base := fst (semop_commit pid prev base ?adj)\<rparr>)"
    using tr loop by (simp add: try_atomic_semop_def split: prod.splits)
  note spec = semop_loop_spec [OF refl _ loop, of "[]"]
  have len: "length base = length (sem_base sma)" and prev: "prev = rev sops" using spec by simp_all
  have b: "k < length base" using len k ok by (simp add: array_ok_def values_ok_def)
  show "semval (sem_base sma' ! k) = semval (sem_base sma ! k) + change sops k" by (rule try_done(5) [OF ok tr k])
  have "sempid (base ! k) = sempid (sem_base sma ! k)" using map_nth_eq [OF semop_loop_pid [OF loop] b] .
  then show "sempid (sem_base sma' ! k) = (if k \<in> sem_num ` set sops then pid else sempid (sem_base sma ! k))"
    using semop_commit_pid [OF b] by (simp add: sma' prev)
  assume u: "find_undo sma un = Some u"
  then obtain i where un: "un = Some i" by (cases un) (simp_all add: find_undo_def)
  note i = un find_undo_mem [OF u [unfolded un]]
  then have "\<forall>x \<in> set (semadj u). short x" "k < length (semadj u)" using ok k by (auto simp: array_ok_def undos_ok_def)
  from semop_commit_adjust [OF this, of pid prev base] obtain a' where "snd (semop_commit pid prev base ?adj) = Some a'"
    "a' ! k = wrap_s 16 (semadj u ! k - change (filter with_undo sops) k)" by (auto simp: u prev)
  then show "\<exists>u'. find_undo sma' un = Some u' \<and> semadj u' ! k = wrap_s 16 (semadj u ! k - change (filter with_undo sops) k)"
    using u i by (simp add: sma' find_undo_store)
qed

text \<open>
  What \<^verbatim>\<open>try_atomic_semop\<close> does, with the tests it makes: the value after the operations before, but for the range of
  an adjustment the adjustment from before the call.
\<close>

lemma semop_verdicts:
  assumes "array_ok sma" and "try_atomic_semop sma sops un pid = (r, sma')"
  shows "(r = Sem_done \<longleftrightarrow> (\<forall>i < length sops. sop_verdict (sem_base sma) (map_option semadj (find_undo sma un)) (take i sops) (sops ! i) = None)) \<and>
    (r = Sem_done \<longrightarrow> sma_pending sma' = sma_pending sma \<and> (\<forall>k < sem_nsems sma.
       semval (sem_base sma' ! k) = semval (sem_base sma ! k) + change sops k \<and>
       sempid (sem_base sma' ! k) = (if k \<in> sem_num ` set sops then pid else sempid (sem_base sma ! k)))) \<and>
    (r \<noteq> Sem_done \<longrightarrow> sma' = sma \<and> (\<exists>i < length sops.
       sop_verdict (sem_base sma) (map_option semadj (find_undo sma un)) (take i sops) (sops ! i) = Some r \<and>
       (\<forall>j < i. sop_verdict (sem_base sma) (map_option semadj (find_undo sma un)) (take j sops) (sops ! j) = None)))"
proof -
  let ?adj = "map_option semadj (find_undo sma un)"
  obtain prev base where loop: "semop_loop ?adj [] sops (sem_base sma) = (r, prev, base)"
    using assms(2) by (metis fst_conv prod.collapse try_fst)
  have spec: "(r = Sem_done \<longrightarrow> (\<forall>i < length sops. sop_verdict (sem_base sma) ?adj (take i sops) (sops ! i) = None)) \<and>
      (r \<noteq> Sem_done \<longrightarrow> (\<exists>i < length sops. sop_verdict (sem_base sma) ?adj (take i sops) (sops ! i) = Some r \<and>
        (\<forall>j < i. sop_verdict (sem_base sma) ?adj (take j sops) (sops ! j) = None)))"
    using semop_loop_spec [OF refl _ loop, of "[]"] by simp
  show ?thesis
  proof (cases "r = Sem_done")
    case True
    note tr = assms(2) [unfolded True]
    show ?thesis using spec True try_done(3) [OF assms(1) tr] try_done_exact(1,2) [OF assms(1) tr] by simp
  next
    case False
    then show ?thesis using spec try_fails [OF assms(2)] by auto
  qed
qed

text \<open>An array of two semaphores with one undo structure.\<close>

definition demo_array :: "int \<Rightarrow> int \<Rightarrow> sem_array" where
  "demo_array v adj =
     \<lparr>perm_id = 0, perm_key = 7, perm_uid = 0, perm_gid = 0, perm_cuid = 0, perm_cgid = 0, perm_mode = 0x180, perm_seq = 0,
      sma_addr = 1, sem_otime = 0, sem_ctime = 0,
      sem_base = [\<lparr>semval = v, sempid = 0, sem_pending = []\<rparr>, \<lparr>semval = 0, sempid = 0, sem_pending = []\<rparr>],
      sma_pending = [], list_id = [\<lparr>un_id = 9, un_ulp = 1, semadj = [adj, 0]\<rparr>], sem_nsems = 2, complex_count = 0\<rparr>"

lemma demo_array_ok: "0 \<le> v \<Longrightarrow> v \<le> SEMVMX \<Longrightarrow> short adj \<Longrightarrow> array_ok (demo_array v adj)"
  by (auto simp: array_ok_def values_ok_def undos_ok_def pending_ok_def demo_array_def less_Suc_eq numeral_2_eq_2)

definition demo_sop :: "nat \<Rightarrow> int \<Rightarrow> sembuf" where
  "demo_sop n d = \<lparr>sem_num = n, sem_op = d, sem_flg = 0x1000\<rparr>"

definition plain_sop :: "nat \<Rightarrow> int \<Rightarrow> sembuf" where
  "plain_sop n d = \<lparr>sem_num = n, sem_op = d, sem_flg = 0\<rparr>"

section \<open>Undoing\<close>

lemma find_undo_in: "find_undo s un = Some u \<Longrightarrow> u \<in> set (list_id s)"
proof -
  assume u: "find_undo s un = Some u"
  then obtain i where "un = Some i" by (cases un) (simp_all add: find_undo_def)
  then show ?thesis using find_undo_mem u by blast
qed

lemma change_single:
  assumes "distinct (map sem_num sops)" and "sop \<in> set sops"
  shows "change sops (sem_num sop) = sem_op sop"
  using assms
proof (induction sops)
  case (Cons a sops)
  show ?case
  proof (cases "a = sop")
    case True
    have "change sops (sem_num sop) = 0" using Cons.prems(1) True by (intro change_none) (auto simp: image_iff)
    then show ?thesis using True by (simp add: change_Cons)
  next
    case False
    then have "sop \<in> set sops" using Cons.prems(2) by simp
    then have "sem_num a \<noteq> sem_num sop" using Cons.prems(1) by (auto simp: image_iff)
    then show ?thesis using Cons \<open>sop \<in> set sops\<close> by (simp add: change_Cons)
  qed
qed simp

lemma adjust_sem_value:
  "0 \<le> semval c \<Longrightarrow> semval c \<le> SEMVMX \<Longrightarrow> semval (adjust_sem pid a c) = max 0 (min SEMVMX (semval c + a))"
  by (simp add: adjust_sem_def Let_def)

lemma done_in_range:
  assumes ok: "array_ok sma" and tr: "try_atomic_semop sma sops un pid = (Sem_done, sma')" and u: "find_undo sma un = Some u"
    and sop: "sop \<in> set sops" "with_undo sop"
  shows "short (semadj u ! sem_num sop - sem_op sop)"
proof -
  let ?adj = "map_option semadj (find_undo sma un)"
  obtain prev base where loop: "semop_loop ?adj [] sops (sem_base sma) = (Sem_done, prev, base)"
    using tr by (metis fst_conv prod.collapse try_fst)
  obtain i where "i < length sops" "sops ! i = sop" using sop(1) by (auto simp: in_set_conv_nth)
  then have "sop_verdict (sem_base sma) ?adj (take i sops) sop = None" using semop_loop_spec [OF refl _ loop, of "[]"] by auto
  then show ?thesis using sop(2) u by (auto simp: sop_verdict_def undo_in_range_def short_def Let_def split: if_splits)
qed

lemma adjust_exact:
  assumes ok: "array_ok sma" and tr: "try_atomic_semop sma sops un pid = (Sem_done, sma')" and u: "find_undo sma un = Some u"
    and once: "distinct (map sem_num (filter with_undo sops))" and k: "k < sem_nsems sma"
  shows "\<exists>u'. find_undo sma' un = Some u' \<and> semadj u' ! k = semadj u ! k - change (filter with_undo sops) k"
proof -
  have "short (semadj u ! k - change (filter with_undo sops) k)"
  proof (cases "k \<in> sem_num ` set (filter with_undo sops)")
    case True
    then obtain sop where "sop \<in> set (filter with_undo sops)" "sem_num sop = k" by blast
    then show ?thesis using done_in_range [OF ok tr u] change_single [OF once] by auto
  next
    case False
    then have "change (filter with_undo sops) k = 0" by (intro change_none) auto
    moreover have "short (semadj u ! k)" using ok k find_undo_in [OF u] by (auto simp: array_ok_def undos_ok_def)
    ultimately show ?thesis by simp
  qed
  then show ?thesis using try_done_exact(3) [OF ok tr k u] by (simp add: wrap_short)
qed

text \<open>
  The result of one operation after the operations in \<open>pre\<close> have been made, where \<open>val\<close> and \<open>adj\<close> are the values and the adjustments
  at first: both are taken as the operations before have left them.
\<close>

definition sop_outcome :: "(nat \<Rightarrow> int) \<Rightarrow> (nat \<Rightarrow> int) \<Rightarrow> sembuf list \<Rightarrow> sembuf \<Rightarrow> semop_result option" where
  "sop_outcome val adj pre sop =
     (let k = sem_num sop; v = val k + change pre k; a = adj k - change (filter with_undo pre) k
      in if sem_op sop = 0 \<and> v \<noteq> 0 \<or> v + sem_op sop < 0 then Some (would_block sop)
         else if v + sem_op sop > SEMVMX \<or> with_undo sop \<and> \<not> short (a - sem_op sop) then Some (Sem_error ERANGE)
         else None)"

abbreviation adj_of :: "sem_array \<Rightarrow> nat option \<Rightarrow> nat \<Rightarrow> int" where
  "adj_of sma un k \<equiv> (case find_undo sma un of None \<Rightarrow> 0 | Some u \<Rightarrow> semadj u ! k)"

lemma earlier_undo_none:
  assumes "distinct (map sem_num (filter with_undo sops))" and "i < length sops" and "with_undo (sops ! i)"
  shows "change (filter with_undo (take i sops)) (sem_num (sops ! i)) = 0"
proof -
  have "sops = take i sops @ sops ! i # drop (Suc i) sops" using assms(2) by (rule id_take_nth_drop)
  then have "filter with_undo sops = filter with_undo (take i sops) @ sops ! i # filter with_undo (drop (Suc i) sops)"
    using assms(3) by (metis filter.simps(2) filter_append)
  then have "sem_num (sops ! i) \<notin> sem_num ` set (filter with_undo (take i sops))" using assms(1) by auto
  then show ?thesis by (intro change_none) (auto simp: image_iff)
qed

lemma verdict_outcome:
  assumes ok: "array_ok sma" and nums: "\<forall>sop \<in> set sops. sem_num sop < sem_nsems sma" and un: "filter with_undo sops \<noteq> [] \<longrightarrow> find_undo sma un \<noteq> None"
    and once: "distinct (map sem_num (filter with_undo sops))" and i: "i < length sops"
  shows "sop_verdict (sem_base sma) (map_option semadj (find_undo sma un)) (take i sops) (sops ! i) =
    sop_outcome (\<lambda>k. semval (sem_base sma ! k)) (adj_of sma un) (take i sops) (sops ! i)"
proof -
  have n: "sem_num (sops ! i) < sem_nsems sma" "length (sem_base sma) = sem_nsems sma" using nums i ok by (simp_all add: array_ok_def values_ok_def)
  show ?thesis
  proof (cases "with_undo (sops ! i)")
    case True
    then have "filter with_undo sops \<noteq> []" using nth_mem [OF i] by (auto simp: filter_empty_conv)
    then obtain u where u: "find_undo sma un = Some u" using un by auto
    then have "length (semadj u) = sem_nsems sma" using ok find_undo_in [OF u] by (auto simp: array_ok_def undos_ok_def)
    then have "undo_in_range (Some (semadj u)) (sops ! i) = Some (short (semadj u ! sem_num (sops ! i) - sem_op (sops ! i)))"
      using True n by (auto simp: undo_in_range_def short_def Let_def)
    then show ?thesis using n u True earlier_undo_none [OF once i True] by (auto simp: sop_verdict_def sop_outcome_def Let_def)
  next
    case False
    then show ?thesis using n by (simp add: sop_verdict_def sop_outcome_def undo_in_range_def Let_def)
  qed
qed

text \<open>C27: A sequence of operations is atomic and exact.  For a call that names no semaphore twice with
  \<^verbatim>\<open>SEM_UNDO\<close> it is made if and only if each operation can be made after those before it, in the range of values and in the undo range;
  then every value changes by the sum of the operations on it, every adjustment by what is to be undone, the pid of the caller is
  noted on exactly the semaphores named, and nobody has left the queue.  Otherwise the result is that of the first operation
  that fails and the array is as it was.  (With two undo operations on one semaphore the code compares both with the
  adjustment from before the call, see \<^verbatim>\<open>semadj_wraps\<close>.)\<close>

theorem semop_atomic_exact:
  assumes "array_ok sma" and "\<forall>sop \<in> set sops. sem_num sop < sem_nsems sma" and "filter with_undo sops \<noteq> [] \<longrightarrow> find_undo sma un \<noteq> None"
    and "distinct (map sem_num (filter with_undo sops))" and "try_atomic_semop sma sops un pid = (r, sma')"
  shows "(r = Sem_done \<longleftrightarrow> (\<forall>i < length sops. sop_outcome (\<lambda>k. semval (sem_base sma ! k)) (adj_of sma un) (take i sops) (sops ! i) = None)) \<and>
    (r = Sem_done \<longrightarrow> sma_pending sma' = sma_pending sma \<and> (\<forall>k < sem_nsems sma.
       semval (sem_base sma' ! k) = semval (sem_base sma ! k) + change sops k \<and>
       sempid (sem_base sma' ! k) = (if k \<in> sem_num ` set sops then pid else sempid (sem_base sma ! k)) \<and>
       adj_of sma' un k = adj_of sma un k - change (filter with_undo sops) k)) \<and>
    (r \<noteq> Sem_done \<longrightarrow> sma' = sma \<and> (\<exists>i < length sops.
       sop_outcome (\<lambda>k. semval (sem_base sma ! k)) (adj_of sma un) (take i sops) (sops ! i) = Some r \<and>
       (\<forall>j < i. sop_outcome (\<lambda>k. semval (sem_base sma ! k)) (adj_of sma un) (take j sops) (sops ! j) = None)))"
proof -
  note v = verdict_outcome [OF assms(1-4)] and g = semop_verdicts [OF assms(1,5)]
  have adj: "adj_of sma' un k = adj_of sma un k - change (filter with_undo sops) k" if "r = Sem_done" "k < sem_nsems sma" for k
  proof (cases "find_undo sma un")
    case None
    then have "find_undo sma' un = None" using try_done(2) [OF assms(1), of sops un pid sma'] assms(5) that(1) find_undo_known by (metis frame_def)
    moreover have "filter with_undo sops = []" using assms(3) None by auto
    ultimately show ?thesis using None by simp
  next
    case (Some u)
    then show ?thesis using adjust_exact [OF assms(1) _ Some assms(4) that(2)] assms(5) that(1) by fastforce
  qed
  define V where "V i = sop_verdict (sem_base sma) (map_option semadj (find_undo sma un)) (take i sops) (sops ! i)" for i
  define W where "W i = sop_outcome (\<lambda>k. semval (sem_base sma ! k)) (adj_of sma un) (take i sops) (sops ! i)" for i
  have vw: "V i = W i" if "i < length sops" for i using v [OF that] by (simp add: V_def W_def)
  have "(r = Sem_done \<longleftrightarrow> (\<forall>i < length sops. W i = None)) \<and> (r \<noteq> Sem_done \<longrightarrow> sma' = sma \<and> (\<exists>i < length sops. W i = Some r \<and> (\<forall>j < i. W j = None)))"
    using g unfolding V_def [symmetric] by (simp add: vw cong: conj_cong)
  moreover have "r = Sem_done \<longrightarrow> sma_pending sma' = sma_pending sma \<and> (\<forall>k < sem_nsems sma.
       semval (sem_base sma' ! k) = semval (sem_base sma ! k) + change sops k \<and>
       sempid (sem_base sma' ! k) = (if k \<in> sem_num ` set sops then pid else sempid (sem_base sma ! k)) \<and>
       adj_of sma' un k = adj_of sma un k - change (filter with_undo sops) k)"
    using g adj by blast
  ultimately show ?thesis unfolding W_def by blast
qed

theorem semop_atomic_exact_witness:
  "map semval (sem_base (snd (try_atomic_semop (demo_array 3 0) [demo_sop 0 (- 2), demo_sop 1 5, plain_sop 0 (- 1)] (Some 9) 42))) = [0, 5] \<and>
   snd (try_atomic_semop (demo_array 3 0) [demo_sop 0 (- 2), demo_sop 1 5, plain_sop 0 (- 2)] (Some 9) 42) = demo_array 3 0"
proof -
  let ?a = "demo_array 3 0" and ?x = "[demo_sop 0 (- 2), demo_sop 1 5, plain_sop 0 (- 1)]" and ?y = "[demo_sop 0 (- 2), demo_sop 1 5, plain_sop 0 (- 2)]"
  have ok: "array_ok ?a" by (rule demo_array_ok) simp_all
  obtain x where x: "try_atomic_semop ?a ?x (Some 9) 42 = (Sem_done, x)" "length (sem_base x) = 2" "sem_nsems ?a = 2"
    by (simp add: try_atomic_semop_def demo_array_def demo_sop_def plain_sop_def find_undo_def with_undo_def undo_in_range_def store_undo_def)
  obtain y where y: "try_atomic_semop ?a ?y (Some 9) 42 = (Sem_block, y)"
    by (simp add: try_atomic_semop_def demo_array_def demo_sop_def plain_sop_def find_undo_def with_undo_def undo_in_range_def would_block_def no_wait_def)
  have "\<forall>sop \<in> set ?x. sem_num sop < sem_nsems ?a" "\<forall>sop \<in> set ?y. sem_num sop < sem_nsems ?a" "find_undo ?a (Some 9) \<noteq> None"
    "distinct (map sem_num (filter with_undo ?x))" "distinct (map sem_num (filter with_undo ?y))"
    by (simp_all add: demo_array_def demo_sop_def plain_sop_def find_undo_def with_undo_def)
  note h = this
  have v: "semval (sem_base x ! k) = semval (sem_base ?a ! k) + change ?x k" if "k < 2" for k
    using semop_atomic_exact [OF ok h(1) _ h(4) x(1)] h(3) that x(3) by simp
  have "map semval (sem_base x) = [0, 5]"
    using v x(2) by (intro nth_equalityI) (auto simp: less_Suc_eq numeral_2_eq_2 demo_array_def demo_sop_def plain_sop_def change_def)
  then show ?thesis using semop_atomic_exact [OF ok h(2) _ h(5) y] h(3) x(1) y by simp
qed

text \<open>C30: Undoing is exact: after a successful call whose operations are all with undo and on different
  semaphores, the adjustments at the exit of the task give every semaphore the value they would have given it
  without the call.\<close>

theorem semop_undo_exact:
  assumes ok: "array_ok sma" and tr: "try_atomic_semop sma sops un pid = (Sem_done, sma')" and u: "find_undo sma un = Some u"
    and ops: "list_all with_undo sops" "distinct (map sem_num sops)" and k: "k < sem_nsems sma"
  shows "\<exists>u'. find_undo sma' un = Some u' \<and>
    semval (adjust_sem p (semadj u' ! k) (sem_base sma' ! k)) = semval (adjust_sem p (semadj u ! k) (sem_base sma ! k))"
proof -
  have all: "filter with_undo sops = sops" using ops(1) by (simp add: list_all_iff)
  obtain u' where u': "find_undo sma' un = Some u'" and adj: "semadj u' ! k = semadj u ! k - change sops k"
    using adjust_exact [OF ok tr u _ k] ops(2) unfolding all by blast
  have b: "0 \<le> semval (sem_base x ! k) \<and> semval (sem_base x ! k) \<le> SEMVMX" if "array_ok x" "sem_nsems x = sem_nsems sma" for x
    using that k by (auto simp: array_ok_def values_ok_def)
  have "sem_nsems sma' = sem_nsems sma" using try_done(2) [OF ok tr] by (simp add: frame_def)
  then show ?thesis using u'(1) adj try_done(5) [OF ok tr k] b [OF ok] b [OF try_done(1) [OF ok tr]] by (simp add: adjust_sem_value)
qed

text \<open>
  Two operations with undo on one semaphore are each compared with the adjustment from before the call, and
  their sum can leave the 16 bits: here an adjustment of 32000 becomes a negative one.
\<close>

lemma semadj_wraps:
  "map_option semadj (find_undo (snd (try_atomic_semop (demo_array 1000 32000) [demo_sop 0 (- 500), demo_sop 0 (- 500)] (Some 9) 42)) (Some 9)) = Some [- 32536, 0]"
  by (simp add: try_atomic_semop_def demo_array_def demo_sop_def find_undo_def with_undo_def undo_in_range_def store_undo_def wrap_s_def)


theorem semop_undo_exact_witness:
  "\<exists>u'. find_undo (snd (try_atomic_semop (demo_array 3 4) [demo_sop 1 5, demo_sop 0 (- 2)] (Some 9) 42)) (Some 9) = Some u' \<and>
     semval (adjust_sem 42 (semadj u' ! 0) (sem_base (snd (try_atomic_semop (demo_array 3 4) [demo_sop 1 5, demo_sop 0 (- 2)] (Some 9) 42)) ! 0)) = 7"
proof -
  let ?a = "demo_array 3 4" and ?x = "[demo_sop 1 5, demo_sop 0 (- 2)]"
  have ok: "array_ok ?a" by (rule demo_array_ok) (simp_all add: short_def)
  obtain x where x: "try_atomic_semop ?a ?x (Some 9) 42 = (Sem_done, x)"
    by (simp add: try_atomic_semop_def demo_array_def demo_sop_def find_undo_def with_undo_def undo_in_range_def store_undo_def)
  have u: "find_undo ?a (Some 9) = Some \<lparr>un_id = 9, un_ulp = 1, semadj = [4, 0]\<rparr>" by (simp add: find_undo_def demo_array_def)
  have "list_all with_undo ?x" "distinct (map sem_num ?x)" "0 < sem_nsems ?a"
    by (simp_all add: with_undo_def demo_sop_def demo_array_def)
  moreover have "semval (adjust_sem 42 ([4, 0] ! 0) (sem_base ?a ! 0)) = 7" by (simp add: adjust_sem_def demo_array_def)
  ultimately show ?thesis using semop_undo_exact [OF ok x u, of 0 42] unfolding x by simp
qed

section \<open>All calls together\<close>

lemma sem_reachable_ok: "sysv_step\<^sup>*\<^sup>* (sem_init_ns uns, []) sys \<Longrightarrow> sys_ok sys"
  by (rule sems.inv_reachable) (auto simp: sem_init_def)

text \<open>C28: No wake-up is lost: in every reachable state a task asleep in \<^verbatim>\<open>semtimedop\<close> either has its result, so that it is
  about to return, or is in the queue of its array and its operations cannot be made at the present values.\<close>

theorem sem_sleepers_blocked:
  assumes "sysv_step\<^sup>*\<^sup>* (sem_init_ns uns, []) (ns, sl)" and "(semid, q) \<in> set sl"
  shows "q_id q \<in> fst ` set (woken ns) \<or>
    (\<exists>s. ipc_lock (sem_ids ns) semid = Inr s \<and> q \<in> set (sma_pending s) \<and> fst (try_atomic_semop s (q_sops q) (q_undo q) (q_pid q)) = Sem_block)"
proof -
  have ok: "sys_ok (ns, sl)" by (rule sem_reachable_ok [OF assms(1)])
  from sleepers_okD(4) [OF _ assms(2)] sys_okD [OF ok] consider "q_id q \<in> fst ` set (woken ns)"
    | s where "slot ns (ipcid_to_idx semid) = Some s" "q \<in> set (sma_pending s)" by blast
  then show ?thesis
  proof cases
    case 2
    then have "blocked s q" using sys_ok_arrays [OF ok 2(1)] by (simp add: quiet_def in_scan_simps)
    then show ?thesis using 2 lock_slot [of ns semid s] by (auto simp: blocked_def)
  qed simp
qed

text \<open>A user who creates an array and waits for its first semaphore.\<close>

definition sem_user :: task_struct where
  "sem_user =
     \<lparr>cur_cred = \<lparr>uid = 1000, gid = 1000, suid = 1000, sgid = 1000, euid = 1000, egid = 1000, fsuid = 1000, fsgid = 1000, securebits = 0,
        cap_inheritable = CAP_EMPTY_SET, cap_permitted = CAP_EMPTY_SET, cap_effective = CAP_EMPTY_SET, cap_bset = CAP_EMPTY_SET,
        user = User 1000 Init_user_ns, cred_groups = None\<rparr>,
      task_pid = 42, PF_SUPERPRIV = False, PF_NPROC_EXCEEDED = False, has_mm = True, MMF_DUMPABLE = True, MMF_DUMP_SECURELY = False,
      pdeath_signal = 0, processes = (\<lambda>_. 1), bug_hit = False\<rparr>"

definition demo_ns1 :: ipc_namespace where
  "demo_ns1 = fst (snd (sys_semget (sem_init_ns Init_user_ns) 0 1 0x380 True (Some 1) 10 sem_user))"

definition wait_sop :: sembuf where "wait_sop = \<lparr>sem_num = 0, sem_op = - 1, sem_flg = 0\<rparr>"

definition demo_queue :: sem_queue where
  "demo_queue = \<lparr>q_id = 5, q_undo = None, q_pid = 42, q_sops = [wait_sop], q_alter = True\<rparr>"

definition demo_ns2 :: ipc_namespace where
  "demo_ns2 = fst (snd (the (semtimedop_locked demo_ns1 0 [wait_sop] None 5 42 11 sem_user)))"

lemma demo_ns1_eq: "sys_semget (sem_init_ns Init_user_ns) 0 1 0x380 True (Some 1) 10 sem_user = (Inr 0, demo_ns1, sem_user)"
  unfolding demo_ns1_def by (simp add: sys_semget_def sem_init_ns_def ipc_init_ids_def ipcget_def ipcget_new_def newary_def ipc_addid_def Let_def
      idr_store_def ipc_buildid_def new_array_def)


lemma demo_ns1_idr: "ipcs_idr (sem_ids demo_ns1) =
    [Some \<lparr>perm_id = 0, perm_key = 0, perm_uid = 1000, perm_gid = 1000, perm_cuid = 1000, perm_cgid = 1000, perm_mode = 0x180, perm_seq = 0,
       sma_addr = 1, sem_otime = 0, sem_ctime = 10, sem_base = [\<lparr>semval = 0, sempid = 0, sem_pending = []\<rparr>],
       sma_pending = [], list_id = [], sem_nsems = 1, complex_count = 0\<rparr>]" "ipc_user_ns demo_ns1 = Init_user_ns" "woken demo_ns1 = []"
  unfolding demo_ns1_def by (simp_all add: sys_semget_def sem_init_ns_def ipc_init_ids_def ipcget_def ipcget_new_def newary_def ipc_addid_def Let_def
      idr_store_def ipc_buildid_def new_array_def sem_user_def)

lemma demo_ns2_eq: "semtimedop_locked demo_ns1 0 [wait_sop] None 5 42 11 sem_user = Some (Semop_sleeps, demo_ns2, sem_user)"
  unfolding demo_ns2_def
  by (simp add: semtimedop_locked_def ipc_lock_check_def ipc_lock_def idr_find_def ipcid_to_idx_def ipc_checkid_def demo_ns1_idr ipcperms_def sem_user_def Let_def
      sops_max_def wait_sop_def semop_try_def try_atomic_semop_def find_undo_def would_block_def no_wait_def)

lemma sem_demo_run: "sysv_step\<^sup>*\<^sup>* (sem_init_ns Init_user_ns, []) (demo_ns2, [(0, demo_queue)])"
proof -
  have one: "sysv_step (sem_init_ns Init_user_ns, []) (demo_ns1, [])" by (rule sysv_step.semget [OF demo_ns1_eq])
  have two: "sysv_step (demo_ns1, []) (demo_ns2, [(0, demo_queue)])"
    using sysv_step.sleep [OF _ _ demo_ns2_eq, of "[]"] by (simp add: semop_ok_def sops_undos_def wait_sop_def with_undo_def demo_queue_def sops_alter_def)
  show ?thesis using one two by (meson converse_rtranclp_into_rtranclp rtranclp.rtrancl_refl)
qed

theorem sem_sleepers_blocked_witness:
  "\<exists>s. ipc_lock (sem_ids demo_ns2) 0 = Inr s \<and> demo_queue \<in> set (sma_pending s) \<and>
     fst (try_atomic_semop s [wait_sop] None 42) = Sem_block"
proof -
  have "woken demo_ns2 = []"
    unfolding demo_ns2_def
    by (simp add: semtimedop_locked_def ipc_lock_check_def ipc_lock_def idr_find_def ipcid_to_idx_def ipc_checkid_def demo_ns1_idr ipcperms_def sem_user_def Let_def
      sops_max_def wait_sop_def semop_try_def try_atomic_semop_def find_undo_def would_block_def no_wait_def store_array_def)
  then show ?thesis using sem_sleepers_blocked [OF sem_demo_run, of 0 demo_queue] by (simp add: demo_queue_def)
qed

text \<open>C29: Calls on semaphores are safe.  An access to \<^verbatim>\<open>sem_base\<close> or \<^verbatim>\<open>semadj\<close> outside the array, a missing undo structure and a
  \<^verbatim>\<open>BUG_ON\<close> are faults of the model (\<open>None\<close>).  In every reachable state none of these sections under the array lock faults: an
  attempt of \<^verbatim>\<open>semtimedop\<close> (for operations as the prologue passes them on) and its end after a sleep, \<^verbatim>\<open>semctl\<close> with any
  semaphore number, command, value and identifier, the copies of \<^verbatim>\<open>GETALL\<close> and \<^verbatim>\<open>SETALL\<close> after they took
  the lock again, and a pass of \<^verbatim>\<open>exit_sem\<close> of a task whose undo structures no sleeper uses, provided the array is not removed
  between the read of the list and the lock.  All values of semaphores are between 0 and \<^verbatim>\<open>SEMVMX\<close>.\<close>

theorem sem_calls_safe:
  assumes reach: "sysv_step\<^sup>*\<^sup>* (sem_init_ns uns, []) (ns, sl)"
  shows "(semop_ok sops un \<longrightarrow> semtimedop_locked ns semid sops un i pid time t \<noteq> None) \<and>
    ((semid, q) \<in> set sl \<longrightarrow> semtimedop_resume ns semid q timed_out \<noteq> None) \<and>
    (cmd \<noteq> GETALL \<and> cmd \<noteq> SETALL \<longrightarrow> semctl_main ns semid semnum cmd val env t \<noteq> None) \<and>
    (ipc_lock (sem_ids ns) semid = Inr s \<longrightarrow> getall_copy s env \<noteq> None) \<and>
    (same_object ns sma \<and> length vs = sem_nsems sma \<and> list_all (\<lambda>v. uint v \<le> SEMVMX) vs \<longrightarrow> setall_store ns sma vs time \<noteq> None) \<and>
    (undo_idle sl ns ulp \<longrightarrow> exit_sem_pass ulp pid time (\<lambda>ns. ns) ns \<noteq> None) \<and>
    (ipc_lock (sem_ids ns) semid = Inr s \<longrightarrow> length (sem_base s) = sem_nsems s \<and> list_all (\<lambda>c. 0 \<le> semval c \<and> semval c \<le> SEMVMX) (sem_base s))"
proof -
  have ok: "sys_ok (ns, sl)" by (rule sem_reachable_ok [OF reach])
  have "semop_ok sops un \<longrightarrow> semtimedop_locked ns semid sops un i pid time t \<noteq> None"
    using semop_locked_ok [OF ok, of sops un semid i pid time t] by force
  moreover have "(semid, q) \<in> set sl \<longrightarrow> semtimedop_resume ns semid q timed_out \<noteq> None" using resume_ok [OF ok] by fastforce
  moreover have "cmd \<noteq> GETALL \<and> cmd \<noteq> SETALL \<longrightarrow> semctl_main ns semid semnum cmd val env t \<noteq> None"
    using semctl_main_ok [OF ok, of cmd semid semnum val env t] by force
  moreover have "same_object ns sma \<and> length vs = sem_nsems sma \<and> list_all (\<lambda>v. uint v \<le> SEMVMX) vs \<longrightarrow> setall_store ns sma vs time \<noteq> None"
    using setall_ok [OF ok, of sma vs time] by force
  moreover have "undo_idle sl ns ulp \<longrightarrow> exit_sem_pass ulp pid time (\<lambda>ns. ns) ns \<noteq> None" using exit_sem_pass_ok [OF ok, of ulp pid time] by force
  moreover have "getall_copy s env \<noteq> None" if "ipc_lock (sem_ids ns) semid = Inr s"
    using that sys_ok_arrays [OF ok] unfolding lock_slot by (auto simp: array_ok_def values_ok_def getall_copy_def)
  moreover have "length (sem_base s) = sem_nsems s \<and> list_all (\<lambda>c. 0 \<le> semval c \<and> semval c \<le> SEMVMX) (sem_base s)"
    if "ipc_lock (sem_ids ns) semid = Inr s"
    using that sys_ok_arrays [OF ok] unfolding lock_slot by (auto simp: array_ok_def values_ok_def list_all_iff)
  ultimately show ?thesis by blast
qed

definition calm_env :: semctl_env where
  "calm_env = \<lparr>io_mem = True, env_mid = (\<lambda>ns. ns), user_array = Some [1], user_writable = True, env_now = 12, env_tgid = 42\<rparr>"

theorem sem_calls_safe_witness:
  "semtimedop_locked demo_ns2 0 [wait_sop] None 6 42 12 sem_user \<noteq> None \<and> semtimedop_resume demo_ns2 0 demo_queue True \<noteq> None \<and>
   semctl_main demo_ns2 0 0 SETVAL 1 calm_env sem_user \<noteq> None \<and> exit_sem_pass 1 42 12 (\<lambda>ns. ns) demo_ns2 \<noteq> None"
proof -
  have "semop_ok [wait_sop] None" by (simp add: semop_ok_def sops_undos_def wait_sop_def with_undo_def)
  moreover have "undo_idle [(0, demo_queue)] demo_ns2 1" by (auto simp: undo_idle_def demo_queue_def)
  ultimately show ?thesis
    using sem_calls_safe [OF sem_demo_run, of "[wait_sop]" None 0 6 42 12 sem_user demo_queue True SETVAL 0 1 calm_env]
      sem_calls_safe [OF sem_demo_run, where ulp = 1 and pid = 42 and time = 12]
    by simp
qed

text \<open>
  When \<^verbatim>\<open>IPC_RMID\<close> on another processor comes in after the undo structure was found, the structure may be freed before its
  \<^verbatim>\<open>semid\<close> is read the second time.
\<close>

definition undo_ns :: ipc_namespace where
  "undo_ns = store_array ((sem_init_ns Init_user_ns)\<lparr>sem_ids := \<lparr>in_use = 1, ids_seq = 1, seq_max = 65535, ipcs_idr = [None]\<rparr>,
     list_proc := (\<lambda>_. [])(1 := [(9, 0)])\<rparr>) (demo_array 3 2)"

lemma exit_sem_reads_freed:
  "exit_sem_pass 1 42 12 (\<lambda>ns. ns) undo_ns \<noteq> None" "exit_sem_pass 1 42 12 (\<lambda>ns. freeary ns (demo_array 3 2)) undo_ns = None"
  by (simp_all add: undo_ns_def exit_sem_pass_def store_array_def sem_init_ns_def ipcid_to_idx_def demo_array_def freeary_def Let_def
      ipc_lock_check_def ipc_lock_def idr_find_def ipc_checkid_def do_lookup_undo_def find_undo_def do_smart_update_def adjust_sem_def update_queue_def pending_list_def)

text \<open>Identifiers name what they were given for: the identifier of a new private array finds it, with
  the number of semaphores asked for, all zero, and owned by its creator; identifiers in use find what they found before and differ
  from the new one; once the array is removed its identifier finds nothing.\<close>

theorem semget_identifier:
  assumes reach: "sysv_step\<^sup>*\<^sup>* (sem_init_ns uns, []) (ns, sl)"
    and get: "sys_semget ns IPC_PRIVATE nsems flg mem alloc time t = (Inr i, ns', t')"
  shows "\<exists>s. ipc_lock_check (sem_ids ns') i = Inr s \<and> map semval (sem_base s) = replicate (nat nsems) 0 \<and>
    perm_uid s = euid (cur_cred t) \<and> perm_cuid s = euid (cur_cred t) \<and> perm_mode s = flg AND S_IRWXUGO \<and>
    (\<forall>j x. ipc_lock_check (sem_ids ns) j = Inr x \<longrightarrow> j \<noteq> i \<and> ipc_lock_check (sem_ids ns') j = Inr x) \<and>
    ipc_lock_check (sem_ids (freeary ns' s)) i = Inl EINVAL"
proof -
  have ok: "ids_ok ns" using sem_reachable_ok [OF reach] by (simp add: sys_ok_def)
  let ?par = "\<lparr>par_key = IPC_PRIVATE, par_flg = flg, par_nsems = nsems\<rparr>"
  have n: "newary ?par alloc (cur_cred t) time ns = (Inr i, ns')"
    using get by (auto simp: sys_semget_def ipcget_def ipcget_new_def Let_def split: if_splits prod.splits)
  show ?thesis
  proof (rule newary_new [OF ok n])
    fix a lid
    let ?p = "made ns ?par a (cur_cred t) time"
    assume i: "Inr i = (Inr (perm_id ?p) :: int kresult)" and free: "slot ns lid = None"
      and slot': "\<And>k. slot ns' k = (if k = lid then Some ?p else slot ns k)" and idx: "ipcid_to_idx (perm_id ?p) = lid" "\<not> ipc_checkid ?p (perm_id ?p)"
    have "ipc_lock_check (sem_ids ns') i = Inr ?p" using i idx slot' by (simp add: lock_check_slot)
    moreover have "map semval (sem_base ?p) = replicate (nat nsems) 0 \<and> perm_uid ?p = euid (cur_cred t) \<and> perm_cuid ?p = euid (cur_cred t) \<and>
        perm_mode ?p = flg AND S_IRWXUGO" by (simp add: made_def new_array_def)
    moreover have "j \<noteq> i \<and> ipc_lock_check (sem_ids ns') j = Inr x" if "ipc_lock_check (sem_ids ns) j = Inr x" for j x
      using that i idx free slot' unfolding lock_check_slot by auto
    moreover have "slot (freeary ns' ?p) (ipcid_to_idx i) = None"
      using i by (auto simp: freeary_def ipc_rmid_def idr_remove_def slot_def idr_find_def)
    then have "ipc_lock_check (sem_ids (freeary ns' ?p)) i = Inl EINVAL" by (simp add: ipc_lock_check_def ipc_lock_def slot_def)
    ultimately show ?thesis by blast
  qed simp
qed

theorem semget_identifier_witness:
  "\<exists>s. ipc_lock_check (sem_ids demo_ns1) 0 = Inr s \<and> map semval (sem_base s) = [0] \<and> perm_uid s = 1000"
  using semget_identifier [OF rtranclp.rtrancl_refl demo_ns1_eq] by (auto simp: sem_user_def)

section \<open>Whole calls\<close>

text \<open>Without interference the calls are sequences of steps.\<close>

lemma relock_self: "ids_ok ns \<Longrightarrow> slot ns l = Some s \<Longrightarrow> relock ns s = Some s"
  by (simp add: ids_ok_def relock_def slot_def)

lemma find_alloc_undo_steps:
  assumes ok: "sys_ok (ns, sl)" and fresh: "\<And>u. alloc_undo = Some u \<Longrightarrow> fresh_undo ns u" "\<And>ulp. alloc_list = Some ulp \<Longrightarrow> list_proc ns ulp = []"
    and f: "find_alloc_undo ns current semid alloc_list alloc_undo (\<lambda>x. x) = (r, ns')"
  shows "sysv_step\<^sup>*\<^sup>* (ns, sl) (ns', sl)"
proof -
  obtain x ns1 where g: "get_undo_list ns current alloc_list = (x, ns1)" by fastforce
  have s1: "sysv_step (ns, sl) (ns1, sl)" using sysv_step.get_list [OF fresh(2) g] by blast
  show ?thesis
  proof (cases x)
    case (Inr ulp)
    obtain y ns2 where l: "lookup_undo ns1 ulp semid = (y, ns2)" by fastforce
    have s2: "sysv_step\<^sup>*\<^sup>* (ns, sl) (ns2, sl)"
      using s1 sysv_step.find_undo [OF l] by (meson converse_rtranclp_into_rtranclp rtranclp.rtrancl_refl)
    show ?thesis
    proof (cases "ns' = ns2")
      case False
      then obtain s new where s: "ipc_lock_check (sem_ids ns2) semid = Inr s" "alloc_undo = Some new" "add_undo ns2 s ulp semid new = (r, ns')"
        using f g Inr l by (auto simp: find_alloc_undo_def split: option.splits sum.splits)
      have ids: "sem_ids ns2 = sem_ids ns" using get_undo_list_same [OF g] lookup_undo_same [OF l] by (simp add: same_arrays_def)
      have slot: "slot ns2 (ipcid_to_idx semid) = Some s" "\<not> ipc_checkid s semid" using s(1) by (simp_all add: lock_check_slot)
      have idok: "ids_ok ns2" using sys_okD [OF ok] ids by (simp add: ids_ok_def slot_def)
      have "same_object ns2 s" using relock_self [OF idok slot(1)] by (simp add: same_object_def)
      moreover have "fresh_undo ns2 new" using fresh(1) [OF s(2)] ids by (simp add: fresh_undo_def)
      moreover have "ipcid_to_idx semid = ipcid_to_idx (perm_id s)" using idok slot(1) by (simp add: ids_ok_def)
      ultimately have "sysv_step (ns2, sl) (ns', sl)" using sysv_step.new_undo [OF _ slot(2) _ _ s(3)] by blast
      then show ?thesis using s2 by (rule rtranclp.rtrancl_into_rtrancl [rotated])
    qed (use s2 in simp)
  qed (use s1 f g in \<open>auto simp: find_alloc_undo_def\<close>)
qed

lemma semtimedop_args_ok: "semtimedop_args ns semid tsops nsops mem timeout = Inr sops \<Longrightarrow> sops \<noteq> []"
  by (auto simp: semtimedop_args_def split: if_splits option.splits)

lemma semtimedop_steps:
  assumes ok: "sys_ok (ns, sl)" and fresh: "\<And>u. alloc_undo = Some u \<Longrightarrow> fresh_undo ns u" "\<And>ulp. alloc_list = Some ulp \<Longrightarrow> list_proc ns ulp = []"
    and call: "sys_semtimedop ns semid tsops nsops timeout mem alloc_list alloc_undo (\<lambda>x. x) (\<lambda>x. x) current i pid time t = Some (out, ns', t')"
    and i: "i \<notin> q_id ` snd ` set sl"
  shows "\<exists>q. q_id q = i \<and> sysv_step\<^sup>*\<^sup>* (ns, sl) (ns', if out = Semop_sleeps then (semid, q) # sl else sl)"
proof (cases "semtimedop_args ns semid tsops nsops mem timeout")
  case (Inl e)
  then have "out = Semop_ret (Inl e)" "ns' = ns" using call by (simp_all add: sys_semtimedop_def)
  then show ?thesis by (intro exI [of _ "\<lparr>q_id = i, q_undo = None, q_pid = 0, q_sops = [], q_alter = False\<rparr>"]) simp
next
  case (Inr sops)
  have last: "\<exists>q. q_id q = i \<and> sysv_step\<^sup>*\<^sup>* (ns, sl) (ns', if out = Semop_sleeps then (semid, q) # sl else sl)"
    if st: "sysv_step\<^sup>*\<^sup>* (ns, sl) (ns1, sl)" and so: "semop_ok sops un" and c: "semtimedop_locked ns1 semid sops un i pid time t = Some (out, ns', t')" for ns1 un
  proof (cases out)
    case (Semop_ret r)
    then show ?thesis using rtranclp.rtrancl_into_rtrancl [OF st sysv_step.semop [OF so c [unfolded Semop_ret]]]
      by (intro exI [of _ "\<lparr>q_id = i, q_undo = un, q_pid = pid, q_sops = sops, q_alter = sops_alter sops\<rparr>"]) simp
  next
    case Semop_sleeps
    then show ?thesis using rtranclp.rtrancl_into_rtrancl [OF st sysv_step.sleep [OF so i c [unfolded Semop_sleeps]]]
      by (intro exI [of _ "\<lparr>q_id = i, q_undo = un, q_pid = pid, q_sops = sops, q_alter = sops_alter sops\<rparr>"]) simp
  qed
  show ?thesis
  proof (cases "sops_undos sops")
    case True
    obtain x ns1 where f: "find_alloc_undo ns current semid alloc_list alloc_undo (\<lambda>x. x) = (x, ns1)" by fastforce
    have st: "sysv_step\<^sup>*\<^sup>* (ns, sl) (ns1, sl)" using find_alloc_undo_steps [OF ok fresh f] by blast
    show ?thesis
    proof (cases x)
      case (Inl e)
      then have "out = Semop_ret (Inl e)" "ns' = ns1"
        using call \<open>semtimedop_args ns semid tsops nsops mem timeout = Inr sops\<close> True f by (simp_all add: sys_semtimedop_def)
      then show ?thesis using st by (intro exI [of _ "\<lparr>q_id = i, q_undo = None, q_pid = 0, q_sops = [], q_alter = False\<rparr>"]) simp
    next
      case (Inr un)
      have "semop_ok sops (Some un)" using semtimedop_args_ok \<open>semtimedop_args ns semid tsops nsops mem timeout = Inr sops\<close> by (auto simp: semop_ok_def)
      then show ?thesis using call \<open>semtimedop_args ns semid tsops nsops mem timeout = Inr sops\<close> True f Inr
        by (intro last [OF st]) (simp_all add: sys_semtimedop_def)
    qed
  next
    case False
    then have "semop_ok sops None" using semtimedop_args_ok [OF Inr] by (simp add: semop_ok_def)
    then show ?thesis using call Inr False by (intro last [OF rtranclp.rtrancl_refl]) (simp_all add: sys_semtimedop_def)
  qed
qed

section \<open>The end of a task\<close>

lemma exit_sem_loop_steps:
  assumes "sys_ok (ns, sl)" and "undo_idle sl ns ulp"
    and "length (list_proc ns ulp) < fuel"
  shows "\<exists>ns'. exit_sem_loop fuel ulp pid time ns = Some ns' \<and> sysv_step\<^sup>*\<^sup>* (ns, sl) (ns', sl) \<and> list_proc ns' = (list_proc ns)(ulp := [])"
  using assms
proof (induction fuel arbitrary: ns)
  case (Suc fuel)
  obtain b ns1 where pass: "exit_sem_pass ulp pid time (\<lambda>ns. ns) ns = Some (b, ns1)" "sys_ok (ns1, sl)"
    using exit_sem_pass_ok [OF Suc.prems(1,2), of pid time] by blast
  have step: "sysv_step (ns, sl) (ns1, sl)" by (rule sysv_step.leave_pass [OF Suc.prems(2) pass(1)])
  note sh = exit_sem_pass_shrinks [OF Suc.prems(1) pass(1)]
  show ?case
  proof (cases "list_proc ns ulp")
    case Nil
    then have "list_proc ns1 = (list_proc ns)(ulp := [])" using sh by simp
    then show ?thesis using pass(1) sh(1) Nil step by auto
  next
    case (Cons e rest)
    have l1: "list_proc ns1 ulp = filter (\<lambda>(x, i). x \<noteq> fst e) rest" using sh(2) Cons by (cases e) simp
    have "length (list_proc ns1 ulp) < fuel" using Suc.prems(3) Cons unfolding l1 by (simp add: le_less_trans [OF length_filter_le])
    moreover have "set (list_proc ns1 ulp) \<subseteq> set (list_proc ns ulp)" unfolding l1 Cons by auto
    then have "undo_idle sl ns1 ulp" using undo_idle_mono Suc.prems(2) by blast
    ultimately obtain ns' where "exit_sem_loop fuel ulp pid time ns1 = Some ns'" "sysv_step\<^sup>*\<^sup>* (ns1, sl) (ns', sl)" "list_proc ns' = (list_proc ns1)(ulp := [])"
      using Suc.IH [OF pass(2)] by blast
    moreover from this(3) have "list_proc ns' = (list_proc ns)(ulp := [])" using sh(2) by simp
    ultimately show ?thesis using pass(1) sh(1) Cons converse_rtranclp_into_rtranclp [of sysv_step, OF step] by auto
  qed
qed simp

text \<open>The exit of a task completes: when no sleeper uses its undo structures, as many passes as the list is long and one more
  work it off, each of them a step as all others; the list is then empty and all other lists are as they were.\<close>

theorem exit_sem_completes:
  assumes "sysv_step\<^sup>*\<^sup>* (sem_init_ns uns, []) (ns, sl)"
    and "undo_idle sl ns ulp"
  shows "\<exists>ns'. exit_sem_loop (Suc (length (list_proc ns ulp))) ulp pid time ns = Some ns' \<and>
    sysv_step\<^sup>*\<^sup>* (ns, sl) (ns', sl) \<and> list_proc ns' = (list_proc ns)(ulp := [])"
  using exit_sem_loop_steps [OF sem_reachable_ok [OF assms(1)] assms(2)] by blast

text \<open>The user of before gets an undo structure and leaves.\<close>

definition demo_ns3 :: ipc_namespace where
  "demo_ns3 = snd (add_undo demo_ns1 (the (idr_find (ipcs_idr (sem_ids demo_ns1)) 0)) 1 0 9)"

lemma demo_run3: "sysv_step\<^sup>*\<^sup>* (sem_init_ns Init_user_ns, []) (demo_ns3, [])"
proof -
  let ?s = "the (idr_find (ipcs_idr (sem_ids demo_ns1)) 0)"
  have one: "sysv_step (sem_init_ns Init_user_ns, []) (demo_ns1, [])" by (rule sysv_step.semget [OF demo_ns1_eq])
  have "add_undo demo_ns1 ?s 1 0 9 = (fst (add_undo demo_ns1 ?s 1 0 9), demo_ns3)" by (simp add: demo_ns3_def)
  then have two: "sysv_step (demo_ns1, []) (demo_ns3, [])"
    by (rule sysv_step.new_undo [rotated -1])
      (simp_all add: demo_ns1_idr idr_find_def same_object_def relock_def ipc_checkid_def ipcid_to_idx_def fresh_undo_def)
  show ?thesis using one two by (meson converse_rtranclp_into_rtranclp rtranclp.rtrancl_refl)
qed

theorem exit_sem_completes_witness:
  "list_proc demo_ns3 1 = [(9, 0)] \<and> (\<exists>ns'. exit_sem_loop 2 1 42 12 demo_ns3 = Some ns' \<and> list_proc ns' 1 = [])"
proof -
  have l: "list_proc demo_ns1 = (\<lambda>_. [])"
    unfolding demo_ns1_def by (simp add: sys_semget_def sem_init_ns_def ipc_init_ids_def ipcget_def ipcget_new_def newary_def ipc_addid_def Let_def)
  have "list_proc demo_ns3 1 = [(9, 0)]"
    unfolding demo_ns3_def
    by (simp add: add_undo_def relock_def demo_ns1_idr idr_find_def ipcid_to_idx_def lookup_undo_def do_lookup_undo_def l store_array_def)
  then show ?thesis using exit_sem_completes [OF demo_run3, of 1 42 12] by (auto simp: numeral_2_eq_2 undo_idle_def)
qed

end
