(* ===== verification/Msg_Queue.thy ===== *)
theory Msg_Queue
  imports Ipc_Ids
begin

text \<open>
  System V message queues, \<^verbatim>\<open>ipc/msg.c\<close> and \<^verbatim>\<open>ipc/msgutil.c\<close>.  A section under the lock of a queue is one function; a call
  that sleeps is continued by a function of its own (\<open>_resume\<close>).  The entries for sleeping senders and receivers
  lie on the stacks of their calls, so each is modelled with the local variables its call goes on with;
  \<open>running\<close> is whether \<^verbatim>\<open>wake_up_process\<close> was called since it went to sleep.  \<^verbatim>\<open>r_msg\<close> is \<^verbatim>\<open>-EAGAIN\<close> while the entry is
  in the queue; any other value is in \<open>r_msgs\<close> until the receiver picks it up.  The hooks of the security
  modules grant, as the default ones do.
\<close>

section \<open>Messages\<close>

record msg_msg =
  m_type :: int
  m_ts :: nat
  m_text :: "u8 list"
  m_next :: "u8 list list"

abbreviation (input) DATALEN_MSG :: nat where "DATALEN_MSG \<equiv> 4072"
abbreviation (input) DATALEN_SEG :: nat where "DATALEN_SEG \<equiv> 4092"

text \<open>
  \<open>src\<close> are the bytes that can be read at the user's address; \<open>mem k\<close> is whether the allocation of part \<open>k\<close> succeeds.
\<close>

fun load_segs :: "(nat \<Rightarrow> bool) \<Rightarrow> nat \<Rightarrow> u8 list \<Rightarrow> nat \<Rightarrow> u8 list list kresult" where
  "load_segs mem k src 0 = Inr []"
| "load_segs mem k src (Suc n) =
     (let len = Suc n; alen = (if len > DATALEN_SEG then DATALEN_SEG else len)
      in if \<not> mem k then Inl ENOMEM
         else if alen > length src then Inl EFAULT
         else (case load_segs mem (Suc k) (drop alen src) (len - alen) of
                 Inl e \<Rightarrow> Inl e
               | Inr segs \<Rightarrow> Inr (take alen src # segs)))"

definition load_msg :: "(nat \<Rightarrow> bool) \<Rightarrow> u8 list \<Rightarrow> nat \<Rightarrow> msg_msg kresult" where
  "load_msg mem src len =
     (let alen = (if len > DATALEN_MSG then DATALEN_MSG else len)
      in if \<not> mem 0 then Inl ENOMEM
         else if alen > length src then Inl EFAULT
         else (case load_segs mem 1 (drop alen src) (len - alen) of
                 Inl e \<Rightarrow> Inl e
               | Inr segs \<Rightarrow> Inr \<lparr>m_type = 0, m_ts = 0, m_text = take alen src, m_next = segs\<rparr>))"

text \<open>
  \<open>room\<close> is how many bytes can be written at the user's address.  The result is what was written and whether all of it was;
  a missing segment is \<open>None\<close>.
\<close>

fun store_segs :: "nat \<Rightarrow> u8 list list \<Rightarrow> nat \<Rightarrow> (u8 list \<times> bool) option" where
  "store_segs room segs 0 = Some ([], True)"
| "store_segs room [] (Suc n) = None"
| "store_segs room (seg # segs) (Suc n) =
     (let len = Suc n; alen = (if len > DATALEN_SEG then DATALEN_SEG else len)
      in if alen > room then Some ([], False)
         else (case store_segs (room - alen) segs (len - alen) of
                 None \<Rightarrow> None
               | Some (out, ok) \<Rightarrow> Some (take alen seg @ out, ok)))"

definition store_msg :: "nat \<Rightarrow> msg_msg \<Rightarrow> nat \<Rightarrow> (u8 list \<times> bool) option" where
  "store_msg room msg len =
     (let alen = (if len > DATALEN_MSG then DATALEN_MSG else len)
      in if alen > room then Some ([], False)
         else (case store_segs (room - alen) (m_next msg) (len - alen) of
                 None \<Rightarrow> None
               | Some (out, ok) \<Rightarrow> Some (take alen (m_text msg) @ out, ok)))"

section \<open>Queues\<close>

datatype search_mode = SEARCH_ANY | SEARCH_EQUAL | SEARCH_NOTEQUAL | SEARCH_LESSEQUAL

record msg_receiver =
  r_id :: nat
  r_pid :: int
  r_mode :: search_mode
  r_msgtype :: int
  r_maxsize :: nat
  r_msgsz :: u32
  r_flg :: u32
  r_running :: bool

record msg_sender =
  s_id :: nat
  s_pid :: int
  s_msg :: msg_msg
  s_flg :: u32
  s_running :: bool

record msg_queue = kern_ipc_perm +
  q_stime :: int
  q_rtime :: int
  q_ctime :: int
  q_cbytes :: u32
  q_qnum :: u32
  q_qbytes :: u32
  q_lspid :: int
  q_lrpid :: int
  q_messages :: "msg_msg list"
  q_receivers :: "msg_receiver list"
  q_senders :: "msg_sender list"

text \<open>\<open>r_msgs\<close> are the results of receivers no longer in a queue, \<open>s_killed\<close> the senders whose queue was removed.\<close>

record msg_namespace =
  msg_ids :: "msg_queue ipc_ids"
  msg_ctlmax :: int
  msg_ctlmnb :: int
  msg_ctlmni :: int
  msg_bytes :: u32
  msg_hdrs :: u32
  msg_user_ns :: user_namespace
  r_msgs :: "(msg_receiver \<times> msg_msg kresult) list"
  s_killed :: "msg_sender list"

abbreviation (input) MSGMNI :: int where "MSGMNI \<equiv> 16"
abbreviation (input) MSGMAX :: int where "MSGMAX \<equiv> 8192"
abbreviation (input) MSGMNB :: int where "MSGMNB \<equiv> 16384"
abbreviation (input) MSG_NOERROR :: u32 where "MSG_NOERROR \<equiv> 0x1000"
abbreviation (input) MSG_EXCEPT :: u32 where "MSG_EXCEPT \<equiv> 0x2000"
abbreviation (input) MSG_NOWAIT :: u32 where "MSG_NOWAIT \<equiv> 0x800"
abbreviation (input) CAP_SYS_RESOURCE :: nat where "CAP_SYS_RESOURCE \<equiv> 24"

text \<open>\<open>lowmem\<close> is \<^verbatim>\<open>i.totalram - i.totalhigh\<close>, in units of \<open>mem_unit\<close> bytes.\<close>

definition recompute_msgmni :: "u32 \<Rightarrow> u32 \<Rightarrow> int \<Rightarrow> msg_namespace \<Rightarrow> msg_namespace" where
  "recompute_msgmni lowmem mem_unit nb_ns ns =
     (let allowed = ((lowmem div 32) * mem_unit) div 16384 div word_of_int nb_ns
      in if allowed < 16 then ns\<lparr>msg_ctlmni := MSGMNI\<rparr>
         else if allowed > word_of_int (IPCMNI div nb_ns) then ns\<lparr>msg_ctlmni := IPCMNI div nb_ns\<rparr>
         else ns\<lparr>msg_ctlmni := uint allowed\<rparr>)"

definition msg_init_ns :: "u32 \<Rightarrow> u32 \<Rightarrow> int \<Rightarrow> user_namespace \<Rightarrow> msg_namespace" where
  "msg_init_ns lowmem mem_unit nb_ns uns =
     recompute_msgmni lowmem mem_unit nb_ns
       \<lparr>msg_ids = ipc_init_ids, msg_ctlmax = MSGMAX, msg_ctlmnb = MSGMNB, msg_ctlmni = 0, msg_bytes = 0, msg_hdrs = 0,
        msg_user_ns = uns, r_msgs = [], s_killed = []\<rparr>"

definition msg_lock :: "msg_namespace \<Rightarrow> int \<Rightarrow> msg_queue kresult" where
  "msg_lock ns i = ipc_lock (msg_ids ns) i"

definition msg_lock_check :: "msg_namespace \<Rightarrow> int \<Rightarrow> msg_queue kresult" where
  "msg_lock_check ns i = ipc_lock_check (msg_ids ns) i"

definition store_queue :: "msg_namespace \<Rightarrow> msg_queue \<Rightarrow> msg_namespace" where
  "store_queue ns msq =
     ns\<lparr>msg_ids := (msg_ids ns)\<lparr>ipcs_idr := (ipcs_idr (msg_ids ns))[ipcid_to_idx (perm_id msq) := Some msq]\<rparr>\<rparr>"

definition new_queue :: "ipc_params \<Rightarrow> msg_namespace \<Rightarrow> int \<Rightarrow> msg_queue" where
  "new_queue params ns now =
     \<lparr>perm_id = 0, perm_key = par_key params, perm_uid = 0, perm_gid = 0, perm_cuid = 0, perm_cgid = 0,
      perm_mode = par_flg params AND S_IRWXUGO, perm_seq = 0,
      q_stime = 0, q_rtime = 0, q_ctime = now, q_cbytes = 0, q_qnum = 0, q_qbytes = word_of_int (msg_ctlmnb ns), q_lspid = 0, q_lrpid = 0,
      q_messages = [], q_receivers = [], q_senders = []\<rparr>"

definition newque :: "ipc_params \<Rightarrow> bool \<Rightarrow> cred \<Rightarrow> int \<Rightarrow> msg_namespace \<Rightarrow> int kresult \<times> msg_namespace" where
  "newque params alloc cr now ns =
     (if \<not> alloc then (Inl ENOMEM, ns)
      else (case ipc_addid (msg_ids ns) (new_queue params ns now) (msg_ctlmni ns) cr of
              Inl e \<Rightarrow> (Inl e, ns)
            | Inr (msq, ids) \<Rightarrow> (Inr (perm_id msq), ns\<lparr>msg_ids := ids\<rparr>)))"

definition sys_msgget :: "msg_namespace \<Rightarrow> int \<Rightarrow> u32 \<Rightarrow> bool \<Rightarrow> bool \<Rightarrow> int \<Rightarrow> task_struct \<Rightarrow> int kresult \<times> msg_namespace \<times> task_struct" where
  "sys_msgget ns key msgflg mem alloc now t =
     (let params = \<lparr>par_key = key, par_flg = msgflg, par_nsems = 0\<rparr>
      in ipcget mem (msg_user_ns ns) (newque params alloc (cur_cred t) now) (\<lambda>_ _. Ok) ns (msg_ids ns) params t)"

definition ss_add :: "msg_sender \<Rightarrow> msg_queue \<Rightarrow> msg_queue" where
  "ss_add mss msq = msq\<lparr>q_senders := q_senders msq @ [mss\<lparr>s_running := False\<rparr>]\<rparr>"

definition ss_del :: "msg_sender \<Rightarrow> msg_queue \<Rightarrow> msg_queue" where
  "ss_del mss msq = msq\<lparr>q_senders := filter (\<lambda>s. s_id s \<noteq> s_id mss) (q_senders msq)\<rparr>"

definition ss_wakeup :: "msg_sender list \<Rightarrow> msg_sender list" where
  "ss_wakeup h = map (\<lambda>s. s\<lparr>s_running := True\<rparr>) h"

text \<open>With \<^verbatim>\<open>-EAGAIN\<close> the receivers stay in the queue; with \<^verbatim>\<open>-EIDRM\<close> the queue goes away.\<close>

definition expunge_all :: "errno \<Rightarrow> msg_receiver list \<Rightarrow> msg_receiver list \<times> (msg_receiver \<times> msg_msg kresult) list" where
  "expunge_all res rs =
     (if res = EAGAIN then (map (\<lambda>r. r\<lparr>r_running := True\<rparr>) rs, [])
      else ([], map (\<lambda>r. (r\<lparr>r_running := True\<rparr>, Inl res)) rs))"

definition freeque :: "msg_namespace \<Rightarrow> msg_queue \<Rightarrow> msg_namespace" where
  "freeque ns msq =
     ns\<lparr>r_msgs := r_msgs ns @ snd (expunge_all EIDRM (q_receivers msq)),
        s_killed := s_killed ns @ ss_wakeup (q_senders msq),
        msg_ids := ipc_rmid (msg_ids ns) msq,
        msg_hdrs := msg_hdrs ns - of_nat (length (q_messages msq)),
        msg_bytes := msg_bytes ns - q_cbytes msq\<rparr>"

section \<open>msgctl\<close>

definition msgctl_down ::
  "msg_namespace \<Rightarrow> int \<Rightarrow> int \<Rightarrow> (u32 \<times> u32 \<times> u32 \<times> u32) option \<Rightarrow> int \<Rightarrow> task_struct \<Rightarrow> unit kresult \<times> msg_namespace \<times> task_struct" where
  \<comment> \<open>\<^verbatim>\<open>IPC_RMID\<close> 0, \<^verbatim>\<open>IPC_SET\<close> 1; the user's structure as user, group, mode and \<^verbatim>\<open>msg_qbytes\<close>\<close>
  "msgctl_down ns msqid cmd buf now t =
     (if cmd = 1 \<and> buf = None then (Inl EFAULT, ns, t)
      else (case ipcctl_pre_down (msg_user_ns ns) (msg_ids ns) msqid t of
              (Inl e, t1) \<Rightarrow> (Inl e, ns, t1)
            | (Inr msq, t1) \<Rightarrow>
                if cmd = 0 then (Ok, freeque ns msq, t1)
                else if cmd = 1
                then (let (u, g, m, qbytes) = the buf;
                          (b, t2) = (if qbytes > word_of_int (msg_ctlmnb ns) then capable CAP_SYS_RESOURCE t1 else (True, t1))
                      in if \<not> b then (Inl EPERM, ns, t2)
                         else (Ok, store_queue ns ((ipc_update_perm u g m (msq\<lparr>q_qbytes := qbytes\<rparr>))
                                 \<lparr>q_ctime := now, q_receivers := fst (expunge_all EAGAIN (q_receivers msq)), q_senders := ss_wakeup (q_senders msq)\<rparr>), t2))
                else (Inl EINVAL, ns, t1)))"

definition msg_info :: "msg_namespace \<Rightarrow> bool \<Rightarrow> int list" where
  \<comment> \<open>\<^verbatim>\<open>msgpool\<close>, \<^verbatim>\<open>msgmap\<close>, \<^verbatim>\<open>msgmax\<close>, \<^verbatim>\<open>msgmnb\<close>, \<^verbatim>\<open>msgmni\<close>, \<^verbatim>\<open>msgssz\<close>, \<^verbatim>\<open>msgtql\<close>, \<^verbatim>\<open>msgseg\<close>\<close>
  "msg_info ns actual =
     [if actual then in_use (msg_ids ns) else MSGMNI * MSGMNB div 1024,
      if actual then sint (msg_hdrs ns) else MSGMNB,
      msg_ctlmax ns, msg_ctlmnb ns, msg_ctlmni ns, 16,
      if actual then sint (msg_bytes ns) else MSGMNB, 16384]"

definition sys_msgctl ::
  "msg_namespace \<Rightarrow> int \<Rightarrow> int \<Rightarrow> (u32 \<times> u32 \<times> u32 \<times> u32) option \<Rightarrow> bool option \<Rightarrow> int \<Rightarrow> task_struct \<Rightarrow>
   (int \<times> int list) kresult \<times> msg_namespace \<times> task_struct" where
  \<comment> \<open>\<open>writable\<close> is \<open>None\<close> for a null pointer; \<^verbatim>\<open>IPC_STAT\<close> 2, \<^verbatim>\<open>IPC_INFO\<close> 3, \<^verbatim>\<open>MSG_STAT\<close> 11, \<^verbatim>\<open>MSG_INFO\<close> 12\<close>
  "sys_msgctl ns msqid cmd buf writable now t =
     (if msqid < 0 \<or> cmd < 0 then (Inl EINVAL, ns, t)
      else (let (version, cmd) = ipc_parse_version cmd
            in if (cmd = 3 \<or> cmd = 12 \<or> cmd = 11 \<or> cmd = 2) \<and> writable = None then (Inl EFAULT, ns, t)
               else if cmd = 3 \<or> cmd = 12
               then (let max_id = ipc_get_maxid (msg_ids ns)
                     in (if writable = Some True then Inr (if max_id < 0 then 0 else max_id, msg_info ns (cmd = 12)) else Inl EFAULT, ns, t))
               else if cmd = 11 \<or> cmd = 2
               then (case (if cmd = 11 then msg_lock ns msqid else msg_lock_check ns msqid) of
                       Inl e \<Rightarrow> (Inl e, ns, t)
                     | Inr msq \<Rightarrow>
                        (let (b, t1) = ipcperms (msg_user_ns ns) msq S_IRUGO t
                         in (if \<not> b then Inl EACCES
                             else if writable \<noteq> Some True then Inl EFAULT
                             else Inr (if cmd = 11 then perm_id msq else 0,
                                       [perm_key msq, uint (perm_uid msq), uint (perm_gid msq), uint (perm_cuid msq), uint (perm_cgid msq),
                                        uint (perm_mode msq), perm_seq msq, q_stime msq, q_rtime msq, q_ctime msq, uint (q_cbytes msq),
                                        uint (q_qnum msq), uint (q_qbytes msq), q_lspid msq, q_lrpid msq]), ns, t1)))
               else if cmd = 1 \<or> cmd = 0
               then (let (r, ns', t1) = msgctl_down ns msqid cmd buf now t in (map_sum (\<lambda>e. e) (\<lambda>_. (0, [])) r, ns', t1))
               else (Inl EINVAL, ns, t)))"

section \<open>Sending\<close>

definition testmsg :: "msg_msg \<Rightarrow> int \<Rightarrow> search_mode \<Rightarrow> bool" where
  "testmsg msg typ mode =
     (case mode of
        SEARCH_ANY \<Rightarrow> True
      | SEARCH_LESSEQUAL \<Rightarrow> m_type msg \<le> typ
      | SEARCH_EQUAL \<Rightarrow> m_type msg = typ
      | SEARCH_NOTEQUAL \<Rightarrow> m_type msg \<noteq> typ)"

text \<open>The receivers that stay, the results of those that leave, and the one that got the message.\<close>

fun pipelined_send :: "msg_msg \<Rightarrow> msg_receiver list \<Rightarrow> msg_receiver list \<times> (msg_receiver \<times> msg_msg kresult) list \<times> msg_receiver option" where
  "pipelined_send msg [] = ([], [], None)"
| "pipelined_send msg (msr # rs) =
     (if testmsg msg (r_msgtype msr) (r_mode msr)
      then if r_maxsize msr < m_ts msg
           then (let (rs', res, taker) = pipelined_send msg rs in (rs', (msr\<lparr>r_running := True\<rparr>, Inl E2BIG) # res, taker))
           else (rs, [(msr\<lparr>r_running := True\<rparr>, Inr msg)], Some msr)
      else (let (rs', res, taker) = pipelined_send msg rs in (msr # rs', res, taker)))"

datatype snd_outcome = Snd_ret "unit kresult" | Snd_sleeps

definition msg_fits :: "u32 \<Rightarrow> msg_queue \<Rightarrow> bool" where
  "msg_fits msgsz msq \<longleftrightarrow> msgsz + q_cbytes msq \<le> q_qbytes msq \<and> 1 + q_qnum msq \<le> q_qbytes msq"

definition msgsnd_deliver :: "msg_namespace \<Rightarrow> msg_queue \<Rightarrow> msg_msg \<Rightarrow> int \<Rightarrow> int \<Rightarrow> msg_namespace" where
  "msgsnd_deliver ns msq msg pid now =
     (let msq1 = msq\<lparr>q_lspid := pid, q_stime := now\<rparr>;
          (rs, res, taker) = pipelined_send msg (q_receivers msq);
          ns1 = ns\<lparr>r_msgs := r_msgs ns @ res\<rparr>
      in case taker of
           Some msr \<Rightarrow> store_queue ns1 (msq1\<lparr>q_receivers := rs, q_lrpid := r_pid msr, q_rtime := now\<rparr>)
         | None \<Rightarrow>
             (store_queue ns1 (msq1\<lparr>q_receivers := rs, q_messages := q_messages msq @ [msg],
                                    q_cbytes := q_cbytes msq + of_nat (m_ts msg), q_qnum := q_qnum msq + 1\<rparr>))
               \<lparr>msg_bytes := msg_bytes ns + of_nat (m_ts msg), msg_hdrs := msg_hdrs ns + 1\<rparr>)"

text \<open>One turn of the loop of \<^verbatim>\<open>do_msgsnd\<close>, from the check of the permissions until the call returns or sleeps.\<close>

definition msgsnd_locked ::
  "msg_namespace \<Rightarrow> msg_queue \<Rightarrow> msg_msg \<Rightarrow> u32 \<Rightarrow> nat \<Rightarrow> int \<Rightarrow> int \<Rightarrow> task_struct \<Rightarrow> snd_outcome \<times> msg_namespace \<times> task_struct" where
  "msgsnd_locked ns msq msg msgflg i pid now t =
     (let (b, t1) = ipcperms (msg_user_ns ns) msq S_IWUGO t
      in if \<not> b then (Snd_ret (Inl EACCES), ns, t1)
         else if msg_fits (of_nat (m_ts msg)) msq then (Snd_ret Ok, msgsnd_deliver ns msq msg pid now, t1)
         else if msgflg AND MSG_NOWAIT \<noteq> 0 then (Snd_ret (Inl EAGAIN), ns, t1)
         else (Snd_sleeps, store_queue ns (ss_add \<lparr>s_id = i, s_pid = pid, s_msg = msg, s_flg = msgflg, s_running = False\<rparr> msq), t1))"

definition do_msgsnd ::
  "msg_namespace \<Rightarrow> int \<Rightarrow> int \<Rightarrow> (nat \<Rightarrow> bool) \<Rightarrow> u8 list \<Rightarrow> u32 \<Rightarrow> u32 \<Rightarrow> nat \<Rightarrow> int \<Rightarrow> int \<Rightarrow> task_struct \<Rightarrow> snd_outcome \<times> msg_namespace \<times> task_struct" where
  "do_msgsnd ns msqid mtype mem mtext msgsz msgflg i pid now t =
     (if msgsz > word_of_int (msg_ctlmax ns) \<or> sint msgsz < 0 \<or> msqid < 0 then (Snd_ret (Inl EINVAL), ns, t)
      else if mtype < 1 then (Snd_ret (Inl EINVAL), ns, t)
      else (case load_msg mem mtext (unat msgsz) of
              Inl e \<Rightarrow> (Snd_ret (Inl e), ns, t)
            | Inr msg \<Rightarrow>
               (case msg_lock_check ns msqid of
                  Inl e \<Rightarrow> (Snd_ret (Inl e), ns, t)
                | Inr msq \<Rightarrow> msgsnd_locked ns msq (msg\<lparr>m_type := mtype, m_ts := unat msgsz\<rparr>) msgflg i pid now t)))"

definition sys_msgsnd ::
  "msg_namespace \<Rightarrow> int \<Rightarrow> int option \<Rightarrow> (nat \<Rightarrow> bool) \<Rightarrow> u8 list \<Rightarrow> u32 \<Rightarrow> u32 \<Rightarrow> nat \<Rightarrow> int \<Rightarrow> int \<Rightarrow> task_struct \<Rightarrow> snd_outcome \<times> msg_namespace \<times> task_struct" where
  \<comment> \<open>\<open>mtype\<close> is \<open>None\<close> if it cannot be read\<close>
  "sys_msgsnd ns msqid mtype mem mtext msgsz msgflg i pid now t =
     (case mtype of
        None \<Rightarrow> (Snd_ret (Inl EFAULT), ns, t)
      | Some ty \<Rightarrow> do_msgsnd ns msqid ty mem mtext msgsz msgflg i pid now t)"

text \<open>The rest of the loop after \<^verbatim>\<open>schedule\<close>, for a sender whose queue \<open>msq\<close> is still there, and for one whose queue is not.\<close>

definition msgsnd_resume :: "msg_namespace \<Rightarrow> msg_queue \<Rightarrow> msg_sender \<Rightarrow> bool \<Rightarrow> int \<Rightarrow> task_struct \<Rightarrow> snd_outcome \<times> msg_namespace \<times> task_struct" where
  "msgsnd_resume ns msq mss sig now t =
     (let msq1 = ss_del mss msq; ns1 = store_queue ns msq1
      in if sig then (Snd_ret (Inl ERESTARTNOHAND), ns1, t)
         else msgsnd_locked ns1 msq1 (s_msg mss) (s_flg mss) (s_id mss) (s_pid mss) now t)"

definition msgsnd_deleted :: "msg_namespace \<Rightarrow> msg_sender \<Rightarrow> snd_outcome \<times> msg_namespace" where
  "msgsnd_deleted ns mss = (Snd_ret (Inl EIDRM), ns\<lparr>s_killed := filter (\<lambda>s. s_id s \<noteq> s_id mss) (s_killed ns)\<rparr>)"

section \<open>Receiving\<close>

text \<open>A \<^verbatim>\<open>long\<close> has 32 bits: the negation of the smallest wraps.\<close>

definition convert_mode :: "int \<Rightarrow> u32 \<Rightarrow> search_mode \<times> int" where
  "convert_mode msgtyp msgflg =
     (if msgtyp = 0 then (SEARCH_ANY, msgtyp)
      else if msgtyp < 0 then (SEARCH_LESSEQUAL, wrap_s 32 (- msgtyp))
      else if msgflg AND MSG_EXCEPT \<noteq> 0 then (SEARCH_NOTEQUAL, msgtyp)
      else (SEARCH_EQUAL, msgtyp))"

text \<open>The search through the queue; \<open>found\<close> is the position of the best message so far, and \<open>i\<close> that of the first of the rest.\<close>

fun rcv_scan :: "search_mode \<Rightarrow> int \<Rightarrow> nat \<Rightarrow> nat option \<Rightarrow> msg_msg list \<Rightarrow> nat option" where
  "rcv_scan mode typ i found [] = found"
| "rcv_scan mode typ i found (m # ms) =
     (if testmsg m typ mode
      then if mode = SEARCH_LESSEQUAL \<and> m_type m \<noteq> 1 then rcv_scan mode (m_type m - 1) (Suc i) (Some i) ms else Some i
      else rcv_scan mode typ (Suc i) found ms)"

datatype rcv_outcome = Rcv_ret "msg_msg kresult" | Rcv_sleeps

definition msgrcv_take :: "msg_namespace \<Rightarrow> msg_queue \<Rightarrow> nat \<Rightarrow> int \<Rightarrow> int \<Rightarrow> msg_namespace" where
  "msgrcv_take ns msq j pid now =
     (let msg = q_messages msq ! j
      in (store_queue ns (msq\<lparr>q_messages := take j (q_messages msq) @ drop (Suc j) (q_messages msq), q_qnum := q_qnum msq - 1,
                              q_rtime := now, q_lrpid := pid, q_cbytes := q_cbytes msq - of_nat (m_ts msg),
                              q_senders := ss_wakeup (q_senders msq)\<rparr>))
           \<lparr>msg_bytes := msg_bytes ns - of_nat (m_ts msg), msg_hdrs := msg_hdrs ns - 1\<rparr>)"

definition msgrcv_locked ::
  "msg_namespace \<Rightarrow> msg_queue \<Rightarrow> u32 \<Rightarrow> int \<Rightarrow> search_mode \<Rightarrow> u32 \<Rightarrow> nat \<Rightarrow> int \<Rightarrow> int \<Rightarrow> task_struct \<Rightarrow> rcv_outcome \<times> msg_namespace \<times> task_struct" where
  "msgrcv_locked ns msq msgsz msgtyp mode msgflg i pid now t =
     (let (b, t1) = ipcperms (msg_user_ns ns) msq S_IRUGO t
      in if \<not> b then (Rcv_ret (Inl EACCES), ns, t1)
         else (case rcv_scan mode msgtyp 0 None (q_messages msq) of
                 Some j \<Rightarrow>
                   if unat msgsz < m_ts (q_messages msq ! j) \<and> msgflg AND MSG_NOERROR = 0 then (Rcv_ret (Inl E2BIG), ns, t1)
                   else (Rcv_ret (Inr (q_messages msq ! j)), msgrcv_take ns msq j pid now, t1)
               | None \<Rightarrow>
                   if msgflg AND MSG_NOWAIT \<noteq> 0 then (Rcv_ret (Inl ENOMSG), ns, t1)
                   else (let msr = \<lparr>r_id = i, r_pid = pid, r_mode = mode, r_msgtype = msgtyp,
                                    r_maxsize = (if msgflg AND MSG_NOERROR \<noteq> 0 then 2147483647 else unat msgsz),
                                    r_msgsz = msgsz, r_flg = msgflg, r_running = False\<rparr>
                         in (Rcv_sleeps, store_queue ns (msq\<lparr>q_receivers := q_receivers msq @ [msr]\<rparr>), t1))))"

definition do_msgrcv ::
  "msg_namespace \<Rightarrow> int \<Rightarrow> u32 \<Rightarrow> int \<Rightarrow> u32 \<Rightarrow> nat \<Rightarrow> int \<Rightarrow> int \<Rightarrow> task_struct \<Rightarrow> rcv_outcome \<times> msg_namespace \<times> task_struct" where
  "do_msgrcv ns msqid msgsz msgtyp msgflg i pid now t =
     (if msqid < 0 \<or> sint msgsz < 0 then (Rcv_ret (Inl EINVAL), ns, t)
      else (let (mode, typ) = convert_mode msgtyp msgflg
            in case msg_lock_check ns msqid of
                 Inl e \<Rightarrow> (Rcv_ret (Inl e), ns, t)
               | Inr msq \<Rightarrow> msgrcv_locked ns msq msgsz typ mode msgflg i pid now t))"

text \<open>After \<^verbatim>\<open>schedule\<close>: with \<^verbatim>\<open>r_msg\<close> still \<^verbatim>\<open>-EAGAIN\<close>, where the entry is in the queue \<open>msq\<close>, and with a result.\<close>

definition msgrcv_resume :: "msg_namespace \<Rightarrow> msg_queue \<Rightarrow> msg_receiver \<Rightarrow> bool \<Rightarrow> int \<Rightarrow> task_struct \<Rightarrow> rcv_outcome \<times> msg_namespace \<times> task_struct" where
  "msgrcv_resume ns msq msr sig now t =
     (let msq1 = msq\<lparr>q_receivers := filter (\<lambda>r. r_id r \<noteq> r_id msr) (q_receivers msq)\<rparr>; ns1 = store_queue ns msq1
      in if sig then (Rcv_ret (Inl ERESTARTNOHAND), ns1, t)
         else msgrcv_locked ns1 msq1 (r_msgsz msr) (r_msgtype msr) (r_mode msr) (r_flg msr) (r_id msr) (r_pid msr) now t)"

definition msgrcv_lockless :: "msg_namespace \<Rightarrow> msg_receiver \<Rightarrow> msg_msg kresult \<Rightarrow> rcv_outcome \<times> msg_namespace" where
  "msgrcv_lockless ns msr res = (Rcv_ret res, ns\<lparr>r_msgs := filter (\<lambda>(r, _). r_id r \<noteq> r_id msr) (r_msgs ns)\<rparr>)"

text \<open>The end of \<^verbatim>\<open>do_msgrcv\<close> and \<^verbatim>\<open>msgrcv\<close>: the type and the bytes that the caller gets.\<close>

definition msgrcv_finish :: "msg_msg \<Rightarrow> u32 \<Rightarrow> nat \<Rightarrow> bool \<Rightarrow> (int \<times> u8 list) kresult option" where
  "msgrcv_finish msg msgsz room type_writable =
     (let n = (if unat msgsz > m_ts msg then m_ts msg else unat msgsz)
      in case store_msg room msg n of
           None \<Rightarrow> None
         | Some (out, ok) \<Rightarrow> Some (if ok \<and> type_writable then Inr (m_type msg, out) else Inl EFAULT))"

end
