(* ===== verification/Msg_Contract.thy ===== *)
theory Msg_Contract
  imports Msg_Queue
begin

text \<open>
  What message queues promise: the bytes of a message survive its segments, the right message is received,
  the counts are exact, and nobody sleeps while what he waits for is there.
\<close>

section \<open>The bytes of a message\<close>

lemma load_segs_store:
  "load_segs mem k src n = Inr segs \<Longrightarrow> m \<le> n \<Longrightarrow> m \<le> room \<Longrightarrow> store_segs room segs m = Some (take m src, True)"
proof (induction mem k src n arbitrary: segs m room rule: load_segs.induct)
  case (2 mem k src n)
  let ?len = "Suc n" and ?alen = "if Suc n > DATALEN_SEG then DATALEN_SEG else Suc n"
  from "2.prems"(1) obtain segs' where s: "segs = take ?alen src # segs'" "load_segs mem (Suc k) (drop ?alen src) (?len - ?alen) = Inr segs'"
      "mem k" "\<not> ?alen > length src"
    by (auto simp: Let_def split: if_splits sum.splits)
  show ?case
  proof (cases m)
    case (Suc m')
    show ?thesis
    proof (cases "m > DATALEN_SEG")
      case True
      then have n: "Suc n > DATALEN_SEG" using "2.prems"(2) by simp
      have "store_segs (room - DATALEN_SEG) segs' (m - DATALEN_SEG) = Some (take (m - DATALEN_SEG) (drop DATALEN_SEG src), True)"
        using "2.IH" [OF refl refl _ _ s(2), of "m - DATALEN_SEG" "room - DATALEN_SEG"] s(3,4) "2.prems"(2,3) n by simp
      moreover have "take DATALEN_SEG src @ take (m - DATALEN_SEG) (drop DATALEN_SEG src) = take m src"
        using True by (simp add: take_add [symmetric])
      ultimately show ?thesis using Suc s(1) "2.prems"(3) True n by (simp add: Let_def)
    next
      case False
      then have "take m (take ?alen src) = take m src" using "2.prems"(2) by (simp add: min_def)
      then show ?thesis using Suc s(1) "2.prems"(3) False by (simp add: Let_def)
    qed
  qed simp
qed simp

lemma load_msg_store:
  assumes "load_msg mem src len = Inr msg" and "m \<le> len" and "m \<le> room"
  shows "store_msg room (msg\<lparr>m_type := ty, m_ts := ts\<rparr>) m = Some (take m src, True)"
proof -
  let ?alen = "if len > DATALEN_MSG then DATALEN_MSG else len" and ?b = "if m > DATALEN_MSG then DATALEN_MSG else m"
  obtain segs where s: "msg = \<lparr>m_type = 0, m_ts = 0, m_text = take ?alen src, m_next = segs\<rparr>" "load_segs mem 1 (drop ?alen src) (len - ?alen) = Inr segs"
    using assms(1) by (auto simp: load_msg_def Let_def split: if_splits sum.splits)
  have rest: "store_segs (room - ?b) segs (m - ?b) = Some (take (m - ?b) (drop ?alen src), True)"
    using load_segs_store [OF s(2), of "m - ?b" "room - ?b"] assms(2,3) by (cases "m > DATALEN_MSG") auto
  have "take ?b (take ?alen src) @ take (m - ?b) (drop ?alen src) = take m src"
  proof (cases "m > DATALEN_MSG")
    case True
    then show ?thesis using assms(2) by (simp add: take_add [symmetric])
  next
    case False
    then show ?thesis using assms(2) by (simp add: min_def)
  qed
  then show ?thesis using rest s(1) assms(3) by (simp add: store_msg_def Let_def)
qed

lemma load_segs_total: "(\<forall>k. mem k) \<Longrightarrow> n \<le> length src \<Longrightarrow> \<exists>segs. load_segs mem k src n = Inr segs"
proof (induction mem k src n rule: load_segs.induct)
  case (2 mem k src n)
  let ?alen = "if Suc n > DATALEN_SEG then DATALEN_SEG else Suc n"
  obtain segs where "load_segs mem (Suc k) (drop ?alen src) (Suc n - ?alen) = Inr segs"
    using "2.IH" [OF refl refl] "2.prems" by fastforce
  moreover have "mem k" using "2.prems"(1) by blast
  ultimately show ?case using "2.prems"(2) by (auto simp: Let_def)
qed simp

lemma load_msg_total:
  assumes "\<forall>k. mem k" and "len \<le> length src"
  shows "\<exists>msg. load_msg mem src len = Inr msg"
proof -
  let ?alen = "if len > DATALEN_MSG then DATALEN_MSG else len"
  obtain segs where "load_segs mem 1 (drop ?alen src) (len - ?alen) = Inr segs"
    using load_segs_total [of mem "len - ?alen" "drop ?alen src" 1] assms by (auto simp: diff_le_mono)
  moreover have "mem 0" using assms(1) by blast
  ultimately show ?thesis using assms(2) by (auto simp: load_msg_def Let_def)
qed

text \<open>
  C40: The text of a message is received as it was sent.  When memory is there and the sender's text can be read, \<^verbatim>\<open>load_msg\<close>
  succeeds, also for texts of many segments, and the receiver gets the type and the first \<^verbatim>\<open>msgsz\<close> bytes of the text.
\<close>

theorem msg_text_roundtrip:
  assumes "\<forall>k. mem k" and "len \<le> length src" and "min len (unat msgsz) \<le> room"
  shows "\<exists>msg. load_msg mem src len = Inr msg \<and>
    msgrcv_finish (msg\<lparr>m_type := ty, m_ts := len\<rparr>) msgsz room True = Some (Inr (ty, take (min len (unat msgsz)) src))"
proof -
  obtain msg where m: "load_msg mem src len = Inr msg" using load_msg_total [OF assms(1,2)] by blast
  have "msgrcv_finish (msg\<lparr>m_type := ty, m_ts := len\<rparr>) msgsz room True = Some (Inr (ty, take (min len (unat msgsz)) src))"
    unfolding msgrcv_finish_def Let_def using load_msg_store [OF m _ assms(3), where ty = ty and ts = len]
    by (cases "len < unat msgsz") (simp_all add: not_less min_absorb2)
  then show ?thesis using m by blast
qed

theorem msg_text_roundtrip_witness:
  "\<exists>msg. load_msg (\<lambda>_. True) (replicate 5000 7) 5000 = Inr msg \<and>
    msgrcv_finish (msg\<lparr>m_type := 3, m_ts := 5000\<rparr>) 4500 4500 True = Some (Inr (3, take (min 5000 (unat (4500 :: u32))) (replicate 5000 7)))"
  by (rule msg_text_roundtrip) simp_all

section \<open>Which message is received\<close>

text \<open>
  Of the messages that the mode admits the first one, or for \<^verbatim>\<open>SEARCH_LESSEQUAL\<close> the first one of the lowest type.
\<close>

definition is_choice :: "search_mode \<Rightarrow> int \<Rightarrow> msg_msg list \<Rightarrow> nat \<Rightarrow> bool" where
  "is_choice mode mt ms j \<longleftrightarrow> j < length ms \<and> testmsg (ms ! j) mt mode \<and>
     (\<forall>i < length ms. testmsg (ms ! i) mt mode \<longrightarrow>
        (if mode = SEARCH_LESSEQUAL then m_type (ms ! j) \<le> m_type (ms ! i) \<and> (m_type (ms ! j) = m_type (ms ! i) \<longrightarrow> j \<le> i) else j \<le> i))"

definition rcv_scan_ok :: "search_mode \<Rightarrow> int \<Rightarrow> msg_msg list \<Rightarrow> nat option \<Rightarrow> bool" where
  "rcv_scan_ok mode mt ms r \<longleftrightarrow> (case r of None \<Rightarrow> \<forall>m \<in> set ms. \<not> testmsg m mt mode | Some j \<Rightarrow> is_choice mode mt ms j)"

lemma scan_first: "mode \<noteq> SEARCH_LESSEQUAL \<Longrightarrow> \<forall>m \<in> set pre. \<not> testmsg m mt mode \<Longrightarrow> rcv_scan_ok mode mt (pre @ ms) (rcv_scan mode mt (length pre) None ms)"
proof (induction ms arbitrary: pre)
  case Nil
  then show ?case by (simp add: rcv_scan_ok_def)
next
  case (Cons m ms)
  show ?case
  proof (cases "testmsg m mt mode")
    case True
    have "length pre \<le> i" if "testmsg ((pre @ m # ms) ! i) mt mode" for i
      using that Cons.prems(2) by (metis nth_append nth_mem not_le)
    then show ?thesis using True Cons.prems(1) by (simp add: rcv_scan_ok_def is_choice_def)
  next
    case False
    then show ?thesis using Cons.IH [of "pre @ [m]"] Cons.prems by simp
  qed
qed

lemma choice_snoc:
  assumes "is_choice SEARCH_LESSEQUAL mt pre j"
  shows "is_choice SEARCH_LESSEQUAL mt (pre @ [m]) (if m_type m < m_type (pre ! j) then length pre else j)"
  using assms by (auto simp: is_choice_def testmsg_def nth_append less_Suc_eq)

lemma choice_append:
  assumes "is_choice SEARCH_LESSEQUAL mt pre j" and "\<forall>m \<in> set ms. m_type (pre ! j) \<le> m_type m"
  shows "is_choice SEARCH_LESSEQUAL mt (pre @ ms) j"
proof -
  have "j < length pre" using assms(1) by (simp add: is_choice_def)
  moreover have "i < length pre \<or> m_type (pre ! j) \<le> m_type ((pre @ ms) ! i)" if "i < length (pre @ ms)" for i
    using that assms(2) by (auto simp: nth_append)
  ultimately show ?thesis using assms(1) unfolding is_choice_def by (fastforce simp: nth_append)
qed

definition scan_state :: "int \<Rightarrow> msg_msg list \<Rightarrow> int \<Rightarrow> nat option \<Rightarrow> bool" where
  "scan_state mt pre cur found \<longleftrightarrow>
     (case found of
        None \<Rightarrow> cur = mt \<and> (\<forall>m \<in> set pre. \<not> testmsg m mt SEARCH_LESSEQUAL)
      | Some j \<Rightarrow> is_choice SEARCH_LESSEQUAL mt pre j \<and> cur = m_type (pre ! j) - 1)"

lemma scan_state_hit:
  assumes "scan_state mt pre cur found" and "m_type m \<le> cur"
  shows "is_choice SEARCH_LESSEQUAL mt (pre @ [m]) (length pre)"
proof (cases found)
  case None
  then show ?thesis using assms by (auto simp: scan_state_def is_choice_def testmsg_def nth_append)
next
  case (Some j)
  then show ?thesis using assms choice_snoc [of mt pre j m] by (simp add: scan_state_def)
qed

lemma scan_state_miss:
  assumes "scan_state mt pre cur found" and "\<not> m_type m \<le> cur"
  shows "scan_state mt (pre @ [m]) cur found"
proof (cases found)
  case None
  then show ?thesis using assms by (auto simp: scan_state_def testmsg_def)
next
  case (Some j)
  then have "is_choice SEARCH_LESSEQUAL mt pre j" "cur = m_type (pre ! j) - 1" using assms(1) by (simp_all add: scan_state_def)
  then have "is_choice SEARCH_LESSEQUAL mt (pre @ [m]) j" "(pre @ [m]) ! j = pre ! j"
    using choice_snoc [of mt pre j m] assms(2) by (auto simp: is_choice_def nth_append)
  then show ?thesis using Some \<open>cur = m_type (pre ! j) - 1\<close> by (simp add: scan_state_def)
qed

lemma scan_lowest:
  assumes "\<forall>m \<in> set (pre @ ms). 1 \<le> m_type m" and "scan_state mt pre cur found"
  shows "rcv_scan_ok SEARCH_LESSEQUAL mt (pre @ ms) (rcv_scan SEARCH_LESSEQUAL cur (length pre) found ms)"
  using assms
proof (induction ms arbitrary: pre cur found)
  case Nil
  then show ?case by (auto simp: scan_state_def rcv_scan_ok_def split: option.splits)
next
  case (Cons m ms)
  show ?case
  proof (cases "m_type m \<le> cur")
    case True
    note hit = scan_state_hit [OF Cons.prems(2) True]
    show ?thesis
    proof (cases "m_type m = 1")
      case t1: True
      have "is_choice SEARCH_LESSEQUAL mt ((pre @ [m]) @ ms) (length pre)" using Cons.prems(1) t1 by (intro choice_append [OF hit]) simp
      then show ?thesis using True t1 by (simp add: rcv_scan_ok_def testmsg_def)
    next
      case False
      then have "scan_state mt (pre @ [m]) (m_type m - 1) (Some (length pre))" using hit by (simp add: scan_state_def)
      then show ?thesis using Cons.IH [of "pre @ [m]"] Cons.prems(1) True False by (simp add: testmsg_def)
    qed
  next
    case False
    then show ?thesis using Cons.IH [of "pre @ [m]" cur found] scan_state_miss [OF Cons.prems(2) False] Cons.prems(1) by (simp add: testmsg_def)
  qed
qed

lemma scan_exact:
  assumes "\<forall>m \<in> set ms. 1 \<le> m_type m"
  shows "rcv_scan_ok mode mt ms (rcv_scan mode mt 0 None ms)"
proof (cases "mode = SEARCH_LESSEQUAL")
  case True
  then show ?thesis using scan_lowest [of "[]" ms mt mt None] assms by (simp add: scan_state_def)
next
  case False
  then show ?thesis using scan_first [of mode "[]" mt ms] by simp
qed

text \<open>
  What a caller asks for, by the type and the flag he gives: any message for 0, a message of the type or with
  \<^verbatim>\<open>MSG_EXCEPT\<close> of another one for a positive type, and for a negative one a message whose type is at most its absolute value;
  of the latter the lowest type, and otherwise the first message.
\<close>

definition asked_for :: "int \<Rightarrow> u32 \<Rightarrow> msg_msg \<Rightarrow> bool" where
  "asked_for msgtyp msgflg m \<longleftrightarrow>
     msgtyp = 0 \<or> (msgtyp > 0 \<and> (m_type m = msgtyp \<longleftrightarrow> msgflg AND MSG_EXCEPT = 0)) \<or> (msgtyp < 0 \<and> m_type m \<le> - msgtyp)"

definition best_message :: "int \<Rightarrow> u32 \<Rightarrow> msg_msg list \<Rightarrow> nat \<Rightarrow> bool" where
  "best_message msgtyp msgflg ms j \<longleftrightarrow> j < length ms \<and> asked_for msgtyp msgflg (ms ! j) \<and>
     (\<forall>i < length ms. asked_for msgtyp msgflg (ms ! i) \<longrightarrow>
        (if msgtyp < 0 then m_type (ms ! j) < m_type (ms ! i) \<or> m_type (ms ! j) = m_type (ms ! i) \<and> j \<le> i else j \<le> i))"

lemma convert_mode_asked:
  assumes "convert_mode msgtyp msgflg = (mode, mt)" and "- (2 ^ 31) < msgtyp"
  shows "testmsg m mt mode = asked_for msgtyp msgflg m" and "mode = SEARCH_LESSEQUAL \<longleftrightarrow> msgtyp < 0"
proof -
  have "msgtyp < 0 \<Longrightarrow> wrap_s 32 (- msgtyp) = - msgtyp" using assms(2) by (simp add: wrap_s_def)
  then show "testmsg m mt mode = asked_for msgtyp msgflg m" and "mode = SEARCH_LESSEQUAL \<longleftrightarrow> msgtyp < 0"
    using assms by (auto simp: convert_mode_def asked_for_def testmsg_def split: if_splits)
qed

lemma scan_asked:
  assumes "convert_mode msgtyp msgflg = (mode, mt)" and "- (2 ^ 31) < msgtyp" and "\<forall>m \<in> set ms. 1 \<le> m_type m"
  shows "case rcv_scan mode mt 0 None ms of None \<Rightarrow> \<forall>m \<in> set ms. \<not> asked_for msgtyp msgflg m | Some j \<Rightarrow> best_message msgtyp msgflg ms j"
proof -
  note c = convert_mode_asked [OF assms(1,2)]
  have "best_message msgtyp msgflg ms j" if "is_choice mode mt ms j" for j
    using that unfolding best_message_def is_choice_def c by (cases "msgtyp < 0") (simp add: le_less, blast, simp)
  then show ?thesis using scan_exact [OF assms(3), of mode mt] by (auto simp: rcv_scan_ok_def c split: option.splits)
qed

text \<open>The negation of the least type wraps: a call that should accept every message accepts none.\<close>

lemma convert_mode_least: "convert_mode (- 2147483648) 0 = (SEARCH_LESSEQUAL, - 2147483648)"
  by (simp add: convert_mode_def wrap_s_def)

lemma least_type_finds_nothing:
  assumes "\<forall>m \<in> set ms. 1 \<le> m_type m"
  shows "(let (mode, mt) = convert_mode (- 2147483648) 0 in rcv_scan mode mt 0 None ms) = None"
proof -
  have "rcv_scan SEARCH_LESSEQUAL (- 2147483648) i None ms = None" for i using assms by (induction ms arbitrary: i) (auto simp: testmsg_def)
  then show ?thesis by (simp add: convert_mode_least)
qed

end
