(* ===== verification/Msg_Steps.thy ===== *)
theory Msg_Steps
  imports Msg_Contract
begin

text \<open>
  All calls on message queues interleaved: the step relation \<open>msg_step\<close>, its invariant and what follows from it.
\<close>

section \<open>The invariant\<close>

definition msg_total :: "msg_msg list \<Rightarrow> nat" where "msg_total ms = sum_list (map m_ts ms)"

definition counts_ok :: "msg_queue \<Rightarrow> bool" where
  "counts_ok q \<longleftrightarrow> (\<forall>m \<in> set (q_messages q). 1 \<le> m_type m) \<and> unat (q_qnum q) = length (q_messages q) \<and> unat (q_cbytes q) = msg_total (q_messages q) \<and>
     unat (q_qnum q) < 2 ^ 31 \<and> unat (q_cbytes q) < 2 ^ 31 \<and> unat (q_qbytes q) < 2 ^ 31"

text \<open>Nobody waits for a message that is there.\<close>

definition receivers_ok :: "msg_queue \<Rightarrow> bool" where
  "receivers_ok q \<longleftrightarrow> (\<forall>r \<in> set (q_receivers q). \<forall>m \<in> set (q_messages q). \<not> testmsg m (r_msgtype r) (r_mode r))"

definition fits_now :: "msg_msg \<Rightarrow> msg_queue \<Rightarrow> bool" where
  "fits_now m q \<longleftrightarrow> m_ts m + unat (q_cbytes q) \<le> unat (q_qbytes q) \<and> 1 + unat (q_qnum q) \<le> unat (q_qbytes q)"

definition message_ok :: "msg_msg \<Rightarrow> bool" where "message_ok m \<longleftrightarrow> 1 \<le> m_type m \<and> m_ts m < 2 ^ 31"

definition senders_ok :: "msg_queue \<Rightarrow> bool" where
  "senders_ok q \<longleftrightarrow> (\<forall>s \<in> set (q_senders q). message_ok (s_msg s) \<and> (\<not> s_running s \<longrightarrow> \<not> fits_now (s_msg s) q))"

definition msq_ok :: "msg_queue \<Rightarrow> bool" where
  "msq_ok q \<longleftrightarrow> counts_ok q \<and> receivers_ok q \<and> senders_ok q"

definition mslot :: "msg_namespace \<Rightarrow> nat \<Rightarrow> msg_queue option" where
  "mslot ns l = idr_find (ipcs_idr (msg_ids ns)) l"

definition ns_ok :: "msg_namespace \<Rightarrow> bool" where
  "ns_ok ns \<longleftrightarrow> ids_table_ok (msg_ids ns) \<and> (\<forall>l q. mslot ns l = Some q \<longrightarrow> msq_ok q) \<and> 0 \<le> msg_ctlmnb ns \<and> msg_ctlmnb ns < 2 ^ 31 \<and>
     msg_hdrs ns = of_nat (table_sum (\<lambda>q. length (q_messages q)) (ipcs_idr (msg_ids ns))) \<and>
     msg_bytes ns = of_nat (table_sum (\<lambda>q. msg_total (q_messages q)) (ipcs_idr (msg_ids ns)))"

lemma msg_total_simps [simp]: "msg_total [] = 0" "msg_total (m # ms) = m_ts m + msg_total ms" "msg_total (ms @ ms') = msg_total ms + msg_total ms'"
  by (simp_all add: msg_total_def)

lemma fits_now_iff:
  assumes "counts_ok q" and "m_ts m < 2 ^ 31"
  shows "msg_fits (of_nat (m_ts m)) q \<longleftrightarrow> fits_now m q"
proof -
  have m: "unat (of_nat (m_ts m) :: u32) = m_ts m" using assms(2) by (intro unat_of_nat_small) simp
  have "unat (of_nat (m_ts m) + q_cbytes q :: u32) = m_ts m + unat (q_cbytes q)"
    using assms unat_add_lem [of "of_nat (m_ts m) :: u32" "q_cbytes q"] m by (simp add: counts_ok_def)
  moreover have "unat (1 + q_qnum q) = 1 + unat (q_qnum q)"
    using assms unat_add_lem [of "1 :: u32" "q_qnum q"] by (simp add: counts_ok_def)
  ultimately show ?thesis by (simp add: msg_fits_def fits_now_def word_le_nat_alt)
qed

section \<open>Changes of one queue\<close>

lemma pipelined_none: "pipelined_send msg rs = (rs', res, None) \<Longrightarrow> rs' = filter (\<lambda>r. \<not> testmsg msg (r_msgtype r) (r_mode r)) rs"
  by (induction rs arbitrary: rs' res) (auto split: if_splits prod.splits)

lemma pipelined_subset: "pipelined_send msg rs = (rs', res, taker) \<Longrightarrow> set rs' \<subseteq> set rs"
  by (induction rs arbitrary: rs' res) (auto split: if_splits prod.splits)

text \<open>Only counts and lists matter.\<close>

lemma msq_ok_cong:
  assumes "msq_ok q" and "q_messages q' = q_messages q" "q_qnum q' = q_qnum q" "q_cbytes q' = q_cbytes q" "q_qbytes q' = q_qbytes q"
    and "set (q_receivers q') \<subseteq> set (q_receivers q)" and "set (q_senders q') \<subseteq> set (q_senders q)"
  shows "msq_ok q'"
proof -
  have "fits_now m q' = fits_now m q" for m using assms(3-5) by (simp add: fits_now_def)
  then show ?thesis using assms unfolding msq_ok_def counts_ok_def receivers_ok_def senders_ok_def by (simp add: subset_iff)
qed

lemma msq_ok_append:
  assumes ok: "msq_ok q" and m: "message_ok msg" "fits_now msg q" and rs: "set rs \<subseteq> set (q_receivers q)" "\<forall>r \<in> set rs. \<not> testmsg msg (r_msgtype r) (r_mode r)"
    and q': "q_messages q' = q_messages q @ [msg]" "q_qnum q' = q_qnum q + 1" "q_cbytes q' = q_cbytes q + of_nat (m_ts msg)" "q_qbytes q' = q_qbytes q"
      "q_receivers q' = rs" "q_senders q' = q_senders q"
  shows "msq_ok q'"
proof -
  have c: "counts_ok q" using ok by (simp add: msq_ok_def)
  have t: "unat (of_nat (m_ts msg) :: u32) = m_ts msg" using m(1) by (intro unat_of_nat_small) (simp add: message_ok_def)
  have cb: "unat (q_cbytes q + of_nat (m_ts msg)) = unat (q_cbytes q) + m_ts msg"
    using unat_add_lem [of "q_cbytes q" "of_nat (m_ts msg)"] t c m by (simp add: counts_ok_def message_ok_def)
  have qn: "unat (q_qnum q + 1) = unat (q_qnum q) + 1" using c by (intro unat_inc) (simp add: counts_ok_def)
  have "counts_ok q'" using c m unfolding counts_ok_def q' cb qn by (auto simp: fits_now_def message_ok_def)
  moreover have "receivers_ok q'" using ok rs unfolding msq_ok_def receivers_ok_def q' by auto
  moreover have "fits_now x q" if "fits_now x q'" for x using that unfolding fits_now_def q' cb qn by simp
  then have "senders_ok q'" using ok unfolding msq_ok_def senders_ok_def q' by blast
  ultimately show ?thesis by (simp add: msq_ok_def)
qed

lemma msq_ok_wake:
  assumes ok: "msq_ok q" and q': "counts_ok q'" "set (q_messages q') \<subseteq> set (q_messages q)"
    "map (\<lambda>r. (r_msgtype r, r_mode r)) (q_receivers q') = map (\<lambda>r. (r_msgtype r, r_mode r)) (q_receivers q)" "q_senders q' = ss_wakeup (q_senders q)"
  shows "msq_ok q'"
proof -
  have "set (map (\<lambda>r. (r_msgtype r, r_mode r)) (q_receivers q')) = set (map (\<lambda>r. (r_msgtype r, r_mode r)) (q_receivers q))" using q'(3) by simp
  then have "\<exists>r' \<in> set (q_receivers q). r_msgtype r' = r_msgtype r \<and> r_mode r' = r_mode r" if "r \<in> set (q_receivers q')" for r
  proof -
    have "(r_msgtype r, r_mode r) \<in> set (map (\<lambda>r. (r_msgtype r, r_mode r)) (q_receivers q'))" using that by simp
    then have "(r_msgtype r, r_mode r) \<in> set (map (\<lambda>r. (r_msgtype r, r_mode r)) (q_receivers q))" using q'(3) by metis
    then show ?thesis by auto
  qed
  then have "receivers_ok q'" using ok q'(2) unfolding msq_ok_def receivers_ok_def by (metis subsetD)
  moreover have "senders_ok q'" using ok unfolding msq_ok_def senders_ok_def q'(4) by (auto simp: ss_wakeup_def)
  ultimately show ?thesis using q'(1) by (simp add: msq_ok_def)
qed

lemma total_remove: "j < length ms \<Longrightarrow> msg_total (take j ms @ drop (Suc j) ms) + m_ts (ms ! j) = msg_total ms"
  using arg_cong [OF id_take_nth_drop [of j ms], of msg_total] by simp

lemma counts_ok_take:
  assumes c: "counts_ok q" and j: "j < length (q_messages q)"
    and q': "q_messages q' = take j (q_messages q) @ drop (Suc j) (q_messages q)" "q_qnum q' = q_qnum q - 1" "q_cbytes q' = q_cbytes q - of_nat (m_ts (q_messages q ! j))" "q_qbytes q' = q_qbytes q"
  shows "counts_ok q'"
proof -
  let ?n = "m_ts (q_messages q ! j)"
  note sum = total_remove [OF j]
  have le: "?n \<le> unat (q_cbytes q)" "0 < unat (q_qnum q)" using c sum j by (auto simp: counts_ok_def)
  then have n: "unat (of_nat ?n :: u32) = ?n" using unat_bound [of "q_cbytes q"] by (intro unat_of_nat_small) simp
  have "unat (q_cbytes q - of_nat ?n) = unat (q_cbytes q) - ?n" using le n by (simp add: unat_sub word_le_nat_alt)
  moreover have "unat (q_qnum q - 1) + 1 = unat (q_qnum q)" using le(2) by (intro unat_dec) (simp add: word_less_nat_alt)
  moreover have "set (q_messages q') \<subseteq> set (q_messages q)" unfolding q' using set_take_subset set_drop_subset by fastforce
  moreover have "length (q_messages q') + 1 = length (q_messages q)" unfolding q' using j by simp
  ultimately show ?thesis using c sum unfolding counts_ok_def q'(2-4) by (auto simp: q'(1))
qed

section \<open>Changes of the namespace\<close>

lemma mslot_store:
  assumes "ids_table_ok (msg_ids ns)" and "mslot ns l = Some q" and "perm_id q' = perm_id q"
  shows "mslot (store_queue ns q') k = (if k = l then Some q' else mslot ns k)" and "ipcs_idr (msg_ids (store_queue ns q')) = (ipcs_idr (msg_ids ns))[l := Some q']"
    and "ids_table_ok (msg_ids (store_queue ns q'))"
proof -
  have l: "ipcid_to_idx (perm_id q') = l" using ids_tableD [OF assms(1), of l q] assms(2,3) by (simp add: mslot_def)
  then show idr: "ipcs_idr (msg_ids (store_queue ns q')) = (ipcs_idr (msg_ids ns))[l := Some q']" by (simp add: store_queue_def)
  show "mslot (store_queue ns q') k = (if k = l then Some q' else mslot ns k)"
    using idr_find_update [of "ipcs_idr (msg_ids ns)" l q] assms(2) unfolding mslot_def idr by simp
  show "ids_table_ok (msg_ids (store_queue ns q'))" using ids_table_put [OF assms(1), of l q q'] assms(2,3) l by (simp add: store_queue_def mslot_def)
qed

lemma ns_ok_store:
  assumes ok: "ns_ok ns" and q: "mslot ns l = Some q" and q': "perm_id q' = perm_id q" "msq_ok q'"
    and ns': "msg_ids ns' = msg_ids (store_queue ns q')" "msg_ctlmnb ns' = msg_ctlmnb ns"
      "msg_hdrs ns' = msg_hdrs ns + of_nat (length (q_messages q')) - of_nat (length (q_messages q))"
      "msg_bytes ns' = msg_bytes ns + of_nat (msg_total (q_messages q')) - of_nat (msg_total (q_messages q))"
  shows "ns_ok ns'"
proof -
  let ?idr = "ipcs_idr (msg_ids ns)"
  have t: "ids_table_ok (msg_ids ns)" using ok by (simp add: ns_ok_def)
  note s = mslot_store [OF t q q'(1)]
  have sum: "(of_nat (table_sum f (?idr[l := Some q'])) :: u32) = of_nat (table_sum f ?idr) + of_nat (f q') - of_nat (f q)" for f
  proof -
    have "table_sum f (?idr[l := Some q']) + f q = table_sum f ?idr + f q'" using table_sum_update [of ?idr l q f "Some q'"] q by (simp add: mslot_def)
    then have "(of_nat (table_sum f (?idr[l := Some q']) + f q) :: u32) = of_nat (table_sum f ?idr + f q')" by simp
    then show ?thesis by (simp add: algebra_simps eq_diff_eq)
  qed
  have slot: "mslot ns' k = (if k = l then Some q' else mslot ns k)" for k using s(1) ns'(1) by (simp add: mslot_def)
  show ?thesis using ok q'(2) s(3) unfolding ns_ok_def slot ns'(2-4) unfolding ns'(1) s(2) sum by simp
qed

lemma store_queue_simps [simp]:
  "msg_ctlmnb (store_queue ns q) = msg_ctlmnb ns" "msg_hdrs (store_queue ns q) = msg_hdrs ns" "msg_bytes (store_queue ns q) = msg_bytes ns"
  "msg_user_ns (store_queue ns q) = msg_user_ns ns" "r_msgs (store_queue ns q) = r_msgs ns" "s_killed (store_queue ns q) = s_killed ns"
  by (simp_all add: store_queue_def)

lemma ns_ok_same:
  assumes "ns_ok ns" and "mslot ns l = Some q" and "perm_id q' = perm_id q" "msq_ok q'" "q_messages q' = q_messages q"
  shows "ns_ok (store_queue ns q')"
  by (rule ns_ok_store [OF assms(1-4)]) (simp_all add: assms(5))

lemma ns_ok_queue: "ns_ok ns \<Longrightarrow> mslot ns l = Some q \<Longrightarrow> msq_ok q"
  by (simp add: ns_ok_def)

lemma ns_ok_cong: "msg_ids ns' = msg_ids ns \<Longrightarrow> msg_ctlmnb ns' = msg_ctlmnb ns \<Longrightarrow> msg_hdrs ns' = msg_hdrs ns \<Longrightarrow> msg_bytes ns' = msg_bytes ns \<Longrightarrow> ns_ok ns' = ns_ok ns"
  by (simp add: ns_ok_def mslot_def)

lemma deliver_ok:
  assumes ok: "ns_ok ns" and q: "mslot ns l = Some q" and m: "message_ok msg" "fits_now msg q"
  shows "ns_ok (msgsnd_deliver ns q msg pid now)"
proof -
  obtain rs res taker where p: "pipelined_send msg (q_receivers q) = (rs, res, taker)" by (cases "pipelined_send msg (q_receivers q)") auto
  let ?ns = "ns\<lparr>r_msgs := r_msgs ns @ res\<rparr>"
  have ok1: "ns_ok ?ns" and q1: "mslot ?ns l = Some q" using ok q ns_ok_cong [of ?ns ns] by (simp_all add: mslot_def)
  have qo: "msq_ok q" by (rule ns_ok_queue [OF ok q])
  show ?thesis
  proof (cases taker)
    case (Some msr)
    let ?q = "q\<lparr>q_lspid := pid, q_stime := now, q_receivers := rs, q_lrpid := r_pid msr, q_rtime := now\<rparr>"
    have "msq_ok ?q" using pipelined_subset [OF p] by (intro msq_ok_cong [OF qo]) simp_all
    then have "ns_ok (store_queue ?ns ?q)" by (intro ns_ok_same [OF ok1 q1]) simp_all
    then show ?thesis using p Some by (simp add: msgsnd_deliver_def)
  next
    case None
    let ?q = "q\<lparr>q_lspid := pid, q_stime := now, q_receivers := rs, q_messages := q_messages q @ [msg], q_cbytes := q_cbytes q + of_nat (m_ts msg), q_qnum := q_qnum q + 1\<rparr>"
    have rs: "rs = filter (\<lambda>r. \<not> testmsg msg (r_msgtype r) (r_mode r)) (q_receivers q)" using pipelined_none p None by blast
    have "msq_ok ?q" by (rule msq_ok_append [OF qo m, of rs]) (auto simp: rs)
    then have "ns_ok (store_queue ?ns ?q\<lparr>msg_bytes := msg_bytes ns + of_nat (m_ts msg), msg_hdrs := msg_hdrs ns + 1\<rparr>)"
      by (intro ns_ok_store [OF ok1 q1, of ?q]) simp_all
    then show ?thesis using p None by (simp add: msgsnd_deliver_def)
  qed
qed

lemma snd_locked_ok:
  assumes ok: "ns_ok ns" and q: "mslot ns l = Some q" and m: "message_ok msg" and r: "msgsnd_locked ns q msg flg i pid now t = (out, ns', t')"
  shows "ns_ok ns'"
proof -
  have qo: "msq_ok q" by (rule ns_ok_queue [OF ok q])
  then have fit: "msg_fits (of_nat (m_ts msg)) q \<longleftrightarrow> fits_now msg q" using m by (intro fits_now_iff) (simp_all add: msq_ok_def message_ok_def)
  let ?q = "ss_add \<lparr>s_id = i, s_pid = pid, s_msg = msg, s_flg = flg, s_running = False\<rparr> q"
  consider "ns' = ns" | "ns' = msgsnd_deliver ns q msg pid now" "fits_now msg q" | "ns' = store_queue ns ?q" "\<not> fits_now msg q"
    using r fit unfolding msgsnd_locked_def by (auto split: prod.splits if_splits)
  then show ?thesis
  proof cases
    case 2
    then show ?thesis using deliver_ok [OF ok q m] by simp
  next
    case 3
    have f: "fits_now x ?q = fits_now x q" for x by (simp add: fits_now_def ss_add_def)
    have "msq_ok ?q" using qo m 3(2) unfolding msq_ok_def counts_ok_def receivers_ok_def senders_ok_def f by (auto simp: ss_add_def)
    then show ?thesis using 3(1) by (auto intro: ns_ok_same [OF ok q] simp: ss_add_def)
  qed (use ok in simp)
qed

lemma count_less: "a = b + n \<Longrightarrow> (x + of_nat b) - of_nat a = (x - of_nat n :: u32)"
  by simp

lemma take_ok:
  assumes ok: "ns_ok ns" and q: "mslot ns l = Some q" and j: "j < length (q_messages q)"
  shows "ns_ok (msgrcv_take ns q j pid now)"
proof -
  have qo: "msq_ok q" by (rule ns_ok_queue [OF ok q])
  let ?m = "q_messages q ! j"
  let ?q = "q\<lparr>q_messages := take j (q_messages q) @ drop (Suc j) (q_messages q), q_qnum := q_qnum q - 1, q_rtime := now, q_lrpid := pid,
    q_cbytes := q_cbytes q - of_nat (m_ts ?m), q_senders := ss_wakeup (q_senders q)\<rparr>"
  have "counts_ok ?q" by (rule counts_ok_take [of q j]) (use qo j in \<open>simp_all add: msq_ok_def\<close>)
  moreover have "set (take j (q_messages q) @ drop (Suc j) (q_messages q)) \<subseteq> set (q_messages q)" using set_take_subset set_drop_subset by fastforce
  ultimately have qo': "msq_ok ?q" by (intro msq_ok_wake [OF qo]) simp_all
  have len: "length (q_messages q) = length (q_messages ?q) + 1" and tot: "msg_total (q_messages q) = msg_total (q_messages ?q) + m_ts ?m"
    using j total_remove [OF j] by simp_all
  have "ns_ok (store_queue ns ?q\<lparr>msg_bytes := msg_bytes ns - of_nat (m_ts ?m), msg_hdrs := msg_hdrs ns - 1\<rparr>)" (is "ns_ok ?ns")
  proof (rule ns_ok_store [OF ok q _ qo'])
    show "msg_hdrs ?ns = msg_hdrs ns + of_nat (length (q_messages ?q)) - of_nat (length (q_messages q))" using count_less [OF len, of "msg_hdrs ns"] by simp
    show "msg_bytes ?ns = msg_bytes ns + of_nat (msg_total (q_messages ?q)) - of_nat (msg_total (q_messages q))" using count_less [OF tot, of "msg_bytes ns"] by simp
  qed simp_all
  then show ?thesis by (simp add: msgrcv_take_def Let_def)
qed

lemma rcv_locked_ok:
  assumes ok: "ns_ok ns" and q: "mslot ns l = Some q" and r: "msgrcv_locked ns q sz mt mode flg i pid now t = (out, ns', t')"
  shows "ns_ok ns'"
proof -
  have qo: "msq_ok q" by (rule ns_ok_queue [OF ok q])
  then have scan: "rcv_scan_ok mode mt (q_messages q) (rcv_scan mode mt 0 None (q_messages q))" by (intro scan_exact) (simp add: msq_ok_def counts_ok_def)
  let ?r = "\<lparr>r_id = i, r_pid = pid, r_mode = mode, r_msgtype = mt, r_maxsize = (if flg AND MSG_NOERROR \<noteq> 0 then 2147483647 else unat sz),
    r_msgsz = sz, r_flg = flg, r_running = False\<rparr>"
  let ?q = "q\<lparr>q_receivers := q_receivers q @ [?r]\<rparr>"
  consider "ns' = ns" | j where "ns' = msgrcv_take ns q j pid now" "rcv_scan mode mt 0 None (q_messages q) = Some j"
    | "ns' = store_queue ns ?q" "rcv_scan mode mt 0 None (q_messages q) = None"
    using r unfolding msgrcv_locked_def Let_def by (auto split: prod.splits if_splits option.splits)
  then show ?thesis
  proof cases
    case 2
    then have "j < length (q_messages q)" using scan by (simp add: rcv_scan_ok_def is_choice_def)
    then show ?thesis using take_ok [OF ok q] 2(1) by simp
  next
    case 3
    have f: "fits_now x ?q = fits_now x q" for x by (simp add: fits_now_def)
    have "msq_ok ?q" using qo scan 3(2) unfolding msq_ok_def counts_ok_def receivers_ok_def senders_ok_def f by (auto simp: rcv_scan_ok_def)
    then show ?thesis using 3(1) by (auto intro: ns_ok_same [OF ok q])
  qed (use ok in simp)
qed

lemma lock_check_mslot: "msg_lock_check ns i = Inr q \<Longrightarrow> mslot ns (ipcid_to_idx i) = Some q"
  by (auto simp: msg_lock_check_def ipc_lock_check_def ipc_lock_def mslot_def split: option.splits if_splits)

lemma sint_nonneg: "\<not> sint (w :: u32) < 0 \<Longrightarrow> unat w < 2 ^ 31"
proof -
  assume "\<not> sint w < 0"
  then have "\<not> bit w 31" by (simp add: bit_last_iff [symmetric])
  have "w = take_bit 31 w"
  proof (rule bit_word_eqI)
    fix n assume "n < LENGTH(32)"
    then show "bit w n = bit (take_bit 31 w) n" using \<open>\<not> bit w 31\<close> by (cases "n = 31") (auto simp: bit_simps)
  qed
  then have "unat w = take_bit 31 (unat w)" by (metis unsigned_take_bit_eq)
  then show ?thesis by (metis take_bit_nat_less_exp)
qed

lemma do_msgsnd_ok:
  assumes ok: "ns_ok ns" and r: "do_msgsnd ns msqid mtype mem mtext sz flg i pid now t = (out, ns', t')"
  shows "ns_ok ns'"
proof (cases "ns' = ns")
  case False
  then obtain msg q where d: "\<not> sint sz < 0" "\<not> mtype < 1" "msg_lock_check ns msqid = Inr q"
    "msgsnd_locked ns q (msg\<lparr>m_type := mtype, m_ts := unat sz\<rparr>) flg i pid now t = (out, ns', t')"
    using r unfolding do_msgsnd_def by (auto split: if_splits sum.splits)
  have "message_ok (msg\<lparr>m_type := mtype, m_ts := unat sz\<rparr>)" using d(2) sint_nonneg [OF d(1)] by (simp add: message_ok_def)
  then show ?thesis using snd_locked_ok [OF ok lock_check_mslot [OF d(3)] _ d(4)] by blast
qed (use ok in simp)

lemma do_msgrcv_ok:
  assumes ok: "ns_ok ns" and r: "do_msgrcv ns msqid sz ty flg i pid now t = (out, ns', t')"
  shows "ns_ok ns'"
proof (cases "ns' = ns")
  case False
  then obtain mode mt q where "msg_lock_check ns msqid = Inr q" "msgrcv_locked ns q sz mt mode flg i pid now t = (out, ns', t')"
    using r unfolding do_msgrcv_def by (auto split: if_splits sum.splits prod.splits)
  then show ?thesis using rcv_locked_ok [OF ok lock_check_mslot] by blast
qed (use ok in simp)

lemma snd_resume_ok:
  assumes ok: "ns_ok ns" and q: "mslot ns l = Some q" and s: "s \<in> set (q_senders q)" and r: "msgsnd_resume ns q s sig now t = (out, ns', t')"
  shows "ns_ok ns'"
proof -
  let ?q = "ss_del s q" and ?ns = "store_queue ns (ss_del s q)"
  have qo: "msq_ok q" by (rule ns_ok_queue [OF ok q])
  have "msq_ok ?q" by (rule msq_ok_cong [OF qo]) (auto simp: ss_del_def)
  then have ok1: "ns_ok ?ns" by (intro ns_ok_same [OF ok q]) (simp_all add: ss_del_def)
  have q1: "mslot ?ns l = Some ?q" using mslot_store(1) [OF _ q, of ?q] ok by (simp add: ns_ok_def ss_del_def)
  have m: "message_ok (s_msg s)" using qo s by (simp add: msq_ok_def senders_ok_def)
  show ?thesis using r ok1 snd_locked_ok [OF ok1 q1 m] unfolding msgsnd_resume_def Let_def by (auto split: if_splits)
qed

lemma rcv_resume_ok:
  assumes ok: "ns_ok ns" and q: "mslot ns l = Some q" and r: "msgrcv_resume ns q msr sig now t = (out, ns', t')"
  shows "ns_ok ns'"
proof -
  let ?q = "q\<lparr>q_receivers := filter (\<lambda>r. r_id r \<noteq> r_id msr) (q_receivers q)\<rparr>" and ?ns = "store_queue ns (q\<lparr>q_receivers := filter (\<lambda>r. r_id r \<noteq> r_id msr) (q_receivers q)\<rparr>)"
  have "msq_ok ?q" by (rule msq_ok_cong [OF ns_ok_queue [OF ok q]]) auto
  then have ok1: "ns_ok ?ns" by (intro ns_ok_same [OF ok q]) simp_all
  have q1: "mslot ?ns l = Some ?q" using mslot_store(1) [OF _ q, of ?q] ok by (simp add: ns_ok_def)
  show ?thesis using r ok1 rcv_locked_ok [OF ok1 q1] unfolding msgrcv_resume_def Let_def by (auto split: if_splits)
qed

lemma newque_ok:
  assumes ok: "ns_ok ns" and r: "newque params alloc cr now ns = (res, ns')"
  shows "ns_ok ns'"
proof (cases "ns' = ns")
  case False
  then obtain p ids where a: "ipc_addid (msg_ids ns) (new_queue params ns now) (msg_ctlmni ns) cr = Inr (p, ids)" "ns' = ns\<lparr>msg_ids := ids\<rparr>"
    using r by (auto simp: newque_def split: if_splits sum.splits)
  have t: "ids_table_ok (msg_ids ns)" using ok by (simp add: ns_ok_def)
  show ?thesis
  proof (rule ids_table_addid [OF t a(1)])
    fix lid
    assume l: "lid \<le> length (ipcs_idr (msg_ids ns))" "idr_find (ipcs_idr (msg_ids ns)) lid = None" "ipcs_idr ids = idr_store (ipcs_idr (msg_ids ns)) lid p" "ids_table_ok ids"
      and p: "p = new_queue params ns now\<lparr>perm_cuid := perm_cuid p, perm_uid := perm_uid p, perm_gid := perm_gid p, perm_cgid := perm_cgid p, perm_seq := perm_seq p, perm_id := perm_id p\<rparr>"
    have f: "q_messages p = []" "q_receivers p = []" "q_senders p = []" "q_qnum p = 0" "q_cbytes p = 0" "q_qbytes p = word_of_int (msg_ctlmnb ns)"
      by (subst p, simp add: new_queue_def)+
    have "uint (word_of_int (msg_ctlmnb ns) :: u32) = msg_ctlmnb ns" using ok by (simp add: ns_ok_def uint_word_of_int)
    then have "unat (word_of_int (msg_ctlmnb ns) :: u32) < 2 ^ 31" using ok by (simp add: ns_ok_def unat_eq_nat_uint nat_less_iff)
    then have "msq_ok p" by (simp add: msq_ok_def counts_ok_def receivers_ok_def senders_ok_def f)
    moreover have "mslot ns' k = (if k = lid then Some p else mslot ns k)" for k unfolding mslot_def a(2) using idr_store_find [OF l(1)] l(3) by simp
    ultimately show "ns_ok ns'" using ok l(4) table_sum_store [OF l(1,2)] unfolding ns_ok_def by (simp add: a(2) l(3) f)
  qed
qed (use ok in simp)

lemma msgget_ok:
  assumes "ns_ok ns" and "sys_msgget ns key flg mem alloc now t = (r, ns', t')"
  shows "ns_ok ns'"
proof -
  let ?p = "\<lparr>par_key = key, par_flg = flg, par_nsems = 0\<rparr>"
  obtain x ns1 where n: "newque ?p alloc (cur_cred t) now ns = (x, ns1)" by fastforce
  have "ns' = ns \<or> ns' = ns1" using assms(2) n
    by (auto simp: sys_msgget_def ipcget_def ipcget_new_def ipcget_public_def Let_def split: if_splits option.splits sum.splits prod.splits)
  then show ?thesis using assms(1) newque_ok [OF assms(1) n] by blast
qed

lemma freeque_ok:
  assumes ok: "ns_ok ns" and q: "mslot ns l = Some q"
  shows "ns_ok (freeque ns q)"
proof -
  let ?idr = "ipcs_idr (msg_ids ns)"
  have t: "ids_table_ok (msg_ids ns)" and f: "idr_find ?idr l = Some q" using ok q by (simp_all add: ns_ok_def mslot_def)
  note rm = ids_table_rmid [OF t f]
  have slot: "mslot (freeque ns q) k = (if k = l then None else mslot ns k)" for k
    using idr_find_update [OF f, of None] rm(2) by (simp add: mslot_def freeque_def)
  have sum: "(of_nat (table_sum g (?idr[l := None])) :: u32) = of_nat (table_sum g ?idr) - of_nat (g q)" for g
  proof -
    have "table_sum g ?idr = table_sum g (?idr[l := None]) + g q" using table_sum_update [OF f, of g None] by simp
    then show ?thesis by simp
  qed
  have "counts_ok q" using ns_ok_queue [OF ok q] by (simp add: msq_ok_def)
  moreover have "of_nat (unat (q_cbytes q)) = q_cbytes q" by simp
  ultimately have "q_cbytes q = of_nat (msg_total (q_messages q))" by (simp add: counts_ok_def)
  then show ?thesis using ok rm(1) unfolding ns_ok_def slot by (simp add: freeque_def rm(2) sum)
qed

lemma pre_down_mslot: "ipcctl_pre_down uns (msg_ids ns) i t = (Inr q, t') \<Longrightarrow> mslot ns (ipcid_to_idx i) = Some q"
  by (auto simp: ipcctl_pre_down_def ipc_lock_check_def ipc_lock_def mslot_def split: option.splits sum.splits if_splits prod.splits)

definition below_2GB :: "(u32 \<times> u32 \<times> u32 \<times> u32) option \<Rightarrow> bool" where
  "below_2GB buf \<longleftrightarrow> (case buf of None \<Rightarrow> True | Some (u, g, m, n) \<Rightarrow> unat n < 2 ^ 31)"

lemma msgctl_down_ok:
  assumes ok: "ns_ok ns" and b: "below_2GB buf" and r: "msgctl_down ns i cmd buf now t = (res, ns', t')"
  shows "ns_ok ns'"
proof (cases "ns' = ns")
  case False
  then obtain q t1 where pre: "ipcctl_pre_down (msg_user_ns ns) (msg_ids ns) i t = (Inr q, t1)"
    using r by (auto simp: msgctl_down_def split: if_splits prod.splits sum.splits)
  note q = pre_down_mslot [OF pre]
  let ?set = "\<lambda>u g m n. (ipc_update_perm u g m (q\<lparr>q_qbytes := n\<rparr>))
    \<lparr>q_ctime := now, q_receivers := fst (expunge_all EAGAIN (q_receivers q)), q_senders := ss_wakeup (q_senders q)\<rparr>"
  consider "ns' = freeque ns q" | u g m n where "ns' = store_queue ns (?set u g m n)" "buf = Some (u, g, m, n)"
    using r pre False by (auto simp: msgctl_down_def split: if_splits prod.splits)
  then show ?thesis
  proof cases
    case 2
    have qo: "msq_ok q" by (rule ns_ok_queue [OF ok q])
    have "counts_ok (?set u g m n)" using qo b 2(2) by (simp add: below_2GB_def msq_ok_def counts_ok_def ipc_update_perm_def)
    then have "msq_ok (?set u g m n)" by (rule msq_ok_wake [OF qo]) (simp_all add: ipc_update_perm_def expunge_all_def)
    then show ?thesis unfolding 2(1) by (rule ns_ok_same [OF ok q, rotated]) (simp_all add: ipc_update_perm_def)
  qed (use freeque_ok [OF ok q] in simp)
qed (use ok in simp)

lemma sys_msgctl_ok:
  assumes ok: "ns_ok ns" and b: "below_2GB buf" and r: "sys_msgctl ns i cmd buf writable now t = (res, ns', t')"
  shows "ns_ok ns'"
proof (cases "ns' = ns")
  case False
  then obtain cmd' res' where "msgctl_down ns i cmd' buf now t = (res', ns', t')"
    using r unfolding sys_msgctl_def Let_def by (auto split: if_splits prod.splits sum.splits)
  then show ?thesis using msgctl_down_ok [OF ok b] by blast
qed (use ok in simp)

section \<open>Interleaving\<close>

text \<open>
  A sender or receiver in a queue may go on at any time, by a signal or because it was woken; \<open>IPC_SET\<close> sets a size below
  2 GB, without which sums of sizes could wrap around.
\<close>

inductive msg_step :: "msg_namespace \<Rightarrow> msg_namespace \<Rightarrow> bool" where
  msgget: "sys_msgget ns key flg mem alloc now t = (r, ns', t') \<Longrightarrow> msg_step ns ns'"
| msgsnd: "do_msgsnd ns msqid mtype mem mtext sz flg i pid now t = (out, ns', t') \<Longrightarrow> msg_step ns ns'"
| snd_resume: "mslot ns l = Some q \<Longrightarrow> s \<in> set (q_senders q) \<Longrightarrow> msgsnd_resume ns q s sig now t = (out, ns', t') \<Longrightarrow> msg_step ns ns'"
| snd_deleted: "s \<in> set (s_killed ns) \<Longrightarrow> msgsnd_deleted ns s = (out, ns') \<Longrightarrow> msg_step ns ns'"
| msgrcv: "do_msgrcv ns msqid sz ty flg i pid now t = (rout, ns', t') \<Longrightarrow> msg_step ns ns'"
| rcv_resume: "mslot ns l = Some q \<Longrightarrow> msr \<in> set (q_receivers q) \<Longrightarrow> msgrcv_resume ns q msr sig now t = (rout, ns', t') \<Longrightarrow> msg_step ns ns'"
| rcv_lockless: "(msr, res) \<in> set (r_msgs ns) \<Longrightarrow> msgrcv_lockless ns msr res = (rout, ns') \<Longrightarrow> msg_step ns ns'"
| msgctl: "below_2GB buf \<Longrightarrow> sys_msgctl ns msqid cmd buf writable now t = (ctl, ns', t') \<Longrightarrow> msg_step ns ns'"

lemma msg_step_ok: "ns_ok ns \<Longrightarrow> msg_step ns ns' \<Longrightarrow> ns_ok ns'"
proof (erule msg_step.cases, goal_cases)
  case (1 ns key flg mem alloc now t r ns' t')
  then show ?case using msgget_ok by blast
next
  case (2 ns msqid mtype mem mtext sz flg i pid now t out ns' t')
  then show ?case using do_msgsnd_ok by blast
next
  case (3 ns l q s sig now t out ns' t')
  then show ?case using snd_resume_ok by blast
next
  case (4 s ns out ns')
  then show ?case by (auto simp: msgsnd_deleted_def ns_ok_def mslot_def)
next
  case (5 ns msqid sz ty flg i pid now t rout ns' t')
  then show ?case using do_msgrcv_ok by blast
next
  case (6 ns l q msr sig now t rout ns' t')
  then show ?case using rcv_resume_ok by blast
next
  case (7 msr res ns rout ns')
  then show ?case by (auto simp: msgrcv_lockless_def ns_ok_def mslot_def)
next
  case (8 buf ns msqid cmd writable now t ctl ns' t')
  then show ?case using sys_msgctl_ok by blast
qed

definition msg_init :: "msg_namespace \<Rightarrow> bool" where
  "msg_init ns \<longleftrightarrow> (\<exists>lowmem mem_unit nb_ns uns. ns = msg_init_ns lowmem mem_unit nb_ns uns)"

lemma msg_init_fields [simp]:
  "msg_ids (msg_init_ns lowmem mem_unit nb_ns uns) = ipc_init_ids" "msg_ctlmnb (msg_init_ns lowmem mem_unit nb_ns uns) = MSGMNB"
  "msg_hdrs (msg_init_ns lowmem mem_unit nb_ns uns) = 0" "msg_bytes (msg_init_ns lowmem mem_unit nb_ns uns) = 0"
  by (simp_all add: msg_init_ns_def recompute_msgmni_def Let_def)

lemma msg_init_ok: "msg_init ns \<Longrightarrow> ns_ok ns"
  by (auto simp: msg_init_def ns_ok_def mslot_def ids_table_ok_def ipc_init_ids_def idr_find_def table_sum_def)

interpretation msgs: invariant_system msg_init msg_step ns_ok
  by unfold_locales (auto intro: msg_init_ok msg_step_ok)

end
