(* ===== verification/Msg_Calls.thy ===== *)
theory Msg_Calls
  imports Msg_Steps
begin

text \<open>
  The theorems on message queues that hold for all interleavings of calls, and what one \<^verbatim>\<open>msgsnd\<close> does.
\<close>

section \<open>An example\<close>

text \<open>A user creates a queue, sends two bytes with type 3 and waits for a message of type 5.\<close>

definition msg_user :: task_struct where
  "msg_user =
     \<lparr>cur_cred = \<lparr>uid = 1000, gid = 1000, suid = 1000, sgid = 1000, euid = 1000, egid = 1000, fsuid = 1000, fsgid = 1000, securebits = 0,
        cap_inheritable = CAP_EMPTY_SET, cap_permitted = CAP_EMPTY_SET, cap_effective = CAP_EMPTY_SET, cap_bset = CAP_EMPTY_SET,
        user = User 1000 Init_user_ns, cred_groups = None\<rparr>,
      task_pid = 42, PF_SUPERPRIV = False, PF_NPROC_EXCEEDED = False, has_mm = True, MMF_DUMPABLE = True, MMF_DUMP_SECURELY = False,
      pdeath_signal = 0, processes = (\<lambda>_. 1), bug_hit = False\<rparr>"

abbreviation msg_start :: msg_namespace where "msg_start \<equiv> msg_init_ns 0 0 1 Init_user_ns"

abbreviation empty_queue :: msg_queue where
  "empty_queue \<equiv> \<lparr>perm_id = 0, perm_key = 0, perm_uid = 1000, perm_gid = 1000, perm_cuid = 1000, perm_cgid = 1000, perm_mode = 0x180, perm_seq = 0,
     q_stime = 0, q_rtime = 0, q_ctime = 10, q_cbytes = 0, q_qnum = 0, q_qbytes = 16384, q_lspid = 0, q_lrpid = 0,
     q_messages = [], q_receivers = [], q_senders = []\<rparr>"

abbreviation one_msg :: msg_msg where "one_msg \<equiv> \<lparr>m_type = 3, m_ts = 2, m_text = [7, 8], m_next = []\<rparr>"

abbreviation one_queue :: msg_queue where
  "one_queue \<equiv> empty_queue\<lparr>q_stime := 11, q_lspid := 42, q_messages := [one_msg], q_cbytes := 2, q_qnum := 1\<rparr>"

abbreviation one_receiver :: msg_receiver where
  "one_receiver \<equiv> \<lparr>r_id = 9, r_pid = 42, r_mode = SEARCH_EQUAL, r_msgtype = 5, r_maxsize = 100, r_msgsz = 100, r_flg = 0, r_running = False\<rparr>"

abbreviation msg_ns1 :: msg_namespace where
  "msg_ns1 \<equiv> \<lparr>msg_ids = \<lparr>in_use = 1, ids_seq = 1, seq_max = 65535, ipcs_idr = [Some empty_queue]\<rparr>, msg_ctlmax = 8192, msg_ctlmnb = 16384, msg_ctlmni = 16,
     msg_bytes = 0, msg_hdrs = 0, msg_user_ns = Init_user_ns, r_msgs = [], s_killed = []\<rparr>"

abbreviation msg_ns2 :: msg_namespace where
  "msg_ns2 \<equiv> (store_queue msg_ns1 one_queue)\<lparr>msg_bytes := 2, msg_hdrs := 1\<rparr>"

abbreviation msg_ns3 :: msg_namespace where
  "msg_ns3 \<equiv> store_queue msg_ns2 (one_queue\<lparr>q_receivers := [one_receiver]\<rparr>)"

lemmas msg_lock_simps = msg_lock_check_def ipc_lock_check_def ipc_lock_def idr_find_def ipcid_to_idx_def ipc_checkid_def ipcperms_def msg_user_def Let_def store_queue_def

lemma demo_get: "sys_msgget msg_start 0 0x380 True True 10 msg_user = (Inr 0, msg_ns1, msg_user)"
  by (simp add: sys_msgget_def msg_init_ns_def recompute_msgmni_def ipc_init_ids_def ipcget_def ipcget_new_def newque_def ipc_addid_def Let_def
      idr_store_def ipc_buildid_def new_queue_def msg_user_def)

lemma demo_snd: "do_msgsnd msg_ns1 0 3 (\<lambda>_. True) [7, 8] 2 0 1 42 11 msg_user = (Snd_ret Ok, msg_ns2, msg_user)"
  by (simp add: do_msgsnd_def load_msg_def msgsnd_locked_def msg_lock_simps msg_fits_def msgsnd_deliver_def)

lemma demo_rcv: "do_msgrcv msg_ns2 0 100 5 0 9 42 12 msg_user = (Rcv_sleeps, msg_ns3, msg_user)"
  by (simp add: do_msgrcv_def convert_mode_def msgrcv_locked_def msg_lock_simps testmsg_def)

lemma msg_demo_run2: "msg_step\<^sup>*\<^sup>* msg_start msg_ns2"
  by (rule rtranclp.rtrancl_into_rtrancl [where r = msg_step, OF r_into_rtranclp [where r = msg_step, OF msg_step.msgget [OF demo_get]] msg_step.msgsnd [OF demo_snd]])

lemma msg_demo_run3: "msg_step\<^sup>*\<^sup>* msg_start msg_ns3"
  by (rule rtranclp.rtrancl_into_rtrancl [where r = msg_step, OF msg_demo_run2 msg_step.msgrcv [OF demo_rcv]])

section \<open>All interleavings\<close>

lemma reach_queue:
  assumes "msg_step\<^sup>*\<^sup>* (msg_init_ns lowmem mem_unit nb_ns uns) ns" and "mslot ns l = Some q"
  shows "msq_ok q"
  by (rule ns_ok_queue [OF msgs.inv_reachable [OF _ assms(1)] assms(2)]) (auto simp: msg_init_def)

text \<open>
  C36: Nobody waits for what is there.  However the calls are interleaved, a receiver that is in a queue matches
  none of its messages, and a sender that has not been woken has a message for which the queue has no room.
\<close>

theorem msg_no_lost_wakeup:
  assumes "msg_step\<^sup>*\<^sup>* (msg_init_ns lowmem mem_unit nb_ns uns) ns" and "mslot ns l = Some q"
  shows "(\<forall>r \<in> set (q_receivers q). \<forall>m \<in> set (q_messages q). \<not> testmsg m (r_msgtype r) (r_mode r)) \<and>
    (\<forall>s \<in> set (q_senders q). \<not> s_running s \<longrightarrow> \<not> msg_fits (of_nat (m_ts (s_msg s))) q)"
proof -
  have q: "counts_ok q" "receivers_ok q" "senders_ok q" using reach_queue [OF assms] by (simp_all add: msq_ok_def)
  then have "\<not> msg_fits (of_nat (m_ts (s_msg s))) q" if "s \<in> set (q_senders q)" "\<not> s_running s" for s
    using that fits_now_iff [OF q(1), of "s_msg s"] by (auto simp: senders_ok_def message_ok_def)
  then show ?thesis using q(2) unfolding receivers_ok_def by blast
qed

theorem msg_no_lost_wakeup_witness:
  "\<exists>q. mslot msg_ns3 0 = Some q \<and> one_receiver \<in> set (q_receivers q) \<and> one_msg \<in> set (q_messages q) \<and> \<not> testmsg one_msg (r_msgtype one_receiver) (r_mode one_receiver)"
proof -
  have q: "mslot msg_ns3 0 = Some (one_queue\<lparr>q_receivers := [one_receiver]\<rparr>)" by (simp add: mslot_def store_queue_def ipcid_to_idx_def idr_find_def)
  show ?thesis using msg_no_lost_wakeup [OF msg_demo_run3 q] q by simp
qed

text \<open>
  C38: The counts are exact.  In every reachable state the number of messages and of bytes that a queue reports are those
  of its messages, and the totals of the namespace are the sums over all queues, as 32-bit numbers.
\<close>

theorem msg_accounting:
  assumes "msg_step\<^sup>*\<^sup>* (msg_init_ns lowmem mem_unit nb_ns uns) ns"
  shows "(\<forall>l q. mslot ns l = Some q \<longrightarrow> unat (q_qnum q) = length (q_messages q) \<and> unat (q_cbytes q) = sum_list (map m_ts (q_messages q))) \<and>
    msg_hdrs ns = of_nat (table_sum (\<lambda>q. length (q_messages q)) (ipcs_idr (msg_ids ns))) \<and>
    msg_bytes ns = of_nat (table_sum (\<lambda>q. sum_list (map m_ts (q_messages q))) (ipcs_idr (msg_ids ns)))"
proof -
  have ok: "ns_ok ns" by (rule msgs.inv_reachable [OF _ assms]) (auto simp: msg_init_def)
  have "unat (q_qnum q) = length (q_messages q) \<and> unat (q_cbytes q) = sum_list (map m_ts (q_messages q))" if "mslot ns l = Some q" for l q
    using reach_queue [OF assms that] by (simp add: msq_ok_def counts_ok_def msg_total_def)
  then show ?thesis using ok by (simp add: ns_ok_def msg_total_def)
qed

theorem msg_accounting_witness:
  "msg_hdrs msg_ns2 = of_nat (table_sum (\<lambda>q. length (q_messages q)) (ipcs_idr (msg_ids msg_ns2))) \<and>
   msg_bytes msg_ns2 = of_nat (table_sum (\<lambda>q. sum_list (map m_ts (q_messages q))) (ipcs_idr (msg_ids msg_ns2)))"
  using msg_accounting [OF msg_demo_run2] by blast

section \<open>Sending one message\<close>

definition handed_over :: "(msg_receiver \<times> msg_msg kresult) list \<Rightarrow> msg_msg list" where
  "handed_over res = concat (map (\<lambda>(r, x). case x of Inl e \<Rightarrow> [] | Inr m \<Rightarrow> [m]) res)"

fun result_ok :: "msg_msg \<Rightarrow> msg_receiver \<times> msg_msg kresult \<Rightarrow> bool" where
  "result_ok msg (r, x) \<longleftrightarrow> testmsg msg (r_msgtype r) (r_mode r) \<and> (if r_maxsize r < m_ts msg then x = Inl E2BIG else x = Inr msg)"

lemma pipelined_exact:
  "pipelined_send msg rs = (rs', res, taker) \<Longrightarrow> handed_over res = (case taker of None \<Rightarrow> [] | Some r \<Rightarrow> [msg]) \<and> list_all (result_ok msg) res"
  by (induction rs arbitrary: rs' res) (auto simp: handed_over_def split: if_splits prod.splits)

lemma pipelined_counts: "pipelined_send msg rs = (rs', res, taker) \<Longrightarrow> length rs' + length res = length rs"
  by (induction rs arbitrary: rs' res) (auto split: if_splits prod.splits)

text \<open>
  C37: A message that was sent is in exactly one place.  When the section of \<^verbatim>\<open>msgsnd\<close> under the lock succeeds, the messages of the queue
  together with those handed to waiting receivers are those that were in the queue and then the new one; a receiver
  leaves the queue only for a message of its kind, with \<^verbatim>\<open>-E2BIG\<close> exactly if its buffer is too small.
\<close>

theorem msgsnd_exactly_once:
  assumes "ids_table_ok (msg_ids ns)" and "mslot ns l = Some q" and "msgsnd_locked ns q msg flg i pid now t = (Snd_ret Ok, ns', t')"
  shows "\<exists>q' res. mslot ns' l = Some q' \<and> r_msgs ns' = r_msgs ns @ res \<and> q_messages q' @ handed_over res = q_messages q @ [msg] \<and>
    list_all (result_ok msg) res \<and> length (q_receivers q') + length res = length (q_receivers q)"
proof -
  obtain rs res taker where p: "pipelined_send msg (q_receivers q) = (rs, res, taker)" by (cases "pipelined_send msg (q_receivers q)") auto
  note e = pipelined_exact [OF p] and n = pipelined_counts [OF p]
  let ?ns = "ns\<lparr>r_msgs := r_msgs ns @ res\<rparr>"
  have t: "ids_table_ok (msg_ids ?ns)" "mslot ?ns l = Some q" using assms(1,2) by (simp_all add: mslot_def)
  have d: "ns' = msgsnd_deliver ns q msg pid now" using assms(3) unfolding msgsnd_locked_def by (auto split: prod.splits if_splits)
  show ?thesis
  proof (cases taker)
    case (Some msr)
    let ?q = "q\<lparr>q_lspid := pid, q_stime := now, q_receivers := rs, q_lrpid := r_pid msr, q_rtime := now\<rparr>"
    have "ns' = store_queue ?ns ?q" using d p Some by (simp add: msgsnd_deliver_def)
    moreover have "mslot (store_queue ?ns ?q) l = Some ?q" using mslot_store(1) [OF t, of ?q] by simp
    ultimately show ?thesis using e n Some by (intro exI [of _ ?q] exI [of _ res]) simp
  next
    case None
    let ?q = "q\<lparr>q_lspid := pid, q_stime := now, q_receivers := rs, q_messages := q_messages q @ [msg], q_cbytes := q_cbytes q + of_nat (m_ts msg), q_qnum := q_qnum q + 1\<rparr>"
    have "ns' = store_queue ?ns ?q\<lparr>msg_bytes := msg_bytes ns + of_nat (m_ts msg), msg_hdrs := msg_hdrs ns + 1\<rparr>" using d p None by (simp add: msgsnd_deliver_def)
    moreover have "mslot (store_queue ?ns ?q) l = Some ?q" using mslot_store(1) [OF t, of ?q] by simp
    ultimately show ?thesis using e n None by (intro exI [of _ ?q] exI [of _ res]) (simp add: mslot_def)
  qed
qed

theorem msgsnd_exactly_once_witness:
  "\<exists>q' res. mslot msg_ns2 0 = Some q' \<and> r_msgs msg_ns2 = r_msgs msg_ns1 @ res \<and> q_messages q' @ handed_over res = q_messages empty_queue @ [one_msg] \<and>
    list_all (result_ok one_msg) res \<and> length (q_receivers q') + length res = length (q_receivers empty_queue)"
proof (rule msgsnd_exactly_once)
  show "ids_table_ok (msg_ids msg_ns1)" by (simp add: ids_table_ok_def idr_find_def ipcid_to_idx_def)
  show "mslot msg_ns1 0 = Some empty_queue" by (simp add: mslot_def idr_find_def)
  show "msgsnd_locked msg_ns1 empty_queue one_msg 0 1 42 11 msg_user = (Snd_ret Ok, msg_ns2, msg_user)"
    by (simp add: msgsnd_locked_def msg_lock_simps msg_fits_def msgsnd_deliver_def)
qed

lemma mslot_msg_bytes: "mslot (ns\<lparr>msg_bytes := b, msg_hdrs := h\<rparr>) l = mslot ns l"
  by (simp add: mslot_def)

section \<open>Receiving one message\<close>

text \<open>
  C39: \<^verbatim>\<open>msgrcv\<close> takes the right message.  In every reachable namespace, for every type a caller may give but the
  least \<^verbatim>\<open>long\<close> (for which the code is wrong, see \<^verbatim>\<open>least_type_finds_nothing\<close>), a call that returns a message takes out of the queue
  exactly the one that was asked for: the first one for type 0, the first one of a positive type (or with \<^verbatim>\<open>MSG_EXCEPT\<close> of
  another type), and for a negative type the first one of the lowest type that is at most its absolute value.  (The comment at
  \<^verbatim>\<open>convert_mode\<close> says less than; the code and POSIX say at most.)  It fails with \<^verbatim>\<open>-E2BIG\<close> only if that message is longer than the
  caller's buffer, and with \<^verbatim>\<open>-ENOMSG\<close> or by going to sleep only if no message is of the kind asked for; then the messages stay as they are.
\<close>

theorem msgrcv_selects:
  assumes "msg_step\<^sup>*\<^sup>* (msg_init_ns lowmem mem_unit nb_ns uns) ns" and "msg_lock_check ns msqid = Inr q"
    and "- (2 ^ 31) < msgtyp" and "do_msgrcv ns msqid msgsz msgtyp msgflg i pid now t = (out, ns', t')"
  shows "\<exists>q'. mslot ns' (ipcid_to_idx msqid) = Some q' \<and>
    (case out of
       Rcv_ret (Inr m) \<Rightarrow> \<exists>j. best_message msgtyp msgflg (q_messages q) j \<and> m = q_messages q ! j \<and>
         (m_ts m \<le> unat msgsz \<or> msgflg AND MSG_NOERROR \<noteq> 0) \<and> q_messages q' = take j (q_messages q) @ drop (Suc j) (q_messages q)
     | Rcv_ret (Inl e) \<Rightarrow> q_messages q' = q_messages q \<and>
         (e = EINVAL \<and> (msqid < 0 \<or> sint msgsz < 0) \<or> e = EACCES \<and> \<not> fst (ipcperms (msg_user_ns ns) q S_IRUGO t) \<or>
          e = E2BIG \<and> (\<exists>j. best_message msgtyp msgflg (q_messages q) j \<and> unat msgsz < m_ts (q_messages q ! j)) \<or>
          e = ENOMSG \<and> (\<forall>m \<in> set (q_messages q). \<not> asked_for msgtyp msgflg m))
     | Rcv_sleeps \<Rightarrow> q_messages q' = q_messages q \<and> (\<forall>m \<in> set (q_messages q). \<not> asked_for msgtyp msgflg m))"
proof -
  note s = lock_check_mslot [OF assms(2)]
  obtain mode mt where c: "convert_mode msgtyp msgflg = (mode, mt)" by fastforce
  have ns: "ids_table_ok (msg_ids ns)" using msgs.inv_reachable [OF _ assms(1)] by (auto simp: msg_init_def ns_ok_def)
  have "\<forall>m \<in> set (q_messages q). 1 \<le> m_type m" using reach_queue [OF assms(1) s] by (simp add: msq_ok_def counts_ok_def)
  note scan = scan_asked [OF c assms(3) this]
  show ?thesis
  proof (cases "msqid < 0 \<or> sint msgsz < 0")
    case True
    then show ?thesis using assms(4) s by (auto simp: do_msgrcv_def)
  next
    case False
    then have r: "msgrcv_locked ns q msgsz mt mode msgflg i pid now t = (out, ns', t')" using assms(2,4) c by (simp add: do_msgrcv_def)
    show ?thesis
    proof (cases "rcv_scan mode mt 0 None (q_messages q)")
      case None
      then show ?thesis using r s scan by (auto simp: msgrcv_locked_def Let_def mslot_store(1) [OF ns s] split: prod.splits if_splits)
    next
      case (Some j)
      then show ?thesis using r s scan
        by (auto simp: msgrcv_locked_def msgrcv_take_def Let_def mslot_store(1) [OF ns s] mslot_msg_bytes split: prod.splits if_splits)
    qed
  qed
qed

text \<open>A receiver of any type up to 4 gets the message of type 3.\<close>

theorem msgrcv_selects_witness:
  "\<exists>j. best_message (- 4) 0 [one_msg] j \<and> one_msg = [one_msg] ! j \<and> (m_ts one_msg \<le> 100 \<or> (0 :: u32) AND MSG_NOERROR \<noteq> 0)"
proof -
  have l: "msg_lock_check msg_ns2 0 = Inr one_queue" by (simp add: msg_lock_simps)
  have "do_msgrcv msg_ns2 0 100 (- 4) 0 9 42 12 msg_user = (Rcv_ret (Inr one_msg), msgrcv_take msg_ns2 one_queue 0 42 12, msg_user)"
    by (simp add: do_msgrcv_def convert_mode_def wrap_s_def msgrcv_locked_def msg_lock_simps testmsg_def)
  from msgrcv_selects [OF msg_demo_run2 l _ this] show ?thesis by auto
qed

end
