(* ===== verification/Memblock.thy ===== *)
theory Memblock
  imports Kernel_Prelude
begin

text \<open>
  The table of memory regions at boot, \<^verbatim>\<open>mm/memblock.c\<close>, on ARM with 32-bit physical addresses.  The first \<^verbatim>\<open>cnt\<close> entries of
  an array of regions are a list; \<open>array_pa\<close> is where the array lies, \<open>None\<close> for the static one.  \<^verbatim>\<open>BUG_ON\<close> is \<open>None\<close>; a
  result of 0 or -1 is a truth value.  \<open>slab\<close> is \<open>None\<close> while \<^verbatim>\<open>slab_is_available\<close> is false, and otherwise what
  \<^verbatim>\<open>kmalloc\<close> gives.
\<close>

section \<open>Data\<close>

record memblock_region =
  rgn_base :: u32
  rgn_size :: u32

record memblock_type =
  rgn_max :: nat
  array_pa :: "u32 option"
  regions :: "memblock_region list"

record memblock =
  current_limit :: u32
  memory_size :: u32
  mb_memory :: memblock_type
  mb_reserved :: memblock_type
  memblock_can_resize :: bool

datatype memblock_kind = Memory | Reserved

definition mb_get :: "memblock_kind \<Rightarrow> memblock \<Rightarrow> memblock_type" where
  "mb_get k mb = (case k of Memory \<Rightarrow> mb_memory mb | Reserved \<Rightarrow> mb_reserved mb)"

definition mb_put :: "memblock_kind \<Rightarrow> memblock_type \<Rightarrow> memblock \<Rightarrow> memblock" where
  "mb_put k t mb = (case k of Memory \<Rightarrow> mb\<lparr>mb_memory := t\<rparr> | Reserved \<Rightarrow> mb\<lparr>mb_reserved := t\<rparr>)"

definition put_regions :: "memblock_kind \<Rightarrow> memblock_region list \<Rightarrow> memblock \<Rightarrow> memblock" where
  "put_regions k rs mb = mb_put k ((mb_get k mb)\<lparr>regions := rs\<rparr>) mb"

abbreviation (input) MEMBLOCK_ERROR :: u32 where "MEMBLOCK_ERROR \<equiv> 0"
abbreviation (input) MEMBLOCK_ALLOC_ACCESSIBLE :: u32 where "MEMBLOCK_ALLOC_ACCESSIBLE \<equiv> 0"
abbreviation (input) MEMBLOCK_ALLOC_ANYWHERE :: u32 where "MEMBLOCK_ALLOC_ANYWHERE \<equiv> - 1"
abbreviation (input) INIT_MEMBLOCK_REGIONS :: nat where "INIT_MEMBLOCK_REGIONS \<equiv> 128"
abbreviation (input) PAGE_SIZE :: u32 where "PAGE_SIZE \<equiv> 4096"
abbreviation (input) filler :: memblock_region where "filler \<equiv> \<lparr>rgn_base = 0, rgn_size = 0\<rparr>"

definition rgn_end :: "memblock_region \<Rightarrow> u32" where "rgn_end r = rgn_base r + rgn_size r"

section \<open>Finding room\<close>

definition memblock_align_down :: "u32 \<Rightarrow> u32 \<Rightarrow> u32" where
  "memblock_align_down addr sz = addr AND NOT (sz - 1)"

definition memblock_align_up :: "u32 \<Rightarrow> u32 \<Rightarrow> u32" where
  "memblock_align_up addr sz = (addr + (sz - 1)) AND NOT (sz - 1)"

definition memblock_addrs_overlap :: "u32 \<Rightarrow> u32 \<Rightarrow> u32 \<Rightarrow> u32 \<Rightarrow> bool" where
  "memblock_addrs_overlap base1 size1 base2 size2 \<longleftrightarrow> base1 < base2 + size2 \<and> base2 < base1 + size1"

fun memblock_overlaps_region :: "memblock_region list \<Rightarrow> u32 \<Rightarrow> u32 \<Rightarrow> nat option" where
  "memblock_overlaps_region [] base sz = None"
| "memblock_overlaps_region (r # rs) base sz =
     (if memblock_addrs_overlap base sz (rgn_base r) (rgn_size r) then Some 0
      else map_option Suc (memblock_overlaps_region rs base sz))"

text \<open>The loop of \<^verbatim>\<open>memblock_find_region\<close>, over the reserved regions \<open>rs\<close>.\<close>

partial_function (option) find_region_loop :: "memblock_region list \<Rightarrow> u32 \<Rightarrow> u32 \<Rightarrow> u32 \<Rightarrow> u32 \<Rightarrow> u32 option" where
  "find_region_loop rs start sz align base =
     (if start \<le> base
      then (case memblock_overlaps_region rs base sz of
              None \<Rightarrow> Some base
            | Some j \<Rightarrow>
                if rgn_base (rs ! j) < sz then Some MEMBLOCK_ERROR
                else find_region_loop rs start sz align (memblock_align_down (rgn_base (rs ! j) - sz) align))
      else Some MEMBLOCK_ERROR)"

definition memblock_find_region :: "memblock_region list \<Rightarrow> u32 \<Rightarrow> u32 \<Rightarrow> u32 \<Rightarrow> u32 \<Rightarrow> u32 option" where
  "memblock_find_region rs start en sz align =
     (if en < sz then Some MEMBLOCK_ERROR
      else find_region_loop rs (if start = 0 then PAGE_SIZE else start) sz align (memblock_align_down (en - sz) align))"

text \<open>The loop of \<^verbatim>\<open>memblock_find_base\<close>, over the memory regions from the last to the first.\<close>

fun find_base_loop :: "memblock_region list \<Rightarrow> memblock_region list \<Rightarrow> u32 \<Rightarrow> u32 \<Rightarrow> u32 \<Rightarrow> u32 \<Rightarrow> u32 option" where
  "find_base_loop rs [] sz align start en = Some MEMBLOCK_ERROR"
| "find_base_loop rs (m # ms) sz align start en =
     (if rgn_size m < sz then find_base_loop rs ms sz align start en
      else if rgn_end m \<le> start then Some MEMBLOCK_ERROR
      else (let bottom = max (rgn_base m) start; lim = min (rgn_end m) en
            in if bottom \<ge> lim then find_base_loop rs ms sz align start en
               else (case memblock_find_region rs bottom lim sz align of
                       None \<Rightarrow> None
                     | Some found \<Rightarrow> if found \<noteq> MEMBLOCK_ERROR then Some found else find_base_loop rs ms sz align start en)))"

definition memblock_find_base :: "memblock \<Rightarrow> u32 \<Rightarrow> u32 \<Rightarrow> u32 \<Rightarrow> u32 \<Rightarrow> u32 option" where
  "memblock_find_base mb sz align start en =
     (if sz = 0 then None
      else find_base_loop (regions (mb_reserved mb)) (rev (regions (mb_memory mb))) sz align start
             (if en = MEMBLOCK_ALLOC_ACCESSIBLE then current_limit mb else en))"

definition memblock_find_in_range :: "memblock \<Rightarrow> u64 \<Rightarrow> u64 \<Rightarrow> u64 \<Rightarrow> u64 \<Rightarrow> u64 option" where
  "memblock_find_in_range mb start en sz align = map_option ucast (memblock_find_base mb (ucast sz) (ucast align) (ucast start) (ucast en))"

section \<open>Adding and removing regions\<close>

definition memblock_remove_region :: "memblock_region list \<Rightarrow> nat \<Rightarrow> memblock_region list" where
  "memblock_remove_region rs r =
     (let rs' = take r rs @ drop (Suc r) rs in if rs' = [] then [filler] else rs')"

definition memblock_memory_can_coalesce :: "u32 \<Rightarrow> u32 \<Rightarrow> u32 \<Rightarrow> u32 \<Rightarrow> bool" where
  "memblock_memory_can_coalesce addr1 size1 addr2 size2 = True"

text \<open>
  The first loop of \<^verbatim>\<open>memblock_add_region\<close>: the regions passed and those to come.  It ends with nothing left to add, at
  the end of the loop, or at \<^verbatim>\<open>new_block\<close>.  An array that becomes empty gets the filler, where the loop ends.
\<close>

datatype add_scan_result =
    Add_done "memblock_region list"
  | Add_end u32 u32 "memblock_region list"
  | Add_block u32 u32 "memblock_region list"

fun add_scan :: "memblock_region list \<Rightarrow> memblock_region list \<Rightarrow> u32 \<Rightarrow> u32 \<Rightarrow> u32 \<Rightarrow> add_scan_result" where
  "add_scan pre [] base sz en = Add_end base sz pre"
| "add_scan pre (rgn # rest) base sz en =
     (let rend = rgn_end rgn;
          bottom = (base < rgn_base rgn \<and> en \<ge> rgn_base rgn)
      in if rgn_base rgn > en \<or> rgn_size rgn = 0 then Add_end base sz (pre @ rgn # rest)
         else if rgn_base rgn \<le> base \<and> rend \<ge> en then Add_done (pre @ rgn # rest)
         else if bottom \<and> \<not> memblock_memory_can_coalesce base sz (rgn_base rgn) (rgn_size rgn) then Add_block base sz (pre @ rgn # rest)
         else (let rgn' = (if bottom then \<lparr>rgn_base = base, rgn_size = rend - base\<rparr> else rgn)
               in if bottom \<and> rend \<ge> en then Add_done (pre @ rgn' # rest)
                  else (let base' = (if bottom then rend else base);
                            sz' = (if bottom then en - rend else sz)
                        in if base' \<le> rend \<and> en \<ge> rend
                           then if \<not> memblock_memory_can_coalesce (rgn_base rgn') (rgn_size rgn') base' sz' then Add_block base' sz' (pre @ rgn' # rest)
                                else if pre @ rest = [] then Add_end (rgn_base rgn') (sz' + (base' - rgn_base rgn')) [filler]
                                else add_scan pre rest (rgn_base rgn') (sz' + (base' - rgn_base rgn')) en
                           else add_scan (pre @ [rgn']) rest base' sz' en)))"

text \<open>The second loop: the entries above the new one move up.  The result is the new list and \<^verbatim>\<open>slot\<close>.\<close>

definition insert_block :: "u32 \<Rightarrow> u32 \<Rightarrow> memblock_region list \<Rightarrow> memblock_region list \<times> nat" where
  "insert_block base sz rs =
     (let new = \<lparr>rgn_base = base, rgn_size = sz\<rparr>;
          above = rev (takeWhile (\<lambda>r. base < rgn_base r) (rev rs));
          below = rev (dropWhile (\<lambda>r. base < rgn_base r) (rev rs));
          moved = (if below = [] then hd rs # rs else below @ new # above)
      in if base < rgn_base (hd moved) then (moved[0 := new], 0) else (moved, length below))"

datatype remove_scan_result =
    Remove_end "memblock_region list"
  | Remove_split "memblock_region list" memblock_region "memblock_region list"

fun remove_scan :: "memblock_region list \<Rightarrow> memblock_region list \<Rightarrow> u32 \<Rightarrow> u32 \<Rightarrow> remove_scan_result" where
  "remove_scan pre [] base en = Remove_end pre"
| "remove_scan pre (rgn # rest) base en =
     (let rend = rgn_end rgn
      in if rgn_base rgn > en \<or> rgn_size rgn = 0 then Remove_end (pre @ rgn # rest)
         else if base \<le> rgn_base rgn \<and> en \<ge> rend
         then if pre @ rest = [] then Remove_end [filler] else remove_scan pre rest base en
         else if base > rgn_base rgn \<and> en < rend then Remove_split pre rgn rest
         else if rgn_base rgn < en \<and> rend > en
         then Remove_end (pre @ \<lparr>rgn_base = en, rgn_size = rgn_size rgn - (en - rgn_base rgn)\<rparr> # rest)
         else remove_scan (pre @ [if base < rend then rgn\<lparr>rgn_size := rgn_size rgn - (rend - base)\<rparr> else rgn]) rest base en)"

text \<open>
  Adding to a full array doubles it, which itself adds and frees regions, and freeing can add.  Each of the
  three functions gets the one it calls as an argument, and \<open>memblock_add_region\<close> ties the knot with \<open>fuel\<close> for
  the depth of calls; the reserved table needs 2 (\<open>add_reserved\<close>) and the memory table, whose new array is reserved,
  one more.  Running out of it is \<open>None\<close> like a \<^verbatim>\<open>BUG_ON\<close>.
\<close>

type_synonym region_call = "memblock_kind \<Rightarrow> u32 \<Rightarrow> u32 \<Rightarrow> memblock \<Rightarrow> (bool \<times> memblock) option"

abbreviation (input) region_bytes :: u32 where "region_bytes \<equiv> 8"

definition add_new_block ::
  "(memblock_kind \<Rightarrow> memblock \<Rightarrow> (bool \<times> memblock) option) \<Rightarrow> memblock_kind \<Rightarrow> u32 \<Rightarrow> u32 \<Rightarrow> memblock_region list \<Rightarrow> memblock \<Rightarrow>
   (bool \<times> memblock) option" where
  "add_new_block double_array k b s rs mb =
     (if length rs \<ge> rgn_max (mb_get k mb) then Some (False, put_regions k rs mb)
      else (let (rs', slot) = insert_block b s rs;
                mb' = put_regions k rs' mb
            in if length rs' = rgn_max (mb_get k mb)
               then (case double_array k mb' of
                       None \<Rightarrow> None
                     | Some (ok, mb'') \<Rightarrow>
                         if ok then Some (True, mb'')
                         else Some (False, put_regions k (memblock_remove_region (regions (mb_get k mb'')) slot) mb''))
               else Some (True, mb')))"

definition add_region_body :: "(memblock_kind \<Rightarrow> memblock \<Rightarrow> (bool \<times> memblock) option) \<Rightarrow> region_call" where
  "add_region_body double_array k base sz mb =
     (case add_scan [] (regions (mb_get k mb)) base sz (base + sz) of
        Add_done rs \<Rightarrow> Some (True, put_regions k rs mb)
      | Add_end b s rs \<Rightarrow>
          if length rs = 1 \<and> rgn_size (hd rs) = 0 then Some (True, put_regions k [\<lparr>rgn_base = b, rgn_size = s\<rparr>] mb)
          else add_new_block double_array k b s rs mb
      | Add_block b s rs \<Rightarrow> add_new_block double_array k b s rs mb)"

definition do_memblock_remove :: "region_call \<Rightarrow> region_call" where
  "do_memblock_remove add_region k base sz mb =
     (case remove_scan [] (regions (mb_get k mb)) base (base + sz) of
        Remove_end rs \<Rightarrow> Some (True, put_regions k rs mb)
      | Remove_split pre rgn rest \<Rightarrow>
          (case add_region k (base + sz) (rgn_end rgn - (base + sz))
                  (put_regions k (pre @ rgn\<lparr>rgn_size := base - rgn_base rgn\<rparr> # rest) mb) of
             None \<Rightarrow> None
           | Some (ok, mb') \<Rightarrow>
               if ok then Some (True, mb')
               else Some (False, put_regions k ((regions (mb_get k mb'))
                      [length pre := (regions (mb_get k mb') ! length pre)\<lparr>rgn_size := rgn_end rgn - rgn_base rgn\<rparr>]) mb')))"

definition memblock_double_array :: "region_call \<Rightarrow> u32 option option \<Rightarrow> memblock_kind \<Rightarrow> memblock \<Rightarrow> (bool \<times> memblock) option" where
  "memblock_double_array add_region slab k mb =
     (let t = mb_get k mb;
          old_size = of_nat (rgn_max t) * region_bytes;
          new_size = push_bit 1 old_size
      in if \<not> memblock_can_resize mb then Some (False, mb)
         else (case (case slab of None \<Rightarrow> memblock_find_base mb new_size 4 0 MEMBLOCK_ALLOC_ACCESSIBLE
                     | Some r \<Rightarrow> Some (case r of None \<Rightarrow> MEMBLOCK_ERROR | Some a \<Rightarrow> a)) of
                 None \<Rightarrow> None
               | Some addr \<Rightarrow>
                   if addr = MEMBLOCK_ERROR then Some (False, mb)
                   else (let mb1 = mb_put k (t\<lparr>array_pa := Some addr, rgn_max := rgn_max t * 2\<rparr>) mb
                         in if slab \<noteq> None then Some (True, mb1)
                            else (case add_region Reserved addr new_size mb1 of
                                    None \<Rightarrow> None
                                  | Some (ok, mb2) \<Rightarrow>
                                      if \<not> ok then None
                                      else (case array_pa t of
                                              None \<Rightarrow> Some (True, mb2)
                                            | Some old \<Rightarrow>
                                                map_option (\<lambda>(_, mb3). (True, mb3)) (do_memblock_remove add_region Reserved old old_size mb2))))))"

primrec memblock_add_region :: "nat \<Rightarrow> u32 option option \<Rightarrow> region_call" where
  "memblock_add_region 0 slab = (\<lambda>k base sz mb. None)"
| "memblock_add_region (Suc fuel) slab = add_region_body (memblock_double_array (memblock_add_region fuel slab) slab)"

abbreviation add_region :: "u32 option option \<Rightarrow> region_call" where "add_region \<equiv> memblock_add_region 3"

definition memblock_add :: "u32 option option \<Rightarrow> u32 \<Rightarrow> u32 \<Rightarrow> memblock \<Rightarrow> (bool \<times> memblock) option" where
  "memblock_add slab base sz mb = add_region slab Memory base sz mb"

definition memblock_remove :: "u32 option option \<Rightarrow> u32 \<Rightarrow> u32 \<Rightarrow> memblock \<Rightarrow> (bool \<times> memblock) option" where
  "memblock_remove slab base sz mb = do_memblock_remove (add_region slab) Memory base sz mb"

definition memblock_free :: "u32 option option \<Rightarrow> u32 \<Rightarrow> u32 \<Rightarrow> memblock \<Rightarrow> (bool \<times> memblock) option" where
  "memblock_free slab base sz mb = do_memblock_remove (add_region slab) Reserved base sz mb"

definition memblock_reserve :: "u32 option option \<Rightarrow> u32 \<Rightarrow> u32 \<Rightarrow> memblock \<Rightarrow> (bool \<times> memblock) option" where
  "memblock_reserve slab base sz mb = (if sz = 0 then None else add_region slab Reserved base sz mb)"

definition memblock_free_reserved_regions :: "u32 option option \<Rightarrow> memblock \<Rightarrow> (bool \<times> memblock) option" where
  "memblock_free_reserved_regions slab mb =
     (case array_pa (mb_reserved mb) of
        None \<Rightarrow> Some (True, mb)
      | Some pa \<Rightarrow> memblock_free slab pa (region_bytes * of_nat (rgn_max (mb_reserved mb))) mb)"

definition memblock_reserve_reserved_regions :: "u32 option option \<Rightarrow> memblock \<Rightarrow> (bool \<times> memblock) option" where
  "memblock_reserve_reserved_regions slab mb =
     (case array_pa (mb_reserved mb) of
        None \<Rightarrow> Some (True, mb)
      | Some pa \<Rightarrow> memblock_reserve slab pa (region_bytes * of_nat (rgn_max (mb_reserved mb))) mb)"

section \<open>Allocation\<close>

definition do_memblock_alloc_base :: "u32 option option \<Rightarrow> u32 \<Rightarrow> u32 \<Rightarrow> u32 \<Rightarrow> memblock \<Rightarrow> (u32 \<times> memblock) option" where
  "do_memblock_alloc_base slab sz align max_addr mb =
     (let sz = memblock_align_up sz align
      in case memblock_find_base mb sz align 0 max_addr of
           None \<Rightarrow> None
         | Some found \<Rightarrow>
             if found = MEMBLOCK_ERROR then Some (0, mb)
             else map_option (\<lambda>(ok, mb'). (if ok then found else 0, mb')) (add_region slab Reserved found sz mb))"

text \<open>A \<^verbatim>\<open>panic\<close> ends the boot.\<close>

datatype alloc_result = Allocated u32 | Panic

definition memblock_alloc_base :: "u32 option option \<Rightarrow> u32 \<Rightarrow> u32 \<Rightarrow> u32 \<Rightarrow> memblock \<Rightarrow> (alloc_result \<times> memblock) option" where
  "memblock_alloc_base slab sz align max_addr mb =
     map_option (\<lambda>(a, mb'). (if a = 0 then Panic else Allocated a, mb')) (do_memblock_alloc_base slab sz align max_addr mb)"

definition memblock_alloc :: "u32 option option \<Rightarrow> u32 \<Rightarrow> u32 \<Rightarrow> memblock \<Rightarrow> (alloc_result \<times> memblock) option" where
  "memblock_alloc slab sz align mb = memblock_alloc_base slab sz align MEMBLOCK_ALLOC_ACCESSIBLE mb"

text \<open>Without a map of nodes (the configuration without \<^verbatim>\<open>CONFIG_ARCH_POPULATES_NODE_MAP\<close>, as on ARM) all memory is of node 0, and the loop of \<^verbatim>\<open>memblock_alloc_nid_region\<close> runs at most once.\<close>

definition memblock_nid_range :: "u32 \<Rightarrow> u32 \<Rightarrow> nat \<times> u32" where
  "memblock_nid_range start en = (0, en)"

definition memblock_alloc_nid_region ::
  "u32 option option \<Rightarrow> memblock_region \<Rightarrow> u32 \<Rightarrow> u32 \<Rightarrow> nat \<Rightarrow> memblock \<Rightarrow> (u32 \<times> memblock) option" where
  "memblock_alloc_nid_region slab mp sz align nid mb =
     (let start = memblock_align_up (rgn_base mp) align;
          (this_nid, this_end) = memblock_nid_range start (rgn_end mp)
      in if start < rgn_end mp \<and> this_nid = nid
         then (case memblock_find_region (regions (mb_reserved mb)) start this_end sz align of
                 None \<Rightarrow> None
               | Some ret \<Rightarrow>
                   if ret = MEMBLOCK_ERROR then Some (MEMBLOCK_ERROR, mb)
                   else map_option (\<lambda>(ok, mb'). (if ok then ret else MEMBLOCK_ERROR, mb')) (add_region slab Reserved ret sz mb))
         else Some (MEMBLOCK_ERROR, mb))"

fun alloc_nid_loop :: "u32 option option \<Rightarrow> memblock_region list \<Rightarrow> u32 \<Rightarrow> u32 \<Rightarrow> nat \<Rightarrow> memblock \<Rightarrow> (u32 \<times> memblock) option" where
  "alloc_nid_loop slab [] sz align nid mb = Some (0, mb)"
| "alloc_nid_loop slab (mp # mps) sz align nid mb =
     (case memblock_alloc_nid_region slab mp sz align nid mb of
        None \<Rightarrow> None
      | Some (ret, mb') \<Rightarrow> if ret \<noteq> MEMBLOCK_ERROR then Some (ret, mb') else alloc_nid_loop slab mps sz align nid mb')"

definition memblock_alloc_nid :: "u32 option option \<Rightarrow> u32 \<Rightarrow> u32 \<Rightarrow> nat \<Rightarrow> memblock \<Rightarrow> (u32 \<times> memblock) option" where
  "memblock_alloc_nid slab sz align nid mb =
     (if sz = 0 then None else alloc_nid_loop slab (regions (mb_memory mb)) (memblock_align_up sz align) align nid mb)"

definition memblock_alloc_try_nid :: "u32 option option \<Rightarrow> u32 \<Rightarrow> u32 \<Rightarrow> nat \<Rightarrow> memblock \<Rightarrow> (alloc_result \<times> memblock) option" where
  "memblock_alloc_try_nid slab sz align nid mb =
     (case memblock_alloc_nid slab sz align nid mb of
        None \<Rightarrow> None
      | Some (res, mb') \<Rightarrow>
          if res \<noteq> 0 then Some (Allocated res, mb') else memblock_alloc_base slab sz align MEMBLOCK_ALLOC_ANYWHERE mb')"

section \<open>Remaining functions\<close>

definition memblock_phys_mem_size :: "memblock \<Rightarrow> u32" where
  "memblock_phys_mem_size mb = memory_size mb"

definition memblock_end_of_DRAM :: "memblock \<Rightarrow> u32" where
  "memblock_end_of_DRAM mb = rgn_end (last (regions (mb_memory mb)))"

fun limit_memory :: "u32 \<Rightarrow> memblock_region list \<Rightarrow> memblock_region list" where
  "limit_memory limit [] = []"
| "limit_memory limit (r # rs) =
     (if limit > rgn_size r then r # limit_memory (limit - rgn_size r) rs else [r\<lparr>rgn_size := limit\<rparr>])"

text \<open>The second loop of \<^verbatim>\<open>memblock_enforce_memory_limit\<close>; an index that is decremented is looked at again.\<close>

partial_function (option) limit_reserved :: "u32 \<Rightarrow> nat \<Rightarrow> memblock_region list \<Rightarrow> memblock_region list option" where
  "limit_reserved limit i rs =
     (if i < length rs
      then (let p = rs ! i;
                p' = (if rgn_base p > limit then p\<lparr>rgn_size := 0\<rparr>
                      else if rgn_end p > limit then p\<lparr>rgn_size := limit - rgn_base p\<rparr> else p)
            in if rgn_size p' = 0 then limit_reserved limit i (memblock_remove_region (rs[i := p']) i)
               else limit_reserved limit (Suc i) (rs[i := p']))
      else Some rs)"

definition memblock_enforce_memory_limit :: "u32 \<Rightarrow> memblock \<Rightarrow> memblock option" where
  "memblock_enforce_memory_limit memory_limit mb =
     (if memory_limit = 0 then Some mb
      else (let mb1 = put_regions Memory (limit_memory memory_limit (regions (mb_memory mb))) mb
            in map_option (\<lambda>rs. put_regions Reserved rs mb1)
                 (limit_reserved (memblock_end_of_DRAM mb1) 0 (regions (mb_reserved mb1)))))"

function memblock_search_loop :: "memblock_region list \<Rightarrow> u32 \<Rightarrow> nat \<Rightarrow> nat \<Rightarrow> nat option" where
  "memblock_search_loop rs addr left right =
     (let mid = (right + left) div 2
      in if addr < rgn_base (rs ! mid) then (if left < mid then memblock_search_loop rs addr left mid else None)
         else if addr \<ge> rgn_end (rs ! mid) then (if Suc mid < right then memblock_search_loop rs addr (Suc mid) right else None)
         else Some mid)"
  by pat_completeness auto
termination
  by (relation "measure (\<lambda>(rs, addr, left, right). right - left)") auto

declare memblock_search_loop.simps [simp del]

definition memblock_search :: "memblock_region list \<Rightarrow> u32 \<Rightarrow> nat option" where
  "memblock_search rs addr = memblock_search_loop rs addr 0 (length rs)"

definition memblock_is_reserved :: "memblock \<Rightarrow> u32 \<Rightarrow> bool" where
  "memblock_is_reserved mb addr \<longleftrightarrow> memblock_search (regions (mb_reserved mb)) addr \<noteq> None"

definition memblock_is_memory :: "memblock \<Rightarrow> u32 \<Rightarrow> bool" where
  "memblock_is_memory mb addr \<longleftrightarrow> memblock_search (regions (mb_memory mb)) addr \<noteq> None"

definition memblock_is_region_memory :: "memblock \<Rightarrow> u32 \<Rightarrow> u32 \<Rightarrow> bool" where
  "memblock_is_region_memory mb base sz \<longleftrightarrow>
     (case memblock_search (regions (mb_memory mb)) base of
        None \<Rightarrow> False
      | Some idx \<Rightarrow> (let r = regions (mb_memory mb) ! idx in rgn_base r \<le> base \<and> rgn_end r \<ge> base + sz))"

definition memblock_is_region_reserved :: "memblock \<Rightarrow> u32 \<Rightarrow> u32 \<Rightarrow> bool" where
  "memblock_is_region_reserved mb base sz \<longleftrightarrow> memblock_overlaps_region (regions (mb_reserved mb)) base sz \<noteq> None"

definition memblock_set_current_limit :: "u32 \<Rightarrow> memblock \<Rightarrow> memblock" where
  "memblock_set_current_limit limit mb = mb\<lparr>current_limit := limit\<rparr>"

definition memblock_analyze :: "memblock \<Rightarrow> memblock" where
  "memblock_analyze mb =
     mb\<lparr>memory_size := fold (\<lambda>r s. s + rgn_size r) (regions (mb_memory mb)) 0, memblock_can_resize := True\<rparr>"

text \<open>The state that the first call of \<^verbatim>\<open>memblock_init\<close> leaves; later calls do nothing.\<close>

definition memblock_init :: memblock where
  "memblock_init =
     \<lparr>current_limit = MEMBLOCK_ALLOC_ANYWHERE, memory_size = 0,
      mb_memory = \<lparr>rgn_max = INIT_MEMBLOCK_REGIONS, array_pa = None, regions = [filler]\<rparr>,
      mb_reserved = \<lparr>rgn_max = INIT_MEMBLOCK_REGIONS, array_pa = None, regions = [filler]\<rparr>,
      memblock_can_resize = False\<rparr>"

text \<open>The page frames of a region.\<close>

definition PFN_UP :: "u32 \<Rightarrow> u32" where "PFN_UP x = drop_bit 12 (x + PAGE_SIZE - 1)"
definition PFN_DOWN :: "u32 \<Rightarrow> u32" where "PFN_DOWN x = drop_bit 12 x"

definition memblock_region_memory_base_pfn :: "memblock_region \<Rightarrow> u32" where
  "memblock_region_memory_base_pfn r = PFN_UP (rgn_base r)"
definition memblock_region_memory_end_pfn :: "memblock_region \<Rightarrow> u32" where
  "memblock_region_memory_end_pfn r = PFN_DOWN (rgn_end r)"
definition memblock_region_reserved_base_pfn :: "memblock_region \<Rightarrow> u32" where
  "memblock_region_reserved_base_pfn r = PFN_DOWN (rgn_base r)"
definition memblock_region_reserved_end_pfn :: "memblock_region \<Rightarrow> u32" where
  "memblock_region_reserved_end_pfn r = PFN_UP (rgn_end r)"

end
