(* ===== verification/Memblock_Regions.thy ===== *)
theory Memblock_Regions
  imports Memblock
begin

text \<open>
  What a table of regions stands for: a set of addresses.  Adding and removing regions are union and difference
  of sets, and the table stays ordered, with gaps between its regions.
\<close>

section \<open>Tables\<close>

definition lo :: "memblock_region \<Rightarrow> nat" where "lo r = unat (rgn_base r)"
definition hi :: "memblock_region \<Rightarrow> nat" where "hi r = unat (rgn_base r) + unat (rgn_size r)"

definition covered :: "memblock_region list \<Rightarrow> nat set" where
  "covered rs = (\<Union>r \<in> set rs. {lo r ..< hi r})"

text \<open>No region is empty or reaches the end of the address space.\<close>

definition rgn_ok :: "memblock_region \<Rightarrow> bool" where
  "rgn_ok r \<longleftrightarrow> lo r < hi r \<and> hi r < 2 ^ 32"

definition gapped :: "memblock_region list \<Rightarrow> bool" where
  "gapped rs \<longleftrightarrow> (\<forall>r \<in> set rs. rgn_ok r) \<and> sorted_wrt (\<lambda>r s. hi r < lo s) rs"

definition region_table_ok :: "memblock_region list \<Rightarrow> bool" where
  "region_table_ok rs \<longleftrightarrow> rs = [filler] \<or> rs \<noteq> [] \<and> gapped rs"

lemma covered_simps [simp]: "covered [] = {}" "covered (r # rs) = {lo r ..< hi r} \<union> covered rs" "covered (rs @ rs') = covered rs \<union> covered rs'"
  by (auto simp: covered_def)

lemma filler_simps [simp]: "lo filler = 0" "hi filler = 0"
  by (simp_all add: lo_def hi_def)

lemma covered_filler: "covered [filler] = {}"
  by simp

lemma gapped_Nil [simp]: "gapped []"
  by (simp add: gapped_def)

lemma gapped_append:
  "gapped (rs @ rs') \<longleftrightarrow> gapped rs \<and> gapped rs' \<and> (\<forall>r \<in> set rs. \<forall>s \<in> set rs'. hi r < lo s)"
  by (auto simp: gapped_def sorted_wrt_append)

lemma gapped_Cons: "gapped (r # rs) \<longleftrightarrow> rgn_ok r \<and> gapped rs \<and> (\<forall>s \<in> set rs. hi r < lo s)"
  by (auto simp: gapped_def)

lemma rgn_end_hi: "rgn_ok r \<Longrightarrow> unat (rgn_end r) = hi r"
  using unat_add_lem [of "rgn_base r" "rgn_size r"] by (simp add: rgn_end_def hi_def rgn_ok_def)

lemma unat_diff: "b \<le> e \<Longrightarrow> unat (e - b :: u32) = unat e - unat b"
  by (simp add: unat_sub)

text \<open>A region from a lower to a higher address.\<close>

lemma region_between:
  assumes "b < e"
  shows "lo \<lparr>rgn_base = b, rgn_size = e - b\<rparr> = unat b" "hi \<lparr>rgn_base = b, rgn_size = e - b\<rparr> = unat e" "rgn_ok \<lparr>rgn_base = b, rgn_size = e - b\<rparr>"
  using assms unat_bound [of e] by (simp_all add: lo_def hi_def rgn_ok_def unat_diff word_less_nat_alt order.strict_implies_order)

section \<open>Adding\<close>

declare add_scan.simps(2) [simp del] remove_scan.simps(2) [simp del]

text \<open>What is known when the scan ends: what is below the block, what is above it, and that together nothing is lost.\<close>

definition add_scan_left :: "memblock_region list \<Rightarrow> u32 \<Rightarrow> u32 \<Rightarrow> memblock_region list \<Rightarrow> nat \<Rightarrow> nat set \<Rightarrow> bool" where
  "add_scan_left rs b en out n A \<longleftrightarrow> b < en \<and>
     (out = [filler] \<and> {unat b ..< unat en} = A \<or>
      (\<exists>lower upper. out = lower @ upper \<and> out \<noteq> [] \<and> gapped out \<and> (\<forall>r \<in> set lower. hi r < unat b) \<and> (\<forall>r \<in> set upper. unat en < lo r) \<and>
         covered out \<union> {unat b ..< unat en} = A \<and> length out \<le> n \<and> (length out = n \<longrightarrow> out = rs)))"

definition add_scan_ok :: "memblock_region list \<Rightarrow> u32 \<Rightarrow> nat \<Rightarrow> nat set \<Rightarrow> add_scan_result \<Rightarrow> bool" where
  "add_scan_ok rs en n A res \<longleftrightarrow>
     (case res of
        Add_done out \<Rightarrow> out \<noteq> [] \<and> gapped out \<and> length out \<le> n \<and> covered out = A
      | Add_end b s out \<Rightarrow> s = en - b \<and> add_scan_left rs b en out n A
      | Add_block b s out \<Rightarrow> False)"


lemma scan_left_here:
  assumes "gapped (pre @ rest)" and "pre @ rest \<noteq> []" and "b < en" and "\<forall>p \<in> set pre. hi p < unat b" and "\<forall>r \<in> set rest. unat en < lo r"
    and "length (pre @ rest) \<le> n" and "length (pre @ rest) = n \<longrightarrow> pre @ rest = rs"
  shows "add_scan_ok rs en n (covered (pre @ rest) \<union> {unat b ..< unat en}) (Add_end b (en - b) (pre @ rest))"
  using assms unfolding add_scan_ok_def add_scan_left_def by (simp only: add_scan_result.case) blast

lemma add_scan_exact:
  assumes "gapped (pre @ rest)" and "pre @ rest \<noteq> []" and "b < en" and "sz = en - b" and "\<forall>p \<in> set pre. hi p < unat b"
    and "length (pre @ rest) \<le> n" and "length (pre @ rest) = n \<longrightarrow> pre @ rest = rs"
  shows "add_scan_ok rs en n (covered (pre @ rest) \<union> {unat b ..< unat en}) (add_scan pre rest b sz en)"
  using assms
proof (induction rest arbitrary: pre b sz)
  case Nil
  then show ?case using scan_left_here [of pre "[]" b en n rs] by simp
next
  case (Cons rgn rest)
  let ?rs = "pre @ rgn # rest" and ?b = "unat b" and ?e = "unat en"
  have rgn: "rgn_ok rgn" and upper: "\<forall>r \<in> set rest. hi rgn < lo r" and pre: "\<forall>p \<in> set pre. hi p < lo rgn"
    and gap: "gapped pre" "gapped rest" "\<forall>p \<in> set pre. \<forall>r \<in> set rest. hi p < lo r"
    using Cons.prems(1) by (auto simp: gapped_append gapped_Cons)
  note e = rgn_end_hi [OF rgn]
  have sz: "sz = en - b" and be: "?b < ?e" using Cons.prems(3,4) by (simp_all add: word_less_nat_alt)
  have lohi: "lo rgn < hi rgn" using rgn by (simp add: rgn_ok_def)
  have nz: "rgn_size rgn \<noteq> 0" using lohi by (auto simp: lo_def hi_def)
  have base: "rgn_base rgn > en \<longleftrightarrow> lo rgn > ?e" "rgn_base rgn \<le> b \<longleftrightarrow> lo rgn \<le> ?b" "b < rgn_base rgn \<longleftrightarrow> ?b < lo rgn" "en \<ge> rgn_base rgn \<longleftrightarrow> lo rgn \<le> ?e"
    "rgn_end rgn \<ge> en \<longleftrightarrow> ?e \<le> hi rgn" "b \<le> rgn_end rgn \<longleftrightarrow> ?b \<le> hi rgn" "en \<ge> rgn_end rgn \<longleftrightarrow> hi rgn \<le> ?e"
    by (simp_all add: word_less_nat_alt word_le_nat_alt e lo_def)
  note step = add_scan.simps(2) [of pre rgn rest b sz en, unfolded Let_def base memblock_memory_can_coalesce_def]
  consider (brk) "?e < lo rgn" | (inside) "lo rgn \<le> ?b" "?e \<le> hi rgn" | (low) "?b < lo rgn" "lo rgn \<le> ?e" "?e \<le> hi rgn"
    | (over) "?b < lo rgn" "lo rgn \<le> ?e" "hi rgn < ?e" | (high) "lo rgn \<le> ?b" "?b \<le> hi rgn" "hi rgn < ?e" | (pass) "hi rgn < ?b"
    by linarith
  then show ?case
  proof cases
    case brk
    then have "add_scan pre (rgn # rest) b sz en = Add_end b (en - b) ?rs" using step sz by simp
    moreover have "\<forall>r \<in> set (rgn # rest). ?e < lo r" using brk upper lohi by auto
    ultimately show ?thesis using scan_left_here [OF Cons.prems(1,2,3,5) _ Cons.prems(6,7)] by simp
  next
    case inside
    then have "add_scan pre (rgn # rest) b sz en = Add_done ?rs" using step nz be by simp
    moreover have "{?b ..< ?e} \<subseteq> covered ?rs" using inside by auto
    ultimately show ?thesis using Cons.prems(1,6) by (auto simp: add_scan_ok_def)
  next
    case low
    let ?new = "\<lparr>rgn_base = b, rgn_size = rgn_end rgn - b\<rparr>"
    have "add_scan pre (rgn # rest) b sz en = Add_done (pre @ ?new # rest)" using step nz low by simp
    moreover have new: "lo ?new = ?b" "hi ?new = hi rgn" "rgn_ok ?new"
      using region_between [of b "rgn_end rgn"] low lohi e by (simp_all add: word_less_nat_alt)
    moreover have "gapped (pre @ ?new # rest)" using gap upper Cons.prems(5) new by (simp add: gapped_append gapped_Cons)
    moreover have "covered (pre @ ?new # rest) = covered ?rs \<union> {?b ..< ?e}" using new low by auto
    ultimately show ?thesis using Cons.prems(6) by (simp add: add_scan_ok_def)
  next
    case over
    have cov: "covered (pre @ rest) \<union> {?b ..< ?e} = covered ?rs \<union> {?b ..< ?e}" using over by auto
    have s: "add_scan pre (rgn # rest) b sz en = (if pre @ rest = [] then Add_end b (en - b) [filler] else add_scan pre rest b (en - b) en)"
      using step nz over by simp
    show ?thesis
    proof (cases "pre @ rest = []")
      case True
      then show ?thesis using s cov Cons.prems(3) by (simp add: add_scan_ok_def add_scan_left_def)
    next
      case False
      then have "add_scan_ok rs en n (covered (pre @ rest) \<union> {?b ..< ?e}) (add_scan pre rest b (en - b) en)"
        using Cons.prems(3,5,6) gap by (intro Cons.IH) (simp_all add: gapped_append)
      then show ?thesis unfolding s if_not_P [OF False] cov .
    qed
  next
    case high
    have cov: "covered (pre @ rest) \<union> {lo rgn ..< ?e} = covered ?rs \<union> {?b ..< ?e}" using high by auto
    have s: "add_scan pre (rgn # rest) b sz en =
        (if pre @ rest = [] then Add_end (rgn_base rgn) (en - rgn_base rgn) [filler] else add_scan pre rest (rgn_base rgn) (en - rgn_base rgn) en)"
      using step nz high sz be base(6) by (simp cong: if_cong)
    have less: "rgn_base rgn < en" using high lohi be by (simp add: word_less_nat_alt lo_def)
    show ?thesis
    proof (cases "pre @ rest = []")
      case True
      then show ?thesis using s cov less by (simp add: add_scan_ok_def add_scan_left_def lo_def)
    next
      case False
      then have "add_scan_ok rs en n (covered (pre @ rest) \<union> {lo rgn ..< ?e}) (add_scan pre rest (rgn_base rgn) (en - rgn_base rgn) en)"
        unfolding lo_def using Cons.prems(6) gap less pre by (intro Cons.IH) (simp_all add: gapped_append lo_def)
      then show ?thesis unfolding s if_not_P [OF False] cov .
    qed
  next
    case pass
    have s: "add_scan pre (rgn # rest) b sz en = add_scan (pre @ [rgn]) rest b sz en" using step nz pass be lohi base(6) by (simp cong: if_cong)
    show ?thesis using s Cons.IH [of "pre @ [rgn]" b sz] Cons.prems pass by (simp add: Un_assoc)
  qed
qed


lemma insert_block_exact:
  assumes rs: "rs = lower @ upper" "rs \<noteq> []" and b: "\<forall>r \<in> set lower. hi r < unat b" "\<forall>r \<in> set upper. unat en < lo r" and be: "b < en"
  shows "insert_block b s rs = (lower @ \<lparr>rgn_base = b, rgn_size = s\<rparr> # upper, length lower)"
proof -
  let ?P = "\<lambda>r. b < rgn_base r"
  have up: "\<forall>r \<in> set upper. ?P r" using b(2) be by (auto simp: word_less_nat_alt lo_def)
  have dn: "\<forall>r \<in> set lower. \<not> ?P r" using b(1) by (auto simp: word_less_nat_alt hi_def)
  have t: "takeWhile ?P (rev rs) = rev upper" unfolding rs(1) using up dn by (cases "rev lower") (auto simp: takeWhile_append2 takeWhile_tail)
  have d: "dropWhile ?P (rev rs) = rev lower"
    using takeWhile_dropWhile_id [of ?P "rev rs"] unfolding t by (simp add: rs(1))
  show ?thesis
  proof (cases lower)
    case Nil
    then have "?P (hd rs)" using rs up by (cases upper) auto
    then show ?thesis using Nil rs unfolding insert_block_def t d Let_def by simp
  next
    case (Cons x xs)
    then have "\<not> ?P x" using dn by simp
    then show ?thesis using Cons unfolding insert_block_def t d Let_def by simp
  qed
qed

lemma remove_inserted: "lower @ upper \<noteq> [] \<Longrightarrow> memblock_remove_region (lower @ r # upper) (length lower) = lower @ upper"
  by (auto simp: memblock_remove_region_def)

lemma gapped_insert:
  assumes "gapped (lower @ upper)" and "\<forall>r \<in> set lower. hi r < unat b" and "\<forall>r \<in> set upper. unat en < lo r" and "b < en"
  shows "gapped (lower @ \<lparr>rgn_base = b, rgn_size = en - b\<rparr> # upper)"
  using assms region_between [OF assms(4)] by (auto simp: gapped_append gapped_Cons)

lemma mb_simps [simp]:
  "mb_get k (mb_put k t mb) = t" "mb_get k (put_regions k rs mb) = (mb_get k mb)\<lparr>regions := rs\<rparr>"
  "put_regions k rs' (put_regions k rs mb) = put_regions k rs' mb" "put_regions k (regions (mb_get k mb)) mb = mb"
  "memblock_can_resize (put_regions k rs mb) = memblock_can_resize mb" "current_limit (put_regions k rs mb) = current_limit mb"
  by (cases k; simp add: mb_get_def mb_put_def put_regions_def)+

lemma mb_other [simp]: "k \<noteq> k' \<Longrightarrow> mb_get k (put_regions k' rs mb) = mb_get k mb"
  by (cases k; cases k'; simp add: mb_get_def mb_put_def put_regions_def)

lemma table_size: "region_table_ok rs \<Longrightarrow> length rs = 1 \<and> rgn_size (hd rs) = 0 \<longleftrightarrow> rs = [filler]"
  by (auto simp: region_table_ok_def gapped_def rgn_ok_def lo_def hi_def length_Suc_conv)

text \<open>
  Adding a region to a table with a free entry: either it is done, or the table is now full and is to be
  doubled, and if that fails the table is as before.
\<close>

definition rgn_grown :: "memblock_region list \<Rightarrow> u32 \<Rightarrow> u32 \<Rightarrow> memblock_region list \<Rightarrow> bool" where
  "rgn_grown rs b sz rs' \<longleftrightarrow> region_table_ok rs' \<and> covered rs' = covered rs \<union> {unat b ..< unat b + unat sz} \<and> length rs' \<le> length rs + 1"

lemma add_region_body_cases:
  assumes ok: "region_table_ok (regions (mb_get k mb))" and room: "length (regions (mb_get k mb)) < rgn_max (mb_get k mb)"
    and sz: "0 < unat sz" "unat b + unat sz < 2 ^ 32"
  shows "\<exists>rs'. rgn_grown (regions (mb_get k mb)) b sz rs' \<and>
    (length rs' < rgn_max (mb_get k mb) \<and> add_region_body dbl k b sz mb = Some (True, put_regions k rs' mb) \<or>
     length rs' = rgn_max (mb_get k mb) \<and> length (regions (mb_get k mb)) + 1 = rgn_max (mb_get k mb) \<and>
       (\<exists>slot. memblock_remove_region rs' slot = regions (mb_get k mb) \<and>
         add_region_body dbl k b sz mb = (case dbl k (put_regions k rs' mb) of
           None \<Rightarrow> None
         | Some (ok, mb'') \<Rightarrow> if ok then Some (True, mb'') else Some (False, put_regions k (memblock_remove_region (regions (mb_get k mb'')) slot) mb''))))"
    (is "\<exists>rs'. rgn_grown ?rs b sz rs' \<and> ?out rs'")
proof -
  let ?en = "b + sz"
  have en: "unat ?en = unat b + unat sz" using sz(2) unat_add_lem [of b sz] by simp
  have be: "b < ?en" using en sz(1) by (simp add: word_less_nat_alt)
  have new: "lo \<lparr>rgn_base = x, rgn_size = ?en - x\<rparr> = unat x" "hi \<lparr>rgn_base = x, rgn_size = ?en - x\<rparr> = unat ?en" "rgn_ok \<lparr>rgn_base = x, rgn_size = ?en - x\<rparr>" if "x < ?en" for x
    using region_between [OF that] by simp_all
  show ?thesis
  proof (cases "?rs = [filler]")
    case True
    let ?r = "[\<lparr>rgn_base = b, rgn_size = ?en - b\<rparr>]"
    have scan: "add_scan [] [filler] b sz ?en = Add_end b sz [filler]" by (simp add: add_scan.simps)
    have "add_region_body dbl k b sz mb = Some (True, put_regions k ?r mb)" unfolding add_region_body_def True scan by simp
    moreover have "rgn_grown ?rs b sz ?r" unfolding True using new [OF be] en by (auto simp: rgn_grown_def region_table_ok_def gapped_Cons)
    ultimately show ?thesis using room True by (intro exI [of _ ?r]) simp
  next
    case False
    then have g: "gapped ?rs" "?rs \<noteq> []" using ok by (auto simp: region_table_ok_def)
    have scan: "add_scan_ok ?rs ?en (length ?rs) (covered ?rs \<union> {unat b ..< unat ?en}) (add_scan [] ?rs b sz ?en)"
      using add_scan_exact [of "[]" ?rs b ?en sz "length ?rs" ?rs] g be by simp
    show ?thesis
    proof (cases "add_scan [] ?rs b sz ?en")
      case (Add_done rs')
      then have "rgn_grown ?rs b sz rs'" "length rs' < rgn_max (mb_get k mb)" using scan room en by (auto simp: add_scan_ok_def rgn_grown_def region_table_ok_def)
      then show ?thesis using Add_done by (intro exI [of _ rs']) (simp add: add_region_body_def)
    next
      case (Add_end x s out)
      then have s: "s = ?en - x" and left: "add_scan_left ?rs x ?en out (length ?rs) (covered ?rs \<union> {unat b ..< unat ?en})"
        using scan by (simp_all add: add_scan_ok_def)
      then have xe: "x < ?en" by (simp add: add_scan_left_def)
      let ?new = "\<lparr>rgn_base = x, rgn_size = ?en - x\<rparr>"
      from left consider "out = [filler]" "{unat x ..< unat ?en} = covered ?rs \<union> {unat b ..< unat ?en}"
        | lower upper where "out = lower @ upper" "out \<noteq> []" "gapped out" "\<forall>r \<in> set lower. hi r < unat x" "\<forall>r \<in> set upper. unat ?en < lo r"
          "covered out \<union> {unat x ..< unat ?en} = covered ?rs \<union> {unat b ..< unat ?en}" "length out \<le> length ?rs" "length out = length ?rs \<longrightarrow> out = ?rs"
        unfolding add_scan_left_def by blast
      then show ?thesis
      proof cases
        case 1
        then have "add_region_body dbl k b sz mb = Some (True, put_regions k [?new] mb)" using Add_end s by (simp add: add_region_body_def)
        moreover have "rgn_grown ?rs b sz [?new]" using new [OF xe] 1 en by (simp add: rgn_grown_def region_table_ok_def gapped_Cons)
        moreover have "length [?new] < rgn_max (mb_get k mb)" using room g(2) by (cases ?rs) auto
        ultimately show ?thesis by (intro exI [of _ "[?new]"]) simp
      next
        case (2 lower upper)
        let ?rs' = "lower @ ?new # upper"
        have nf: "\<not> (length out = 1 \<and> rgn_size (hd out) = 0)" using 2(2,3) table_size [of out] by (auto simp: region_table_ok_def gapped_def rgn_ok_def lo_def hi_def)
        have ins: "insert_block x s out = (?rs', length lower)" using insert_block_exact [OF 2(1,2,4,5) xe] s by simp
        have rgn_grown: "rgn_grown ?rs b sz ?rs'"
          using gapped_insert [OF _ 2(4,5) xe] 2(1,3,6,7) new [OF xe] en by (auto simp: rgn_grown_def region_table_ok_def)
        have lt: "\<not> length out \<ge> rgn_max (mb_get k mb)" using 2(7) room by simp
        have len: "length ?rs' = length out + 1" using 2(1) by simp
        have body: "add_region_body dbl k b sz mb = add_new_block dbl k x s out mb"
          unfolding add_region_body_def Add_end add_scan_result.case if_not_P [OF nf] ..
        show ?thesis
        proof (cases "length ?rs' = rgn_max (mb_get k mb)")
          case True
          then have "out = ?rs" "length ?rs + 1 = rgn_max (mb_get k mb)" using len 2(7,8) room by auto
          moreover have "memblock_remove_region ?rs' (length lower) = out" using remove_inserted [of lower upper] 2(1,2) by simp
          moreover have "add_new_block dbl k x s out mb = (case dbl k (put_regions k ?rs' mb) of
             None \<Rightarrow> None
           | Some (ok, mb'') \<Rightarrow> if ok then Some (True, mb'') else Some (False, put_regions k (memblock_remove_region (regions (mb_get k mb'')) (length lower)) mb''))"
            unfolding add_new_block_def if_not_P [OF lt] ins Let_def using True by simp
          ultimately show ?thesis using rgn_grown body True by (intro exI [of _ ?rs'] conjI disjI2 exI [of _ "length lower"]) simp_all
        next
          case False
          then have "add_new_block dbl k x s out mb = Some (True, put_regions k ?rs' mb)"
            unfolding add_new_block_def if_not_P [OF lt] ins Let_def by simp
          moreover have "length ?rs' < rgn_max (mb_get k mb)" using False lt len by linarith
          ultimately show ?thesis using rgn_grown body by (intro exI [of _ ?rs']) simp
        qed
      qed
    qed (use scan in \<open>simp add: add_scan_ok_def\<close>)
  qed
qed


section \<open>Removing\<close>

text \<open>
  Removing is exact unless a region begins just where the range ends.  A range that is covered never ends so,
  because there are gaps between the regions.
\<close>

definition not_touching :: "memblock_region list \<Rightarrow> nat \<Rightarrow> bool" where
  "not_touching rs e \<longleftrightarrow> (\<forall>r \<in> set rs. lo r \<noteq> e)"

lemma covered_not_touching:
  assumes g: "gapped rs" and c: "{b ..< e} \<subseteq> covered rs" and be: "b < e"
  shows "not_touching rs e"
  unfolding not_touching_def
proof
  fix r assume r: "r \<in> set rs"
  have "e - 1 \<in> covered rs" using c be by auto
  then obtain s where s: "s \<in> set rs" "lo s \<le> e - 1" "e - 1 < hi s" by (auto simp: covered_def)
  show "lo r \<noteq> e"
  proof
    assume e: "lo r = e"
    then have "r \<noteq> s" using s(2) be by auto
    then have "hi s < lo r \<or> hi r < lo s" using g r s(1) unfolding gapped_def sorted_wrt_iff_nth_less in_set_conv_nth by (metis nat_neq_iff)
    moreover have "lo r < hi r" using g r by (simp add: gapped_def rgn_ok_def)
    ultimately show False using s e be by linarith
  qed
qed

definition remove_scan_ok :: "u32 \<Rightarrow> u32 \<Rightarrow> memblock_region list \<Rightarrow> remove_scan_result \<Rightarrow> bool" where
  "remove_scan_ok b en rs res \<longleftrightarrow>
     (case res of
        Remove_end out \<Rightarrow> region_table_ok out \<and> covered out = covered rs - {unat b ..< unat en} \<and> length out \<le> length rs
      | Remove_split pre rgn rest \<Rightarrow> rs = pre @ rgn # rest \<and> lo rgn < unat b \<and> unat en < hi rgn)"

lemma remove_end_ok:
  "out \<noteq> [] \<Longrightarrow> gapped out \<Longrightarrow> covered out = covered rs - {unat b ..< unat en} \<Longrightarrow> length out \<le> length rs \<Longrightarrow> remove_scan_ok b en rs (Remove_end out)"
  by (simp add: remove_scan_ok_def region_table_ok_def)

text \<open>\<open>rs\<close> is the whole table; the regions passed have already lost what was to be taken from them.\<close>

lemma remove_scan_exact:
  assumes "gapped (pre @ rest)" and "pre @ rest \<noteq> []" and "b < en" and "not_touching rest (unat en)"
    and "\<forall>p \<in> set pre. hi p \<le> unat b" and "covered (pre @ rest) - {unat b ..< unat en} = covered rs - {unat b ..< unat en}"
    and "length (pre @ rest) \<le> length rs" and "(\<exists>r \<in> set rest. lo r < unat b \<and> unat b < hi r) \<longrightarrow> pre @ rest = rs"
  shows "remove_scan_ok b en rs (remove_scan pre rest b en)"
  using assms
proof (induction rest arbitrary: pre)
  case Nil
  then have "covered pre \<inter> {unat b ..< unat en} = {}" by (force simp: covered_def)
  then have "covered pre = covered rs - {unat b ..< unat en}" using Nil.prems(6) by auto
  then show ?case using Nil remove_end_ok by simp
next
  case (Cons rgn rest)
  let ?b = "unat b" and ?e = "unat en" and ?A = "{unat b ..< unat en}"
  have rgn: "rgn_ok rgn" and upper: "\<forall>r \<in> set rest. hi rgn < lo r" and pre: "\<forall>p \<in> set pre. hi p < lo rgn"
    and gap: "gapped pre" "gapped rest" "\<forall>p \<in> set pre. \<forall>r \<in> set rest. hi p < lo r"
    using Cons.prems(1) by (auto simp: gapped_append gapped_Cons)
  note e = rgn_end_hi [OF rgn]
  have be: "?b < ?e" using Cons.prems(3) by (simp add: word_less_nat_alt)
  have lohi: "lo rgn < hi rgn" using rgn by (simp add: rgn_ok_def)
  have nz: "rgn_size rgn \<noteq> 0" using lohi by (auto simp: lo_def hi_def)
  have nt: "lo rgn \<noteq> ?e" "not_touching rest ?e" using Cons.prems(4) by (auto simp: not_touching_def)
  have base: "rgn_base rgn > en \<longleftrightarrow> lo rgn > ?e" "b \<le> rgn_base rgn \<longleftrightarrow> ?b \<le> lo rgn" "b > rgn_base rgn \<longleftrightarrow> lo rgn < ?b" "rgn_base rgn < en \<longleftrightarrow> lo rgn < ?e"
    "en \<ge> rgn_end rgn \<longleftrightarrow> hi rgn \<le> ?e" "en < rgn_end rgn \<longleftrightarrow> ?e < hi rgn" "rgn_end rgn > en \<longleftrightarrow> ?e < hi rgn" "b < rgn_end rgn \<longleftrightarrow> ?b < hi rgn"
    by (simp_all add: word_less_nat_alt word_le_nat_alt e lo_def)
  note step = remove_scan.simps(2) [of pre rgn rest b en, unfolded Let_def base]
  have below: "covered pre \<inter> ?A = {}" using Cons.prems(5) by (force simp: covered_def)
  have above: "covered rest \<inter> ?A = {}" if "?e \<le> hi rgn" using upper that by (force simp: covered_def)
  consider (brk) "?e < lo rgn" | (all) "?b \<le> lo rgn" "hi rgn \<le> ?e" | (split) "lo rgn < ?b" "?e < hi rgn"
    | (head) "?b \<le> lo rgn" "lo rgn < ?e" "?e < hi rgn" | (rear) "lo rgn < ?b" "?b < hi rgn" "hi rgn \<le> ?e" | (pass) "hi rgn \<le> ?b"
    using nt(1) by linarith
  then show ?case
  proof cases
    case brk
    then have "covered (pre @ rgn # rest) = covered rs - ?A" using Cons.prems(6) below above lohi by auto
    then show ?thesis using brk step Cons.prems(1,2,7) remove_end_ok by simp
  next
    case all
    have cov: "covered (pre @ rest) - ?A = covered rs - ?A" using Cons.prems(6) all by auto
    have none: "\<not> (\<exists>r \<in> set rest. lo r < ?b \<and> ?b < hi r)" using upper all lohi by fastforce
    show ?thesis
    proof (cases "pre @ rest = []")
      case True
      then have "remove_scan pre (rgn # rest) b en = Remove_end [filler]" using all step nz lohi by auto
      then show ?thesis using cov Cons.prems(7) True by (simp add: remove_scan_ok_def region_table_ok_def)
    next
      case False
      then have "remove_scan_ok b en rs (remove_scan pre rest b en)"
        using Cons.prems(3,5,7) gap cov none nt by (intro Cons.IH) (auto simp: gapped_append)
      then show ?thesis using all step nz False lohi by auto
    qed
  next
    case split
    then have "pre @ rgn # rest = rs" using Cons.prems(8) be by auto
    then show ?thesis using split step nz be by (simp add: remove_scan_ok_def)
  next
    case head
    let ?new = "\<lparr>rgn_base = en, rgn_size = rgn_size rgn - (en - rgn_base rgn)\<rparr>"
    have eq: "?new = \<lparr>rgn_base = en, rgn_size = rgn_end rgn - en\<rparr>" by (simp add: rgn_end_def)
    have new: "lo ?new = ?e" "hi ?new = hi rgn" "rgn_ok ?new"
      unfolding eq using region_between [of en "rgn_end rgn"] head e by (simp_all add: word_less_nat_alt)
    have "gapped (pre @ ?new # rest)" using gap upper new head pre by (auto simp: gapped_append gapped_Cons)
    moreover have "covered (pre @ ?new # rest) = covered rs - ?A"
      using Cons.prems(6) below above new head be by auto
    moreover have "remove_scan pre (rgn # rest) b en = Remove_end (pre @ ?new # rest)" using head step nz be by simp
    ultimately show ?thesis using Cons.prems(7) remove_end_ok by simp
  next
    case rear
    let ?new = "rgn\<lparr>rgn_size := rgn_size rgn - (rgn_end rgn - b)\<rparr>"
    have eq: "?new = \<lparr>rgn_base = rgn_base rgn, rgn_size = b - rgn_base rgn\<rparr>" by (cases rgn) (simp add: rgn_end_def)
    have new: "lo ?new = lo rgn" "hi ?new = ?b" "rgn_ok ?new"
      unfolding eq using region_between [of "rgn_base rgn" b] rear by (simp_all add: word_less_nat_alt lo_def)
    have "remove_scan pre (rgn # rest) b en = remove_scan (pre @ [?new]) rest b en" using rear step nz be by auto
    moreover have "gapped ((pre @ [?new]) @ rest)" using gap upper new rear pre by (auto simp: gapped_append gapped_Cons)
    moreover have "{lo rgn ..< ?b} - ?A = {lo rgn ..< hi rgn} - ?A" using rear by auto
    then have "covered ((pre @ [?new]) @ rest) - ?A = covered rs - ?A" using Cons.prems(6) by (simp add: new Un_Diff Un_assoc)
    moreover have "\<not> (\<exists>r \<in> set rest. lo r < ?b \<and> ?b < hi r)" using upper rear by fastforce
    ultimately show ?thesis using Cons.IH [of "pre @ [?new]"] Cons.prems(3,5,7) nt new by auto
  next
    case pass
    then have "remove_scan pre (rgn # rest) b en = remove_scan (pre @ [rgn]) rest b en" using step nz be lohi by auto
    then show ?thesis using Cons.IH [of "pre @ [rgn]"] Cons.prems pass nt by auto
  qed
qed


definition shrunk :: "memblock_region list \<Rightarrow> u32 \<Rightarrow> u32 \<Rightarrow> memblock_region list \<Rightarrow> bool" where
  "shrunk rs b sz rs' \<longleftrightarrow> region_table_ok rs' \<and> covered rs' = covered rs - {unat b ..< unat b + unat sz} \<and> length rs' \<le> length rs + 1"

text \<open>A region that is split: what stays of it below, and what is added again above.\<close>

lemma remove_split:
  assumes g: "gapped rs" and rs: "rs = pre @ rgn # rest" and inside: "lo rgn < unat b" "unat en < hi rgn" and be: "b < en"
  shows "region_table_ok (pre @ rgn\<lparr>rgn_size := b - rgn_base rgn\<rparr> # rest)"
    and "0 < unat (rgn_end rgn - en)" "unat en + unat (rgn_end rgn - en) < 2 ^ 32"
    and "covered (pre @ rgn\<lparr>rgn_size := b - rgn_base rgn\<rparr> # rest) \<union> {unat en ..< unat en + unat (rgn_end rgn - en)} = covered rs - {unat b ..< unat en}"
proof -
  let ?low = "rgn\<lparr>rgn_size := b - rgn_base rgn\<rparr>"
  have rgn: "rgn_ok rgn" and gaps: "gapped pre" "gapped rest" "\<forall>r \<in> set rest. hi rgn < lo r" "\<forall>p \<in> set pre. hi p < lo rgn"
      "\<forall>p \<in> set pre. \<forall>r \<in> set rest. hi p < lo r"
    using g rs by (auto simp: gapped_append gapped_Cons)
  have eq: "?low = \<lparr>rgn_base = rgn_base rgn, rgn_size = b - rgn_base rgn\<rparr>" by (cases rgn) simp
  have low: "lo ?low = lo rgn" "hi ?low = unat b" "rgn_ok ?low"
    unfolding eq using region_between [of "rgn_base rgn" b] inside(1) by (simp_all add: word_less_nat_alt lo_def)
  have "gapped (pre @ ?low # rest)" using gaps low inside be by (auto simp: gapped_append gapped_Cons word_less_nat_alt)
  then show "region_table_ok (pre @ ?low # rest)" by (simp add: region_table_ok_def)
  have up: "unat (rgn_end rgn - en) = hi rgn - unat en" using rgn_end_hi [OF rgn] inside(2) by (simp add: unat_diff word_le_nat_alt)
  then show "0 < unat (rgn_end rgn - en)" "unat en + unat (rgn_end rgn - en) < 2 ^ 32" using inside(2) rgn by (simp_all add: rgn_ok_def)
  have "covered rest \<inter> {unat b ..< unat en} = {}" "covered pre \<inter> {unat b ..< unat en} = {}"
    using gaps(3,4) inside by (force simp: covered_def)+
  then show "covered (pre @ ?low # rest) \<union> {unat en ..< unat en + unat (rgn_end rgn - en)} = covered rs - {unat b ..< unat en}"
    using low inside rs up be by (auto simp: word_less_nat_alt)
qed

lemma remove_scan_table:
  assumes ok: "region_table_ok rs" and sz: "0 < unat sz" "unat b + unat sz < 2 ^ 32" and nt: "not_touching rs (unat b + unat sz)"
  shows "case remove_scan [] rs b (b + sz) of
      Remove_end rs' \<Rightarrow> shrunk rs b sz rs' \<and> length rs' \<le> length rs
    | Remove_split pre rgn rest \<Rightarrow> gapped rs \<and> rs = pre @ rgn # rest \<and> lo rgn < unat b \<and> unat (b + sz) < hi rgn"
proof -
  have en: "unat (b + sz) = unat b + unat sz" using sz(2) unat_add_lem [of b sz] by simp
  show ?thesis
  proof (cases "rs = [filler]")
    case True
    have "remove_scan [] [filler] b (b + sz) = Remove_end [filler]" by (simp add: remove_scan.simps)
    then show ?thesis using True by (simp add: shrunk_def region_table_ok_def)
  next
    case False
    then have g: "gapped rs" "rs \<noteq> []" using ok by (auto simp: region_table_ok_def)
    moreover have "b < b + sz" using en sz(1) by (simp add: word_less_nat_alt)
    ultimately have "remove_scan_ok b (b + sz) rs (remove_scan [] rs b (b + sz))"
      using remove_scan_exact [of "[]" rs b "b + sz" rs] nt en by simp
    then show ?thesis using g(1) en by (auto simp: remove_scan_ok_def shrunk_def split: remove_scan_result.splits)
  qed
qed

lemma do_remove_room:
  assumes ok: "region_table_ok (regions (mb_get k mb))" and room: "length (regions (mb_get k mb)) + 1 < rgn_max (mb_get k mb)"
    and sz: "0 < unat sz" "unat b + unat sz < 2 ^ 32" and nt: "not_touching (regions (mb_get k mb)) (unat b + unat sz)"
  shows "\<exists>rs'. shrunk (regions (mb_get k mb)) b sz rs' \<and> do_memblock_remove (add_region_body dbl) k b sz mb = Some (True, put_regions k rs' mb)"
proof -
  let ?rs = "regions (mb_get k mb)" and ?en = "b + sz"
  note scan = remove_scan_table [OF ok sz nt]
  have en: "unat ?en = unat b + unat sz" using sz(2) unat_add_lem [of b sz] by simp
  show ?thesis
  proof (cases "remove_scan [] ?rs b ?en")
    case (Remove_end rs')
    then show ?thesis using scan by (intro exI [of _ rs']) (simp add: do_memblock_remove_def)
  next
    case (Remove_split pre rgn rest)
    have s: "gapped ?rs" "?rs = pre @ rgn # rest" "lo rgn < unat b" "unat ?en < hi rgn" using scan [unfolded Remove_split] by auto
    have "b < ?en" using en sz(1) by (simp add: word_less_nat_alt)
    note sp = remove_split [OF s this] and rs = s(2)
    let ?low = "rgn\<lparr>rgn_size := b - rgn_base rgn\<rparr>" and ?rest = "rgn_end rgn - ?en"
    let ?mb = "put_regions k (pre @ ?low # rest) mb"
    have t: "region_table_ok (regions (mb_get k ?mb))" "length (regions (mb_get k ?mb)) < rgn_max (mb_get k ?mb)" using sp(1) room rs by simp_all
    obtain rs' where rs': "rgn_grown (pre @ ?low # rest) ?en ?rest rs'" "add_region_body dbl k ?en ?rest ?mb = Some (True, put_regions k rs' mb)"
      using add_region_body_cases [OF t sp(2,3), of dbl] room rs by (auto simp: rgn_grown_def)
    then have "shrunk ?rs b sz rs'" using sp(4) rs en by (simp add: shrunk_def rgn_grown_def)
    then show ?thesis using rs'(2) Remove_split by (intro exI [of _ rs']) (simp add: do_memblock_remove_def)
  qed
qed

end
