(* ===== verification/Memblock_Find.thy ===== *)
theory Memblock_Find
  imports Memblock_Regions
begin

text \<open>
  Looking things up in the tables: the binary search, the test for overlaps, and the search for free memory,
  which finds the highest block that block_fits.
\<close>

section \<open>The binary search\<close>

definition holds_addr :: "memblock_region list \<Rightarrow> u32 \<Rightarrow> nat \<Rightarrow> bool" where
  "holds_addr rs a i \<longleftrightarrow> i < length rs \<and> lo (rs ! i) \<le> unat a \<and> unat a < hi (rs ! i)"

lemma covered_nth: "x \<in> covered rs \<longleftrightarrow> (\<exists>i < length rs. lo (rs ! i) \<le> x \<and> x < hi (rs ! i))"
  unfolding covered_def by (simp add: set_conv_nth) blast

lemma holds_covered: "unat a \<in> covered rs \<longleftrightarrow> (\<exists>i. holds_addr rs a i)"
  by (auto simp: covered_nth holds_addr_def)

lemma gapped_nth: "gapped rs \<Longrightarrow> i < length rs \<Longrightarrow> rgn_ok (rs ! i)"
  by (simp add: gapped_def)

lemma gapped_less: "gapped rs \<Longrightarrow> i < j \<Longrightarrow> j < length rs \<Longrightarrow> hi (rs ! i) < lo (rs ! j)"
  by (simp add: gapped_def sorted_wrt_iff_nth_less)

lemma search_loop_exact:
  assumes "gapped rs" and "left < right" and "right \<le> length rs" and "\<And>i. holds_addr rs a i \<Longrightarrow> left \<le> i \<and> i < right"
  shows "case memblock_search_loop rs a left right of None \<Rightarrow> \<nexists>i. holds_addr rs a i | Some i \<Rightarrow> holds_addr rs a i"
  using assms
proof (induction rs a left right rule: memblock_search_loop.induct)
  case (1 rs a left right)
  let ?m = "(right + left) div 2"
  note g = 1(3)
  have m: "left \<le> ?m" "?m < right" "?m < length rs" using 1(4,5) by auto
  have ok: "rgn_ok (rs ! ?m)" by (rule gapped_nth [OF g m(3)])
  then have lh: "lo (rs ! ?m) < hi (rs ! ?m)" by (simp add: rgn_ok_def)
  have lt: "a < rgn_base (rs ! ?m) \<longleftrightarrow> unat a < lo (rs ! ?m)" and ge: "a \<ge> rgn_end (rs ! ?m) \<longleftrightarrow> hi (rs ! ?m) \<le> unat a"
    using rgn_end_hi [OF ok] by (simp_all add: word_less_nat_alt word_le_nat_alt lo_def)
  note step = memblock_search_loop.simps [of rs a left right, unfolded Let_def lt ge]
  consider (low) "unat a < lo (rs ! ?m)" | (high) "hi (rs ! ?m) \<le> unat a" | (here) "holds_addr rs a ?m"
    using m(3) unfolding holds_addr_def by (meson not_le)
  then show ?case
  proof cases
    case low
    have b: "left \<le> i \<and> i < ?m" if "holds_addr rs a i" for i
    proof -
      have "i \<noteq> ?m" using that low by (auto simp: holds_addr_def)
      moreover have "\<not> ?m < i" using that low gapped_less [OF g, of ?m i] lh by (auto simp: holds_addr_def)
      ultimately show ?thesis using 1(6) [OF that] by simp
    qed
    show ?thesis
    proof (cases "left < ?m")
      case True
      then show ?thesis using 1(1) [OF refl _ True g True _ b] low m(3) step lt by simp
    next
      case False
      then have "\<nexists>i. holds_addr rs a i" using b by (meson not_le order.strict_trans1)
      then show ?thesis using step low False by simp
    qed
  next
    case high
    have b: "Suc ?m \<le> i \<and> i < right" if "holds_addr rs a i" for i
    proof -
      have "i \<noteq> ?m" using that high by (auto simp: holds_addr_def)
      moreover have "\<not> i < ?m" using that high gapped_less [OF g, of i ?m] m(3) lh by (auto simp: holds_addr_def)
      ultimately show ?thesis using 1(6) [OF that] by simp
    qed
    have nl: "\<not> unat a < lo (rs ! ?m)" using high lh by simp
    show ?thesis
    proof (cases "Suc ?m < right")
      case True
      then show ?thesis using 1(2) [OF refl _ _ True g True 1(5) b] high nl step lt ge by simp
    next
      case False
      then have "\<nexists>i. holds_addr rs a i" using b by (meson not_le order.strict_trans1)
      then show ?thesis using step high nl False by simp
    qed
  next
    case here
    then show ?thesis using step by (simp add: holds_addr_def)
  qed
qed

lemma search_filler: "memblock_search [filler] a = None"
  by (simp add: memblock_search_def memblock_search_loop.simps rgn_end_def)

lemma search_exact:
  assumes "region_table_ok rs"
  shows "case memblock_search rs a of None \<Rightarrow> unat a \<notin> covered rs | Some i \<Rightarrow> holds_addr rs a i"
proof (cases "rs = [filler]")
  case False
  then have "gapped rs" "rs \<noteq> []" using assms by (auto simp: region_table_ok_def)
  then show ?thesis using search_loop_exact [of rs 0 "length rs" a]
    by (auto simp: memblock_search_def holds_covered holds_addr_def split: option.splits)
qed (simp add: search_filler)

lemma search_iff: "region_table_ok rs \<Longrightarrow> memblock_search rs a \<noteq> None \<longleftrightarrow> unat a \<in> covered rs"
  using search_exact [of rs a] by (auto simp: holds_covered split: option.splits)

text \<open>A range inside the memory lies in one region, since regions have gaps between them.\<close>

lemma range_in_one:
  assumes g: "gapped rs" and c: "{b ..< e} \<subseteq> covered rs" and i: "i < length rs" "lo (rs ! i) \<le> b" "b < hi (rs ! i)"
  shows "e \<le> hi (rs ! i)"
proof (rule ccontr)
  assume "\<not> e \<le> hi (rs ! i)"
  then have "hi (rs ! i) \<in> covered rs" using c i(3) by auto
  then obtain j where j: "j < length rs" "lo (rs ! j) \<le> hi (rs ! i)" "hi (rs ! i) < hi (rs ! j)" by (auto simp: covered_nth)
  then have "i \<noteq> j" by auto
  then consider "i < j" | "j < i" by linarith
  then show False
  proof cases
    case 1
    then show False using gapped_less [OF g 1 j(1)] j(2) by simp
  next
    case 2
    then show False using gapped_less [OF g 2 i(1)] i(2,3) j(3) by simp
  qed
qed

section \<open>Overlaps\<close>

lemma overlap_iff:
  assumes "rgn_ok r" and "unat b + unat sz < 2 ^ 32"
  shows "memblock_addrs_overlap b sz (rgn_base r) (rgn_size r) \<longleftrightarrow> unat b < hi r \<and> lo r < unat b + unat sz"
proof -
  have "unat (b + sz) = unat b + unat sz" using assms(2) unat_add_lem [of b sz] by simp
  then show ?thesis using rgn_end_hi [OF assms(1)] by (simp add: memblock_addrs_overlap_def word_less_nat_alt rgn_end_def lo_def)
qed

lemma overlaps_exact:
  assumes "\<forall>r \<in> set rs. rgn_ok r" and "unat b + unat sz < 2 ^ 32"
  shows "case memblock_overlaps_region rs b sz of
      None \<Rightarrow> \<forall>r \<in> set rs. \<not> (unat b < hi r \<and> lo r < unat b + unat sz)
    | Some j \<Rightarrow> j < length rs \<and> unat b < hi (rs ! j) \<and> lo (rs ! j) < unat b + unat sz"
  using assms(1)
proof (induction rs)
  case (Cons r rs)
  then show ?case using overlap_iff [OF _ assms(2), of r] by (auto split: option.splits)
qed simp

lemma covered_disjoint: "A \<inter> covered rs = {} \<longleftrightarrow> (\<forall>r \<in> set rs. A \<inter> {lo r ..< hi r} = {})"
  by (auto simp: covered_def)

lemma overlaps_none:
  assumes "region_table_ok rs" and "0 < unat sz" and "unat b + unat sz < 2 ^ 32"
  shows "memblock_overlaps_region rs b sz = None \<longleftrightarrow> {unat b ..< unat b + unat sz} \<inter> covered rs = {}"
proof (cases "rs = [filler]")
  case False
  then have g: "\<forall>r \<in> set rs. rgn_ok r" using assms(1) by (simp add: region_table_ok_def gapped_def)
  have "(unat b < hi r \<and> lo r < unat b + unat sz) \<longleftrightarrow> {unat b ..< unat b + unat sz} \<inter> {lo r ..< hi r} \<noteq> {}" if "r \<in> set rs" for r
  proof -
    have "lo r < hi r" using g that by (simp add: rgn_ok_def)
    then show ?thesis using assms(2) by (auto simp: Int_atLeastLessThan)
  qed
  then have "{unat b ..< unat b + unat sz} \<inter> covered rs = {} \<longleftrightarrow> (\<forall>r \<in> set rs. \<not> (unat b < hi r \<and> lo r < unat b + unat sz))"
    unfolding covered_disjoint by blast
  then show ?thesis using overlaps_exact [OF g assms(3)] by (cases "memblock_overlaps_region rs b sz") (auto dest: nth_mem)
qed (simp add: memblock_addrs_overlap_def)


section \<open>Free memory\<close>

lemma unat_align_down: "p < 32 \<Longrightarrow> unat (memblock_align_down x (2 ^ p)) = unat x div 2 ^ p * 2 ^ p"
  using unat_and_not_mask32 [of p x] by (simp add: memblock_align_down_def mask_eq_exp_minus_1)

lemma align_down_greatest: "p < 32 \<Longrightarrow> 2 ^ p dvd c \<Longrightarrow> c \<le> unat x \<longleftrightarrow> c \<le> unat (memblock_align_down x (2 ^ p))"
  unfolding unat_align_down
proof (elim dvdE)
  fix q assume "c = 2 ^ p * q"
  then show "c \<le> unat x \<longleftrightarrow> c \<le> unat x div 2 ^ p * 2 ^ p"
    by (metis div_le_mono div_times_less_eq_dividend le_trans mult.commute mult_le_mono1 nonzero_mult_div_cancel_left power_eq_0_iff zero_neq_numeral)
qed

lemma align_down_le: "p < 32 \<Longrightarrow> memblock_align_down x (2 ^ p) \<le> x"
  by (simp add: word_le_nat_alt unat_align_down)

text \<open>Where a block of size \<open>n\<close> could lie between two addresses, aligned and without touching what is reserved.\<close>

definition block_fits :: "memblock_region list \<Rightarrow> nat \<Rightarrow> nat \<Rightarrow> nat \<Rightarrow> nat \<Rightarrow> nat \<Rightarrow> bool" where
  "block_fits res p n from lim c \<longleftrightarrow> from \<le> c \<and> c + n \<le> lim \<and> 2 ^ p dvd c \<and> {c ..< c + n} \<inter> covered res = {}"

text \<open>The result of a search: the highest place, or none and then 0.\<close>

definition highest :: "(nat \<Rightarrow> bool) \<Rightarrow> u32 \<Rightarrow> bool" where
  "highest P r \<longleftrightarrow> (if r = 0 then \<nexists>c. P c else P (unat r) \<and> (\<forall>c. P c \<longrightarrow> c \<le> unat r))"

lemma highest_cong: "(\<And>c. P c \<longleftrightarrow> Q c) \<Longrightarrow> highest P r \<longleftrightarrow> highest Q r"
  by (simp add: highest_def)

lemma highest_none: "(\<And>c. \<not> P c) \<Longrightarrow> highest P 0"
  by (simp add: highest_def)

lemma find_region_loop_highest:
  assumes res: "region_table_ok res" and sz: "0 < unat sz" and p: "p < 32" and st: "0 < unat st"
    and base: "2 ^ p dvd unat base" "unat base + unat sz < 2 ^ 32"
  shows "\<exists>r. find_region_loop res st sz (2 ^ p) base = Some r \<and> highest (block_fits res p (unat sz) (unat st) (unat base + unat sz)) r"
  using base
proof (induction "unat base" arbitrary: base rule: less_induct)
  case less
  note unroll = find_region_loop.simps [of res st sz "2 ^ p" base]
  let ?P = "block_fits res p (unat sz) (unat st) (unat base + unat sz)"
  show ?case
  proof (cases "st \<le> base")
    case False
    then have "\<nexists>c. ?P c" by (auto simp: block_fits_def word_le_nat_alt)
    then show ?thesis using unroll False by (simp add: highest_def)
  next
    case True
    then have b0: "base \<noteq> 0" "unat st \<le> unat base" using st by (auto simp: word_le_nat_alt)
    note ov = overlaps_none [OF res sz less.prems(2)]
    show ?thesis
    proof (cases "memblock_overlaps_region res base sz")
      case None
      then have "?P (unat base)" using ov less.prems(1) b0 by (simp add: block_fits_def)
      then show ?thesis using unroll True None b0 by (auto simp: highest_def block_fits_def)
    next
      case (Some j)
      then have "res \<noteq> [filler]" by (auto simp: memblock_addrs_overlap_def)
      then have ok: "\<forall>r \<in> set res. rgn_ok r" using res by (simp add: region_table_ok_def gapped_def)
      then have j: "j < length res" "unat base < hi (res ! j)" "lo (res ! j) < unat base + unat sz"
        using overlaps_exact [OF ok less.prems(2)] Some by auto
      have cand: "c + unat sz \<le> lo (res ! j)" if c: "?P c" for c
      proof -
        have "{c ..< c + unat sz} \<inter> {lo (res ! j) ..< hi (res ! j)} = {}" using c j(1) by (auto simp: block_fits_def covered_disjoint)
        moreover have "c \<le> unat base" using c by (simp add: block_fits_def)
        moreover have "lo (res ! j) < hi (res ! j)" using ok j(1) by (simp add: rgn_ok_def)
        ultimately show ?thesis using j(2) sz by (auto simp: Int_atLeastLessThan)
      qed
      show ?thesis
      proof (cases "rgn_base (res ! j) < sz")
        case low: True
        then have "\<nexists>c. ?P c" using cand by (force simp: word_less_nat_alt lo_def)
        then show ?thesis using unroll True Some low by (simp add: highest_def)
      next
        case high: False
        let ?d = "rgn_base (res ! j) - sz" and ?new = "memblock_align_down (rgn_base (res ! j) - sz) (2 ^ p)"
        have d: "unat ?d = lo (res ! j) - unat sz" "unat sz \<le> lo (res ! j)"
          using high by (simp_all add: unat_diff lo_def word_le_nat_alt not_less)
        have le: "unat ?new \<le> unat ?d" using align_down_le [OF p] by (simp add: word_le_nat_alt)
        then have less: "unat ?new < unat base" using d j(3) by linarith
        have al: "2 ^ p dvd unat ?new" by (simp add: unat_align_down [OF p])
        have sum: "unat ?new + unat sz < 2 ^ 32" using less less.prems(2) by simp
        obtain r where r: "find_region_loop res st sz (2 ^ p) ?new = Some r" "highest (block_fits res p (unat sz) (unat st) (unat ?new + unat sz)) r"
          using less.hyps [OF less al sum] by blast
        have same: "block_fits res p (unat sz) (unat st) (unat ?new + unat sz) c \<longleftrightarrow> ?P c" for c
        proof
          assume "?P c"
          moreover have "c \<le> unat ?new" using cand [OF \<open>?P c\<close>] d align_down_greatest [OF p, of c ?d] \<open>?P c\<close> by (auto simp: block_fits_def)
          ultimately show "block_fits res p (unat sz) (unat st) (unat ?new + unat sz) c" by (simp add: block_fits_def)
        qed (use less in \<open>simp add: block_fits_def\<close>)
        show ?thesis using r(1) r(2) [unfolded highest_cong [OF same]] unroll True Some high by simp
      qed
    qed
  qed
qed


definition from_page :: "nat \<Rightarrow> nat" where "from_page x = (if x = 0 then 4096 else x)"

lemma from_page_le: "x \<le> from_page x" "0 < from_page x"
  by (simp_all add: from_page_def)

lemma find_region_highest:
  assumes res: "region_table_ok res" and sz: "0 < unat sz" and p: "p < 32"
  shows "\<exists>r. memblock_find_region res st en sz (2 ^ p) = Some r \<and> highest (block_fits res p (unat sz) (from_page (unat st)) (unat en)) r"
proof (cases "en < sz")
  case True
  then show ?thesis by (auto simp: memblock_find_region_def word_less_nat_alt block_fits_def intro!: highest_none)
next
  case False
  let ?st = "if st = 0 then PAGE_SIZE else st" and ?base = "memblock_align_down (en - sz) (2 ^ p)"
  have d: "unat (en - sz) = unat en - unat sz" "unat sz \<le> unat en" using False by (simp_all add: unat_diff word_le_nat_alt not_less)
  have st: "unat ?st = from_page (unat st)" by (simp add: from_page_def unat_eq_0)
  have le: "unat ?base \<le> unat (en - sz)" using align_down_le [OF p] by (simp add: word_le_nat_alt)
  then have sum: "unat ?base + unat sz < 2 ^ 32" using d unat_bound [of en] by simp
  have al: "2 ^ p dvd unat ?base" by (simp add: unat_align_down [OF p])
  have pos: "0 < unat ?st" unfolding st by (rule from_page_le(2))
  obtain r where r: "find_region_loop res ?st sz (2 ^ p) ?base = Some r" "highest (block_fits res p (unat sz) (unat ?st) (unat ?base + unat sz)) r"
    using find_region_loop_highest [OF res sz p pos al sum] by blast
  have same: "block_fits res p (unat sz) (unat ?st) (unat ?base + unat sz) c \<longleftrightarrow> block_fits res p (unat sz) (from_page (unat st)) (unat en) c" for c
  proof -
    have "c + unat sz \<le> unat ?base + unat sz \<longleftrightarrow> c + unat sz \<le> unat en" if "2 ^ p dvd c"
      using align_down_greatest [OF p that, of "en - sz"] d by linarith
    then show ?thesis unfolding block_fits_def st by blast
  qed
  show ?thesis using r(1) r(2) [unfolded highest_cong [OF same]] False by (simp add: memblock_find_region_def)
qed

text \<open>A place in one of the memory regions; the first page of memory is not given out.\<close>

definition place :: "memblock_region list \<Rightarrow> memblock_region list \<Rightarrow> nat \<Rightarrow> nat \<Rightarrow> nat \<Rightarrow> nat \<Rightarrow> nat \<Rightarrow> bool" where
  "place mem res p n start lim c \<longleftrightarrow> (\<exists>m \<in> set mem. block_fits res p n (from_page (max (lo m) start)) (min (hi m) lim) c)"

lemma place_Cons: "place (m # ms) res p n start lim c \<longleftrightarrow> block_fits res p n (from_page (max (lo m) start)) (min (hi m) lim) c \<or> place ms res p n start lim c"
  by (simp add: place_def)

lemma place_bounds: "place ms res p n start lim c \<Longrightarrow> \<exists>m \<in> set ms. lo m \<le> c \<and> start \<le> c \<and> 0 < c \<and> c + n \<le> hi m \<and> c + n \<le> lim"
  unfolding place_def block_fits_def using from_page_le by (metis (no_types) max.bounded_iff min.bounded_iff order.strict_trans2 order_trans)

lemma unat_max_min: "unat (max a b :: u32) = max (unat a) (unat b)" "unat (min a b :: u32) = min (unat a) (unat b)"
  by (auto simp: max_def min_def word_le_nat_alt)

lemma find_base_loop_highest:
  assumes res: "region_table_ok res" and sz: "0 < unat sz" and p: "p < 32"
    and "\<forall>m \<in> set ms. rgn_ok m" and "sorted_wrt (\<lambda>r s. hi s < lo r) ms"
  shows "\<exists>r. find_base_loop res ms sz (2 ^ p) start en = Some r \<and> highest (place ms res p (unat sz) (unat start) (unat en)) r"
  using assms(4,5)
proof (induction ms)
  case Nil
  then show ?case by (simp add: highest_none place_def)
next
  case (Cons m ms)
  let ?P = "place ms res p (unat sz) (unat start) (unat en)" and ?F = "block_fits res p (unat sz) (from_page (max (lo m) (unat start))) (min (hi m) (unat en))"
  obtain r where r: "find_base_loop res ms sz (2 ^ p) start en = Some r" "highest ?P r" using Cons by auto
  have m: "rgn_ok m" "\<forall>s \<in> set ms. hi s < lo m" using Cons.prems by auto
  note e = rgn_end_hi [OF m(1)]
  have skip: "highest (place (m # ms) res p (unat sz) (unat start) (unat en)) r" if "\<And>c. \<not> ?F c"
    using r(2) that by (simp add: highest_def place_Cons)
  have below: "\<not> rgn_size m < sz \<Longrightarrow> \<not> rgn_end m \<le> start \<Longrightarrow> \<not> ?F c \<or> max (lo m) (unat start) < min (hi m) (unat en)" for c
    using from_page_le(1) [of "max (lo m) (unat start)"] sz by (auto simp: block_fits_def)
  consider (small) "rgn_size m < sz" | (stop) "\<not> rgn_size m < sz" "rgn_end m \<le> start"
    | (empty) "\<not> rgn_size m < sz" "\<not> rgn_end m \<le> start" "max (rgn_base m) start \<ge> min (rgn_end m) en"
    | (look) "\<not> rgn_size m < sz" "\<not> rgn_end m \<le> start" "\<not> max (rgn_base m) start \<ge> min (rgn_end m) en" by blast
  then show ?case
  proof cases
    case small
    have "\<not> ?F c" for c
    proof
      assume "?F c"
      then have "lo m \<le> c" "c + unat sz \<le> hi m" using from_page_le(1) [of "max (lo m) (unat start)"] by (auto simp: block_fits_def)
      then show False using small by (simp add: word_less_nat_alt lo_def hi_def)
    qed
    then show ?thesis using r(1) skip small by simp
  next
    case stop
    then have "hi m \<le> unat start" using e by (simp add: word_le_nat_alt)
    then have "\<not> place (m # ms) res p (unat sz) (unat start) (unat en) c" for c
      using place_bounds [of "m # ms" res p "unat sz" "unat start" "unat en" c] m sz by (force simp: rgn_ok_def)
    then show ?thesis using stop by (simp add: highest_none)
  next
    case empty
    then have "\<not> max (lo m) (unat start) < min (hi m) (unat en)" using e unfolding not_less lo_def by (simp only: word_le_nat_alt unat_max_min)
    then have "\<not> ?F c" for c using below empty by blast
    then show ?thesis using r(1) skip empty by simp
  next
    case look
    obtain f where f: "memblock_find_region res (max (rgn_base m) start) (min (rgn_end m) en) sz (2 ^ p) = Some f" "highest ?F f"
      using find_region_highest [OF res sz p, of "max (rgn_base m) start" "min (rgn_end m) en"] e by (auto simp: unat_max_min lo_def)
    show ?thesis
    proof (cases "f = 0")
      case True
      then show ?thesis using look f r(1) skip by (simp add: highest_def)
    next
      case False
      then have F: "?F (unat f)" "\<And>c. ?F c \<Longrightarrow> c \<le> unat f" using f(2) by (auto simp: highest_def)
      then have "lo m \<le> unat f" using from_page_le(1) [of "max (lo m) (unat start)"] by (auto simp: block_fits_def)
      moreover have "c < lo m" if "?P c" for c using place_bounds [OF that] m(2) by force
      ultimately have "c \<le> unat f" if "place (m # ms) res p (unat sz) (unat start) (unat en) c" for c
        using that F(2) unfolding place_Cons by (meson le_trans less_imp_le)
      then show ?thesis using look f(1) False F(1) by (simp add: highest_def place_Cons)
    qed
  qed
qed

lemma place_rev: "place (rev ms) = place ms"
  by (simp add: place_def fun_eq_iff)

lemma find_base_highest:
  assumes tables: "region_table_ok (regions (mb_memory mb))" "region_table_ok (regions (mb_reserved mb))" and sz: "0 < unat sz" and p: "p < 32"
  shows "\<exists>r. memblock_find_base mb sz (2 ^ p) start en = Some r \<and>
    highest (place (regions (mb_memory mb)) (regions (mb_reserved mb)) p (unat sz) (unat start) (unat (if en = 0 then current_limit mb else en))) r"
proof -
  let ?mem = "regions (mb_memory mb)" and ?en = "if en = 0 then current_limit mb else en"
  have "sz \<noteq> 0" using sz by auto
  show ?thesis
  proof (cases "?mem = [filler]")
    case True
    have "\<not> place [filler] (regions (mb_reserved mb)) p (unat sz) (unat start) (unat ?en) c" for c
      using place_bounds [of "[filler]" "regions (mb_reserved mb)" p "unat sz" "unat start" "unat ?en" c] by auto
    moreover have "0 < sz" using sz by (simp add: word_less_nat_alt)
    ultimately show ?thesis using True \<open>sz \<noteq> 0\<close> by (simp add: memblock_find_base_def highest_none)
  next
    case False
    then have g: "gapped ?mem" using tables(1) by (simp add: region_table_ok_def)
    then have "\<forall>m \<in> set (rev ?mem). rgn_ok m" "sorted_wrt (\<lambda>r s. hi s < lo r) (rev ?mem)" by (simp_all add: gapped_def sorted_wrt_rev)
    from find_base_loop_highest [OF tables(2) sz p this, of start ?en] show ?thesis using \<open>sz \<noteq> 0\<close> by (simp add: memblock_find_base_def place_rev)
  qed
qed

end
