(* ===== verification/Memblock_Calls.thy ===== *)
theory Memblock_Calls
  imports Memblock_Find
begin

text \<open>
  The calls on the tables of memory: that they are exact, also when a full table is moved to a new array, and
  that blocks which are allocated stay blocks_apart through all sequences of calls.
\<close>

section \<open>Adding with and without room\<close>

lemma add_region_room:
  assumes "region_table_ok (regions (mb_get k mb))" and "length (regions (mb_get k mb)) + 1 < rgn_max (mb_get k mb)"
    and "0 < unat sz" "unat b + unat sz < 2 ^ 32"
  shows "\<exists>rs'. rgn_grown (regions (mb_get k mb)) b sz rs' \<and> memblock_add_region (Suc n) slab k b sz mb = Some (True, put_regions k rs' mb)"
  using add_region_body_cases [OF assms(1) _ assms(3,4)] assms(2) by (fastforce simp: rgn_grown_def)

text \<open>The memory table is in the static array; the reserved table may be in an array of its own, which is reserved itself.\<close>

definition array_range :: "memblock \<Rightarrow> nat set" where
  "array_range mb = (case array_pa (mb_reserved mb) of None \<Rightarrow> {} | Some pa \<Rightarrow> {unat pa ..< unat pa + 8 * rgn_max (mb_reserved mb)})"

definition tables_ok :: "memblock \<Rightarrow> bool" where
  "tables_ok mb \<longleftrightarrow> region_table_ok (regions (mb_memory mb)) \<and> region_table_ok (regions (mb_reserved mb)) \<and>
     length (regions (mb_memory mb)) < rgn_max (mb_memory mb) \<and> length (regions (mb_reserved mb)) < rgn_max (mb_reserved mb) \<and>
     (\<exists>k. rgn_max (mb_reserved mb) = 2 ^ k \<and> 2 \<le> k \<and> k \<le> 28) \<and>
     (\<forall>pa. array_pa (mb_reserved mb) = Some pa \<longrightarrow> unat pa + 8 * rgn_max (mb_reserved mb) < 2 ^ 32)"

lemma mb_get_simps [simp]: "mb_get Reserved mb = mb_reserved mb" "mb_get Memory mb = mb_memory mb"
  by (simp_all add: mb_get_def)

lemma put_reserved_simps [simp]:
  "mb_reserved (put_regions Reserved rs mb) = (mb_reserved mb)\<lparr>regions := rs\<rparr>" "mb_memory (put_regions Reserved rs mb) = mb_memory mb"
  "mb_memory (put_regions Memory rs mb) = (mb_memory mb)\<lparr>regions := rs\<rparr>" "mb_reserved (put_regions Memory rs mb) = mb_reserved mb"
  "mb_reserved (mb_put Reserved t mb) = t" "mb_memory (mb_put Reserved t mb) = mb_memory mb"
  by (simp_all add: put_regions_def mb_put_def)

lemma array_range_put [simp]: "array_range (put_regions k rs mb) = array_range mb"
  by (cases k) (simp_all add: array_range_def cong: option.case_cong)

lemma unat_bytes: "8 * m < 2 ^ 32 \<Longrightarrow> unat (of_nat m * 8 :: u32) = 8 * m"
  using unat_of_nat_small [of "8 * m", where 'a = 32] by (simp add: mult.commute)

text \<open>How the reserved table looks after a successful call: the same array, or a new one on free memory instead of the old.\<close>

definition moved :: "memblock \<Rightarrow> nat set \<Rightarrow> memblock \<Rightarrow> bool" where
  "moved mb A mb' \<longleftrightarrow> tables_ok mb' \<and> mb_memory mb' = mb_memory mb \<and>
     (array_range mb' = array_range mb \<and> covered (regions (mb_reserved mb')) = A \<or>
      array_range mb' \<inter> A = {} \<and> array_range mb' \<subseteq> covered (regions (mb_memory mb)) \<and>
        covered (regions (mb_reserved mb')) = (A \<union> array_range mb') - array_range mb)"

lemma place_memory:
  assumes "place mem res p n st lim c"
  shows "{c ..< c + n} \<subseteq> covered mem" "{c ..< c + n} \<inter> covered res = {}" "\<exists>m \<in> set mem. c + n \<le> hi m"
proof -
  obtain m where "m \<in> set mem" "lo m \<le> c" "c + n \<le> hi m" using place_bounds [OF assms] by blast
  then show "{c ..< c + n} \<subseteq> covered mem" "\<exists>m \<in> set mem. c + n \<le> hi m" by (force simp: covered_def)+
  show "{c ..< c + n} \<inter> covered res = {}" using assms by (auto simp: place_def block_fits_def)
qed

lemma table_hi: "region_table_ok rs \<Longrightarrow> r \<in> set rs \<Longrightarrow> hi r < 2 ^ 32"
  by (auto simp: region_table_ok_def gapped_def rgn_ok_def)

lemma double_reserved:
  assumes t: "region_table_ok (regions (mb_memory mb))" "region_table_ok (regions (mb_reserved mb))" and len: "length (regions (mb_reserved mb)) = rgn_max (mb_reserved mb)"
    and k: "rgn_max (mb_reserved mb) = 2 ^ k" "2 \<le> k" "k < 28" and m: "length (regions (mb_memory mb)) < rgn_max (mb_memory mb)"
    and arr: "array_range mb \<subseteq> covered (regions (mb_reserved mb))" "\<And>pa. array_pa (mb_reserved mb) = Some pa \<Longrightarrow> unat pa + 8 * rgn_max (mb_reserved mb) < 2 ^ 32"
  shows "\<exists>ok mb'. memblock_double_array (memblock_add_region (Suc n) None) None Reserved mb = Some (ok, mb') \<and>
    (if ok then moved mb (covered (regions (mb_reserved mb))) mb' else mb' = mb)"
proof (cases "memblock_can_resize mb")
  case False
  then show ?thesis by (intro exI [of _ False]) (simp add: memblock_double_array_def)
next
  case resize: True
  let ?t = "mb_reserved mb" and ?M = "rgn_max (mb_reserved mb)" and ?rs = "regions (mb_reserved mb)"
  let ?old = "of_nat ?M * 8 :: u32" and ?new = "push_bit 1 (of_nat ?M * 8) :: u32"
  have "(2 :: nat) ^ k \<le> 2 ^ 27" "(2 :: nat) ^ 2 \<le> 2 ^ k" using k(2,3) by (intro power_increasing; simp)+
  then have M: "4 \<le> ?M" "16 * ?M < 2 ^ 32" using k(1) by simp_all
  have old: "unat ?old = 8 * ?M" using M(2) by (intro unat_bytes) simp
  have "?new = of_nat (16 * ?M)" by (simp add: push_bit_eq_mult)
  then have new: "unat ?new = 16 * ?M" using M(2) unat_of_nat_small [of "16 * ?M", where 'a = 32] by simp
  then have pos: "0 < unat ?new" using M(1) by simp
  obtain addr where f: "memblock_find_base mb ?new 4 0 0 = Some addr"
    "highest (place (regions (mb_memory mb)) ?rs 2 (unat ?new) 0 (unat (current_limit mb))) addr"
    using find_base_highest [OF t pos, of 2 0 0] by auto
  show ?thesis
  proof (cases "addr = 0")
    case True
    then show ?thesis using resize f(1) by (intro exI [of _ False]) (simp add: memblock_double_array_def)
  next
    case False
    let ?A = "{unat addr ..< unat addr + unat ?new}"
    let ?mb1 = "mb_put Reserved (?t\<lparr>array_pa := Some addr, rgn_max := ?M * 2\<rparr>) mb"
    have pl: "?A \<subseteq> covered (regions (mb_memory mb))" "?A \<inter> covered ?rs = {}" and hi: "\<exists>x \<in> set (regions (mb_memory mb)). unat addr + unat ?new \<le> hi x"
      using f(2) False place_memory [of "regions (mb_memory mb)" ?rs 2 "unat ?new" 0 "unat (current_limit mb)" "unat addr"] by (simp_all add: highest_def)
    have sum: "unat addr + unat ?new < 2 ^ 32" using hi table_hi [OF t(1)] by force
    obtain rs2 where rs2: "rgn_grown ?rs addr ?new rs2" "memblock_add_region (Suc n) None Reserved addr ?new ?mb1 = Some (True, put_regions Reserved rs2 ?mb1)"
      using add_region_room [of Reserved ?mb1 ?new addr n None] t(2) len M(1) pos sum by auto
    then have g2: "region_table_ok rs2" "covered rs2 = covered ?rs \<union> ?A" "length rs2 \<le> ?M + 1" using len by (simp_all add: rgn_grown_def)
    let ?mb2 = "put_regions Reserved rs2 ?mb1"
    have step: "memblock_double_array (memblock_add_region (Suc n) None) None Reserved mb =
      (case array_pa ?t of None \<Rightarrow> Some (True, ?mb2)
       | Some pa \<Rightarrow> map_option (\<lambda>(_, mb3). (True, mb3)) (do_memblock_remove (memblock_add_region (Suc n) None) Reserved pa ?old ?mb2))"
      using resize False f(1) rs2(2) by (simp add: memblock_double_array_def Let_def split: option.split)
    have range: "array_range (put_regions Reserved rs ?mb1) = ?A" for rs using new by (simp add: array_range_def)
    have ok: "tables_ok (put_regions Reserved rs ?mb1)" if "region_table_ok rs" "length rs \<le> ?M + 2" for rs
      using that t(1) k m M sum new unfolding tables_ok_def by (auto intro!: exI [of _ "Suc k"])
    show ?thesis
    proof (cases "array_pa ?t")
      case None
      have "moved mb (covered ?rs) ?mb2" using ok [OF g2(1)] g2(2,3) pl range None by (auto simp: moved_def array_range_def)
      then show ?thesis using step None by (intro exI [of _ True]) simp
    next
      case (Some pa)
      have r: "array_range mb = {unat pa ..< unat pa + unat ?old}" using Some old by (simp add: array_range_def)
      have "rs2 \<noteq> [filler]" using g2(2) pos by auto
      then have "gapped rs2" using g2(1) by (simp add: region_table_ok_def)
      then have nt: "not_touching rs2 (unat pa + unat ?old)"
        using covered_not_touching [of rs2 "unat pa" "unat pa + unat ?old"] arr(1) g2(2) old M(1) by (auto simp: r)
      obtain rs3 where rs3: "shrunk rs2 pa ?old rs3" "do_memblock_remove (memblock_add_region (Suc n) None) Reserved pa ?old ?mb2 = Some (True, put_regions Reserved rs3 ?mb2)"
        using do_remove_room [of Reserved ?mb2 ?old pa] g2(1,3) M(1) old arr(2) [OF Some] nt by auto
      then have "moved mb (covered ?rs) (put_regions Reserved rs3 ?mb1)"
        using ok [of rs3] g2 pl range r by (auto simp: moved_def shrunk_def)
      then show ?thesis using step Some rs3(2) by (intro exI [of _ True]) simp
    qed
  qed
qed

text \<open>An array of \<open>2 ^ 28\<close> regions cannot be doubled: the new size is 0, which \<^verbatim>\<open>memblock_find_base\<close> refuses.\<close>

lemma double_largest:
  assumes "rgn_max (mb_get k mb) = 2 ^ 28"
  shows "memblock_double_array add None k mb = (if memblock_can_resize mb then None else Some (False, mb))"
  using assms by (simp add: memblock_double_array_def memblock_find_base_def)

lemma add_reserved:
  assumes ok: "tables_ok mb" and arr: "array_range mb \<subseteq> covered (regions (mb_reserved mb)) \<union> {unat b ..< unat b + unat sz}"
    and sz: "0 < unat sz" "unat b + unat sz < 2 ^ 32"
  shows "case memblock_add_region (Suc (Suc n)) None Reserved b sz mb of
      None \<Rightarrow> rgn_max (mb_reserved mb) = 2 ^ 28
    | Some (ok, mb') \<Rightarrow> if ok then moved mb (covered (regions (mb_reserved mb)) \<union> {unat b ..< unat b + unat sz}) mb' else mb' = mb"
proof -
  let ?rs = "regions (mb_reserved mb)" and ?M = "rgn_max (mb_reserved mb)"
  let ?dbl = "memblock_double_array (memblock_add_region (Suc n) None) None"
  let ?A = "covered ?rs \<union> {unat b ..< unat b + unat sz}"
  note t = ok [unfolded tables_ok_def]
  have room: "region_table_ok (regions (mb_get Reserved mb))" "length (regions (mb_get Reserved mb)) < rgn_max (mb_get Reserved mb)" using t by simp_all
  obtain rs' where g: "rgn_grown ?rs b sz rs'" and out: "length rs' < ?M \<and> add_region_body ?dbl Reserved b sz mb = Some (True, put_regions Reserved rs' mb) \<or>
     length rs' = ?M \<and> length ?rs + 1 = ?M \<and>
       (\<exists>slot. memblock_remove_region rs' slot = ?rs \<and>
         add_region_body ?dbl Reserved b sz mb = (case ?dbl Reserved (put_regions Reserved rs' mb) of
           None \<Rightarrow> None
         | Some (ok, mb'') \<Rightarrow> if ok then Some (True, mb'') else Some (False, put_regions Reserved (memblock_remove_region (regions (mb_reserved mb'')) slot) mb'')))"
    using add_region_body_cases [OF room sz, of ?dbl, unfolded mb_get_simps] by blast
  let ?mb = "put_regions Reserved rs' mb"
  have cov: "region_table_ok rs'" "covered rs' = ?A" using g by (simp_all add: rgn_grown_def)
  from out show ?thesis
  proof (elim disjE conjE exE)
    assume "length rs' < ?M" and r: "add_region_body ?dbl Reserved b sz mb = Some (True, ?mb)"
    then have "moved mb ?A ?mb" using t cov by (simp add: moved_def tables_ok_def)
    then show ?thesis using r by simp
  next
    fix slot
    assume len: "length rs' = ?M" and slot: "memblock_remove_region rs' slot = ?rs" and r: "add_region_body ?dbl Reserved b sz mb =
      (case ?dbl Reserved ?mb of None \<Rightarrow> None
       | Some (ok, mb'') \<Rightarrow> if ok then Some (True, mb'') else Some (False, put_regions Reserved (memblock_remove_region (regions (mb_reserved mb'')) slot) mb''))"
    have undo: "put_regions Reserved ?rs ?mb = mb" using mb_simps(3,4) [of Reserved] by simp
    obtain k where k: "?M = 2 ^ k" "2 \<le> k" "k \<le> 28" using t by blast
    show ?thesis
    proof (cases "k = 28")
      case True
      then have "?dbl Reserved ?mb = (if memblock_can_resize mb then None else Some (False, ?mb))" using double_largest [of Reserved ?mb] k(1) by simp
      then show ?thesis using r True k(1) slot undo by simp
    next
      case False
      then obtain ok mb' where d: "?dbl Reserved ?mb = Some (ok, mb')" "if ok then moved ?mb (covered (regions (mb_reserved ?mb))) mb' else mb' = ?mb"
        using double_reserved [of ?mb k n] t cov len k arr by auto
      have m: "moved ?mb A m = moved mb A m" for A m by (simp add: moved_def)
      show ?thesis
      proof (cases ok)
        case True
        then have "moved mb ?A mb'" using d(2) cov by (simp add: m)
        then show ?thesis using r d(1) True by simp
      next
        case False
        then have "mb' = ?mb" using d(2) by simp
        then show ?thesis using r d(1) slot undo False by simp
      qed
    qed
  qed
qed

section \<open>Freeing\<close>

lemma covered_gapped: "region_table_ok rs \<Longrightarrow> x \<in> covered rs \<Longrightarrow> gapped rs"
  by (auto simp: region_table_ok_def)

lemma remove_reserved:
  assumes ok: "tables_ok mb" and cov: "{unat b ..< unat b + unat sz} \<subseteq> covered (regions (mb_reserved mb))"
    and arr: "array_range mb \<subseteq> covered (regions (mb_reserved mb)) - {unat b ..< unat b + unat sz}"
    and sz: "0 < unat sz" "unat b + unat sz < 2 ^ 32"
  shows "case do_memblock_remove (memblock_add_region (Suc (Suc n)) None) Reserved b sz mb of
      None \<Rightarrow> rgn_max (mb_reserved mb) = 2 ^ 28
    | Some (ok, mb') \<Rightarrow> if ok then moved mb (covered (regions (mb_reserved mb)) - {unat b ..< unat b + unat sz}) mb' else mb' = mb"
proof -
  let ?rs = "regions (mb_reserved mb)" and ?en = "b + sz" and ?A = "covered (regions (mb_reserved mb)) - {unat b ..< unat b + unat sz}"
  note t = ok [unfolded tables_ok_def]
  have en: "unat ?en = unat b + unat sz" using sz(2) unat_add_lem [of b sz] by simp
  have "unat b \<in> covered ?rs" using cov sz(1) by auto
  then have "gapped ?rs" using covered_gapped t by blast
  then have nt: "not_touching ?rs (unat b + unat sz)" using covered_not_touching cov sz(1) by simp
  note scan = remove_scan_table [OF _ sz nt]
  show ?thesis
  proof (cases "remove_scan [] ?rs b ?en")
    case (Remove_end rs')
    then have "moved mb ?A (put_regions Reserved rs' mb)" using scan t by (auto simp: moved_def tables_ok_def shrunk_def)
    then show ?thesis using Remove_end by (simp add: do_memblock_remove_def)
  next
    case (Remove_split pre rgn rest)
    have s: "gapped ?rs" "?rs = pre @ rgn # rest" "lo rgn < unat b" "unat ?en < hi rgn" using scan [unfolded Remove_split] t by auto
    have "b < ?en" using en sz(1) by (simp add: word_less_nat_alt)
    note sp = remove_split [OF s this, unfolded en]
    let ?low = "rgn\<lparr>rgn_size := b - rgn_base rgn\<rparr>" and ?rest = "rgn_end rgn - ?en"
    let ?mb = "put_regions Reserved (pre @ ?low # rest) mb"
    have tm: "tables_ok ?mb" using t sp(1) s(2) by (simp add: tables_ok_def)
    have am: "array_range ?mb \<subseteq> covered (regions (mb_reserved ?mb)) \<union> {unat ?en ..< unat ?en + unat ?rest}" using arr sp(4) en by simp
    have m: "moved ?mb A m = moved mb A m" for A m by (simp add: moved_def)
    have undo: "put_regions Reserved ((pre @ ?low # rest)[length pre := ?low\<lparr>rgn_size := rgn_end rgn - rgn_base rgn\<rparr>]) ?mb = mb"
      using mb_simps(4) [of Reserved mb] s(2) by (simp add: rgn_end_def)
    have A: "covered (regions (mb_reserved ?mb)) \<union> {unat ?en ..< unat ?en + unat ?rest} = ?A" using sp(4) en by simp
    note add = add_reserved [OF tm am sp(2) sp(3) [folded en], of n, unfolded m A]
    show ?thesis
    proof (cases "memblock_add_region (Suc (Suc n)) None Reserved ?en ?rest ?mb")
      case None
      then show ?thesis using add Remove_split by (simp add: do_memblock_remove_def)
    next
      case (Some res)
      obtain ok mb' where res: "res = (ok, mb')" by fastforce
      have step: "do_memblock_remove (memblock_add_region (Suc (Suc n)) None) Reserved b sz mb =
        (if ok then Some (True, mb')
         else Some (False, put_regions Reserved ((regions (mb_reserved mb'))[length pre := (regions (mb_reserved mb') ! length pre)\<lparr>rgn_size := rgn_end rgn - rgn_base rgn\<rparr>]) mb'))"
        using Some Remove_split unfolding do_memblock_remove_def mb_get_simps res by simp
      have r: "if ok then moved mb ?A mb' else mb' = ?mb" using add unfolding Some res by simp
      show ?thesis
      proof (cases ok)
        case True
        then show ?thesis using r step by simp
      next
        case False
        then have "mb' = ?mb" using r by simp
        then show ?thesis unfolding step using False undo by simp
      qed
    qed
  qed
qed

section \<open>Allocating\<close>

text \<open>A size rounded up to a multiple of a power of two.\<close>

definition round_up :: "nat \<Rightarrow> nat \<Rightarrow> nat" where "round_up p n = (n + 2 ^ p - 1) div 2 ^ p * 2 ^ p"

lemma unat_align_up:
  assumes "p < 32" and "unat sz + 2 ^ p \<le> 2 ^ 32"
  shows "unat (memblock_align_up sz (2 ^ p)) = round_up p (unat sz)"
proof -
  have "unat (2 ^ p - 1 :: u32) = 2 ^ p - 1" using unat_mask32 [OF assms(1)] by (simp add: mask_eq_exp_minus_1)
  moreover have pos: "1 \<le> (2 :: nat) ^ p" by simp
  moreover have "unat sz + 2 ^ p - 1 < 2 ^ 32" using assms(2) pos by linarith
  ultimately have "unat (sz + (2 ^ p - 1)) = unat sz + 2 ^ p - 1" using unat_add_lem [of sz "2 ^ p - 1"] by simp
  then show ?thesis using unat_align_down [OF assms(1), of "sz + (2 ^ p - 1)"]
    by (simp add: memblock_align_up_def memblock_align_down_def round_up_def)
qed

lemma round_up_ge: "n \<le> round_up p n"
proof -
  have "1 \<le> (2 :: nat) ^ p" by simp
  then show ?thesis using dividend_less_times_div [of "2 ^ p" "n + 2 ^ p - 1"] unfolding round_up_def by (simp add: mult.commute)
qed

definition array_reserved :: "memblock \<Rightarrow> bool" where
  "array_reserved mb \<longleftrightarrow> array_range mb \<subseteq> covered (regions (mb_reserved mb))"

text \<open>Reserving a block that was found: with a free entry it cannot fail.\<close>

lemma reserve_found:
  assumes ok: "tables_ok mb" "array_reserved mb" and pl: "place (regions (mb_memory mb)) res p (unat sz) st lim (unat a)" and sz: "0 < unat sz"
  shows "case memblock_add_region (Suc (Suc n)) None Reserved a sz mb of
      None \<Rightarrow> rgn_max (mb_reserved mb) = 2 ^ 28
    | Some (ok, mb') \<Rightarrow> if ok then moved mb (covered (regions (mb_reserved mb)) \<union> {unat a ..< unat a + unat sz}) mb' else mb' = mb"
proof -
  have "region_table_ok (regions (mb_memory mb))" using ok(1) by (simp add: tables_ok_def)
  then have "unat a + unat sz < 2 ^ 32" using place_memory(3) [OF pl] table_hi by (meson order.strict_trans1)
  moreover have "array_range mb \<subseteq> covered (regions (mb_reserved mb)) \<union> {unat a ..< unat a + unat sz}" using ok(2) by (auto simp: array_reserved_def)
  ultimately show ?thesis by (intro add_reserved [OF ok(1) _ sz])
qed

definition block_taken :: "nat \<Rightarrow> u32 \<Rightarrow> memblock \<Rightarrow> u32 \<Rightarrow> memblock \<Rightarrow> bool" where
  "block_taken p sz mb a mb' \<longleftrightarrow>
     (if a = 0 then mb' = mb
      else (\<exists>st lim. place (regions (mb_memory mb)) (regions (mb_reserved mb)) p (unat sz) st lim (unat a)) \<and>
        moved mb (covered (regions (mb_reserved mb)) \<union> {unat a ..< unat a + unat sz}) mb')"

lemma alloc_base_found:
  assumes ok: "tables_ok mb" "array_reserved mb" and p: "p < 32" and sz: "0 < unat (memblock_align_up sz (2 ^ p))" and r: "do_memblock_alloc_base None sz (2 ^ p) max_addr mb = Some (a, mb')"
  shows "block_taken p (memblock_align_up sz (2 ^ p)) mb a mb'"
proof -
  let ?sz = "memblock_align_up sz (2 ^ p)"
  obtain f where f: "memblock_find_base mb ?sz (2 ^ p) 0 max_addr = Some f"
    "highest (place (regions (mb_memory mb)) (regions (mb_reserved mb)) p (unat ?sz) 0 (unat (if max_addr = 0 then current_limit mb else max_addr))) f"
    using find_base_highest [OF _ _ sz p, of mb 0 max_addr] ok(1) by (auto simp: tables_ok_def)
  show ?thesis
  proof (cases "f = 0")
    case True
    then show ?thesis using r f(1) by (simp add: do_memblock_alloc_base_def block_taken_def)
  next
    case False
    then have pl: "place (regions (mb_memory mb)) (regions (mb_reserved mb)) p (unat ?sz) 0 (unat (if max_addr = 0 then current_limit mb else max_addr)) (unat f)"
      using f(2) by (simp add: highest_def)
    note found = reserve_found [OF ok pl sz, of 1]
    from r f(1) False obtain ok' where c: "memblock_add_region (Suc (Suc 1)) None Reserved f ?sz mb = Some (ok', mb')" "a = (if ok' then f else 0)"
      unfolding do_memblock_alloc_base_def Let_def by (auto simp: numeral_3_eq_3 simp del: memblock_add_region.simps)
    then show ?thesis using found pl False by (cases ok') (auto simp: block_taken_def)
  qed
qed

text \<open>The same for a node, where a region is searched from its aligned start; that must not wrap around.\<close>

lemma alloc_nid_region_found:
  assumes ok: "tables_ok mb" "array_reserved mb" and p: "p < 32" and sz: "0 < unat sz" and mp: "mp \<in> set (regions (mb_memory mb))" "lo mp + 2 ^ p \<le> 2 ^ 32"
    and r: "memblock_alloc_nid_region None mp sz (2 ^ p) nid mb = Some (a, mb')"
  shows "block_taken p sz mb a mb'"
proof -
  let ?st = "memblock_align_up (rgn_base mp) (2 ^ p)" and ?mem = "regions (mb_memory mb)" and ?res = "regions (mb_reserved mb)"
  have t: "region_table_ok ?mem" "region_table_ok ?res" using ok(1) by (simp_all add: tables_ok_def)
  have st: "lo mp \<le> unat ?st" using unat_align_up [OF p, of "rgn_base mp"] mp(2) round_up_ge [of "lo mp" p] by (simp add: lo_def)
  obtain f where f: "memblock_find_region ?res ?st (rgn_end mp) sz (2 ^ p) = Some f" "highest (block_fits ?res p (unat sz) (from_page (unat ?st)) (unat (rgn_end mp))) f"
    using find_region_highest [OF t(2) sz p] by blast
  show ?thesis
  proof (cases "?st < rgn_end mp \<and> nid = 0 \<and> f \<noteq> 0")
    case False
    then have "memblock_alloc_nid_region None mp sz (2 ^ p) nid mb = Some (0, mb)"
      using f(1) unfolding memblock_alloc_nid_region_def memblock_nid_range_def Let_def by auto
    then show ?thesis using r by (simp add: block_taken_def)
  next
    case True
    then have "mp \<noteq> filler" by (auto simp: rgn_end_def)
    then have "rgn_ok mp" using t(1) mp(1) by (auto simp: region_table_ok_def gapped_def)
    then have e: "unat (rgn_end mp) = hi mp" by (rule rgn_end_hi)
    have fit: "block_fits ?res p (unat sz) (from_page (unat ?st)) (hi mp) (unat f)" using f(2) True e by (simp add: highest_def)
    have pl: "place ?mem ?res p (unat sz) (unat ?st) (hi mp) (unat f)"
      unfolding place_def using mp(1) fit st by (intro bexI [of _ mp]) (simp_all add: max_absorb2)
    note found = reserve_found [OF ok pl sz, of 1]
    from r f(1) True obtain ok' where c: "memblock_add_region (Suc (Suc 1)) None Reserved f sz mb = Some (ok', mb')" "a = (if ok' then f else 0)"
      unfolding memblock_alloc_nid_region_def memblock_nid_range_def Let_def by (auto simp: numeral_3_eq_3 simp del: memblock_add_region.simps)
    then show ?thesis using found pl True by (cases ok') (auto simp: block_taken_def)
  qed
qed

lemma alloc_nid_found:
  assumes ok: "tables_ok mb" "array_reserved mb" and p: "p < 32" and sz: "0 < unat sz"
    and mps: "set mps \<subseteq> set (regions (mb_memory mb))" "\<forall>m \<in> set (regions (mb_memory mb)). lo m + 2 ^ p \<le> 2 ^ 32"
    and r: "alloc_nid_loop None mps sz (2 ^ p) nid mb = Some (a, mb')"
  shows "block_taken p sz mb a mb'"
  using mps(1) r
proof (induction mps)
  case (Cons mp mps)
  obtain a1 mb1 where c: "memblock_alloc_nid_region None mp sz (2 ^ p) nid mb = Some (a1, mb1)" using Cons.prems(2) by (auto split: option.splits)
  have "mp \<in> set (regions (mb_memory mb))" "lo mp + 2 ^ p \<le> 2 ^ 32" using Cons.prems(1) mps(2) by auto
  note one = alloc_nid_region_found [OF ok p sz this c]
  show ?case
  proof (cases "a1 = 0")
    case True
    then have "mb1 = mb" using one by (simp add: block_taken_def)
    then show ?thesis using Cons c True by simp
  next
    case False
    then have "a = a1" "mb' = mb1" using Cons.prems(2) c by simp_all
    then show ?thesis using one by blast
  qed
qed (simp add: block_taken_def)

end
