(* ===== verification/Memblock_Steps.thy ===== *)
theory Memblock_Steps
  imports Memblock_Calls
begin

text \<open>
  The properties of the boot memory allocator: what single calls do to the sets of addresses, and what holds
  after every sequence of calls.
\<close>

section \<open>A set of addresses has one table\<close>





section \<open>Single calls\<close>

lemma region_memory_exact:
  assumes ok: "region_table_ok (regions (mb_memory mb))" and sz: "0 < unat sz" "unat b + unat sz < 2 ^ 32"
  shows "memblock_is_region_memory mb b sz \<longleftrightarrow> {unat b ..< unat b + unat sz} \<subseteq> covered (regions (mb_memory mb))"
proof (cases "memblock_search (regions (mb_memory mb)) b")
  case None
  then have "unat b \<notin> covered (regions (mb_memory mb))" using search_iff [OF ok, of b] by simp
  moreover have "unat b \<in> {unat b ..< unat b + unat sz}" using sz(1) by simp
  ultimately show ?thesis using None unfolding memblock_is_region_memory_def by fastforce
next
  case (Some i)
  let ?rs = "regions (mb_memory mb)"
  have h: "i < length ?rs" "lo (?rs ! i) \<le> unat b" "unat b < hi (?rs ! i)" using search_exact [OF ok, of b] Some by (simp_all add: holds_addr_def)
  then have cov: "unat b \<in> covered ?rs" by (auto simp: covered_nth)
  then have g: "gapped ?rs" by (rule covered_gapped [OF ok])
  have "unat (b + sz) = unat b + unat sz" using sz(2) unat_add_lem [of b sz] by simp
  then have "memblock_is_region_memory mb b sz \<longleftrightarrow> unat b + unat sz \<le> hi (?rs ! i)"
    using Some h rgn_end_hi [OF gapped_nth [OF g h(1)]] by (simp add: memblock_is_region_memory_def word_le_nat_alt lo_def)
  also have "\<dots> \<longleftrightarrow> {unat b ..< unat b + unat sz} \<subseteq> covered ?rs"
  proof
    assume "unat b + unat sz \<le> hi (?rs ! i)"
    then have "{unat b ..< unat b + unat sz} \<subseteq> {lo (?rs ! i) ..< hi (?rs ! i)}" using h by auto
    also have "\<dots> \<subseteq> covered ?rs" using h(1) by (force simp: covered_def)
    finally show "{unat b ..< unat b + unat sz} \<subseteq> covered ?rs" .
  qed (rule range_in_one [OF g _ h])
  finally show ?thesis .
qed

definition bytes :: "u32 \<Rightarrow> u32 \<Rightarrow> nat set" where "bytes b sz = {unat b ..< unat b + unat sz}"

definition has_room :: "memblock_type \<Rightarrow> bool" where "has_room t \<longleftrightarrow> length (regions t) + 1 < rgn_max t"

text \<open>The tables of the examples: two memory regions, and one reserved region.\<close>

abbreviation two_banks :: memblock where
  "two_banks \<equiv> put_regions Reserved [\<lparr>rgn_base = 0x1000, rgn_size = 0x1000\<rparr>]
     (put_regions Memory [\<lparr>rgn_base = 0x1000, rgn_size = 0x4000\<rparr>, \<lparr>rgn_base = 0x6000, rgn_size = 0x2000\<rparr>] memblock_init)"

lemmas table_simps = region_table_ok_def gapped_def rgn_ok_def lo_def hi_def has_room_def memblock_init_def

text \<open>
  C33: \<^verbatim>\<open>memblock_add\<close> with a free entry in the array adds exactly the bytes of the range to the memory.  The table stays in
  order, with a gap before each region, so that ranges which overlap or touch have been merged; the reserved table
  and the other fields are as before.
\<close>

theorem memblock_add_exact:
  assumes "region_table_ok (regions (mb_memory mb))" and "has_room (mb_memory mb)" and "0 < sz" and "unat b + unat sz < 2 ^ 32"
  shows "\<exists>rs. memblock_add slab b sz mb = Some (True, put_regions Memory rs mb) \<and> region_table_ok rs \<and>
    covered rs = covered (regions (mb_memory mb)) \<union> bytes b sz \<and> length rs \<le> length (regions (mb_memory mb)) + 1"
  using add_region_room [of Memory mb sz b 2 slab] assms
  by (auto simp: memblock_add_def has_room_def rgn_grown_def bytes_def numeral_3_eq_3 numeral_2_eq_2 word_less_nat_alt simp del: memblock_add_region.simps)

theorem memblock_add_exact_witness:
  "\<exists>rs. memblock_add None 0x5000 0x1000 two_banks = Some (True, put_regions Memory rs two_banks) \<and> region_table_ok rs \<and>
    covered rs = covered (regions (mb_memory two_banks)) \<union> bytes 0x5000 0x1000 \<and> length rs \<le> length (regions (mb_memory two_banks)) + 1"
  by (rule memblock_add_exact) (simp_all add: table_simps)



text \<open>
  C35: The lookups answer for the set of addresses.  For tables whose regions end below \<open>2 ^ 32\<close> (otherwise see
  \<open>top_of_memory_not_found\<close>) and ranges that are not empty and do not wrap around: \<^verbatim>\<open>memblock_is_memory\<close> and \<^verbatim>\<open>memblock_is_reserved\<close>, by binary search, whether an address is
  in it, \<^verbatim>\<open>memblock_is_region_memory\<close> whether all of a range is in it, and \<^verbatim>\<open>memblock_is_region_reserved\<close> whether some of it is.
\<close>

theorem memblock_lookup_exact:
  assumes "region_table_ok (regions (mb_memory mb))" and "region_table_ok (regions (mb_reserved mb))" and "0 < sz" and "unat b + unat sz < 2 ^ 32"
  shows "(memblock_is_memory mb a \<longleftrightarrow> unat a \<in> covered (regions (mb_memory mb))) \<and>
    (memblock_is_reserved mb a \<longleftrightarrow> unat a \<in> covered (regions (mb_reserved mb))) \<and>
    (memblock_is_region_memory mb b sz \<longleftrightarrow> bytes b sz \<subseteq> covered (regions (mb_memory mb))) \<and>
    (memblock_is_region_reserved mb b sz \<longleftrightarrow> bytes b sz \<inter> covered (regions (mb_reserved mb)) \<noteq> {})"
proof (intro conjI)
  have sz: "0 < unat sz" using assms(3) by (simp add: word_less_nat_alt)
  show "memblock_is_memory mb a \<longleftrightarrow> unat a \<in> covered (regions (mb_memory mb))" unfolding memblock_is_memory_def by (rule search_iff) (rule assms)
  show "memblock_is_reserved mb a \<longleftrightarrow> unat a \<in> covered (regions (mb_reserved mb))" unfolding memblock_is_reserved_def by (rule search_iff) (rule assms)
  show "memblock_is_region_reserved mb b sz \<longleftrightarrow> bytes b sz \<inter> covered (regions (mb_reserved mb)) \<noteq> {}"
    unfolding memblock_is_region_reserved_def bytes_def by (simp only: overlaps_none [OF assms(2) sz assms(4)])
  show "memblock_is_region_memory mb b sz \<longleftrightarrow> bytes b sz \<subseteq> covered (regions (mb_memory mb))"
    unfolding bytes_def by (rule region_memory_exact [OF assms(1) sz assms(4)])
qed

theorem memblock_lookup_exact_witness:
  "memblock_is_memory two_banks 0x6FFF \<and> \<not> memblock_is_region_memory two_banks 0x4000 0x3000"
proof -
  have ok: "region_table_ok (regions (mb_memory two_banks))" "region_table_ok (regions (mb_reserved two_banks))" by (simp_all add: table_simps)
  have "0x5000 \<in> bytes 0x4000 0x3000" "0x5000 \<notin> covered (regions (mb_memory two_banks))" by (simp_all add: bytes_def lo_def hi_def)
  then have "\<not> bytes 0x4000 0x3000 \<subseteq> covered (regions (mb_memory two_banks))" by blast
  moreover have "unat (0x6FFF :: u32) \<in> covered (regions (mb_memory two_banks))" by (simp add: lo_def hi_def)
  moreover have "0 < (0x3000 :: u32)" "unat (0x4000 :: u32) + unat (0x3000 :: u32) < 2 ^ 32" by simp_all
  ultimately show ?thesis using memblock_lookup_exact [OF ok] by blast
qed

text \<open>
  C32: \<^verbatim>\<open>__memblock_alloc_base\<close> with a free entry in the reserved array always returns.  It finds the highest aligned block of the
  rounded size that lies in one memory region, above page 0, below the limit and apart from all that is reserved,
  and reserves exactly its bytes; it returns 0, and changes nothing, only when there is no such block.
\<close>

theorem memblock_alloc_highest:
  assumes "region_table_ok (regions (mb_memory mb))" and "region_table_ok (regions (mb_reserved mb))" and "has_room (mb_reserved mb)"
    and "p < 32" and "0 < sz" and "unat sz + 2 ^ p \<le> 2 ^ 32"
  shows "\<exists>a rs. do_memblock_alloc_base slab sz (2 ^ p) max_addr mb = Some (a, put_regions Reserved rs mb) \<and> region_table_ok rs \<and>
    highest (place (regions (mb_memory mb)) (regions (mb_reserved mb)) p (round_up p (unat sz)) 0 (unat (if max_addr = 0 then current_limit mb else max_addr))) a \<and>
    covered rs = covered (regions (mb_reserved mb)) \<union> (if a = 0 then {} else {unat a ..< unat a + round_up p (unat sz)})"
proof -
  let ?sz = "memblock_align_up sz (2 ^ p)" and ?rs = "regions (mb_reserved mb)"
  let ?P = "place (regions (mb_memory mb)) ?rs p (unat ?sz) 0 (unat (if max_addr = 0 then current_limit mb else max_addr))"
  have n: "unat ?sz = round_up p (unat sz)" by (rule unat_align_up [OF assms(4,6)])
  have pos: "0 < unat ?sz" using round_up_ge [of "unat sz" p] assms(5) n by (simp add: word_less_nat_alt)
  obtain a where a: "memblock_find_base mb ?sz (2 ^ p) 0 max_addr = Some a" "highest ?P a"
    using find_base_highest [OF assms(1,2) pos assms(4), of 0 max_addr] by auto
  show ?thesis
  proof (cases "a = 0")
    case True
    then have "do_memblock_alloc_base slab sz (2 ^ p) max_addr mb = Some (a, put_regions Reserved ?rs mb)"
      using a(1) mb_simps(4) [of Reserved mb] by (simp add: do_memblock_alloc_base_def)
    then show ?thesis using True a(2) assms(2) n by (intro exI [of _ a] exI [of _ ?rs]) simp
  next
    case False
    then have "?P (unat a)" using a(2) by (simp add: highest_def)
    then have sum: "unat a + unat ?sz < 2 ^ 32" using place_memory(3) table_hi [OF assms(1)] by (meson order.strict_trans1)
    obtain rs where g: "rgn_grown ?rs a ?sz rs" "memblock_add_region 3 slab Reserved a ?sz mb = Some (True, put_regions Reserved rs mb)"
      using add_region_room [of Reserved mb ?sz a 2 slab] assms(2,3) pos sum
      by (auto simp: has_room_def numeral_3_eq_3 numeral_2_eq_2 simp del: memblock_add_region.simps)
    then have "do_memblock_alloc_base slab sz (2 ^ p) max_addr mb = Some (a, put_regions Reserved rs mb)"
      using a(1) False by (simp add: do_memblock_alloc_base_def)
    then show ?thesis using False a(2) g(1) n by (intro exI [of _ a] exI [of _ rs]) (simp add: rgn_grown_def)
  qed
qed

theorem memblock_alloc_highest_witness:
  "\<exists>a rs. do_memblock_alloc_base None 0x1800 (2 ^ 12) 0 two_banks = Some (a, put_regions Reserved rs two_banks) \<and> region_table_ok rs \<and>
    highest (place (regions (mb_memory two_banks)) (regions (mb_reserved two_banks)) 12 (round_up 12 (unat (0x1800 :: u32))) 0
      (unat (if (0 :: u32) = 0 then current_limit two_banks else 0))) a \<and>
    covered rs = covered (regions (mb_reserved two_banks)) \<union> (if a = 0 then {} else {unat a ..< unat a + round_up 12 (unat (0x1800 :: u32))})"
  by (rule memblock_alloc_highest) (simp_all add: table_simps)

section \<open>Sequences of calls\<close>

text \<open>
  The state is the tables and the blocks that are allocated.  The steps are the calls during boot, before the slab
  allocator is there: memory is added while its array has room, anything may be reserved, and what is freed is
  a block that was allocated.  Ranges are not empty and do not wrap around.  \<^verbatim>\<open>memblock_remove\<close> and
  \<^verbatim>\<open>memblock_enforce_memory_limit\<close>, which take memory away under allocated blocks, are not among the steps, and neither is
  freeing of what was only reserved; the guard of \<open>alloc_nid\<close> excludes the wrap of \<open>alloc_nid_outside_memory\<close>.
\<close>

type_synonym boot_state = "memblock \<times> (u32 \<times> u32) list"

inductive mb_step :: "boot_state \<Rightarrow> boot_state \<Rightarrow> bool" where
  add: "has_room (mb_memory mb) \<Longrightarrow> 0 < sz \<Longrightarrow> unat b + unat sz < 2 ^ 32 \<Longrightarrow> memblock_add None b sz mb = Some (ok, mb') \<Longrightarrow>
    mb_step (mb, live) (mb', live)"
| reserve: "0 < sz \<Longrightarrow> unat b + unat sz < 2 ^ 32 \<Longrightarrow> memblock_reserve None b sz mb = Some (ok, mb') \<Longrightarrow> mb_step (mb, live) (mb', live)"
| alloc: "p < 32 \<Longrightarrow> do_memblock_alloc_base None sz (2 ^ p) max_addr mb = Some (a, mb') \<Longrightarrow> n = memblock_align_up sz (2 ^ p) \<Longrightarrow> 
    mb_step (mb, live) (mb', if a = 0 then live else (a, n) # live)"
| alloc_nid: "p < 32 \<Longrightarrow> \<forall>m \<in> set (regions (mb_memory mb)). lo m + 2 ^ p \<le> 2 ^ 32 \<Longrightarrow> n = memblock_align_up sz (2 ^ p) \<Longrightarrow> n \<noteq> 0 \<Longrightarrow>
    memblock_alloc_nid None sz (2 ^ p) nid mb = Some (a, mb') \<Longrightarrow> mb_step (mb, live) (mb', if a = 0 then live else (a, n) # live)"
| free: "(b, n) \<in> set live \<Longrightarrow> memblock_free None b n mb = Some (ok, mb') \<Longrightarrow> mb_step (mb, live) (mb', if ok then remove1 (b, n) live else live)"
| limit: "mb_step (mb, live) (memblock_set_current_limit lim mb, live)"
| analyze: "mb_step (mb, live) (memblock_analyze mb, live)"

definition blocks_apart :: "u32 \<times> u32 \<Rightarrow> u32 \<times> u32 \<Rightarrow> bool" where
  "blocks_apart x y \<longleftrightarrow> bytes (fst x) (snd x) \<inter> bytes (fst y) (snd y) = {}"

definition block_held :: "memblock \<Rightarrow> u32 \<times> u32 \<Rightarrow> bool" where
  "block_held mb x \<longleftrightarrow> 0 < unat (snd x) \<and> unat (fst x) + unat (snd x) < 2 ^ 32 \<and> bytes (fst x) (snd x) \<subseteq> covered (regions (mb_memory mb)) \<and>
     bytes (fst x) (snd x) \<subseteq> covered (regions (mb_reserved mb)) \<and> bytes (fst x) (snd x) \<inter> array_range mb = {}"

fun boot_inv :: "boot_state \<Rightarrow> bool" where
  "boot_inv (mb, live) \<longleftrightarrow> tables_ok mb \<and> array_reserved mb \<and> (\<forall>x \<in> set live. block_held mb x) \<and> sorted_wrt blocks_apart live"

lemma moved_keeps:
  assumes "moved mb A mb'" and "array_range mb \<subseteq> A"
  shows "tables_ok mb'" "mb_memory mb' = mb_memory mb" "array_reserved mb'" "X \<subseteq> A \<Longrightarrow> X \<inter> array_range mb = {} \<Longrightarrow> X \<subseteq> covered (regions (mb_reserved mb')) \<and> X \<inter> array_range mb' = {}"
  using assms unfolding moved_def array_reserved_def by (auto 0 4)

lemma moved_held:
  assumes "moved mb A mb'" "array_range mb \<subseteq> A" "block_held mb x" "bytes (fst x) (snd x) \<subseteq> A"
  shows "block_held mb' x"
  using moved_keeps(2,4) [OF assms(1,2)] assms(3,4) by (auto simp: block_held_def)

lemma block_taken_inv:
  assumes inv: "boot_inv (mb, live)" and tk: "block_taken p n mb a mb'" and n: "0 < unat n"
  shows "boot_inv (mb', if a = 0 then live else (a, n) # live)"
proof (cases "a = 0")
  case True
  then show ?thesis using inv tk by (simp add: block_taken_def)
next
  case False
  let ?res = "covered (regions (mb_reserved mb))" and ?B = "bytes a n"
  obtain st lim where pl: "place (regions (mb_memory mb)) (regions (mb_reserved mb)) p (unat n) st lim (unat a)" and mv: "moved mb (?res \<union> ?B) mb'"
    using tk False by (auto simp: block_taken_def bytes_def)
  note B = place_memory [OF pl, folded bytes_def]
  have t: "region_table_ok (regions (mb_memory mb))" and arr: "array_range mb \<subseteq> ?res" and live: "\<forall>x \<in> set live. block_held mb x" "sorted_wrt blocks_apart live"
    using inv by (simp_all add: tables_ok_def array_reserved_def)
  have sum: "unat a + unat n < 2 ^ 32" using B(3) table_hi [OF t] by (meson order.strict_trans1)
  have arr2: "array_range mb \<subseteq> ?res \<union> ?B" using arr by blast
  note keep = moved_keeps [OF mv arr2]
  have "?B \<inter> array_range mb = {}" using B(2) arr by blast
  then have "block_held mb' (a, n)" using keep(2) keep(4) [of ?B] B(1) n sum by (simp add: block_held_def)
  moreover have "block_held mb' x" if "x \<in> set live" for x
  proof (rule moved_held [OF mv arr2])
    show "block_held mb x" using live(1) that by blast
    then show "bytes (fst x) (snd x) \<subseteq> ?res \<union> ?B" by (auto simp: block_held_def)
  qed
  moreover have "blocks_apart (a, n) x" if "x \<in> set live" for x using live(1) that B(2) unfolding blocks_apart_def block_held_def by fastforce
  ultimately show ?thesis using keep(1,3) live(2) False by simp
qed

lemma sorted_remove1: "sorted_wrt P xs \<Longrightarrow> sorted_wrt P (remove1 y xs)"
  by (induction xs) (auto dest: set_remove1_subset [THEN subsetD])

lemma blocks_apart_sym: "blocks_apart x y \<longleftrightarrow> blocks_apart y x"
  by (auto simp: blocks_apart_def)

lemma blocks_apart_removed: "sorted_wrt blocks_apart xs \<Longrightarrow> y \<in> set xs \<Longrightarrow> x \<in> set (remove1 y xs) \<Longrightarrow> blocks_apart x y"
  by (induction xs) (auto simp: blocks_apart_sym split: if_splits)

lemma free_inv:
  assumes inv: "boot_inv (mb, live)" and y: "(b, n) \<in> set live" and r: "memblock_free None b n mb = Some (ok, mb')"
  shows "boot_inv (mb', if ok then remove1 (b, n) live else live)"
proof -
  let ?A = "covered (regions (mb_reserved mb)) - {unat b ..< unat b + unat n}"
  have t: "tables_ok mb" and arr: "array_range mb \<subseteq> covered (regions (mb_reserved mb))" and live: "\<forall>x \<in> set live. block_held mb x" "sorted_wrt blocks_apart live"
    using inv by (simp_all add: array_reserved_def)
  have h: "0 < unat n" "unat b + unat n < 2 ^ 32" "{unat b ..< unat b + unat n} \<subseteq> covered (regions (mb_reserved mb))" "{unat b ..< unat b + unat n} \<inter> array_range mb = {}"
    using bspec [OF live(1) y] by (simp_all add: block_held_def bytes_def)
  have arr2: "array_range mb \<subseteq> ?A" using arr h(4) by blast
  have eq: "do_memblock_remove (memblock_add_region (Suc (Suc 1)) None) Reserved b n mb = Some (ok, mb')"
    using r by (simp add: memblock_free_def numeral_3_eq_3 del: memblock_add_region.simps)
  have res: "if ok then moved mb ?A mb' else mb' = mb" using remove_reserved [OF t h(3) arr2 h(1,2), of 1] unfolding eq by simp
  show ?thesis
  proof (cases ok)
    case False
    then show ?thesis using res inv by simp
  next
    case True
    then have mv: "moved mb ?A mb'" using res by simp
    have "block_held mb' x" if "x \<in> set (remove1 (b, n) live)" for x
    proof (rule moved_held [OF mv arr2])
      show x: "block_held mb x" using live(1) that set_remove1_subset by fast
      show "bytes (fst x) (snd x) \<subseteq> ?A" using blocks_apart_removed [OF live(2) y that] x by (auto simp: block_held_def blocks_apart_def bytes_def)
    qed
    then show ?thesis using moved_keeps(1,3) [OF mv arr2] sorted_remove1 [OF live(2)] True by simp
  qed
qed

lemma reserve_inv:
  assumes inv: "boot_inv (mb, live)" and sz: "0 < unat sz" "unat b + unat sz < 2 ^ 32" and r: "memblock_reserve None b sz mb = Some (ok, mb')"
  shows "boot_inv (mb', live)"
proof -
  let ?A = "covered (regions (mb_reserved mb)) \<union> {unat b ..< unat b + unat sz}"
  have t: "tables_ok mb" and arr: "array_range mb \<subseteq> ?A" and live: "\<forall>x \<in> set live. block_held mb x" using inv by (auto simp: array_reserved_def)
  have eq: "memblock_add_region (Suc (Suc 1)) None Reserved b sz mb = Some (ok, mb')"
    using r by (simp add: memblock_reserve_def numeral_3_eq_3 del: memblock_add_region.simps split: if_splits)
  have res: "if ok then moved mb ?A mb' else mb' = mb" using add_reserved [OF t arr sz, of 1] unfolding eq by simp
  show ?thesis
  proof (cases ok)
    case True
    then have mv: "moved mb ?A mb'" using res by simp
    have "block_held mb' x" if "x \<in> set live" for x using moved_held [OF mv arr, of x] live that by (auto simp: block_held_def)
    then show ?thesis using moved_keeps(1,3) [OF mv arr] inv by simp
  qed (use res inv in simp)
qed

lemma add_inv:
  assumes inv: "boot_inv (mb, live)" and room: "has_room (mb_memory mb)" and sz: "0 < unat sz" "unat b + unat sz < 2 ^ 32"
    and r: "memblock_add None b sz mb = Some (ok, mb')"
  shows "boot_inv (mb', live)"
proof -
  have t: "region_table_ok (regions (mb_get Memory mb))" "length (regions (mb_get Memory mb)) + 1 < rgn_max (mb_get Memory mb)"
    using inv room by (simp_all add: tables_ok_def has_room_def)
  obtain rs where rs: "rgn_grown (regions (mb_memory mb)) b sz rs" "mb' = put_regions Memory rs mb"
    using add_region_room [OF t sz, of 2 None] r by (auto simp: memblock_add_def numeral_3_eq_3 numeral_2_eq_2 simp del: memblock_add_region.simps)
  then have "tables_ok mb'" "array_reserved mb'" using inv t(2) by (auto simp: tables_ok_def array_reserved_def rgn_grown_def)
  moreover have "block_held mb' x" if "block_held mb x" for x using that rs by (auto simp: block_held_def rgn_grown_def)
  ultimately show ?thesis using inv by auto
qed

lemma boot_inv_cong:
  assumes "mb_memory mb' = mb_memory mb" "mb_reserved mb' = mb_reserved mb"
  shows "boot_inv (mb', live) \<longleftrightarrow> boot_inv (mb, live)"
  unfolding boot_inv.simps tables_ok_def array_reserved_def array_range_def block_held_def assms ..

lemma mb_step_inv: "mb_step s t \<Longrightarrow> boot_inv s \<Longrightarrow> boot_inv t"
proof (induction rule: mb_step.induct)
  case (add mb sz b ok mb' live)
  then show ?case by (intro add_inv [of mb live sz b ok mb']) (simp_all add: word_less_nat_alt)
next
  case (reserve sz b mb ok mb' live)
  then show ?case by (intro reserve_inv [of mb live sz b ok mb']) (simp_all add: word_less_nat_alt)
next
  case (alloc p sz max_addr mb a mb' n live)
  then have n: "0 < unat n" by (auto simp: do_memblock_alloc_base_def memblock_find_base_def unat_gt_0 split: if_splits)
  then have "block_taken p n mb a mb'" using alloc alloc_base_found [of mb p sz max_addr a mb'] by simp
  then show ?case by (rule block_taken_inv [OF alloc.prems _ n])
next
  case (alloc_nid p mb n sz nid a mb' live)
  then have n: "0 < unat n" by (simp add: unat_gt_0)
  have "alloc_nid_loop None (regions (mb_memory mb)) n (2 ^ p) nid mb = Some (a, mb')" using alloc_nid by (simp add: memblock_alloc_nid_def split: if_splits)
  then have "block_taken p n mb a mb'" using alloc_nid alloc_nid_found [of mb p n "regions (mb_memory mb)" nid a mb'] n by simp
  then show ?case by (rule block_taken_inv [OF alloc_nid.prems _ n])
next
  case (free b n live mb ok mb')
  then show ?case by (intro free_inv)
next
  case (limit mb live lim)
  then show ?case using boot_inv_cong [of "memblock_set_current_limit lim mb" mb live] by (simp add: memblock_set_current_limit_def)
next
  case (analyze mb live)
  then show ?case using boot_inv_cong [of "memblock_analyze mb" mb live] by (simp add: memblock_analyze_def)
qed

lemma boot_inv_start: "boot_inv (memblock_init, [])"
proof -
  have "(128 :: nat) = 2 ^ 7" by simp
  then have "\<exists>k. (128 :: nat) = 2 ^ k \<and> 2 \<le> k \<and> k \<le> 28" by (intro exI [of _ 7]) simp
  then show ?thesis unfolding boot_inv.simps tables_ok_def array_reserved_def array_range_def memblock_init_def by (simp add: region_table_ok_def)
qed

interpretation boot: invariant_system "\<lambda>s. s = (memblock_init, [])" mb_step boot_inv
  by unfold_locales (use boot_inv_start mb_step_inv in blast)+

text \<open>
  C31: After every sequence of the steps of \<open>mb_step\<close> from the start, also those in which the reserved array was full and was moved
  (adding memory while its array has room, reserving, allocating below a limit, allocating on a node while no aligned start
  of a region wraps around, freeing a block that is allocated, setting the limit; not removing memory), the
  blocks that are allocated and not yet freed lie in memory, are reserved, do not overlap one another, and
  none of them overlaps the array that the reserved table itself is kept in, which is reserved too.
\<close>

theorem memblock_allocs_disjoint:
  assumes "mb_step\<^sup>*\<^sup>* (memblock_init, []) (mb, live)"
  shows "sorted_wrt blocks_apart live \<and> array_range mb \<subseteq> covered (regions (mb_reserved mb)) \<and>
    (\<forall>x \<in> set live. bytes (fst x) (snd x) \<subseteq> covered (regions (mb_memory mb)) \<inter> covered (regions (mb_reserved mb)) - array_range mb)"
  using boot.inv_reachable [OF refl assms] by (auto simp: block_held_def array_reserved_def)

lemmas alloc_simps = do_memblock_alloc_base_def memblock_align_up_def memblock_align_down_def memblock_find_base_def memblock_find_region_def
  find_region_loop.simps memblock_addrs_overlap_def rgn_end_def add_region_body_def add_scan.simps numeral_3_eq_3 memblock_memory_can_coalesce_def

theorem memblock_allocs_disjoint_witness:
  "blocks_apart (0x7000, 0x1000) (0x8000, 0x1000)"
proof -
  let ?mem = "put_regions Memory [\<lparr>rgn_base = 0x1000, rgn_size = 0x8000\<rparr>] memblock_init"
  let ?one = "put_regions Reserved [\<lparr>rgn_base = 0x8000, rgn_size = 0x1000\<rparr>] ?mem" and ?two = "put_regions Reserved [\<lparr>rgn_base = 0x7000, rgn_size = 0x2000\<rparr>] ?mem"
  have "memblock_add None 0x1000 0x8000 memblock_init = Some (True, ?mem)"
    by (simp add: memblock_add_def alloc_simps memblock_init_def)
  then have 1: "mb_step (memblock_init, []) (?mem, [])" by (intro mb_step.add [of _ "0x8000" "0x1000"]) (simp_all add: has_room_def memblock_init_def)
  have "do_memblock_alloc_base None 0x1000 (2 ^ 12) 0 ?mem = Some (0x8000, ?one)"
    by (simp add: alloc_simps memblock_init_def)
  then have 2: "mb_step (?mem, []) (?one, [(0x8000, 0x1000)])" using mb_step.alloc [of 12 "0x1000" 0 ?mem "0x8000" ?one "0x1000" "[]"] by (simp add: memblock_align_up_def)
  have "do_memblock_alloc_base None 0x1000 (2 ^ 12) 0 ?one = Some (0x7000, ?two)"
    by (simp add: alloc_simps memblock_init_def)
  then have 3: "mb_step (?one, [(0x8000, 0x1000)]) (?two, [(0x7000, 0x1000), (0x8000, 0x1000)])"
    using mb_step.alloc [of 12 "0x1000" 0 ?one "0x7000" ?two "0x1000" "[(0x8000, 0x1000)]"] by (simp add: memblock_align_up_def)
  have "mb_step\<^sup>*\<^sup>* (memblock_init, []) (?two, [(0x7000, 0x1000), (0x8000, 0x1000)])" using 1 2 3 by (meson converse_rtranclp_into_rtranclp rtranclp.rtrancl_refl)
  from memblock_allocs_disjoint [OF this] show ?thesis by simp
qed

section \<open>Where the code goes wrong\<close>

text \<open>Removing a range that ends where a region begins makes that region larger than all memory: its size wraps around.\<close>

lemma remove_before_region:
  "memblock_remove None 0x1000 0x1000 (put_regions Memory [\<lparr>rgn_base = 0x2000, rgn_size = 0x1000\<rparr>] memblock_init) =
   Some (True, put_regions Memory [\<lparr>rgn_base = 0x2000, rgn_size = 0xFFFFF000\<rparr>] memblock_init)"
proof -
  have eq: "(0xFFFFF000 :: u32) = - 0x1000" by simp
  show ?thesis unfolding eq by (simp add: memblock_remove_def do_memblock_remove_def remove_scan.simps rgn_end_def)
qed

text \<open>The limit on memory is not enforced but the loop never ends, if no reserved region is left below the limit.\<close>

definition above_limit :: "u32 \<Rightarrow> memblock_region list \<Rightarrow> bool" where
  "above_limit limit rs \<longleftrightarrow> rs \<noteq> [] \<and> (\<forall>p \<in> set rs. rgn_base p > limit \<or> rgn_size p = 0)"

lemma limit_reserved_hangs: "limit_reserved limit i rs = Some rs' \<Longrightarrow> \<not> (i = 0 \<and> above_limit limit rs)"
proof (rule limit_reserved.raw_induct [where P = "\<lambda>limit i rs rs'. \<not> (i = 0 \<and> above_limit limit rs)"])
  fix rec limit i rs out
  assume hyp: "\<And>limit i rs out. rec limit i rs = Some out \<Longrightarrow> \<not> (i = 0 \<and> above_limit limit rs)"
    and res: "(if i < length rs
      then (let p = rs ! i;
                p' = (if rgn_base p > limit then p\<lparr>rgn_size := 0\<rparr>
                      else if rgn_end p > limit then p\<lparr>rgn_size := limit - rgn_base p\<rparr> else p)
            in if rgn_size p' = 0 then rec limit i (memblock_remove_region (rs[i := p']) i)
               else rec limit (Suc i) (rs[i := p']))
      else Some rs) = Some out"
  show "\<not> (i = 0 \<and> above_limit limit rs)"
  proof
    assume a: "i = 0 \<and> above_limit limit rs"
    then obtain p ps where rs: "rs = p # ps" by (cases rs) (auto simp: above_limit_def)
    have p: "rgn_base p > limit \<or> \<not> rgn_end p > limit \<and> rgn_size p = 0" using a rs by (auto simp: above_limit_def rgn_end_def)
    then have "\<exists>q. rec limit 0 (memblock_remove_region (q # ps) 0) = Some out"
      using res a rs by (cases "rgn_base p > limit") (auto simp: Let_def cong: if_cong)
    then show False using hyp a rs by (fastforce simp: memblock_remove_region_def above_limit_def split: if_splits)
  qed
qed

lemma enforce_memory_limit_hangs:
  "memblock_enforce_memory_limit 0x1000 (put_regions Memory [\<lparr>rgn_base = 0x1000, rgn_size = 0x8000\<rparr>] memblock_init) = None"
proof -
  have "limit_reserved 0x2000 0 [filler] = None" using limit_reserved_hangs [of "0x2000" 0 "[filler]"] by (cases "limit_reserved 0x2000 0 [filler]") (auto simp: above_limit_def)
  then show ?thesis by (simp add: memblock_enforce_memory_limit_def memblock_end_of_DRAM_def memblock_init_def put_regions_def mb_put_def rgn_end_def)
qed

text \<open>Memory that reaches the end of the address space is not found.\<close>

lemma top_of_memory_not_found:
  "memblock_is_memory (put_regions Memory [\<lparr>rgn_base = 0xF0000000, rgn_size = 0x10000000\<rparr>] memblock_init) 0xF8000000 = False"
  by (simp add: memblock_is_memory_def memblock_search_def memblock_search_loop.simps rgn_end_def)

text \<open>When the aligned start of a region wraps around, a block is given out that is not memory.\<close>

lemma alloc_nid_outside_memory:
  "map_option fst (memblock_alloc_nid None 0x1000 0x20000000 0 (put_regions Memory [\<lparr>rgn_base = 0xF0000000, rgn_size = 0x08000000\<rparr>] memblock_init)) = Some 0xC0000000"
  by (simp add: memblock_alloc_nid_def memblock_align_up_def memblock_alloc_nid_region_def memblock_nid_range_def rgn_end_def
      memblock_find_region_def memblock_align_down_def find_region_loop.simps memblock_addrs_overlap_def memblock_init_def numeral_3_eq_3
      add_region_body_def add_scan.simps)

end
