(* ===== verification/Spec2Isabelle.thy ===== *)
theory Spec2Isabelle
  imports Rwsem Semaphore Posix_Acl Bpf_Filter Kfifo Privilege Uid16 Resource Lock_Calls Sem_Calls Msg_Calls Memblock_Steps
begin

text \<open>
  Core services of the Linux 3.1 kernel for the Toradex Colibri modules (\<^verbatim>\<open>src/linux-toradex\<close>), modelled
  component by component from the C sources.  All paths below are relative to that directory.

  \<^bold>\<open>The parts and how they interact.\<close>  Drivers and protocols of the kernel rest on a small set of services
  that do not touch hardware: locks that put tasks to sleep, the identity and the privileges of a task,
  the decisions taken from them, buffers for bytes and packets, and the allocation of address ranges.

  \<^item> \<^bold>\<open>Sleeping locks.\<close>  \<open>Rwsem\<close> (\<^verbatim>\<open>lib/rwsem-spinlock.c\<close>) and \<open>Semaphore\<close> (\<^verbatim>\<open>kernel/semaphore.c\<close>).  A function body
    between taking and dropping the object's spinlock is one operation on a record; an \<open>inductive\<close> step
    relation interleaves the operations of any number of tasks.  Shown: exclusion, conservation of
    permits, no lost wake-up, the order in which waiters are served.
  \<^item> \<^bold>\<open>Identity and privilege.\<close>  \<open>Cred\<close> (\<^verbatim>\<open>include/linux/cred.h\<close>, the set operations of \<^verbatim>\<open>include/linux/capability.h\<close>),
    \<open>Cred_Groups\<close> (\<^verbatim>\<open>kernel/groups.c\<close>: sorting and searching), \<open>Group_Calls\<close> (the rest of it: the blocks a group list is kept in, \<^verbatim>\<open>getgroups\<close> and
    \<^verbatim>\<open>setgroups\<close>), \<open>Uid16\<close> (the 16-bit calls of \<^verbatim>\<open>kernel/uid16.c\<close>), \<open>Capability\<close> (\<^verbatim>\<open>security/commoncap.c\<close>, \<^verbatim>\<open>kernel/capability.c\<close>, the hooks and
    system calls), \<open>Exec_Cred\<close> (the credentials of a new program, \<^verbatim>\<open>cap_bprm_set_creds\<close> and its callers in
    \<^verbatim>\<open>fs/exec.c\<close>), \<open>Setid\<close> (the set-id calls of \<^verbatim>\<open>kernel/sys.c\<close>).  \<open>Privilege\<close> composes them: a \<open>cred_call\<close> is one
    system call that can change the credentials of a task, and its theorems are about every sequence
    of such calls.  Shown: the invariant of the capability sets, the secure bits and the sorted groups, that nothing is
    gained without \<^verbatim>\<open>execve\<close>, what an \<^verbatim>\<open>execve\<close> can give at most and gives exactly, that root is given up for
    good, the round trips of \<^verbatim>\<open>capget\<close> and \<^verbatim>\<open>capset\<close>, \<^verbatim>\<open>getgroups\<close> and \<^verbatim>\<open>setgroups\<close>, and that the 16-bit calls are the others on
    converted ids.
  \<^item> \<^bold>\<open>Access decisions.\<close>  \<open>Posix_Acl\<close> (\<^verbatim>\<open>fs/posix_acl.c\<close>) decides from an access control list and the
    credentials, through \<^verbatim>\<open>in_group_p\<close> of \<open>Cred_Groups\<close>.  Shown: validation accepts exactly the well-formed
    lists, the decision is that of POSIX 1003.1e with the groups as a set, the translations to and
    from file modes are inverse, \<^verbatim>\<open>chmod\<close> and creation keep lists valid and never widen them.
  \<^item> \<^bold>\<open>Packets.\<close>  \<open>Skbuff\<close> (\<^verbatim>\<open>net/core/skbuff.c\<close>: reading and trimming fragmented buffers), \<open>Bpf_Codes\<close> and
    \<open>Bpf_Filter\<close> (\<^verbatim>\<open>net/core/filter.c\<close>: checker, interpreter, attaching and delivery).  Shown: reads and trims
    are those of the flat byte sequence, a checked program that does not search netlink attributes (or only in packets of
    four bytes and more, and not nested) always returns and never reads outside its memory or the packet, memory is charged
    exactly, a socket delivers as many bytes of the packet as its filter returns.
  \<^item> \<^bold>\<open>Byte streams.\<close>  \<open>Kfifo\<close> (\<^verbatim>\<open>kernel/kfifo.c\<close>).  Shown: the ring buffer with free-running 32-bit indices refines
    a queue of bytes, of elements and of records; user copies that fault part-way keep whole elements.
  \<^item> \<^bold>\<open>Address ranges.\<close>  \<open>Resource\<close> (\<^verbatim>\<open>kernel/resource.c\<close>).  Shown: reservations are exclusive and exact, the
    search finds the lowest free slot where no address wraps around, insertion keeps the tree, splitting terminates and covers.

  \<^item> \<^bold>\<open>File locks.\<close>  \<open>File_Locks\<close> (\<^verbatim>\<open>fs/locks.c\<close>: POSIX and BSD locks, mandatory locks, \<^verbatim>\<open>fcntl\<close> and \<^verbatim>\<open>flock\<close>), with the proofs in
    \<open>Lock_Scan\<close> (the scan of the locks of one owner that merges, replaces and splits), \<open>Lock_Contract\<close> (whole
    lists, all calls interleaved, deadlocks) and \<open>Lock_Calls\<close> (the system calls).  Shown: a request changes
    exactly the bytes it names, locks exclude each other, nobody sleeps without a lock in the way, no
    cycle of waiting owners arises as long as none waits twice and at most eleven wait, ranges are computed without
    overflow, and no call leaves its request in a queue.

  \<^item> \<^bold>\<open>System V semaphores.\<close>  \<open>Ipc_Ids\<close> (\<^verbatim>\<open>ipc/util.c\<close>: identifiers, permissions through \<open>Cred_Groups\<close> and \<open>Capability\<close>) and
    \<open>Sysv_Sem\<close> (\<^verbatim>\<open>ipc/sem.c\<close>: \<^verbatim>\<open>semget\<close>, \<^verbatim>\<open>semctl\<close>, \<^verbatim>\<open>semop\<close>, \<^verbatim>\<open>semtimedop\<close>, \<^verbatim>\<open>copy_semundo\<close>, \<^verbatim>\<open>exit_sem\<close>).  Proofs: \<open>Sem_Queue\<close> (one array:
    sequences of operations and the scan of the queues that \<^verbatim>\<open>do_smart_update\<close> abbreviates), \<open>Sem_Contract\<close> and \<open>Sem_Steps\<close>
    (the namespace with its sleepers: the step relation \<open>sysv_step\<close>, its invariant \<open>sys_ok\<close>), \<open>Sem_Calls\<close> (the theorems).
    Shown: sequences of operations are atomic and exact (with at most one undo operation for a semaphore), no wake-up is lost although
    most of the queue is not looked at, no call meets a \<^verbatim>\<open>BUG_ON\<close> or accesses a semaphore or an adjustment outside its array, undoing is exact, identifiers name what they were given for, and
    the exit of a task works off its undo structures.

  \<^item> \<^bold>\<open>System V message queues.\<close>  \<open>Msg_Queue\<close> (\<^verbatim>\<open>ipc/msg.c\<close>, \<^verbatim>\<open>ipc/msgutil.c\<close>: \<^verbatim>\<open>msgget\<close>, \<^verbatim>\<open>msgctl\<close>, \<^verbatim>\<open>msgsnd\<close>, \<^verbatim>\<open>msgrcv\<close>) on the identifiers of
    \<open>Ipc_Ids\<close>.  Proofs: \<open>Msg_Contract\<close> (the text of a message, which message the search finds), \<open>Msg_Steps\<close> (the step relation \<open>msg_step\<close> and its
    invariant \<open>ns_ok\<close>), \<open>Msg_Calls\<close> (the theorems).  Shown: texts survive their segments, \<^verbatim>\<open>msgrcv\<close> takes the message its
    type asks for (the least \<^verbatim>\<open>long\<close> excepted), counts are exact, nobody sleeps while his message or the room for it is there, and a message that was sent
    is in one place only.

  \<^item> \<^bold>\<open>Boot memory.\<close>  \<open>Memblock\<close> (\<^verbatim>\<open>mm/memblock.c\<close>): the tables of memory and of reserved regions from which everything is allocated
    until the page allocator is there.  Proofs: \<open>Memblock_Regions\<close> (a table stands for a set of addresses; adding and
    removing), \<open>Memblock_Find\<close> (the binary search and the search for free memory), \<open>Memblock_Calls\<close> (a full array that is
    doubled, which reserves and frees memory itself), \<open>Memblock_Steps\<close> (the theorems and the step relation \<open>mb_step\<close>).  Shown:
    adding is the union of sets and the table stays merged, a set has one table, reserving and freeing are
    inverse, the highest free block is found, lookups are exact below the top of the address space, and blocks that are
    allocated stay apart through every sequence of the steps of \<open>mb_step\<close>.

  \<^bold>\<open>How the C is rendered.\<close>  A structure is a \<open>record\<close> (or a \<open>datatype\<close> where it is recursive), an enumeration or
  a set of tag constants is a \<open>datatype\<close>.  \<open>u32\<close>, \<open>u16\<close> and \<open>u8\<close> are words of that width wherever the code can wrap
  around (ring indices, filter arithmetic, capability masks, addresses); list lengths that C keeps in
  an \<^verbatim>\<open>unsigned int\<close> and that are bounded by the memory they describe are \<open>nat\<close>.  A result that is 0 or a
  negative error number is \<open>error + 'a\<close> (type \<open>kresult\<close>).  What C leaves undefined, or a \<^verbatim>\<open>BUG()\<close>, is a value of its
  own (\<open>None\<close>, \<open>Undefined\<close>), and theorems show that it is not reached; an access to the packet or to the arrays of a semaphore
  set outside their bounds is among it.  Names are those of the source; the
  leading underscores of \<^verbatim>\<open>__f\<close> are written \<open>do_f\<close>, system calls are \<open>sys_f\<close>, and a loop of a function is a function
  of its own whose text names it.  Memory allocation, user memory, pending signals and timers are
  arguments: a theorem holds for each of their values unless it says otherwise.

  \<^bold>\<open>Interfaces.\<close>  \<open>invariant_system\<close> (\<open>Kernel_Prelude\<close>) gives induction over reachable states to the step
  relations of \<open>Rwsem\<close>, \<open>Semaphore\<close>, the sockets of \<open>Bpf_Filter\<close>, the lock tables of \<open>Lock_Contract\<close>,
  the semaphore arrays of \<open>Sem_Steps\<close>, the message queues of \<open>Msg_Steps\<close> and the boot memory of \<open>Memblock_Steps\<close>.  \<open>capability_set\<close> (\<open>Cred\<close>) is what the credential
  code uses of the two-word sets; \<open>membership\<close> (\<open>Cred_Groups\<close>) is what a client of \<^verbatim>\<open>in_group_p\<close> and \<^verbatim>\<open>in_egroup_p\<close>
  relies on; \<open>fifo_contract\<close> (\<open>Kfifo\<close>) is the queue behind bytes and both record formats; \<open>range_owner\<close>
  (\<open>Resource\<close>) is the exclusive owner of address ranges; \<open>lock_call\<close> (\<open>Lock_Calls\<close>) is what the waiting loop needs
  of the lock functions it repeats.  Each is interpreted on the definitions of its component.

  \<^bold>\<open>Loops and fuel.\<close>  Loops over lists recurse on the list; the Shell sort, the binary search and the walk
  down the resource tree are \<open>function\<close>s with a measure.  The filter interpreter recurses on the remaining
  instructions, since all jumps go forward.  The walk for deadlocks counts its steps as the code does.
  The loops that sleep for a file lock recurse on the list of wake-ups.  Fuel occurs in \<open>reserve_split\<close>, where the number of
  children that meet the range is enough (\<open>reserve_region_covers\<close>) and where no amount is for a range that begins
  before the root (\<open>reserve_region_never_returns\<close>), in \<open>expand_loop\<close>, and in \<open>exit_sem_loop\<close>, where the length of the
  list and one more is enough (\<open>exit_sem_completes\<close>).  The scan of a semaphore queue restarts after an entry has
  left, which is its measure.  \<open>memblock_add_region\<close> has fuel for the depth of its recursion through the doubling of an array,
  which is 2 for the reserved table (\<open>add_reserved\<close>).  The search for a free block (\<open>find_region_loop\<close>) and the loop that cuts the reserved
  regions (\<open>limit_reserved\<close>) are \<open>partial_function\<close>s: the first always returns (\<open>find_region_loop_highest\<close>), the second does not
  (\<open>limit_reserved_hangs\<close>).

  \<^bold>\<open>Not modelled.\<close>  Hardware (\<^verbatim>\<open>drivers\<close>, \<^verbatim>\<open>arch\<close>, \<^verbatim>\<open>sound\<close>): its correctness is relative to devices the sources do not
  describe.  The memory model: a section under a spinlock is one step, and RCU is the atomicity of a
  pointer update.  Reference counts of credentials, audit records, lockdep annotations and tracing do not
  influence the results that are modelled.  Of the components above: the scatter lists of \<^verbatim>\<open>kfifo\<close>, allocation and
  transmission of packet buffers, the keyrings of credentials, the 16-bit variants of \<^verbatim>\<open>chown\<close>, the listings in \<^verbatim>\<open>/proc\<close>, the managed wrappers
  of the resource tree, leases and lock managers among the file locks, and of semaphores and message queues the old 16-bit layout of the structures
  copied to the user, the end of a namespace and the security hooks, which the default module grants.  Of boot memory the step relation
  leaves out adding to a memory array that is full, removing memory, the calls after the slab allocator is there and the memory limit; the
  step relation of message queues leaves out \<^verbatim>\<open>IPC_SET\<close> with a size of 2 GB or more.
  File systems, page and slab allocation, scheduling,
  block layer, network protocols, shared memory, cryptography and U-Boot are not modelled.

  \<^bold>\<open>Order of work.\<close>  Next are shared memory (\<^verbatim>\<open>ipc/shm.c\<close>), which shares \<open>Ipc_Ids\<close>, and the bit and number
  routines of \<^verbatim>\<open>lib\<close>.
\<close>

end
